(* ===== verification/Prelude.thy ===== *)
theory Prelude
  imports Main "HOL-Library.Word" "HOL-Library.List_Lexorder" "HOL-Library.Char_ord"
    "HOL-Library.Product_Lexorder" "HOL-Library.Multiset"
begin

text \<open>
  What the components of the development share.

  \<^item> Rust's \<^verbatim>\<open>Result<T, E>\<close> is the sum \<open>'e + 'a\<close>, \<open>Inl\<close> the error, and \<open>res_bind\<close> is the
    \<^verbatim>\<open>?\<close> operator.
  \<^item> A machine integer is an \<open>int\<close> with its range written out: \<open>in_i64\<close> is the range of
    \<^verbatim>\<open>i64\<close>; \<open>chk64\<close> is the checked narrowing behind \<^verbatim>\<open>checked_add\<close> and \<^verbatim>\<open>i64::try_from\<close>,
    \<open>sat64\<close> the one behind \<^verbatim>\<open>saturating_add\<close>, \<open>wrap64\<close> the two's complement wrap of an
    \<^verbatim>\<open>as i64\<close> cast and of unchecked arithmetic in a release build.
  \<^item> Rust's integer division truncates towards zero: \<open>tdiv\<close>.
  \<^item> Decimal printing and \<^verbatim>\<open>str::parse\<close> for integers, with their round trip.
  \<^item> The interface of the storage tokens, as a locale: an enum printed to a text and parsed
    back.  Every token set of the program interprets it.
\<close>

named_theorems machine_int \<open>ranges and narrowing of machine integers\<close>

section \<open>Results\<close>

type_synonym ('e, 'a) res = "'e + 'a"

definition res_bind :: "('e, 'a) res \<Rightarrow> ('a \<Rightarrow> ('e, 'b) res) \<Rightarrow> ('e, 'b) res" where
  "res_bind m f = (case m of Inl e \<Rightarrow> Inl e | Inr x \<Rightarrow> f x)"

lemma res_bind_simps [simp]:
  "res_bind (Inl e) f = Inl e"
  "res_bind (Inr x) f = f x"
  by (simp_all add: res_bind_def)

lemma res_bind_Inr_iff:
  "res_bind m f = Inr y \<longleftrightarrow> (\<exists>x. m = Inr x \<and> f x = Inr y)"
  by (cases m) auto

lemma res_bind_Inl_iff:
  "res_bind m f = Inl e \<longleftrightarrow> m = Inl e \<or> (\<exists>x. m = Inr x \<and> f x = Inl e)"
  by (cases m) auto

definition ok_or :: "'a option \<Rightarrow> 'e \<Rightarrow> ('e, 'a) res" where
  "ok_or v e = (case v of None \<Rightarrow> Inl e | Some x \<Rightarrow> Inr x)"

lemma ok_or_simps [simp]: "ok_or None e = Inl e" "ok_or (Some x) e = Inr x"
  by (simp_all add: ok_or_def)

section \<open>Machine integers\<close>

definition i64_min :: int where "i64_min = -9223372036854775808"
definition i64_max :: int where "i64_max = 9223372036854775807"

definition in_i64 :: "int \<Rightarrow> bool" where
  "in_i64 x \<longleftrightarrow> i64_min \<le> x \<and> x \<le> i64_max"

definition chk64 :: "int \<Rightarrow> int option" where
  "chk64 x = (if in_i64 x then Some x else None)"

definition sat64 :: "int \<Rightarrow> int" where
  "sat64 x = max i64_min (min i64_max x)"

definition wrap64 :: "int \<Rightarrow> int" where
  "wrap64 x = (x + 9223372036854775808) mod 18446744073709551616 - 9223372036854775808"

lemmas i64_bounds [machine_int] = i64_min_def i64_max_def in_i64_def

lemma chk64_Some_iff [simp]: "chk64 x = Some y \<longleftrightarrow> in_i64 x \<and> y = x"
  by (auto simp: chk64_def)

lemma chk64_None_iff [simp]: "chk64 x = None \<longleftrightarrow> \<not> in_i64 x"
  by (auto simp: chk64_def)

lemma sat64_in_range [simp]: "in_i64 (sat64 x)"
  by (auto simp: sat64_def machine_int)

lemma sat64_id [simp]: "in_i64 x \<Longrightarrow> sat64 x = x"
  by (auto simp: sat64_def machine_int)

lemma sat64_mono: "x \<le> y \<Longrightarrow> sat64 x \<le> sat64 y"
  by (auto simp: sat64_def)

lemma sat64_nonneg [simp]: "0 \<le> x \<Longrightarrow> 0 \<le> sat64 x"
  by (auto simp: sat64_def machine_int)

lemma sat64_le: "0 \<le> x \<Longrightarrow> sat64 x \<le> x"
  by (auto simp: sat64_def machine_int)

lemma wrap64_id [simp]: "in_i64 x \<Longrightarrow> wrap64 x = x"
  by (simp add: wrap64_def machine_int)

lemma in_i64_0 [simp]: "in_i64 0"
  by (simp add: machine_int)

lemma wrap64_in_range [simp]: "in_i64 (wrap64 x)"
proof -
  let ?m = "(x + 9223372036854775808) mod 18446744073709551616"
  have "0 \<le> ?m" "?m < 18446744073709551616" by simp_all
  then show ?thesis by (simp add: wrap64_def machine_int)
qed

lemma max_sat64_diff: "in_i64 e \<Longrightarrow> 0 \<le> s \<Longrightarrow> max (sat64 (e - s)) 0 = max (e - s) 0"
proof (cases "e \<le> s")
  case True
  then have "sat64 (e - s) \<le> sat64 0" by (intro sat64_mono) simp
  with True show ?thesis by (simp add: sat64_def i64_min_def i64_max_def)
next
  case False
  assume "in_i64 e" "0 \<le> s"
  with False have "in_i64 (e - s)" by (simp add: machine_int)
  then show ?thesis by simp
qed

lemma wrap64_cong: "x mod 18446744073709551616 = y mod 18446744073709551616 \<Longrightarrow> wrap64 x = wrap64 y"
  unfolding wrap64_def by (drule mod_add_cong [OF _ refl [of "9223372036854775808 mod 18446744073709551616"]]) (simp only:)

lemma wrap64_mod: "wrap64 x mod 18446744073709551616 = x mod 18446744073709551616"
  unfolding wrap64_def by (simp only: mod_diff_left_eq add_diff_cancel_right')

lemma wrap64_wrap64 [simp]:
  "wrap64 (wrap64 x + y) = wrap64 (x + y)" "wrap64 (x + wrap64 y) = wrap64 (x + y)"
  "wrap64 (wrap64 x - y) = wrap64 (x - y)" "wrap64 (x - wrap64 y) = wrap64 (x - y)"
  by (rule wrap64_cong, rule mod_add_cong mod_diff_cong, rule wrap64_mod refl, rule refl wrap64_mod)+

text \<open>\<^verbatim>\<open>i128\<close> products, in the wide intermediates of interest arithmetic.\<close>

definition wrap128 :: "int \<Rightarrow> int" where
  "wrap128 x =
     (x + 170141183460469231731687303715884105728) mod 340282366920938463463374607431768211456
     - 170141183460469231731687303715884105728"

lemma wrap128_id [simp]:
  "- 170141183460469231731687303715884105728 \<le> x \<Longrightarrow> x < 170141183460469231731687303715884105728 \<Longrightarrow> wrap128 x = x"
  by (simp add: wrap128_def)

text \<open>\<^verbatim>\<open>abs\<close> of a signed integer, which wraps at the least one in a release build.\<close>

definition abs64 :: "int \<Rightarrow> int" where
  "abs64 x = wrap64 \<bar>x\<bar>"

text \<open>\<^verbatim>\<open>iter().sum::<i64>()\<close>: additions from the left, each wrapping.\<close>

definition sum64 :: "int list \<Rightarrow> int" where
  "sum64 xs = foldl (\<lambda>s x. wrap64 (s + x)) 0 xs"

lemma foldl_wrap64: "wrap64 (foldl (\<lambda>s x. wrap64 (s + x)) a xs) = wrap64 (a + sum_list xs)"
  by (induction xs arbitrary: a) (simp_all add: add.assoc)

lemma sum64_eq [simp]: "sum64 xs = wrap64 (sum_list xs)"
proof (cases xs rule: rev_cases)
  case (snoc ys y)
  have "wrap64 (foldl (\<lambda>s x. wrap64 (s + x)) 0 ys + y) = wrap64 (sum_list ys + y)"
    using foldl_wrap64 [of 0 ys] by (metis add_0 wrap64_wrap64(1))
  then show ?thesis by (simp add: sum64_def snoc)
qed (simp add: sum64_def)


lemma in_i64_max [simp]: "in_i64 i64_max" and in_i64_min [simp]: "in_i64 i64_min"
  by (simp_all add: machine_int)

lemma in_i64_between: "in_i64 a \<Longrightarrow> in_i64 b \<Longrightarrow> a \<le> x \<Longrightarrow> x \<le> b \<Longrightarrow> in_i64 x"
  by (simp add: machine_int)

lemma in_i64_nonneg_le: "in_i64 b \<Longrightarrow> 0 \<le> x \<Longrightarrow> x \<le> b \<Longrightarrow> in_i64 x"
  by (rule in_i64_between [of 0 b]) simp_all

subsection \<open>Truncating division\<close>

text \<open>Rust's \<^verbatim>\<open>/\<close> on signed integers, for a nonzero divisor.\<close>

definition tdiv :: "int \<Rightarrow> int \<Rightarrow> int" where
  "tdiv a b = sgn a * sgn b * (\<bar>a\<bar> div \<bar>b\<bar>)"

lemma tdiv_nonneg_eq: "0 \<le> a \<Longrightarrow> 0 < b \<Longrightarrow> tdiv a b = a div b"
  by (cases "a = 0") (auto simp: tdiv_def)

lemma tdiv_neg_eq: "a < 0 \<Longrightarrow> 0 < b \<Longrightarrow> tdiv a b = - ((- a) div b)"
  by (simp add: tdiv_def)

lemma tdiv_nonneg [simp]: "0 \<le> a \<Longrightarrow> 0 < b \<Longrightarrow> 0 \<le> tdiv a b"
  by (simp add: tdiv_nonneg_eq pos_imp_zdiv_nonneg_iff)

lemma tdiv_mono: "a \<le> a' \<Longrightarrow> 0 < b \<Longrightarrow> tdiv a b \<le> tdiv a' b"
proof -
  assume h: "a \<le> a'" "0 < b"
  show ?thesis
  proof (cases "0 \<le> a")
    case True
    with h show ?thesis by (simp add: tdiv_nonneg_eq zdiv_mono1)
  next
    case neg: False
    show ?thesis
    proof (cases "0 \<le> a'")
      case True
      have "0 \<le> (- a) div b" using neg h by (simp add: pos_imp_zdiv_nonneg_iff)
      moreover have "0 \<le> a' div b" using True h by (simp add: pos_imp_zdiv_nonneg_iff)
      ultimately show ?thesis using neg True h by (simp add: tdiv_nonneg_eq tdiv_neg_eq)
    next
      case False
      with neg h show ?thesis by (simp add: tdiv_neg_eq zdiv_mono1)
    qed
  qed
qed

lemma tdiv_le_self: "0 \<le> a \<Longrightarrow> 0 < b \<Longrightarrow> tdiv a b \<le> a"
proof -
  assume h: "0 \<le> a" "0 < b"
  then have "a div b \<le> a div 1" by (intro zdiv_mono2) auto
  with h show ?thesis by (simp add: tdiv_nonneg_eq)
qed

section \<open>Decimal text\<close>

text \<open>Rust's \<^verbatim>\<open>{}\<close> for an unsigned integer: decimal digits, no leading zero.\<close>

definition digit_char :: "nat \<Rightarrow> char" where
  "digit_char d = char_of (48 + d)"

fun show_nat :: "nat \<Rightarrow> string" where
  "show_nat n = (if n < 10 then [digit_char n] else show_nat (n div 10) @ [digit_char (n mod 10)])"

declare show_nat.simps [simp del]

definition show_int :: "int \<Rightarrow> string" where
  "show_int n = (if n < 0 then CHR ''-'' # show_nat (nat (- n)) else show_nat (nat n))"

definition is_digit :: "char \<Rightarrow> bool" where
  "is_digit c \<longleftrightarrow> 48 \<le> (of_char c :: nat) \<and> (of_char c :: nat) \<le> 57"

definition digits_value :: "string \<Rightarrow> nat" where
  "digits_value s = foldl (\<lambda>v c. 10 * v + (of_char c - 48)) 0 s"

text \<open>
  \<^verbatim>\<open>str::parse\<close>: one optional sign (\<^verbatim>\<open>-\<close> only for signed types), then at least one digit,
  nothing else, and the value in the type's range.
\<close>

definition parse_digits :: "string \<Rightarrow> nat option" where
  "parse_digits s = (if s \<noteq> [] \<and> list_all is_digit s then Some (digits_value s) else None)"

definition parse_u32 :: "string \<Rightarrow> int option" where
  "parse_u32 s =
     (case parse_digits (case s of c # r \<Rightarrow> if c = CHR ''+'' then r else s | [] \<Rightarrow> []) of
        None \<Rightarrow> None
      | Some n \<Rightarrow> if n < 4294967296 then Some (int n) else None)"

definition parse_i64 :: "string \<Rightarrow> int option" where
  "parse_i64 s =
     (case s of
        [] \<Rightarrow> None
      | c # r \<Rightarrow>
          (if c = CHR ''-'' then Option.bind (parse_digits r) (\<lambda>n. chk64 (- int n))
           else Option.bind (parse_digits (if c = CHR ''+'' then r else s)) (\<lambda>n. chk64 (int n))))"

lemma of_char_digit: "d < 10 \<Longrightarrow> (of_char (digit_char d) :: nat) = 48 + d"
  by (simp add: digit_char_def)

lemma is_digit_digit_char: "d < 10 \<Longrightarrow> is_digit (digit_char d)"
  by (simp add: is_digit_def of_char_digit)

lemma show_nat_nonempty [simp]: "show_nat n \<noteq> []"
  by (subst show_nat.simps) simp

lemma show_nat_digits: "list_all is_digit (show_nat n)"
proof (induction n rule: show_nat.induct)
  case (1 n)
  then show ?case
    by (cases "n < 10") (simp_all add: show_nat.simps [of n] is_digit_digit_char)
qed

lemma digits_value_snoc: "digits_value (s @ [c]) = 10 * digits_value s + (of_char c - 48)"
  by (simp add: digits_value_def)

lemma digits_value_show_nat: "digits_value (show_nat n) = n"
proof (induction n rule: show_nat.induct)
  case (1 n)
  show ?case
  proof (cases "n < 10")
    case True
    then show ?thesis
      by (simp add: show_nat.simps [of n] digits_value_def of_char_digit)
  next
    case False
    with 1 have "digits_value (show_nat (n div 10)) = n div 10" by simp
    with False show ?thesis
      by (simp add: show_nat.simps [of n] digits_value_snoc of_char_digit)
  qed
qed

lemma parse_digits_show_nat [simp]: "parse_digits (show_nat n) = Some n"
  by (simp add: parse_digits_def show_nat_digits digits_value_show_nat)

lemma show_nat_head_digit: "show_nat n = c # r \<Longrightarrow> is_digit c"
  using show_nat_digits [of n] by simp

lemma not_digit_signs [simp]: "\<not> is_digit (CHR ''+'')" "\<not> is_digit (CHR ''-'')" "\<not> is_digit (CHR ''_'')"
  by (simp_all add: is_digit_def)

lemma parse_u32_show_nat: "n < 4294967296 \<Longrightarrow> parse_u32 (show_nat n) = Some (int n)"
proof -
  assume n: "n < 4294967296"
  obtain c r where cr: "show_nat n = c # r" by (cases "show_nat n") simp_all
  then have "c \<noteq> CHR ''+''" using show_nat_head_digit by fastforce
  with n cr show ?thesis
    using parse_digits_show_nat [of n] by (simp add: parse_u32_def)
qed

lemma parse_i64_show_int:
  assumes "in_i64 n"
  shows "parse_i64 (show_int n) = Some n"
proof (cases "n < 0")
  case True
  with assms show ?thesis by (simp add: parse_i64_def show_int_def)
next
  case False
  obtain c r where cr: "show_nat (nat n) = c # r" by (cases "show_nat (nat n)") simp_all
  then have "c \<noteq> CHR ''+''" "c \<noteq> CHR ''-''" using show_nat_head_digit by fastforce+
  with False cr assms show ?thesis
    using parse_digits_show_nat [of "nat n"] by (simp add: parse_i64_def show_int_def)
qed

section \<open>Ordered maps\<close>

text \<open>
  \<^verbatim>\<open>BTreeMap\<close>: the entries in ascending order of the keys, which is the order of iteration.
  \<open>bt_upsert k d f\<close> is \<^verbatim>\<open>entry(k).or_insert(d)\<close> followed by the update \<open>f\<close> of the value.
\<close>

fun bt_upsert :: "'k :: linorder \<Rightarrow> 'v \<Rightarrow> ('v \<Rightarrow> 'v) \<Rightarrow> ('k \<times> 'v) list \<Rightarrow> ('k \<times> 'v) list" where
  "bt_upsert k d f [] = [(k, f d)]"
| "bt_upsert k d f ((k', v) # xs) =
     (if k < k' then (k, f d) # (k', v) # xs
      else if k = k' then (k', f v) # xs
      else (k', v) # bt_upsert k d f xs)"

definition bt_sorted :: "('k :: linorder \<times> 'v) list \<Rightarrow> bool" where
  "bt_sorted xs \<longleftrightarrow> sorted_wrt (<) (map fst xs)"

lemma bt_upsert_keys: "set (map fst (bt_upsert k d f xs)) = insert k (set (map fst xs))"
proof (induction xs)
  case (Cons kv xs)
  then show ?case by (cases kv) (simp add: insert_commute)
qed simp

lemma bt_upsert_sorted [intro]: "bt_sorted xs \<Longrightarrow> bt_sorted (bt_upsert k d f xs)"
proof (induction xs)
  case (Cons kv xs)
  then show ?case
    using bt_upsert_keys [of k d f xs]
    by (cases kv) (auto simp: bt_sorted_def simp del: set_map)
qed (simp add: bt_sorted_def)

lemma map_of_bt_upsert:
  "bt_sorted xs \<Longrightarrow>
   map_of (bt_upsert k d f xs) = (map_of xs)(k \<mapsto> f (case map_of xs k of None \<Rightarrow> d | Some v \<Rightarrow> v))"
proof (induction xs)
  case (Cons kv xs)
  obtain k' v where kv: "kv = (k', v)" by fastforce
  have "bt_sorted xs" "\<And>x. x \<in> fst ` set xs \<Longrightarrow> k' < x" using Cons.prems by (auto simp: kv bt_sorted_def)
  moreover from this have "k < k' \<Longrightarrow> map_of xs k = None" by (fastforce simp: map_of_eq_None_iff)
  ultimately show ?case using Cons.IH by (auto simp: kv fun_eq_iff)
qed simp

lemma bt_ext:
  assumes "bt_sorted xs" "bt_sorted ys" "map_of xs = map_of ys"
  shows "xs = ys"
proof -
  have d: "distinct (map fst xs)" "distinct (map fst ys)" "sorted (map fst xs)" "sorted (map fst ys)"
    using assms(1,2) by (simp_all add: bt_sorted_def strict_sorted_iff)
  then have "set xs = set ys" using assms(3) map_of_inject_set by blast
  moreover have "inj_on fst (set xs \<union> set ys)"
    using d(1) \<open>set xs = set ys\<close> by (simp add: distinct_map)
  ultimately show ?thesis using d by (intro map_sorted_distinct_set_unique [of fst xs ys])
qed

text \<open>Grouping into an ordered map: \<^verbatim>\<open>entry(key).or_default().push(x)\<close> for every element.\<close>

definition bt_group :: "('a \<Rightarrow> 'k :: linorder) \<Rightarrow> 'a list \<Rightarrow> ('k \<times> 'a list) list" where
  "bt_group key xs = foldl (\<lambda>groups x. bt_upsert (key x) [] (\<lambda>g. g @ [x]) groups) [] xs"

lemma bt_group_spec:
  "bt_sorted (bt_group key xs) \<and>
   map_of (bt_group key xs) = (\<lambda>k. if k \<in> key ` set xs then Some (filter (\<lambda>x. key x = k) xs) else None)"
proof (induction xs rule: rev_induct)
  case Nil
  show ?case by (simp add: bt_group_def bt_sorted_def fun_eq_iff)
next
  case (snoc x xs)
  have step: "bt_group key (xs @ [x]) = bt_upsert (key x) [] (\<lambda>g. g @ [x]) (bt_group key xs)"
    by (simp add: bt_group_def)
  have "filter (\<lambda>y. key y = key x) xs = []" if "key x \<notin> key ` set xs"
    using that unfolding filter_empty_conv by (metis image_eqI)
  with snoc show ?case by (auto simp: step map_of_bt_upsert fun_eq_iff)
qed

lemma bt_group_set:
  "set (bt_group key xs) = (\<lambda>k. (k, filter (\<lambda>x. key x = k) xs)) ` key ` set xs"
proof -
  have d: "distinct (map fst (bt_group key xs))"
    using bt_group_spec [of key xs] by (simp add: bt_sorted_def strict_sorted_iff)
  have "(k, g) \<in> set (bt_group key xs) \<longleftrightarrow> k \<in> key ` set xs \<and> g = filter (\<lambda>x. key x = k) xs" for k g
    using map_of_eq_Some_iff [OF d, of k g] bt_group_spec [of key xs] by (auto split: if_splits)
  then show ?thesis by auto
qed

section \<open>Storage tokens\<close>

text \<open>
  The program stores its enums as short texts: an \<^verbatim>\<open>as_token\<close> or \<^verbatim>\<open>as_str\<close> on one side, a
  \<^verbatim>\<open>parse\<close> or \<^verbatim>\<open>from_token\<close> on the other.  What a reader relies on is that a value it wrote
  parses back; \<open>ok\<close> is the set of values a writer may hold.
\<close>

locale token_codec =
  fixes token :: "'a \<Rightarrow> string"
    and parse :: "string \<Rightarrow> 'a option"
    and ok :: "'a \<Rightarrow> bool"
  assumes parse_token: "ok x \<Longrightarrow> parse (token x) = Some x"
begin

lemma token_eq_iff: "ok x \<Longrightarrow> ok y \<Longrightarrow> token x = token y \<longleftrightarrow> x = y"
  by (metis parse_token option.inject)

lemma inj_on_token: "inj_on token (Collect ok)"
  by (auto simp: inj_on_def token_eq_iff)

lemma column_round_trip: "list_all ok xs \<Longrightarrow> those (map (parse \<circ> token) xs) = Some xs"
  by (induction xs) (auto simp: parse_token)

lemma distinct_tokens: "list_all ok xs \<Longrightarrow> distinct xs \<Longrightarrow> distinct (map token xs)"
  by (induction xs) (auto simp: list_all_iff token_eq_iff)

end


end
