(* ===== verification/Money.thy ===== *)
theory Money
  imports Prelude Complex_Main
begin

text \<open>
  \<^verbatim>\<open>crates/core-money/src/lib.rs\<close>: amounts in integer minor units tagged with a currency, the
  checked arithmetic on them, the rounding division and the printed form.

  An amount is the record \<open>money\<close>; \<open>money_wf\<close> is what the private fields protect (the exponent
  is the currency's, the units fit \<^verbatim>\<open>i64\<close>).  Every operation returns a \<open>money_error\<close> or a
  well-formed amount.  \<open>round_ref\<close> is the mathematical meaning of the seven rounding modes, over
  the rationals; the division is proved equal to it.  The trait \<^verbatim>\<open>CurrencyConverter\<close> is the
  locale \<open>currency_converter\<close>, which \<^verbatim>\<open>NoOpConverter\<close> interprets.
\<close>

section \<open>Currencies, modes, errors\<close>

datatype currency = Usd | Eur

fun currency_code :: "currency \<Rightarrow> string" where
  "currency_code Usd = ''USD''"
| "currency_code Eur = ''EUR''"

fun exponent :: "currency \<Rightarrow> nat" where
  "exponent Usd = 2"
| "exponent Eur = 2"

datatype rounding_mode = HalfEven | HalfUp | HalfDown | Ceil | Floor | TowardZero | AwayFromZero

datatype money_error =
    CurrencyMismatch currency currency
  | Overflow
  | DivisionByZero
  | ExponentMismatch currency nat nat
  | ConversionNotSupported currency currency

section \<open>Amounts\<close>

record money =
  minor_units :: int
  currency :: currency
  currency_exponent :: nat

definition money_new :: "int \<Rightarrow> currency \<Rightarrow> money" where
  "money_new u c = \<lparr>minor_units = u, currency = c, currency_exponent = exponent c\<rparr>"

definition money_zero :: "currency \<Rightarrow> money" where
  "money_zero c = money_new 0 c"

definition from_parts :: "int \<Rightarrow> currency \<Rightarrow> nat \<Rightarrow> (money_error, money) res" where
  "from_parts u c e =
     (let expected = exponent c
      in if e \<noteq> expected then Inl (ExponentMismatch c expected e) else Inr (money_new u c))"

text \<open>Deserialization runs \<^verbatim>\<open>TryFrom<MoneyWire>\<close>, that is \<open>from_parts\<close> on the wire's fields.\<close>

record money_wire =
  wire_minor_units :: int
  wire_currency :: currency
  wire_currency_exponent :: nat

definition money_try_from_wire :: "money_wire \<Rightarrow> (money_error, money) res" where
  "money_try_from_wire w = from_parts (wire_minor_units w) (wire_currency w) (wire_currency_exponent w)"

definition is_zero :: "money \<Rightarrow> bool" where
  "is_zero m \<longleftrightarrow> minor_units m = 0"

definition require_same_currency :: "money \<Rightarrow> money \<Rightarrow> (money_error, unit) res" where
  "require_same_currency a b =
     (if currency a = currency b then Inr () else Inl (CurrencyMismatch (currency a) (currency b)))"

definition checked_add :: "money \<Rightarrow> money \<Rightarrow> (money_error, money) res" where
  "checked_add a b =
     res_bind (require_same_currency a b) (\<lambda>_.
     res_bind (ok_or (chk64 (minor_units a + minor_units b)) Overflow) (\<lambda>sum.
     Inr (money_new sum (currency a))))"

definition checked_sub :: "money \<Rightarrow> money \<Rightarrow> (money_error, money) res" where
  "checked_sub a b =
     res_bind (require_same_currency a b) (\<lambda>_.
     res_bind (ok_or (chk64 (minor_units a - minor_units b)) Overflow) (\<lambda>diff.
     Inr (money_new diff (currency a))))"

definition checked_neg :: "money \<Rightarrow> (money_error, money) res" where
  "checked_neg a =
     res_bind (ok_or (chk64 (- minor_units a)) Overflow) (\<lambda>neg. Inr (money_new neg (currency a)))"

definition checked_mul_int :: "money \<Rightarrow> int \<Rightarrow> (money_error, money) res" where
  "checked_mul_int a factor =
     res_bind (ok_or (chk64 (minor_units a * factor)) Overflow) (\<lambda>p. Inr (money_new p (currency a)))"

text \<open>
  The division works on magnitudes in \<^verbatim>\<open>u128\<close> (\<open>n_abs\<close>, \<open>d_abs\<close>), decides from the remainder
  whether to round the quotient up, and narrows the signed result back.
\<close>

definition round_up :: "rounding_mode \<Rightarrow> bool \<Rightarrow> int \<Rightarrow> int \<Rightarrow> int \<Rightarrow> bool" where
  "round_up mode negative quot remainder d_abs =
     (if remainder = 0 then False
      else let twice = remainder * 2
      in case mode of
           TowardZero \<Rightarrow> False
         | AwayFromZero \<Rightarrow> True
         | Floor \<Rightarrow> negative
         | Ceil \<Rightarrow> \<not> negative
         | HalfUp \<Rightarrow> d_abs \<le> twice
         | HalfDown \<Rightarrow> d_abs < twice
         | HalfEven \<Rightarrow>
             (if d_abs < twice then True
              else if twice < d_abs then False
              else quot mod 2 = 1))"

definition i128_try_from :: "int \<Rightarrow> int option" where
  "i128_try_from x =
     (if x \<le> 170141183460469231731687303715884105727 then Some x else None)"

definition checked_div_int :: "money \<Rightarrow> int \<Rightarrow> rounding_mode \<Rightarrow> (money_error, money) res" where
  "checked_div_int a divisor mode =
     (if divisor = 0 then Inl DivisionByZero
      else
        let n = minor_units a;
            d = divisor;
            negative = ((n < 0) \<noteq> (d < 0));
            n_abs = \<bar>n\<bar>;
            d_abs = \<bar>d\<bar>;
            quot = n_abs div d_abs;
            remainder = n_abs mod d_abs;
            magnitude = (if round_up mode negative quot remainder d_abs then quot + 1 else quot)
        in res_bind (ok_or (i128_try_from magnitude) Overflow) (\<lambda>magnitude.
           res_bind (ok_or (chk64 (if negative then - magnitude else magnitude)) Overflow) (\<lambda>result.
           Inr (money_new result (currency a)))))"

section \<open>The printed form\<close>

definition pad_zero :: "nat \<Rightarrow> string \<Rightarrow> string" where
  "pad_zero w s = replicate (w - length s) (CHR ''0'') @ s"

definition money_display :: "money \<Rightarrow> string" where
  "money_display m =
     (let ex = currency_exponent m
      in if ex = 0 then currency_code (currency m) @ '' '' @ show_int (minor_units m)
         else
           let scale = 10 ^ ex;
               sign = (if minor_units m < 0 then ''-'' else []);
               a = nat \<bar>minor_units m\<bar>;
               whole = a div scale;
               frac = a mod scale
           in currency_code (currency m) @ '' '' @ sign @ show_nat whole @ ''.'' @ pad_zero ex (show_nat frac))"

section \<open>Conversion\<close>

definition no_op_convert :: "money \<Rightarrow> currency \<Rightarrow> (money_error, money) res" where
  "no_op_convert a to = (if currency a = to then Inr a else Inl (ConversionNotSupported (currency a) to))"

section \<open>Well-formed amounts\<close>

definition money_wf :: "money \<Rightarrow> bool" where
  "money_wf m \<longleftrightarrow> in_i64 (minor_units m) \<and> currency_exponent m = exponent (currency m)"

lemma money_new_sel [simp]:
  "minor_units (money_new u c) = u" "currency (money_new u c) = c"
  "currency_exponent (money_new u c) = exponent c"
  by (simp_all add: money_new_def)

lemma money_new_wf [simp]: "money_wf (money_new u c) \<longleftrightarrow> in_i64 u"
  by (simp add: money_wf_def)

lemma money_zero_sel [simp]: "minor_units (money_zero c) = 0" "currency (money_zero c) = c"
  by (simp_all add: money_zero_def)

lemma money_zero_wf [simp]: "money_wf (money_zero c)"
  by (simp add: money_zero_def)

lemma money_wf_eqI:
  "money_wf a \<Longrightarrow> money_wf b \<Longrightarrow> minor_units a = minor_units b \<Longrightarrow> currency a = currency b \<Longrightarrow> a = b"
  by (simp add: money_wf_def)

lemma money_new_eqD: "money_wf m \<Longrightarrow> money_new (minor_units m) (currency m) = m"
  by (simp add: money_wf_def money_new_def)

lemma money_new_inject [simp]: "money_new u c = money_new u' c' \<longleftrightarrow> u = u' \<and> c = c'"
  by (auto simp: money_new_def)

lemma from_parts_Inr_iff:
  "from_parts u c e = Inr m \<longleftrightarrow> e = exponent c \<and> m = money_new u c"
  by (auto simp: from_parts_def Let_def)

lemma checked_add_same [simp]:
  "currency a = currency b \<Longrightarrow>
   checked_add a b =
     (if in_i64 (minor_units a + minor_units b)
      then Inr (money_new (minor_units a + minor_units b) (currency a)) else Inl Overflow)"
  by (simp add: checked_add_def require_same_currency_def chk64_def)

lemma checked_add_mismatch [simp]:
  "currency a \<noteq> currency b \<Longrightarrow> checked_add a b = Inl (CurrencyMismatch (currency a) (currency b))"
  by (simp add: checked_add_def require_same_currency_def)

lemma checked_add_Inr_iff:
  "checked_add a b = Inr m \<longleftrightarrow>
     currency a = currency b \<and> in_i64 (minor_units a + minor_units b) \<and>
     m = money_new (minor_units a + minor_units b) (currency a)"
  by (cases "currency a = currency b") auto

lemma checked_sub_Inr_iff:
  "checked_sub a b = Inr m \<longleftrightarrow>
     currency a = currency b \<and> in_i64 (minor_units a - minor_units b) \<and>
     m = money_new (minor_units a - minor_units b) (currency a)"
  by (auto simp: checked_sub_def require_same_currency_def res_bind_Inr_iff ok_or_def split: option.splits)

lemma checked_neg_Inr_iff:
  "checked_neg a = Inr m \<longleftrightarrow>
     in_i64 (- minor_units a) \<and> m = money_new (- minor_units a) (currency a)"
  by (auto simp: checked_neg_def res_bind_Inr_iff ok_or_def split: option.splits)

lemma checked_mul_int_Inr_iff:
  "checked_mul_int a k = Inr m \<longleftrightarrow>
     in_i64 (minor_units a * k) \<and> m = money_new (minor_units a * k) (currency a)"
  by (auto simp: checked_mul_int_def res_bind_Inr_iff ok_or_def split: option.splits)

section \<open>What rounding means\<close>

text \<open>
  The integer each mode picks for a rational: the specification the division is checked
  against.  \<open>HalfEven\<close> goes to the nearer integer, and to the even one from exactly half way.
\<close>

fun round_ref :: "rounding_mode \<Rightarrow> rat \<Rightarrow> int" where
  "round_ref Floor x = \<lfloor>x\<rfloor>"
| "round_ref Ceil x = \<lceil>x\<rceil>"
| "round_ref TowardZero x = (if x < 0 then \<lceil>x\<rceil> else \<lfloor>x\<rfloor>)"
| "round_ref AwayFromZero x = (if x < 0 then \<lfloor>x\<rfloor> else \<lceil>x\<rceil>)"
| "round_ref HalfUp x = (if x < 0 then \<lceil>x - 1 / 2\<rceil> else \<lfloor>x + 1 / 2\<rfloor>)"
| "round_ref HalfDown x = (if x < 0 then \<lfloor>x + 1 / 2\<rfloor> else \<lceil>x - 1 / 2\<rceil>)"
| "round_ref HalfEven x =
     (let f = \<lfloor>x\<rfloor>; r = x - of_int f
      in if r < 1 / 2 then f else if 1 / 2 < r then f + 1 else if even f then f else f + 1)"

lemma quot_rem_rat:
  fixes a b :: int
  assumes "0 \<le> a" "0 < b"
  shows "(of_int a / of_int b :: rat) = of_int (a div b) + of_int (a mod b) / of_int b"
proof -
  have "(of_int a :: rat) = of_int (b * (a div b) + a mod b)" by simp
  then have "(of_int a :: rat) = of_int b * of_int (a div b) + of_int (a mod b)"
    by (simp only: of_int_add of_int_mult)
  with assms show ?thesis by (simp add: field_simps)
qed

text \<open>
  \<open>q + r / b\<close> with \<open>0 \<le> r < b\<close>: the remainder decides every mode, on both sides of zero.
\<close>

lemma frac_cases:
  fixes r b :: int
  assumes "0 \<le> r" "r < b"
  shows "(0::rat) \<le> of_int r / of_int b" "(of_int r / of_int b :: rat) < 1"
    "((of_int r / of_int b :: rat) = 0) = (r = 0)"
    "(1 / 2 \<le> (of_int r / of_int b :: rat)) = (b \<le> r * 2)"
    "(1 / 2 < (of_int r / of_int b :: rat)) = (b < r * 2)"
proof -
  have b: "(0::rat) < of_int b" using assms by simp
  show "(0::rat) \<le> of_int r / of_int b" "(of_int r / of_int b :: rat) < 1"
    "((of_int r / of_int b :: rat) = 0) = (r = 0)"
    using assms b by (simp_all add: divide_simps)
  have "(1 / 2 \<le> (of_int r / of_int b :: rat)) = ((of_int b :: rat) \<le> of_int (r * 2))"
    using b by (simp add: field_simps)
  then show "(1 / 2 \<le> (of_int r / of_int b :: rat)) = (b \<le> r * 2)" by (simp only: of_int_le_iff)
  have "(1 / 2 < (of_int r / of_int b :: rat)) = ((of_int b :: rat) < of_int (r * 2))"
    using b by (simp add: field_simps)
  then show "(1 / 2 < (of_int r / of_int b :: rat)) = (b < r * 2)" by (simp only: of_int_less_iff)
qed

lemma round_up_nonneg:
  fixes q r b :: int
  assumes r: "0 \<le> r" "r < b" and q: "0 \<le> q"
  shows "round_ref mode (of_int q + of_int r / of_int b) =
    (if round_up mode False q r b then q + 1 else q)"
proof -
  define e :: rat where "e = of_int r / of_int b"
  note fc = frac_cases [OF r, folded e_def]
  have nn: "\<not> (of_int q + e < 0)" using q fc(1) by (simp add: not_less)
  have fl: "\<lfloor>of_int q + e\<rfloor> = q" using fc(1,2) by (intro floor_unique) simp_all
  have ce: "\<lceil>of_int q + e\<rceil> = (if r = 0 then q else q + 1)"
    using fc(1,2,3) by (auto intro!: ceiling_unique)
  have hu: "\<lfloor>of_int q + e + 1 / 2\<rfloor> = (if b \<le> r * 2 then q + 1 else q)"
    using fc(1,2) unfolding fc(4) [symmetric] by (auto intro!: floor_unique)
  have hd: "\<lceil>of_int q + e - 1 / 2\<rceil> = (if b < r * 2 then q + 1 else q)"
    using fc(1,2) unfolding fc(5) [symmetric] by (auto intro!: ceiling_unique)
  show ?thesis
    unfolding e_def [symmetric]
    using nn fl ce hu hd fc(3-5) r q
    by (cases mode) (auto simp: round_up_def Let_def not_less not_le mod2_eq_if)
qed

lemma round_up_neg:
  fixes q r b :: int
  assumes r: "0 \<le> r" "r < b" and q: "0 \<le> q" and pos: "0 < q \<or> 0 < r"
  shows "round_ref mode (- (of_int q + of_int r / of_int b)) =
    - (if round_up mode True q r b then q + 1 else q)"
proof -
  define e :: rat where "e = of_int r / of_int b"
  note fc = frac_cases [OF r, folded e_def]
  have "0 < (of_int q :: rat) + e" using q fc(1,3) pos r by (auto intro: add_pos_nonneg add_nonneg_pos simp: less_le)
  then have nn: "- (of_int q + e) < 0" by simp
  have fl: "\<lfloor>- (of_int q + e)\<rfloor> = (if r = 0 then - q else - (q + 1))"
    using fc(1,2,3) by (auto intro!: floor_unique)
  have ce: "\<lceil>- (of_int q + e)\<rceil> = - q" using fc(1,2) by (intro ceiling_unique) simp_all
  have hu: "\<lceil>- (of_int q + e) - 1 / 2\<rceil> = (if b \<le> r * 2 then - (q + 1) else - q)"
    using fc(1,2) unfolding fc(4) [symmetric] by (auto intro!: ceiling_unique)
  have hd: "\<lfloor>- (of_int q + e) + 1 / 2\<rfloor> = (if b < r * 2 then - (q + 1) else - q)"
    using fc(1,2) unfolding fc(5) [symmetric] by (auto intro!: floor_unique)
  show ?thesis
    unfolding e_def [symmetric]
    using nn fl ce hu hd fc r q
    by (cases mode) (auto simp: round_up_def Let_def not_less not_le mod2_eq_if)
qed

section \<open>The division is the rounding of the quotient\<close>

lemma round_ref_int: "round_ref mode (of_int k) = k"
proof -
  have "\<lfloor>1 / 2 :: rat\<rfloor> = 0" "\<lceil>of_int k - 1 / 2 :: rat\<rceil> = k"
    by (rule floor_unique, simp_all, rule ceiling_unique, simp_all)
  then show ?thesis by (cases mode) simp_all
qed

lemma div_signed_eq_round_ref:
  fixes n d :: int and mode :: rounding_mode
  assumes "d \<noteq> 0"
  defines "neg \<equiv> ((n < 0) \<noteq> (d < 0))"
    and "q \<equiv> \<bar>n\<bar> div \<bar>d\<bar>" and "r \<equiv> \<bar>n\<bar> mod \<bar>d\<bar>"
  defines "mag \<equiv> (if round_up mode neg q r \<bar>d\<bar> then q + 1 else q)"
  shows "(if neg then - mag else mag) = round_ref mode (of_int n / of_int d)"
proof -
  have r: "0 \<le> r" "r < \<bar>d\<bar>" and q: "0 \<le> q"
    using assms(1) by (simp_all add: r_def q_def pos_imp_zdiv_nonneg_iff)
  have x: "(of_int n / of_int d :: rat) =
    (if neg then - (of_int q + of_int r / of_int \<bar>d\<bar>) else of_int q + of_int r / of_int \<bar>d\<bar>)"
    using quot_rem_rat [of "\<bar>n\<bar>" "\<bar>d\<bar>"] assms(1) unfolding q_def r_def neg_def
    by (cases "n < 0"; cases "d < 0") (auto simp: not_less)
  show ?thesis
  proof (cases "n = 0")
    case True
    then have "q = 0" "r = 0" by (simp_all add: q_def r_def)
    then have "mag = 0" by (simp add: mag_def round_up_def)
    with True show ?thesis using round_ref_int [of mode 0] by simp
  next
    case False
    have pos: "0 < q \<or> 0 < r"
    proof (rule ccontr)
      assume "\<not> (0 < q \<or> 0 < r)"
      with q r have "q = 0" "r = 0" by simp_all
      then have "\<bar>n\<bar> = 0" using div_mult_mod_eq [of "\<bar>n\<bar>" "\<bar>d\<bar>"] by (simp add: q_def r_def)
      with False show False by simp
    qed
    show ?thesis
      using round_up_nonneg [OF r q, of mode] round_up_neg [OF r q pos, of mode]
      by (simp add: x mag_def)
  qed
qed

lemma magnitude_le:
  fixes n d :: int
  assumes "in_i64 n" "d \<noteq> 0"
  shows "\<bar>n\<bar> div \<bar>d\<bar> \<le> 9223372036854775808"
proof -
  have "\<bar>n\<bar> div \<bar>d\<bar> \<le> \<bar>n\<bar> div 1" using assms by (intro zdiv_mono2) auto
  also have "\<dots> \<le> 9223372036854775808" using assms by (simp add: machine_int abs_le_iff)
  finally show ?thesis .
qed

lemma checked_div_int_eq:
  assumes "in_i64 (minor_units a)" and "d \<noteq> 0"
  shows "checked_div_int a d mode =
    (let m = round_ref mode (of_int (minor_units a) / of_int d)
     in if in_i64 m then Inr (money_new m (currency a)) else Inl Overflow)"
proof -
  let ?n = "minor_units a"
  let ?q = "\<bar>?n\<bar> div \<bar>d\<bar>"
  define mag where
    "mag = (if round_up mode ((?n < 0) \<noteq> (d < 0)) ?q (\<bar>?n\<bar> mod \<bar>d\<bar>) \<bar>d\<bar> then ?q + 1 else ?q)"
  have "i128_try_from mag = Some mag"
    using magnitude_le [OF assms] by (simp add: i128_try_from_def mag_def)
  moreover have "checked_div_int a d mode =
    res_bind (ok_or (i128_try_from mag) Overflow) (\<lambda>mag.
    res_bind (ok_or (chk64 (if (?n < 0) \<noteq> (d < 0) then - mag else mag)) Overflow)
      (\<lambda>result. Inr (money_new result (currency a))))"
    using assms(2) by (simp only: checked_div_int_def Let_def mag_def if_False)
  ultimately have "checked_div_int a d mode =
    res_bind (ok_or (chk64 (if (?n < 0) \<noteq> (d < 0) then - mag else mag)) Overflow)
      (\<lambda>result. Inr (money_new result (currency a)))"
    by (simp only: ok_or_simps res_bind_simps)
  also have "(if (?n < 0) \<noteq> (d < 0) then - mag else mag) = round_ref mode (of_int ?n / of_int d)"
    unfolding mag_def by (rule div_signed_eq_round_ref [OF assms(2)])
  finally show ?thesis by (simp add: chk64_def Let_def)
qed

text \<open>The only quotient of two \<^verbatim>\<open>i64\<close> that does not fit is the smallest one by \<open>-1\<close>.\<close>

lemma magnitude_fits:
  fixes n d :: int
  assumes n: "in_i64 n" and d: "1 < \<bar>d\<bar>"
  shows "\<bar>n\<bar> div \<bar>d\<bar> + 1 \<le> i64_max"
proof -
  have "\<bar>n\<bar> div \<bar>d\<bar> \<le> \<bar>n\<bar> div 2" using d by (intro zdiv_mono2) auto
  moreover have "\<bar>n\<bar> \<le> 9223372036854775808" using n by (simp add: machine_int abs_le_iff)
  ultimately show ?thesis by (simp add: machine_int)
qed

lemma div_overflow_iff:
  assumes n: "in_i64 n" and d: "in_i64 d" "d \<noteq> 0"
  shows "\<not> in_i64 (round_ref mode (of_int n / of_int d)) \<longleftrightarrow> n = i64_min \<and> d = -1"
proof (cases "\<bar>d\<bar> = 1")
  case True
  then consider "d = 1" | "d = -1" by linarith
  then show ?thesis
  proof cases
    case 1
    then show ?thesis using n by (simp add: round_ref_int)
  next
    case 2
    then have "(of_int n / of_int d :: rat) = of_int (- n)" by simp
    then have "round_ref mode (of_int n / of_int d) = - n" by (simp only: round_ref_int)
    with 2 n show ?thesis by (auto simp: machine_int)
  qed
next
  case False
  with d have d1: "1 < \<bar>d\<bar>" by linarith
  let ?q = "\<bar>n\<bar> div \<bar>d\<bar>"
  define mag where
    "mag = (if round_up mode ((n < 0) \<noteq> (d < 0)) ?q (\<bar>n\<bar> mod \<bar>d\<bar>) \<bar>d\<bar> then ?q + 1 else ?q)"
  have "0 \<le> ?q" using d1 by (simp add: pos_imp_zdiv_nonneg_iff)
  then have "0 \<le> mag" "mag \<le> ?q + 1" by (simp_all add: mag_def)
  then have "0 \<le> mag" "mag \<le> i64_max" using magnitude_fits [OF n d1] by linarith+
  then have "in_i64 (if (n < 0) \<noteq> (d < 0) then - mag else mag)" by (simp add: machine_int)
  then have "in_i64 (round_ref mode (of_int n / of_int d))"
    unfolding mag_def by (simp only: div_signed_eq_round_ref [OF d(2)])
  with d1 show ?thesis by auto
qed

text \<open>
  dividing an amount by an integer gives, in every rounding mode, exactly the integer that
  the mode picks for the rational quotient, with the amount's currency; the only errors are a
  zero divisor and the one quotient that does not fit (the smallest amount by minus one).
\<close>

theorem checked_div_int_rounds:
  assumes "money_wf a" and "in_i64 d"
  shows "checked_div_int a d mode =
    (if d = 0 then Inl DivisionByZero
     else if minor_units a = i64_min \<and> d = -1 then Inl Overflow
     else Inr (money_new (round_ref mode (of_int (minor_units a) / of_int d)) (currency a)))"
proof (cases "d = 0")
  case True
  then show ?thesis by (simp add: checked_div_int_def)
next
  case False
  from assms have n: "in_i64 (minor_units a)" by (simp add: money_wf_def)
  show ?thesis
    using checked_div_int_eq [OF n False, of mode] div_overflow_iff [OF n assms(2) False, of mode] False
    by (auto simp: Let_def)
qed

theorem checked_div_int_rounds_witness:
  "checked_div_int (money_new (-25) Usd) 10 HalfEven = Inr (money_new (-2) Usd) \<and>
   round_ref HalfEven (-25 / 10) = -2"
proof -
  have wf: "money_wf (money_new (-25) Usd)" and d: "in_i64 10" by (simp_all add: machine_int)
  have "checked_div_int (money_new (-25) Usd) 10 HalfEven =
      Inr (money_new (round_ref HalfEven (of_int (-25) / of_int 10)) Usd)"
    using checked_div_int_rounds [OF wf d, of HalfEven] by simp
  moreover have "round_ref HalfEven (of_int (-25) / of_int 10) = -2"
    by (simp add: Let_def floor_divide_of_int_eq [of "-5" 2, where ?'a = rat, simplified])
  ultimately show ?thesis by simp
qed

section \<open>Sums and differences\<close>

text \<open>
  for two stored amounts, addition fails with the mismatch of their currencies, or with
  overflow exactly when the sum leaves the \<^verbatim>\<open>i64\<close> range, and otherwise yields the exact sum in
  that currency, from which subtracting either summand gives back the other.
\<close>

theorem checked_add_exact:
  assumes "money_wf a" and "money_wf b"
  shows "(case checked_add a b of
      Inl e \<Rightarrow>
        (currency a \<noteq> currency b \<and> e = CurrencyMismatch (currency a) (currency b)) \<or>
        (currency a = currency b \<and> e = Overflow \<and> \<not> in_i64 (minor_units a + minor_units b))
    | Inr c \<Rightarrow>
        money_wf c \<and> currency c = currency a \<and> currency c = currency b \<and>
        minor_units c = minor_units a + minor_units b \<and>
        checked_sub c b = Inr a \<and> checked_sub c a = Inr b \<and> checked_add b a = Inr c)"
proof (cases "checked_add a b")
  case (Inl e)
  then show ?thesis by (cases "currency a = currency b") (auto split: if_splits)
next
  case (Inr c)
  then have c: "currency a = currency b" "in_i64 (minor_units a + minor_units b)"
    "c = money_new (minor_units a + minor_units b) (currency a)"
    by (simp_all add: checked_add_Inr_iff)
  have "checked_sub c b = Inr a" "checked_sub c a = Inr b"
    using assms c by (simp_all add: checked_sub_Inr_iff money_wf_def money_new_def)
  with Inr c show ?thesis by (simp add: checked_add_Inr_iff add.commute)
qed

theorem checked_add_exact_witness:
  "checked_add (money_new 700 Usd) (money_new (-1000) Usd) = Inr (money_new (-300) Usd) \<and>
   checked_sub (money_new (-300) Usd) (money_new (-1000) Usd) = Inr (money_new 700 Usd)"
proof -
  have wf: "money_wf (money_new 700 Usd)" "money_wf (money_new (-1000) Usd)"
    by (simp_all add: machine_int)
  have add: "checked_add (money_new 700 Usd) (money_new (-1000) Usd) = Inr (money_new (-300) Usd)"
    by (simp add: machine_int)
  show ?thesis using checked_add_exact [OF wf] by (simp add: add)
qed

lemma checked_add_wf: "checked_add a b = Inr c \<Longrightarrow> money_wf c"
  by (auto simp: checked_add_Inr_iff)

lemma checked_sub_wf: "checked_sub a b = Inr c \<Longrightarrow> money_wf c"
  by (auto simp: checked_sub_Inr_iff)

lemma checked_neg_wf: "checked_neg a = Inr c \<Longrightarrow> money_wf c"
  by (auto simp: checked_neg_Inr_iff)

lemma checked_mul_int_wf: "checked_mul_int a k = Inr c \<Longrightarrow> money_wf c"
  by (auto simp: checked_mul_int_Inr_iff)

lemma from_parts_wf: "in_i64 u \<Longrightarrow> from_parts u c e = Inr m \<Longrightarrow> money_wf m"
  by (auto simp: from_parts_Inr_iff)

lemma checked_neg_involutive: "money_wf a \<Longrightarrow> checked_neg a = Inr b \<Longrightarrow> checked_neg b = Inr a"
  by (auto simp: checked_neg_Inr_iff money_wf_def money_new_def)

lemma checked_sub_eq_add_neg:
  "money_wf b \<Longrightarrow> checked_neg b = Inr b' \<Longrightarrow> checked_sub a b = checked_add a b' \<or>
     currency a \<noteq> currency b"
  by (auto simp: checked_neg_Inr_iff checked_sub_def require_same_currency_def chk64_def)

section \<open>The printed form identifies the amount\<close>

lemma takeWhile_digits:
  "list_all is_digit s \<Longrightarrow> \<not> is_digit c \<Longrightarrow> takeWhile is_digit (s @ c # r) = s"
  by (induction s) auto

lemma digits_split:
  assumes "list_all is_digit s" "list_all is_digit t" "\<not> is_digit c" "s @ c # r = t @ c # u"
  shows "s = t \<and> r = u"
  using assms takeWhile_digits [of s c r] takeWhile_digits [of t c u] by auto

lemma digits_value_pad_zero: "digits_value (pad_zero w s) = digits_value s"
proof -
  have "digits_value (replicate n (CHR ''0'') @ s) = digits_value s" for n
    by (induction n) (simp_all add: digits_value_def)
  then show ?thesis by (simp add: pad_zero_def)
qed

lemma show_nat_inj: "show_nat m = show_nat n \<longleftrightarrow> m = n"
  by (metis digits_value_show_nat)

lemma pad_show_inj: "pad_zero w (show_nat m) = pad_zero w (show_nat n) \<longleftrightarrow> m = n"
  by (metis digits_value_pad_zero digits_value_show_nat)

lemma currency_code_inj:
  "currency_code c @ CHR '' '' # r = currency_code c' @ CHR '' '' # r' \<longleftrightarrow> c = c' \<and> r = r'"
  by (cases c; cases c') auto

lemma not_digit_dot [simp]: "\<not> is_digit (CHR ''.'')"
  by (simp add: is_digit_def)

lemma show_nat_not_minus: "show_nat n @ r \<noteq> CHR ''-'' # s"
  using show_nat_head_digit [of n "CHR ''-''"] show_nat_nonempty [of n] by (cases "show_nat n") auto

lemma money_display_wf:
  "money_wf m \<Longrightarrow> money_display m =
     currency_code (currency m) @ CHR '' '' #
       ((if minor_units m < 0 then ''-'' else []) @
        (show_nat (nat \<bar>minor_units m\<bar> div 100) @ CHR ''.'' #
         pad_zero 2 (show_nat (nat \<bar>minor_units m\<bar> mod 100))))"
  by (cases "currency m") (simp_all add: money_display_def money_wf_def Let_def)

text \<open>
  the printed form of an amount (currency code, sign, whole units, point, minor units padded
  with zeros to the exponent) determines the amount: no two stored amounts print alike.
\<close>

theorem money_display_inj:
  assumes "money_wf a" and "money_wf b" and "money_display a = money_display b"
  shows "a = b"
proof -
  let ?sign = "\<lambda>m. if minor_units m < 0 then ''-'' else []"
  let ?whole = "\<lambda>m. show_nat (nat \<bar>minor_units m\<bar> div 100)"
  let ?frac = "\<lambda>m. pad_zero 2 (show_nat (nat \<bar>minor_units m\<bar> mod 100))"
  have c: "currency a = currency b"
    and rest: "?sign a @ ?whole a @ CHR ''.'' # ?frac a = ?sign b @ ?whole b @ CHR ''.'' # ?frac b"
    using assms(3) by (simp_all only: money_display_wf [OF assms(1)] money_display_wf [OF assms(2)] currency_code_inj)
  have sign: "minor_units a < 0 \<longleftrightarrow> minor_units b < 0"
    using rest show_nat_not_minus by (auto split: if_splits dest: sym)
  with rest have "?whole a @ CHR ''.'' # ?frac a = ?whole b @ CHR ''.'' # ?frac b"
    by (auto split: if_splits)
  then have "?whole a = ?whole b" "?frac a = ?frac b"
    using digits_split [OF show_nat_digits show_nat_digits not_digit_dot] by blast+
  then have "nat \<bar>minor_units a\<bar> div 100 = nat \<bar>minor_units b\<bar> div 100"
    and "nat \<bar>minor_units a\<bar> mod 100 = nat \<bar>minor_units b\<bar> mod 100"
    by (simp_all add: show_nat_inj pad_show_inj)
  then have "nat \<bar>minor_units a\<bar> = nat \<bar>minor_units b\<bar>" by (metis div_mult_mod_eq)
  with sign have "minor_units a = minor_units b" by linarith
  with c show ?thesis using assms by (intro money_wf_eqI)
qed

theorem money_display_inj_witness:
  "money_display (money_new (-5) Usd) = ''USD -0.05'' \<and> money_wf (money_new (-5) Usd) \<and>
   money_display (money_new (-50) Usd) \<noteq> ''USD -0.05''"
proof -
  have wf: "money_wf (money_new (-5) Usd)" "money_wf (money_new (-50) Usd)"
    by (simp_all add: machine_int)
  have d: "money_display (money_new (-5) Usd) = ''USD -0.05''" by code_simp
  show ?thesis using money_display_inj [OF wf] wf d by auto
qed

section \<open>Currency conversion\<close>

text \<open>
  The contract of the trait: a conversion either fails or yields a well-formed amount in the
  requested currency.  A client that converts both sides first can then add without ever meeting
  a currency mismatch.
\<close>

locale currency_converter =
  fixes convert :: "money \<Rightarrow> currency \<Rightarrow> (money_error, money) res"
  assumes convert_target: "convert a to = Inr b \<Longrightarrow> currency b = to"
    and convert_wf: "money_wf a \<Longrightarrow> convert a to = Inr b \<Longrightarrow> money_wf b"
begin

lemma add_converted_no_mismatch:
  "convert a to = Inr a' \<Longrightarrow> convert b to = Inr b' \<Longrightarrow> checked_add a' b' \<noteq> Inl (CurrencyMismatch x y)"
  by (simp add: convert_target)

lemma add_converted:
  "money_wf a \<Longrightarrow> money_wf b \<Longrightarrow> convert a to = Inr a' \<Longrightarrow> convert b to = Inr b' \<Longrightarrow>
   checked_add a' b' = Inr c \<Longrightarrow> money_wf c \<and> currency c = to"
  by (auto simp: convert_target split: if_splits)

end

interpretation no_op: currency_converter no_op_convert
  by unfold_locales (auto simp: no_op_convert_def split: if_splits)

end
