(* ===== verification/Ledger.thy ===== *)
theory Ledger
  imports Money
begin

text \<open>
  \<^verbatim>\<open>crates/core-ledger\<close>: the double-entry primitives (\<^verbatim>\<open>src/lib.rs\<close>) and the user-visible
  account with its classification (\<^verbatim>\<open>src/account.rs\<close>).

  \<open>ledger_transaction_new\<close> is \<^verbatim>\<open>LedgerTransaction::new\<close>, the only way to build a transaction;
  \<open>sum_postings\<close> is its loop.  A transaction that exists is balanced (\<open>tx_wf\<close>).  Identities are
  UUIDs, that is 128-bit words ordered as Rust orders their bytes.
\<close>

section \<open>Identities\<close>

text \<open>
  \<^verbatim>\<open>Uuid\<close> is an array of 16 bytes with the derived, lexicographic order; as a big-endian number
  it is a 128-bit word with the unsigned order.
\<close>

datatype uuid = Uuid (uuid_word: "128 word")

instantiation uuid :: linorder
begin

definition less_eq_uuid :: "uuid \<Rightarrow> uuid \<Rightarrow> bool" where
  "less_eq_uuid a b \<longleftrightarrow> uuid_word a \<le> uuid_word b"

definition less_uuid :: "uuid \<Rightarrow> uuid \<Rightarrow> bool" where
  "less_uuid a b \<longleftrightarrow> uuid_word a < uuid_word b"

instance
  by standard (auto simp: less_eq_uuid_def less_uuid_def uuid.expand)

end

section \<open>Ledger accounts and postings\<close>

datatype account_kind = Asset | Liability | Equity | Income | Expense

record ledger_account =
  la_id :: uuid
  la_kind :: account_kind
  la_currency :: currency

definition ledger_account_new :: "uuid \<Rightarrow> account_kind \<Rightarrow> currency \<Rightarrow> ledger_account" where
  "ledger_account_new i k c = \<lparr>la_id = i, la_kind = k, la_currency = c\<rparr>"

record posting =
  account :: uuid
  amount :: money

definition posting_new :: "uuid \<Rightarrow> money \<Rightarrow> posting" where
  "posting_new a m = \<lparr>account = a, amount = m\<rparr>"

datatype ledger_error =
    TooFewPostings nat
  | MixedCurrency currency currency
  | Unbalanced money
  | MoneyErr money_error

section \<open>Transactions\<close>

text \<open>\<^verbatim>\<open>DateTime<Utc>\<close> is an instant; the ledger only carries it.\<close>

record ledger_transaction =
  tx_id :: uuid
  operation_id :: uuid
  occurred_at :: int
  postings :: "posting list"

text \<open>The summing loop of \<^verbatim>\<open>LedgerTransaction::new\<close>.\<close>

fun sum_postings :: "currency \<Rightarrow> money \<Rightarrow> posting list \<Rightarrow> (ledger_error, money) res" where
  "sum_postings c acc [] = Inr acc"
| "sum_postings c acc (p # ps) =
     (if currency (amount p) \<noteq> c then Inl (MixedCurrency c (currency (amount p)))
      else case checked_add acc (amount p) of
             Inl e \<Rightarrow> Inl (MoneyErr e)
           | Inr acc' \<Rightarrow> sum_postings c acc' ps)"

definition ledger_transaction_new ::
    "uuid \<Rightarrow> uuid \<Rightarrow> int \<Rightarrow> posting list \<Rightarrow> (ledger_error, ledger_transaction) res" where
  "ledger_transaction_new i op when ps =
     (if length ps < 2 then Inl (TooFewPostings (length ps))
      else
        let c = currency (amount (ps ! 0))
        in res_bind (sum_postings c (money_zero c) ps) (\<lambda>total.
           if \<not> is_zero total then Inl (Unbalanced total)
           else Inr \<lparr>tx_id = i, operation_id = op, occurred_at = when, postings = ps\<rparr>))"

definition tx_currency :: "ledger_transaction \<Rightarrow> currency" where
  "tx_currency t = currency (amount (postings t ! 0))"

text \<open>
  Deserialization: the derived decoder of \<^verbatim>\<open>LedgerTransactionRaw\<close> yields the four fields, and
  \<^verbatim>\<open>try_from\<close> validates them through the constructor.
\<close>

record ledger_transaction_raw =
  raw_id :: uuid
  raw_operation_id :: uuid
  raw_occurred_at :: int
  raw_postings :: "posting list"

definition ledger_transaction_try_from :: "ledger_transaction_raw \<Rightarrow> (ledger_error, ledger_transaction) res" where
  "ledger_transaction_try_from r =
     ledger_transaction_new (raw_id r) (raw_operation_id r) (raw_occurred_at r) (raw_postings r)"

section \<open>What a transaction guarantees\<close>

definition units :: "posting list \<Rightarrow> int list" where
  "units ps = map (\<lambda>p. minor_units (amount p)) ps"

definition tx_wf :: "ledger_transaction \<Rightarrow> bool" where
  "tx_wf t \<longleftrightarrow>
     2 \<le> length (postings t) \<and>
     (\<forall>p \<in> set (postings t). currency (amount p) = tx_currency t) \<and>
     sum_list (units (postings t)) = 0"

text \<open>Every partial sum of the loop stays in range: what "no overflow" means for it.\<close>

fun prefixes_fit :: "int \<Rightarrow> int list \<Rightarrow> bool" where
  "prefixes_fit s [] = True"
| "prefixes_fit s (u # us) = (in_i64 (s + u) \<and> prefixes_fit (s + u) us)"

lemma units_simps [simp]: "units [] = []" "units (p # ps) = minor_units (amount p) # units ps"
  by (simp_all add: units_def)

lemma sum_postings_Inr_iff:
  "currency s = c \<Longrightarrow> currency_exponent s = exponent c \<Longrightarrow>
   sum_postings c s ps = Inr r \<longleftrightarrow>
     (\<forall>p \<in> set ps. currency (amount p) = c) \<and> prefixes_fit (minor_units s) (units ps) \<and>
     r = money_new (minor_units s + sum_list (units ps)) c"
proof (induction ps arbitrary: s)
  case Nil
  then show ?case by (auto simp: money_new_def)
next
  case (Cons p ps)
  show ?case
  proof (cases "currency (amount p) = c \<and> in_i64 (minor_units s + minor_units (amount p))")
    case True
    with Cons.prems Cons.IH [of "money_new (minor_units s + minor_units (amount p)) c"]
    show ?thesis by (auto simp: add.assoc)
  next
    case False
    with Cons.prems show ?thesis by (auto split: if_splits)
  qed
qed

lemma sum_postings_mixed:
  "sum_postings c s ps = Inl (MixedCurrency x y) \<Longrightarrow> x = c \<and> (\<exists>p \<in> set ps. currency (amount p) = y) \<and> x \<noteq> y"
  by (induction ps arbitrary: s) (auto split: if_splits sum.splits)

lemma sum_postings_money_err:
  "currency s = c \<Longrightarrow> sum_postings c s ps = Inl (MoneyErr e) \<Longrightarrow> e = Overflow"
proof (induction ps arbitrary: s)
  case Nil
  then show ?case by simp
next
  case (Cons p ps)
  from Cons.prems Cons.IH [of "money_new (minor_units s + minor_units (amount p)) c"]
  show ?case by (auto split: if_splits)
qed

text \<open>
  a transaction can be built exactly from at least two postings of one currency that sum to
  zero with every partial sum in the \<^verbatim>\<open>i64\<close> range, and it then carries the given postings.
\<close>

theorem ledger_transaction_new_iff:
  "ledger_transaction_new i op when ps = Inr t \<longleftrightarrow>
     2 \<le> length ps \<and>
     (\<forall>p \<in> set ps. currency (amount p) = currency (amount (ps ! 0))) \<and>
     prefixes_fit 0 (units ps) \<and> sum_list (units ps) = 0 \<and>
     t = \<lparr>tx_id = i, operation_id = op, occurred_at = when, postings = ps\<rparr>"
proof -
  let ?c = "currency (amount (ps ! 0))"
  have exp: "currency_exponent (money_zero ?c) = exponent ?c" by (simp add: money_zero_def)
  show ?thesis
    using sum_postings_Inr_iff [OF _ exp, of ps]
    by (auto simp: ledger_transaction_new_def Let_def res_bind_Inr_iff is_zero_def)
qed

lemma built_tx_wf: "ledger_transaction_new i op when ps = Inr t \<Longrightarrow> tx_wf t"
proof -
  assume "ledger_transaction_new i op when ps = Inr t"
  then show ?thesis
    unfolding ledger_transaction_new_iff by (simp add: tx_wf_def tx_currency_def)
qed

theorem ledger_transaction_new_iff_witness:
  "ledger_transaction_new (Uuid 1) (Uuid 2) 0
     [posting_new (Uuid 3) (money_new 2500 Usd), posting_new (Uuid 4) (money_new (-2500) Usd)] =
   Inr \<lparr>tx_id = Uuid 1, operation_id = Uuid 2, occurred_at = 0,
        postings = [posting_new (Uuid 3) (money_new 2500 Usd), posting_new (Uuid 4) (money_new (-2500) Usd)]\<rparr>"
  by (simp add: ledger_transaction_new_iff posting_new_def machine_int)

text \<open>
  whatever the order of construction, a transaction that exists is valid (two postings or
  more, one currency, balanced to zero), reading it back from its own fields rebuilds exactly
  it, and reading back fields whose postings do not balance never yields a transaction.
\<close>

theorem transaction_always_valid:
  assumes "ledger_transaction_try_from r = Inr t"
  shows "tx_wf t \<and>
    ledger_transaction_try_from
      \<lparr>raw_id = tx_id t, raw_operation_id = operation_id t, raw_occurred_at = occurred_at t,
       raw_postings = postings t\<rparr> = Inr t \<and>
    (sum_list (units ps) \<noteq> 0 \<longrightarrow> ledger_transaction_try_from (r\<lparr>raw_postings := ps\<rparr>) \<noteq> Inr t')"
  using assms built_tx_wf unfolding ledger_transaction_try_from_def
  by (auto simp: ledger_transaction_new_iff)

theorem transaction_always_valid_witness:
  "tx_wf \<lparr>tx_id = Uuid 1, operation_id = Uuid 2, occurred_at = 0,
     postings = [posting_new (Uuid 3) (money_new 7 Eur), posting_new (Uuid 4) (money_new (-7) Eur)]\<rparr>"
proof -
  let ?ps = "[posting_new (Uuid 3) (money_new 7 Eur), posting_new (Uuid 4) (money_new (-7) Eur)]"
  have "ledger_transaction_try_from
      \<lparr>raw_id = Uuid 1, raw_operation_id = Uuid 2, raw_occurred_at = 0, raw_postings = ?ps\<rparr> =
    Inr \<lparr>tx_id = Uuid 1, operation_id = Uuid 2, occurred_at = 0, postings = ?ps\<rparr>"
    by (simp add: ledger_transaction_try_from_def ledger_transaction_new_def Let_def is_zero_def
      posting_new_def machine_int)
  from transaction_always_valid [OF this] show ?thesis by blast
qed

text \<open>
  The balance of an account over a list of transactions, and the double-entry law: over any set
  of accounts that covers the postings, the balances of valid transactions sum to zero.
\<close>

definition account_balance :: "ledger_transaction list \<Rightarrow> uuid \<Rightarrow> int" where
  "account_balance ts a =
     sum_list (map (\<lambda>p. minor_units (amount p)) (filter (\<lambda>p. account p = a) (concat (map postings ts))))"

lemma sum_by_account:
  assumes "finite A" "\<forall>p \<in> set ps. account p \<in> A"
  shows "(\<Sum>a\<in>A. sum_list (map f (filter (\<lambda>p. account p = a) ps))) = sum_list (map f ps)"
  using assms(2)
proof (induction ps)
  case Nil
  then show ?case by simp
next
  case (Cons p ps)
  have "(\<Sum>a\<in>A. sum_list (map f (filter (\<lambda>q. account q = a) (p # ps)))) =
    (\<Sum>a\<in>A. (if a = account p then f p else 0) + sum_list (map f (filter (\<lambda>q. account q = a) ps)))"
    by (rule sum.cong) auto
  also have "\<dots> = f p + sum_list (map f ps)"
    using Cons assms(1) by (simp add: sum.distrib)
  finally show ?case by simp
qed

lemma sum_concat_wf: "\<forall>t \<in> set ts. tx_wf t \<Longrightarrow> sum_list (map (\<lambda>p. minor_units (amount p)) (concat (map postings ts))) = 0"
  by (induction ts) (auto simp: tx_wf_def units_def)

text \<open>
  C31: over any collection of transactions the constructor accepted, the balances of all the
  accounts they touch sum to zero.
\<close>

theorem double_entry:
  assumes "\<forall>t \<in> set ts. \<exists>i op when ps. ledger_transaction_new i op when ps = Inr t"
    and "finite A" and "\<forall>t \<in> set ts. \<forall>p \<in> set (postings t). account p \<in> A"
  shows "(\<Sum>a\<in>A. account_balance ts a) = 0"
proof -
  have "\<forall>t \<in> set ts. tx_wf t" using assms(1) built_tx_wf by blast
  then show ?thesis
    unfolding account_balance_def
    by (subst sum_by_account) (use assms(2,3) sum_concat_wf [of ts] in auto)
qed

theorem double_entry_witness:
  "(\<Sum>a\<in>{Uuid 3, Uuid 4}. account_balance
     [\<lparr>tx_id = Uuid 1, operation_id = Uuid 2, occurred_at = 0,
       postings = [posting_new (Uuid 3) (money_new 7 Eur), posting_new (Uuid 4) (money_new (-7) Eur)]\<rparr>] a) = 0"
proof (rule double_entry)
  let ?ps = "[posting_new (Uuid 3) (money_new 7 Eur), posting_new (Uuid 4) (money_new (-7) Eur)]"
  have "ledger_transaction_new (Uuid 1) (Uuid 2) 0 ?ps =
    Inr \<lparr>tx_id = Uuid 1, operation_id = Uuid 2, occurred_at = 0, postings = ?ps\<rparr>"
    by (simp add: ledger_transaction_new_def Let_def is_zero_def posting_new_def machine_int)
  then show "\<forall>t \<in> set [\<lparr>tx_id = Uuid 1, operation_id = Uuid 2, occurred_at = 0, postings = ?ps\<rparr>].
      \<exists>i op when ps. ledger_transaction_new i op when ps = Inr t"
    by auto
qed (simp_all add: posting_new_def)

end
