(* ===== verification/Accounts.thy ===== *)
theory Accounts
  imports Ledger
begin

text \<open>
  \<^verbatim>\<open>crates/core-ledger/src/account.rs\<close>: the classification of user-visible accounts (kind, normal
  side, cashflow role, subtype, cash tier), their storage tokens, and the account record with its
  builder.  The subtype tokens interpret the \<open>token_codec\<close> interface.
\<close>

datatype normal_balance = Debit | Credit

fun normal_balance_str :: "normal_balance \<Rightarrow> string" where
  "normal_balance_str Debit = ''debit''"
| "normal_balance_str Credit = ''credit''"

fun kind_normal_balance :: "account_kind \<Rightarrow> normal_balance" where
  "kind_normal_balance Asset = Debit"
| "kind_normal_balance Expense = Debit"
| "kind_normal_balance _ = Credit"

fun account_kind_str :: "account_kind \<Rightarrow> string" where
  "account_kind_str Asset = ''asset''"
| "account_kind_str Liability = ''liability''"
| "account_kind_str Equity = ''equity''"
| "account_kind_str Income = ''income''"
| "account_kind_str Expense = ''expense''"

datatype cashflow_role =
    LiquidCash | CreditFacility | LoanLiability | InvestmentAsset | RealAsset
  | ExternalClearing | IncomeExpenseVirtual

fun role_account_kind :: "cashflow_role \<Rightarrow> account_kind" where
  "role_account_kind LiquidCash = Asset"
| "role_account_kind InvestmentAsset = Asset"
| "role_account_kind RealAsset = Asset"
| "role_account_kind ExternalClearing = Asset"
| "role_account_kind CreditFacility = Liability"
| "role_account_kind LoanLiability = Liability"
| "role_account_kind IncomeExpenseVirtual = Income"

definition role_normal_balance :: "cashflow_role \<Rightarrow> normal_balance" where
  "role_normal_balance r = kind_normal_balance (role_account_kind r)"

fun cashflow_role_str :: "cashflow_role \<Rightarrow> string" where
  "cashflow_role_str LiquidCash = ''liquid_cash''"
| "cashflow_role_str CreditFacility = ''credit_facility''"
| "cashflow_role_str LoanLiability = ''loan_liability''"
| "cashflow_role_str InvestmentAsset = ''investment_asset''"
| "cashflow_role_str RealAsset = ''real_asset''"
| "cashflow_role_str ExternalClearing = ''external_clearing''"
| "cashflow_role_str IncomeExpenseVirtual = ''income_expense_virtual''"

datatype account_subtype =
    Checking | Savings | MoneyMarket | Cash | CreditCard | LineOfCredit | Mortgage | AutoLoan
  | StudentLoan | Brokerage | Retirement | Hsa | Crypto | Property | Vehicle | OtherRealAsset

definition all_subtypes :: "account_subtype list" where
  "all_subtypes =
     [Checking, Savings, MoneyMarket, Cash, CreditCard, LineOfCredit, Mortgage, AutoLoan,
      StudentLoan, Brokerage, Retirement, Hsa, Crypto, Property, Vehicle, OtherRealAsset]"

fun subtype_str :: "account_subtype \<Rightarrow> string" where
  "subtype_str Checking = ''checking''"
| "subtype_str Savings = ''savings''"
| "subtype_str MoneyMarket = ''money_market''"
| "subtype_str Cash = ''cash''"
| "subtype_str CreditCard = ''credit_card''"
| "subtype_str LineOfCredit = ''line_of_credit''"
| "subtype_str Mortgage = ''mortgage''"
| "subtype_str AutoLoan = ''auto_loan''"
| "subtype_str StudentLoan = ''student_loan''"
| "subtype_str Brokerage = ''brokerage''"
| "subtype_str Retirement = ''retirement''"
| "subtype_str Hsa = ''hsa''"
| "subtype_str Crypto = ''crypto''"
| "subtype_str Property = ''property''"
| "subtype_str Vehicle = ''vehicle''"
| "subtype_str OtherRealAsset = ''other_real_asset''"

definition subtype_from_token :: "string \<Rightarrow> account_subtype option" where
  "subtype_from_token token = find (\<lambda>s. subtype_str s = token) all_subtypes"

fun subtype_role :: "account_subtype \<Rightarrow> cashflow_role" where
  "subtype_role Checking = LiquidCash"
| "subtype_role Savings = LiquidCash"
| "subtype_role MoneyMarket = LiquidCash"
| "subtype_role Cash = LiquidCash"
| "subtype_role CreditCard = CreditFacility"
| "subtype_role LineOfCredit = CreditFacility"
| "subtype_role Mortgage = LoanLiability"
| "subtype_role AutoLoan = LoanLiability"
| "subtype_role StudentLoan = LoanLiability"
| "subtype_role Brokerage = InvestmentAsset"
| "subtype_role Retirement = InvestmentAsset"
| "subtype_role Hsa = InvestmentAsset"
| "subtype_role Crypto = InvestmentAsset"
| "subtype_role Property = RealAsset"
| "subtype_role Vehicle = RealAsset"
| "subtype_role OtherRealAsset = RealAsset"

datatype cash_tier = Spendable | Reserve

fun subtype_cash_tier :: "account_subtype \<Rightarrow> cash_tier option" where
  "subtype_cash_tier Checking = Some Spendable"
| "subtype_cash_tier Cash = Some Spendable"
| "subtype_cash_tier Savings = Some Reserve"
| "subtype_cash_tier MoneyMarket = Some Reserve"
| "subtype_cash_tier _ = None"

record account_flags =
  flag_retirement :: bool
  flag_tax_advantaged :: bool
  flag_joint :: bool
  flag_business :: bool
  flag_active :: bool

definition default_flags :: account_flags where
  "default_flags =
     \<lparr>flag_retirement = False, flag_tax_advantaged = False, flag_joint = False,
      flag_business = False, flag_active = True\<rparr>"

record user_account =
  ua_id :: uuid
  ua_ledger_account_id :: uuid
  ua_name :: string
  ua_cashflow_role :: cashflow_role
  ua_currency :: currency
  ua_flags :: account_flags
  ua_subtype :: "account_subtype option"
  ua_last_synced :: "int option"
  ua_manual_balance_at :: "int option"

definition account_new ::
    "uuid \<Rightarrow> uuid \<Rightarrow> string \<Rightarrow> cashflow_role \<Rightarrow> currency \<Rightarrow> account_flags \<Rightarrow> user_account" where
  "account_new i l n r c f =
     \<lparr>ua_id = i, ua_ledger_account_id = l, ua_name = n, ua_cashflow_role = r, ua_currency = c,
      ua_flags = f, ua_subtype = None, ua_last_synced = None, ua_manual_balance_at = None\<rparr>"

definition with_subtype :: "user_account \<Rightarrow> account_subtype option \<Rightarrow> user_account" where
  "with_subtype a s = a\<lparr>ua_subtype := s\<rparr>"

definition account_normal_balance :: "user_account \<Rightarrow> normal_balance" where
  "account_normal_balance a = role_normal_balance (ua_cashflow_role a)"

section \<open>The subtype tokens\<close>

lemma all_subtypes_complete: "s \<in> set all_subtypes"
  by (cases s) (simp_all add: all_subtypes_def)

lemma subtype_str_inj: "subtype_str s = subtype_str t \<longleftrightarrow> s = t"
  by (cases s; cases t) simp_all

lemma subtype_from_token_str: "subtype_from_token (subtype_str s) = Some s"
  by (cases s) (simp_all add: subtype_from_token_def all_subtypes_def)

interpretation subtype: token_codec subtype_str subtype_from_token "\<lambda>_. True"
  by unfold_locales (rule subtype_from_token_str)

lemma find_SomeD: "find P xs = Some x \<Longrightarrow> P x \<and> x \<in> set xs"
  by (induction xs) (auto split: if_splits)

text \<open>
  The sixteen subtype tokens are pairwise distinct and parsing accepts exactly them: a text
  parses to a subtype if and only if it is that subtype's token; and the liquid subtypes, those
  whose ledger role is liquid cash, are exactly the ones that belong to a cash tier.
\<close>

theorem subtype_tokens_exact:
  "(subtype_from_token token = Some s \<longleftrightarrow> token = subtype_str s) \<and>
   distinct (map subtype_str all_subtypes) \<and>
   (subtype_cash_tier s = None \<longleftrightarrow> subtype_role s \<noteq> LiquidCash) \<and>
   (role_normal_balance (subtype_role s) = Credit \<longleftrightarrow>
      subtype_role s = CreditFacility \<or> subtype_role s = LoanLiability)"
proof -
  have "distinct all_subtypes" by (simp add: all_subtypes_def)
  then have "distinct (map subtype_str all_subtypes)"
    by (intro subtype.distinct_tokens) (simp_all add: list_all_iff)
  moreover have "subtype_from_token token = Some s \<longleftrightarrow> token = subtype_str s"
    using subtype_from_token_str by (auto simp: subtype_from_token_def dest!: find_SomeD)
  moreover have "subtype_cash_tier s = None \<longleftrightarrow> subtype_role s \<noteq> LiquidCash"
    and "role_normal_balance (subtype_role s) = Credit \<longleftrightarrow>
      subtype_role s = CreditFacility \<or> subtype_role s = LoanLiability"
    by (cases s; simp add: role_normal_balance_def)+
  ultimately show ?thesis by blast
qed

end
