(* ===== verification/Chrono.thy ===== *)
theory Chrono
  imports Prelude
begin

text \<open>
  The calendar library \<^verbatim>\<open>chrono\<close> (0.4) is not part of the repository: it is a parameter of the
  definitions that use it, the record \<open>chrono_date\<close> of the operations the code calls.  A
  \<^verbatim>\<open>NaiveDate\<close> is represented by its day number (consecutive days are consecutive integers, the
  order of dates is the order of the numbers and \<^verbatim>\<open>(a - b).num_days()\<close> is the difference), and
  \<open>chrono_date_ok\<close> states what the library documents of these operations and the code relies on.
  The theory \<open>Gregorian\<close> gives the proleptic Gregorian calendar as an instance of it.
\<close>

type_synonym date = int

record chrono_date =
  nd_min :: date
  nd_max :: date
  nd_year :: "date \<Rightarrow> int"
  nd_month :: "date \<Rightarrow> int"
  nd_day :: "date \<Rightarrow> int"
  nd_from_ymd_opt :: "int \<Rightarrow> int \<Rightarrow> int \<Rightarrow> date option"
  nd_checked_add_days :: "date \<Rightarrow> int \<Rightarrow> date option"
  nd_checked_sub_days :: "date \<Rightarrow> int \<Rightarrow> date option"
  nd_checked_add_months :: "date \<Rightarrow> int \<Rightarrow> date option"
  nd_checked_sub_months :: "date \<Rightarrow> int \<Rightarrow> date option"
  nd_pred_opt :: "date \<Rightarrow> date option"

definition nd_valid :: "chrono_date \<Rightarrow> date \<Rightarrow> bool" where
  "nd_valid c d \<longleftrightarrow> nd_min c \<le> d \<and> d \<le> nd_max c"

text \<open>Months since year zero: the month a date lies in, as one number.\<close>

definition month_index :: "chrono_date \<Rightarrow> date \<Rightarrow> int" where
  "month_index c d = 12 * nd_year c d + nd_month c d - 1"

text \<open>The last day of its month: the next day number of that month is not a date.\<close>

definition is_month_end :: "chrono_date \<Rightarrow> date \<Rightarrow> bool" where
  "is_month_end c d \<longleftrightarrow> nd_from_ymd_opt c (nd_year c d) (nd_month c d) (nd_day c d + 1) = None"

text \<open>
  \<open>e\<close> is \<open>d\<close> moved to the month \<open>t\<close>: the same day of the month, or the month's last day when
  the month is shorter.
\<close>

definition month_shifted :: "chrono_date \<Rightarrow> date \<Rightarrow> int \<Rightarrow> date \<Rightarrow> bool" where
  "month_shifted c d t e \<longleftrightarrow>
     nd_valid c e \<and> month_index c e = t \<and>
     (nd_day c e = nd_day c d \<or> (nd_day c e < nd_day c d \<and> is_month_end c e))"

text \<open>Day arithmetic: exact, and \<open>None\<close> outside the representable range.\<close>

definition chrono_days_ok :: "chrono_date \<Rightarrow> bool" where
  "chrono_days_ok c \<longleftrightarrow>
     nd_min c \<le> nd_max c \<and>
     (\<forall>d n. nd_valid c d \<and> 0 \<le> n \<longrightarrow>
        nd_checked_add_days c d n = (if d + n \<le> nd_max c then Some (d + n) else None) \<and>
        nd_checked_sub_days c d n = (if nd_min c \<le> d - n then Some (d - n) else None) \<and>
        nd_pred_opt c d = (if nd_min c \<le> d - 1 then Some (d - 1) else None))"

text \<open>
  Dates as year, month and day: months and days number from one, dates are ordered by month and
  then by day, within a month the days are consecutive, and \<^verbatim>\<open>from_ymd_opt\<close> finds the date.
\<close>

definition chrono_ymd_ok :: "chrono_date \<Rightarrow> bool" where
  "chrono_ymd_ok c \<longleftrightarrow>
     (\<forall>d. nd_valid c d \<longrightarrow> 1 \<le> nd_month c d \<and> nd_month c d \<le> 12 \<and> 1 \<le> nd_day c d) \<and>
     (\<forall>d e. nd_valid c d \<and> nd_valid c e \<and> d \<le> e \<longrightarrow> month_index c d \<le> month_index c e) \<and>
     (\<forall>d e. nd_valid c d \<and> nd_valid c e \<and> month_index c d = month_index c e \<longrightarrow>
        e - d = nd_day c e - nd_day c d) \<and>
     (\<forall>d k. nd_valid c d \<and> 1 \<le> k \<and> k \<le> nd_day c d \<longrightarrow> nd_valid c (d - nd_day c d + k) \<and>
        nd_year c (d - nd_day c d + k) = nd_year c d \<and> nd_month c (d - nd_day c d + k) = nd_month c d) \<and>
     (\<forall>y m k d. nd_from_ymd_opt c y m k = Some d \<longleftrightarrow>
        nd_valid c d \<and> nd_year c d = y \<and> nd_month c d = m \<and> nd_day c d = k)"

text \<open>
  Month arithmetic: to the same day of the target month, clamped to its end; \<open>None\<close> only when
  the target month lies outside the representable range.
\<close>

definition chrono_months_ok :: "chrono_date \<Rightarrow> bool" where
  "chrono_months_ok c \<longleftrightarrow>
     month_index c (nd_max c) - month_index c (nd_min c) < 4294967296 \<and>
     (\<forall>d n. nd_valid c d \<and> 0 \<le> n \<longrightarrow>
        (case nd_checked_add_months c d n of
           Some e \<Rightarrow> month_shifted c d (month_index c d + n) e
         | None \<Rightarrow> month_index c (nd_max c) < month_index c d + n) \<and>
        (case nd_checked_sub_months c d n of
           Some e \<Rightarrow> month_shifted c d (month_index c d - n) e
         | None \<Rightarrow> month_index c d - n < month_index c (nd_min c)))"

definition chrono_date_ok :: "chrono_date \<Rightarrow> bool" where
  "chrono_date_ok c \<longleftrightarrow> chrono_days_ok c \<and> chrono_ymd_ok c \<and> chrono_months_ok c"

named_theorems chrono \<open>what the calendar library documents\<close>

lemma nd_range: "chrono_date_ok c \<Longrightarrow> nd_min c \<le> nd_max c"
  by (simp add: chrono_date_ok_def chrono_days_ok_def)

lemma nd_add_days [chrono]:
  "chrono_date_ok c \<Longrightarrow> nd_valid c d \<Longrightarrow> 0 \<le> n \<Longrightarrow>
   nd_checked_add_days c d n = (if d + n \<le> nd_max c then Some (d + n) else None)"
  unfolding chrono_date_ok_def chrono_days_ok_def by blast

lemma nd_sub_days [chrono]:
  "chrono_date_ok c \<Longrightarrow> nd_valid c d \<Longrightarrow> 0 \<le> n \<Longrightarrow>
   nd_checked_sub_days c d n = (if nd_min c \<le> d - n then Some (d - n) else None)"
  unfolding chrono_date_ok_def chrono_days_ok_def by blast

lemma nd_pred [chrono]:
  "chrono_date_ok c \<Longrightarrow> nd_valid c d \<Longrightarrow>
   nd_pred_opt c d = (if nd_min c \<le> d - 1 then Some (d - 1) else None)"
  unfolding chrono_date_ok_def chrono_days_ok_def by (metis order_refl)

lemma nd_day_pos: "chrono_date_ok c \<Longrightarrow> nd_valid c d \<Longrightarrow> 1 \<le> nd_day c d"
  unfolding chrono_date_ok_def chrono_ymd_ok_def by blast

lemma nd_month_range: "chrono_date_ok c \<Longrightarrow> nd_valid c d \<Longrightarrow> 1 \<le> nd_month c d \<and> nd_month c d \<le> 12"
  unfolding chrono_date_ok_def chrono_ymd_ok_def by blast

lemma month_index_mono:
  "chrono_date_ok c \<Longrightarrow> nd_valid c d \<Longrightarrow> nd_valid c e \<Longrightarrow> d \<le> e \<Longrightarrow> month_index c d \<le> month_index c e"
  unfolding chrono_date_ok_def chrono_ymd_ok_def by blast

lemma same_month_diff:
  "chrono_date_ok c \<Longrightarrow> nd_valid c d \<Longrightarrow> nd_valid c e \<Longrightarrow> month_index c d = month_index c e \<Longrightarrow>
   e - d = nd_day c e - nd_day c d"
  unfolding chrono_date_ok_def chrono_ymd_ok_def by blast

lemma month_index_less:
  "chrono_date_ok c \<Longrightarrow> nd_valid c d \<Longrightarrow> nd_valid c e \<Longrightarrow> month_index c d < month_index c e \<Longrightarrow> d < e"
  using month_index_mono [of c e d] by (cases "d < e") auto

lemma month_index_eq_iff:
  assumes "chrono_date_ok c" "nd_valid c d" "nd_valid c e"
  shows "month_index c d = month_index c e \<longleftrightarrow> nd_year c d = nd_year c e \<and> nd_month c d = nd_month c e"
  using nd_month_range [OF assms(1,2)] nd_month_range [OF assms(1,3)]
  by (auto simp: month_index_def) presburger+

lemma nd_from_ymd_iff:
  "chrono_date_ok c \<Longrightarrow>
   nd_from_ymd_opt c y m k = Some d \<longleftrightarrow>
     nd_valid c d \<and> nd_year c d = y \<and> nd_month c d = m \<and> nd_day c d = k"
  unfolding chrono_date_ok_def chrono_ymd_ok_def by blast

lemma nd_earlier_in_month:
  assumes "chrono_date_ok c" "nd_valid c d" "1 \<le> k" "k \<le> nd_day c d"
  shows "nd_valid c (d - nd_day c d + k)" "month_index c (d - nd_day c d + k) = month_index c d"
    "nd_day c (d - nd_day c d + k) = k"
    "nd_from_ymd_opt c (nd_year c d) (nd_month c d) k = Some (d - nd_day c d + k)"
proof -
  let ?e = "d - nd_day c d + k"
  have e: "nd_valid c ?e" "nd_year c ?e = nd_year c d" "nd_month c ?e = nd_month c d"
    using assms unfolding chrono_date_ok_def chrono_ymd_ok_def by blast+
  then show "nd_valid c ?e" and mi: "month_index c ?e = month_index c d"
    by (simp_all add: month_index_def)
  show k: "nd_day c ?e = k" using same_month_diff [OF assms(1,2) e(1)] mi by simp
  show "nd_from_ymd_opt c (nd_year c d) (nd_month c d) k = Some ?e"
    using e k by (simp add: nd_from_ymd_iff [OF assms(1)])
qed

lemma nd_add_months_Some:
  assumes "chrono_date_ok c" "nd_valid c d" "0 \<le> n" "nd_checked_add_months c d n = Some e"
  shows "month_shifted c d (month_index c d + n) e"
proof -
  have "case nd_checked_add_months c d n of
      Some e \<Rightarrow> month_shifted c d (month_index c d + n) e
    | None \<Rightarrow> month_index c (nd_max c) < month_index c d + n"
    using assms(1-3) unfolding chrono_date_ok_def chrono_months_ok_def by blast
  with assms(4) show ?thesis by simp
qed

lemma nd_add_months_None:
  assumes "chrono_date_ok c" "nd_valid c d" "0 \<le> n" "nd_checked_add_months c d n = None"
  shows "month_index c (nd_max c) < month_index c d + n"
proof -
  have "case nd_checked_add_months c d n of
      Some e \<Rightarrow> month_shifted c d (month_index c d + n) e
    | None \<Rightarrow> month_index c (nd_max c) < month_index c d + n"
    using assms(1-3) unfolding chrono_date_ok_def chrono_months_ok_def by blast
  with assms(4) show ?thesis by simp
qed

lemma nd_sub_months_Some:
  assumes "chrono_date_ok c" "nd_valid c d" "0 \<le> n" "nd_checked_sub_months c d n = Some e"
  shows "month_shifted c d (month_index c d - n) e"
proof -
  have "case nd_checked_sub_months c d n of
      Some e \<Rightarrow> month_shifted c d (month_index c d - n) e
    | None \<Rightarrow> month_index c d - n < month_index c (nd_min c)"
    using assms(1-3) unfolding chrono_date_ok_def chrono_months_ok_def by blast
  with assms(4) show ?thesis by simp
qed

lemma nd_sub_months_None:
  assumes "chrono_date_ok c" "nd_valid c d" "0 \<le> n" "nd_checked_sub_months c d n = None"
  shows "month_index c d - n < month_index c (nd_min c)"
proof -
  have "case nd_checked_sub_months c d n of
      Some e \<Rightarrow> month_shifted c d (month_index c d - n) e
    | None \<Rightarrow> month_index c d - n < month_index c (nd_min c)"
    using assms(1-3) unfolding chrono_date_ok_def chrono_months_ok_def by blast
  with assms(4) show ?thesis by simp
qed

lemma nd_month_span:
  "chrono_date_ok c \<Longrightarrow> month_index c (nd_max c) - month_index c (nd_min c) < 4294967296"
  unfolding chrono_date_ok_def chrono_months_ok_def by blast

lemma nd_valid_ends: "chrono_date_ok c \<Longrightarrow> nd_valid c (nd_min c)" "chrono_date_ok c \<Longrightarrow> nd_valid c (nd_max c)"
  using nd_range [of c] by (simp_all add: nd_valid_def)

text \<open>A month's end is unique, and so is the date a month shift can yield.\<close>

lemma month_end_unique:
  assumes ok: "chrono_date_ok c" and d: "nd_valid c d" "is_month_end c d"
    and e: "nd_valid c e" "month_index c e = month_index c d"
  shows "nd_day c e \<le> nd_day c d"
proof (rule ccontr)
  assume "\<not> nd_day c e \<le> nd_day c d"
  then have k: "1 \<le> nd_day c d + 1" "nd_day c d + 1 \<le> nd_day c e"
    using nd_day_pos [OF ok d(1)] by simp_all
  have "nd_year c e = nd_year c d" "nd_month c e = nd_month c d"
    using month_index_eq_iff [OF ok e(1) d(1)] e(2) by simp_all
  with nd_earlier_in_month(4) [OF ok e(1) k] d(2) show False by (simp add: is_month_end_def)
qed

lemma month_shifted_unique:
  assumes ok: "chrono_date_ok c" and a: "month_shifted c d t a" and b: "month_shifted c d t b"
  shows "a = b"
proof -
  have v: "nd_valid c a" "nd_valid c b" and mi: "month_index c a = month_index c b"
    using a b by (auto simp: month_shifted_def)
  have "nd_day c a = nd_day c b"
    using a b month_end_unique [OF ok v(1) _ v(2)] month_end_unique [OF ok v(2) _ v(1)] mi
    by (auto simp: month_shifted_def)
  with same_month_diff [OF ok v mi] show ?thesis by simp
qed

end
