(* ===== verification/Gregorian.thy ===== *)
theory Gregorian
  imports Chrono
begin

text \<open>
  The proleptic Gregorian calendar over the library's range of years, as a concrete instance of
  the parameter \<open>chrono_date\<close>.  Day 1 is 0001-01-01.  It shows that the hypothesis
  \<open>chrono_date_ok\<close> can hold, and the witnesses evaluate the schedules on it.
\<close>

definition leap :: "int \<Rightarrow> bool" where
  "leap y \<longleftrightarrow> y mod 4 = 0 \<and> (y mod 100 \<noteq> 0 \<or> y mod 400 = 0)"

definition greg_month_len :: "int \<Rightarrow> int \<Rightarrow> int" where
  "greg_month_len y m =
     (if m = 2 then (if leap y then 29 else 28)
      else if m = 4 \<or> m = 6 \<or> m = 9 \<or> m = 11 then 30 else 31)"

text \<open>Days before the year, and before the month within it.\<close>

definition days_before_year :: "int \<Rightarrow> int" where
  "days_before_year y = 365 * (y - 1) + (y - 1) div 4 - (y - 1) div 100 + (y - 1) div 400"

definition days_before_month :: "int \<Rightarrow> int \<Rightarrow> int" where
  "days_before_month y m =
     (let l = (if leap y then 1 else 0)
      in if m \<le> 1 then 0 else if m = 2 then 31 else if m = 3 then 59 + l else if m = 4 then 90 + l
         else if m = 5 then 120 + l else if m = 6 then 151 + l else if m = 7 then 181 + l
         else if m = 8 then 212 + l else if m = 9 then 243 + l else if m = 10 then 273 + l
         else if m = 11 then 304 + l else 334 + l)"

definition greg_month_start :: "int \<Rightarrow> int" where
  "greg_month_start t = days_before_year (t div 12) + days_before_month (t div 12) (t mod 12 + 1)"

definition greg_year :: "int \<Rightarrow> int" where
  "greg_year n =
     (let y = (400 * (n - 1)) div 146097 + 1
      in if days_before_year (y + 1) < n then y + 1 else y)"

function month_search :: "int \<Rightarrow> int \<Rightarrow> int \<Rightarrow> int" where
  "month_search y k j =
     (if 12 \<le> j \<or> k \<le> days_before_month y (j + 1) then j else month_search y k (j + 1))"
  by pat_completeness auto
termination
  by (relation "measure (\<lambda>(y, k, j). nat (12 - j))") auto

declare month_search.simps [simp del]

definition greg_month :: "int \<Rightarrow> int" where
  "greg_month n = month_search (greg_year n) (n - days_before_year (greg_year n)) 1"

definition greg_day :: "int \<Rightarrow> int" where
  "greg_day n = n - days_before_year (greg_year n) - days_before_month (greg_year n) (greg_month n)"

definition greg_min_month :: int where "greg_min_month = 12 * (-262143)"
definition greg_max_month :: int where "greg_max_month = 12 * 262142 + 11"

definition greg_min :: int where "greg_min = greg_month_start greg_min_month + 1"
definition greg_max :: int where "greg_max = greg_month_start (greg_max_month + 1)"

definition greg_from_ymd :: "int \<Rightarrow> int \<Rightarrow> int \<Rightarrow> int option" where
  "greg_from_ymd y m k =
     (if -262143 \<le> y \<and> y \<le> 262142 \<and> 1 \<le> m \<and> m \<le> 12 \<and> 1 \<le> k \<and> k \<le> greg_month_len y m
      then Some (days_before_year y + days_before_month y m + k) else None)"

definition greg_to_month :: "int \<Rightarrow> int \<Rightarrow> int option" where
  "greg_to_month n t =
     (if greg_min_month \<le> t \<and> t \<le> greg_max_month
      then Some (greg_month_start t + min (greg_day n) (greg_month_len (t div 12) (t mod 12 + 1)))
      else None)"

definition gregorian :: chrono_date where
  "gregorian =
     \<lparr>nd_min = greg_min, nd_max = greg_max, nd_year = greg_year, nd_month = greg_month,
      nd_day = greg_day, nd_from_ymd_opt = greg_from_ymd,
      nd_checked_add_days = (\<lambda>d n. if d + n \<le> greg_max then Some (d + n) else None),
      nd_checked_sub_days = (\<lambda>d n. if greg_min \<le> d - n then Some (d - n) else None),
      nd_checked_add_months = (\<lambda>d n. greg_to_month d (12 * greg_year d + greg_month d - 1 + n)),
      nd_checked_sub_months = (\<lambda>d n. greg_to_month d (12 * greg_year d + greg_month d - 1 - n)),
      nd_pred_opt = (\<lambda>d. if greg_min \<le> d - 1 then Some (d - 1) else None)\<rparr>"

section \<open>Months are consecutive\<close>

lemma div_pred:
  assumes "0 < (k::int)"
  shows "(y - 1) div k = y div k - (if y mod k = 0 then 1 else 0)"
proof (cases "y mod k = 0")
  case True
  then have "y = k * (y div k)" using mult_div_mod_eq [of k y] by simp
  then have "y - 1 = k * (y div k - 1) + (k - 1)" by (simp add: algebra_simps)
  from int_div_pos_eq [OF this] assms True show ?thesis by simp
next
  case False
  have "0 \<le> y mod k" using assms by simp
  with False have r: "0 \<le> y mod k - 1" by linarith
  have "y mod k - 1 < k" using pos_mod_bound [OF assms, of y] by linarith
  moreover have "y - 1 = k * (y div k) + (y mod k - 1)" using mult_div_mod_eq [of k y] by linarith
  ultimately have "(y - 1) div k = y div k" using r int_div_pos_eq by blast
  with False show ?thesis by simp
qed

lemma div_succ:
  assumes "0 < (k::int)" "t mod k < k - 1"
  shows "(t + 1) div k = t div k" "(t + 1) mod k = t mod k + 1"
proof -
  have "0 \<le> t mod k" using assms by simp
  with assms have r: "0 \<le> t mod k + 1" "t mod k + 1 < k" by linarith+
  have e: "t + 1 = k * (t div k) + (t mod k + 1)" using mult_div_mod_eq [of k t] by linarith
  show "(t + 1) div k = t div k" using int_div_pos_eq [OF e r] .
  show "(t + 1) mod k = t mod k + 1" using int_mod_pos_eq [OF e r] .
qed

lemma div_carry:
  assumes "0 < (k::int)" "t mod k = k - 1"
  shows "(t + 1) div k = t div k + 1" "(t + 1) mod k = 0"
proof -
  have e: "t + 1 = k * (t div k + 1) + 0"
    using mult_div_mod_eq [of k t] assms(2) by (simp add: algebra_simps)
  show "(t + 1) div k = t div k + 1" using int_div_pos_eq [OF e] assms(1) by simp
  show "(t + 1) mod k = 0" using int_mod_pos_eq [OF e] assms(1) by simp
qed

lemma div_bounds: "0 < (k::int) \<Longrightarrow> k * (z div k) \<le> z \<and> z < k * (z div k) + k"
  using mult_div_mod_eq [of k z] pos_mod_bound [of k z] pos_mod_sign [of k z] by linarith

lemma mod_chain: "(y::int) mod 100 = 0 \<Longrightarrow> y mod 4 = 0" "y mod 400 = 0 \<Longrightarrow> y mod 100 = 0"
  using mod_mod_cancel [of 4 100 y] mod_mod_cancel [of 100 400 y] by simp_all

lemma year_arith:
  fixes a b c :: int
  shows "p = p' - a \<Longrightarrow> q = q' - b \<Longrightarrow> r = r' - c \<Longrightarrow>
    365 * y + p' - q' + r' - (365 * (y - 1) + p - q + r) = 365 + a - b + c"
  by (simp add: algebra_simps)

lemma leap_arith:
  "(Q \<Longrightarrow> P) \<Longrightarrow> (R \<Longrightarrow> Q) \<Longrightarrow>
   365 + (if P then 1 else 0) - (if Q then 1 else 0) + (if R then 1 else 0) =
     (if P \<and> (\<not> Q \<or> R) then 366 else (365::int))"
  by (cases P; cases Q; cases R) simp_all

lemma year_len: "days_before_year (y + 1) = days_before_year y + (if leap y then 366 else 365)"
proof -
  define a b c :: int where "a = (if y mod 4 = 0 then 1 else 0)" and "b = (if y mod 100 = 0 then 1 else 0)"
    and "c = (if y mod 400 = 0 then 1 else 0)"
  have "(y - 1) div 4 = y div 4 - a" "(y - 1) div 100 = y div 100 - b" "(y - 1) div 400 = y div 400 - c"
    unfolding a_def b_def c_def by (rule div_pred [OF zero_less_numeral])+
  then have "days_before_year (y + 1) - days_before_year y = 365 + a - b + c"
    unfolding days_before_year_def add_diff_cancel_right' by (rule year_arith)
  also have "\<dots> = (if leap y then 366 else 365)"
    unfolding leap_def a_def b_def c_def by (rule leap_arith) (rule mod_chain, assumption)+
  finally show ?thesis by simp
qed

lemma months_of_year:
  assumes "1 \<le> m" "m \<le> 11"
  shows "days_before_month y (m + 1) = days_before_month y m + greg_month_len y m"
proof -
  from assms have "m = 1 \<or> m = 2 \<or> m = 3 \<or> m = 4 \<or> m = 5 \<or> m = 6 \<or> m = 7 \<or> m = 8 \<or>
    m = 9 \<or> m = 10 \<or> m = 11" by arith
  then show ?thesis
    by (elim disjE) (simp_all add: days_before_month_def greg_month_len_def)
qed

lemma year_end: "days_before_month y 12 + greg_month_len y 12 = (if leap y then 366 else 365)"
  by (simp add: days_before_month_def greg_month_len_def)

lemma days_before_month_1: "days_before_month y 1 = 0"
  by (simp add: days_before_month_def)

lemma greg_month_start_step: "greg_month_start (t + 1) = greg_month_start t + greg_month_len (t div 12) (t mod 12 + 1)"
proof (cases "t mod 12 = 11")
  case True
  then have d: "(t + 1) div 12 = t div 12 + 1" "(t + 1) mod 12 = 0"
    using div_carry [of 12 t] by simp_all
  show ?thesis
    unfolding greg_month_start_def d True
    using year_end [of "t div 12"] by (simp add: year_len days_before_month_1)
next
  case False
  have "t mod 12 < 12" "0 \<le> t mod 12" by simp_all
  with False have lt: "t mod 12 < 12 - 1" and m: "1 \<le> t mod 12 + 1" "t mod 12 + 1 \<le> 11" by linarith+
  have d: "(t + 1) div 12 = t div 12" "(t + 1) mod 12 = t mod 12 + 1"
    using div_succ [OF _ lt] by simp_all
  show ?thesis
    unfolding greg_month_start_def d using months_of_year [OF m, of "t div 12"] by linarith
qed

lemma greg_month_len_bounds: "28 \<le> greg_month_len y m" "greg_month_len y m \<le> 31"
  by (simp_all add: greg_month_len_def)

lemma greg_month_start_mono: "t \<le> u \<Longrightarrow> greg_month_start t + 28 * (u - t) \<le> greg_month_start u"
proof (induction "nat (u - t)" arbitrary: u)
  case 0
  then show ?case by simp
next
  case (Suc n)
  then have "n = nat ((u - 1) - t)" "t \<le> u - 1" by simp_all
  from Suc.hyps(1) [OF this] have "greg_month_start t + 28 * (u - 1 - t) \<le> greg_month_start (u - 1)" .
  moreover have "greg_month_start (u - 1) + 28 \<le> greg_month_start u"
    using greg_month_start_step [of "u - 1"] greg_month_len_bounds(1) [of "(u - 1) div 12" "(u - 1) mod 12 + 1"] by simp
  ultimately show ?case by simp
qed

text \<open>The month of a day is the only one whose days include it.\<close>

lemma month_unique:
  assumes "greg_month_start t < n" "n \<le> greg_month_start (t + 1)" "greg_month_start u < n" "n \<le> greg_month_start (u + 1)"
  shows "t = u"
proof (rule ccontr)
  assume "t \<noteq> u"
  then consider "t + 1 \<le> u" | "u + 1 \<le> t" by linarith
  then show False using assms greg_month_start_mono [of "t + 1" u] greg_month_start_mono [of "u + 1" t] by cases auto
qed

section \<open>Year, month and day of a day number\<close>

lemma days_before_year_est:
  "1460970 * (y - 1) - 17500 < 4000 * days_before_year y"
  "4000 * days_before_year y \<le> 1460970 * (y - 1) + 3960"
proof -
  define z where "z = y - 1"
  define a b c where "a = z div 4" and "b = z div 100" and "c = z div 400"
  have "4 * a \<le> z" "z \<le> 4 * a + 3" "100 * b \<le> z" "z \<le> 100 * b + 99" "400 * c \<le> z" "z \<le> 400 * c + 399"
    unfolding a_def b_def c_def using div_bounds [of 4 z] div_bounds [of 100 z] div_bounds [of 400 z] by simp_all
  moreover have "days_before_year y = 365 * z + a - b + c"
    by (simp add: days_before_year_def z_def a_def b_def c_def)
  ultimately show "1460970 * (y - 1) - 17500 < 4000 * days_before_year y"
    "4000 * days_before_year y \<le> 1460970 * (y - 1) + 3960"
    unfolding z_def [symmetric] by linarith+
qed

lemma greg_year_bounds: "days_before_year (greg_year n) < n \<and> n \<le> days_before_year (greg_year n + 1)"
proof -
  define y where "y = (400 * (n - 1)) div 146097 + 1"
  have y: "146097 * (y - 1) \<le> 400 * (n - 1)" "400 * (n - 1) < 146097 * y"
    unfolding y_def using div_bounds [of 146097 "400 * (n - 1)"] by simp_all
  have "days_before_year y < n" using y(1) days_before_year_est(2) [of y] by (simp add: algebra_simps)
  moreover have "n \<le> days_before_year (y + 2)"
    using y(2) days_before_year_est(1) [of "y + 1"] year_len [of "y + 1"]
    by (simp add: algebra_simps split: if_splits)
  moreover have "greg_year n = (if days_before_year (y + 1) < n then y + 1 else y)"
    by (simp only: greg_year_def Let_def y_def)
  moreover have "y + 1 + 1 = y + 2" by simp
  ultimately show ?thesis by (simp only: not_less split: if_split) simp
qed

lemma month_search_bounds:
  assumes "1 \<le> j" "j \<le> 12" "days_before_month y j < k" "k \<le> (if leap y then 366 else 365)"
  shows "j \<le> month_search y k j \<and> month_search y k j \<le> 12 \<and>
    days_before_month y (month_search y k j) < k \<and>
    k \<le> days_before_month y (month_search y k j) + greg_month_len y (month_search y k j)"
  using assms
proof (induction y k j rule: month_search.induct)
  case (1 y k j)
  show ?case
  proof (cases "12 \<le> j \<or> k \<le> days_before_month y (j + 1)")
    case True
    then have "month_search y k j = j" by (simp add: month_search.simps [of y k j])
    moreover have "k \<le> days_before_month y j + greg_month_len y j"
    proof (cases "j = 12")
      case True
      with "1.prems" year_end [of y] show ?thesis by simp
    next
      case False
      with True "1.prems" months_of_year [of j y] show ?thesis by simp
    qed
    ultimately show ?thesis using "1.prems" by simp
  next
    case False
    then have "month_search y k j = month_search y k (j + 1)" by (simp add: month_search.simps [of y k j])
    moreover have "j + 1 \<le> month_search y k (j + 1) \<and> month_search y k (j + 1) \<le> 12 \<and>
      days_before_month y (month_search y k (j + 1)) < k \<and>
      k \<le> days_before_month y (month_search y k (j + 1)) + greg_month_len y (month_search y k (j + 1))"
      using False "1.prems" by (intro "1.IH") simp_all
    ultimately show ?thesis by simp
  qed
qed

lemma greg_bounds:
  "1 \<le> greg_month n \<and> greg_month n \<le> 12 \<and> 1 \<le> greg_day n \<and>
   greg_day n \<le> greg_month_len (greg_year n) (greg_month n)"
proof -
  define k where "k = n - days_before_year (greg_year n)"
  have k: "0 < k" "k \<le> (if leap (greg_year n) then 366 else 365)"
    using greg_year_bounds [of n] year_len [of "greg_year n"] by (simp_all add: k_def)
  have m: "greg_month n = month_search (greg_year n) k 1" by (simp add: greg_month_def k_def)
  have d: "greg_day n = k - days_before_month (greg_year n) (greg_month n)"
    by (simp add: greg_day_def k_def)
  show ?thesis
    using month_search_bounds [of 1 "greg_year n" k] k unfolding d m by (simp add: days_before_month_1)
qed

definition greg_mi :: "int \<Rightarrow> int" where
  "greg_mi n = 12 * greg_year n + greg_month n - 1"

lemma greg_mi_divmod: "greg_mi n div 12 = greg_year n" "greg_mi n mod 12 + 1 = greg_month n"
proof -
  have e: "greg_mi n = 12 * greg_year n + (greg_month n - 1)" by (simp add: greg_mi_def)
  show "greg_mi n div 12 = greg_year n" "greg_mi n mod 12 + 1 = greg_month n"
    using int_div_pos_eq [OF e] int_mod_pos_eq [OF e] greg_bounds [of n] by simp_all
qed

lemma greg_day_eq: "n = greg_month_start (greg_mi n) + greg_day n"
  using greg_mi_divmod [of n] by (simp add: greg_month_start_def greg_day_def)

lemma greg_mi_bounds: "greg_month_start (greg_mi n) < n \<and> n \<le> greg_month_start (greg_mi n + 1)"
  using greg_bounds [of n] greg_day_eq [of n] greg_month_start_step [of "greg_mi n"] greg_mi_divmod [of n]
  by simp

lemma greg_of_month:
  assumes "1 \<le> k" "k \<le> greg_month_len (t div 12) (t mod 12 + 1)"
  shows "greg_mi (greg_month_start t + k) = t" "greg_day (greg_month_start t + k) = k"
proof -
  let ?n = "greg_month_start t + k"
  show t: "greg_mi ?n = t"
    using assms greg_mi_bounds [of ?n] greg_month_start_step [of t]
    by (intro month_unique [of "greg_mi ?n" ?n t]) simp_all
  show "greg_day ?n = k" using greg_day_eq [of ?n] t by simp
qed

lemma greg_mi_mono: "m \<le> n \<Longrightarrow> greg_mi m \<le> greg_mi n"
proof (rule ccontr)
  assume "m \<le> n" "\<not> greg_mi m \<le> greg_mi n"
  then have "greg_month_start (greg_mi n + 1) \<le> greg_month_start (greg_mi m)"
    using greg_month_start_mono [of "greg_mi n + 1" "greg_mi m"] by simp
  then show False using greg_mi_bounds [of m] greg_mi_bounds [of n] \<open>m \<le> n\<close> by linarith
qed

section \<open>The instance\<close>

lemma gregorian_sel:
  "nd_min gregorian = greg_min" "nd_max gregorian = greg_max" "nd_year gregorian = greg_year"
  "nd_month gregorian = greg_month" "nd_day gregorian = greg_day"
  "nd_from_ymd_opt gregorian = greg_from_ymd"
  "nd_checked_add_days gregorian d n = (if d + n \<le> greg_max then Some (d + n) else None)"
  "nd_checked_sub_days gregorian d n = (if greg_min \<le> d - n then Some (d - n) else None)"
  "nd_checked_add_months gregorian d n = greg_to_month d (greg_mi d + n)"
  "nd_checked_sub_months gregorian d n = greg_to_month d (greg_mi d - n)"
  "nd_pred_opt gregorian d = (if greg_min \<le> d - 1 then Some (d - 1) else None)"
  by (simp_all add: gregorian_def greg_mi_def)

lemma month_index_gregorian: "month_index gregorian d = greg_mi d"
  by (simp add: month_index_def gregorian_sel greg_mi_def)

lemma greg_valid_iff: "nd_valid gregorian d \<longleftrightarrow> greg_min_month \<le> greg_mi d \<and> greg_mi d \<le> greg_max_month"
proof
  assume "nd_valid gregorian d"
  then have d: "greg_month_start greg_min_month < d" "d \<le> greg_month_start (greg_max_month + 1)"
    by (simp_all add: nd_valid_def gregorian_sel greg_min_def greg_max_def)
  note b = greg_mi_bounds [of d]
  show "greg_min_month \<le> greg_mi d \<and> greg_mi d \<le> greg_max_month"
    using greg_month_start_mono [of "greg_mi d + 1" greg_min_month]
      greg_month_start_mono [of "greg_max_month + 1" "greg_mi d"] d b by (smt (verit))
next
  assume "greg_min_month \<le> greg_mi d \<and> greg_mi d \<le> greg_max_month"
  then show "nd_valid gregorian d"
    using greg_month_start_mono [of greg_min_month "greg_mi d"] greg_mi_bounds [of d]
      greg_month_start_mono [of "greg_mi d + 1" "greg_max_month + 1"]
    by (simp add: nd_valid_def gregorian_sel greg_min_def greg_max_def)
qed

lemma greg_from_ymd_iff:
  "greg_from_ymd y m k = Some d \<longleftrightarrow>
     nd_valid gregorian d \<and> greg_year d = y \<and> greg_month d = m \<and> greg_day d = k"
proof
  assume h: "greg_from_ymd y m k = Some d"
  define t where "t = 12 * y + m - 1"
  from h have r: "-262143 \<le> y" "y \<le> 262142" "1 \<le> m" "m \<le> 12" "1 \<le> k" "k \<le> greg_month_len y m"
    and d: "d = days_before_year y + days_before_month y m + k"
    by (auto simp: greg_from_ymd_def split: if_splits)
  have e: "t = 12 * y + (m - 1)" by (simp add: t_def)
  have t: "t div 12 = y" "t mod 12 + 1 = m"
    using int_div_pos_eq [OF e] int_mod_pos_eq [OF e] r(3,4) by simp_all
  then have "d = greg_month_start t + k" by (simp add: d greg_month_start_def)
  with greg_of_month [of k t] r t have mi: "greg_mi d = t" "greg_day d = k" by simp_all
  with t greg_mi_divmod [of d] have "greg_year d = y" "greg_month d = m" by simp_all
  moreover have "nd_valid gregorian d"
    using r mi by (simp add: greg_valid_iff t_def greg_min_month_def greg_max_month_def)
  ultimately show "nd_valid gregorian d \<and> greg_year d = y \<and> greg_month d = m \<and> greg_day d = k"
    using mi by simp
next
  assume h: "nd_valid gregorian d \<and> greg_year d = y \<and> greg_month d = m \<and> greg_day d = k"
  then have "greg_min_month \<le> greg_mi d" "greg_mi d \<le> greg_max_month" by (simp_all add: greg_valid_iff)
  then have "-262143 \<le> y \<and> y \<le> 262142"
    using h greg_bounds [of d] by (simp add: greg_mi_def greg_min_month_def greg_max_month_def)
  with h greg_bounds [of d] show "greg_from_ymd y m k = Some d"
    by (auto simp: greg_from_ymd_def greg_day_def)
qed

lemma greg_month_end: "is_month_end gregorian d \<longleftrightarrow> nd_valid gregorian d \<longrightarrow> greg_day d = greg_month_len (greg_year d) (greg_month d)"
proof (cases "nd_valid gregorian d")
  case True
  then have "-262143 \<le> greg_year d \<and> greg_year d \<le> 262142"
    using greg_bounds [of d] by (simp add: greg_valid_iff greg_mi_def greg_min_month_def greg_max_month_def)
  with True greg_bounds [of d] show ?thesis
    by (auto simp: is_month_end_def gregorian_sel greg_from_ymd_def)
next
  case False
  then have "\<not> (greg_min_month \<le> greg_mi d \<and> greg_mi d \<le> greg_max_month)" by (simp add: greg_valid_iff)
  then have "\<not> (-262143 \<le> greg_year d \<and> greg_year d \<le> 262142)"
    using greg_bounds [of d] by (simp add: greg_mi_def greg_min_month_def greg_max_month_def) linarith
  with False show ?thesis by (auto simp: is_month_end_def gregorian_sel greg_from_ymd_def)
qed

lemma greg_to_month_shifted:
  assumes "greg_to_month d t = Some e"
  shows "month_shifted gregorian d t e"
proof -
  let ?l = "greg_month_len (t div 12) (t mod 12 + 1)"
  from assms have t: "greg_min_month \<le> t" "t \<le> greg_max_month"
    and e: "e = greg_month_start t + min (greg_day d) ?l"
    by (auto simp: greg_to_month_def split: if_splits)
  have k: "1 \<le> min (greg_day d) ?l" "min (greg_day d) ?l \<le> ?l"
    using greg_bounds [of d] greg_month_len_bounds(1) [of "t div 12" "t mod 12 + 1"] by simp_all
  have mi: "greg_mi e = t" "greg_day e = min (greg_day d) ?l" unfolding e by (rule greg_of_month [OF k])+
  have v: "nd_valid gregorian e" using mi t by (simp add: greg_valid_iff)
  have "greg_day e = greg_day d \<or> (greg_day e < greg_day d \<and> is_month_end gregorian e)"
    using mi greg_mi_divmod [of e] by (auto simp: greg_month_end min_def)
  with v mi show ?thesis by (simp add: month_shifted_def month_index_gregorian gregorian_sel)
qed

lemma greg_to_month_None:
  "greg_to_month d t = None \<longleftrightarrow> t < greg_min_month \<or> greg_max_month < t"
  by (auto simp: greg_to_month_def)

lemma greg_extreme_months: "greg_mi greg_min = greg_min_month" "greg_mi greg_max = greg_max_month"
proof -
  show "greg_mi greg_min = greg_min_month"
    unfolding greg_min_def using greg_month_len_bounds(1) [of "greg_min_month div 12" "greg_min_month mod 12 + 1"]
    by (intro greg_of_month(1)) simp_all
  have "greg_max = greg_month_start greg_max_month +
      greg_month_len (greg_max_month div 12) (greg_max_month mod 12 + 1)"
    unfolding greg_max_def by (rule greg_month_start_step)
  then show "greg_mi greg_max = greg_max_month"
    using greg_month_len_bounds(1) [of "greg_max_month div 12" "greg_max_month mod 12 + 1"]
    by (metis greg_of_month(1) order_refl one_le_numeral order_trans)
qed

lemma gregorian_days_ok: "chrono_days_ok gregorian"
proof -
  have "greg_min \<le> greg_max"
    using greg_month_start_mono [of greg_min_month "greg_max_month + 1"]
    by (simp add: greg_min_def greg_max_def greg_min_month_def greg_max_month_def)
  then show ?thesis by (simp add: chrono_days_ok_def gregorian_sel)
qed

lemma gregorian_ymd_ok: "chrono_ymd_ok gregorian"
  unfolding chrono_ymd_ok_def month_index_gregorian
proof (intro conjI allI impI; (elim conjE)?)
  fix d k
  assume v: "nd_valid gregorian d" and k: "1 \<le> k" "k \<le> nd_day gregorian d"
  have e: "d - nd_day gregorian d + k = greg_month_start (greg_mi d) + k"
    using greg_day_eq [of d] by (simp add: gregorian_sel)
  have "k \<le> greg_month_len (greg_mi d div 12) (greg_mi d mod 12 + 1)"
    using k greg_bounds [of d] greg_mi_divmod [of d] by (simp add: gregorian_sel)
  from greg_of_month(1) [OF k(1) this]
  have mi: "greg_mi (d - nd_day gregorian d + k) = greg_mi d" by (simp add: e)
  show "nd_valid gregorian (d - nd_day gregorian d + k)" using v by (simp only: greg_valid_iff mi)
  show "nd_year gregorian (d - nd_day gregorian d + k) = nd_year gregorian d"
    "nd_month gregorian (d - nd_day gregorian d + k) = nd_month gregorian d"
    using greg_mi_divmod [of d] greg_mi_divmod [of "d - nd_day gregorian d + k"]
    by (simp_all only: mi gregorian_sel(3,4))
next
  fix d e
  assume "greg_mi d = greg_mi e"
  then have "greg_month_start (greg_mi d) = greg_month_start (greg_mi e)" by simp
  with greg_day_eq [of d] greg_day_eq [of e] show "e - d = nd_day gregorian e - nd_day gregorian d"
    unfolding gregorian_sel by linarith
qed (simp_all add: gregorian_sel greg_bounds greg_from_ymd_iff greg_mi_mono)

lemma gregorian_months_ok: "chrono_months_ok gregorian"
  unfolding chrono_months_ok_def
  by (auto simp: month_index_gregorian gregorian_sel greg_extreme_months greg_valid_iff
      greg_min_month_def greg_max_month_def greg_to_month_shifted greg_to_month_None
      split: option.splits)

theorem gregorian_ok: "chrono_date_ok gregorian"
  by (simp add: chrono_date_ok_def gregorian_days_ok gregorian_ymd_ok gregorian_months_ok)

end
