(* ===== verification/Pay_Schedule.thy ===== *)
theory Pay_Schedule
  imports Gregorian
begin

text \<open>
  \<^verbatim>\<open>crates/pay-schedule/src/lib.rs\<close>: pay frequencies with their tokens, and the expansion of a
  schedule into the pay dates of a window.

  The calendar is the parameter \<open>c :: chrono_date\<close>.  The loops of the generators are
  \<^theory_text>\<open>partial_function (option)\<close>: \<open>None\<close> is a loop that does not end.  The theorems prove that
  they end and that the dates are exactly the occurrences of the schedule in the window, where
  \<open>occurs\<close> says what an occurrence is without any loop.  All intermediate \<^verbatim>\<open>i32\<close> and \<^verbatim>\<open>i64\<close> numbers
  of the generators are bounded by the calendar's range times the interval, far inside \<^verbatim>\<open>i64\<close>, so
  they are plain integers here.
\<close>

section \<open>Frequencies\<close>

definition max_every_n_days :: int where "max_every_n_days = 366"
definition max_every_n_weeks :: int where "max_every_n_weeks = 52"
definition max_every_n_months :: int where "max_every_n_months = 36"

datatype frequency =
    Weekly | Biweekly | SemiMonthly | Monthly | Quarterly | Annual
  | EveryNDays int | EveryNWeeks int | EveryNMonths int

fun frequency_token :: "frequency \<Rightarrow> string" where
  "frequency_token Weekly = ''weekly''"
| "frequency_token Biweekly = ''biweekly''"
| "frequency_token SemiMonthly = ''semi_monthly''"
| "frequency_token Monthly = ''monthly''"
| "frequency_token Quarterly = ''quarterly''"
| "frequency_token Annual = ''annual''"
| "frequency_token (EveryNDays n) = ''every_'' @ show_int n @ ''_days''"
| "frequency_token (EveryNWeeks n) = ''every_'' @ show_int n @ ''_weeks''"
| "frequency_token (EveryNMonths n) = ''every_'' @ show_int n @ ''_months''"

text \<open>\<^verbatim>\<open>str::strip_prefix\<close> and \<^verbatim>\<open>str::split_once\<close> on a one-character separator.\<close>

fun strip_prefix :: "string \<Rightarrow> string \<Rightarrow> string option" where
  "strip_prefix [] s = Some s"
| "strip_prefix (p # ps) [] = None"
| "strip_prefix (p # ps) (c # cs) = (if p = c then strip_prefix ps cs else None)"

fun split_once :: "char \<Rightarrow> string \<Rightarrow> (string \<times> string) option" where
  "split_once k [] = None"
| "split_once k (c # cs) =
     (if c = k then Some ([], cs)
      else case split_once k cs of None \<Rightarrow> None | Some (a, b) \<Rightarrow> Some (c # a, b))"

definition frequency_from_token :: "string \<Rightarrow> frequency option" where
  "frequency_from_token token =
     (if token = ''weekly'' then Some Weekly
      else if token = ''biweekly'' then Some Biweekly
      else if token = ''semi_monthly'' then Some SemiMonthly
      else if token = ''monthly'' then Some Monthly
      else if token = ''quarterly'' then Some Quarterly
      else if token = ''annual'' then Some Annual
      else Option.bind (strip_prefix ''every_'' token) (\<lambda>rest.
           Option.bind (split_once (CHR ''_'') rest) (\<lambda>(count, unit).
           Option.bind (parse_u32 count) (\<lambda>n.
             if unit = ''days'' \<and> 1 \<le> n \<and> n \<le> max_every_n_days then Some (EveryNDays n)
             else if unit = ''weeks'' \<and> 1 \<le> n \<and> n \<le> max_every_n_weeks then Some (EveryNWeeks n)
             else if unit = ''months'' \<and> 1 \<le> n \<and> n \<le> max_every_n_months then Some (EveryNMonths n)
             else None))))"

text \<open>Serialization writes the token; deserialization parses it or reports the text.\<close>

definition frequency_serialize :: "frequency \<Rightarrow> string" where
  "frequency_serialize f = frequency_token f"

definition frequency_deserialize :: "string \<Rightarrow> (string, frequency) res" where
  "frequency_deserialize token =
     ok_or (frequency_from_token token) (''unknown frequency token: '' @ token)"

text \<open>The intervals the parser accepts: what a stored frequency holds.\<close>

fun frequency_ok :: "frequency \<Rightarrow> bool" where
  "frequency_ok (EveryNDays n) = (1 \<le> n \<and> n \<le> max_every_n_days)"
| "frequency_ok (EveryNWeeks n) = (1 \<le> n \<and> n \<le> max_every_n_weeks)"
| "frequency_ok (EveryNMonths n) = (1 \<le> n \<and> n \<le> max_every_n_months)"
| "frequency_ok _ = True"

section \<open>Schedules\<close>

record pay_schedule =
  frequency :: frequency
  anchor :: date

definition pay_schedule_new :: "frequency \<Rightarrow> date \<Rightarrow> pay_schedule" where
  "pay_schedule_new f a = \<lparr>frequency = f, anchor = a\<rparr>"

definition shift_days :: "chrono_date \<Rightarrow> date \<Rightarrow> int \<Rightarrow> date option" where
  "shift_days c d days =
     (if 0 \<le> days then nd_checked_add_days c d days else nd_checked_sub_days c d \<bar>days\<bar>)"

text \<open>The magnitude must fit the library's \<^verbatim>\<open>u32\<close> count of months.\<close>

definition shift_months :: "chrono_date \<Rightarrow> date \<Rightarrow> int \<Rightarrow> date option" where
  "shift_months c d months =
     (if 4294967296 \<le> \<bar>months\<bar> then None
      else if 0 \<le> months then nd_checked_add_months c d \<bar>months\<bar>
      else nd_checked_sub_months c d \<bar>months\<bar>)"

definition last_day_of_month :: "chrono_date \<Rightarrow> int \<Rightarrow> int \<Rightarrow> int option" where
  "last_day_of_month c year month =
     Option.bind (nd_from_ymd_opt c year month 1) (\<lambda>first.
     Option.bind (nd_checked_add_months c first 1) (\<lambda>next.
     Option.bind (nd_pred_opt c next) (\<lambda>last. Some (nd_day c last))))"

text \<open>
  The two loops of \<^verbatim>\<open>fixed_interval_dates\<close>: step to the first date of the window (\<open>Some None\<close> is
  the early return on an unrepresentable date), then collect.
\<close>

partial_function (option) fixed_skip :: "chrono_date \<Rightarrow> int \<Rightarrow> date \<Rightarrow> date \<Rightarrow> date option option" where
  "fixed_skip c interval from date =
     (if date < from then
        (case shift_days c date interval of
           Some next \<Rightarrow> fixed_skip c interval from next
         | None \<Rightarrow> Some None)
      else Some (Some date))"

partial_function (option) fixed_collect ::
    "chrono_date \<Rightarrow> int \<Rightarrow> date \<Rightarrow> date \<Rightarrow> date list \<Rightarrow> date list option" where
  "fixed_collect c interval to date out =
     (if date \<le> to then
        (case shift_days c date interval of
           Some next \<Rightarrow> fixed_collect c interval to next (out @ [date])
         | None \<Rightarrow> Some (out @ [date]))
      else Some out)"

definition fixed_interval_dates ::
    "chrono_date \<Rightarrow> pay_schedule \<Rightarrow> int \<Rightarrow> date \<Rightarrow> date \<Rightarrow> date list option" where
  "fixed_interval_dates c s interval from to =
     (let k = (from - anchor s) div interval
      in case shift_days c (anchor s) (k * interval) of
           None \<Rightarrow> Some []
         | Some date \<Rightarrow>
             Option.bind (fixed_skip c interval from date) (\<lambda>r.
               case r of None \<Rightarrow> Some [] | Some date \<Rightarrow> fixed_collect c interval to date []))"

partial_function (option) monthly_skip ::
    "chrono_date \<Rightarrow> date \<Rightarrow> int \<Rightarrow> date \<Rightarrow> int \<Rightarrow> date \<Rightarrow> (int \<times> date) option option" where
  "monthly_skip c anch step from k date =
     (if date < from then
        (case shift_months c anch ((k + 1) * step) of
           Some next \<Rightarrow> monthly_skip c anch step from (k + 1) next
         | None \<Rightarrow> Some None)
      else Some (Some (k, date)))"

partial_function (option) monthly_collect ::
    "chrono_date \<Rightarrow> date \<Rightarrow> int \<Rightarrow> date \<Rightarrow> int \<Rightarrow> date \<Rightarrow> date list \<Rightarrow> date list option" where
  "monthly_collect c anch step to k date out =
     (if date \<le> to then
        (case shift_months c anch ((k + 1) * step) of
           Some next \<Rightarrow> monthly_collect c anch step to (k + 1) next (out @ [date])
         | None \<Rightarrow> Some (out @ [date]))
      else Some out)"

definition monthly_step_dates ::
    "chrono_date \<Rightarrow> pay_schedule \<Rightarrow> int \<Rightarrow> date \<Rightarrow> date \<Rightarrow> date list option" where
  "monthly_step_dates c s step from to =
     (let months_from_anchor =
            (nd_year c from - nd_year c (anchor s)) * 12 + (nd_month c from - nd_month c (anchor s));
          k = months_from_anchor div step - 1
      in case shift_months c (anchor s) (k * step) of
           None \<Rightarrow> Some []
         | Some date \<Rightarrow>
             Option.bind (monthly_skip c (anchor s) step from k date) (\<lambda>r.
               case r of None \<Rightarrow> Some [] | Some (k, date) \<Rightarrow> monthly_collect c (anchor s) step to k date []))"

text \<open>One month of \<^verbatim>\<open>semimonthly_dates\<close>: the 15th and the last day, when in the window.\<close>

definition semimonthly_month :: "chrono_date \<Rightarrow> date \<Rightarrow> date \<Rightarrow> int \<Rightarrow> int \<Rightarrow> int \<Rightarrow> date list" where
  "semimonthly_month c from to year month last_day =
     concat (map (\<lambda>day. case nd_from_ymd_opt c year month day of
                          None \<Rightarrow> []
                        | Some date \<Rightarrow> if from \<le> date \<and> date \<le> to then [date] else [])
       [15, last_day])"

partial_function (option) semimonthly_loop ::
    "chrono_date \<Rightarrow> date \<Rightarrow> date \<Rightarrow> date \<Rightarrow> date list \<Rightarrow> date list option" where
  "semimonthly_loop c from to month_start out =
     (if month_start \<le> to then
        (case last_day_of_month c (nd_year c month_start) (nd_month c month_start) of
           None \<Rightarrow> Some out
         | Some last_day \<Rightarrow>
             (case nd_checked_add_months c month_start 1 of
                Some next \<Rightarrow>
                  semimonthly_loop c from to next
                    (out @ semimonthly_month c from to (nd_year c month_start) (nd_month c month_start) last_day)
              | None \<Rightarrow>
                  Some (out @ semimonthly_month c from to (nd_year c month_start) (nd_month c month_start) last_day)))
      else Some out)"

text \<open>\<open>sort\<close> and \<open>remdups_adj\<close> are \<^verbatim>\<open>sort_unstable\<close> on plain dates and \<^verbatim>\<open>dedup\<close>.\<close>

definition semimonthly_dates :: "chrono_date \<Rightarrow> date \<Rightarrow> date \<Rightarrow> date list option" where
  "semimonthly_dates c from to =
     (case nd_from_ymd_opt c (nd_year c from) (nd_month c from) 1 of
        None \<Rightarrow> Some []
      | Some month_start \<Rightarrow>
          map_option (\<lambda>out. remdups_adj (sort out)) (semimonthly_loop c from to month_start []))"

definition pay_dates :: "chrono_date \<Rightarrow> pay_schedule \<Rightarrow> date \<Rightarrow> date \<Rightarrow> date list option" where
  "pay_dates c s from to =
     (if to < from then Some []
      else case frequency s of
             Weekly \<Rightarrow> fixed_interval_dates c s 7 from to
           | Biweekly \<Rightarrow> fixed_interval_dates c s 14 from to
           | SemiMonthly \<Rightarrow> semimonthly_dates c from to
           | Monthly \<Rightarrow> monthly_step_dates c s 1 from to
           | Quarterly \<Rightarrow> monthly_step_dates c s 3 from to
           | Annual \<Rightarrow> monthly_step_dates c s 12 from to
           | EveryNDays n \<Rightarrow> fixed_interval_dates c s (max n 1) from to
           | EveryNWeeks n \<Rightarrow> fixed_interval_dates c s (7 * max n 1) from to
           | EveryNMonths n \<Rightarrow> monthly_step_dates c s (max n 1) from to)"

text \<open>\<^verbatim>\<open>next_pay_date\<close>: the outer \<open>None\<close> is again a loop that does not end.\<close>

definition next_pay_date :: "chrono_date \<Rightarrow> pay_schedule \<Rightarrow> date \<Rightarrow> date option option" where
  "next_pay_date c s on_or_after =
     (case nd_checked_add_months c on_or_after 13 of
        None \<Rightarrow> Some None
      | Some to \<Rightarrow>
          map_option (\<lambda>ds. case ds of [] \<Rightarrow> None | d # _ \<Rightarrow> Some d) (pay_dates c s on_or_after to))"

declare fixed_skip.simps [code] fixed_collect.simps [code] monthly_skip.simps [code]
  monthly_collect.simps [code] semimonthly_loop.simps [code]

section \<open>Tokens round trip\<close>

lemma split_once_append:
  "list_all (\<lambda>c. c \<noteq> k) a \<Longrightarrow> split_once k (a @ k # b) = Some (a, b)"
  by (induction a) auto

lemma parse_u32_show_int:
  "parse_u32 (show_int n) = (if 0 \<le> n \<and> n < 4294967296 then Some n else None)"
proof (cases "0 \<le> n")
  case False
  then show ?thesis by (simp add: show_int_def parse_u32_def parse_digits_def)
next
  case True
  obtain c r where cr: "show_nat (nat n) = c # r" by (cases "show_nat (nat n)") simp_all
  then have "c \<noteq> CHR ''+''" using show_nat_head_digit by fastforce
  with True cr show ?thesis
    using parse_digits_show_nat [of "nat n"] by (auto simp: parse_u32_def show_int_def)
qed

lemma show_int_no_underscore: "list_all (\<lambda>c. c \<noteq> CHR ''_'') (show_int n)"
  using show_nat_digits [of "nat n"] show_nat_digits [of "nat (- n)"] not_digit_signs(3)
  by (auto simp: list_all_iff show_int_def)

lemma interval_token:
  "Option.bind (strip_prefix ''every_'' (''every_'' @ show_int n @ ''_'' @ u)) (\<lambda>rest.
     Option.bind (split_once (CHR ''_'') rest) (\<lambda>(count, unit). Option.bind (parse_u32 count) (\<lambda>k. f k unit))) =
   (if 0 \<le> n \<and> n < 4294967296 then f n u else None)"
  using split_once_append [OF show_int_no_underscore, of n u] by (simp add: parse_u32_show_int)

lemma frequency_from_token_interval:
  "frequency_from_token (''every_'' @ show_int n @ ''_'' @ u) =
    (if u = ''days'' \<and> 1 \<le> n \<and> n \<le> 366 then Some (EveryNDays n)
     else if u = ''weeks'' \<and> 1 \<le> n \<and> n \<le> 52 then Some (EveryNWeeks n)
     else if u = ''months'' \<and> 1 \<le> n \<and> n \<le> 36 then Some (EveryNMonths n) else None)"
  unfolding frequency_from_token_def interval_token
  by (simp add: max_every_n_days_def max_every_n_weeks_def max_every_n_months_def)

lemma frequency_from_token_ok: "frequency_from_token t = Some f \<Longrightarrow> frequency_ok f"
  by (auto simp: frequency_from_token_def split: if_splits bind_splits)

lemma frequency_from_own_token:
  "frequency_from_token (frequency_token f) = (if frequency_ok f then Some f else None)"
proof (cases f)
  case (EveryNDays n)
  with frequency_from_token_interval [of n "''days''"] show ?thesis by (simp add: max_every_n_days_def)
next
  case (EveryNWeeks n)
  with frequency_from_token_interval [of n "''weeks''"] show ?thesis by (simp add: max_every_n_weeks_def)
next
  case (EveryNMonths n)
  with frequency_from_token_interval [of n "''months''"] show ?thesis by (simp add: max_every_n_months_def)
qed (simp_all add: frequency_from_token_def)

interpretation freq: token_codec frequency_token frequency_from_token frequency_ok
  by unfold_locales (simp add: frequency_from_own_token)

text \<open>
  serializing a frequency and reading it back gives the frequency when its interval is in the
  accepted range and an error naming the token when it is not; two frequencies in range never share
  a token; and every frequency that parsing yields is in range.
\<close>

theorem frequency_round_trip:
  "frequency_deserialize (frequency_serialize f) =
     (if frequency_ok f then Inr f else Inl (''unknown frequency token: '' @ frequency_token f)) \<and>
   inj_on frequency_token {g. frequency_ok g} \<and>
   {g. \<exists>t. frequency_from_token t = Some g} = {g. frequency_ok g}"
proof -
  have "frequency_deserialize (frequency_serialize f) =
     (if frequency_ok f then Inr f else Inl (''unknown frequency token: '' @ frequency_token f))"
    by (simp add: frequency_deserialize_def frequency_serialize_def frequency_from_own_token)
  moreover have "{g. \<exists>t. frequency_from_token t = Some g} = {g. frequency_ok g}"
    using frequency_from_token_ok freq.parse_token by blast
  ultimately show ?thesis using freq.inj_on_token by simp
qed

section \<open>What an occurrence is\<close>

text \<open>
  Independently of any loop: the date is a whole number of intervals from the anchor, or the
  anchor's day of the month (clamped to the month's end) a whole number of steps of months away,
  or a 15th or a month's end.
\<close>

definition monthly_occurs :: "chrono_date \<Rightarrow> date \<Rightarrow> int \<Rightarrow> date \<Rightarrow> bool" where
  "monthly_occurs c anch step d \<longleftrightarrow>
     step dvd (month_index c d - month_index c anch) \<and> month_shifted c anch (month_index c d) d"

fun occurs :: "chrono_date \<Rightarrow> frequency \<Rightarrow> date \<Rightarrow> date \<Rightarrow> bool" where
  "occurs c Weekly anch d = (7 dvd (d - anch))"
| "occurs c Biweekly anch d = (14 dvd (d - anch))"
| "occurs c SemiMonthly anch d = (nd_day c d = 15 \<or> is_month_end c d)"
| "occurs c Monthly anch d = monthly_occurs c anch 1 d"
| "occurs c Quarterly anch d = monthly_occurs c anch 3 d"
| "occurs c Annual anch d = monthly_occurs c anch 12 d"
| "occurs c (EveryNDays n) anch d = (n dvd (d - anch))"
| "occurs c (EveryNWeeks n) anch d = ((7 * n) dvd (d - anch))"
| "occurs c (EveryNMonths n) anch d = monthly_occurs c anch n d"

text \<open>Dates strictly ascending, and exactly those of the window that satisfy \<open>P\<close>.\<close>

definition enumerates :: "date list \<Rightarrow> date \<Rightarrow> date \<Rightarrow> (date \<Rightarrow> bool) \<Rightarrow> bool" where
  "enumerates ys from to P \<longleftrightarrow> sorted_wrt (<) ys \<and> set ys = {d. from \<le> d \<and> d \<le> to \<and> P d}"

lemma enumerates_Cons:
  "enumerates ys from' to P \<Longrightarrow> from < from' \<Longrightarrow> from \<le> to \<Longrightarrow> P from \<Longrightarrow>
   (\<And>d. from < d \<Longrightarrow> d < from' \<Longrightarrow> d \<le> to \<Longrightarrow> \<not> P d) \<Longrightarrow> enumerates (from # ys) from to P"
  by (force simp: enumerates_def)

lemma enumerates_single:
  "from \<le> to \<Longrightarrow> P from \<Longrightarrow> (\<And>d. from < d \<Longrightarrow> d \<le> to \<Longrightarrow> \<not> P d) \<Longrightarrow> enumerates [from] from to P"
  by (force simp: enumerates_def)

lemma enumerates_Nil: "(\<And>d. from \<le> d \<Longrightarrow> d \<le> to \<Longrightarrow> \<not> P d) \<Longrightarrow> enumerates [] from to P"
  by (auto simp: enumerates_def)

lemma enumerates_from:
  "enumerates ys from' to P \<Longrightarrow> from \<le> from' \<Longrightarrow> (\<And>d. from \<le> d \<Longrightarrow> d < from' \<Longrightarrow> d \<le> to \<Longrightarrow> \<not> P d) \<Longrightarrow>
   enumerates ys from to P"
  by (force simp: enumerates_def)

lemma enumerates_cong:
  "enumerates ys from to P \<Longrightarrow> (\<And>d. from \<le> d \<Longrightarrow> d \<le> to \<Longrightarrow> P d = Q d) \<Longrightarrow> enumerates ys from to Q"
  by (auto simp: enumerates_def)

section \<open>Day intervals\<close>

lemma shift_days_eq:
  "chrono_date_ok c \<Longrightarrow> nd_valid c d \<Longrightarrow>
   shift_days c d n = (if nd_valid c (d + n) then Some (d + n) else None)"
  by (auto simp: shift_days_def chrono nd_valid_def)

lemma no_multiple_between:
  assumes "(i::int) dvd (x - a)" "x < d" "d < x + i"
  shows "\<not> i dvd (d - a)"
proof
  assume "i dvd (d - a)"
  then have "i dvd (d - x)" using assms(1) by (metis diff_diff_eq2 diff_add_cancel dvd_diff add_diff_cancel_right')
  with assms show False by (auto dest: zdvd_imp_le)
qed

lemma dvd_shift: "(i::int) dvd (x - a) \<Longrightarrow> i dvd (x + i - a)"
proof -
  assume "i dvd (x - a)"
  moreover have "x + i - a = (x - a) + i" by simp
  ultimately show ?thesis by (metis dvd_add dvd_refl)
qed

lemma fixed_collect_enumerates:
  assumes ok: "chrono_date_ok c" and i: "0 < i" and to: "nd_valid c to"
  shows "nd_valid c date \<Longrightarrow> i dvd (date - a) \<Longrightarrow>
    \<exists>ys. fixed_collect c i to date out = Some (out @ ys) \<and> enumerates ys date to (\<lambda>d. i dvd (d - a))"
proof (induction "nat (to - date + 1)" arbitrary: date out rule: less_induct)
  case less
  show ?case
  proof (cases "date \<le> to")
    case False
    then show ?thesis by (auto simp: fixed_collect.simps [of c i to date] intro!: enumerates_Nil)
  next
    case le: True
    have gap: "\<And>d. date < d \<Longrightarrow> d < date + i \<Longrightarrow> \<not> i dvd (d - a)"
      using no_multiple_between [OF less.prems(2)] by blast
    show ?thesis
    proof (cases "nd_valid c (date + i)")
      case True
      have "i dvd (date + i - a)" using less.prems(2) by (rule dvd_shift)
      with less.hyps [of "date + i" "out @ [date]"] le i True obtain ys where
        "fixed_collect c i to (date + i) (out @ [date]) = Some ((out @ [date]) @ ys)"
        "enumerates ys (date + i) to (\<lambda>d. i dvd (d - a))" by auto
      moreover have "enumerates (date # ys) date to (\<lambda>d. i dvd (d - a))"
        using calculation(2) i le less.prems(2) gap by (intro enumerates_Cons) auto
      ultimately show ?thesis
        using le True by (auto simp: fixed_collect.simps [of c i to date] shift_days_eq [OF ok less.prems(1)])
    next
      case False
      then have "to < date + i" using to i less.prems(1) by (auto simp: nd_valid_def)
      then have "enumerates [date] date to (\<lambda>d. i dvd (d - a))"
        using le less.prems(2) gap by (intro enumerates_single) auto
      then show ?thesis
        using le False by (auto simp: fixed_collect.simps [of c i to date] shift_days_eq [OF ok less.prems(1)])
    qed
  qed
qed

lemma fixed_interval_enumerates:
  assumes ok: "chrono_date_ok c" and i: "0 < i"
    and v: "nd_valid c (anchor s)" "nd_valid c from" "nd_valid c to" and room: "nd_min c + i \<le> from"
  shows "\<exists>ys. fixed_interval_dates c s i from to = Some ys \<and> enumerates ys from to (\<lambda>d. i dvd (d - anchor s))"
proof -
  let ?a = "anchor s"
  define x where "x = ?a + (from - ?a) div i * i"
  have x: "x = from - (from - ?a) mod i" by (simp add: x_def minus_mod_eq_div_mult [symmetric])
  have r: "0 \<le> (from - ?a) mod i" "(from - ?a) mod i < i" using i by simp_all
  have xb: "x \<le> from" "from < x + i" using r x by linarith+
  have vx: "nd_valid c x" using xb room v(2) by (simp add: nd_valid_def)
  have dx: "i dvd (x - ?a)" by (simp add: x_def)
  have start: "shift_days c ?a ((from - ?a) div i * i) = Some x"
    using vx by (simp add: shift_days_eq [OF ok v(1)] x_def)
  show ?thesis
  proof (cases "x = from")
    case True
    have "fixed_skip c i from x = Some (Some x)" by (subst fixed_skip.simps) (simp add: True)
    with start True fixed_collect_enumerates [OF ok i v(3) vx dx, of "[]"]
    show ?thesis by (auto simp: fixed_interval_dates_def Let_def)
  next
    case False
    with xb have lt: "x < from" by simp
    have gap: "\<And>d. from \<le> d \<Longrightarrow> d < x + i \<Longrightarrow> \<not> i dvd (d - ?a)"
      using no_multiple_between [OF dx] lt by fastforce
    show ?thesis
    proof (cases "nd_valid c (x + i)")
      case True
      have "fixed_skip c i from x = Some (Some (x + i))"
        using lt xb True
        by (simp add: fixed_skip.simps [of c i "from" x] fixed_skip.simps [of c i "from" "x + i"]
          shift_days_eq [OF ok vx])
      moreover have "i dvd (x + i - ?a)" using dx by (rule dvd_shift)
      ultimately show ?thesis
        using start fixed_collect_enumerates [OF ok i v(3) True, of ?a "[]"] xb gap
        by (fastforce simp: fixed_interval_dates_def Let_def intro: enumerates_from)
    next
      case False
      have "fixed_skip c i from x = Some None"
        using lt False by (simp add: fixed_skip.simps [of c i "from" x] shift_days_eq [OF ok vx])
      moreover have "to < x + i" using False v(3) vx i by (auto simp: nd_valid_def)
      ultimately show ?thesis
        using start gap by (auto simp: fixed_interval_dates_def Let_def intro!: enumerates_Nil)
    qed
  qed
qed

section \<open>Month steps\<close>

lemma shift_months_Some:
  assumes ok: "chrono_date_ok c" and a: "nd_valid c a" and e: "shift_months c a n = Some e"
  shows "month_shifted c a (month_index c a + n) e"
proof (cases "0 \<le> n")
  case True
  with e have "nd_checked_add_months c a n = Some e" by (simp add: shift_months_def split: if_splits)
  from nd_add_months_Some [OF ok a True this] show ?thesis .
next
  case False
  with e have "nd_checked_sub_months c a (- n) = Some e" by (simp add: shift_months_def split: if_splits)
  with False nd_sub_months_Some [OF ok a _ this] show ?thesis by simp
qed

lemma month_index_range:
  assumes ok: "chrono_date_ok c" and a: "nd_valid c a"
  shows "month_index c (nd_min c) \<le> month_index c a \<and> month_index c a \<le> month_index c (nd_max c)"
  using month_index_mono [OF ok nd_valid_ends(1) [OF ok] a] month_index_mono [OF ok a nd_valid_ends(2) [OF ok]] a
  by (simp add: nd_valid_def)

lemma shift_months_None:
  assumes ok: "chrono_date_ok c" and a: "nd_valid c a" and e: "shift_months c a n = None"
  shows "month_index c a + n < month_index c (nd_min c) \<or> month_index c (nd_max c) < month_index c a + n"
proof -
  note r = month_index_range [OF ok a] nd_month_span [OF ok]
  consider "4294967296 \<le> \<bar>n\<bar>" | "0 \<le> n" "nd_checked_add_months c a n = None"
    | "n < 0" "nd_checked_sub_months c a (- n) = None"
    using e by (auto simp: shift_months_def split: if_splits)
  then show ?thesis
  proof cases
    case 1
    with r show ?thesis by linarith
  next
    case 2
    with nd_add_months_None [OF ok a] show ?thesis by simp
  next
    case 3
    with nd_sub_months_None [OF ok a _ 3(2)] show ?thesis by simp
  qed
qed

text \<open>The dates \<open>anchor + k * step\<close> months, as far as they are representable.\<close>

definition occ :: "chrono_date \<Rightarrow> date \<Rightarrow> int \<Rightarrow> int \<Rightarrow> date option" where
  "occ c a step k = shift_months c a (k * step)"

lemma occ_month: "chrono_date_ok c \<Longrightarrow> nd_valid c a \<Longrightarrow> occ c a step k = Some d \<Longrightarrow>
    nd_valid c d \<and> month_index c d = month_index c a + k * step"
  using shift_months_Some [of c a "k * step" d] by (simp add: occ_def month_shifted_def)

lemma occ_less:
  assumes ok: "chrono_date_ok c" and a: "nd_valid c a" and s: "0 < step"
    and j: "occ c a step j = Some d" and k: "occ c a step k = Some e" and "j < k"
  shows "d < e"
proof -
  have "j * step < k * step" using s \<open>j < k\<close> by simp
  then have "month_index c d < month_index c e"
    using occ_month [OF ok a j] occ_month [OF ok a k] by linarith
  then show ?thesis
    using month_index_less [OF ok] occ_month [OF ok a j] occ_month [OF ok a k] by blast
qed

lemma occ_iff_monthly:
  assumes ok: "chrono_date_ok c" and a: "nd_valid c a" and d: "nd_valid c d"
  shows "(\<exists>k. occ c a step k = Some d) \<longleftrightarrow> monthly_occurs c a step d"
proof
  assume "\<exists>k. occ c a step k = Some d"
  then obtain k where k: "occ c a step k = Some d" ..
  with shift_months_Some [OF ok a, of "k * step" d] occ_month [OF ok a k]
  show "monthly_occurs c a step d" by (simp add: occ_def monthly_occurs_def)
next
  assume m: "monthly_occurs c a step d"
  then obtain k where "month_index c d - month_index c a = step * k" by (auto simp: monthly_occurs_def)
  then have k: "month_index c d = month_index c a + k * step" by (simp add: algebra_simps)
  show "\<exists>k. occ c a step k = Some d"
  proof (cases "occ c a step k")
    case None
    with shift_months_None [OF ok a, of "k * step"] month_index_range [OF ok d] k
    show ?thesis by (simp add: occ_def)
  next
    case (Some e)
    then have "month_shifted c a (month_index c d) e"
      using shift_months_Some [OF ok a, of "k * step" e] k by (simp add: occ_def)
    with m month_shifted_unique [OF ok] have "e = d" by (auto simp: monthly_occurs_def)
    with Some show ?thesis by blast
  qed
qed

text \<open>Once an occurrence is past the end of the calendar, all later ones are.\<close>

lemma occ_None_later:
  assumes ok: "chrono_date_ok c" and a: "nd_valid c a" and s: "0 < step"
    and k: "occ c a step k = Some d" and n: "occ c a step (k + 1) = None" and "k < j"
  shows "occ c a step j = None"
proof (rule ccontr)
  assume "occ c a step j \<noteq> None"
  then obtain e where e: "occ c a step j = Some e" by auto
  have "(k + 1) * step \<le> j * step" using s \<open>k < j\<close> by (intro mult_right_mono) simp_all
  moreover have "k * step < (k + 1) * step" using s by simp
  moreover note shift_months_None [OF ok a, of "(k + 1) * step"] n
    occ_month [OF ok a k] occ_month [OF ok a e]
  ultimately show False
    using month_index_range [OF ok, of d] month_index_range [OF ok, of e] by (auto simp: occ_def)
qed

lemma monthly_collect_enumerates:
  assumes ok: "chrono_date_ok c" and a: "nd_valid c a" and s: "0 < step" and to: "nd_valid c to"
  shows "occ c a step k = Some date \<Longrightarrow>
    \<exists>ys. monthly_collect c a step to k date out = Some (out @ ys) \<and>
         enumerates ys date to (\<lambda>d. \<exists>k. occ c a step k = Some d)"
proof (induction "nat (to - date + 1)" arbitrary: date k out rule: less_induct)
  case less
  note k = less.prems
  show ?case
  proof (cases "date \<le> to")
    case False
    then show ?thesis by (auto simp: monthly_collect.simps [of c a step to k date] intro!: enumerates_Nil)
  next
    case le: True
    have past: "k < j" if "occ c a step j = Some d" "date < d" for j d
    proof (rule ccontr)
      assume "\<not> k < j"
      then consider "j = k" | "j < k" by linarith
      then show False using occ_less [OF ok a s that(1) k] k that by cases auto
    qed
    show ?thesis
    proof (cases "occ c a step (k + 1)")
      case None
      have "enumerates [date] date to (\<lambda>d. \<exists>k. occ c a step k = Some d)"
        using le k past occ_None_later [OF ok a s k None] by (intro enumerates_single) force+
      with le None show ?thesis
        by (auto simp: monthly_collect.simps [of c a step to k date] occ_def)
    next
      case (Some e)
      have lt: "date < e" using occ_less [OF ok a s k Some] by simp
      with less.hyps [of e "k + 1" "out @ [date]"] le Some obtain ys where
        ys: "monthly_collect c a step to (k + 1) e (out @ [date]) = Some ((out @ [date]) @ ys)"
        "enumerates ys e to (\<lambda>d. \<exists>k. occ c a step k = Some d)" by auto
      have gap: False if "occ c a step j = Some d" "date < d" "d < e" for j d
      proof -
        have "k < j" using past that by blast
        then consider "j = k + 1" | "k + 1 < j" by linarith
        then show False using occ_less [OF ok a s Some that(1)] Some that by cases auto
      qed
      have "enumerates (date # ys) date to (\<lambda>d. \<exists>k. occ c a step k = Some d)"
        using ys(2) lt le k gap by (intro enumerates_Cons) auto
      with ys(1) le Some show ?thesis
        by (auto simp: monthly_collect.simps [of c a step to k date] occ_def)
    qed
  qed
qed

lemma monthly_skip_first:
  assumes ok: "chrono_date_ok c" and a: "nd_valid c a" and s: "0 < step"
  shows "occ c a step k = Some date \<Longrightarrow> (\<And>j d. j < k \<Longrightarrow> occ c a step j = Some d \<Longrightarrow> d < from) \<Longrightarrow>
    \<exists>r. monthly_skip c a step from k date = Some r \<and>
      (case r of
         None \<Rightarrow> \<forall>j d. occ c a step j = Some d \<longrightarrow> d < from
       | Some (k', d') \<Rightarrow> occ c a step k' = Some d' \<and> from \<le> d' \<and>
           (\<forall>j d. j < k' \<longrightarrow> occ c a step j = Some d \<longrightarrow> d < from))"
proof (induction "nat (from - date)" arbitrary: date k rule: less_induct)
  case less
  note k = less.prems(1)
  show ?case
  proof (cases "date < from")
    case False
    then have "monthly_skip c a step from k date = Some (Some (k, date))"
      by (subst monthly_skip.simps) simp
    with False less.prems show ?thesis by auto
  next
    case lt: True
    have before: "d < from" if "j < k + 1" "occ c a step j = Some d" for j d
    proof (cases "j = k")
      case True
      with that(2) k lt show ?thesis by simp
    next
      case False
      with that(1) have "j < k" by linarith
      with less.prems(2) that(2) show ?thesis by blast
    qed
    show ?thesis
    proof (cases "occ c a step (k + 1)")
      case None
      then have "monthly_skip c a step from k date = Some None"
        using lt by (subst monthly_skip.simps) (simp add: occ_def)
      moreover have "d < from" if "occ c a step j = Some d" for j d
        using before [OF _ that] occ_None_later [OF ok a s k None, of j] that by (cases "j < k + 1") auto
      ultimately show ?thesis by auto
    next
      case (Some e)
      have step: "monthly_skip c a step from k date = monthly_skip c a step from (k + 1) e"
        using lt Some by (subst monthly_skip.simps) (simp add: occ_def)
      have "date < e" using occ_less [OF ok a s k Some] by simp
      with less.hyps [of e "k + 1"] Some before lt show ?thesis unfolding step by auto
    qed
  qed
qed

lemma monthly_step_enumerates:
  assumes ok: "chrono_date_ok c" and s: "0 < step"
    and v: "nd_valid c (anchor s)" "nd_valid c from" "nd_valid c to"
    and room: "month_index c (nd_min c) + 2 * step \<le> month_index c from"
  shows "\<exists>ys. monthly_step_dates c s step from to = Some ys \<and> enumerates ys from to (monthly_occurs c (anchor s) step)"
proof -
  let ?a = "anchor s"
  let ?P = "\<lambda>d. \<exists>k. occ c ?a step k = Some d"
  define m where "m = month_index c from - month_index c ?a"
  define k where "k = m div step - 1"
  have m: "(nd_year c from - nd_year c ?a) * 12 + (nd_month c from - nd_month c ?a) = m"
    by (simp add: m_def month_index_def algebra_simps)
  have r: "0 \<le> m mod step" "m mod step < step" using s by simp_all
  have ks: "k * step = m - m mod step - step"
    by (simp add: k_def left_diff_distrib minus_mod_eq_div_mult [symmetric])
  have low: "month_index c ?a + k * step < month_index c from"
    "month_index c (nd_min c) \<le> month_index c ?a + k * step"
    using ks r room s m_def by linarith+
  obtain date where date: "occ c ?a step k = Some date"
    using shift_months_None [OF ok v(1), of "k * step"] low month_index_range [OF ok v(2)]
    by (cases "occ c ?a step k") (auto simp: occ_def)
  have before: "d < from" if "j < k" "occ c ?a step j = Some d" for j d
  proof -
    have "j * step < k * step" using that s by simp
    then have "month_index c d < month_index c from" using occ_month [OF ok v(1) that(2)] low(1) by linarith
    then show ?thesis using month_index_less [OF ok] occ_month [OF ok v(1) that(2)] v(2) by blast
  qed
  have unfold: "monthly_step_dates c s step from to =
    Option.bind (monthly_skip c ?a step from k date) (\<lambda>r.
      case r of None \<Rightarrow> Some [] | Some (k, date) \<Rightarrow> monthly_collect c ?a step to k date [])"
    using date unfolding monthly_step_dates_def Let_def m k_def [symmetric] by (simp add: occ_def)
  obtain r where
    r: "monthly_skip c ?a step from k date = Some r"
      "case r of None \<Rightarrow> \<forall>j d. occ c ?a step j = Some d \<longrightarrow> d < from
       | Some (k', d') \<Rightarrow> occ c ?a step k' = Some d' \<and> from \<le> d' \<and>
           (\<forall>j d. j < k' \<longrightarrow> occ c ?a step j = Some d \<longrightarrow> d < from)"
    using monthly_skip_first [OF ok v(1) s date, of "from"] before by blast
  have "\<exists>ys. monthly_step_dates c s step from to = Some ys \<and> enumerates ys from to ?P"
  proof (cases r)
    case None
    with r(2) have "enumerates [] from to ?P" by (intro enumerates_Nil) fastforce
    with r None unfold show ?thesis by auto
  next
    case (Some kd)
    then obtain k' d' where kd: "r = Some (k', d')" by (cases kd) auto
    with r(2) have d': "occ c ?a step k' = Some d'" "from \<le> d'"
      "\<And>j d. j < k' \<Longrightarrow> occ c ?a step j = Some d \<Longrightarrow> d < from" by auto
    have gap: False if "from \<le> d" "d < d'" "occ c ?a step j = Some d" for j d
      using d'(3) [OF _ that(3)] occ_less [OF ok v(1) s d'(1) that(3)] d'(1) that
      by (cases j k' rule: linorder_cases) auto
    from monthly_collect_enumerates [OF ok v(1) s v(3) d'(1), of "[]"] obtain ys where
      "monthly_collect c ?a step to k' d' [] = Some ys" "enumerates ys d' to ?P" by auto
    then show ?thesis
      using r(1) kd unfold d'(2) gap by (auto intro!: enumerates_from [of ys d' to ?P "from"])
  qed
  then obtain ys where ys: "monthly_step_dates c s step from to = Some ys" "enumerates ys from to ?P" by blast
  have "?P d = monthly_occurs c ?a step d" if "from \<le> d" "d \<le> to" for d
    using that v(2,3) by (intro occ_iff_monthly [OF ok v(1)]) (simp add: nd_valid_def)
  from enumerates_cong [OF ys(2) this] ys(1) show ?thesis by blast
qed

section \<open>The 15th and the last day\<close>

lemma next_month:
  assumes ok: "chrono_date_ok c" and ms: "nd_valid c ms" "nd_day c ms = 1"
    and room: "month_index c ms < month_index c (nd_max c)"
  obtains e where "nd_checked_add_months c ms 1 = Some e" "nd_valid c e" "nd_day c e = 1"
    "month_index c e = month_index c ms + 1"
proof (cases "nd_checked_add_months c ms 1")
  case None
  with nd_add_months_None [OF ok ms(1), of 1] room show ?thesis by simp
next
  case (Some e)
  with nd_add_months_Some [OF ok ms(1), of 1 e] have e: "month_shifted c ms (month_index c ms + 1) e" by simp
  then have "nd_day c e = 1" using nd_day_pos [OF ok, of e] ms(2) by (auto simp: month_shifted_def)
  with that [OF Some] e show ?thesis by (simp add: month_shifted_def)
qed

lemma last_day_of_month_Some:
  assumes ok: "chrono_date_ok c" and ms: "nd_valid c ms" "nd_day c ms = 1"
    and room: "month_index c ms < month_index c (nd_max c)"
  obtains l where "last_day_of_month c (nd_year c ms) (nd_month c ms) = Some (nd_day c l)"
    "nd_valid c l" "month_index c l = month_index c ms" "is_month_end c l"
proof -
  obtain e where e: "nd_checked_add_months c ms 1 = Some e" "nd_valid c e" "nd_day c e = 1"
    "month_index c e = month_index c ms + 1" using next_month [OF ok ms room] .
  have lt: "ms < e" using month_index_less [OF ok ms(1) e(2)] e(4) by simp
  then have v: "nd_valid c (e - 1)" using ms(1) e(2) by (simp add: nd_valid_def)
  have "nd_from_ymd_opt c (nd_year c ms) (nd_month c ms) 1 = Some ms"
    using ms by (simp add: nd_from_ymd_iff [OF ok])
  moreover have "nd_pred_opt c e = Some (e - 1)" using v by (simp add: nd_pred [OF ok e(2)] nd_valid_def)
  ultimately have l: "last_day_of_month c (nd_year c ms) (nd_month c ms) = Some (nd_day c (e - 1))"
    using e(1) by (simp add: last_day_of_month_def)
  have ne: "month_index c (e - 1) \<noteq> month_index c e"
    using same_month_diff [OF ok v e(2)] nd_day_pos [OF ok v] e(3) by auto
  then have mi: "month_index c (e - 1) = month_index c ms"
    using month_index_mono [OF ok ms(1) v] month_index_mono [OF ok v e(2)] lt e(4) by simp
  have "is_month_end c (e - 1)"
  proof (rule ccontr)
    assume "\<not> is_month_end c (e - 1)"
    then obtain f where "nd_from_ymd_opt c (nd_year c (e - 1)) (nd_month c (e - 1)) (nd_day c (e - 1) + 1) = Some f"
      by (auto simp: is_month_end_def)
    then have f: "nd_valid c f" "month_index c f = month_index c (e - 1)" "nd_day c f = nd_day c (e - 1) + 1"
      by (simp_all add: nd_from_ymd_iff [OF ok] month_index_def)
    with same_month_diff [OF ok v f(1)] have "f = e" by simp
    with f(2) ne show False by simp
  qed
  with that [OF l v mi] show ?thesis .
qed

lemma semimonthly_month_set:
  assumes ok: "chrono_date_ok c" and ms: "nd_valid c ms"
    and l: "nd_valid c l" "month_index c l = month_index c ms" "is_month_end c l"
    and w: "nd_valid c from" "nd_valid c to"
  shows "set (semimonthly_month c from to (nd_year c ms) (nd_month c ms) (nd_day c l)) =
    {d. from \<le> d \<and> d \<le> to \<and> month_index c d = month_index c ms \<and> (nd_day c d = 15 \<or> is_month_end c d)}"
    (is "?L = ?R")
proof -
  have ymd: "nd_from_ymd_opt c (nd_year c ms) (nd_month c ms) k = Some d \<longleftrightarrow>
      month_index c d = month_index c ms \<and> nd_day c d = k" if "nd_valid c d" for k d
    using month_index_eq_iff [OF ok that ms] that by (auto simp: nd_from_ymd_iff [OF ok])
  have last: "is_month_end c d \<longleftrightarrow> nd_day c d = nd_day c l" if d: "nd_valid c d" "month_index c d = month_index c ms" for d
  proof
    assume "is_month_end c d"
    with month_end_unique [OF ok d(1) _ l(1)] month_end_unique [OF ok l(1,3) d(1)] d(2) l(2)
    show "nd_day c d = nd_day c l" by simp
  next
    assume "nd_day c d = nd_day c l"
    with same_month_diff [OF ok d(1) l(1)] d(2) l(2,3) show "is_month_end c d" by simp
  qed
  have valid: "nd_valid c d" if "from \<le> d" "d \<le> to" for d using that w by (simp add: nd_valid_def)
  have "d \<in> ?L \<longleftrightarrow> from \<le> d \<and> d \<le> to \<and>
      (\<exists>k\<in>{15, nd_day c l}. nd_from_ymd_opt c (nd_year c ms) (nd_month c ms) k = Some d)" for d
    by (auto simp: semimonthly_month_def split: option.splits if_splits)
  moreover have "d \<in> ?R \<longleftrightarrow> from \<le> d \<and> d \<le> to \<and>
      (\<exists>k\<in>{15, nd_day c l}. nd_from_ymd_opt c (nd_year c ms) (nd_month c ms) k = Some d)" for d
    using ymd [OF valid] last [OF valid] by auto
  ultimately show ?thesis by blast
qed

lemma semimonthly_loop_set:
  assumes ok: "chrono_date_ok c" and w: "nd_valid c from" "nd_valid c to"
    and room: "month_index c to < month_index c (nd_max c)"
  shows "nd_valid c ms \<Longrightarrow> nd_day c ms = 1 \<Longrightarrow>
    \<exists>ys. semimonthly_loop c from to ms out = Some (out @ ys) \<and>
      set ys = {d. from \<le> d \<and> d \<le> to \<and> month_index c ms \<le> month_index c d \<and> (nd_day c d = 15 \<or> is_month_end c d)}"
proof (induction "nat (month_index c to + 1 - month_index c ms)" arbitrary: ms out rule: less_induct)
  case less
  note ms = less.prems
  have valid: "nd_valid c d" if "from \<le> d" "d \<le> to" for d using that w by (simp add: nd_valid_def)
  show ?case
  proof (cases "ms \<le> to")
    case False
    have "\<not> month_index c ms \<le> month_index c d" if d: "from \<le> d" "d \<le> to" for d
    proof
      assume le: "month_index c ms \<le> month_index c d"
      have "d < ms" using d False by simp
      with month_index_mono [OF ok valid [OF d] ms(1)] le same_month_diff [OF ok valid [OF d] ms(1)]
        nd_day_pos [OF ok valid [OF d]] ms(2) show False by simp
    qed
    with False show ?thesis by (subst semimonthly_loop.simps) auto
  next
    case True
    then have in_range: "month_index c ms \<le> month_index c to" using month_index_mono [OF ok ms(1) w(2)] by simp
    with room have r: "month_index c ms < month_index c (nd_max c)" by simp
    obtain e where e: "nd_checked_add_months c ms 1 = Some e" "nd_valid c e" "nd_day c e = 1"
      "month_index c e = month_index c ms + 1" using next_month [OF ok ms r] .
    obtain l where l: "last_day_of_month c (nd_year c ms) (nd_month c ms) = Some (nd_day c l)"
      "nd_valid c l" "month_index c l = month_index c ms" "is_month_end c l"
      using last_day_of_month_Some [OF ok ms r] .
    let ?m = "semimonthly_month c from to (nd_year c ms) (nd_month c ms) (nd_day c l)"
    have "nat (month_index c to + 1 - month_index c e) < nat (month_index c to + 1 - month_index c ms)"
      using e(4) in_range by simp
    from less.hyps [OF this e(2,3), of "out @ ?m"] obtain ys where
      ys: "semimonthly_loop c from to e (out @ ?m) = Some ((out @ ?m) @ ys)"
      "set ys = {d. from \<le> d \<and> d \<le> to \<and> month_index c e \<le> month_index c d \<and> (nd_day c d = 15 \<or> is_month_end c d)}"
      by blast
    have "semimonthly_loop c from to ms out = Some (out @ (?m @ ys))"
      using True l(1) e(1) ys(1) by (subst semimonthly_loop.simps) simp
    moreover have "set (?m @ ys) = {d. from \<le> d \<and> d \<le> to \<and> month_index c ms \<le> month_index c d \<and>
        (nd_day c d = 15 \<or> is_month_end c d)}"
      unfolding set_append semimonthly_month_set [OF ok ms(1) l(2-4) w] ys(2) e(4) by auto
    ultimately show ?thesis by blast
  qed
qed

lemma sorted_distinct_remdups_adj: "sorted xs \<Longrightarrow> sorted_wrt (<) (remdups_adj (xs :: 'a :: linorder list))"
  by (induction xs rule: remdups_adj.induct) (auto simp: order_le_less)

lemma semimonthly_enumerates:
  assumes ok: "chrono_date_ok c" and w: "nd_valid c from" "nd_valid c to"
    and room: "month_index c to < month_index c (nd_max c)"
  shows "\<exists>ys. semimonthly_dates c from to = Some ys \<and>
    enumerates ys from to (\<lambda>d. nd_day c d = 15 \<or> is_month_end c d)"
proof -
  have pos: "1 \<le> nd_day c from" using nd_day_pos [OF ok w(1)] .
  note ms = nd_earlier_in_month [OF ok w(1) order_refl pos]
  from semimonthly_loop_set [OF ok w room ms(1,3), of "[]"] ms(2) obtain ys where
    ys: "semimonthly_loop c from to (from - nd_day c from + 1) [] = Some ys"
    "set ys = {d. from \<le> d \<and> d \<le> to \<and> month_index c from \<le> month_index c d \<and> (nd_day c d = 15 \<or> is_month_end c d)}"
    by auto
  have "month_index c from \<le> month_index c d" if "from \<le> d" "d \<le> to" for d
    using that w by (intro month_index_mono [OF ok]) (auto simp: nd_valid_def)
  with ys(2) have "enumerates (remdups_adj (sort ys)) from to (\<lambda>d. nd_day c d = 15 \<or> is_month_end c d)"
    by (auto simp: enumerates_def sorted_distinct_remdups_adj)
  with ys(1) ms(4) show ?thesis by (simp add: semimonthly_dates_def)
qed

section \<open>The contract of the expansion\<close>

text \<open>
  The window stays away from the ends of the calendar by the longest interval (the library's range
  is about 262,000 years each way).  A window that touches an end can lose dates: the generators
  start one interval before the window.
\<close>

definition inside_calendar :: "chrono_date \<Rightarrow> date \<Rightarrow> date \<Rightarrow> bool" where
  "inside_calendar c from to \<longleftrightarrow>
     nd_valid c from \<and> nd_valid c to \<and> nd_min c + max_every_n_days \<le> from \<and>
     month_index c (nd_min c) + 2 * max_every_n_months \<le> month_index c from \<and>
     month_index c to < month_index c (nd_max c)"

lemma occurs_eq:
  "occurs c Weekly a = (\<lambda>d. 7 dvd (d - a))" "occurs c Biweekly a = (\<lambda>d. 14 dvd (d - a))"
  "occurs c SemiMonthly a = (\<lambda>d. nd_day c d = 15 \<or> is_month_end c d)"
  "occurs c Monthly a = monthly_occurs c a 1" "occurs c Quarterly a = monthly_occurs c a 3"
  "occurs c Annual a = monthly_occurs c a 12" "occurs c (EveryNDays n) a = (\<lambda>d. n dvd (d - a))"
  "occurs c (EveryNWeeks n) a = (\<lambda>d. (7 * n) dvd (d - a))"
  "occurs c (EveryNMonths n) a = monthly_occurs c a n"
  by (simp_all add: fun_eq_iff)

lemma pay_dates_exact:
  assumes "chrono_date_ok c" "frequency_ok (frequency s)" "nd_valid c (anchor s)"
    and "inside_calendar c from to"
  shows "\<exists>ys. pay_dates c s from to = Some ys \<and>
    enumerates ys from to (occurs c (frequency s) (anchor s))"
proof (cases "to < from")
  case True
  then show ?thesis by (auto simp: pay_dates_def intro!: enumerates_Nil)
next
  case False
  note w = assms(4) [unfolded inside_calendar_def max_every_n_days_def max_every_n_months_def]
  have fixed: "\<exists>ys. fixed_interval_dates c s i from to = Some ys \<and>
      enumerates ys from to (\<lambda>d. i dvd (d - anchor s))" if "0 < i" "i \<le> 366" for i
    using that w by (intro fixed_interval_enumerates [OF assms(1) _ assms(3)]) auto
  have months: "\<exists>ys. monthly_step_dates c s n from to = Some ys \<and>
      enumerates ys from to (monthly_occurs c (anchor s) n)" if "0 < n" "n \<le> 36" for n
    using that w by (intro monthly_step_enumerates [OF assms(1) _ assms(3)]) auto
  have half: "\<exists>ys. semimonthly_dates c from to = Some ys \<and>
      enumerates ys from to (\<lambda>d. nd_day c d = 15 \<or> is_month_end c d)"
    using w by (intro semimonthly_enumerates [OF assms(1)]) auto
  show ?thesis
    using False assms(2) fixed months half
    by (cases "frequency s")
      (simp_all add: occurs_eq pay_dates_def max_every_n_days_def max_every_n_weeks_def max_every_n_months_def)
qed

lemma enumerates_head:
  "enumerates ys from to P \<Longrightarrow>
   (case ys of [] \<Rightarrow> \<forall>x. from \<le> x \<and> x \<le> to \<longrightarrow> \<not> P x
    | d # _ \<Rightarrow> from \<le> d \<and> d \<le> to \<and> P d \<and> (\<forall>x. from \<le> x \<and> x < d \<longrightarrow> \<not> P x))"
proof (cases ys)
  case (Cons d ds)
  assume e: "enumerates ys from to P"
  then have d: "from \<le> d \<and> d \<le> to \<and> P d" and min: "\<And>x. x \<in> set ys \<Longrightarrow> d \<le> x"
    by (auto simp: enumerates_def Cons)
  have "\<not> P x" if "from \<le> x" "x < d" for x
  proof
    assume "P x"
    with that d e have "x \<in> set ys" by (auto simp: enumerates_def)
    with min that show False by force
  qed
  with d show ?thesis by (simp add: Cons)
qed (auto simp: enumerates_def)

text \<open>
  C24: For every frequency the parser accepts, any anchor and any window inside the calendar,
  \<^verbatim>\<open>pay_dates\<close> returns, and returns exactly the occurrences of the schedule that lie in the window,
  each once and in ascending order.
\<close>

theorem pay_dates_enumerate:
  assumes "chrono_date_ok c" "frequency_ok (frequency s)" "nd_valid c (anchor s)"
    and "inside_calendar c from to"
  shows "\<exists>ys. pay_dates c s from to = Some ys \<and>
    enumerates ys from to (occurs c (frequency s) (anchor s))"
  by (rule pay_dates_exact [OF assms])

text \<open>
  A monthly schedule anchored on 31 January 2026 (day 739647), expanded from 1 February to
  31 March 2026: the dates are 28 February and 31 March.
\<close>

lemma gregorian_window:
  "nd_valid gregorian 739647 \<and> inside_calendar gregorian 739648 739706 \<and> inside_calendar gregorian 739648 740041"
  by code_simp

theorem pay_dates_enumerate_witness:
  "pay_dates gregorian \<lparr>frequency = Monthly, anchor = 739647\<rparr> 739648 739706 = Some [739675, 739706] \<and>
   enumerates [739675, 739706] 739648 739706 (occurs gregorian Monthly 739647)"
proof -
  have e: "pay_dates gregorian \<lparr>frequency = Monthly, anchor = 739647\<rparr> 739648 739706 = Some [739675, 739706]"
    by code_simp
  with pay_dates_enumerate [OF gregorian_ok, of "\<lparr>frequency = Monthly, anchor = 739647\<rparr>" 739648 739706]
    gregorian_window show ?thesis by simp
qed

text \<open>
  \<^verbatim>\<open>next_pay_date\<close> returns the first occurrence on or after the given date when one lies within
  13 months, and nothing exactly when none does.
\<close>

theorem next_pay_date_first:
  assumes "chrono_date_ok c" "frequency_ok (frequency s)" "nd_valid c (anchor s)"
    and "nd_checked_add_months c d 13 = Some to" "inside_calendar c d to"
  shows "\<exists>r. next_pay_date c s d = Some r \<and>
    (case r of
       None \<Rightarrow> \<forall>x. d \<le> x \<and> x \<le> to \<longrightarrow> \<not> occurs c (frequency s) (anchor s) x
     | Some e \<Rightarrow> d \<le> e \<and> e \<le> to \<and> occurs c (frequency s) (anchor s) e \<and>
         (\<forall>x. d \<le> x \<and> x < e \<longrightarrow> \<not> occurs c (frequency s) (anchor s) x))"
proof -
  obtain ys where ys: "pay_dates c s d to = Some ys" "enumerates ys d to (occurs c (frequency s) (anchor s))"
    using pay_dates_exact [OF assms(1-3,5)] by blast
  from enumerates_head [OF ys(2)] ys(1) assms(4) show ?thesis
    by (cases ys) (simp_all add: next_pay_date_def)
qed

theorem next_pay_date_first_witness:
  "next_pay_date gregorian \<lparr>frequency = Annual, anchor = 739647\<rparr> 739648 = Some (Some 740012) \<and>
   occurs gregorian Annual 739647 740012"
proof -
  have e: "nd_checked_add_months gregorian 739648 13 = Some 740041"
    "next_pay_date gregorian \<lparr>frequency = Annual, anchor = 739647\<rparr> 739648 = Some (Some 740012)"
    by code_simp+
  with next_pay_date_first [OF gregorian_ok _ _ e(1), of "\<lparr>frequency = Annual, anchor = 739647\<rparr>"]
    gregorian_window show ?thesis by auto
qed

text \<open>
  The 13-month horizon does not cover every cadence: a schedule that pays every 36 months has
  occurrences on or after 1 February 2026 and \<^verbatim>\<open>next_pay_date\<close> returns none of them.
\<close>

theorem next_pay_date_misses_long_intervals:
  "frequency_ok (EveryNMonths 36) \<and>
   next_pay_date gregorian \<lparr>frequency = EveryNMonths 36, anchor = 739647\<rparr> 739648 = Some None \<and>
   (\<exists>d \<ge> 739648. nd_valid gregorian d \<and> occurs gregorian (EveryNMonths 36) 739647 d)"
proof -
  have "nd_valid gregorian 740743 \<and> occurs gregorian (EveryNMonths 36) 739647 740743" by code_simp
  moreover have "next_pay_date gregorian \<lparr>frequency = EveryNMonths 36, anchor = 739647\<rparr> 739648 = Some None"
    by code_simp
  moreover have "frequency_ok (EveryNMonths 36)" by code_simp
  ultimately show ?thesis by (intro conjI exI [of _ 740743]) auto
qed

end
