(* ===== verification/Forecast.thy ===== *)
theory Forecast
  imports Ledger Pay_Schedule
begin

text \<open>
  \<^verbatim>\<open>crates/forecast-engine/src/lib.rs\<close>: the Layer-1 fold of dated cash events over a starting
  balance.

  The household timezone is the function \<open>local_date\<close> from an instant to the local calendar date
  (the \<^verbatim>\<open>chrono-tz\<close> crate), the calendar the parameter \<open>c :: chrono_date\<close>.  \<open>forecast_layer1_spec\<close>
  gives the whole result, rows and errors, in closed form: the rows are the days of the window, the
  closing balance of a day is the start plus everything that happens up to that day, and its events
  are that day's events in the canonical order.
\<close>

section \<open>Events\<close>

datatype event_kind = Income | RecurringBill | LoanPayment | Transfer | ManualOneOff

fun event_priority :: "event_kind \<Rightarrow> nat" where
  "event_priority Income = 0"
| "event_priority RecurringBill = 1"
| "event_priority LoanPayment = 1"
| "event_priority Transfer = 2"
| "event_priority ManualOneOff = 3"

fun source_type_token :: "event_kind \<Rightarrow> string" where
  "source_type_token Income = ''income''"
| "source_type_token RecurringBill = ''recurring_bill''"
| "source_type_token LoanPayment = ''loan_payment''"
| "source_type_token Transfer = ''transfer''"
| "source_type_token ManualOneOff = ''manual_entry''"

datatype assumption_basis = AssumeRecurringSchedule frequency | AssumeManualOneOff

record forecast_event =
  occurs_on :: date
  fe_kind :: event_kind
  fe_amount :: money
  fe_source_event_id :: uuid
  fe_assumption_basis :: assumption_basis

record day_event =
  de_source_event_id :: uuid
  de_kind :: event_kind
  de_amount :: money
  de_assumption_basis :: assumption_basis

section \<open>The window\<close>

record horizon =
  as_of :: int
  days :: nat

definition horizon_new :: "int \<Rightarrow> nat \<Rightarrow> horizon" where
  "horizon_new t n = \<lparr>as_of = t, days = n\<rparr>"

definition window :: "chrono_date \<Rightarrow> (int \<Rightarrow> date) \<Rightarrow> horizon \<Rightarrow> (date \<times> date) option" where
  "window c local_date h =
     (if days h = 0 then None
      else
        let start = local_date (as_of h);
            end = (case nd_checked_add_days c start (int (days h) - 1) of
                     None \<Rightarrow> nd_max c | Some e \<Rightarrow> e)
        in Some (start, end))"

record band =
  p10 :: money
  p50 :: money
  p90 :: money

definition band_point :: "money \<Rightarrow> band" where
  "band_point v = \<lparr>p10 = v, p50 = v, p90 = v\<rparr>"

record daily_balance =
  db_date :: date
  closing :: band
  db_events :: "day_event list"

datatype forecast_error =
    ForecastCurrencyMismatch currency currency
  | ForecastOverflow

fun forecast_error_from :: "money_error \<Rightarrow> forecast_error" where
  "forecast_error_from (CurrencyMismatch l r) = ForecastCurrencyMismatch l r"
| "forecast_error_from _ = ForecastOverflow"

text \<open>The \<^verbatim>\<open>?\<close> operator on a money result inside a forecast.\<close>

definition money_to_forecast :: "(money_error, 'a) res \<Rightarrow> (forecast_error, 'a) res" where
  "money_to_forecast r = (case r of Inl e \<Rightarrow> Inl (forecast_error_from e) | Inr x \<Rightarrow> Inr x)"

section \<open>The fold\<close>

text \<open>Keep the events of the window, checking the currency of each of those.\<close>

fun schedule_events ::
    "date \<Rightarrow> date \<Rightarrow> currency \<Rightarrow> forecast_event list \<Rightarrow> (forecast_error, forecast_event list) res" where
  "schedule_events start end cur [] = Inr []"
| "schedule_events start end cur (event # events) =
     (if occurs_on event < start \<or> end < occurs_on event then schedule_events start end cur events
      else if currency (fe_amount event) \<noteq> cur
      then Inl (ForecastCurrencyMismatch cur (currency (fe_amount event)))
      else res_bind (schedule_events start end cur events) (\<lambda>scheduled. Inr (event # scheduled)))"

text \<open>The comparison of \<^verbatim>\<open>sort_by\<close>, as the key it compares lexicographically.\<close>

definition event_key :: "forecast_event \<Rightarrow> date \<times> nat \<times> uuid \<times> int" where
  "event_key e =
     (occurs_on e, event_priority (fe_kind e), fe_source_event_id e, minor_units (fe_amount e))"

definition day_event_of :: "forecast_event \<Rightarrow> day_event" where
  "day_event_of e =
     \<lparr>de_source_event_id = fe_source_event_id e, de_kind = fe_kind e,
      de_amount = fe_amount e, de_assumption_basis = fe_assumption_basis e\<rparr>"

text \<open>
  The inner loop: apply the events of \<open>day\<close> at the head of what is left of the schedule (the
  slice from the index \<^verbatim>\<open>next\<close> on).
\<close>

fun drain_day ::
    "date \<Rightarrow> money \<Rightarrow> day_event list \<Rightarrow> forecast_event list \<Rightarrow>
     (forecast_error, money \<times> day_event list \<times> forecast_event list) res" where
  "drain_day day running applied [] = Inr (running, applied, [])"
| "drain_day day running applied (event # rest) =
     (if occurs_on event \<noteq> day then Inr (running, applied, event # rest)
      else res_bind (money_to_forecast (checked_add running (fe_amount event))) (\<lambda>running.
           drain_day day running (applied @ [day_event_of event]) rest))"

fun day_loop ::
    "chrono_date \<Rightarrow> nat \<Rightarrow> date \<Rightarrow> money \<Rightarrow> forecast_event list \<Rightarrow>
     (forecast_error, daily_balance list) res" where
  "day_loop c 0 day running scheduled = Inr []"
| "day_loop c (Suc n) day running scheduled =
     res_bind (drain_day day running [] scheduled) (\<lambda>(running, applied, scheduled).
       let row = \<lparr>db_date = day, closing = band_point running, db_events = applied\<rparr>
       in case nd_checked_add_days c day 1 of
            Some tomorrow \<Rightarrow>
              res_bind (day_loop c n tomorrow running scheduled) (\<lambda>rows. Inr (row # rows))
          | None \<Rightarrow> Inr [row])"

definition forecast_layer1 ::
    "chrono_date \<Rightarrow> (int \<Rightarrow> date) \<Rightarrow> forecast_event list \<Rightarrow> money \<Rightarrow> horizon \<Rightarrow>
     (forecast_error, daily_balance list) res" where
  "forecast_layer1 c local_date events starting_balance h =
     (case window c local_date h of
        None \<Rightarrow> Inr []
      | Some (start, end) \<Rightarrow>
          res_bind (schedule_events start end (currency starting_balance) events) (\<lambda>scheduled.
          day_loop c (days h) start starting_balance (sort_key event_key scheduled)))"

section \<open>The result in closed form\<close>

definition in_window :: "date \<Rightarrow> date \<Rightarrow> forecast_event \<Rightarrow> bool" where
  "in_window a b e \<longleftrightarrow> a \<le> occurs_on e \<and> occurs_on e \<le> b"

definition amounts :: "forecast_event list \<Rightarrow> int list" where
  "amounts es = map (\<lambda>e. minor_units (fe_amount e)) es"

definition total_until :: "date \<Rightarrow> forecast_event list \<Rightarrow> int" where
  "total_until d es = sum_list (amounts (filter (\<lambda>e. occurs_on e \<le> d) es))"

definition ref_row :: "money \<Rightarrow> forecast_event list \<Rightarrow> date \<Rightarrow> daily_balance" where
  "ref_row s es d =
     \<lparr>db_date = d,
      closing = band_point (money_new (minor_units s + total_until d es) (currency s)),
      db_events = map day_event_of (filter (\<lambda>e. occurs_on e = d) es)\<rparr>"

text \<open>The canonical order of the events of a window.\<close>

definition canonical :: "date \<Rightarrow> date \<Rightarrow> forecast_event list \<Rightarrow> forecast_event list" where
  "canonical a b es = sort_key event_key (filter (in_window a b) es)"

definition forecast_ref ::
    "date \<Rightarrow> date \<Rightarrow> forecast_event list \<Rightarrow> money \<Rightarrow> (forecast_error, daily_balance list) res" where
  "forecast_ref a b es s =
     (case find (\<lambda>e. in_window a b e \<and> currency (fe_amount e) \<noteq> currency s) es of
        Some e \<Rightarrow> Inl (ForecastCurrencyMismatch (currency s) (currency (fe_amount e)))
      | None \<Rightarrow>
          (if prefixes_fit (minor_units s) (amounts (canonical a b es))
           then Inr (map (ref_row s (canonical a b es)) [a..b])
           else Inl ForecastOverflow))"

lemma amounts_simps [simp]:
  "amounts [] = []" "amounts (e # es) = minor_units (fe_amount e) # amounts es"
  "amounts (xs @ ys) = amounts xs @ amounts ys"
  by (simp_all add: amounts_def)

lemma prefixes_fit_append:
  "prefixes_fit s (xs @ ys) \<longleftrightarrow> prefixes_fit s xs \<and> prefixes_fit (s + sum_list xs) ys"
  by (induction xs arbitrary: s) (auto simp: add.assoc)

lemma schedule_events_eq:
  "schedule_events a b cur es =
     (case find (\<lambda>e. in_window a b e \<and> currency (fe_amount e) \<noteq> cur) es of
        Some e \<Rightarrow> Inl (ForecastCurrencyMismatch cur (currency (fe_amount e)))
      | None \<Rightarrow> Inr (filter (in_window a b) es))"
  by (induction es) (auto simp: in_window_def split: option.splits)

lemma drain_day_eq:
  "(\<And>e. e \<in> set es \<Longrightarrow> currency (fe_amount e) = currency r) \<Longrightarrow> money_wf r \<Longrightarrow>
   drain_day d r app es =
     (let now = takeWhile (\<lambda>e. occurs_on e = d) es
      in if prefixes_fit (minor_units r) (amounts now)
         then Inr (money_new (minor_units r + sum_list (amounts now)) (currency r),
                   app @ map day_event_of now, dropWhile (\<lambda>e. occurs_on e = d) es)
         else Inl ForecastOverflow)"
proof (induction es arbitrary: r app)
  case Nil
  then show ?case by (simp add: money_new_eqD)
next
  case (Cons e es)
  show ?case
  proof (cases "occurs_on e = d \<and> in_i64 (minor_units r + minor_units (fe_amount e))")
    case True
    with Cons.prems Cons.IH [of "money_new (minor_units r + minor_units (fe_amount e)) (currency r)"
        "app @ [day_event_of e]"]
    show ?thesis by (simp add: money_to_forecast_def Let_def add.assoc)
  next
    case False
    with Cons.prems show ?thesis by (auto simp: money_to_forecast_def money_new_eqD)
  qed
qed

text \<open>On a schedule sorted by day, the head of the schedule is exactly the day's events.\<close>

lemma sorted_day_split:
  assumes "sorted (map occurs_on es)" "\<And>e. e \<in> set es \<Longrightarrow> d \<le> occurs_on e"
  shows "takeWhile (\<lambda>e. occurs_on e = d) es = filter (\<lambda>e. occurs_on e = d) es"
    and "dropWhile (\<lambda>e. occurs_on e = d) es = filter (\<lambda>e. d < occurs_on e) es"
  using assms
proof (induction es)
  case (Cons e es)
  {
    case 1
    show ?case
    proof (cases "occurs_on e = d")
      case True
      with 1 Cons.IH(1) show ?thesis by simp
    next
      case False
      with 1 have "filter (\<lambda>e. occurs_on e = d) es = []" by (force simp: filter_empty_conv)
      with False show ?thesis by simp
    qed
  next
    case 2
    show ?case
    proof (cases "occurs_on e = d")
      case True
      with 2 Cons.IH(2) show ?thesis by simp
    next
      case False
      with 2 have "\<And>x. x \<in> set (e # es) \<Longrightarrow> d < occurs_on x" by force
      with False show ?thesis by (simp add: filter_id_conv)
    qed
  }
qed simp_all

lemma total_until_split:
  "d \<le> x \<Longrightarrow> (\<And>e. e \<in> set es \<Longrightarrow> d \<le> occurs_on e) \<Longrightarrow>
   total_until x es =
     sum_list (amounts (filter (\<lambda>e. occurs_on e = d) es)) + total_until x (filter (\<lambda>e. d < occurs_on e) es)"
proof (induction es)
  case (Cons e es)
  then consider "occurs_on e = d" | "d < occurs_on e" by force
  then show ?case using Cons by cases (auto simp: total_until_def)
qed (simp add: total_until_def)

lemma prefixes_fit_sum: "in_i64 s \<Longrightarrow> prefixes_fit s xs \<Longrightarrow> in_i64 (s + sum_list xs)"
  by (induction xs arbitrary: s) (auto simp flip: add.assoc)

lemma ref_row_first:
  assumes "\<And>e. e \<in> set es \<Longrightarrow> d \<le> occurs_on e"
  shows "ref_row r es d =
    \<lparr>db_date = d,
     closing = band_point (money_new (minor_units r + sum_list (amounts (filter (\<lambda>e. occurs_on e = d) es))) (currency r)),
     db_events = map day_event_of (filter (\<lambda>e. occurs_on e = d) es)\<rparr>"
proof -
  have "filter (\<lambda>e. occurs_on e \<le> d) es = filter (\<lambda>e. occurs_on e = d) es"
    using assms by (intro filter_cong) force+
  then show ?thesis by (simp add: ref_row_def total_until_def)
qed

lemma ref_row_later:
  assumes "\<And>e. e \<in> set es \<Longrightarrow> d \<le> occurs_on e" "d < x"
  shows "ref_row (money_new (minor_units r + sum_list (amounts (filter (\<lambda>e. occurs_on e = d) es))) (currency r))
      (filter (\<lambda>e. d < occurs_on e) es) x = ref_row r es x"
proof -
  have "filter (\<lambda>e. occurs_on e = x) (filter (\<lambda>e. d < occurs_on e) es) = filter (\<lambda>e. occurs_on e = x) es"
    using assms(2) by (auto intro: filter_cong)
  moreover have "d \<le> x" using assms(2) by simp
  ultimately show ?thesis using total_until_split [of d x es] assms(1) by (simp add: ref_row_def add.assoc)
qed

lemma day_loop_eq:
  assumes ok: "chrono_date_ok c"
  shows "nd_valid c d \<Longrightarrow> sorted (map occurs_on es) \<Longrightarrow>
    (\<And>e. e \<in> set es \<Longrightarrow> d \<le> occurs_on e \<and> occurs_on e \<le> b \<and> currency (fe_amount e) = currency r) \<Longrightarrow>
    money_wf r \<Longrightarrow> b = min (d + int n - 1) (nd_max c) \<Longrightarrow>
    day_loop c n d r es =
      (if prefixes_fit (minor_units r) (amounts es) then Inr (map (ref_row r es) [d..b])
       else Inl ForecastOverflow)"
proof (induction n arbitrary: d r es)
  case 0
  have "es = []" using 0(3,5) by (cases es) force+
  with 0(5) show ?case by simp
next
  case (Suc n)
  note now = sorted_day_split [OF Suc.prems(2), of d]
  let ?now = "filter (\<lambda>e. occurs_on e = d) es" and ?rest = "filter (\<lambda>e. d < occurs_on e) es"
  let ?r = "money_new (minor_units r + sum_list (amounts ?now)) (currency r)"
  have es: "es = ?now @ ?rest"
    using takeWhile_dropWhile_id [of "\<lambda>e. occurs_on e = d" es] now Suc.prems(3) by simp
  have fit: "prefixes_fit (minor_units r) (amounts es) \<longleftrightarrow>
      prefixes_fit (minor_units r) (amounts ?now) \<and> prefixes_fit (minor_units ?r) (amounts ?rest)"
    by (subst es) (simp add: prefixes_fit_append)
  have drain: "drain_day d r [] es =
      (if prefixes_fit (minor_units r) (amounts ?now) then Inr (?r, map day_event_of ?now, ?rest)
       else Inl ForecastOverflow)"
    using drain_day_eq [of es r d "[]"] Suc.prems(3,4) now by (simp add: Let_def)
  show ?case
  proof (cases "prefixes_fit (minor_units r) (amounts ?now)")
    case False
    with drain fit show ?thesis by simp
  next
    case True
    have wf: "money_wf ?r"
      using prefixes_fit_sum [OF _ True] Suc.prems(4) by (simp add: money_wf_def)
    have first: "ref_row r es d = \<lparr>db_date = d, closing = band_point ?r, db_events = map day_event_of ?now\<rparr>"
      using Suc.prems(3) by (intro ref_row_first) simp
    have later: "map (ref_row ?r ?rest) [d + 1..b] = map (ref_row r es) [d + 1..b]"
      using Suc.prems(3) by (intro map_cong refl ref_row_later) auto
    have le: "d \<le> b" using Suc.prems(1,5) by (simp add: nd_valid_def)
    have upto: "[d..b] = d # [d + 1..b]" using le by (rule upto_rec1)
    show ?thesis
    proof (cases "d + 1 \<le> nd_max c")
      case in_range: True
      have v: "nd_valid c (d + 1)" using Suc.prems(1) in_range by (simp add: nd_valid_def)
      have "day_loop c n (d + 1) ?r ?rest =
          (if prefixes_fit (minor_units ?r) (amounts ?rest) then Inr (map (ref_row ?r ?rest) [d + 1..b])
           else Inl ForecastOverflow)"
        using Suc.prems(2,3,5) wf by (intro Suc.IH v) (auto simp: sorted_wrt_filter sorted_map)
      with True drain fit in_range first later upto show ?thesis
        by (simp add: nd_add_days [OF ok Suc.prems(1)] Let_def)
    next
      case False
      with Suc.prems(1,5) have bd: "b = d" "d = nd_max c" by (simp_all add: nd_valid_def)
      have "?rest = []" "[d..b] = [d]" using Suc.prems(3) bd by (force simp: filter_empty_conv)+
      with True drain fit False first show ?thesis
        by (simp add: nd_add_days [OF ok Suc.prems(1)] Let_def)
    qed
  qed
qed


lemma sorted_canonical: "sorted (map occurs_on (sort_key event_key es))"
proof -
  have "sorted (map event_key (sort_key event_key es))" by simp
  then show ?thesis
    by (simp only: sorted_map) (erule sorted_wrt_mono_rel [rotated], auto simp: event_key_def less_eq_prod_def)
qed

lemma window_eq:
  assumes "chrono_date_ok c" "nd_valid c (local_date (as_of h))" "days h \<noteq> 0"
  shows "window c local_date h =
    Some (local_date (as_of h), min (local_date (as_of h) + int (days h) - 1) (nd_max c))"
  using assms by (auto simp: window_def Let_def nd_add_days)

lemma canonical_simps [simp]:
  "set (canonical a b es) = {e \<in> set es. in_window a b e}" "mset (canonical a b es) = filter_mset (in_window a b) (mset es)"
  by (auto simp: canonical_def)

lemma forecast_layer1_eq:
  assumes ok: "chrono_date_ok c" and wf: "money_wf s" and v: "nd_valid c (local_date (as_of h))"
  shows "forecast_layer1 c local_date es s h =
    forecast_ref (local_date (as_of h)) (min (local_date (as_of h) + int (days h) - 1) (nd_max c)) es s"
    (is "_ = forecast_ref ?a ?b es s")
proof (cases "days h = 0")
  case True
  then have "in_window ?a ?b = (\<lambda>_. False)" by (auto simp: in_window_def fun_eq_iff)
  with True show ?thesis by (simp add: forecast_layer1_def window_def forecast_ref_def find_None_iff canonical_def
      split: option.splits)
next
  case False
  have w: "window c local_date h = Some (?a, ?b)"
    using ok v False by (rule window_eq)
  show ?thesis
  proof (cases "find (\<lambda>e. in_window ?a ?b e \<and> currency (fe_amount e) \<noteq> currency s) es")
    case None
    then have cur: "\<And>e. e \<in> set es \<Longrightarrow> in_window ?a ?b e \<Longrightarrow> currency (fe_amount e) = currency s"
      by (auto simp: find_None_iff)
    have "day_loop c (days h) ?a s (canonical ?a ?b es) =
        (if prefixes_fit (minor_units s) (amounts (canonical ?a ?b es))
         then Inr (map (ref_row s (canonical ?a ?b es)) [?a..?b]) else Inl ForecastOverflow)"
      using cur wf by (intro day_loop_eq [OF ok v])
        (auto simp: in_window_def sorted_canonical canonical_def)
    with None False show ?thesis
      by (simp add: forecast_layer1_def w schedule_events_eq forecast_ref_def canonical_def)
  next
    case (Some e)
    with False show ?thesis
      by (simp add: forecast_layer1_def w schedule_events_eq forecast_ref_def)
  qed
qed

section \<open>Order of the input\<close>

lemma map_sort_key: "map f (sort_key f xs) = sort (map f (xs :: 'a list))"
  by (rule properties_for_sort [symmetric]) simp_all

lemma amounts_canonical_cong:
  assumes "mset es = mset es'"
  shows "amounts (canonical a b es) = amounts (canonical a b es')"
proof -
  have "mset (map event_key (filter (in_window a b) es)) = mset (map event_key (filter (in_window a b) es'))"
    using assms by simp
  then have "sort (map event_key (filter (in_window a b) es)) = sort (map event_key (filter (in_window a b) es'))"
    by (metis mset_sort properties_for_sort sorted_sort)
  then have "map event_key (canonical a b es) = map event_key (canonical a b es')"
    by (simp add: canonical_def map_sort_key)
  then have "map (snd \<circ> snd \<circ> snd) (map event_key (canonical a b es)) =
      map (snd \<circ> snd \<circ> snd) (map event_key (canonical a b es'))" by simp
  then show ?thesis by (simp add: amounts_def event_key_def comp_def)
qed

lemma total_until_mset:
  "total_until d es = (\<Sum>e \<in># filter_mset (\<lambda>e. occurs_on e \<le> d) (mset es). minor_units (fe_amount e))"
  by (induction es) (auto simp: total_until_def)

lemma find_currency_cong:
  assumes "set es = set es'"
  shows "map_option (\<lambda>e. currency (fe_amount e)) (find (\<lambda>e. P e \<and> currency (fe_amount e) \<noteq> cur) es) =
    map_option (\<lambda>e. currency (fe_amount e)) (find (\<lambda>e. P e \<and> currency (fe_amount e) \<noteq> cur) es')"
proof -
  have "(find (\<lambda>e. P e \<and> currency (fe_amount e) \<noteq> cur) es = None) =
      (find (\<lambda>e. P e \<and> currency (fe_amount e) \<noteq> cur) es' = None)"
    using assms by (auto simp: find_None_iff)
  moreover have "currency (fe_amount e) = currency (fe_amount e')"
    if "find (\<lambda>e. P e \<and> currency (fe_amount e) \<noteq> cur) es = Some e"
      "find (\<lambda>e. P e \<and> currency (fe_amount e) \<noteq> cur) es' = Some e'" for e e'
    using that by (auto simp: find_Some_iff) (metis currency.exhaust)
  ultimately show ?thesis by (auto split: option.splits simp: map_option_case)
qed


lemma forecast_ref_cong:
  assumes m: "mset es = mset es'"
  shows "case forecast_ref a b es s of
      Inl e \<Rightarrow> forecast_ref a b es' s = Inl e
    | Inr rows \<Rightarrow> \<exists>rows'. forecast_ref a b es' s = Inr rows' \<and>
        list_all2 (\<lambda>r r'. db_date r = db_date r' \<and> closing r = closing r' \<and> mset (db_events r) = mset (db_events r'))
          rows rows'"
proof -
  let ?bad = "\<lambda>e. in_window a b e \<and> currency (fe_amount e) \<noteq> currency s"
  have "set es = set es'" using m by (rule mset_eq_setD)
  from find_currency_cong [OF this, of "in_window a b" "currency s"]
  have bad: "(find ?bad es = None) = (find ?bad es' = None)"
    "\<And>e e'. find ?bad es = Some e \<Longrightarrow> find ?bad es' = Some e' \<Longrightarrow> currency (fe_amount e) = currency (fe_amount e')"
    by (auto simp: map_option_case split: option.splits)
  have row: "closing (ref_row s (canonical a b es) d) = closing (ref_row s (canonical a b es') d)"
    "mset (db_events (ref_row s (canonical a b es) d)) = mset (db_events (ref_row s (canonical a b es') d))" for d
    by (simp_all add: ref_row_def total_until_mset m)
  have date: "db_date (ref_row s xs d) = d" for xs d by (simp add: ref_row_def)
  show ?thesis
  proof (cases "find ?bad es")
    case None
    moreover from this bad(1) have "find ?bad es' = None" by simp
    moreover note amounts_canonical_cong [OF m, of a b]
    moreover have "list_all2 (\<lambda>r r'. db_date r = db_date r' \<and> closing r = closing r' \<and> mset (db_events r) = mset (db_events r'))
        (map (ref_row s (canonical a b es)) [a..b]) (map (ref_row s (canonical a b es')) [a..b])"
      by (rule list_all2_all_nthI) (simp_all add: date row)
    ultimately show ?thesis by (simp add: forecast_ref_def)
  next
    case (Some e)
    with bad(1) obtain e' where e': "find ?bad es' = Some e'" by auto
    with bad(2) [OF Some] Some show ?thesis by (simp add: forecast_ref_def)
  qed
qed

text \<open>Grouping a list by a key loses nothing.\<close>

lemma mset_concat_groups:
  "distinct ds \<Longrightarrow> mset (concat (map (\<lambda>d. filter (\<lambda>x. f x = d) xs) ds)) = filter_mset (\<lambda>x. f x \<in> set ds) (mset xs)"
proof (induction ds)
  case (Cons d ds)
  then show ?case by (auto intro!: multiset_eqI)
qed simp

lemma mset_concat_map: "mset (concat (map (\<lambda>d. map g (h d)) ds)) = image_mset g (mset (concat (map h ds)))"
  by (induction ds) simp_all

section \<open>Properties\<close>

text \<open>
  C1: The forecast in closed form.  For a stored starting balance and any horizon, the result is:
  the currency error of the first event of the window in another currency, if there is one; the
  overflow error exactly when some partial sum in the canonical order leaves the \<^verbatim>\<open>i64\<close> range; and
  otherwise one row for every day of the window, whose closing balance is the start plus every
  amount up to that day and whose events are that day's events in the canonical order.
\<close>

theorem forecast_layer1_closed_form:
  assumes "chrono_date_ok c" "money_wf s" "nd_valid c (local_date (as_of h))"
  shows "forecast_layer1 c local_date es s h =
    forecast_ref (local_date (as_of h)) (min (local_date (as_of h) + int (days h) - 1) (nd_max c)) es s"
  using assms by (rule forecast_layer1_eq)

text \<open>A start of 100.00 and a rent of 25.00 on the second of three days.\<close>

definition sample_rent :: forecast_event where
  "sample_rent = \<lparr>occurs_on = 739648, fe_kind = RecurringBill, fe_amount = money_new (-2500) Usd,
     fe_source_event_id = Uuid 7, fe_assumption_basis = AssumeRecurringSchedule Monthly\<rparr>"

lemma sample_valid: "nd_valid gregorian 739647"
  using gregorian_window by simp

theorem forecast_layer1_closed_form_witness:
  "forecast_layer1 gregorian (\<lambda>t. t) [sample_rent] (money_new 10000 Usd) \<lparr>as_of = 739647, days = 3\<rparr> =
     Inr [ref_row (money_new 10000 Usd) [sample_rent] 739647,
          ref_row (money_new 10000 Usd) [sample_rent] 739648,
          ref_row (money_new 10000 Usd) [sample_rent] 739649] \<and>
   closing (ref_row (money_new 10000 Usd) [sample_rent] 739649) = band_point (money_new 7500 Usd)"
proof -
  have "forecast_ref 739647 739649 [sample_rent] (money_new 10000 Usd) =
      Inr [ref_row (money_new 10000 Usd) [sample_rent] 739647,
           ref_row (money_new 10000 Usd) [sample_rent] 739648,
           ref_row (money_new 10000 Usd) [sample_rent] 739649] \<and>
    closing (ref_row (money_new 10000 Usd) [sample_rent] 739649) = band_point (money_new 7500 Usd)"
    by code_simp
  moreover have "min (739647 + int 3 - 1) (nd_max gregorian) = 739649" by code_simp
  ultimately show ?thesis
    using forecast_layer1_closed_form [OF gregorian_ok, of "money_new 10000 Usd" "\<lambda>t. t"
        "\<lparr>as_of = 739647, days = 3\<rparr>" "[sample_rent]"] sample_valid
    by (simp add: in_i64_def i64_bounds)
qed

text \<open>
  C27: The order in which the events are supplied does not matter: for two lists with the same events,
  the forecast fails with the same error or gives rows with the same dates, the same closing
  balances and, day by day, the same events up to their order.
\<close>

theorem forecast_layer1_order_irrelevant:
  assumes "chrono_date_ok c" "money_wf s" "nd_valid c (local_date (as_of h))" "mset es = mset es'"
  shows "case forecast_layer1 c local_date es s h of
      Inl e \<Rightarrow> forecast_layer1 c local_date es' s h = Inl e
    | Inr rows \<Rightarrow> \<exists>rows'. forecast_layer1 c local_date es' s h = Inr rows' \<and>
        list_all2 (\<lambda>r r'. db_date r = db_date r' \<and> closing r = closing r' \<and> mset (db_events r) = mset (db_events r'))
          rows rows'"
proof -
  have "forecast_layer1 c local_date xs s h =
      forecast_ref (local_date (as_of h)) (min (local_date (as_of h) + int (days h) - 1) (nd_max c)) xs s" for xs
    using assms(1-3) by (rule forecast_layer1_eq)
  from this [of es] this [of es'] show ?thesis by (simp only:) (rule forecast_ref_cong [OF assms(4)])
qed

theorem forecast_layer1_order_irrelevant_witness:
  "case forecast_layer1 gregorian (\<lambda>t. t) [sample_rent, sample_rent\<lparr>occurs_on := 739647\<rparr>] (money_new 10000 Usd)
        \<lparr>as_of = 739647, days = 3\<rparr> of
     Inl e \<Rightarrow> False
   | Inr rows \<Rightarrow> \<exists>rows'. forecast_layer1 gregorian (\<lambda>t. t) [sample_rent\<lparr>occurs_on := 739647\<rparr>, sample_rent]
        (money_new 10000 Usd) \<lparr>as_of = 739647, days = 3\<rparr> = Inr rows' \<and> map closing rows = map closing rows'"
proof -
  let ?es = "[sample_rent, sample_rent\<lparr>occurs_on := 739647\<rparr>]" and ?es' = "[sample_rent\<lparr>occurs_on := 739647\<rparr>, sample_rent]"
  let ?f = "\<lambda>es. forecast_layer1 gregorian (\<lambda>t. t) es (money_new 10000 Usd) \<lparr>as_of = 739647, days = 3\<rparr>"
  have "\<not> isl (?f ?es)" by code_simp
  then have "\<exists>rows. ?f ?es = Inr rows" by (cases "?f ?es") simp_all
  moreover have "money_wf (money_new 10000 Usd)" by (simp add: in_i64_def i64_bounds)
  ultimately show ?thesis
    using forecast_layer1_order_irrelevant [OF gregorian_ok, of "money_new 10000 Usd" "\<lambda>t. t"
        "\<lparr>as_of = 739647, days = 3\<rparr>" ?es ?es'] sample_valid
    by (auto simp: list_all2_conv_all_nth intro!: nth_equalityI)
qed

text \<open>
  No event is dropped, duplicated or moved: when the forecast succeeds, the events of all rows
  together are exactly the events of the window, each row's events are those of its date, and the
  last closing balance is the start plus the sum of the window's amounts.
\<close>

theorem forecast_layer1_conserves:
  assumes "chrono_date_ok c" "money_wf s" "nd_valid c (local_date (as_of h))" "days h \<noteq> 0"
    and "window c local_date h = Some (a, b)" "forecast_layer1 c local_date es s h = Inr rows"
  shows "mset (concat (map db_events rows)) = image_mset day_event_of (filter_mset (in_window a b) (mset es)) \<and>
    map db_date rows = [a..b] \<and>
    closing (last rows) =
      band_point (money_new (minor_units s + (\<Sum>e \<in># filter_mset (in_window a b) (mset es). minor_units (fe_amount e)))
        (currency s))"
proof -
  have ab: "a = local_date (as_of h)" "b = min (local_date (as_of h) + int (days h) - 1) (nd_max c)"
    using window_eq [of c local_date h] assms by auto
  have le: "a \<le> b" using ab assms(3,4) by (simp add: nd_valid_def)
  have r: "rows = map (ref_row s (canonical a b es)) [a..b]"
  proof -
    have "forecast_layer1 c local_date es s h = forecast_ref a b es s"
      unfolding ab using assms(1-3) by (rule forecast_layer1_eq)
    with assms(6) show ?thesis by (auto simp: forecast_ref_def split: option.splits if_splits)
  qed
  have "mset (concat (map db_events rows)) =
      image_mset day_event_of (mset (concat (map (\<lambda>d. filter (\<lambda>e. occurs_on e = d) (canonical a b es)) [a..b])))"
    by (simp add: r ref_row_def comp_def mset_concat_map)
  also have "\<dots> = image_mset day_event_of (filter_mset (\<lambda>e. occurs_on e \<in> {a..b}) (mset (canonical a b es)))"
    by (simp only: mset_concat_groups distinct_upto set_upto)
  also have "filter_mset (\<lambda>e. occurs_on e \<in> {a..b}) (mset (canonical a b es)) = filter_mset (in_window a b) (mset es)"
    by (auto simp: in_window_def filter_filter_mset intro!: filter_mset_cong)
  finally have all: "mset (concat (map db_events rows)) = image_mset day_event_of (filter_mset (in_window a b) (mset es))" .
  have "filter_mset (\<lambda>e. occurs_on e \<le> b) (filter_mset (in_window a b) (mset es)) = filter_mset (in_window a b) (mset es)"
    by (auto simp: in_window_def filter_filter_mset intro!: filter_mset_cong)
  then have "total_until b (canonical a b es) =
      (\<Sum>e \<in># filter_mset (in_window a b) (mset es). minor_units (fe_amount e))"
    by (simp add: total_until_mset)
  then have "closing (last rows) =
      band_point (money_new (minor_units s + (\<Sum>e \<in># filter_mset (in_window a b) (mset es). minor_units (fe_amount e)))
        (currency s))"
    using le by (simp add: r last_map ref_row_def upto_rec2)
  moreover have "map db_date rows = [a..b]" by (simp add: r ref_row_def comp_def)
  ultimately show ?thesis using all by simp
qed

theorem forecast_layer1_conserves_witness:
  "\<exists>rows. forecast_layer1 gregorian (\<lambda>t. t) [sample_rent] (money_new 10000 Usd) \<lparr>as_of = 739647, days = 3\<rparr> = Inr rows \<and>
     mset (concat (map db_events rows)) = {#day_event_of sample_rent#} \<and>
     closing (last rows) = band_point (money_new 7500 Usd)"
proof -
  let ?f = "forecast_layer1 gregorian (\<lambda>t. t) [sample_rent] (money_new 10000 Usd) \<lparr>as_of = 739647, days = 3\<rparr>"
  have "\<not> isl ?f" by code_simp
  then obtain rows where r: "?f = Inr rows" by (cases ?f) simp_all
  have "window gregorian (\<lambda>t. t) \<lparr>as_of = 739647, days = 3\<rparr> = Some (739647, 739649)" by code_simp
  from forecast_layer1_conserves [OF gregorian_ok _ _ _ this r] sample_valid
  have "mset (concat (map db_events rows)) = image_mset day_event_of (filter_mset (in_window 739647 739649) {#sample_rent#}) \<and>
      closing (last rows) = band_point (money_new (10000 +
        (\<Sum>e \<in># filter_mset (in_window 739647 739649) {#sample_rent#}. minor_units (fe_amount e))) Usd)"
    by (simp add: in_i64_def i64_bounds)
  moreover have "in_window 739647 739649 sample_rent" "minor_units (fe_amount sample_rent) = -2500"
    by (simp_all add: in_window_def sample_rent_def)
  ultimately show ?thesis using r by simp
qed

text \<open>
  The tie-break is not total: a bill and a loan payment of the same source, day and amount are
  different events that compare as equal, so the order in which a day lists them follows the input.
\<close>

theorem forecast_layer1_tie_break_partial:
  "let bill = sample_rent; loan = sample_rent\<lparr>fe_kind := LoanPayment\<rparr>;
       run = (\<lambda>es. forecast_layer1 gregorian (\<lambda>t. t) es (money_new 10000 Usd) \<lparr>as_of = 739647, days = 3\<rparr>)
   in bill \<noteq> loan \<and> event_key bill = event_key loan \<and> run [bill, loan] \<noteq> run [loan, bill]"
  unfolding Let_def by (intro conjI) code_simp+

end
