(* ===== verification/Forecast_Layer2.thy ===== *)
theory Forecast_Layer2
  imports Forecast
begin

text \<open>
  \<^verbatim>\<open>crates/forecast-engine/src/layer2.rs\<close>: the spend model learned from history and the widening of
  a Layer-1 series into a band.

  The two floating-point statistics of a sample (\<^verbatim>\<open>quantile\<close> at one half and
  \<^verbatim>\<open>prediction_half_width\<close>) are the fields of the parameter \<open>e :: estimator\<close>; all the grouping, the
  selection of a band, the proration and the accumulation are integer code and are modelled.
  Sums and differences wrap around as \<^verbatim>\<open>i64\<close> does in a release build.
\<close>

section \<open>The model and its fit\<close>

record spend_observation =
  so_date :: date
  so_category :: string
  so_amount_cents :: int

record spend_band =
  p10_cents :: int
  p50_cents :: int
  p90_cents :: int

record spend_model =
  seasonal :: "((string \<times> int) \<times> spend_band) list"
  overall :: "(string \<times> spend_band) list"

record estimator =
  est_median :: "int list \<Rightarrow> int"
  est_half_width :: "int list \<Rightarrow> int"

definition band_of :: "estimator \<Rightarrow> int list \<Rightarrow> spend_band" where
  "band_of e samples =
     (let samples = sort samples;
          p50 = est_median e samples;
          half = est_half_width e samples
      in \<lparr>p10_cents = max (wrap64 (p50 - half)) 0, p50_cents = p50, p90_cents = wrap64 (p50 + half)\<rparr>)"

type_synonym month_key = "string \<times> int \<times> int"

definition fit_monthly :: "chrono_date \<Rightarrow> spend_observation list \<Rightarrow> (month_key \<times> int) list" where
  "fit_monthly c history =
     foldl (\<lambda>monthly obs.
         bt_upsert (so_category obs, nd_year c (so_date obs), nd_month c (so_date obs)) 0
           (\<lambda>v. wrap64 (v + so_amount_cents obs)) monthly)
       [] history"

definition fit_samples ::
    "(month_key \<times> int) list \<Rightarrow> ((string \<times> int) \<times> int list) list \<times> (string \<times> int list) list" where
  "fit_samples monthly =
     foldl (\<lambda>(seasonal_samples, overall_samples) ((category, _, month), total).
         (bt_upsert (category, month) [] (\<lambda>s. s @ [total]) seasonal_samples,
          bt_upsert category [] (\<lambda>s. s @ [total]) overall_samples))
       ([], []) monthly"

definition spend_model_fit :: "chrono_date \<Rightarrow> estimator \<Rightarrow> spend_observation list \<Rightarrow> spend_model" where
  "spend_model_fit c e history =
     (let (seasonal_samples, overall_samples) = fit_samples (fit_monthly c history)
      in \<lparr>seasonal = map (\<lambda>(key, samples). (key, band_of e samples)) seasonal_samples,
          overall = map (\<lambda>(key, samples). (key, band_of e samples)) overall_samples\<rparr>)"

definition spend_model_band :: "spend_model \<Rightarrow> string \<Rightarrow> int \<Rightarrow> spend_band option" where
  "spend_model_band m category calendar_month =
     (case map_of (seasonal m) (category, calendar_month) of
        Some b \<Rightarrow> Some b
      | None \<Rightarrow> map_of (overall m) category)"

definition expected_monthly :: "spend_model \<Rightarrow> string \<Rightarrow> int option" where
  "expected_monthly m category = map_option p50_cents (map_of (overall m) category)"

definition spend_categories :: "spend_model \<Rightarrow> string list" where
  "spend_categories m = map fst (overall m)"

section \<open>Widening by the projected spend\<close>

record spend_adjustment =
  sa_category :: string
  delta_cents_per_month :: int
  sa_start :: "date option"
  sa_end :: "date option"

definition adjustment_covers :: "spend_adjustment \<Rightarrow> date \<Rightarrow> bool" where
  "adjustment_covers a d \<longleftrightarrow>
     (case sa_start a of None \<Rightarrow> True | Some s \<Rightarrow> s \<le> d) \<and>
     (case sa_end a of None \<Rightarrow> True | Some e \<Rightarrow> d \<le> e)"

definition days_in_month :: "chrono_date \<Rightarrow> date \<Rightarrow> int" where
  "days_in_month c d =
     (let year = nd_year c d;
          month = nd_month c d;
          first = nd_from_ymd_opt c year month 1;
          next = (if month = 12 then nd_from_ymd_opt c (year + 1) 1 1 else nd_from_ymd_opt c year (month + 1) 1)
      in case (first, next) of (Some start, Some end) \<Rightarrow> end - start | _ \<Rightarrow> 30)"

text \<open>The planned change of a category on a day, prorated like the band.\<close>

definition day_delta :: "spend_adjustment list \<Rightarrow> string \<Rightarrow> date \<Rightarrow> int \<Rightarrow> int" where
  "day_delta adjustments category d month_days =
     tdiv (sum64 (map delta_cents_per_month
             (filter (\<lambda>a. sa_category a = category \<and> adjustment_covers a d) adjustments))) month_days"

text \<open>One category's addition to one cumulative percentile.\<close>

definition day_draw :: "int \<Rightarrow> int \<Rightarrow> int \<Rightarrow> int" where
  "day_draw cents month_days delta = max (wrap64 (tdiv cents month_days + delta)) 0"

fun add_categories ::
    "chrono_date \<Rightarrow> spend_model \<Rightarrow> spend_adjustment list \<Rightarrow> date \<Rightarrow> string list \<Rightarrow>
     int \<times> int \<times> int \<Rightarrow> int \<times> int \<times> int" where
  "add_categories c m adjustments d [] cum = cum"
| "add_categories c m adjustments d (category # categories) (c10, c50, c90) =
     (let days = max (days_in_month c d) 1
      in case spend_model_band m category (nd_month c d) of
           None \<Rightarrow> add_categories c m adjustments d categories (c10, c50, c90)
         | Some b \<Rightarrow>
             let delta = day_delta adjustments category d days
             in add_categories c m adjustments d categories
                  (wrap64 (c10 + day_draw (p10_cents b) days delta),
                   wrap64 (c50 + day_draw (p50_cents b) days delta),
                   wrap64 (c90 + day_draw (p90_cents b) days delta)))"

fun widen_days ::
    "chrono_date \<Rightarrow> spend_model \<Rightarrow> spend_adjustment list \<Rightarrow> currency \<Rightarrow> int \<times> int \<times> int \<Rightarrow>
     daily_balance list \<Rightarrow> daily_balance list" where
  "widen_days c m adjustments cur cum [] = []"
| "widen_days c m adjustments cur cum (day # rest) =
     (let (c10, c50, c90) = add_categories c m adjustments (db_date day) (spend_categories m) cum;
          base = minor_units (p50 (closing day))
      in \<lparr>db_date = db_date day,
          closing = \<lparr>p10 = money_new (wrap64 (base - c90)) cur,
                     p50 = money_new (wrap64 (base - c50)) cur,
                     p90 = money_new (wrap64 (base - c10)) cur\<rparr>,
          db_events = db_events day\<rparr>
         # widen_days c m adjustments cur (c10, c50, c90) rest)"

definition widen_with_spend_adjusted ::
    "chrono_date \<Rightarrow> daily_balance list \<Rightarrow> spend_model \<Rightarrow> spend_adjustment list \<Rightarrow> daily_balance list" where
  "widen_with_spend_adjusted c layer1 m adjustments =
     (case layer1 of
        [] \<Rightarrow> []
      | first # _ \<Rightarrow> widen_days c m adjustments (currency (p50 (closing first))) (0, 0, 0) layer1)"

definition widen_with_spend :: "chrono_date \<Rightarrow> daily_balance list \<Rightarrow> spend_model \<Rightarrow> daily_balance list" where
  "widen_with_spend c layer1 m = widen_with_spend_adjusted c layer1 m []"

section \<open>Widening by lumps\<close>

record lump_injection =
  li_date :: date
  half_width_cents :: int

definition lump_widen_day :: "lump_injection list \<Rightarrow> daily_balance \<Rightarrow> daily_balance" where
  "lump_widen_day lumps day =
     (let cum = sum64 (map half_width_cents (filter (\<lambda>l. li_date l \<le> db_date day) lumps))
      in if cum = 0 then day
         else
           let cur = currency (p50 (closing day))
           in \<lparr>db_date = db_date day,
               closing = \<lparr>p10 = money_new (wrap64 (minor_units (p10 (closing day)) - cum)) cur,
                          p50 = p50 (closing day),
                          p90 = money_new (wrap64 (minor_units (p90 (closing day)) + cum)) cur\<rparr>,
               db_events = db_events day\<rparr>)"

definition widen_with_lumps :: "daily_balance list \<Rightarrow> lump_injection list \<Rightarrow> daily_balance list" where
  "widen_with_lumps series lumps =
     (if list_all (\<lambda>l. half_width_cents l = 0) lumps then series else map (lump_widen_day lumps) series)"

section \<open>The fit depends on the history as a collection\<close>

definition obs_key :: "chrono_date \<Rightarrow> spend_observation \<Rightarrow> month_key" where
  "obs_key c obs = (so_category obs, nd_year c (so_date obs), nd_month c (so_date obs))"

definition month_total :: "chrono_date \<Rightarrow> spend_observation multiset \<Rightarrow> month_key \<Rightarrow> int" where
  "month_total c h k = (\<Sum>obs \<in># filter_mset (\<lambda>obs. obs_key c obs = k) h. so_amount_cents obs)"

lemma fit_monthly_invariant:
  "bt_sorted (fit_monthly c history) \<and>
   map_of (fit_monthly c history) =
     (\<lambda>k. if k \<in> obs_key c ` set history then Some (wrap64 (month_total c (mset history) k)) else None)"
proof (induction history rule: rev_induct)
  case Nil
  show ?case by (simp add: fit_monthly_def bt_sorted_def fun_eq_iff)
next
  case (snoc obs history)
  let ?m = "fit_monthly c history" and ?k = "obs_key c obs"
  have step: "fit_monthly c (history @ [obs]) = bt_upsert ?k 0 (\<lambda>v. wrap64 (v + so_amount_cents obs)) ?m"
    by (simp add: fit_monthly_def obs_key_def)
  have zero: "month_total c (mset history) ?k = 0" if "?k \<notin> obs_key c ` set history"
  proof -
    have "filter_mset (\<lambda>obs. obs_key c obs = ?k) (mset history) = {#}"
      using that by (induction history) auto
    then show ?thesis unfolding month_total_def by (simp only: image_mset_empty sum_mset.empty)
  qed
  have total: "month_total c (add_mset obs (mset history)) k =
      month_total c (mset history) k + (if k = ?k then so_amount_cents obs else 0)" for k
    by (auto simp: month_total_def)
  have new: "wrap64 ((case map_of ?m ?k of None \<Rightarrow> 0 | Some v \<Rightarrow> v) + so_amount_cents obs) =
      wrap64 (month_total c (add_mset obs (mset history)) ?k)"
    using snoc zero total [of ?k] by auto
  have old: "month_total c (add_mset obs (mset history)) k = month_total c (mset history) k" if "k \<noteq> ?k" for k
    using total [of k] that by simp
  have "map_of (fit_monthly c (history @ [obs])) =
      (map_of ?m)(?k \<mapsto> wrap64 (month_total c (add_mset obs (mset history)) ?k))"
    using snoc new by (simp add: step map_of_bt_upsert)
  with snoc old show ?case by (auto simp: step fun_eq_iff)
qed

lemma fit_monthly_cong: "mset h = mset h' \<Longrightarrow> fit_monthly c h = fit_monthly c h'"
  using fit_monthly_invariant [of c h] fit_monthly_invariant [of c h']
  by (intro bt_ext) (auto simp: fun_eq_iff dest: mset_eq_setD)

lemma fit_samples_keys:
  "map_of (snd (fit_samples ms)) cat = None \<longleftrightarrow> cat \<notin> (\<lambda>((cat, _, _), _). cat) ` set ms"
  "map_of (fst (fit_samples ms)) (cat, mo) = None \<longleftrightarrow> (cat, mo) \<notin> (\<lambda>((cat, _, mo), _). (cat, mo)) ` set ms"
  "bt_sorted (fst (fit_samples ms)) \<and> bt_sorted (snd (fit_samples ms))"
proof (induction ms rule: rev_induct)
  case (snoc x ms)
  obtain ca y mo' t where x: "x = ((ca, y, mo'), t)" by (metis prod.exhaust)
  have step: "fit_samples (ms @ [x]) =
      (bt_upsert (ca, mo') [] (\<lambda>s. s @ [t]) (fst (fit_samples ms)), bt_upsert ca [] (\<lambda>s. s @ [t]) (snd (fit_samples ms)))"
    by (simp add: fit_samples_def x split_beta)
  {
    case 1
    show ?case using snoc unfolding step by (auto simp: map_of_bt_upsert x)
  next
    case 2
    show ?case using snoc unfolding step by (auto simp: map_of_bt_upsert x)
  next
    case 3
    show ?case using snoc unfolding step by auto
  }
qed (simp_all add: fit_samples_def bt_sorted_def)

lemma fit_monthly_keys: "fst ` set (fit_monthly c h) = obs_key c ` set h"
proof -
  have "k \<in> fst ` set (fit_monthly c h) \<longleftrightarrow> k \<in> obs_key c ` set h" for k
  proof -
    have "k \<in> fst ` set (fit_monthly c h) \<longleftrightarrow> map_of (fit_monthly c h) k \<noteq> None"
      by (simp only: map_of_eq_None_iff not_not)
    also have "\<dots> \<longleftrightarrow> k \<in> obs_key c ` set h" using fit_monthly_invariant [of c h] by simp
    finally show ?thesis .
  qed
  then show ?thesis by blast
qed

lemma fit_overall_None: "map_of (overall (spend_model_fit c e h)) cat = None \<longleftrightarrow> cat \<notin> so_category ` set h"
proof -
  have "(\<lambda>((cat, _, _), _). cat) ` set (fit_monthly c h) = (\<lambda>(cat, _, _). cat) ` fst ` set (fit_monthly c h)"
    by (force simp: image_iff)
  also have "\<dots> = so_category ` set h" by (force simp: fit_monthly_keys obs_key_def image_iff)
  finally show ?thesis
    using fit_samples_keys(1) [of "fit_monthly c h" cat]
    by (cases "fit_samples (fit_monthly c h)") (simp add: spend_model_fit_def map_of_map)
qed

lemma fit_seasonal_None:
  "map_of (seasonal (spend_model_fit c e h)) (cat, mo) = None \<longleftrightarrow>
   (cat, mo) \<notin> (\<lambda>obs. (so_category obs, nd_month c (so_date obs))) ` set h"
proof -
  have "(\<lambda>((cat, _, mo), _). (cat, mo)) ` set (fit_monthly c h) = (\<lambda>(cat, _, mo). (cat, mo)) ` fst ` set (fit_monthly c h)"
    by (force simp: image_iff)
  also have "\<dots> = (\<lambda>obs. (so_category obs, nd_month c (so_date obs))) ` set h"
    by (force simp: fit_monthly_keys obs_key_def image_iff)
  finally show ?thesis
    using fit_samples_keys(2) [of "fit_monthly c h" cat mo]
    by (cases "fit_samples (fit_monthly c h)") (simp add: spend_model_fit_def map_of_map)
qed

section \<open>The accumulated draw\<close>

definition category_draw ::
    "chrono_date \<Rightarrow> spend_model \<Rightarrow> spend_adjustment list \<Rightarrow> (spend_band \<Rightarrow> int) \<Rightarrow> date \<Rightarrow> string \<Rightarrow> int" where
  "category_draw c m adjustments q d category =
     (let n = max (days_in_month c d) 1
      in case spend_model_band m category (nd_month c d) of
           None \<Rightarrow> 0
         | Some b \<Rightarrow> day_draw (q b) n (day_delta adjustments category d n))"

definition spend_draw ::
    "chrono_date \<Rightarrow> spend_model \<Rightarrow> spend_adjustment list \<Rightarrow> (spend_band \<Rightarrow> int) \<Rightarrow> date \<Rightarrow> int" where
  "spend_draw c m adjustments q d = sum_list (map (category_draw c m adjustments q d) (spend_categories m))"

definition spend_until ::
    "chrono_date \<Rightarrow> spend_model \<Rightarrow> spend_adjustment list \<Rightarrow> (spend_band \<Rightarrow> int) \<Rightarrow> daily_balance list \<Rightarrow> int" where
  "spend_until c m adjustments q rows = sum_list (map (\<lambda>day. spend_draw c m adjustments q (db_date day)) rows)"

definition widened_row ::
    "currency \<Rightarrow> daily_balance \<Rightarrow> int \<times> int \<times> int \<Rightarrow> daily_balance" where
  "widened_row cur day cum =
     (case cum of (s10, s50, s90) \<Rightarrow>
        \<lparr>db_date = db_date day,
         closing = \<lparr>p10 = money_new (wrap64 (minor_units (p50 (closing day)) - s90)) cur,
                    p50 = money_new (wrap64 (minor_units (p50 (closing day)) - s50)) cur,
                    p90 = money_new (wrap64 (minor_units (p50 (closing day)) - s10)) cur\<rparr>,
         db_events = db_events day\<rparr>)"

lemma add_categories_eq:
  "add_categories c m adj d cats (wrap64 a, wrap64 b, wrap64 e) =
     (wrap64 (a + sum_list (map (category_draw c m adj p10_cents d) cats)),
      wrap64 (b + sum_list (map (category_draw c m adj p50_cents d) cats)),
      wrap64 (e + sum_list (map (category_draw c m adj p90_cents d) cats)))"
proof (induction cats arbitrary: a b e)
  case (Cons cat cats)
  then show ?case
    by (cases "spend_model_band m cat (nd_month c d)") (simp_all add: category_draw_def Let_def add.assoc)
qed simp

lemma widen_days_nth:
  "i < length ds \<Longrightarrow> widen_days c m adj cur (wrap64 a, wrap64 b, wrap64 e) ds ! i =
     widened_row cur (ds ! i)
       (a + spend_until c m adj p10_cents (take (Suc i) ds),
        b + spend_until c m adj p50_cents (take (Suc i) ds),
        e + spend_until c m adj p90_cents (take (Suc i) ds))"
proof (induction ds arbitrary: i a b e)
  case (Cons d ds)
  have head: "add_categories c m adj (db_date d) (spend_categories m) (wrap64 a, wrap64 b, wrap64 e) =
      (wrap64 (a + spend_draw c m adj p10_cents (db_date d)), wrap64 (b + spend_draw c m adj p50_cents (db_date d)),
       wrap64 (e + spend_draw c m adj p90_cents (db_date d)))"
    by (simp add: add_categories_eq spend_draw_def)
  show ?case
  proof (cases i)
    case 0
    then show ?thesis by (simp add: head widened_row_def spend_until_def Let_def)
  next
    case (Suc j)
    with Cons.prems Cons.IH [of j] show ?thesis by (simp add: head spend_until_def add.assoc Let_def)
  qed
qed simp

lemma widen_days_length: "length (widen_days c m adj cur cum ds) = length ds"
  by (induction ds arbitrary: cum) (auto simp: Let_def split: prod.splits)

lemma widen_with_spend_nth:
  assumes "i < length layer1"
  shows "length (widen_with_spend_adjusted c layer1 m adj) = length layer1"
    and "widen_with_spend_adjusted c layer1 m adj ! i =
      widened_row (currency (p50 (closing (layer1 ! 0)))) (layer1 ! i)
        (spend_until c m adj p10_cents (take (Suc i) layer1),
         spend_until c m adj p50_cents (take (Suc i) layer1),
         spend_until c m adj p90_cents (take (Suc i) layer1))"
proof -
  obtain d ds where l: "layer1 = d # ds" using assms by (cases layer1) simp_all
  have e: "widen_with_spend_adjusted c layer1 m adj =
      widen_days c m adj (currency (p50 (closing (layer1 ! 0)))) (wrap64 0, wrap64 0, wrap64 0) layer1"
    by (simp add: widen_with_spend_adjusted_def l)
  show "length (widen_with_spend_adjusted c layer1 m adj) = length layer1"
    unfolding e by (rule widen_days_length)
  show "widen_with_spend_adjusted c layer1 m adj ! i =
      widened_row (currency (p50 (closing (layer1 ! 0)))) (layer1 ! i)
        (spend_until c m adj p10_cents (take (Suc i) layer1),
         spend_until c m adj p50_cents (take (Suc i) layer1),
         spend_until c m adj p90_cents (take (Suc i) layer1))"
    unfolding e using widen_days_nth [OF assms, of c m adj _ 0 0 0] by simp
qed

section \<open>Order of the band\<close>

definition model_ordered :: "spend_model \<Rightarrow> bool" where
  "model_ordered m \<longleftrightarrow>
     list_all (\<lambda>b. 0 \<le> p10_cents b \<and> p10_cents b \<le> p50_cents b \<and> p50_cents b \<le> p90_cents b \<and>
                   p90_cents b \<le> 2305843009213693952)
       (map snd (seasonal m) @ map snd (overall m))"

definition adjustments_small :: "spend_adjustment list \<Rightarrow> bool" where
  "adjustments_small adjustments \<longleftrightarrow> sum_list (map (\<lambda>a. \<bar>delta_cents_per_month a\<bar>) adjustments) \<le> 2305843009213693952"

lemma model_ordered_band:
  "model_ordered m \<Longrightarrow> spend_model_band m cat mo = Some b \<Longrightarrow>
   0 \<le> p10_cents b \<and> p10_cents b \<le> p50_cents b \<and> p50_cents b \<le> p90_cents b \<and> p90_cents b \<le> 2305843009213693952"
proof -
  assume m: "model_ordered m" and b: "spend_model_band m cat mo = Some b"
  have "b \<in> snd ` set (seasonal m) \<union> snd ` set (overall m)"
    using b by (auto simp: spend_model_band_def image_iff split: option.splits dest!: map_of_SomeD) (metis snd_conv)+
  with m show ?thesis by (auto simp: model_ordered_def list_all_iff)
qed

lemma abs_sum_filter: "\<bar>sum_list (map f (filter P xs))\<bar> \<le> sum_list (map (\<lambda>x. \<bar>f x :: int\<bar>) xs)"
  by (induction xs) auto

lemma abs_tdiv_le: "0 < b \<Longrightarrow> \<bar>tdiv a b\<bar> \<le> \<bar>a\<bar>"
  using tdiv_le_self [of a b] tdiv_le_self [of "- a" b] tdiv_nonneg [of a b] tdiv_nonneg [of "- a" b]
  by (cases "0 \<le> a") (auto simp: tdiv_neg_eq tdiv_nonneg_eq)

lemma day_delta_small:
  assumes "adjustments_small adj" "0 < n"
  shows "\<bar>day_delta adj cat d n\<bar> \<le> 2305843009213693952"
proof -
  let ?s = "sum_list (map delta_cents_per_month (filter (\<lambda>a. sa_category a = cat \<and> adjustment_covers a d) adj))"
  have s: "\<bar>?s\<bar> \<le> 2305843009213693952"
    using abs_sum_filter [of delta_cents_per_month _ adj] assms(1) order_trans by (fastforce simp: adjustments_small_def)
  then have "in_i64 ?s" by (auto simp: in_i64_def i64_bounds)
  with s abs_tdiv_le [OF assms(2), of ?s] show ?thesis by (simp add: day_delta_def)
qed

lemma day_draw_le:
  assumes "0 \<le> x" "x \<le> y" "y \<le> 2305843009213693952" "0 < n" "\<bar>d\<bar> \<le> 2305843009213693952"
  shows "0 \<le> day_draw x n d \<and> day_draw x n d \<le> day_draw y n d"
proof -
  have "0 \<le> tdiv x n" "tdiv x n \<le> tdiv y n" "tdiv y n \<le> 2305843009213693952"
    using assms tdiv_mono [of x y n] tdiv_le_self [of y n] by auto
  moreover from this assms(5) have "in_i64 (tdiv x n + d)" "in_i64 (tdiv y n + d)"
    by (auto simp: in_i64_def i64_bounds)
  ultimately show ?thesis by (simp add: day_draw_def)
qed

lemma category_draw_le:
  assumes "model_ordered m" "adjustments_small adj"
  shows "0 \<le> category_draw c m adj p10_cents d cat"
    "category_draw c m adj p10_cents d cat \<le> category_draw c m adj p50_cents d cat"
    "category_draw c m adj p50_cents d cat \<le> category_draw c m adj p90_cents d cat"
proof -
  let ?n = "max (days_in_month c d) 1"
  have "0 \<le> category_draw c m adj p10_cents d cat \<and>
    category_draw c m adj p10_cents d cat \<le> category_draw c m adj p50_cents d cat \<and>
    category_draw c m adj p50_cents d cat \<le> category_draw c m adj p90_cents d cat"
  proof (cases "spend_model_band m cat (nd_month c d)")
    case None
    then show ?thesis by (simp add: category_draw_def Let_def)
  next
    case (Some b)
    note b = model_ordered_band [OF assms(1) Some]
    have n: "0 < ?n" by simp
    note d = day_delta_small [OF assms(2) n, of cat d]
    have "0 \<le> day_draw (p10_cents b) ?n (day_delta adj cat d ?n) \<and>
        day_draw (p10_cents b) ?n (day_delta adj cat d ?n) \<le> day_draw (p50_cents b) ?n (day_delta adj cat d ?n)"
      using b d n by (intro day_draw_le) linarith+
    moreover have "day_draw (p50_cents b) ?n (day_delta adj cat d ?n) \<le> day_draw (p90_cents b) ?n (day_delta adj cat d ?n)"
      using b d n by (intro day_draw_le [THEN conjunct2]) linarith+
    ultimately show ?thesis using Some by (simp add: category_draw_def Let_def)
  qed
  then show "0 \<le> category_draw c m adj p10_cents d cat"
    "category_draw c m adj p10_cents d cat \<le> category_draw c m adj p50_cents d cat"
    "category_draw c m adj p50_cents d cat \<le> category_draw c m adj p90_cents d cat" by simp_all
qed

lemma spend_draw_le:
  assumes "model_ordered m" "adjustments_small adj"
  shows "0 \<le> spend_draw c m adj p10_cents d"
    "spend_draw c m adj p10_cents d \<le> spend_draw c m adj p50_cents d"
    "spend_draw c m adj p50_cents d \<le> spend_draw c m adj p90_cents d"
  unfolding spend_draw_def using category_draw_le [OF assms]
  by (auto intro!: sum_list_nonneg sum_list_mono)

lemma spend_until_le:
  assumes "model_ordered m" "adjustments_small adj"
  shows "0 \<le> spend_until c m adj p10_cents ds"
    "spend_until c m adj p10_cents ds \<le> spend_until c m adj p50_cents ds"
    "spend_until c m adj p50_cents ds \<le> spend_until c m adj p90_cents ds"
  unfolding spend_until_def using spend_draw_le [OF assms]
  by (auto intro!: sum_list_nonneg sum_list_mono)

lemma spend_until_append:
  "spend_until c m adj q (xs @ ys) = spend_until c m adj q xs + spend_until c m adj q ys"
  by (simp add: spend_until_def)

text \<open>Both the total draw and the spread of the draw grow along the series.\<close>

lemma spend_until_take_mono:
  assumes "model_ordered m" "adjustments_small adj" "i \<le> j"
  shows "spend_until c m adj p90_cents (take i ds) \<le> spend_until c m adj p90_cents (take j ds)"
    "spend_until c m adj p90_cents (take i ds) - spend_until c m adj p10_cents (take i ds) \<le>
     spend_until c m adj p90_cents (take j ds) - spend_until c m adj p10_cents (take j ds)"
proof -
  have t: "take j ds = take i ds @ take (j - i) (drop i ds)"
    using assms(3) by (metis le_add_diff_inverse take_add)
  note d = spend_until_le [OF assms(1,2), of c "take (j - i) (drop i ds)"]
  show "spend_until c m adj p90_cents (take i ds) \<le> spend_until c m adj p90_cents (take j ds)"
    "spend_until c m adj p90_cents (take i ds) - spend_until c m adj p10_cents (take i ds) \<le>
     spend_until c m adj p90_cents (take j ds) - spend_until c m adj p10_cents (take j ds)"
    unfolding t spend_until_append using d by linarith+
qed

section \<open>Properties\<close>

text \<open>
  The arithmetic stays in range: the series' balances are \<^verbatim>\<open>i64\<close> amounts that the whole projected
  spend cannot push below the smallest one.
\<close>

definition spend_fits :: "chrono_date \<Rightarrow> spend_model \<Rightarrow> spend_adjustment list \<Rightarrow> daily_balance list \<Rightarrow> bool" where
  "spend_fits c m adjustments layer1 \<longleftrightarrow>
     list_all (\<lambda>day. in_i64 (minor_units (p50 (closing day))) \<and>
                     in_i64 (minor_units (p50 (closing day)) - spend_until c m adjustments p90_cents layer1)) layer1"

definition band_width :: "daily_balance \<Rightarrow> int" where
  "band_width day = minor_units (p90 (closing day)) - minor_units (p10 (closing day))"

text \<open>
  C28: Widening keeps one row per day with its date and events, lowers the median by exactly the
  expected spend accumulated so far, and the band it gives is ordered on every day and never
  narrows along the series, whatever planned changes are applied.
\<close>

theorem widen_with_spend_band:
  assumes "model_ordered m" "adjustments_small adj" "spend_fits c m adj layer1"
  shows "length (widen_with_spend_adjusted c layer1 m adj) = length layer1 \<and>
    (\<forall>i < length layer1.
       let day = layer1 ! i; row = widen_with_spend_adjusted c layer1 m adj ! i
       in db_date row = db_date day \<and> db_events row = db_events day \<and>
          minor_units (p50 (closing row)) =
            minor_units (p50 (closing day)) - spend_until c m adj p50_cents (take (Suc i) layer1) \<and>
          minor_units (p10 (closing row)) \<le> minor_units (p50 (closing row)) \<and>
          minor_units (p50 (closing row)) \<le> minor_units (p90 (closing row)) \<and>
          minor_units (p90 (closing row)) \<le> minor_units (p50 (closing day))) \<and>
    sorted (map band_width (widen_with_spend_adjusted c layer1 m adj))"
proof -
  let ?w = "widen_with_spend_adjusted c layer1 m adj"
  let ?s = "\<lambda>q i. spend_until c m adj q (take (Suc i) layer1)"
  have len: "length ?w = length layer1"
    using widen_with_spend_nth(1) [of 0 layer1 c m adj]
    by (cases layer1) (simp_all add: widen_with_spend_adjusted_def)
  have row: "db_date (?w ! i) = db_date (layer1 ! i)" "db_events (?w ! i) = db_events (layer1 ! i)"
    "minor_units (p10 (closing (?w ! i))) = minor_units (p50 (closing (layer1 ! i))) - ?s p90_cents i"
    "minor_units (p50 (closing (?w ! i))) = minor_units (p50 (closing (layer1 ! i))) - ?s p50_cents i"
    "minor_units (p90 (closing (?w ! i))) = minor_units (p50 (closing (layer1 ! i))) - ?s p10_cents i"
    if i: "i < length layer1" for i
  proof -
    let ?b = "minor_units (p50 (closing (layer1 ! i)))"
    have fit: "in_i64 ?b" "in_i64 (?b - spend_until c m adj p90_cents layer1)"
      using assms(3) i by (auto simp: spend_fits_def list_all_length)
    have "?s p90_cents i \<le> spend_until c m adj p90_cents layer1"
      using spend_until_take_mono(1) [OF assms(1,2), of "Suc i" "length layer1" c layer1] i by simp
    note b = this spend_until_le [OF assms(1,2), of c "take (Suc i) layer1"]
    have "in_i64 (?b - ?s p10_cents i)" "in_i64 (?b - ?s p50_cents i)" "in_i64 (?b - ?s p90_cents i)"
      by (rule in_i64_between [OF fit(2,1)]; use b in linarith)+
    then show "db_date (?w ! i) = db_date (layer1 ! i)" "db_events (?w ! i) = db_events (layer1 ! i)"
      "minor_units (p10 (closing (?w ! i))) = ?b - ?s p90_cents i"
      "minor_units (p50 (closing (?w ! i))) = ?b - ?s p50_cents i"
      "minor_units (p90 (closing (?w ! i))) = ?b - ?s p10_cents i"
      by (simp_all add: widen_with_spend_nth(2) [OF i] widened_row_def)
  qed
  have "sorted (map band_width ?w)"
    unfolding sorted_iff_nth_mono
    using spend_until_take_mono(2) [OF assms(1,2)] by (auto simp: len band_width_def row)
  then show ?thesis
    using len row spend_until_le [OF assms(1,2)] by (auto simp: Let_def)
qed

definition sample_model :: spend_model where
  "sample_model = \<lparr>seasonal = [], overall = [(''dining'', \<lparr>p10_cents = 3100, p50_cents = 6200, p90_cents = 9300\<rparr>)]\<rparr>"

definition sample_series :: "daily_balance list" where
  "sample_series =
     [\<lparr>db_date = 739647, closing = band_point (money_new 10000 Usd), db_events = []\<rparr>,
      \<lparr>db_date = 739648, closing = band_point (money_new 10000 Usd), db_events = []\<rparr>]"

lemma sample_draws:
  "category_draw gregorian sample_model [] p10_cents 739647 ''dining'' = 100"
  "category_draw gregorian sample_model [] p50_cents 739647 ''dining'' = 200"
  "category_draw gregorian sample_model [] p90_cents 739647 ''dining'' = 300"
  "category_draw gregorian sample_model [] p10_cents 739648 ''dining'' = 110"
  "category_draw gregorian sample_model [] p50_cents 739648 ''dining'' = 221"
  "category_draw gregorian sample_model [] p90_cents 739648 ''dining'' = 332"
  by code_simp+

lemma sample_until:
  "spend_until gregorian sample_model [] p50_cents [sample_series ! 0] = 200"
  "spend_until gregorian sample_model [] p90_cents sample_series = 632"
proof -
  have "spend_categories sample_model = [''dining'']" by (simp add: spend_categories_def sample_model_def)
  then show "spend_until gregorian sample_model [] p50_cents [sample_series ! 0] = 200"
    "spend_until gregorian sample_model [] p90_cents sample_series = 632"
    by (simp_all add: spend_until_def spend_draw_def sample_series_def sample_draws)
qed

theorem widen_with_spend_band_witness:
  "minor_units (p50 (closing (widen_with_spend_adjusted gregorian sample_series sample_model [] ! 0))) = 9800 \<and>
   sorted (map band_width (widen_with_spend_adjusted gregorian sample_series sample_model []))"
proof -
  have "model_ordered sample_model" "adjustments_small []" by code_simp+
  moreover have "spend_fits gregorian sample_model [] sample_series"
    unfolding spend_fits_def sample_until(2)
    by (simp add: sample_series_def band_point_def in_i64_def i64_bounds)
  ultimately have w: "length (widen_with_spend_adjusted gregorian sample_series sample_model []) = length sample_series \<and>
      (\<forall>i < length sample_series.
         minor_units (p50 (closing (widen_with_spend_adjusted gregorian sample_series sample_model [] ! i))) =
           minor_units (p50 (closing (sample_series ! i))) -
           spend_until gregorian sample_model [] p50_cents (take (Suc i) sample_series)) \<and>
      sorted (map band_width (widen_with_spend_adjusted gregorian sample_series sample_model []))"
    using widen_with_spend_band [of sample_model "[]" gregorian sample_series] unfolding Let_def by blast
  have "take (Suc 0) sample_series = [sample_series ! 0]" "0 < length sample_series"
    "minor_units (p50 (closing (sample_series ! 0))) = 10000"
    by (simp_all add: sample_series_def band_point_def)
  with w sample_until(1) show ?thesis by fastforce
qed

text \<open>
  Fitting a history gives bands for exactly the categories seen in it, in ascending order and in
  every calendar month, with the seasonal band wherever that month was seen; and the model depends
  only on which observations there are, not on their order.
\<close>

theorem spend_model_fit_covers:
  "spend_categories (spend_model_fit c e history) = sorted_list_of_set (so_category ` set history) \<and>
   (spend_model_band (spend_model_fit c e history) category mo \<noteq> None) = (category \<in> so_category ` set history) \<and>
   (expected_monthly (spend_model_fit c e history) category \<noteq> None) = (category \<in> so_category ` set history) \<and>
   (map_of (seasonal (spend_model_fit c e history)) (category, mo) \<noteq> None) =
     ((category, mo) \<in> (\<lambda>obs. (so_category obs, nd_month c (so_date obs))) ` set history) \<and>
   spend_model_fit c e (rev history) = spend_model_fit c e history"
proof -
  let ?m = "spend_model_fit c e history"
  have "sorted_wrt (<) (spend_categories ?m)"
    using fit_samples_keys(3) [of "fit_monthly c history"]
    by (cases "fit_samples (fit_monthly c history)")
      (simp add: spend_model_fit_def spend_categories_def bt_sorted_def comp_def split_beta)
  moreover have "set (spend_categories ?m) = so_category ` set history"
    using fit_overall_None [of c e history] by (force simp: spend_categories_def map_of_eq_None_iff)
  ultimately have cats: "spend_categories ?m = sorted_list_of_set (so_category ` set history)"
    by (metis sorted_list_of_set.idem_if_sorted_distinct strict_sorted_iff)
  have "spend_model_fit c e (rev history) = ?m"
    using fit_monthly_cong [of "rev history" history c] by (simp add: spend_model_fit_def)
  moreover have "(category, mo) \<in> (\<lambda>obs. (so_category obs, nd_month c (so_date obs))) ` set history \<Longrightarrow>
      category \<in> so_category ` set history" by auto
  ultimately show ?thesis
    using cats fit_overall_None [of c e history category] fit_seasonal_None [of c e history category mo]
    by (auto simp: spend_model_band_def expected_monthly_def split: option.splits)
qed

definition lumps_until :: "lump_injection list \<Rightarrow> date \<Rightarrow> int" where
  "lumps_until lumps d = sum_list (map half_width_cents (filter (\<lambda>l. li_date l \<le> d) lumps))"

definition lumps_fit :: "lump_injection list \<Rightarrow> daily_balance list \<Rightarrow> bool" where
  "lumps_fit lumps series \<longleftrightarrow>
     list_all (\<lambda>day.
         let cum = lumps_until lumps (db_date day); band = closing day
         in in_i64 cum \<and> money_wf (p10 band) \<and> money_wf (p90 band) \<and>
            currency (p10 band) = currency (p50 band) \<and> currency (p90 band) = currency (p50 band) \<and>
            in_i64 (minor_units (p10 band) - cum) \<and> in_i64 (minor_units (p90 band) + cum)) series"

text \<open>
  Injecting lumps keeps dates, events and medians, moves the two outer percentiles apart by the
  total of the lumps due by that day, and returns the series unchanged when every lump is zero.
\<close>

theorem widen_with_lumps_exact:
  assumes "lumps_fit lumps series"
  shows "widen_with_lumps series lumps =
    map (\<lambda>day. day\<lparr>closing := (closing day)
        \<lparr>p10 := money_new (minor_units (p10 (closing day)) - lumps_until lumps (db_date day)) (currency (p50 (closing day))),
         p90 := money_new (minor_units (p90 (closing day)) + lumps_until lumps (db_date day)) (currency (p50 (closing day)))\<rparr>\<rparr>)
      series"
proof -
  let ?f = "\<lambda>day. day\<lparr>closing := (closing day)
        \<lparr>p10 := money_new (minor_units (p10 (closing day)) - lumps_until lumps (db_date day)) (currency (p50 (closing day))),
         p90 := money_new (minor_units (p90 (closing day)) + lumps_until lumps (db_date day)) (currency (p50 (closing day)))\<rparr>\<rparr>"
  have fit: "in_i64 (lumps_until lumps (db_date day)) \<and> money_wf (p10 (closing day)) \<and> money_wf (p90 (closing day)) \<and>
      currency (p10 (closing day)) = currency (p50 (closing day)) \<and> currency (p90 (closing day)) = currency (p50 (closing day)) \<and>
      in_i64 (minor_units (p10 (closing day)) - lumps_until lumps (db_date day)) \<and>
      in_i64 (minor_units (p90 (closing day)) + lumps_until lumps (db_date day))" if "day \<in> set series" for day
    using assms that by (auto simp: lumps_fit_def list_all_iff Let_def)
  have zero: "?f day = day" if "day \<in> set series" "lumps_until lumps (db_date day) = 0" for day
  proof -
    have "?f day = day\<lparr>closing := (closing day)\<lparr>p10 := p10 (closing day), p90 := p90 (closing day)\<rparr>\<rparr>"
      using fit [OF that(1)] that(2) by (metis money_new_eqD add_0_right diff_zero)
    then show ?thesis by simp
  qed
  have one: "lump_widen_day lumps day = ?f day" if "day \<in> set series" for day
  proof (cases "lumps_until lumps (db_date day) = 0")
    case True
    with zero [OF that True] show ?thesis by (simp add: lump_widen_day_def flip: lumps_until_def)
  next
    case False
    with fit [OF that] show ?thesis
      by (simp add: lump_widen_day_def Let_def flip: lumps_until_def)
  qed
  show ?thesis
  proof (cases "list_all (\<lambda>l. half_width_cents l = 0) lumps")
    case True
    then have "lumps_until lumps d = 0" for d by (induction lumps) (auto simp: lumps_until_def)
    with True zero show ?thesis by (simp add: widen_with_lumps_def map_idI)
  next
    case False
    with one show ?thesis by (simp add: widen_with_lumps_def)
  qed
qed

theorem widen_with_lumps_exact_witness:
  "map band_width (widen_with_lumps sample_series [\<lparr>li_date = 739648, half_width_cents = 50\<rparr>]) = [0, 100]"
proof -
  have "lumps_fit [\<lparr>li_date = 739648, half_width_cents = 50\<rparr>] sample_series" by code_simp
  from widen_with_lumps_exact [OF this] show ?thesis
    by (simp add: sample_series_def lumps_until_def band_width_def band_point_def)
qed

end
