(* ===== verification/Revolving.thy ===== *)
theory Revolving
  imports Prelude
begin

text \<open>
  \<^verbatim>\<open>crates/forecast-engine/src/revolving.rs\<close>: interest on a revolving balance and the fold over the
  billing cycles of a card.

  Amounts are integers in the \<^verbatim>\<open>i64\<close> range; saturating, wrapping and narrowing operations are
  written out as the code has them.  The wide product of the finance charge is an \<^verbatim>\<open>i128\<close> and wraps
  in a release build when it does not fit.
\<close>

section \<open>Terms and cycles\<close>

datatype payment_policy = FullStatement | Minimum | Fixed int

record revolving_terms =
  rt_apr_bps :: int
  rt_policy :: payment_policy
  rt_min_percent_bps :: int
  rt_min_floor_cents :: int

record revolving_cycle =
  rc_new_charges_cents :: int
  rc_days_in_cycle :: int
  rc_statement_override_cents :: "int option"

record cycle_projection =
  cp_opening_cents :: int
  cp_new_charges_cents :: int
  cp_finance_charge_cents :: int
  cp_statement_balance_cents :: int
  cp_minimum_due_cents :: int
  cp_payment_cents :: int
  cp_closing_cents :: int

section \<open>One cycle\<close>

definition cycle_finance_charge :: "int \<Rightarrow> int \<Rightarrow> int \<Rightarrow> int \<Rightarrow> int" where
  "cycle_finance_charge opening_cents new_charges_cents days_in_cycle apr_bps =
     (if opening_cents \<le> 0 \<or> apr_bps \<le> 0 \<or> days_in_cycle = 0 then 0
      else
        let avg_daily = opening_cents + tdiv (max new_charges_cents 0) 2;
            numer = wrap128 (wrap128 (avg_daily * apr_bps) * days_in_cycle)
        in case chk64 (tdiv numer (10000 * 365)) of Some v \<Rightarrow> v | None \<Rightarrow> i64_max)"

definition minimum_due :: "int \<Rightarrow> int \<Rightarrow> int \<Rightarrow> int" where
  "minimum_due statement_cents percent_bps floor_cents =
     (if statement_cents \<le> 0 then 0
      else
        let pct = wrap64 (tdiv (statement_cents * percent_bps) 10000)
        in min (max pct floor_cents) statement_cents)"

definition clamp :: "int \<Rightarrow> int \<Rightarrow> int \<Rightarrow> int" where
  "clamp lo hi x = (if x < lo then lo else if hi < x then hi else x)"

definition payment_for :: "payment_policy \<Rightarrow> int \<Rightarrow> int \<Rightarrow> int" where
  "payment_for policy statement_cents minimum_cents =
     clamp 0 (max statement_cents 0)
       (case policy of
          FullStatement \<Rightarrow> statement_cents
        | Minimum \<Rightarrow> minimum_cents
        | Fixed fixed \<Rightarrow> fixed)"

section \<open>The fold\<close>

primrec revolving_loop ::
    "revolving_terms \<Rightarrow> int \<Rightarrow> int \<Rightarrow> revolving_cycle list \<Rightarrow> cycle_projection list" where
  "revolving_loop terms billed unbilled [] = []"
| "revolving_loop terms billed unbilled (cycle # cycles) =
     (let finance_charge =
            cycle_finance_charge billed (sat64 (rc_new_charges_cents cycle + unbilled))
              (rc_days_in_cycle cycle) (rt_apr_bps terms);
          opening = sat64 (billed + unbilled);
          estimate = sat64 (sat64 (opening + rc_new_charges_cents cycle) + finance_charge);
          statement = (case rc_statement_override_cents cycle of Some s \<Rightarrow> s | None \<Rightarrow> estimate);
          next_unbilled = max (sat64 (estimate - statement)) 0;
          min_due = minimum_due statement (rt_min_percent_bps terms) (rt_min_floor_cents terms);
          payment = payment_for (rt_policy terms) statement min_due;
          next_billed = max (wrap64 (statement - payment)) 0
      in \<lparr>cp_opening_cents = opening,
          cp_new_charges_cents = rc_new_charges_cents cycle,
          cp_finance_charge_cents = finance_charge,
          cp_statement_balance_cents = statement,
          cp_minimum_due_cents = min_due,
          cp_payment_cents = payment,
          cp_closing_cents = sat64 (next_billed + next_unbilled)\<rparr>
         # revolving_loop terms next_billed next_unbilled cycles)"

definition project_revolving :: "int \<Rightarrow> revolving_cycle list \<Rightarrow> revolving_terms \<Rightarrow> cycle_projection list" where
  "project_revolving opening_cents cycles terms = revolving_loop terms (max opening_cents 0) 0 cycles"

section \<open>The pieces of a cycle\<close>


lemma payment_full: "payment_for FullStatement s m = max s 0"
  by (simp add: payment_for_def clamp_def max_def)

lemma cycle_finance_charge_in_range [simp]: "in_i64 (cycle_finance_charge o1 n d a)"
  by (simp add: cycle_finance_charge_def Let_def split: option.splits)

lemma cycle_finance_charge_grace [simp]: "cycle_finance_charge 0 n d a = 0"
  by (simp add: cycle_finance_charge_def)

lemma minimum_due_le: "0 < s \<Longrightarrow> minimum_due s p f \<le> s"
  by (simp add: minimum_due_def Let_def)

text \<open>What a row must satisfy, whatever the cycle: the flow of money through it.\<close>

definition cycle_inputs_ok :: "revolving_cycle \<Rightarrow> bool" where
  "cycle_inputs_ok cycle \<longleftrightarrow>
     in_i64 (rc_new_charges_cents cycle) \<and>
     (case rc_statement_override_cents cycle of None \<Rightarrow> True | Some s \<Rightarrow> in_i64 s)"






lemma revolving_loop_step:
  assumes "cycle_inputs_ok y"
  obtains r s m u' where
    "revolving_loop t b u (y # ys) = r # revolving_loop t (max (wrap64 (s - payment_for (rt_policy t) s m)) 0) u' ys"
    "0 \<le> u'" "in_i64 s"
proof -
  let ?f = "cycle_finance_charge b (sat64 (rc_new_charges_cents y + u)) (rc_days_in_cycle y) (rt_apr_bps t)"
  let ?est = "sat64 (sat64 (sat64 (b + u) + rc_new_charges_cents y) + ?f)"
  let ?s = "case rc_statement_override_cents y of Some s \<Rightarrow> s | None \<Rightarrow> ?est"
  have "in_i64 ?s" using assms by (auto simp: cycle_inputs_ok_def split: option.splits)
  with that [of _ ?s "minimum_due ?s (rt_min_percent_bps t) (rt_min_floor_cents t)" "max (sat64 (?est - ?s)) 0"]
  show ?thesis unfolding revolving_loop.simps Let_def by (metis max.cobounded2)
qed

lemma full_payment_clears:
  "in_i64 s \<Longrightarrow> max (wrap64 (s - payment_for FullStatement s m)) 0 = 0"
  by (auto simp: payment_full max_def)

lemma revolving_loop_full:
  assumes "rt_policy t = FullStatement"
  shows "list_all cycle_inputs_ok cycles \<Longrightarrow> 0 \<le> u \<Longrightarrow>
    list_all (\<lambda>r. cp_finance_charge_cents r = 0) (revolving_loop t 0 u cycles)"
proof (induction cycles arbitrary: u)
  case (Cons y cycles)
  then have "cycle_inputs_ok y" by simp
  from revolving_loop_step [OF this, where t = t and b = 0 and u = u and ys = cycles] obtain r s m u' where
    step: "revolving_loop t 0 u (y # cycles) = r # revolving_loop t (max (wrap64 (s - payment_for (rt_policy t) s m)) 0) u' cycles"
    "0 \<le> u'" "in_i64 s"
    by blast
  have "cp_finance_charge_cents (hd (revolving_loop t 0 u (y # cycles))) = 0"
    unfolding revolving_loop.simps Let_def list.sel cycle_projection.simps by (rule cycle_finance_charge_grace)
  then show ?case
    using Cons.IH [OF _ step(2)] Cons.prems(1) unfolding step(1) assms full_payment_clears [OF step(3)] by simp
qed simp

section \<open>Properties\<close>


text \<open>A recorded credit raises what is carried: 500 are owed, the statement shows a credit of 100, 600 are carried.\<close>

lemma credit_statement_raises_the_carry:
  "map (\<lambda>r. (cp_statement_balance_cents r, cp_payment_cents r, cp_closing_cents r))
     (project_revolving 500 [\<lparr>rc_new_charges_cents = 0, rc_days_in_cycle = 30, rc_statement_override_cents = Some (- 100)\<rparr>]
        \<lparr>rt_apr_bps = 0, rt_policy = FullStatement, rt_min_percent_bps = 100, rt_min_floor_cents = 2500\<rparr>) =
   [(- 100, 0, 600)]"
  by code_simp

definition sample_terms :: "payment_policy \<Rightarrow> revolving_terms" where
  "sample_terms p = \<lparr>rt_apr_bps = 2400, rt_policy = p, rt_min_percent_bps = 100, rt_min_floor_cents = 2500\<rparr>"

definition sample_cycle :: "int option \<Rightarrow> revolving_cycle" where
  "sample_cycle st = \<lparr>rc_new_charges_cents = 20000, rc_days_in_cycle = 30, rc_statement_override_cents = st\<rparr>"


text \<open>
  A card paid in full pays no interest: under the full-statement policy every cycle after the
  first has a zero finance charge, and so has the first when nothing was owed at the start,
  recorded statements or not.
\<close>

theorem full_payer_pays_no_interest:
  assumes "rt_policy terms = FullStatement" "in_i64 opening" "list_all cycle_inputs_ok cycles"
  shows "list_all (\<lambda>r. cp_finance_charge_cents r = 0)
    (if opening \<le> 0 then project_revolving opening cycles terms
     else tl (project_revolving opening cycles terms))"
proof (cases "opening \<le> 0")
  case True
  then have "max opening 0 = 0" by simp
  with True show ?thesis
    using revolving_loop_full [OF assms(1,3), of 0] by (simp add: project_revolving_def)
next
  case False
  show ?thesis
  proof (cases cycles)
    case Nil
    with False show ?thesis by (simp add: project_revolving_def)
  next
    case (Cons y ys)
    then have ok: "cycle_inputs_ok y" "list_all cycle_inputs_ok ys" using assms(3) by simp_all
    obtain r s m u' where
      step: "revolving_loop terms opening 0 (y # ys) =
          r # revolving_loop terms (max (wrap64 (s - payment_for (rt_policy terms) s m)) 0) u' ys"
      "0 \<le> u'" "in_i64 s"
      using revolving_loop_step [OF ok(1), where t = terms and b = "opening" and u = 0 and ys = ys] by blast
    have "list_all (\<lambda>r. cp_finance_charge_cents r = 0) (tl (revolving_loop terms opening 0 (y # ys)))"
      using revolving_loop_full [OF assms(1) ok(2) step(2)]
      unfolding step(1) assms(1) full_payment_clears [OF step(3)] by simp
    with False Cons show ?thesis by (simp add: project_revolving_def del: revolving_loop.simps)
  qed
qed

theorem full_payer_pays_no_interest_witness:
  "list_all (\<lambda>r. cp_finance_charge_cents r = 0)
     (tl (project_revolving 50000 [sample_cycle (Some 40000), sample_cycle None] (sample_terms FullStatement))) \<and>
   map cp_finance_charge_cents
     (project_revolving 50000 [sample_cycle (Some 40000), sample_cycle None] (sample_terms FullStatement)) = [1183, 0]"
proof -
  have "rt_policy (sample_terms FullStatement) = FullStatement" "in_i64 50000"
    "list_all cycle_inputs_ok [sample_cycle (Some 40000), sample_cycle None]" by code_simp+
  note full_payer_pays_no_interest [OF this]
  moreover have "map cp_finance_charge_cents
     (project_revolving 50000 [sample_cycle (Some 40000), sample_cycle None] (sample_terms FullStatement)) = [1183, 0]"
    by code_simp
  ultimately show ?thesis by simp
qed

text \<open>
  The finance charge is the average daily balance times rate times days, rounded down and capped
  at the largest \<^verbatim>\<open>i64\<close>, as long as the wide product fits an \<^verbatim>\<open>i128\<close>; it is zero under grace.
\<close>

theorem cycle_finance_charge_exact:
  assumes "0 \<le> apr" "0 \<le> d"
    and "(max opening 0 + max charges 0 div 2) * apr * d < 170141183460469231731687303715884105728"
  shows "cycle_finance_charge opening charges d apr =
    (if opening \<le> 0 then 0
     else min i64_max ((opening + max charges 0 div 2) * apr * d div 3650000))"
proof (cases "opening \<le> 0 \<or> apr = 0 \<or> d = 0")
  case True
  then show ?thesis by (auto simp: cycle_finance_charge_def i64_max_def)
next
  case False
  define avg where "avg = opening + max charges 0 div 2"
  have pos: "0 < avg" "0 < apr" "1 \<le> d"
    using False assms(1,2) by (auto simp: avg_def intro: add_pos_nonneg)
  have bound: "avg * apr * d < 170141183460469231731687303715884105728"
    using assms(3) False by (simp add: avg_def max_def)
  have inner: "0 \<le> avg * apr" using pos by simp
  have outer: "0 \<le> avg * apr * d" using inner pos(3) by simp
  have "avg * apr * 1 \<le> avg * apr * d" using inner pos(3) by (intro mult_left_mono) auto
  with bound inner have w1: "wrap128 (avg * apr) = avg * apr" by (intro wrap128_id) linarith+
  have w2: "wrap128 (avg * apr * d) = avg * apr * d" using bound outer by (intro wrap128_id) linarith+
  have avg: "opening + tdiv (max charges 0) 2 = avg" by (simp add: avg_def tdiv_nonneg_eq)
  have q: "0 \<le> avg * apr * d div 3650000" using outer by (simp add: pos_imp_zdiv_nonneg_iff)
  have t: "tdiv (avg * apr * d) (10000 * 365) = avg * apr * d div 3650000"
    using tdiv_nonneg_eq [OF outer, of 3650000] by simp
  have "cycle_finance_charge opening charges d apr =
      (case chk64 (avg * apr * d div 3650000) of Some v \<Rightarrow> v | None \<Rightarrow> i64_max)"
    using False assms(1) unfolding cycle_finance_charge_def Let_def avg w1 w2 t by simp
  also have "\<dots> = min i64_max (avg * apr * d div 3650000)"
    using q by (auto simp: chk64_def machine_int)
  finally show ?thesis using False by (simp add: avg_def)
qed

theorem cycle_finance_charge_exact_witness:
  "cycle_finance_charge 50000 20000 30 2400 = (50000 + 10000) * 2400 * 30 div 3650000 \<and>
   (50000 + 10000) * 2400 * 30 div 3650000 = (1183 :: int)"
  using cycle_finance_charge_exact [of 2400 30 50000 20000] by (simp add: i64_max_def)

text \<open>
  The wide product can overflow: with the largest balance and rate the charge of a 28-day cycle
  is negative.
\<close>

theorem cycle_finance_charge_can_be_negative:
  "in_i64 9223372036854775807 \<and> cycle_finance_charge 9223372036854775807 0 28 9223372036854775807 < 0"
  by code_simp

end
