(* ===== verification/Payoff.thy ===== *)
theory Payoff
  imports Revolving
begin

text \<open>
  \<^verbatim>\<open>crates/forecast-engine/src/payoff.rs\<close>: the month-by-month paydown of a set of debts under a
  strategy.

  The cascade of the surplus ends because every payment is positive; the simulation ends at the
  horizon of 600 months.  Balances are kept in the order of the debts.
\<close>

section \<open>Debts and strategies\<close>

definition horizon_cap_months :: nat where "horizon_cap_months = 600"

record payoff_debt =
  pd_balance_cents :: int
  pd_apr_bps :: int
  pd_min_percent_bps :: int
  pd_min_floor_cents :: int
  pd_fixed_payment_cents :: int

datatype payoff_strategy = MinimumOnly | Snowball | Avalanche

record payoff_result =
  debt_free_month :: "nat option"
  total_interest_cents :: int
  monthly_total_owed :: "int list"
  monthly_owed_by_debt :: "int list list"

definition required_minimum :: "payoff_debt \<Rightarrow> int \<Rightarrow> int" where
  "required_minimum debt balance =
     (if balance \<le> 0 then 0
      else
        let m = (if 0 < pd_fixed_payment_cents debt then pd_fixed_payment_cents debt
                 else minimum_due balance (pd_min_percent_bps debt) (pd_min_floor_cents debt))
        in if m = 0 \<and> 0 < pd_min_percent_bps debt then balance else min m balance)"

definition monthly_interest :: "int \<Rightarrow> int \<Rightarrow> int" where
  "monthly_interest balance apr_bps =
     (if balance \<le> 0 \<or> apr_bps \<le> 0 then 0 else wrap64 (tdiv (balance * apr_bps) (10000 * 12)))"

text \<open>\<^verbatim>\<open>Iterator::min_by_key\<close>: the first element whose key is least.\<close>

definition min_by_key :: "('a \<Rightarrow> 'k :: linorder) \<Rightarrow> 'a list \<Rightarrow> 'a option" where
  "min_by_key key xs =
     foldl (\<lambda>best x. case best of None \<Rightarrow> Some x | Some b \<Rightarrow> if key x < key b then Some x else Some b)
       None xs"

definition target_debt :: "int list \<Rightarrow> payoff_debt list \<Rightarrow> payoff_strategy \<Rightarrow> nat option" where
  "target_debt balances debts strategy =
     (let active = filter (\<lambda>i. 0 < balances ! i) [0..<length balances]
      in case strategy of
           MinimumOnly \<Rightarrow> None
         | Snowball \<Rightarrow> min_by_key (\<lambda>i. (balances ! i, i)) active
         | Avalanche \<Rightarrow> min_by_key (\<lambda>i. (- pd_apr_bps (debts ! i), i)) active)"

lemma min_by_key_in: "min_by_key key xs = Some x \<Longrightarrow> x \<in> set xs"
proof (induction xs arbitrary: x rule: rev_induct)
  case (snoc y ys)
  then show ?case by (auto simp: min_by_key_def split: option.splits if_splits)
qed (simp add: min_by_key_def)

lemma min_by_key_None_iff [simp]: "min_by_key key xs = None \<longleftrightarrow> xs = []"
proof (induction xs rule: rev_induct)
  case (snoc y ys)
  then show ?case by (auto simp: min_by_key_def split: option.splits if_splits)
qed (simp add: min_by_key_def)

lemma min_by_key_least: "min_by_key key xs = Some x \<Longrightarrow> y \<in> set xs \<Longrightarrow> key x \<le> key y"
proof (induction xs arbitrary: x rule: rev_induct)
  case (snoc z ys)
  show ?case
  proof (cases "min_by_key key ys")
    case None
    then have "ys = []" by simp
    with snoc.prems show ?thesis by (simp add: min_by_key_def)
  next
    case (Some b)
    then have x: "x = (if key z < key b then z else b)"
      using snoc.prems(1) by (auto simp: min_by_key_def split: if_splits)
    show ?thesis using snoc.IH [OF Some] snoc.prems(2) by (auto simp: x)
  qed
qed simp

lemma target_debt_Some:
  "target_debt bals debts strategy = Some t \<Longrightarrow> t < length bals \<and> 0 < bals ! t"
  by (cases strategy) (auto simp: target_debt_def Let_def dest!: min_by_key_in)

lemma target_debt_None_iff:
  "target_debt bals debts strategy = None \<longleftrightarrow> strategy = MinimumOnly \<or> list_all (\<lambda>b. b \<le> 0) bals"
  by (cases strategy) (auto simp: target_debt_def Let_def filter_empty_conv list_all_length not_less)

section \<open>One month\<close>

primrec accrue_interest :: "payoff_debt list \<Rightarrow> int list \<Rightarrow> int \<Rightarrow> int list \<times> int" where
  "accrue_interest [] balances tot = ([], tot)"
| "accrue_interest (debt # debts) balances tot =
     (let balance = hd balances;
          interest = monthly_interest balance (pd_apr_bps debt);
          (rest, tot) = accrue_interest debts (tl balances) (sat64 (tot + interest))
      in (sat64 (balance + interest) # rest, tot))"

definition pay_minimum_only :: "payoff_debt list \<Rightarrow> int list \<Rightarrow> int list" where
  "pay_minimum_only debts balances = map2 (\<lambda>debt b. wrap64 (b - required_minimum debt b)) debts balances"

primrec fund_minimums :: "payoff_debt list \<Rightarrow> int list \<Rightarrow> int \<Rightarrow> int list \<times> int" where
  "fund_minimums [] balances paid_min = ([], paid_min)"
| "fund_minimums (debt # debts) balances paid_min =
     (let balance = hd balances;
          pay = required_minimum debt balance;
          (rest, paid_min) = fund_minimums debts (tl balances) (sat64 (paid_min + pay))
      in (wrap64 (balance - pay) # rest, paid_min))"

text \<open>The cascade onto the target debts; \<open>balances[t := b]\<close> stays inside since \<open>t\<close> is an index.\<close>

function cascade :: "payoff_debt list \<Rightarrow> payoff_strategy \<Rightarrow> int list \<Rightarrow> int \<Rightarrow> int list" where
  "cascade debts strategy balances surplus =
     (if 0 < surplus then
        (case target_debt balances debts strategy of
           None \<Rightarrow> balances
         | Some t \<Rightarrow>
             let pay = min (balances ! t) surplus
             in if pay = 0 then balances
                else cascade debts strategy (balances[t := balances ! t - pay]) (surplus - pay))
      else balances)"
  by pat_completeness auto

termination
  by (relation "measure (\<lambda>(_, _, _, surplus). nat surplus)") (auto dest!: target_debt_Some simp: min_def)

declare cascade.simps [simp del]

definition month_step ::
    "payoff_debt list \<Rightarrow> payoff_strategy \<Rightarrow> int \<Rightarrow> int list \<Rightarrow> int \<Rightarrow> int list \<times> int" where
  "month_step debts strategy budget balances total_interest =
     (let (balances, total_interest) = accrue_interest debts balances total_interest
      in if strategy = MinimumOnly then (pay_minimum_only debts balances, total_interest)
         else
           let (balances, paid_min) = fund_minimums debts balances 0;
               surplus = max (sat64 (budget - paid_min)) 0
           in (cascade debts strategy balances surplus, total_interest))"

section \<open>The simulation\<close>

definition total_owed :: "int list \<Rightarrow> int" where
  "total_owed balances = foldl (\<lambda>a b. sat64 (a + max b 0)) 0 balances"

definition clamp_owed :: "int list \<Rightarrow> int list" where
  "clamp_owed balances = map (\<lambda>b. max b 0) balances"

function payoff_loop ::
    "payoff_debt list \<Rightarrow> payoff_strategy \<Rightarrow> int \<Rightarrow> nat \<Rightarrow> int list \<Rightarrow> int \<Rightarrow> int list \<Rightarrow> int list list \<Rightarrow>
     nat \<times> int list \<times> int \<times> int list \<times> int list list" where
  "payoff_loop debts strategy budget month balances total_interest totals by_debt =
     (if list_ex (\<lambda>b. 0 < b) balances \<and> month < horizon_cap_months then
        let (balances, total_interest) = month_step debts strategy budget balances total_interest
        in payoff_loop debts strategy budget (month + 1) balances total_interest
             (totals @ [total_owed balances]) (by_debt @ [clamp_owed balances])
      else (month, balances, total_interest, totals, by_debt))"
  by pat_completeness auto

termination
  by (relation "measure (\<lambda>(_, _, _, month, _). horizon_cap_months - month)") auto

declare payoff_loop.simps [simp del]

definition constant_budget :: "payoff_debt list \<Rightarrow> int \<Rightarrow> int" where
  "constant_budget debts extra_budget_cents =
     (let balances = map (\<lambda>d. max (pd_balance_cents d) 0) debts;
          initial_min_sum = foldl (\<lambda>a x. sat64 (a + x)) 0 (map2 required_minimum debts balances)
      in sat64 (initial_min_sum + max extra_budget_cents 0))"

definition simulate_payoff :: "payoff_debt list \<Rightarrow> payoff_strategy \<Rightarrow> int \<Rightarrow> payoff_result" where
  "simulate_payoff debts strategy extra_budget_cents =
     (let balances = map (\<lambda>d. max (pd_balance_cents d) 0) debts;
          (month, final, total_interest, totals, by_debt) =
            payoff_loop debts strategy (constant_budget debts extra_budget_cents) 0 balances 0
              [total_owed balances] [clamp_owed balances]
      in \<lparr>debt_free_month = (if list_all (\<lambda>b. b \<le> 0) final then Some month else None),
          total_interest_cents = total_interest,
          monthly_total_owed = totals,
          monthly_owed_by_debt = by_debt\<rparr>)"

section \<open>Shape of the result\<close>

lemma accrue_length [simp]: "length (fst (accrue_interest debts bals tot)) = length debts"
  by (induction debts arbitrary: bals tot) (auto simp: Let_def split_beta)

lemma fund_length [simp]: "length (fst (fund_minimums debts bals paid)) = length debts"
  by (induction debts arbitrary: bals paid) (auto simp: Let_def split_beta)

lemma cascade_length [simp]: "length (cascade debts strategy bals surplus) = length bals"
proof (induction debts strategy bals surplus rule: cascade.induct)
  case (1 debts strategy bals surplus)
  then show ?case by (subst cascade.simps) (auto simp: Let_def split: option.split)
qed

lemma month_step_length: "length (fst (month_step debts strategy budget bals ti)) = length debts"
  by (auto simp: month_step_def Let_def split_beta pay_minimum_only_def)

lemma total_owed_clamp: "total_owed (clamp_owed bals) = total_owed bals"
proof -
  have "foldl (\<lambda>a b. sat64 (a + max b 0)) s (map (\<lambda>b. max b 0) bals) = foldl (\<lambda>a b. sat64 (a + max b 0)) s bals" for s
    by (induction bals arbitrary: s) simp_all
  then show ?thesis by (simp add: total_owed_def clamp_owed_def)
qed

lemma payoff_loop_shape:
  "payoff_loop debts strategy budget month bals ti totals by_debt = (m', final, ti', totals', by') \<Longrightarrow>
   month \<le> horizon_cap_months \<Longrightarrow> length bals = length debts \<Longrightarrow> by_debt \<noteq> [] \<Longrightarrow> last by_debt = clamp_owed bals \<Longrightarrow>
   totals = map total_owed by_debt \<Longrightarrow> length by_debt = month + 1 \<Longrightarrow>
   list_all (\<lambda>row. length row = length debts \<and> list_all (\<lambda>b. 0 \<le> b) row) by_debt \<Longrightarrow>
   by' \<noteq> [] \<and> hd by' = hd by_debt \<and> last by' = clamp_owed final \<and> totals' = map total_owed by' \<and>
   length by' = m' + 1 \<and> m' \<le> horizon_cap_months \<and>
   list_all (\<lambda>row. length row = length debts \<and> list_all (\<lambda>b. 0 \<le> b) row) by' \<and>
   (list_ex (\<lambda>b. 0 < b) final \<longrightarrow> m' = horizon_cap_months)"
proof (induction debts strategy budget month bals ti totals by_debt rule: payoff_loop.induct)
  case (1 debts strategy budget month bals ti totals by_debt)
  show ?case
  proof (cases "list_ex (\<lambda>b. 0 < b) bals \<and> month < horizon_cap_months")
    case False
    with 1(2) have "(m', final, ti', totals', by') = (month, bals, ti, totals, by_debt)"
      by (subst (asm) payoff_loop.simps) simp
    with False 1(3-9) show ?thesis by auto
  next
    case True
    obtain b2 t2 where st: "month_step debts strategy budget bals ti = (b2, t2)" by fastforce
    have "length b2 = length debts" using month_step_length [of debts strategy budget bals ti] st by simp
    moreover from this have "length (clamp_owed b2) = length debts \<and> list_all (\<lambda>b. 0 \<le> b) (clamp_owed b2)"
      by (simp add: clamp_owed_def list_all_iff)
    moreover have "payoff_loop debts strategy budget (month + 1) b2 t2 (totals @ [total_owed b2]) (by_debt @ [clamp_owed b2]) =
        (m', final, ti', totals', by')"
      using 1(2) True st by (subst (asm) payoff_loop.simps) simp
    ultimately show ?thesis
      using 1(1) [OF True st [symmetric] refl] True 1(3-9) by (simp add: total_owed_clamp)
  qed
qed

section \<open>Where the payments go\<close>

definition debt_ok :: "payoff_debt \<Rightarrow> bool" where
  "debt_ok d \<longleftrightarrow> 0 \<le> pd_min_percent_bps d \<and> pd_min_percent_bps d \<le> 10000 \<and> 0 \<le> pd_min_floor_cents d"

text \<open>Every balance is non-negative, interest is, and what is owed with interest fits.\<close>

definition owed_with_interest :: "payoff_debt list \<Rightarrow> int list \<Rightarrow> int list" where
  "owed_with_interest debts bals = map2 (\<lambda>d b. b + monthly_interest b (pd_apr_bps d)) debts bals"

definition month_fits :: "payoff_debt list \<Rightarrow> int list \<Rightarrow> bool" where
  "month_fits debts bals \<longleftrightarrow>
     length bals = length debts \<and>
     list_all2 (\<lambda>d b. 0 \<le> b \<and> 0 \<le> monthly_interest b (pd_apr_bps d)) debts bals \<and>
     sum_list (owed_with_interest debts bals) \<le> i64_max"

lemma minimum_due_nonneg:
  assumes "0 \<le> p" "p \<le> 10000" "0 \<le> f" "in_i64 b"
  shows "0 \<le> minimum_due b p f"
proof (cases "b \<le> 0")
  case False
  then have "0 \<le> b * p" "b * p \<le> b * 10000" using assms by (simp_all add: mult_left_mono)
  then have "0 \<le> tdiv (b * p) 10000" "tdiv (b * p) 10000 \<le> b"
    using tdiv_mono [of "b * p" "b * 10000" 10000] tdiv_nonneg_eq [of "b * 10000" 10000] False by simp_all
  then have "in_i64 (tdiv (b * p) 10000)" using in_i64_nonneg_le [OF assms(4)] by blast
  then show ?thesis using False assms(3) by (simp add: minimum_due_def Let_def)
qed (simp add: minimum_due_def)

lemma required_minimum_bounds:
  assumes "debt_ok d" "0 \<le> b" "in_i64 b"
  shows "0 \<le> required_minimum d b" "required_minimum d b \<le> b"
  using assms minimum_due_nonneg [of "pd_min_percent_bps d" "pd_min_floor_cents d" b]
  by (auto simp: required_minimum_def debt_ok_def Let_def)

lemma accrue_exact:
  "length bals = length debts \<Longrightarrow>
   list_all2 (\<lambda>d b. 0 \<le> b \<and> 0 \<le> monthly_interest b (pd_apr_bps d)) debts bals \<Longrightarrow>
   sum_list (owed_with_interest debts bals) \<le> i64_max \<Longrightarrow>
   fst (accrue_interest debts bals ti) = owed_with_interest debts bals \<and>
   list_all (\<lambda>x. 0 \<le> x) (owed_with_interest debts bals)"
proof (induction debts arbitrary: bals ti)
  case (Cons d debts)
  then obtain b bs where bals: "bals = b # bs" by (cases bals) simp_all
  let ?x = "b + monthly_interest b (pd_apr_bps d)"
  have x: "0 \<le> ?x" using Cons.prems(2) by (simp add: bals)
  have pos: "0 \<le> sum_list (owed_with_interest debts bs)"
  proof -
    have "list_all2 (\<lambda>d b. 0 \<le> b \<and> 0 \<le> monthly_interest b (pd_apr_bps d)) debts bs"
      using Cons.prems(2) by (simp add: bals)
    then show ?thesis
      unfolding owed_with_interest_def by (induction debts bs rule: list_all2_induct) auto
  qed
  have fit: "?x \<le> i64_max" "sum_list (owed_with_interest debts bs) \<le> i64_max"
    using Cons.prems(3) x pos by (simp_all add: bals owed_with_interest_def)
  then have "in_i64 ?x" using x in_i64_nonneg_le [of i64_max ?x] by simp
  with Cons.IH [of bs "sat64 (ti + monthly_interest b (pd_apr_bps d))"] Cons.prems fit x show ?case
    by (simp add: bals owed_with_interest_def Let_def split_beta)
qed (simp add: owed_with_interest_def)

lemma fund_exact:
  "length bals = length debts \<Longrightarrow> list_all debt_ok debts \<Longrightarrow> list_all (\<lambda>b. 0 \<le> b) bals \<Longrightarrow>
   0 \<le> paid \<Longrightarrow> paid + sum_list bals \<le> i64_max \<Longrightarrow>
   fund_minimums debts bals paid =
     (map2 (\<lambda>d b. b - required_minimum d b) debts bals, paid + sum_list (map2 required_minimum debts bals)) \<and>
   list_all (\<lambda>b. 0 \<le> b) (map2 (\<lambda>d b. b - required_minimum d b) debts bals) \<and>
   0 \<le> sum_list (map2 required_minimum debts bals) \<and>
   sum_list (map2 required_minimum debts bals) \<le> sum_list bals"
proof (induction debts arbitrary: bals paid)
  case (Cons d debts)
  then obtain b bs where bals: "bals = b # bs" by (cases bals) simp_all
  have s: "0 \<le> sum_list bs" using Cons.prems(3) by (intro sum_list_nonneg) (simp add: bals list_all_iff)
  have b: "0 \<le> b" "in_i64 b"
    using Cons.prems(3-5) s in_i64_nonneg_le [of i64_max b] by (simp_all add: bals)
  have d: "debt_ok d" using Cons.prems(2) by simp
  note r = required_minimum_bounds [OF d b]
  have "in_i64 (b - required_minimum d b)" using r b(2) in_i64_nonneg_le [OF b(2), of "b - required_minimum d b"] by simp
  moreover have "in_i64 (paid + required_minimum d b)"
    using Cons.prems(4,5) r s in_i64_nonneg_le [of i64_max "paid + required_minimum d b"] by (simp add: bals)
  ultimately show ?case
    using Cons.IH [of bs "paid + required_minimum d b"] Cons.prems r s by (auto simp: bals Let_def split_beta)
qed simp

lemma sum_list_update_int: "t < length xs \<Longrightarrow> sum_list (xs[t := x]) = sum_list xs + x - (xs ! t :: int)"
  by (induction xs arbitrary: t) (auto split: nat.split)

lemma cascade_exact:
  "strategy \<noteq> MinimumOnly \<Longrightarrow> list_all (\<lambda>b. 0 \<le> b) bals \<Longrightarrow> 0 \<le> surplus \<Longrightarrow>
   list_all (\<lambda>b. 0 \<le> b) (cascade debts strategy bals surplus) \<and>
   sum_list (cascade debts strategy bals surplus) = sum_list bals - min surplus (sum_list bals)"
proof (induction debts strategy bals surplus rule: cascade.induct)
  case (1 debts strategy bals surplus)
  have s: "0 \<le> sum_list bals" using 1(3) by (intro sum_list_nonneg) (simp add: list_all_iff)
  show ?case
  proof (cases "target_debt bals debts strategy")
    case None
    then have "list_all (\<lambda>b. b \<le> 0) bals" using 1(2) by (simp add: target_debt_None_iff)
    then have "sum_list bals \<le> 0" by (induction bals) auto
    with s None 1(3,4) show ?thesis by (subst (1 2) cascade.simps) simp
  next
    case (Some t)
    note t = target_debt_Some [OF this]
    show ?thesis
    proof (cases "0 < surplus")
      case False
      with 1(3,4) s show ?thesis by (subst (1 2) cascade.simps) simp
    next
      case pos: True
      let ?p = "min (bals ! t) surplus"
      have p: "0 < ?p" using t pos by simp
      have nn: "list_all (\<lambda>b. 0 \<le> b) (bals[t := bals ! t - ?p])"
        using 1(3) t by (auto simp: list_all_length nth_list_update)
      have sum: "sum_list (bals[t := bals ! t - ?p]) = sum_list bals - ?p"
        using t by (simp add: sum_list_update_int)
      have le: "bals ! t \<le> sum_list bals" using 1(3) t by (intro member_le_sum_list) (auto simp: list_all_iff)
      have step: "cascade debts strategy bals surplus = cascade debts strategy (bals[t := bals ! t - ?p]) (surplus - ?p)"
        using Some pos t by (subst cascade.simps) (auto simp: Let_def min_def)
      show ?thesis
        using 1(1) [OF pos Some refl _ 1(2) nn] p le unfolding step sum by (auto simp: min_def)
    qed
  qed
qed

text \<open>What a month pays in all: the minimums, and the whole budget as far as there is debt.\<close>

definition month_payment :: "payoff_debt list \<Rightarrow> payoff_strategy \<Rightarrow> int \<Rightarrow> int list \<Rightarrow> int" where
  "month_payment debts strategy budget owed =
     (let minimums = sum_list (map2 required_minimum debts owed)
      in if strategy = MinimumOnly then minimums else max minimums (min budget (sum_list owed)))"

lemma sum_map2_diff:
  "length xs = length ys \<Longrightarrow>
   sum_list (map2 (\<lambda>d b. b - f d b :: int) xs ys) = sum_list ys - sum_list (map2 f xs ys)"
  by (induction xs ys rule: list_induct2) auto

lemma fund_balances:
  "length bals = length debts \<Longrightarrow> fst (fund_minimums debts bals paid) = pay_minimum_only debts bals"
proof (induction debts arbitrary: bals paid)
  case (Cons d debts)
  then show ?case by (cases bals) (auto simp: pay_minimum_only_def Let_def split_beta)
qed (simp add: pay_minimum_only_def)

lemma month_step_exact:
  assumes ok: "list_all debt_ok debts" and fits: "month_fits debts bals" and b: "in_i64 budget"
  shows "let bals' = fst (month_step debts strategy budget bals ti); owed = owed_with_interest debts bals
    in sum_list bals' = sum_list owed - month_payment debts strategy budget owed \<and>
       list_all (\<lambda>x. 0 \<le> x) bals' \<and> length bals' = length debts"
proof -
  let ?owed = "owed_with_interest debts bals"
  let ?left = "map2 (\<lambda>d b. b - required_minimum d b) debts ?owed"
  let ?mins = "sum_list (map2 required_minimum debts ?owed)"
  have len: "length bals = length debts" using fits by (simp add: month_fits_def)
  have acc: "fst (accrue_interest debts bals ti) = ?owed" and nn: "list_all (\<lambda>x. 0 \<le> x) ?owed"
    using accrue_exact [of bals debts ti] fits by (simp_all add: month_fits_def)
  have olen: "length ?owed = length debts" using len by (simp add: owed_with_interest_def)
  have fund: "fund_minimums debts ?owed 0 = (?left, ?mins)" "list_all (\<lambda>b. 0 \<le> b) ?left" "0 \<le> ?mins" "?mins \<le> sum_list ?owed"
    using fund_exact [OF olen ok nn, of 0] fits by (simp_all add: month_fits_def)
  have left: "sum_list ?left = sum_list ?owed - ?mins"
    using sum_map2_diff [of debts ?owed required_minimum] olen by simp
  have llen: "length ?left = length debts" using olen by simp
  obtain ti' where acc: "accrue_interest debts bals ti = (?owed, ti')" using acc by (metis prod.collapse)
  show ?thesis
  proof (cases "strategy = MinimumOnly")
    case True
    have "pay_minimum_only debts ?owed = ?left" using fund_balances [OF olen, of 0] fund(1) by simp
    with True left fund(2) llen show ?thesis
      by (simp add: month_step_def acc Let_def month_payment_def)
  next
    case False
    have s: "max (sat64 (budget - ?mins)) 0 = max (budget - ?mins) 0" using b fund(3) by (rule max_sat64_diff)
    have "sum_list (cascade debts strategy ?left (max (budget - ?mins) 0)) =
        sum_list ?owed - max ?mins (min budget (sum_list ?owed))"
      using cascade_exact [OF False fund(2), of "max (budget - ?mins) 0" debts] left fund(4)
      by (simp add: min_def max_def)
    moreover have "list_all (\<lambda>x. 0 \<le> x) (cascade debts strategy ?left (max (budget - ?mins) 0))"
      using cascade_exact [OF False fund(2), of "max (budget - ?mins) 0" debts] by simp
    ultimately show ?thesis
      using False llen by (simp add: month_step_def acc fund(1) s Let_def month_payment_def)
  qed
qed

text \<open>Without interest the budget is paid off the total every month.\<close>

lemma interest_free_accrue:
  "length bals = length debts \<Longrightarrow> list_all (\<lambda>d. pd_apr_bps d \<le> 0) debts \<Longrightarrow> in_i64 ti \<Longrightarrow>
   owed_with_interest debts bals = bals \<and> snd (accrue_interest debts bals ti) = ti"
proof (induction debts arbitrary: bals)
  case (Cons d debts)
  then show ?case
    by (cases bals) (auto simp: owed_with_interest_def monthly_interest_def Let_def split_beta)
qed (simp add: owed_with_interest_def)

lemma interest_free_month:
  assumes "list_all debt_ok debts" "list_all (\<lambda>d. pd_apr_bps d \<le> 0) debts" "length bals = length debts"
    and "list_all (\<lambda>b. 0 \<le> b) bals" "sum_list bals \<le> i64_max" "in_i64 budget" "strategy \<noteq> MinimumOnly" "in_i64 ti"
  shows "let (bals', ti') = month_step debts strategy budget bals ti
    in sum_list bals' \<le> max 0 (sum_list bals - budget) \<and> sum_list bals' \<le> sum_list bals \<and>
       list_all (\<lambda>x. 0 \<le> x) bals' \<and> length bals' = length debts \<and> ti' = ti"
proof -
  note free = interest_free_accrue [OF assms(3,2,8)]
  have fits: "month_fits debts bals"
    using assms(2-5) free by (auto simp: month_fits_def list_all2_conv_all_nth list_all_length monthly_interest_def)
  have "snd (month_step debts strategy budget bals ti) = ti"
    using free by (auto simp: month_step_def Let_def split_beta)
  moreover have "0 \<le> month_payment debts strategy budget bals"
    using fund_exact [OF assms(3,1,4), of 0] assms(5,7) by (simp add: month_payment_def Let_def le_max_iff_disj)
  moreover have "min budget (sum_list bals) \<le> month_payment debts strategy budget bals"
    using assms(7) by (simp add: month_payment_def Let_def)
  ultimately show ?thesis
    using month_step_exact [OF assms(1) fits assms(6), of strategy ti] free
    by (auto simp: Let_def split_beta min_def max_def split: if_splits)
qed

lemma interest_free_loop:
  "payoff_loop debts strategy budget month bals ti totals by_debt = (m', final, ti', totals', by') \<Longrightarrow>
   list_all debt_ok debts \<Longrightarrow> list_all (\<lambda>d. pd_apr_bps d \<le> 0) debts \<Longrightarrow> length bals = length debts \<Longrightarrow>
   list_all (\<lambda>b. 0 \<le> b) bals \<Longrightarrow> sum_list bals \<le> i64_max \<Longrightarrow> in_i64 budget \<Longrightarrow> 0 < budget \<Longrightarrow>
   strategy \<noteq> MinimumOnly \<Longrightarrow> in_i64 ti \<Longrightarrow> month \<le> horizon_cap_months \<Longrightarrow>
   sum_list bals \<le> int (horizon_cap_months - month) * budget \<Longrightarrow>
   list_all (\<lambda>b. b \<le> 0) final \<and> ti' = ti \<and> month \<le> m' \<and> int (m' - month) * budget < sum_list bals + budget"
proof (induction debts strategy budget month bals ti totals by_debt rule: payoff_loop.induct)
  case (1 debts strategy budget month bals ti totals by_debt)
  have nn: "0 \<le> sum_list bals" using 1(6) by (intro sum_list_nonneg) (simp add: list_all_iff)
  have pos: "0 < sum_list bals" if "list_ex (\<lambda>b. 0 < b) bals"
  proof -
    obtain b where "b \<in> set bals" "0 < b" using \<open>list_ex (\<lambda>b. 0 < b) bals\<close> by (auto simp: list_ex_iff)
    moreover have "b \<le> sum_list bals" using \<open>b \<in> set bals\<close> 1(6) by (intro member_le_sum_list) (auto simp: list_all_iff)
    ultimately show ?thesis by simp
  qed
  show ?case
  proof (cases "list_ex (\<lambda>b. 0 < b) bals \<and> month < horizon_cap_months")
    case False
    then have "\<not> list_ex (\<lambda>b. 0 < b) bals" using pos 1(12,13) by (cases "month = horizon_cap_months") auto
    moreover have "(m', final, ti', totals', by') = (month, bals, ti, totals, by_debt)"
      using 1(2) False by (subst (asm) payoff_loop.simps) simp
    ultimately show ?thesis using nn 1(9) by (auto simp: list_all_iff list_ex_iff not_less)
  next
    case True
    obtain b2 t2 where st: "month_step debts strategy budget bals ti = (b2, t2)" by fastforce
    have m: "sum_list b2 \<le> max 0 (sum_list bals - budget)" "sum_list b2 \<le> sum_list bals"
      "list_all (\<lambda>x. 0 \<le> x) b2" "length b2 = length debts" "t2 = ti"
      using interest_free_month [OF 1(3-8,10,11)] st by simp_all
    have loop: "payoff_loop debts strategy budget (month + 1) b2 t2 (totals @ [total_owed b2]) (by_debt @ [clamp_owed b2]) =
        (m', final, ti', totals', by')"
      using 1(2) True st by (subst (asm) payoff_loop.simps) simp
    have room: "int (horizon_cap_months - (month + 1)) * budget = int (horizon_cap_months - month) * budget - budget"
      using True by (simp add: of_nat_diff algebra_simps)
    have "0 \<le> int (horizon_cap_months - (month + 1)) * budget" using 1(9) by simp
    with m(1) 1(13) room have "sum_list b2 \<le> int (horizon_cap_months - (month + 1)) * budget" by linarith
    from 1(1) [OF True st [symmetric] refl loop 1(3,4) m(4,3) _ 1(8-10) _ _ this] m 1(7,11) True
    have r: "list_all (\<lambda>b. b \<le> 0) final" "ti' = ti" "month + 1 \<le> m'"
      "int (m' - (month + 1)) * budget < sum_list b2 + budget" by auto
    have "int (m' - month) * budget = int (m' - (month + 1)) * budget + budget"
      using r(3) by (simp add: of_nat_diff algebra_simps)
    moreover have "int (m' - (month + 1)) * budget < sum_list bals"
    proof (cases "budget \<le> sum_list bals")
      case True
      with m(1) r(4) show ?thesis by simp
    next
      case False
      with m(1) r(4) have "int (m' - (month + 1)) * budget < 1 * budget" by simp
      then have "int (m' - (month + 1)) = 0" using 1(9) by (simp only: mult_less_cancel_right) auto
      then show ?thesis using pos True by simp
    qed
    ultimately show ?thesis using r by simp
  qed
qed

section \<open>Properties\<close>

text \<open>
  C34: The recorded trajectory has the shape the result promises, for any debts, strategy and budget:
  one row of balances per month from the start on, each with one non-negative balance per debt and
  its total beside it; it ends with all balances zero in the debt-free month, and otherwise runs
  the 600 months of the horizon and ends with debt left.
\<close>

theorem simulate_payoff_shape:
  "let r = simulate_payoff debts strategy extra
   in monthly_total_owed r = map total_owed (monthly_owed_by_debt r) \<and>
      hd (monthly_owed_by_debt r) = map (\<lambda>d. max (pd_balance_cents d) 0) debts \<and>
      list_all (\<lambda>row. length row = length debts \<and> list_all (\<lambda>b. 0 \<le> b) row) (monthly_owed_by_debt r) \<and>
      (case debt_free_month r of
         Some m \<Rightarrow> m \<le> 600 \<and> length (monthly_owed_by_debt r) = m + 1 \<and> list_all (\<lambda>b. b = 0) (last (monthly_owed_by_debt r))
       | None \<Rightarrow> length (monthly_owed_by_debt r) = 601 \<and> list_ex (\<lambda>b. 0 < b) (last (monthly_owed_by_debt r)))"
proof -
  let ?b = "map (\<lambda>d. max (pd_balance_cents d) 0) debts"
  obtain m final ti totals by_debt where
    loop: "payoff_loop debts strategy (constant_budget debts extra) 0 ?b 0 [total_owed ?b] [clamp_owed ?b] =
      (m, final, ti, totals, by_debt)" by (metis prod.exhaust)
  have c: "clamp_owed ?b = ?b" by (simp add: clamp_owed_def comp_def)
  have "by_debt \<noteq> [] \<and> hd by_debt = ?b \<and> last by_debt = clamp_owed final \<and> totals = map total_owed by_debt \<and>
      length by_debt = m + 1 \<and> m \<le> horizon_cap_months \<and>
      list_all (\<lambda>row. length row = length debts \<and> list_all (\<lambda>b. 0 \<le> b) row) by_debt \<and>
      (list_ex (\<lambda>b. 0 < b) final \<longrightarrow> m = horizon_cap_months)"
    using payoff_loop_shape [OF loop] by (simp add: c total_owed_clamp list_all_iff)
  moreover have "list_all (\<lambda>b. b = 0) (clamp_owed final) \<longleftrightarrow> list_all (\<lambda>b. b \<le> 0) final"
    by (induction final) (auto simp: clamp_owed_def max_def)
  moreover have "list_ex (\<lambda>b. 0 < b) (clamp_owed final) \<longleftrightarrow> \<not> list_all (\<lambda>b. b \<le> 0) final"
    "list_ex (\<lambda>b. 0 < b) final \<longleftrightarrow> \<not> list_all (\<lambda>b. b \<le> 0) final"
    by (induction final) (auto simp: clamp_owed_def)
  ultimately show ?thesis
    by (simp add: simulate_payoff_def loop Let_def horizon_cap_months_def)
qed

text \<open>
  A month moves exactly the budget: when the amounts fit, what is owed after the month is what
  was owed with interest less the payment, which under the minimum-only strategy is the minimums
  and under the rolling strategies the whole budget as far as there is debt, and never less than
  the minimums; no balance becomes negative.
\<close>

theorem month_step_accounts:
  assumes "list_all debt_ok debts" "month_fits debts bals" "in_i64 budget"
    and "month_step debts strategy budget bals interest = (bals', interest')"
  shows "sum_list bals' =
      sum_list (owed_with_interest debts bals) -
      month_payment debts strategy budget (owed_with_interest debts bals) \<and>
    list_all (\<lambda>x. 0 \<le> x) bals' \<and> length bals' = length debts"
  using month_step_exact [OF assms(1-3), of strategy interest] assms(4) by (simp add: Let_def)

text \<open>
  The surplus goes where the strategy says: snowball targets an active debt with the smallest
  balance, avalanche one with the highest rate, the earliest of several; there is a target exactly
  when some debt is active.
\<close>

theorem target_debt_choice:
  "(target_debt bals debts strategy = None) = (strategy = MinimumOnly \<or> list_all (\<lambda>b. b \<le> 0) bals) \<and>
   (case target_debt bals debts strategy of
      None \<Rightarrow> True
    | Some t \<Rightarrow>
        t < length bals \<and> 0 < bals ! t \<and>
        list_all (\<lambda>i. bals ! i \<le> 0 \<or>
            (if strategy = Snowball then (bals ! t, t) \<le> (bals ! i, i)
             else (- pd_apr_bps (debts ! t), t) \<le> (- pd_apr_bps (debts ! i), i)))
          [0..<length bals])"
proof (cases "target_debt bals debts strategy")
  case None
  then show ?thesis using target_debt_None_iff [of bals debts strategy] by simp
next
  case (Some t)
  have least: "bals ! i \<le> 0 \<or>
      (if strategy = Snowball then (bals ! t, t) \<le> (bals ! i, i)
       else (- pd_apr_bps (debts ! t), t) \<le> (- pd_apr_bps (debts ! i), i))" if i: "i < length bals" for i
  proof (cases "0 < bals ! i")
    case True
    let ?active = "filter (\<lambda>i. 0 < bals ! i) [0..<length bals]"
    have mem: "i \<in> set ?active" using i True by simp
    show ?thesis
    proof (cases strategy)
      case MinimumOnly
      with Some show ?thesis by (simp add: target_debt_def Let_def)
    next
      case Snowball
      with Some have "min_by_key (\<lambda>i. (bals ! i, i)) ?active = Some t" by (simp add: target_debt_def Let_def)
      from min_by_key_least [OF this mem] Snowball show ?thesis by simp
    next
      case Avalanche
      with Some have "min_by_key (\<lambda>i. (- pd_apr_bps (debts ! i), i)) ?active = Some t"
        by (simp add: target_debt_def Let_def)
      from min_by_key_least [OF this mem] Avalanche show ?thesis by simp
    qed
  qed simp
  have "list_all (\<lambda>i. bals ! i \<le> 0 \<or>
      (if strategy = Snowball then (bals ! t, t) \<le> (bals ! i, i)
       else (- pd_apr_bps (debts ! t), t) \<le> (- pd_apr_bps (debts ! i), i))) [0..<length bals]"
    unfolding list_all_iff using least by simp
  then show ?thesis
    using target_debt_None_iff [of bals debts strategy] target_debt_Some [OF Some] Some by simp
qed

text \<open>
  C36: Paying without interest ends: for debts whose minimum is a share of at most all and a floor of at least
  nothing, and none of which bears interest, under a rolling strategy with a positive committed budget, if the total owed is an \<^verbatim>\<open>i64\<close> and at most 600 budgets (the
  600 months the simulation runs), a debt-free month is reported, no later than the total divided by the budget
  rounded up, and no interest.  Nothing is claimed of a total beyond the horizon.
\<close>

theorem interest_free_payoff_ends:
  assumes "list_all debt_ok debts" "list_all (\<lambda>d. pd_apr_bps d \<le> 0) debts" "strategy \<noteq> MinimumOnly"
    and "0 < constant_budget debts extra"
    and "owed = sum_list (map (\<lambda>d. max (pd_balance_cents d) 0) debts)"
    and "owed \<le> i64_max" "owed \<le> 600 * constant_budget debts extra"
  shows "\<exists>m. debt_free_month (simulate_payoff debts strategy extra) = Some m \<and>
    int m * constant_budget debts extra < owed + constant_budget debts extra \<and>
    total_interest_cents (simulate_payoff debts strategy extra) = 0"
proof -
  let ?b = "map (\<lambda>d. max (pd_balance_cents d) 0) debts" and ?B = "constant_budget debts extra"
  obtain m final ti totals by_debt where
    loop: "payoff_loop debts strategy ?B 0 ?b 0 [total_owed ?b] [clamp_owed ?b] = (m, final, ti, totals, by_debt)"
    by (metis prod.exhaust)
  have "in_i64 ?B" by (simp add: constant_budget_def Let_def)
  then have "list_all (\<lambda>b. b \<le> 0) final \<and> ti = 0 \<and> 0 \<le> m \<and> int (m - 0) * ?B < owed + ?B"
    using assms by (intro interest_free_loop [OF loop, folded assms(5)])
      (auto simp: list_all_iff horizon_cap_months_def)
  then show ?thesis by (simp add: simulate_payoff_def loop Let_def)
qed

definition sample_debt :: "int \<Rightarrow> int \<Rightarrow> payoff_debt" where
  "sample_debt bal apr = \<lparr>pd_balance_cents = bal, pd_apr_bps = apr, pd_min_percent_bps = 200,
     pd_min_floor_cents = 2500, pd_fixed_payment_cents = 0\<rparr>"

theorem month_step_accounts_witness:
  "month_step [sample_debt 100000 2400, sample_debt 50000 0] Snowball 10000 [100000, 50000] 0 =
     ([99500, 42500], 2000) \<and>
   month_payment [sample_debt 100000 2400, sample_debt 50000 0] Snowball 10000 [102000, 50000] = 10000 \<and>
   sum_list [99500, 42500] = sum_list [102000, 50000] - (10000 :: int)"
proof -
  have ok: "list_all debt_ok [sample_debt 100000 2400, sample_debt 50000 0]"
    "month_fits [sample_debt 100000 2400, sample_debt 50000 0] [100000, 50000]" "in_i64 10000" by code_simp+
  have e: "month_step [sample_debt 100000 2400, sample_debt 50000 0] Snowball 10000 [100000, 50000] 0 =
      ([99500, 42500], 2000)"
    "owed_with_interest [sample_debt 100000 2400, sample_debt 50000 0] [100000, 50000] = [102000, 50000]"
    "month_payment [sample_debt 100000 2400, sample_debt 50000 0] Snowball 10000 [102000, 50000] = 10000"
    by code_simp+
  from month_step_accounts [OF ok e(1)] e show ?thesis by simp
qed

theorem interest_free_payoff_ends_witness:
  "\<exists>m. debt_free_month (simulate_payoff [sample_debt 100000 0, sample_debt 50000 0] Avalanche 45000) = Some m \<and> m \<le> 3"
proof -
  have "list_all debt_ok [sample_debt 100000 0, sample_debt 50000 0]"
    "list_all (\<lambda>d. pd_apr_bps d \<le> 0) [sample_debt 100000 0, sample_debt 50000 0]" "Avalanche \<noteq> MinimumOnly"
    by code_simp+
  moreover have B: "constant_budget [sample_debt 100000 0, sample_debt 50000 0] 45000 = 50000" by code_simp
  moreover have "sum_list (map (\<lambda>d. max (pd_balance_cents d) 0) [sample_debt 100000 0, sample_debt 50000 0]) = 150000"
    by code_simp
  ultimately show ?thesis
    using interest_free_payoff_ends [of "[sample_debt 100000 0, sample_debt 50000 0]" Avalanche 45000 150000]
    by (auto simp: i64_max_def)
qed

end
