(* ===== verification/Recurring_Detection.thy ===== *)
theory Recurring_Detection
  imports Gregorian
begin

text \<open>
  \<^verbatim>\<open>crates/categorization/src/recurring_detection.rs\<close>: candidates for recurring bills from a
  household's outflows.

  The outer \<open>None\<close> of \<open>group_candidate\<close> and \<open>detect_recurring\<close> is the panic of adding days to a
  date past the end of the calendar; the inner \<open>None\<close> is a group that does not qualify.
\<close>

definition min_occurrences :: nat where "min_occurrences = 3"
definition min_cadence_regularity_bps :: int where "min_cadence_regularity_bps = 5000"
definition amount_band_bps :: int where "amount_band_bps = 1000"
definition amount_band_floor_minor :: int where "amount_band_floor_minor = 500"

definition amount_band_minor :: "int \<Rightarrow> int" where
  "amount_band_minor reference_minor =
     (let scaled = tdiv (abs64 reference_minor * amount_band_bps) 10000
      in max (case chk64 scaled of Some v \<Rightarrow> v | None \<Rightarrow> i64_max) amount_band_floor_minor)"

record observation =
  ob_merchant_key :: string
  ob_display :: string
  ob_date :: date
  ob_amount_minor :: int
  ob_currency :: string

record recurring_candidate =
  rcand_merchant_key :: string
  rcand_display :: string
  rcand_amount_minor :: int
  rcand_amount_min_minor :: int
  rcand_amount_max_minor :: int
  rcand_currency :: string
  rcand_frequency :: string
  rcand_last_seen :: date
  rcand_next_date :: date
  rcand_occurrence_count :: nat
  rcand_confidence_bps :: int

record cadence =
  cad_token :: string
  cad_lo :: int
  cad_hi :: int
  cad_interval_days :: int

definition cadences :: "cadence list" where
  "cadences =
     [\<lparr>cad_token = ''weekly'', cad_lo = 6, cad_hi = 8, cad_interval_days = 7\<rparr>,
      \<lparr>cad_token = ''biweekly'', cad_lo = 12, cad_hi = 16, cad_interval_days = 14\<rparr>,
      \<lparr>cad_token = ''monthly'', cad_lo = 26, cad_hi = 35, cad_interval_days = 30\<rparr>,
      \<lparr>cad_token = ''quarterly'', cad_lo = 82, cad_hi = 100, cad_interval_days = 91\<rparr>,
      \<lparr>cad_token = ''annual'', cad_lo = 350, cad_hi = 380, cad_interval_days = 365\<rparr>]"

definition in_cadence :: "cadence \<Rightarrow> int \<Rightarrow> bool" where
  "in_cadence k d \<longleftrightarrow> cad_lo k \<le> d \<and> d \<le> cad_hi k"

definition median_i64 :: "int list \<Rightarrow> int" where
  "median_i64 xs = xs ! ((length xs - 1) div 2)"

section \<open>Projecting the next date\<close>

text \<open>\<^verbatim>\<open>date + Duration::days(n)\<close>; \<open>None\<close> is its panic.\<close>

definition add_duration :: "chrono_date \<Rightarrow> date \<Rightarrow> int \<Rightarrow> date option" where
  "add_duration c d n = nd_checked_add_days c d n"

definition roll_forward :: "chrono_date \<Rightarrow> date \<Rightarrow> date \<Rightarrow> int \<Rightarrow> date option" where
  "roll_forward c d today interval_days =
     (if today \<le> d \<or> interval_days \<le> 0 then Some d
      else
        let gap = today - d;
            steps = tdiv (gap + interval_days - 1) interval_days
        in add_duration c d (steps * interval_days))"

section \<open>Detection\<close>

text \<open>The differences of consecutive dates of a chronological group.\<close>

definition group_intervals :: "observation list \<Rightarrow> int list" where
  "group_intervals grp = map2 (\<lambda>a b. ob_date b - ob_date a) grp (tl grp)"

text \<open>Shares and the confidence, in basis points.\<close>

definition share_bps :: "nat \<Rightarrow> nat \<Rightarrow> int" where
  "share_bps matching all = tdiv (int matching * 10000) (int all)"

definition confidence :: "nat \<Rightarrow> int \<Rightarrow> int \<Rightarrow> int" where
  "confidence n cadence_bps amount_bps =
     (let count_bps = min (max (int n - 2) 0 * 2500) 10000
      in tdiv (tdiv (count_bps * cadence_bps) 10000 * (5000 + tdiv amount_bps 2)) 10000)"

definition group_candidate ::
    "chrono_date \<Rightarrow> date \<Rightarrow> string \<times> string \<Rightarrow> observation list \<Rightarrow> recurring_candidate option option" where
  "group_candidate c today key grp =
     (if length grp < min_occurrences then Some None
      else
        let grp = sort_key (\<lambda>ob. (ob_date ob, ob_amount_minor ob)) grp;
            intervals = group_intervals grp
        in case find (\<lambda>k. in_cadence k (median_i64 (sort intervals))) cadences of
             None \<Rightarrow> Some None
           | Some cad \<Rightarrow>
               let cadence_bps = share_bps (length (filter (in_cadence cad) intervals)) (length intervals)
               in if cadence_bps < min_cadence_regularity_bps then Some None
                  else
                    let amounts = sort (map ob_amount_minor grp);
                        median_amount = median_i64 amounts;
                        band = amount_band_minor median_amount;
                        on_amount = filter (\<lambda>a. abs64 (wrap64 (a - median_amount)) \<le> band) amounts;
                        amount_bps = share_bps (length on_amount) (length amounts);
                        last_obs = last grp
                    in Option.bind (add_duration c (ob_date last_obs) (cad_interval_days cad)) (\<lambda>next_date.
                       Option.bind (roll_forward c next_date today (cad_interval_days cad)) (\<lambda>next_date.
                       Some (Some
                         \<lparr>rcand_merchant_key = fst key,
                          rcand_display = ob_display last_obs,
                          rcand_amount_minor = median_amount,
                          rcand_amount_min_minor = hd amounts,
                          rcand_amount_max_minor = last amounts,
                          rcand_currency = snd key,
                          rcand_frequency = cad_token cad,
                          rcand_last_seen = ob_date last_obs,
                          rcand_next_date = next_date,
                          rcand_occurrence_count = length grp,
                          rcand_confidence_bps = confidence (length grp) cadence_bps amount_bps\<rparr>))))"

fun collect_candidates ::
    "chrono_date \<Rightarrow> date \<Rightarrow> ((string \<times> string) \<times> observation list) list \<Rightarrow> recurring_candidate list option" where
  "collect_candidates c today [] = Some []"
| "collect_candidates c today ((key, grp) # groups) =
     Option.bind (group_candidate c today key grp) (\<lambda>cand.
     Option.bind (collect_candidates c today groups) (\<lambda>rest.
     Some (case cand of None \<Rightarrow> rest | Some x \<Rightarrow> x # rest)))"

definition obs_group_key :: "observation \<Rightarrow> string \<times> string" where
  "obs_group_key ob = (ob_merchant_key ob, ob_currency ob)"

definition candidate_order :: "recurring_candidate \<Rightarrow> int \<times> string \<times> string" where
  "candidate_order r = (- rcand_confidence_bps r, rcand_merchant_key r, rcand_currency r)"

definition detect_recurring ::
    "chrono_date \<Rightarrow> observation list \<Rightarrow> date \<Rightarrow> recurring_candidate list option" where
  "detect_recurring c observations today =
     map_option (sort_key candidate_order)
       (collect_candidates c today (bt_group obs_group_key observations))"

section \<open>Rolling forward\<close>

lemma ceil_steps:
  assumes "0 < i" "0 < (g :: int)"
  shows "g \<le> (g + i - 1) div i * i \<and> (g + i - 1) div i * i < g + i"
  using minus_mod_eq_div_mult [of "g + i - 1" i] pos_mod_bound [OF assms(1), of "g + i - 1"]
    pos_mod_sign [OF assms(1), of "g + i - 1"] by linarith

definition next_on_or_after :: "date \<Rightarrow> date \<Rightarrow> int \<Rightarrow> date \<Rightarrow> bool" where
  "next_on_or_after d today i e \<longleftrightarrow> i dvd (e - d) \<and> d \<le> e \<and> today \<le> e \<and> (e = d \<or> e - i < today)"

lemma roll_forward_eq:
  assumes "chrono_date_ok c" "nd_valid c d" "0 < i"
  shows "\<exists>e. next_on_or_after d today i e \<and> e < max d today + i \<and>
    roll_forward c d today i = (if d = e \<or> e \<le> nd_max c then Some e else None)"
proof (cases "today \<le> d")
  case True
  with assms(3) show ?thesis by (intro exI [of _ d]) (simp add: roll_forward_def next_on_or_after_def)
next
  case False
  define s where "s = (today - d + i - 1) div i * i"
  have s: "today - d \<le> s" "s < today - d + i" "i dvd s"
    using ceil_steps [OF assms(3), of "today - d"] False by (auto simp: s_def)
  have t: "tdiv (today - d + i - 1) i * i = s"
    using False assms(3) unfolding s_def by (subst tdiv_nonneg_eq) auto
  have "roll_forward c d today i = nd_checked_add_days c d s"
    using False assms(3) unfolding roll_forward_def Let_def add_duration_def t by simp
  also have "\<dots> = (if d + s \<le> nd_max c then Some (d + s) else None)"
    using s False by (simp add: nd_add_days [OF assms(1,2)])
  finally have "roll_forward c d today i = (if d + s \<le> nd_max c then Some (d + s) else None)" .
  moreover have "next_on_or_after d today i (d + s)" "d + s < max d today + i" "d \<noteq> d + s"
    using s False by (auto simp: next_on_or_after_def)
  ultimately show ?thesis by (intro exI [of _ "d + s"]) simp
qed

lemma roll_forward_some:
  assumes "chrono_date_ok c" "nd_valid c d" "0 < i" "today + i \<le> nd_max c" "d + i \<le> nd_max c"
  shows "\<exists>e. roll_forward c d today i = Some e"
  using roll_forward_eq [OF assms(1-3), of today] assms(4,5) by (auto simp: max_def split: if_splits)

lemma roll_forward_sound:
  assumes "chrono_date_ok c" "nd_valid c d" "0 < i" "roll_forward c d today i = Some e"
  shows "next_on_or_after d today i e"
  using roll_forward_eq [OF assms(1-3), of today] assms(4) by (auto split: if_splits)

section \<open>What a candidate is\<close>

text \<open>The qualifying condition of a group, and what a candidate reports about it.\<close>

definition group_cadence :: "observation list \<Rightarrow> cadence option" where
  "group_cadence g =
     (let intervals = group_intervals (sort_key (\<lambda>ob. (ob_date ob, ob_amount_minor ob)) g)
      in case find (\<lambda>k. in_cadence k (median_i64 (sort intervals))) cadences of
           None \<Rightarrow> None
         | Some k \<Rightarrow>
             if 2 * length (filter (in_cadence k) intervals) < length intervals then None else Some k)"

definition qualifies :: "observation list \<Rightarrow> bool" where
  "qualifies g \<longleftrightarrow> 3 \<le> length g \<and> group_cadence g \<noteq> None"

text \<open>The lower median, by counting: half of the values, rounded down, may lie below it.\<close>

definition is_median :: "int \<Rightarrow> int list \<Rightarrow> bool" where
  "is_median m xs \<longleftrightarrow> m \<in> set xs \<and>
     length (filter (\<lambda>x. x < m) xs) \<le> (length xs - 1) div 2 \<and>
     (length xs - 1) div 2 < length (filter (\<lambda>x. x \<le> m) xs)"

lemma is_median_unique:
  assumes "is_median a xs" "is_median b xs"
  shows "a = b"
proof -
  have "\<not> x < y" if "is_median x xs" "is_median y xs" for x y
  proof
    assume "x < y"
    then have "length (filter (\<lambda>z. z \<le> x) xs) \<le> length (filter (\<lambda>z. z < y) xs)"
      by (induction xs) auto
    then show False using that by (simp add: is_median_def)
  qed
  from this [OF assms] this [OF assms(2,1)] show ?thesis by simp
qed

lemma median_counts:
  assumes "xs \<noteq> []"
  shows "is_median (median_i64 (sort xs)) xs"
proof -
  define ys k where "ys = sort xs" and "k = (length ys - 1) div 2"
  have k: "k < length ys" using assms by (cases xs) (auto simp: ys_def k_def)
  have sorted: "sorted ys" by (simp add: ys_def)
  have same: "length (filter P xs) = length (filter P ys)" for P
    unfolding ys_def by (metis mset_filter mset_sort size_mset)
  have "filter (\<lambda>x. x < ys ! k) (drop k ys) = []"
    using sorted k by (auto simp: filter_empty_conv in_set_conv_nth not_less intro!: sorted_nth_mono)
  then have "filter (\<lambda>x. x < ys ! k) ys = filter (\<lambda>x. x < ys ! k) (take k ys)"
    by (metis append_take_drop_id filter_append append_Nil2)
  then have low: "length (filter (\<lambda>x. x < ys ! k) ys) \<le> k"
    using length_filter_le [of "\<lambda>x. x < ys ! k" "take k ys"] by simp
  have "filter (\<lambda>x. x \<le> ys ! k) (take (Suc k) ys) = take (Suc k) ys"
    using sorted k by (auto simp: filter_id_conv in_set_conv_nth less_Suc_eq_le intro!: sorted_nth_mono)
  then have "length (take (Suc k) ys) \<le> length (filter (\<lambda>x. x \<le> ys ! k) ys)"
    by (metis append_take_drop_id filter_append length_append le_add1)
  then have high: "k < length (filter (\<lambda>x. x \<le> ys ! k) ys)" using k by simp
  have "ys ! k \<in> set xs" using nth_mem [OF k] by (simp add: ys_def)
  moreover have "length xs = length ys" "median_i64 (sort xs) = ys ! k"
    by (simp_all add: ys_def k_def median_i64_def)
  ultimately show ?thesis using low high k_def by (simp add: is_median_def same)
qed

text \<open>The gaps between the charges of a group in the order of their dates.\<close>

definition group_gaps :: "observation list \<Rightarrow> int list" where
  "group_gaps g = (let ds = sort (map ob_date g) in map2 (\<lambda>a b. b - a) ds (tl ds))"

definition candidate_ok :: "date \<Rightarrow> observation list \<Rightarrow> recurring_candidate \<Rightarrow> bool" where
  "candidate_ok today g r \<longleftrightarrow>
     (\<exists>k \<in> set cadences. rcand_frequency r = cad_token k \<and>
          (\<exists>m. is_median m (group_gaps g) \<and> in_cadence k m) \<and>
          length (group_gaps g) \<le> 2 * length (filter (in_cadence k) (group_gaps g)) \<and>
          next_on_or_after (rcand_last_seen r + cad_interval_days k) today (cad_interval_days k) (rcand_next_date r)) \<and>
     rcand_occurrence_count r = length g \<and>
     rcand_last_seen r = Max (ob_date ` set g) \<and>
     rcand_amount_min_minor r = Min (ob_amount_minor ` set g) \<and>
     rcand_amount_max_minor r = Max (ob_amount_minor ` set g) \<and>
     is_median (rcand_amount_minor r) (map ob_amount_minor g) \<and>
     (\<exists>ob \<in> set g. ob_date ob = rcand_last_seen r \<and> rcand_display r = ob_display ob) \<and>
     0 \<le> rcand_confidence_bps r \<and> rcand_confidence_bps r \<le> 10000"

lemma share_bps_bounds: "m \<le> n \<Longrightarrow> 0 \<le> share_bps m n \<and> share_bps m n \<le> 10000"
proof (cases "n = 0")
  case True
  then show ?thesis by (simp add: share_bps_def tdiv_def)
next
  case False
  assume "m \<le> n"
  with False have "tdiv (int m * 10000) (int n) \<le> tdiv (int n * 10000) (int n)" by (intro tdiv_mono) simp_all
  moreover have "tdiv (int n * 10000) (int n) = 10000" using False by (simp add: tdiv_nonneg_eq)
  ultimately show ?thesis using False by (simp add: share_bps_def)
qed

lemma share_bps_half: "0 < n \<Longrightarrow> share_bps m n < 5000 \<longleftrightarrow> 2 * m < n"
proof -
  assume n: "0 < n"
  let ?q = "int m * 10000 div int n"
  have q: "share_bps m n = ?q" using n by (simp add: share_bps_def tdiv_nonneg_eq)
  have "5000 \<le> ?q \<longleftrightarrow> 5000 * int n \<le> int m * 10000"
  proof
    assume "5000 \<le> ?q"
    then have "int n * 5000 \<le> int n * ?q" by (intro mult_left_mono) auto
    with div_bounds [of "int n" "int m * 10000"] n show "5000 * int n \<le> int m * 10000" by linarith
  next
    assume "5000 * int n \<le> int m * 10000"
    then have "5000 * int n div int n \<le> ?q" using n by (intro zdiv_mono1) auto
    then show "5000 \<le> ?q" using n by simp
  qed
  then show ?thesis unfolding q by linarith
qed

lemma tdiv_hundred: "tdiv 100000000 10000 = 10000"
  by (simp add: tdiv_def)

lemma confidence_bounds:
  assumes "0 \<le> cb" "cb \<le> 10000" "0 \<le> ab" "ab \<le> 10000"
  shows "0 \<le> confidence n cb ab \<and> confidence n cb ab \<le> 10000"
proof -
  define k where "k = min (max (int n - 2) 0 * 2500) 10000"
  have k: "0 \<le> k" "k \<le> 10000" by (simp_all add: k_def)
  have "k * cb \<le> 10000 * 10000" using k assms by (intro mult_mono) auto
  then have a: "0 \<le> tdiv (k * cb) 10000" "tdiv (k * cb) 10000 \<le> 10000"
    using k assms tdiv_mono [of "k * cb" "100000000" 10000] by (simp_all add: tdiv_hundred)
  have b: "0 \<le> tdiv ab 2" "tdiv ab 2 \<le> 5000"
    using assms tdiv_mono [of ab 10000 2] by (simp_all add: tdiv_nonneg_eq [of 10000 2])
  have "tdiv (k * cb) 10000 * (5000 + tdiv ab 2) \<le> 10000 * 10000" using a b by (intro mult_mono) auto
  moreover have "0 \<le> tdiv (k * cb) 10000 * (5000 + tdiv ab 2)" using a b by simp
  ultimately show ?thesis
    using tdiv_mono [of "tdiv (k * cb) 10000 * (5000 + tdiv ab 2)" 100000000 10000]
    by (simp add: confidence_def tdiv_hundred Let_def flip: k_def)
qed

lemma sorted_ends:
  assumes "sorted_wrt (\<lambda>x y. f x \<le> f y) xs" "xs \<noteq> []" "x \<in> set xs"
  shows "f (hd xs) \<le> (f x :: int)" "f x \<le> f (last xs)"
  using assms by (induction xs) (auto split: if_splits)

lemma sorted_hd_last:
  assumes "xs \<noteq> []"
  shows "hd (sort xs) = Min (set (xs :: int list)) \<and> last (sort xs) = Max (set xs)"
proof -
  have ne: "sort xs \<noteq> []" using assms by (metis set_empty set_sort)
  have "hd (sort xs) \<in> set xs" "last (sort xs) \<in> set xs"
    using ne hd_in_set [of "sort xs"] last_in_set [of "sort xs"] by simp_all
  with sorted_ends [of "\<lambda>x. x" "sort xs"] ne show ?thesis
    by (auto intro!: Min_eqI [symmetric] Max_eqI [symmetric])
qed

lemma last_sort_date:
  assumes "g \<noteq> []"
  shows "ob_date (last (sort_key (\<lambda>ob. (ob_date ob, ob_amount_minor ob)) g)) = Max (ob_date ` set g)"
proof -
  let ?s = "sort_key (\<lambda>ob. (ob_date ob, ob_amount_minor ob)) g"
  have ne: "?s \<noteq> []" using assms by (metis set_empty set_sort)
  have "sorted (map (\<lambda>ob. (ob_date ob, ob_amount_minor ob)) ?s)" by simp
  then have "sorted_wrt (\<lambda>x y. ob_date x \<le> ob_date y) ?s"
    unfolding sorted_map by (rule sorted_wrt_mono_rel [rotated]) (auto simp: less_eq_prod_def)
  with sorted_ends(2) [of ob_date ?s] ne have "ob_date x \<le> ob_date (last ?s)" if "x \<in> set g" for x
    using that by simp
  moreover have "last ?s \<in> set g" using ne last_in_set [of ?s] by simp
  ultimately show ?thesis by (auto intro!: Max_eqI [symmetric])
qed

lemma group_intervals_length: "length (group_intervals g) = length g - 1"
  by (simp add: group_intervals_def)

lemma cadence_interval: "find P cadences = Some k \<Longrightarrow> 0 < cad_interval_days k \<and> cad_interval_days k \<le> 365"
  by (auto simp: cadences_def split: if_splits)

text \<open>The record a qualifying group yields, before the projected date.\<close>

lemma group_candidate_eq:
  "group_candidate c today key g =
     (if \<not> qualifies g then Some None
      else
        let cad = the (group_cadence g);
            s = sort_key (\<lambda>ob. (ob_date ob, ob_amount_minor ob)) g;
            amounts = sort (map ob_amount_minor s);
            med = median_i64 amounts
        in Option.bind (add_duration c (ob_date (last s)) (cad_interval_days cad)) (\<lambda>d.
           Option.bind (roll_forward c d today (cad_interval_days cad)) (\<lambda>d.
           Some (Some
             \<lparr>rcand_merchant_key = fst key, rcand_display = ob_display (last s), rcand_amount_minor = med,
              rcand_amount_min_minor = hd amounts, rcand_amount_max_minor = last amounts,
              rcand_currency = snd key, rcand_frequency = cad_token cad, rcand_last_seen = ob_date (last s),
              rcand_next_date = d, rcand_occurrence_count = length g,
              rcand_confidence_bps = confidence (length g)
                (share_bps (length (filter (in_cadence cad) (group_intervals s))) (length (group_intervals s)))
                (share_bps (length (filter (\<lambda>a. abs64 (wrap64 (a - med)) \<le> amount_band_minor med) amounts))
                   (length amounts))\<rparr>))))"
proof (cases "length g < 3")
  case True
  then show ?thesis by (simp add: group_candidate_def qualifies_def min_occurrences_def)
next
  case False
  let ?s = "sort_key (\<lambda>ob. (ob_date ob, ob_amount_minor ob)) g"
  let ?find = "find (\<lambda>k. in_cadence k (median_i64 (sort (group_intervals ?s)))) cadences"
  show ?thesis
  proof (cases ?find)
    case None
    then have "\<not> qualifies g" by (simp add: qualifies_def group_cadence_def Let_def)
    with None False show ?thesis by (simp add: group_candidate_def min_occurrences_def Let_def)
  next
    case (Some k)
    have "0 < length (group_intervals ?s)" using False by (simp add: group_intervals_length)
    note half = share_bps_half [OF this, of "length (filter (in_cadence k) (group_intervals ?s))"]
    have q: "qualifies g \<longleftrightarrow> \<not> 2 * length (filter (in_cadence k) (group_intervals ?s)) < length (group_intervals ?s)"
      "qualifies g \<Longrightarrow> group_cadence g = Some k"
      using Some False by (auto simp: qualifies_def group_cadence_def Let_def split: if_splits)
    show ?thesis
    proof (cases "qualifies g")
      case True
      with q half Some False show ?thesis
        by (simp add: group_candidate_def min_occurrences_def min_cadence_regularity_bps_def Let_def)
    next
      case not: False
      with q half Some False show ?thesis
        by (simp add: group_candidate_def min_occurrences_def min_cadence_regularity_bps_def Let_def)
    qed
  qed
qed

lemma group_cadence_interval: "group_cadence g = Some k \<Longrightarrow> 0 < cad_interval_days k \<and> cad_interval_days k \<le> 365"
  by (auto simp: group_cadence_def Let_def split: option.splits if_splits dest!: cadence_interval)

lemma group_gaps_eq: "group_gaps g = group_intervals (sort_key (\<lambda>ob. (ob_date ob, ob_amount_minor ob)) g)"
proof -
  let ?s = "sort_key (\<lambda>ob. (ob_date ob, ob_amount_minor ob)) g"
  have "sorted_wrt (\<lambda>a b. (ob_date a, ob_amount_minor a) \<le> (ob_date b, ob_amount_minor b)) ?s"
    using sorted_sort_key [of "\<lambda>ob. (ob_date ob, ob_amount_minor ob)" g] by (simp add: sorted_wrt_map)
  then have "sorted_wrt (\<lambda>a b. ob_date a \<le> ob_date b) ?s"
    by (rule sorted_wrt_mono_rel [rotated]) (auto simp: less_eq_prod_def)
  then have "sort (map ob_date g) = map ob_date ?s"
    by (intro properties_for_sort) (simp_all add: sorted_wrt_map)
  then show ?thesis
    by (simp add: group_gaps_def group_intervals_def Let_def zip_map_map split_beta flip: map_tl)
qed

lemma group_cadence_gaps:
  assumes "group_cadence g = Some k" "3 \<le> length g"
  shows "k \<in> set cadences \<and> (\<exists>m. is_median m (group_gaps g) \<and> in_cadence k m) \<and>
    length (group_gaps g) \<le> 2 * length (filter (in_cadence k) (group_gaps g))"
proof -
  have f: "find (\<lambda>k. in_cadence k (median_i64 (sort (group_gaps g)))) cadences = Some k"
    and half: "length (group_gaps g) \<le> 2 * length (filter (in_cadence k) (group_gaps g))"
    using assms(1) by (auto simp: group_cadence_def group_gaps_eq Let_def split: option.splits if_splits)
  have "length (group_gaps g) = length g - 1" by (simp add: group_gaps_def Let_def)
  then have "group_gaps g \<noteq> []" using assms(2) by auto
  moreover have "k \<in> set cadences \<and> in_cadence k (median_i64 (sort (group_gaps g)))"
    using f by (auto simp: find_Some_iff)
  ultimately show ?thesis using half median_counts by blast
qed

lemma group_candidate_sound:
  assumes ok: "chrono_date_ok c" and v: "\<And>ob. ob \<in> set g \<Longrightarrow> nd_valid c (ob_date ob)"
    and r: "group_candidate c today key g = Some (Some r)"
  shows "qualifies g \<and> candidate_ok today g r \<and> rcand_merchant_key r = fst key \<and> rcand_currency r = snd key"
proof -
  have q: "qualifies g" using r by (auto simp: group_candidate_eq split: if_splits)
  then obtain k where k: "group_cadence g = Some k" and len: "3 \<le> length g" by (auto simp: qualifies_def)
  note i = group_cadence_interval [OF k]
  let ?s = "sort_key (\<lambda>ob. (ob_date ob, ob_amount_minor ob)) g"
  let ?a = "sort (map ob_amount_minor ?s)"
  have ne: "g \<noteq> []" "?s \<noteq> []" "map ob_amount_minor ?s \<noteq> []" "?a \<noteq> []"
    using len by (auto simp flip: length_greater_0_conv)
  have last_mem: "last ?s \<in> set g" using ne(2) last_in_set [of ?s] by simp
  have "is_median (median_i64 ?a) (map ob_amount_minor ?s)" using median_counts [OF ne(3)] .
  then have med: "is_median (median_i64 ?a) (map ob_amount_minor g)"
    unfolding is_median_def by (simp add: filter_map comp_def filter_sort)
  have ends: "hd ?a = Min (ob_amount_minor ` set g)" "last ?a = Max (ob_amount_minor ` set g)"
    using sorted_hd_last [OF ne(3)] by simp_all
  obtain d e where d: "add_duration c (ob_date (last ?s)) (cad_interval_days k) = Some d"
    and e: "roll_forward c d today (cad_interval_days k) = Some e" "rcand_next_date r = e"
    and fields: "rcand_merchant_key r = fst key" "rcand_currency r = snd key" "rcand_display r = ob_display (last ?s)"
      "rcand_amount_minor r = median_i64 ?a" "rcand_amount_min_minor r = hd ?a" "rcand_amount_max_minor r = last ?a"
      "rcand_frequency r = cad_token k" "rcand_last_seen r = ob_date (last ?s)" "rcand_occurrence_count r = length g"
      "rcand_confidence_bps r = confidence (length g)
        (share_bps (length (filter (in_cadence k) (group_intervals ?s))) (length (group_intervals ?s)))
        (share_bps (length (filter (\<lambda>a. abs64 (wrap64 (a - median_i64 ?a)) \<le> amount_band_minor (median_i64 ?a)) ?a)) (length ?a))"
    using r q k by (auto simp: group_candidate_eq Let_def bind_eq_Some_conv)
  have "nd_valid c (ob_date (last ?s))" using v last_mem .
  then have dd: "d = ob_date (last ?s) + cad_interval_days k" "nd_valid c d"
    using d i by (auto simp: add_duration_def nd_add_days [OF ok] nd_valid_def split: if_splits)
  have "next_on_or_after d today (cad_interval_days k) e"
    using roll_forward_sound [OF ok dd(2) _ e(1)] i by simp
  moreover have "0 \<le> rcand_confidence_bps r \<and> rcand_confidence_bps r \<le> 10000"
    unfolding fields(10)
    by (intro confidence_bounds share_bps_bounds [OF length_filter_le, THEN conjunct1]
        share_bps_bounds [OF length_filter_le, THEN conjunct2])
  ultimately show ?thesis
    using q med ends last_mem last_sort_date [OF ne(1)] dd(1) e(2) group_cadence_gaps [OF k len]
    by (auto simp: candidate_ok_def fields)
qed

lemma group_candidate_total:
  assumes ok: "chrono_date_ok c" and v: "\<And>ob. ob \<in> set g \<Longrightarrow> nd_valid c (ob_date ob) \<and> ob_date ob + 730 \<le> nd_max c"
    and room: "today + 365 \<le> nd_max c"
  shows "\<exists>r. group_candidate c today key g = Some r \<and> (r \<noteq> None) = qualifies g"
proof (cases "qualifies g")
  case False
  then show ?thesis by (simp add: group_candidate_eq)
next
  case True
  then obtain k where k: "group_cadence g = Some k" and len: "3 \<le> length g" by (auto simp: qualifies_def)
  note i = group_cadence_interval [OF k]
  let ?s = "sort_key (\<lambda>ob. (ob_date ob, ob_amount_minor ob)) g"
  have "?s \<noteq> []" using len by (auto simp flip: length_greater_0_conv)
  then have mem: "last ?s \<in> set g" using last_in_set [of ?s] by simp
  from v [OF this] have d: "add_duration c (ob_date (last ?s)) (cad_interval_days k) = Some (ob_date (last ?s) + cad_interval_days k)"
    "nd_valid c (ob_date (last ?s) + cad_interval_days k)"
    using i by (auto simp: add_duration_def nd_add_days [OF ok] nd_valid_def)
  have "\<exists>e. roll_forward c (ob_date (last ?s) + cad_interval_days k) today (cad_interval_days k) = Some e"
    using roll_forward_some [OF ok d(2), of "cad_interval_days k" today] i room v [OF mem] by auto
  then show ?thesis using True k d(1) by (auto simp: group_candidate_eq Let_def)
qed

lemma collect_candidates_sound:
  assumes "\<And>key g r. (key, g) \<in> set groups \<Longrightarrow> group_candidate c today key g = Some (Some r) \<Longrightarrow> P key g r"
  shows "collect_candidates c today groups = Some rs \<Longrightarrow> r \<in> set rs \<Longrightarrow>
    \<exists>key g. (key, g) \<in> set groups \<and> P key g r"
  using assms
proof (induction groups arbitrary: rs)
  case (Cons kg groups)
  obtain key g where kg: "kg = (key, g)" by fastforce
  from Cons.prems(1) obtain x rest where x: "group_candidate c today key g = Some x"
    "collect_candidates c today groups = Some rest" "rs = (case x of None \<Rightarrow> rest | Some r \<Rightarrow> r # rest)"
    by (auto simp: kg bind_eq_Some_conv)
  show ?case
  proof (cases "r \<in> set rest")
    case True
    with Cons.IH [OF x(2)] Cons.prems(3) show ?thesis by (fastforce simp: kg)
  next
    case False
    with x Cons.prems(2) have "x = Some r" by (auto split: option.splits)
    with x(1) have "P key g r" by (intro Cons.prems(3)) (simp_all add: kg)
    then show ?thesis by (intro exI [of _ key] exI [of _ g]) (simp add: kg)
  qed
qed simp

lemma collect_candidates_keys:
  assumes "\<And>key g. (key, g) \<in> set groups \<Longrightarrow>
      \<exists>r. group_candidate c today key g = Some r \<and> (r \<noteq> None) = qualifies g"
    and "\<And>key g r. (key, g) \<in> set groups \<Longrightarrow> group_candidate c today key g = Some (Some r) \<Longrightarrow>
      (rcand_merchant_key r, rcand_currency r) = key"
  shows "\<exists>rs. collect_candidates c today groups = Some rs \<and>
    map (\<lambda>r. (rcand_merchant_key r, rcand_currency r)) rs = map fst (filter (qualifies \<circ> snd) groups)"
  using assms
proof (induction groups)
  case (Cons kg groups)
  obtain key g where kg: "kg = (key, g)" by fastforce
  from Cons.prems(1) [of key g] obtain x where
    x: "group_candidate c today key g = Some x" "(x \<noteq> None) = qualifies g" by (auto simp: kg)
  have "\<exists>rs. collect_candidates c today groups = Some rs \<and>
      map (\<lambda>r. (rcand_merchant_key r, rcand_currency r)) rs = map fst (filter (qualifies \<circ> snd) groups)"
    by (rule Cons.IH; rule Cons.prems; simp add: kg)
  then obtain rs where
    rs: "collect_candidates c today groups = Some rs"
    "map (\<lambda>r. (rcand_merchant_key r, rcand_currency r)) rs = map fst (filter (qualifies \<circ> snd) groups)"
    by blast
  show ?case
    using x rs Cons.prems(2) [of key g] by (cases x) (auto simp: kg comp_def)
qed simp

lemma fst_image_graph: "fst ` {x \<in> (\<lambda>k. (k, F k)) ` K. P (snd x)} = {k \<in> K. P (F k)}"
  by force

section \<open>Properties\<close>

text \<open>
  C37: Detection is sound: every candidate belongs to a merchant and currency with at least three
  charges, whose median gap, and at least half of whose gaps, lie in the band of the reported cadence; it reports
  that group's size, its smallest, largest and (lower) median charge, its last date and a label of that date; its
  confidence is a share in basis points; and its next date is the first one on or after today that is a whole
  number of intervals, at least one, after the last charge.
\<close>

theorem detect_recurring_sound:
  assumes "chrono_date_ok c" "list_all (\<lambda>ob. nd_valid c (ob_date ob)) obs"
    and "detect_recurring c obs today = Some rs" "r \<in> set rs"
  shows "let g = filter (\<lambda>ob. obs_group_key ob = (rcand_merchant_key r, rcand_currency r)) obs
    in qualifies g \<and> candidate_ok today g r"
proof -
  obtain us where us: "collect_candidates c today (bt_group obs_group_key obs) = Some us" "rs = sort_key candidate_order us"
    using assms(3) by (auto simp: detect_recurring_def)
  have "r \<in> set us" using assms(4) us(2) by simp
  have P: "qualifies g \<and> candidate_ok today g r \<and> rcand_merchant_key r = fst key \<and> rcand_currency r = snd key"
    if "(key, g) \<in> set (bt_group obs_group_key obs)" "group_candidate c today key g = Some (Some r)" for key g r
    using that assms(2) by (intro group_candidate_sound [OF assms(1)]) (auto simp: bt_group_set list_all_iff)
  from collect_candidates_sound [where P = "\<lambda>key g r. qualifies g \<and> candidate_ok today g r \<and>
      rcand_merchant_key r = fst key \<and> rcand_currency r = snd key", OF P us(1) \<open>r \<in> set us\<close>]
  obtain key g where "(key, g) \<in> set (bt_group obs_group_key obs)" "qualifies g" "candidate_ok today g r"
    "rcand_merchant_key r = fst key" "rcand_currency r = snd key"
    by blast
  then show ?thesis by (auto simp: bt_group_set Let_def)
qed

text \<open>
  Detection is complete and ordered: away from the end of the calendar it returns, with exactly
  one candidate for every merchant and currency whose charges qualify and none for any other, in
  the order of descending confidence, then merchant, then currency.
\<close>

theorem detect_recurring_complete:
  assumes "chrono_date_ok c" "list_all (\<lambda>ob. nd_valid c (ob_date ob) \<and> ob_date ob + 730 \<le> nd_max c) obs"
    and "today + 365 \<le> nd_max c"
  shows "\<exists>rs. detect_recurring c obs today = Some rs \<and> sorted (map candidate_order rs) \<and>
    distinct (map (\<lambda>r. (rcand_merchant_key r, rcand_currency r)) rs) \<and>
    (\<lambda>r. (rcand_merchant_key r, rcand_currency r)) ` set rs =
      {key. qualifies (filter (\<lambda>ob. obs_group_key ob = key) obs)}"
proof -
  let ?gs = "bt_group obs_group_key obs" and ?key = "\<lambda>r. (rcand_merchant_key r, rcand_currency r)"
  have v: "nd_valid c (ob_date ob) \<and> ob_date ob + 730 \<le> nd_max c" if "(key, g) \<in> set ?gs" "ob \<in> set g" for key g ob
    using that assms(2) by (auto simp: bt_group_set list_all_iff)
  have "\<exists>us. collect_candidates c today ?gs = Some us \<and> map ?key us = map fst (filter (qualifies \<circ> snd) ?gs)"
  proof (rule collect_candidates_keys)
    fix key g assume g: "(key, g) \<in> set ?gs"
    show "\<exists>r. group_candidate c today key g = Some r \<and> (r \<noteq> None) = qualifies g"
      using v [OF g] assms(1,3) by (intro group_candidate_total) auto
    show "?key r = key" if "group_candidate c today key g = Some (Some r)" for r
      using group_candidate_sound [OF assms(1) _ that] v [OF g] by auto
  qed
  then obtain us where us: "collect_candidates c today ?gs = Some us" "map ?key us = map fst (filter (qualifies \<circ> snd) ?gs)"
    by blast
  have "distinct (map fst ?gs)" using bt_group_spec [of obs_group_key obs] by (simp add: bt_sorted_def strict_sorted_iff)
  then have "distinct (map ?key us)" unfolding us(2) by (simp add: distinct_map inj_on_def)
  moreover have "mset (map ?key (sort_key candidate_order us)) = mset (map ?key us)" by simp
  ultimately have d: "distinct (map ?key (sort_key candidate_order us))" by (metis mset_eq_imp_distinct_iff)
  have "?key ` set us = fst ` set (filter (qualifies \<circ> snd) ?gs)"
    using arg_cong [OF us(2), of set] by simp
  also have "\<dots> = {key \<in> obs_group_key ` set obs. qualifies (filter (\<lambda>ob. obs_group_key ob = key) obs)}"
    unfolding set_filter bt_group_set comp_def by (rule fst_image_graph)
  also have "\<dots> = {key. qualifies (filter (\<lambda>ob. obs_group_key ob = key) obs)}"
  proof -
    have "key \<in> obs_group_key ` set obs" if "qualifies (filter (\<lambda>ob. obs_group_key ob = key) obs)" for key
    proof (rule ccontr)
      assume "key \<notin> obs_group_key ` set obs"
      then have "filter (\<lambda>ob. obs_group_key ob = key) obs = []" unfolding filter_empty_conv by (metis image_eqI)
      with that show False by (simp add: qualifies_def)
    qed
    then show ?thesis by blast
  qed
  finally show ?thesis using us(1) d by (auto simp: detect_recurring_def)
qed

definition sample_charges :: "observation list" where
  "sample_charges = map (\<lambda>(d, a). \<lparr>ob_merchant_key = ''rent'', ob_display = ''Rent'', ob_date = d,
     ob_amount_minor = a, ob_currency = ''USD''\<rparr>) [(739618, 100000), (739647, 100000), (739587, 98000)]"

lemma sample_charges_valid:
  "list_all (\<lambda>ob. nd_valid gregorian (ob_date ob) \<and> ob_date ob + 730 \<le> nd_max gregorian) sample_charges \<and>
   739650 + 365 \<le> nd_max gregorian"
  by code_simp

lemma sample_detected:
  "map_option (map (\<lambda>r. (rcand_frequency r, rcand_next_date r, rcand_confidence_bps r)))
     (detect_recurring gregorian sample_charges 739650) = Some [(''monthly'', 739677, 2500)]"
  by code_simp

theorem detect_recurring_sound_witness:
  "\<exists>r. detect_recurring gregorian sample_charges 739650 = Some [r] \<and> candidate_ok 739650
     (filter (\<lambda>ob. obs_group_key ob = (rcand_merchant_key r, rcand_currency r)) sample_charges) r"
proof -
  obtain r where r: "detect_recurring gregorian sample_charges 739650 = Some [r]"
    using sample_detected by (auto simp: map_eq_Cons_conv)
  have "list_all (\<lambda>ob. nd_valid gregorian (ob_date ob)) sample_charges"
    using sample_charges_valid by (auto simp: list_all_iff)
  from detect_recurring_sound [OF gregorian_ok this r, of r] r show ?thesis by (simp add: Let_def)
qed

theorem detect_recurring_complete_witness:
  "\<exists>rs. detect_recurring gregorian sample_charges 739650 = Some rs \<and> sorted (map candidate_order rs) \<and> length rs = 1"
proof -
  obtain r where r: "detect_recurring gregorian sample_charges 739650 = Some [r]"
    using sample_detected by (auto simp: map_eq_Cons_conv)
  with detect_recurring_complete [OF gregorian_ok, of sample_charges 739650] sample_charges_valid show ?thesis by auto
qed

end
