(* ===== verification/Job_Runtime.thy ===== *)
theory Job_Runtime
  imports Prelude "HOL-Library.Option_ord"
begin

text \<open>
  \<^verbatim>\<open>crates/job-runtime/src/lib.rs\<close>, the data: schedules, retry policies, job specifications and
  records with their tokens, and the dispatcher of handlers.  The runner is in \<open>Job_Runner\<close>.

  An instant (\<^verbatim>\<open>DateTime<Utc>\<close>) and a \<^verbatim>\<open>chrono::Duration\<close> are integers of nanoseconds.  What the
  code calls of \<^verbatim>\<open>chrono\<close> on instants is the parameter \<open>chrono_time\<close>, with its documented laws in
  \<open>chrono_time_ok\<close>; \<open>None\<close> of an addition is the panic of \<^verbatim>\<open>+\<close> and of \<^verbatim>\<open>Duration::seconds\<close> out of
  range.  A free text (\<open>utext\<close>) is the list of its Unicode scalar values; tokens and opaque texts
  are strings.
\<close>

section \<open>Instants and durations\<close>

type_synonym instant = int
type_synonym duration = int
type_synonym utext = "nat list"

record chrono_time =
  dt_min :: instant
  dt_max :: instant
  dt_text_min :: instant
  dt_text_max :: instant
  dt_checked_add_months :: "instant \<Rightarrow> int \<Rightarrow> instant option"
  dt_to_rfc3339 :: "instant \<Rightarrow> string"
  dt_parse_rfc3339 :: "string \<Rightarrow> instant option"

definition dt_valid :: "chrono_time \<Rightarrow> instant \<Rightarrow> bool" where
  "dt_valid t i \<longleftrightarrow> dt_min t \<le> i \<and> i \<le> dt_max t"

text \<open>The instants of the years 0 to 9999, whose RFC 3339 text has four digits of year.\<close>

definition dt_textual :: "chrono_time \<Rightarrow> instant \<Rightarrow> bool" where
  "dt_textual t i \<longleftrightarrow> dt_text_min t \<le> i \<and> i \<le> dt_text_max t"

text \<open>
  Adding months moves forward and stays in range; a text with a four-digit year parses back and
  sorts as its instant does.
\<close>

definition chrono_time_ok :: "chrono_time \<Rightarrow> bool" where
  "chrono_time_ok t \<longleftrightarrow>
     dt_min t \<le> dt_text_min t \<and> dt_text_max t \<le> dt_max t \<and>
     (\<forall>i j. dt_valid t i \<and> dt_checked_add_months t i 1 = Some j \<longrightarrow> dt_valid t j \<and> i < j) \<and>
     (\<forall>i. dt_textual t i \<longrightarrow> dt_parse_rfc3339 t (dt_to_rfc3339 t i) = Some i) \<and>
     (\<forall>i j. dt_textual t i \<and> dt_textual t j \<longrightarrow> (dt_to_rfc3339 t i \<le> dt_to_rfc3339 t j \<longleftrightarrow> i \<le> j))"

lemma rfc3339_round_trip [simp]:
  "chrono_time_ok t \<Longrightarrow> dt_textual t i \<Longrightarrow> dt_parse_rfc3339 t (dt_to_rfc3339 t i) = Some i"
  by (simp add: chrono_time_ok_def)

lemma rfc3339_order:
  "chrono_time_ok t \<Longrightarrow> dt_textual t i \<Longrightarrow> dt_textual t j \<Longrightarrow> dt_to_rfc3339 t i \<le> dt_to_rfc3339 t j \<longleftrightarrow> i \<le> j"
  by (simp add: chrono_time_ok_def)

definition dt_add :: "chrono_time \<Rightarrow> instant \<Rightarrow> duration \<Rightarrow> instant option" where
  "dt_add t i d = (if dt_valid t (i + d) then Some (i + d) else None)"

text \<open>
  \<^verbatim>\<open>Duration::seconds\<close> panics outside the \<^verbatim>\<open>i64\<close> range of milliseconds; \<^verbatim>\<open>num_seconds\<close> truncates.
\<close>

definition duration_max_seconds :: int where "duration_max_seconds = 9223372036854775"

definition duration_seconds :: "int \<Rightarrow> duration option" where
  "duration_seconds s = (if \<bar>s\<bar> \<le> duration_max_seconds then Some (s * 1000000000) else None)"

definition num_seconds :: "duration \<Rightarrow> int" where
  "num_seconds d = tdiv d 1000000000"

lemma num_seconds_of_seconds [simp]: "num_seconds (s * 1000000000) = s"
  by (cases "s < 0") (simp_all add: num_seconds_def tdiv_neg_eq tdiv_nonneg_eq)

lemma num_seconds_nonneg: "0 \<le> d \<Longrightarrow> 0 \<le> num_seconds d"
  by (simp add: num_seconds_def)

section \<open>Schedules\<close>

datatype schedule = Once | Interval int | Daily | Weekly | Monthly

datatype schedule_error = Invalid_Schedule string | Non_Positive_Interval_Schedule

definition strip_prefix :: "string \<Rightarrow> string \<Rightarrow> string option" where
  "strip_prefix p s = (if take (length p) s = p then Some (drop (length p) s) else None)"

lemma strip_prefix_Some_iff: "strip_prefix p s = Some r \<longleftrightarrow> s = p @ r"
  by (auto simp: strip_prefix_def intro: append_take_drop_id [symmetric, of _ "length p", THEN trans])

definition schedule_parse :: "string \<Rightarrow> (schedule_error, schedule) res" where
  "schedule_parse s =
     (if s = ''once'' then Inr Once
      else if s = ''daily'' then Inr Daily
      else if s = ''weekly'' then Inr Weekly
      else if s = ''monthly'' then Inr Monthly
      else res_bind (ok_or (strip_prefix ''interval:'' s) (Invalid_Schedule s)) (\<lambda>r.
             res_bind (ok_or (parse_i64 r) (Invalid_Schedule s)) (\<lambda>seconds.
               if seconds \<le> 0 then Inl Non_Positive_Interval_Schedule else Inr (Interval seconds))))"

primrec schedule_token :: "schedule \<Rightarrow> string" where
  "schedule_token Once = ''once''"
| "schedule_token Daily = ''daily''"
| "schedule_token Weekly = ''weekly''"
| "schedule_token Monthly = ''monthly''"
| "schedule_token (Interval seconds) = ''interval:'' @ show_int seconds"

text \<open>The outer \<open>None\<close> is a panic, the inner one no next due time.\<close>

primrec next_due_after :: "chrono_time \<Rightarrow> schedule \<Rightarrow> instant \<Rightarrow> instant option option" where
  "next_due_after t Once i = Some None"
| "next_due_after t (Interval seconds) i =
     map_option Some (Option.bind (duration_seconds seconds) (dt_add t i))"
| "next_due_after t Daily i = map_option Some (dt_add t i 86400000000000)"
| "next_due_after t Weekly i = map_option Some (dt_add t i 604800000000000)"
| "next_due_after t Monthly i = Some (dt_checked_add_months t i 1)"

text \<open>The schedules a valid specification has: a positive interval within the machine range.\<close>

primrec schedule_ok :: "schedule \<Rightarrow> bool" where
  "schedule_ok Once \<longleftrightarrow> True"
| "schedule_ok Daily \<longleftrightarrow> True"
| "schedule_ok Weekly \<longleftrightarrow> True"
| "schedule_ok Monthly \<longleftrightarrow> True"
| "schedule_ok (Interval seconds) \<longleftrightarrow> 0 < seconds \<and> in_i64 seconds"

lemma schedule_parse_token: "schedule_ok s \<Longrightarrow> schedule_parse (schedule_token s) = Inr s"
  by (cases s) (simp_all add: schedule_parse_def strip_prefix_def parse_i64_show_int)

lemma schedule_parse_ok: "schedule_parse s = Inr x \<Longrightarrow> schedule_ok x"
proof -
  have r: "in_i64 n" if "parse_i64 r = Some n" for r n
    using that by (auto simp: parse_i64_def bind_eq_Some_conv split: list.splits if_splits)
  assume "schedule_parse s = Inr x"
  then show "schedule_ok x"
    by (auto simp: schedule_parse_def res_bind_Inr_iff ok_or_def r split: if_splits option.splits)
qed

interpretation sched: token_codec schedule_token "\<lambda>s. case schedule_parse s of Inl _ \<Rightarrow> None | Inr x \<Rightarrow> Some x" schedule_ok
  by unfold_locales (simp add: schedule_parse_token)

section \<open>Retry policy\<close>

record backoff_policy =
  bo_initial :: duration
  bo_multiplier_bps :: int

definition backoff_default :: backoff_policy where
  "backoff_default = \<lparr>bo_initial = 60000000000, bo_multiplier_bps = 20000\<rparr>"

definition i128_max :: int where "i128_max = 170141183460469231731687303715884105727"

text \<open>\<^verbatim>\<open>i128::saturating_mul\<close> of factors that are not negative.\<close>

definition sat128_mul :: "int \<Rightarrow> int \<Rightarrow> int" where
  "sat128_mul a b = min (a * b) i128_max"

primrec delay_loop :: "nat \<Rightarrow> int \<Rightarrow> int \<Rightarrow> int" where
  "delay_loop 0 multiplier seconds = seconds"
| "delay_loop (Suc k) multiplier seconds =
     delay_loop k multiplier (tdiv (sat128_mul seconds multiplier) 10000)"

text \<open>\<open>None\<close> is the panic of \<^verbatim>\<open>Duration::seconds\<close>.\<close>

definition delay_for_attempt :: "backoff_policy \<Rightarrow> int \<Rightarrow> duration option" where
  "delay_for_attempt p attempt =
     (let seconds = max (num_seconds (bo_initial p)) 0;
          multiplier = max (bo_multiplier_bps p) 10000;
          seconds = delay_loop (nat (min attempt 31 - 1)) multiplier seconds
      in duration_seconds (min seconds i64_max))"

lemma delay_step_mono:
  assumes "0 \<le> s" "s \<le> i128_max div 10000" "10000 \<le> m"
  shows "s \<le> tdiv (sat128_mul s m) 10000 \<and> tdiv (sat128_mul s m) 10000 \<le> i128_max div 10000"
proof -
  have "s * 10000 \<le> s * m" using assms by (intro mult_left_mono) auto
  moreover have "s * 10000 \<le> i128_max" using assms(2) by (simp add: i128_max_def)
  ultimately have "s * 10000 \<le> sat128_mul s m" by (simp add: sat128_mul_def)
  moreover have "0 \<le> s * 10000" using assms(1) by simp
  ultimately show ?thesis
    by (simp add: tdiv_nonneg_eq sat128_mul_def zdiv_mono1 order_trans [OF _ zdiv_mono1, of s "s * 10000"])
qed

lemma delay_loop_mono:
  "0 \<le> s \<Longrightarrow> s \<le> i128_max div 10000 \<Longrightarrow> 10000 \<le> m \<Longrightarrow> s \<le> delay_loop k m s \<and> delay_loop k m s \<le> i128_max div 10000"
proof (induction k arbitrary: s)
  case (Suc k)
  with delay_step_mono [of s m] Suc.IH [of "tdiv (sat128_mul s m) 10000"] show ?case by (auto intro: order_trans)
qed simp

lemma delay_loop_add: "delay_loop (j + k) m s = delay_loop k m (delay_loop j m s)"
  by (induction j arbitrary: s) simp_all

lemma delay_loop_double:
  "0 \<le> s \<Longrightarrow> s * 2 ^ k \<le> 100000000000000000000 \<Longrightarrow> delay_loop k 20000 s = s * 2 ^ k"
proof (induction k arbitrary: s)
  case (Suc k)
  have "s * 2 * 1 \<le> s * 2 * 2 ^ k" using Suc.prems(1) by (intro mult_left_mono) auto
  then have "s * 20000 \<le> i128_max" using Suc.prems(2) by (simp add: i128_max_def)
  then have "tdiv (sat128_mul s 20000) 10000 = s * 2"
    using Suc.prems(1) by (simp add: sat128_mul_def tdiv_nonneg_eq)
  with Suc show ?case by (simp add: mult.assoc)
qed simp

lemma duration_seconds_eq: "0 \<le> s \<Longrightarrow> duration_seconds (min s i64_max) = duration_seconds s"
  by (auto simp: duration_seconds_def duration_max_seconds_def i64_max_def)

section \<open>Specifications\<close>

text \<open>The bytes of a text, its white space, and the routing tokens.\<close>

definition utf8_bytes :: "nat \<Rightarrow> nat list" where
  "utf8_bytes c =
     (if c < 128 then [c]
      else if c < 2048 then [192 + c div 64, 128 + c mod 64]
      else if c < 65536 then [224 + c div 4096, 128 + c div 64 mod 64, 128 + c mod 64]
      else [240 + c div 262144, 128 + c div 4096 mod 64, 128 + c div 64 mod 64, 128 + c mod 64])"

definition text_bytes :: "utext \<Rightarrow> nat list" where
  "text_bytes s = concat (map utf8_bytes s)"

definition is_whitespace :: "nat \<Rightarrow> bool" where
  "is_whitespace c \<longleftrightarrow>
     (9 \<le> c \<and> c \<le> 13) \<or> c \<in> {32, 133, 160, 5760, 8232, 8233, 8239, 8287, 12288} \<or> (8192 \<le> c \<and> c \<le> 8202)"

definition trim :: "utext \<Rightarrow> utext" where
  "trim s = rev (dropWhile is_whitespace (rev (dropWhile is_whitespace s)))"

definition is_ascii_alphanumeric :: "nat \<Rightarrow> bool" where
  "is_ascii_alphanumeric b \<longleftrightarrow> (48 \<le> b \<and> b \<le> 57) \<or> (65 \<le> b \<and> b \<le> 90) \<or> (97 \<le> b \<and> b \<le> 122)"

definition is_kind_byte :: "nat \<Rightarrow> bool" where
  "is_kind_byte b \<longleftrightarrow> is_ascii_alphanumeric b \<or> b \<in> {46, 95, 45}"

definition ascii :: "string \<Rightarrow> utext" where
  "ascii s = map of_char s"

record job_spec =
  spec_id :: "128 word"
  spec_kind :: utext
  spec_schedule :: schedule
  spec_next_due_at :: instant
  spec_max_attempts :: int
  spec_backoff :: backoff_policy
  spec_enabled :: bool
  spec_requires_explicit_opt_in :: bool
  spec_payload_json :: "string option"

datatype job_spec_error =
    Empty_Kind | Invalid_Kind | Zero_Attempts | Negative_Backoff | Backoff_Multiplier_Too_Small
  | Non_Positive_Interval

text \<open>What a \<^verbatim>\<open>{:?}\<close> of a specification shows: the payload is redacted.\<close>

definition job_spec_debug :: "job_spec \<Rightarrow> job_spec" where
  "job_spec_debug s = s\<lparr>spec_payload_json := map_option (\<lambda>_. ''[redacted]'') (spec_payload_json s)\<rparr>"

definition validate_job_kind :: "utext \<Rightarrow> (job_spec_error, unit) res" where
  "validate_job_kind kind =
     (if trim kind = [] then Inl Empty_Kind
      else if length (text_bytes kind) > 64 \<or> \<not> list_all is_kind_byte (text_bytes kind) then Inl Invalid_Kind
      else Inr ())"

definition job_spec_validate :: "job_spec \<Rightarrow> (job_spec_error, unit) res" where
  "job_spec_validate s =
     res_bind (validate_job_kind (spec_kind s)) (\<lambda>_.
       if spec_max_attempts s = 0 then Inl Zero_Attempts
       else if bo_initial (spec_backoff s) < 0 then Inl Negative_Backoff
       else if bo_multiplier_bps (spec_backoff s) < 10000 then Inl Backoff_Multiplier_Too_Small
       else case spec_schedule s of
              Interval seconds \<Rightarrow> if seconds \<le> 0 then Inl Non_Positive_Interval else Inr ()
            | _ \<Rightarrow> Inr ())"

lemma kind_byte_ascii: "is_kind_byte b \<Longrightarrow> b < 128 \<and> \<not> is_whitespace b"
  by (auto simp: is_kind_byte_def is_ascii_alphanumeric_def is_whitespace_def)

lemma utf8_bytes_kind: "list_all is_kind_byte (utf8_bytes c) \<longleftrightarrow> is_kind_byte c"
proof (cases "c < 128")
  case False
  then have "\<exists>b \<in> set (utf8_bytes c). 128 \<le> b" by (auto simp: utf8_bytes_def)
  moreover have "\<not> is_kind_byte b" if "128 \<le> b" for b using that kind_byte_ascii [of b] by auto
  ultimately show ?thesis using False kind_byte_ascii [of c] by (auto simp: list_all_iff)
qed (simp add: utf8_bytes_def)

lemma text_bytes_kind: "list_all is_kind_byte (text_bytes s) \<longleftrightarrow> list_all is_kind_byte s"
  by (induction s) (simp_all add: text_bytes_def utf8_bytes_kind)

lemma text_bytes_ascii: "list_all is_kind_byte s \<Longrightarrow> text_bytes s = s"
proof (induction s)
  case (Cons c s)
  then have "c < 128" using kind_byte_ascii [of c] by simp
  with Cons show ?case by (simp add: text_bytes_def utf8_bytes_def)
qed (simp add: text_bytes_def)

lemma trim_empty_iff: "trim s = [] \<longleftrightarrow> list_all is_whitespace s"
proof
  assume "trim s = []"
  then have "\<forall>c \<in> set (dropWhile is_whitespace s). is_whitespace c" by (simp add: trim_def dropWhile_eq_Nil_conv)
  then have "dropWhile is_whitespace s = []" by (cases "dropWhile is_whitespace s") (auto simp: dropWhile_eq_Cons_conv)
  then show "list_all is_whitespace s" by (simp add: dropWhile_eq_Nil_conv list_all_iff)
next
  assume "list_all is_whitespace s"
  then have "dropWhile is_whitespace s = []" by (simp add: dropWhile_eq_Nil_conv list_all_iff)
  then show "trim s = []" by (simp only: trim_def rev.simps dropWhile.simps)
qed

definition kind_ok :: "utext \<Rightarrow> bool" where
  "kind_ok kind \<longleftrightarrow> kind \<noteq> [] \<and> length kind \<le> 64 \<and> list_all is_kind_byte kind"

lemma validate_job_kind_Inr: "validate_job_kind kind = Inr u \<longleftrightarrow> kind_ok kind"
proof (cases "list_all is_kind_byte kind")
  case True
  then have "trim kind = [] \<longleftrightarrow> kind = []"
    using kind_byte_ascii by (cases kind) (auto simp: trim_empty_iff)
  with True show ?thesis by (simp add: validate_job_kind_def text_bytes_kind text_bytes_ascii kind_ok_def)
qed (simp add: validate_job_kind_def text_bytes_kind kind_ok_def)

definition spec_ok :: "job_spec \<Rightarrow> bool" where
  "spec_ok s \<longleftrightarrow> kind_ok (spec_kind s) \<and> spec_max_attempts s \<noteq> 0 \<and> 0 \<le> bo_initial (spec_backoff s) \<and>
     10000 \<le> bo_multiplier_bps (spec_backoff s) \<and>
     (case spec_schedule s of Interval seconds \<Rightarrow> 0 < seconds | _ \<Rightarrow> True)"

lemma job_spec_validate_Inr: "job_spec_validate s = Inr u \<longleftrightarrow> spec_ok s"
  using validate_job_kind_Inr [of "spec_kind s" "()"]
  by (auto simp: job_spec_validate_def spec_ok_def res_bind_def split: sum.splits schedule.splits)

text \<open>a schedule's token reads back as the schedule exactly when its interval is positive and in
  the machine range; every text that parses is a schedule of that kind, distinct schedules have
  distinct tokens, and an interval that is zero or negative is told apart from a malformed text.\<close>

theorem schedule_token_round_trip:
  "(schedule_parse (schedule_token s) = Inr s \<longleftrightarrow> schedule_ok s) \<and>
   (case schedule_parse raw of
      Inr x \<Rightarrow> schedule_ok x
    | Inl Non_Positive_Interval_Schedule \<Rightarrow> (\<exists>r n. raw = ''interval:'' @ r \<and> parse_i64 r = Some n \<and> n \<le> 0)
    | Inl (Invalid_Schedule v) \<Rightarrow> v = raw) \<and>
   inj_on schedule_token (Collect schedule_ok)"
proof -
  have a: "schedule_parse (schedule_token s) = Inr s \<longleftrightarrow> schedule_ok s"
    using schedule_parse_token schedule_parse_ok by blast
  have b: "\<exists>r n. raw = ''interval:'' @ r \<and> parse_i64 r = Some n \<and> n \<le> 0"
    if "schedule_parse raw = Inl Non_Positive_Interval_Schedule"
    using that by (fastforce simp: schedule_parse_def res_bind_Inl_iff ok_or_def strip_prefix_Some_iff split: if_splits option.splits)
  have c: "v = raw" if "schedule_parse raw = Inl (Invalid_Schedule v)" for v
    using that by (auto simp: schedule_parse_def res_bind_Inl_iff ok_or_def split: if_splits option.splits)
  show ?thesis using a b c schedule_parse_ok sched.inj_on_token
    by (auto split: sum.split schedule_error.split)
qed

text \<open>C40: the delay before a retry is the policy's initial delay in whole seconds for the first
  attempt, never falls as the attempts go on, stays the same from the 31st attempt, and the default
  policy doubles from a minute; the delay exists exactly when it is within the calendar library's
  largest duration.\<close>

theorem delay_for_attempt_grows:
  assumes "0 \<le> bo_initial p" "num_seconds (bo_initial p) \<le> duration_max_seconds" "1 \<le> a" "a \<le> b"
  shows "delay_for_attempt p 1 = Some (num_seconds (bo_initial p) * 1000000000) \<and>
    (case delay_for_attempt p b of
       Some y \<Rightarrow> (\<exists>x. delay_for_attempt p a = Some x \<and> x \<le> y)
     | None \<Rightarrow> True) \<and>
    delay_for_attempt p (max b 31) = delay_for_attempt p 31 \<and>
    delay_for_attempt backoff_default a = Some (60000000000 * 2 ^ nat (min a 31 - 1))"
proof -
  define s where "s = num_seconds (bo_initial p)"
  define m where "m = max (bo_multiplier_bps p) 10000"
  have s: "0 \<le> s" "s \<le> i128_max div 10000" "s \<le> duration_max_seconds" "10000 \<le> m"
    using assms(1,2) num_seconds_nonneg by (auto simp: s_def m_def i128_max_def duration_max_seconds_def)
  have pos: "0 \<le> delay_loop k m s" for k using delay_loop_mono [OF s(1,2,4), of k] s(1) by simp
  have d: "delay_for_attempt p n = duration_seconds (delay_loop (nat (min n 31 - 1)) m s)" for n
    using pos s(1) by (simp add: delay_for_attempt_def duration_seconds_eq s_def [symmetric] m_def [symmetric])
  define j where "j = nat (min a 31 - 1)"
  have "nat (min b 31 - 1) = j + (nat (min b 31 - 1) - j)" using assms(3,4) by (simp add: j_def)
  then have "delay_loop j m s \<le> delay_loop (nat (min b 31 - 1)) m s"
    using delay_loop_mono [OF pos _ s(4), of j] delay_loop_mono [OF s(1,2,4), of j] by (metis delay_loop_add)
  then have "case delay_for_attempt p b of
      Some y \<Rightarrow> \<exists>x. delay_for_attempt p a = Some x \<and> x \<le> y | None \<Rightarrow> True"
    using pos [of j] by (auto simp: d j_def [symmetric] duration_seconds_def split: option.split)
  moreover have "delay_for_attempt p 1 = Some (s * 1000000000)" using s by (simp add: d duration_seconds_def)
  moreover have "delay_for_attempt p (max b 31) = delay_for_attempt p 31" by (simp add: d)
  moreover have "delay_for_attempt backoff_default a = Some (60000000000 * 2 ^ nat (min a 31 - 1))"
  proof -
    have "(2::int) ^ j \<le> 2 ^ 30" by (rule power_increasing) (simp_all add: j_def)
    then have le: "60 * 2 ^ j \<le> (64424509440::int)" by simp
    then have l: "delay_loop j 20000 60 = 60 * 2 ^ j" by (intro delay_loop_double) simp_all
    have n: "num_seconds 60000000000 = 60" using num_seconds_of_seconds [of 60] by simp
    have "delay_for_attempt backoff_default a = duration_seconds (60 * 2 ^ j)"
      by (simp add: delay_for_attempt_def backoff_default_def n j_def [symmetric] l duration_seconds_eq Let_def)
    then show ?thesis using le by (simp add: duration_seconds_def duration_max_seconds_def j_def)
  qed
  ultimately show ?thesis by (simp add: s_def)
qed

lemma delay_for_attempt_grows_witness:
  "delay_for_attempt \<lparr>bo_initial = 1500000000, bo_multiplier_bps = 20000\<rparr> 1 = Some 1000000000 \<and>
   delay_for_attempt backoff_default 3 = Some 240000000000"
proof -
  have n: "num_seconds 1500000000 = 1" by (simp add: num_seconds_def tdiv_nonneg_eq)
  show ?thesis
    using delay_for_attempt_grows [of "\<lparr>bo_initial = 1500000000, bo_multiplier_bps = 20000\<rparr>" 3 4]
    by (simp add: n duration_max_seconds_def)
qed

text \<open>The cap on the exponent does not keep the delay within a duration: a valid specification
  that starts at a day and multiplies by ten asks for a delay that the calendar library cannot hold,
  and computing it panics.\<close>

theorem delay_for_attempt_can_panic:
  "spec_ok \<lparr>spec_id = 1, spec_kind = ascii ''backup'', spec_schedule = Daily, spec_next_due_at = 0,
     spec_max_attempts = 40, spec_backoff = \<lparr>bo_initial = 86400000000000, bo_multiplier_bps = 100000\<rparr>,
     spec_enabled = True, spec_requires_explicit_opt_in = False, spec_payload_json = None\<rparr> \<and>
   delay_for_attempt \<lparr>bo_initial = 86400000000000, bo_multiplier_bps = 100000\<rparr> 13 = None \<and>
   delay_for_attempt \<lparr>bo_initial = 86400000000000, bo_multiplier_bps = 100000\<rparr> 31 = None"
  by code_simp

text \<open>a specification is accepted exactly when its kind is one to 64 characters of letters,
  digits, dot, underscore and dash, it has at least one attempt, its backoff does not run backwards
  and its interval is positive; the first condition that fails is the error, and a kind of white
  space only is reported as empty.\<close>

theorem job_spec_validate_exact:
  "job_spec_validate s =
     (if \<not> kind_ok (spec_kind s)
      then Inl (if list_all is_whitespace (spec_kind s) then Empty_Kind else Invalid_Kind)
      else if spec_max_attempts s = 0 then Inl Zero_Attempts
      else if bo_initial (spec_backoff s) < 0 then Inl Negative_Backoff
      else if bo_multiplier_bps (spec_backoff s) < 10000 then Inl Backoff_Multiplier_Too_Small
      else if (case spec_schedule s of Interval seconds \<Rightarrow> seconds \<le> 0 | _ \<Rightarrow> False)
        then Inl Non_Positive_Interval else Inr ())"
proof (cases "kind_ok (spec_kind s)")
  case True
  then have "validate_job_kind (spec_kind s) = Inr ()" by (simp add: validate_job_kind_Inr)
  with True show ?thesis by (auto simp: job_spec_validate_def split: schedule.split)
next
  case False
  then have "validate_job_kind (spec_kind s) = Inl (if list_all is_whitespace (spec_kind s) then Empty_Kind else Invalid_Kind)"
    using validate_job_kind_Inr [of "spec_kind s" "()"] by (auto simp: validate_job_kind_def trim_empty_iff split: if_splits)
  with False show ?thesis by (simp add: job_spec_validate_def)
qed

section \<open>States, outcomes and records\<close>

datatype job_state = Queued | Running | State_Succeeded | State_Failed | State_Cancelled

datatype job_state_error = Invalid_State string

primrec job_state_token :: "job_state \<Rightarrow> string" where
  "job_state_token Queued = ''queued''"
| "job_state_token Running = ''running''"
| "job_state_token State_Succeeded = ''succeeded''"
| "job_state_token State_Failed = ''failed''"
| "job_state_token State_Cancelled = ''cancelled''"

definition job_state_parse :: "string \<Rightarrow> (job_state_error, job_state) res" where
  "job_state_parse s =
     (if s = ''queued'' then Inr Queued
      else if s = ''running'' then Inr Running
      else if s = ''succeeded'' then Inr State_Succeeded
      else if s = ''failed'' then Inr State_Failed
      else if s = ''cancelled'' then Inr State_Cancelled
      else Inl (Invalid_State s))"

datatype job_outcome = Outcome_Succeeded | Outcome_Failed | Outcome_Cancelled | Outcome_Skipped

datatype job_outcome_error = Invalid_Outcome string

primrec job_outcome_token :: "job_outcome \<Rightarrow> string" where
  "job_outcome_token Outcome_Succeeded = ''succeeded''"
| "job_outcome_token Outcome_Failed = ''failed''"
| "job_outcome_token Outcome_Cancelled = ''cancelled''"
| "job_outcome_token Outcome_Skipped = ''skipped''"

definition job_outcome_parse :: "string \<Rightarrow> (job_outcome_error, job_outcome) res" where
  "job_outcome_parse s =
     (if s = ''succeeded'' then Inr Outcome_Succeeded
      else if s = ''failed'' then Inr Outcome_Failed
      else if s = ''cancelled'' then Inr Outcome_Cancelled
      else if s = ''skipped'' then Inr Outcome_Skipped
      else Inl (Invalid_Outcome s))"

lemma job_state_parse_iff: "job_state_parse s = Inr x \<longleftrightarrow> s = job_state_token x"
  by (cases x) (auto simp: job_state_parse_def)

lemma job_outcome_parse_iff: "job_outcome_parse s = Inr x \<longleftrightarrow> s = job_outcome_token x"
  by (cases x) (auto simp: job_outcome_parse_def)

interpretation jstate: token_codec job_state_token
    "\<lambda>s. case job_state_parse s of Inl _ \<Rightarrow> None | Inr x \<Rightarrow> Some x" "\<lambda>_. True"
  by unfold_locales (simp add: job_state_parse_iff [THEN iffD2])

interpretation joutcome: token_codec job_outcome_token
    "\<lambda>s. case job_outcome_parse s of Inl _ \<Rightarrow> None | Inr x \<Rightarrow> Some x" "\<lambda>_. True"
  by unfold_locales (simp add: job_outcome_parse_iff [THEN iffD2])

record job_record =
  jr_id :: "128 word"
  jr_kind :: utext
  jr_schedule :: schedule
  jr_next_due_at :: "instant option"
  jr_state :: job_state
  jr_attempts :: int
  jr_max_attempts :: int
  jr_backoff :: backoff_policy
  jr_enabled :: bool
  jr_requires_explicit_opt_in :: bool
  jr_payload_json :: "string option"
  jr_last_run_at :: "instant option"
  jr_last_outcome :: "job_outcome option"
  jr_last_error :: "utext option"
  jr_last_unlock_window :: "string option"
  jr_cancel_requested :: bool

definition job_record_debug :: "job_record \<Rightarrow> job_record" where
  "job_record_debug j = j\<lparr>jr_payload_json := map_option (\<lambda>_. ''[redacted]'') (jr_payload_json j),
     jr_last_error := map_option (\<lambda>_. ascii ''[redacted]'') (jr_last_error j)\<rparr>"

section \<open>Executions and handlers\<close>

record job_failure =
  jf_reason :: utext
  jf_retryable :: bool

definition job_failure_retryable :: "utext \<Rightarrow> job_failure" where
  "job_failure_retryable reason = \<lparr>jf_reason = reason, jf_retryable = True\<rparr>"

definition job_failure_permanent :: "utext \<Rightarrow> job_failure" where
  "job_failure_permanent reason = \<lparr>jf_reason = reason, jf_retryable = False\<rparr>"

definition job_failure_debug :: "job_failure \<Rightarrow> job_failure" where
  "job_failure_debug f = f\<lparr>jf_reason := ascii ''[redacted]''\<rparr>"

datatype job_execution = Succeeded | Committed | Failed job_failure | Cancelled | Skipped

datatype job_finish_result = Applied | Finish_Cancelled

text \<open>
  One run of a handler: it returns, or it works on the world up to its next checkpoint, reading
  there the job's cancellation token.  The flag says that the watcher thread polls before the step:
  the interleavings of handler and watcher are the choices of flags and steps.
\<close>

datatype 'w handler_run = Done job_execution | Step bool "bool \<Rightarrow> 'w \<Rightarrow> 'w \<times> 'w handler_run"

record 'w job_handler =
  jh_kind :: utext
  jh_should_run :: "job_record \<Rightarrow> 'w \<Rightarrow> bool"
  jh_execute :: "job_record \<Rightarrow> 'w handler_run"

record 'w job_executor =
  je_should_run :: "job_record \<Rightarrow> 'w \<Rightarrow> bool"
  je_execute :: "job_record \<Rightarrow> 'w handler_run"

definition handler_should_run_default :: "job_record \<Rightarrow> 'w \<Rightarrow> bool" where
  "handler_should_run_default j w \<longleftrightarrow> \<not> jr_requires_explicit_opt_in j"

definition executor_should_run_default :: "job_record \<Rightarrow> 'w \<Rightarrow> bool" where
  "executor_should_run_default j w \<longleftrightarrow> \<not> jr_requires_explicit_opt_in j"

section \<open>The dispatcher\<close>

type_synonym 'w job_dispatcher = "(utext \<times> 'w job_handler) list"

definition dispatcher_new :: "'w job_dispatcher" where
  "dispatcher_new = []"

definition dispatcher_register :: "'w job_dispatcher \<Rightarrow> 'w job_handler \<Rightarrow> (job_spec_error, 'w job_dispatcher) res" where
  "dispatcher_register d h =
     res_bind (validate_job_kind (jh_kind h)) (\<lambda>_. Inr (bt_upsert (jh_kind h) h (\<lambda>_. h) d))"

definition dispatcher_kinds :: "'w job_dispatcher \<Rightarrow> utext list" where
  "dispatcher_kinds d = map fst d"

definition dispatcher_contains :: "'w job_dispatcher \<Rightarrow> utext \<Rightarrow> bool" where
  "dispatcher_contains d kind \<longleftrightarrow> map_of d kind \<noteq> None"

definition dispatcher_executor :: "'w job_dispatcher \<Rightarrow> 'w job_executor" where
  "dispatcher_executor d =
     \<lparr>je_should_run = (\<lambda>j w. case map_of d (jr_kind j) of None \<Rightarrow> False | Some h \<Rightarrow> jh_should_run h j w),
      je_execute = (\<lambda>j. case map_of d (jr_kind j) of None \<Rightarrow> Done Skipped | Some h \<Rightarrow> jh_execute h j)\<rparr>"

primrec register_all :: "'w job_dispatcher \<Rightarrow> 'w job_handler list \<Rightarrow> (job_spec_error, 'w job_dispatcher) res" where
  "register_all d [] = Inr d"
| "register_all d (h # hs) = res_bind (dispatcher_register d h) (\<lambda>d. register_all d hs)"

lemma dispatcher_register_Inr:
  "dispatcher_register d h = Inr d' \<longleftrightarrow> kind_ok (jh_kind h) \<and> d' = bt_upsert (jh_kind h) h (\<lambda>_. h) d"
  using validate_job_kind_Inr [of "jh_kind h"] by (auto simp: dispatcher_register_def res_bind_Inr_iff)

lemma register_all_spec:
  "bt_sorted d \<Longrightarrow> register_all d hs = Inr d' \<Longrightarrow>
   bt_sorted d' \<and> list_all (\<lambda>h. kind_ok (jh_kind h)) hs \<and>
   map_of d' = (\<lambda>k. case find (\<lambda>h. jh_kind h = k) (rev hs) of None \<Rightarrow> map_of d k | Some h \<Rightarrow> Some h)"
proof (induction hs arbitrary: d)
  case (Cons h hs)
  from Cons.prems(2) obtain e where e: "kind_ok (jh_kind h)" "e = bt_upsert (jh_kind h) h (\<lambda>_. h) d" "register_all e hs = Inr d'"
    by (auto simp: res_bind_Inr_iff dispatcher_register_Inr)
  have f: "find P (xs @ [h]) = (case find P xs of None \<Rightarrow> if P h then Some h else None | Some y \<Rightarrow> Some y)" for P xs
    by (induction xs) simp_all
  have "bt_sorted e" using Cons.prems(1) by (simp add: e(2) bt_upsert_sorted)
  then show ?case using Cons.IH [OF _ e(3)] Cons.prems(1) e(1)
    by (auto simp: f e(2) map_of_bt_upsert fun_eq_iff split: option.splits)
qed (simp add: fun_eq_iff)

text \<open>once handlers have registered, the kinds are listed in order without repetition and all of
  them are routing tokens; a row is executed by the handler registered last for its kind, and a row
  with no handler is neither run nor executed.\<close>

theorem dispatcher_routes:
  assumes "register_all dispatcher_new hs = Inr d"
  shows "sorted_wrt (<) (dispatcher_kinds d) \<and> set (dispatcher_kinds d) = jh_kind ` set hs \<and>
    list_all kind_ok (dispatcher_kinds d) \<and>
    (dispatcher_contains d (jr_kind j) \<longleftrightarrow> jr_kind j \<in> jh_kind ` set hs) \<and>
    (case find (\<lambda>h. jh_kind h = jr_kind j) (rev hs) of
       None \<Rightarrow> \<not> je_should_run (dispatcher_executor d) j w \<and> je_execute (dispatcher_executor d) j = Done Skipped
     | Some h \<Rightarrow> je_should_run (dispatcher_executor d) j w = jh_should_run h j w \<and>
         je_execute (dispatcher_executor d) j = jh_execute h j)"
proof -
  have s: "bt_sorted d" "list_all (\<lambda>h. kind_ok (jh_kind h)) hs"
    "map_of d = (\<lambda>k. find (\<lambda>h. jh_kind h = k) (rev hs))"
    using register_all_spec [OF _ assms] by (auto simp: dispatcher_new_def bt_sorted_def fun_eq_iff split: option.splits)
  have dom: "k \<in> fst ` set d \<longleftrightarrow> k \<in> jh_kind ` set hs" for k
  proof -
    have "k \<in> fst ` set d \<longleftrightarrow> map_of d k \<noteq> None" by (simp add: map_of_eq_None_iff)
    also have "\<dots> \<longleftrightarrow> k \<in> jh_kind ` set hs" by (force simp: s(3) find_None_iff)
    finally show ?thesis .
  qed
  then have kinds: "set (dispatcher_kinds d) = jh_kind ` set hs" by (auto simp: dispatcher_kinds_def)
  moreover have "list_all kind_ok (dispatcher_kinds d)" using s(2) kinds by (auto simp: list_all_iff)
  moreover have "sorted_wrt (<) (dispatcher_kinds d)" using s(1) by (simp add: bt_sorted_def dispatcher_kinds_def)
  moreover have "dispatcher_contains d (jr_kind j) \<longleftrightarrow> jr_kind j \<in> jh_kind ` set hs"
    using dom [of "jr_kind j"] by (simp add: dispatcher_contains_def map_of_eq_None_iff)
  ultimately show ?thesis by (auto simp: dispatcher_executor_def s(3) split: option.split)
qed

lemma dispatcher_routes_witness:
  "dispatcher_kinds [(ascii ''backup'', \<lparr>jh_kind = ascii ''backup'', jh_should_run = (\<lambda>_ _. True),
     jh_execute = (\<lambda>_. Done Succeeded :: nat handler_run)\<rparr>)] = [ascii ''backup''] \<and>
   set (dispatcher_kinds [(ascii ''backup'', \<lparr>jh_kind = ascii ''backup'', jh_should_run = (\<lambda>_ _. True),
     jh_execute = (\<lambda>_. Done Succeeded :: nat handler_run)\<rparr>)]) = {ascii ''backup''}"
proof -
  let ?h = "\<lparr>jh_kind = ascii ''backup'', jh_should_run = (\<lambda>_ _. True), jh_execute = (\<lambda>_. Done Succeeded :: nat handler_run)\<rparr>"
  have k: "kind_ok (ascii ''backup'')" by code_simp
  then have "register_all dispatcher_new [?h] = Inr [(ascii ''backup'', ?h)]"
    using validate_job_kind_Inr [of "ascii ''backup''" "()"]
    by (simp add: dispatcher_register_def dispatcher_new_def)
  from dispatcher_routes [OF this] show ?thesis by (simp add: dispatcher_kinds_def)
qed

end
