(* ===== verification/Job_Store.thy ===== *)
theory Job_Store
  imports Job_Runtime
begin

text \<open>
  \<^verbatim>\<open>crates/db-worker/src/jobs.rs\<close>: the durable job table and every statement on it.

  The table \<^verbatim>\<open>durable_jobs\<close> is the list of its rows, a row a record of its columns with their SQL
  types; an \<^verbatim>\<open>UPDATE\<close> changes the rows that satisfy its \<^verbatim>\<open>WHERE\<close> clause and counts them.  SQLite
  itself is not modelled: each statement runs on the table under the worker's lock, and a failure of
  the database is a value that the interleavings of \<open>Job_Runner\<close> may give to any of the store's
  calls.  Texts compare as SQLite compares them, byte by byte, and \<^verbatim>\<open>NULL\<close> sorts first.
\<close>

section \<open>The table\<close>

record job_row =
  row_id :: "128 word"
  row_kind :: utext
  row_cadence :: string
  row_next_due_at :: "string option"
  row_state :: string
  row_attempt_count :: int
  row_max_attempts :: int
  row_backoff_initial_seconds :: int
  row_backoff_multiplier_bps :: int
  row_enabled :: int
  row_requires_explicit_opt_in :: int
  row_payload_json :: "string option"
  row_last_run_at :: "string option"
  row_last_outcome :: "string option"
  row_last_error :: "utext option"
  row_last_unlock_window :: "string option"
  row_cancel_requested :: int
  row_created_at :: string
  row_updated_at :: string
  row_committed_at :: "string option"
  row_committed_outcome :: "string option"

type_synonym job_table = "job_row list"

text \<open>The \<^verbatim>\<open>CHECK\<close> constraints of the table: of its creation, and of the commit marker.\<close>

definition durable_jobs_checks :: "job_row \<Rightarrow> bool" where
  "durable_jobs_checks r \<longleftrightarrow>
     row_state r \<in> {''queued'', ''running'', ''succeeded'', ''failed'', ''cancelled''} \<and>
     0 \<le> row_attempt_count r \<and> 0 < row_max_attempts r \<and>
     0 \<le> row_backoff_initial_seconds r \<and> 10000 \<le> row_backoff_multiplier_bps r \<and>
     row_enabled r \<in> {0, 1} \<and> row_requires_explicit_opt_in r \<in> {0, 1} \<and>
     row_last_outcome r \<in> {None, Some ''succeeded'', Some ''failed'', Some ''cancelled'', Some ''skipped''} \<and>
     row_cancel_requested r \<in> {0, 1}"

definition commit_marker_checks :: "job_row \<Rightarrow> bool" where
  "commit_marker_checks r \<longleftrightarrow>
     row_committed_outcome r \<in> {None, Some ''succeeded'', Some ''failed''} \<and>
     (row_committed_at r = None \<longleftrightarrow> row_committed_outcome r = None)"

definition sql_update :: "(job_row \<Rightarrow> bool) \<Rightarrow> (job_row \<Rightarrow> job_row) \<Rightarrow> job_table \<Rightarrow> job_table" where
  "sql_update P f T = map (\<lambda>r. if P r then f r else r) T"

definition sql_count :: "(job_row \<Rightarrow> bool) \<Rightarrow> job_table \<Rightarrow> nat" where
  "sql_count P T = length (filter P T)"

definition sql_find :: "128 word \<Rightarrow> job_table \<Rightarrow> job_row option" where
  "sql_find ident T = find (\<lambda>r. row_id r = ident) T"

text \<open>\<^verbatim>\<open>INSERT ... ON CONFLICT(id) DO UPDATE SET ...\<close>\<close>

definition sql_upsert :: "job_row \<Rightarrow> (job_row \<Rightarrow> job_row) \<Rightarrow> job_table \<Rightarrow> job_table" where
  "sql_upsert new upd T =
     (case sql_find (row_id new) T of
        None \<Rightarrow> T @ [new]
      | Some _ \<Rightarrow> sql_update (\<lambda>r. row_id r = row_id new) upd T)"

section \<open>Decoding a row\<close>

datatype row_fault =
    Unsafe_Kind | Bad_Schedule schedule_error | Bad_State job_state_error | Bad_Outcome job_outcome_error
  | Attempt_Count_Out_Of_Range | Max_Attempts_Out_Of_Range | Invalid_Retry_Policy
  | Multiplier_Out_Of_Range | Bad_Timestamp string

datatype db_error =
    Self_Test_Failed row_fault | Invalid_Command_Spec job_spec_error | Invalid_Command_Running
  | Db_Sqlite | Db_Panic

text \<open>\<open>Store_Panic\<close> stands for a panic, which ends the call without a value.\<close>

datatype job_store_error = Invalid_Row row_fault | Store_Db db_error | Store_Sqlite | Store_Panic

primrec db_error_from :: "job_store_error \<Rightarrow> db_error" where
  "db_error_from (Invalid_Row message) = Self_Test_Failed message"
| "db_error_from (Store_Db e) = e"
| "db_error_from Store_Sqlite = Db_Sqlite"
| "db_error_from Store_Panic = Db_Panic"

definition parse_timestamp :: "chrono_time \<Rightarrow> string option \<Rightarrow> string \<Rightarrow> (job_store_error, instant option) res" where
  "parse_timestamp t v field =
     (case v of
        None \<Rightarrow> Inr None
      | Some raw \<Rightarrow>
          (case dt_parse_rfc3339 t raw of
             None \<Rightarrow> Inl (Invalid_Row (Bad_Timestamp field))
           | Some i \<Rightarrow> Inr (Some i)))"

text \<open>Control characters, and the invisible and direction-changing ones that are dropped with them.\<close>

definition is_control :: "nat \<Rightarrow> bool" where
  "is_control c \<longleftrightarrow> c \<le> 31 \<or> (127 \<le> c \<and> c \<le> 159)"

definition is_hidden :: "nat \<Rightarrow> bool" where
  "is_hidden c \<longleftrightarrow> (8203 \<le> c \<and> c \<le> 8207) \<or> (8234 \<le> c \<and> c \<le> 8238) \<or> (8294 \<le> c \<and> c \<le> 8297) \<or> c = 65279"

definition sanitize_error :: "utext \<Rightarrow> utext" where
  "sanitize_error raw =
     (let cleaned = take 300 (filter (\<lambda>c. \<not> is_control c \<and> \<not> is_hidden c) raw)
      in if length raw > 300 then cleaned @ [8230] else cleaned)"

definition u32_try :: "int \<Rightarrow> int option" where
  "u32_try x = (if 0 \<le> x \<and> x < 4294967296 then Some x else None)"

definition store_fault :: "('e \<Rightarrow> row_fault) \<Rightarrow> ('e, 'a) res \<Rightarrow> (job_store_error, 'a) res" where
  "store_fault f m = (case m of Inl e \<Rightarrow> Inl (Invalid_Row (f e)) | Inr x \<Rightarrow> Inr x)"

definition parse_last_outcome :: "string option \<Rightarrow> (job_store_error, job_outcome option) res" where
  "parse_last_outcome v =
     (case v of
        None \<Rightarrow> Inr None
      | Some s \<Rightarrow> res_bind (store_fault Bad_Outcome (job_outcome_parse s)) (\<lambda>x. Inr (Some x)))"

definition row_from_parts :: "chrono_time \<Rightarrow> job_row \<Rightarrow> (job_store_error, job_record) res" where
  "row_from_parts t r =
     (if trim (row_kind r) = [] \<or> length (text_bytes (row_kind r)) > 64
         \<or> \<not> list_all is_kind_byte (text_bytes (row_kind r))
      then Inl (Invalid_Row Unsafe_Kind)
      else
        res_bind (store_fault Bad_Schedule (schedule_parse (row_cadence r))) (\<lambda>sched.
        res_bind (store_fault Bad_State (job_state_parse (row_state r))) (\<lambda>state.
        res_bind (parse_last_outcome (row_last_outcome r)) (\<lambda>last_outcome.
        res_bind (ok_or (u32_try (row_attempt_count r)) (Invalid_Row Attempt_Count_Out_Of_Range)) (\<lambda>attempts.
        res_bind (ok_or (u32_try (row_max_attempts r)) (Invalid_Row Max_Attempts_Out_Of_Range)) (\<lambda>max_attempts.
        res_bind (ok_or (duration_seconds (row_backoff_initial_seconds r)) Store_Panic) (\<lambda>initial.
        if row_backoff_initial_seconds r < 0 \<or> row_backoff_multiplier_bps r < 10000 \<or> max_attempts = 0
        then Inl (Invalid_Row Invalid_Retry_Policy)
        else
          res_bind (parse_timestamp t (row_next_due_at r) ''next_due_at'') (\<lambda>next_due_at.
          res_bind (ok_or (u32_try (row_backoff_multiplier_bps r)) (Invalid_Row Multiplier_Out_Of_Range)) (\<lambda>multiplier.
          res_bind (parse_timestamp t (row_last_run_at r) ''last_run_at'') (\<lambda>last_run_at.
          Inr \<lparr>jr_id = row_id r, jr_kind = row_kind r, jr_schedule = sched, jr_next_due_at = next_due_at,
               jr_state = state, jr_attempts = attempts, jr_max_attempts = max_attempts,
               jr_backoff = \<lparr>bo_initial = initial, bo_multiplier_bps = multiplier\<rparr>,
               jr_enabled = (row_enabled r \<noteq> 0),
               jr_requires_explicit_opt_in = (row_requires_explicit_opt_in r \<noteq> 0),
               jr_payload_json = row_payload_json r, jr_last_run_at = last_run_at,
               jr_last_outcome = last_outcome,
               jr_last_error = map_option sanitize_error (row_last_error r),
               jr_last_unlock_window = row_last_unlock_window r,
               jr_cancel_requested = (row_cancel_requested r \<noteq> 0)\<rparr>))))))))))"

text \<open>
  The rows of a query are all decoded, then the first that is invalid is the error; a panic while
  decoding any of them ends the call before.
\<close>

primrec map_res :: "('a \<Rightarrow> ('e, 'b) res) \<Rightarrow> 'a list \<Rightarrow> ('e, 'b list) res" where
  "map_res f [] = Inr []"
| "map_res f (x # xs) = res_bind (f x) (\<lambda>y. res_bind (map_res f xs) (\<lambda>ys. Inr (y # ys)))"

definition rows_from_query :: "chrono_time \<Rightarrow> job_row list \<Rightarrow> (job_store_error, job_record list) res" where
  "rows_from_query t rs =
     (if list_ex (\<lambda>r. row_from_parts t r = Inl Store_Panic) rs then Inl Store_Panic
      else map_res (row_from_parts t) rs)"

lemma map_res_Inr_iff: "map_res f xs = Inr ys \<longleftrightarrow> list_all2 (\<lambda>x y. f x = Inr y) xs ys"
  by (induction xs arbitrary: ys) (auto simp: res_bind_Inr_iff list_all2_Cons1)

lemma map_res_Inl_iff:
  "map_res f xs = Inl e \<longleftrightarrow> (\<exists>as x bs. xs = as @ x # bs \<and> (\<forall>a \<in> set as. \<exists>y. f a = Inr y) \<and> f x = Inl e)"
proof (induction xs)
  case (Cons x xs)
  show ?case
  proof (cases "f x")
    case (Inl e')
    then show ?thesis by (fastforce simp: Cons_eq_append_conv)
  next
    case (Inr y)
    then have "map_res f (x # xs) = Inl e \<longleftrightarrow> map_res f xs = Inl e" by (auto simp: res_bind_Inl_iff)
    also have "\<dots> \<longleftrightarrow> (\<exists>as z bs. x # xs = as @ z # bs \<and> (\<forall>a \<in> set as. \<exists>y. f a = Inr y) \<and> f z = Inl e)"
      unfolding Cons.IH
    proof (safe, goal_cases)
      case (1 as z bs)
      then show ?case using Inr by (intro exI [of _ "x # as"]) auto
    next
      case (2 as z bs)
      then show ?case using Inr by (cases as) auto
    qed
    finally show ?thesis .
  qed
qed simp

section \<open>The statements of the worker\<close>

datatype commit_outcome = Commit_Succeeded | Commit_Failed utext

definition commit_outcome_failed :: "utext \<Rightarrow> commit_outcome" where
  "commit_outcome_failed reason = Commit_Failed (sanitize_error reason)"

definition connector_refresh_job_kind :: utext where
  "connector_refresh_job_kind = ascii ''connector_refresh''"

definition lock_releasing_job_kinds :: "utext list" where
  "lock_releasing_job_kinds = [connector_refresh_job_kind]"

definition mark_committed :: "128 word \<Rightarrow> string \<Rightarrow> commit_outcome \<Rightarrow> job_table \<Rightarrow> nat \<times> job_table" where
  "mark_committed ident stamp outcome T =
     (let (token, last_error) = (case outcome of
            Commit_Succeeded \<Rightarrow> (''succeeded'', None) | Commit_Failed reason \<Rightarrow> (''failed'', Some reason));
          P = (\<lambda>r. row_id r = ident \<and> row_state r = ''running'')
      in (sql_count P T,
          sql_update P (\<lambda>r. r\<lparr>
            row_committed_at := Some (case row_committed_at r of None \<Rightarrow> stamp | Some v \<Rightarrow> v),
            row_committed_outcome := Some (case row_committed_outcome r of None \<Rightarrow> token | Some v \<Rightarrow> v),
            row_last_error :=
              (if row_committed_outcome r = None \<and> token = ''failed'' \<and> last_error \<noteq> None
               then last_error else row_last_error r)\<rparr>) T))"

definition bool_column :: "bool \<Rightarrow> int" where
  "bool_column b = (if b then 1 else 0)"

definition inserted_row :: "chrono_time \<Rightarrow> string \<Rightarrow> job_spec \<Rightarrow> job_row" where
  "inserted_row t now spec =
     \<lparr>row_id = spec_id spec, row_kind = spec_kind spec, row_cadence = schedule_token (spec_schedule spec),
      row_next_due_at = Some (dt_to_rfc3339 t (spec_next_due_at spec)), row_state = ''queued'',
      row_attempt_count = 0, row_max_attempts = spec_max_attempts spec,
      row_backoff_initial_seconds = num_seconds (bo_initial (spec_backoff spec)),
      row_backoff_multiplier_bps = bo_multiplier_bps (spec_backoff spec),
      row_enabled = bool_column (spec_enabled spec),
      row_requires_explicit_opt_in = bool_column (spec_requires_explicit_opt_in spec),
      row_payload_json = spec_payload_json spec, row_last_run_at = None, row_last_outcome = None,
      row_last_error = None, row_last_unlock_window = None, row_cancel_requested = 0,
      row_created_at = now, row_updated_at = now, row_committed_at = None, row_committed_outcome = None\<rparr>"

text \<open>The columns both conflict clauses set from the row that could not be inserted.\<close>

definition configure_row :: "job_row \<Rightarrow> job_row \<Rightarrow> job_row" where
  "configure_row excluded r = r\<lparr>
     row_kind := row_kind excluded, row_cadence := row_cadence excluded,
     row_next_due_at := row_next_due_at excluded, row_max_attempts := row_max_attempts excluded,
     row_backoff_initial_seconds := row_backoff_initial_seconds excluded,
     row_backoff_multiplier_bps := row_backoff_multiplier_bps excluded,
     row_enabled := row_enabled excluded,
     row_requires_explicit_opt_in := row_requires_explicit_opt_in excluded,
     row_payload_json := row_payload_json excluded, row_updated_at := row_updated_at excluded\<rparr>"

definition schedule_job :: "chrono_time \<Rightarrow> instant \<Rightarrow> job_spec \<Rightarrow> job_table \<Rightarrow> (db_error, unit) res \<times> job_table" where
  "schedule_job t now spec T =
     (case job_spec_validate spec of
        Inl e \<Rightarrow> (Inl (Invalid_Command_Spec e), T)
      | Inr _ \<Rightarrow>
          (let new = inserted_row t (dt_to_rfc3339 t now) spec
           in (Inr (), sql_upsert new (configure_row new) T)))"

definition reset_row :: "job_row \<Rightarrow> job_row" where
  "reset_row r = r\<lparr>row_state := ''queued'', row_attempt_count := 0, row_last_outcome := None,
     row_last_error := None, row_last_unlock_window := None, row_cancel_requested := 0\<rparr>"

definition reconfigure_job :: "chrono_time \<Rightarrow> instant \<Rightarrow> job_spec \<Rightarrow> job_table \<Rightarrow> (db_error, unit) res \<times> job_table" where
  "reconfigure_job t now spec T =
     (case job_spec_validate spec of
        Inl e \<Rightarrow> (Inl (Invalid_Command_Spec e), T)
      | Inr _ \<Rightarrow>
          (if list_ex (\<lambda>r. row_id r = spec_id spec \<and> row_state r = ''running'') T
           then (Inl Invalid_Command_Running, T)
           else
             let new = inserted_row t (dt_to_rfc3339 t now) spec
             in (Inr (), sql_upsert new (\<lambda>r. reset_row (configure_row new r)) T)))"

definition durable_job :: "chrono_time \<Rightarrow> 128 word \<Rightarrow> job_table \<Rightarrow> (db_error, job_record option) res" where
  "durable_job t ident T =
     (case sql_find ident T of
        None \<Rightarrow> Inr None
      | Some r \<Rightarrow>
          (case row_from_parts t r of Inl e \<Rightarrow> Inl (db_error_from e) | Inr j \<Rightarrow> Inr (Some j)))"

definition order_by_due :: "job_row list \<Rightarrow> job_row list" where
  "order_by_due rs = sort_key (\<lambda>r. (row_next_due_at r, row_id r)) rs"

definition durable_jobs :: "chrono_time \<Rightarrow> job_table \<Rightarrow> (db_error, job_record list) res" where
  "durable_jobs t T =
     (case rows_from_query t (order_by_due T) of Inl e \<Rightarrow> Inl (db_error_from e) | Inr js \<Rightarrow> Inr js)"

definition cancel_job :: "chrono_time \<Rightarrow> instant \<Rightarrow> 128 word \<Rightarrow> job_table \<Rightarrow> bool \<times> job_table" where
  "cancel_job t now ident T =
     (let P = (\<lambda>r. row_id r = ident \<and> row_state r \<notin> {''failed'', ''cancelled''})
      in (sql_count P T \<noteq> 0,
          sql_update P (\<lambda>r. r\<lparr>
            row_state := (if row_state r = ''running'' then row_state r else ''cancelled''),
            row_last_outcome := (if row_state r = ''running'' then row_last_outcome r else Some ''cancelled''),
            row_last_error := (if row_state r = ''running'' then row_last_error r else Some (ascii ''cancelled by user'')),
            row_cancel_requested := 1, row_updated_at := dt_to_rfc3339 t now\<rparr>) T))"

definition job_cancellation_requested :: "128 word \<Rightarrow> job_table \<Rightarrow> bool" where
  "job_cancellation_requested ident T =
     (case sql_find ident T of None \<Rightarrow> False | Some r \<Rightarrow> row_cancel_requested r \<noteq> 0)"

definition job_committed :: "128 word \<Rightarrow> job_table \<Rightarrow> bool" where
  "job_committed ident T =
     (case find (\<lambda>r. row_id r = ident \<and> row_state r = ''running'') T of
        None \<Rightarrow> False | Some r \<Rightarrow> row_committed_at r \<noteq> None)"

definition delete_job :: "128 word \<Rightarrow> job_table \<Rightarrow> bool \<times> job_table" where
  "delete_job ident T =
     (let P = (\<lambda>r. row_id r = ident \<and> row_state r \<noteq> ''running'')
      in (sql_count P T \<noteq> 0, filter (\<lambda>r. \<not> P r) T))"

section \<open>The store of the runner\<close>

definition clear_marker :: "job_row \<Rightarrow> job_row" where
  "clear_marker r = r\<lparr>row_cancel_requested := 0, row_committed_at := None, row_committed_outcome := None\<rparr>"

definition succeeded_row :: "string option \<Rightarrow> string \<Rightarrow> job_row \<Rightarrow> job_row" where
  "succeeded_row next_due now r = (clear_marker r)\<lparr>row_state := ''succeeded'', row_attempt_count := 0,
     row_next_due_at := next_due, row_last_outcome := Some ''succeeded'', row_last_error := None,
     row_updated_at := now\<rparr>"

definition recover_next_due :: "chrono_time \<Rightarrow> instant \<Rightarrow> string \<Rightarrow> instant option option" where
  "recover_next_due t now cadence =
     (case schedule_parse cadence of Inl _ \<Rightarrow> Some None | Inr s \<Rightarrow> next_due_after t s now)"

definition recover_failed_row :: "string \<Rightarrow> job_row \<Rightarrow> job_row" where
  "recover_failed_row now_text r = (clear_marker r)\<lparr>row_state := ''failed'', row_last_outcome := Some ''failed'',
     row_last_error := Some (case row_last_error r of
         None \<Rightarrow> ascii ''the run failed before recovery'' | Some e \<Rightarrow> e),
     row_updated_at := now_text\<rparr>"

definition recover_cancelled_row :: "string \<Rightarrow> job_row \<Rightarrow> job_row" where
  "recover_cancelled_row now_text r = (clear_marker r)\<lparr>row_state := ''cancelled'',
     row_last_outcome := Some ''cancelled'', row_last_error := Some (ascii ''cancelled before recovery''),
     row_updated_at := now_text\<rparr>"

definition recover_requeued_row :: "string \<Rightarrow> job_row \<Rightarrow> job_row" where
  "recover_requeued_row now_text r = (clear_marker r)\<lparr>row_state := ''queued'',
     row_next_due_at := (case row_next_due_at r of
         None \<Rightarrow> Some now_text
       | Some d \<Rightarrow> if now_text < d then Some now_text else Some d),
     row_updated_at := now_text\<rparr>"

text \<open>One row with the marker and a cancellation request; \<open>None\<close> is a panic.\<close>

definition recover_committed_row ::
    "chrono_time \<Rightarrow> instant \<Rightarrow> 128 word \<times> string \<times> string \<Rightarrow> job_table \<Rightarrow> (nat \<times> job_table) option" where
  "recover_committed_row t now entry T =
     (let (ident, cadence, outcome) = entry;
          now_text = dt_to_rfc3339 t now;
          P = (\<lambda>r. row_id r = ident \<and> row_state r = ''running'')
      in if outcome = ''failed'' then Some (sql_count P T, sql_update P (recover_failed_row now_text) T)
         else
           (case recover_next_due t now cadence of
              None \<Rightarrow> None
            | Some next_due \<Rightarrow>
                Some (sql_count P T,
                  sql_update P (succeeded_row (map_option (dt_to_rfc3339 t) next_due) now_text) T)))"

primrec recover_committed ::
    "chrono_time \<Rightarrow> instant \<Rightarrow> (128 word \<times> string \<times> string) list \<Rightarrow> nat \<Rightarrow> job_table \<Rightarrow> (nat \<times> job_table) option" where
  "recover_committed t now [] recovered T = Some (recovered, T)"
| "recover_committed t now (e # es) recovered T =
     (case recover_committed_row t now e T of
        None \<Rightarrow> None
      | Some (n, T) \<Rightarrow> recover_committed t now es (recovered + n) T)"

text \<open>\<^verbatim>\<open>row.get\<close> of a \<^verbatim>\<open>NULL\<close> as a text is a database error.\<close>

definition committed_entry :: "job_row \<Rightarrow> (job_store_error, 128 word \<times> string \<times> string) res" where
  "committed_entry r =
     (case row_committed_outcome r of
        None \<Rightarrow> Inl Store_Sqlite
      | Some outcome \<Rightarrow> Inr (row_id r, row_cadence r, outcome))"

definition recover_running :: "chrono_time \<Rightarrow> instant \<Rightarrow> job_table \<Rightarrow> (job_store_error, nat) res \<times> job_table" where
  "recover_running t now T =
     (case map_res committed_entry
             (filter (\<lambda>r. row_state r = ''running'' \<and> row_cancel_requested r = 1 \<and> row_committed_at r \<noteq> None) T) of
        Inl e \<Rightarrow> (Inl e, T)
      | Inr committed \<Rightarrow>
          (case recover_committed t now committed 0 T of
             None \<Rightarrow> (Inl Store_Panic, T)
           | Some (recovered, T1) \<Rightarrow>
               (let now_text = dt_to_rfc3339 t now;
                    P = (\<lambda>r. row_state r = ''running'' \<and> row_cancel_requested r = 1 \<and> row_committed_at r = None);
                    cancelled = sql_count P T1;
                    T2 = sql_update P (recover_cancelled_row now_text) T1;
                    Q = (\<lambda>r. row_state r = ''running'' \<and> row_cancel_requested r = 0);
                    requeued = sql_count Q T2;
                    T3 = sql_update Q (recover_requeued_row now_text) T2
                in (Inr (recovered + cancelled + requeued), T3))))"

definition row_due :: "string \<Rightarrow> string \<Rightarrow> job_row \<Rightarrow> bool" where
  "row_due now_text unlock_window r \<longleftrightarrow>
     row_enabled r = 1 \<and> row_state r \<in> {''queued'', ''succeeded''} \<and>
     (case row_next_due_at r of None \<Rightarrow> False | Some d \<Rightarrow> d \<le> now_text) \<and>
     row_last_unlock_window r \<noteq> Some unlock_window"

definition due_jobs :: "chrono_time \<Rightarrow> instant \<Rightarrow> string \<Rightarrow> job_table \<Rightarrow> (job_store_error, job_record list) res" where
  "due_jobs t now unlock_window T =
     rows_from_query t (order_by_due (filter (row_due (dt_to_rfc3339 t now) unlock_window) T))"

definition claim_job ::
    "chrono_time \<Rightarrow> 128 word \<Rightarrow> int \<Rightarrow> instant \<Rightarrow> string \<Rightarrow> job_table \<Rightarrow> bool \<times> job_table" where
  "claim_job t ident attempt started_at unlock_window T =
     (let started = dt_to_rfc3339 t started_at;
          P = (\<lambda>r. row_id r = ident \<and> row_state r \<in> {''queued'', ''succeeded''} \<and>
                 row_attempt_count r = attempt - 1 \<and> row_last_unlock_window r \<noteq> Some unlock_window)
      in (sql_count P T \<noteq> 0,
          sql_update P (\<lambda>r. (clear_marker r)\<lparr>row_state := ''running'', row_attempt_count := attempt,
            row_last_run_at := Some started, row_last_unlock_window := Some unlock_window,
            row_updated_at := started\<rparr>) T))"

definition finish_result :: "nat \<Rightarrow> job_finish_result" where
  "finish_result changed = (if changed = 0 then Finish_Cancelled else Applied)"

definition finish_success ::
    "chrono_time \<Rightarrow> job_record \<Rightarrow> instant \<Rightarrow> instant option \<Rightarrow> job_table \<Rightarrow> job_finish_result \<times> job_table" where
  "finish_success t job completed_at next_due_at T =
     (let P = (\<lambda>r. row_id r = jr_id job \<and> row_state r = ''running'' \<and> row_cancel_requested r = 0)
      in (finish_result (sql_count P T),
          sql_update P (succeeded_row (map_option (dt_to_rfc3339 t) next_due_at) (dt_to_rfc3339 t completed_at)) T))"

definition finish_committed ::
    "chrono_time \<Rightarrow> job_record \<Rightarrow> instant \<Rightarrow> instant option \<Rightarrow> job_table \<Rightarrow> unit \<times> job_table" where
  "finish_committed t job completed_at next_due_at T =
     ((), sql_update (\<lambda>r. row_id r = jr_id job \<and> row_state r = ''running'')
            (succeeded_row (map_option (dt_to_rfc3339 t) next_due_at) (dt_to_rfc3339 t completed_at)) T)"

definition finish_failure ::
    "chrono_time \<Rightarrow> job_record \<Rightarrow> instant \<Rightarrow> job_failure \<Rightarrow> instant option \<Rightarrow> job_table \<Rightarrow> job_finish_result \<times> job_table" where
  "finish_failure t job failed_at failure retry_at T =
     (let state = (if retry_at \<noteq> None then ''queued'' else ''failed'');
          P = (\<lambda>r. row_id r = jr_id job \<and> row_state r \<in> {''running'', ''queued'', ''succeeded''} \<and>
                 (row_cancel_requested r = 0 \<or> row_committed_at r \<noteq> None))
      in (finish_result (sql_count P T),
          sql_update P (\<lambda>r. (clear_marker r)\<lparr>row_state := state,
            row_next_due_at := (case retry_at of None \<Rightarrow> row_next_due_at r | Some i \<Rightarrow> Some (dt_to_rfc3339 t i)),
            row_last_outcome := Some ''failed'', row_last_error := Some (sanitize_error (jf_reason failure)),
            row_updated_at := dt_to_rfc3339 t failed_at\<rparr>) T))"

definition finish_cancelled ::
    "chrono_time \<Rightarrow> job_record \<Rightarrow> instant \<Rightarrow> utext \<Rightarrow> job_table \<Rightarrow> unit \<times> job_table" where
  "finish_cancelled t job cancelled_at reason T =
     ((), sql_update (\<lambda>r. row_id r = jr_id job \<and> row_state r = ''running'')
            (\<lambda>r. r\<lparr>row_state := ''cancelled'', row_last_outcome := Some ''cancelled'',
               row_last_error := Some (sanitize_error reason), row_committed_at := None,
               row_committed_outcome := None, row_updated_at := dt_to_rfc3339 t cancelled_at\<rparr>) T)"

definition finish_skipped :: "chrono_time \<Rightarrow> job_record \<Rightarrow> instant \<Rightarrow> job_table \<Rightarrow> job_finish_result \<times> job_table" where
  "finish_skipped t job skipped_at T =
     (let P = (\<lambda>r. row_id r = jr_id job \<and> row_state r = ''running'' \<and> row_cancel_requested r = 0)
      in (finish_result (sql_count P T),
          sql_update P (\<lambda>r. (clear_marker r)\<lparr>row_state := ''queued'', row_last_outcome := Some ''skipped'',
            row_updated_at := dt_to_rfc3339 t skipped_at\<rparr>) T))"

section \<open>The table as a map of rows\<close>

lemma sql_find_Some: "sql_find i T = Some r \<Longrightarrow> r \<in> set T \<and> row_id r = i"
  by (auto simp: sql_find_def find_Some_iff)

lemma sql_find_None: "sql_find i T = None \<longleftrightarrow> i \<notin> row_id ` set T"
  by (auto simp: sql_find_def find_None_iff)

lemma sql_find_Nil [simp]: "sql_find i [] = None"
  by (simp add: sql_find_def)

lemma sql_find_Cons [simp]: "sql_find i (r # T) = (if row_id r = i then Some r else sql_find i T)"
  by (simp add: sql_find_def)

lemma sql_find_append: "sql_find i (T @ U) = (case sql_find i T of None \<Rightarrow> sql_find i U | Some r \<Rightarrow> Some r)"
  by (induction T) simp_all

lemma sql_find_in: "distinct (map row_id T) \<Longrightarrow> r \<in> set T \<Longrightarrow> sql_find (row_id r) T = Some r"
  by (induction T) force+

lemma sql_update_Nil [simp]: "sql_update P f [] = []"
  by (simp add: sql_update_def)

lemma sql_update_Cons [simp]: "sql_update P f (r # T) = (if P r then f r else r) # sql_update P f T"
  by (simp add: sql_update_def)

lemma set_sql_update: "set (sql_update P f T) = (\<lambda>r. if P r then f r else r) ` set T"
  by (simp add: sql_update_def)

text \<open>An update keeps the identities of the rows and acts on each row alone.\<close>

lemma sql_update_ids: "(\<And>r. row_id (f r) = row_id r) \<Longrightarrow> map row_id (sql_update P f T) = map row_id T"
  by (induction T) simp_all

lemma sql_find_update:
  "(\<And>r. row_id (f r) = row_id r) \<Longrightarrow>
   sql_find i (sql_update P f T) = map_option (\<lambda>r. if P r then f r else r) (sql_find i T)"
  by (induction T) simp_all

lemma sql_find_update_other:
  "(\<And>r. row_id (f r) = row_id r) \<Longrightarrow> i \<noteq> k \<Longrightarrow>
   sql_find i (sql_update (\<lambda>r. row_id r = k \<and> P r) f T) = sql_find i T"
  by (induction T) auto

lemma sql_count_one:
  "distinct (map row_id T) \<Longrightarrow>
   sql_count (\<lambda>r. row_id r = i \<and> P r) T = (case sql_find i T of None \<Rightarrow> 0 | Some r \<Rightarrow> if P r then 1 else 0)"
proof (induction T)
  case (Cons r T)
  have "filter (\<lambda>r. row_id r = i \<and> P r) T = []" if "row_id r = i"
    using that Cons.prems by (auto simp: filter_empty_conv image_iff)
  with Cons show ?case by (auto simp: sql_count_def)
qed (simp add: sql_count_def)

lemma sql_count_zero_iff: "sql_count P T = 0 \<longleftrightarrow> (\<forall>r \<in> set T. \<not> P r)"
  by (simp add: sql_count_def filter_empty_conv)

lemma sql_find_filter_id:
  "sql_find i (filter (\<lambda>r. \<not> (row_id r = k \<and> P r)) T) =
     (if i = k then find (\<lambda>r. row_id r = k \<and> \<not> P r) T else sql_find i T)"
  by (induction T) auto

lemma sql_find_upsert:
  "(\<And>r. row_id (upd r) = row_id r) \<Longrightarrow>
   sql_find i (sql_upsert new upd T) =
     (if i = row_id new then Some (case sql_find i T of None \<Rightarrow> new | Some r \<Rightarrow> upd r) else sql_find i T)"
  by (auto simp: sql_upsert_def sql_find_append sql_find_update dest: sql_find_Some split: option.split)

lemma sql_upsert_ids:
  assumes "\<And>r. row_id (upd r) = row_id r" "distinct (map row_id T)"
  shows "distinct (map row_id (sql_upsert new upd T))"
proof (cases "sql_find (row_id new) T")
  case None
  then have "row_id new \<notin> row_id ` set T" by (simp add: sql_find_None)
  with None show ?thesis using assms(2) by (simp add: sql_upsert_def)
next
  case (Some r)
  then show ?thesis using assms by (simp add: sql_upsert_def sql_update_ids)
qed

lemma set_sql_upsert:
  "r \<in> set (sql_upsert new upd T) \<Longrightarrow>
   r \<in> set T \<or> r = new \<or> (\<exists>q \<in> set T. row_id q = row_id new \<and> r = upd q)"
  by (auto simp: sql_upsert_def set_sql_update split: option.splits if_splits)

text \<open>The columns a row update leaves alone.\<close>

lemma row_updates [simp]:
  "row_id (clear_marker r) = row_id r" "row_state (clear_marker r) = row_state r"
  "row_id (configure_row x r) = row_id r" "row_state (configure_row x r) = row_state r"
  "row_cancel_requested (configure_row x r) = row_cancel_requested r"
  "row_last_unlock_window (configure_row x r) = row_last_unlock_window r"
  "row_committed_at (configure_row x r) = row_committed_at r"
  "row_committed_outcome (configure_row x r) = row_committed_outcome r"
  "row_id (reset_row r) = row_id r" "row_state (reset_row r) = ''queued''"
  "row_id (succeeded_row d n r) = row_id r" "row_state (succeeded_row d n r) = ''succeeded''"
  "row_id (inserted_row t n s) = spec_id s" "row_state (inserted_row t n s) = ''queued''"
  "row_cancel_requested (clear_marker r) = 0" "row_committed_at (clear_marker r) = None"
  "row_committed_outcome (clear_marker r) = None"
  "row_last_unlock_window (clear_marker r) = row_last_unlock_window r"
  "row_id (recover_failed_row n r) = row_id r" "row_state (recover_failed_row n r) = ''failed''"
  "row_id (recover_cancelled_row n r) = row_id r" "row_state (recover_cancelled_row n r) = ''cancelled''"
  "row_id (recover_requeued_row n r) = row_id r" "row_state (recover_requeued_row n r) = ''queued''"
  by (simp_all add: clear_marker_def configure_row_def reset_row_def succeeded_row_def inserted_row_def
      recover_failed_row_def recover_cancelled_row_def recover_requeued_row_def)

section \<open>Failure texts\<close>

lemma sanitize_error_clean: "\<forall>c \<in> set (sanitize_error raw). \<not> is_control c \<and> \<not> is_hidden c"
  by (auto simp: sanitize_error_def Let_def is_control_def is_hidden_def dest!: in_set_takeD split: if_splits)

lemma sanitize_error_length: "length (sanitize_error raw) \<le> 301"
  by (simp add: sanitize_error_def Let_def) linarith

lemma sanitize_error_long:
  "length (sanitize_error raw) \<le> 300 \<or> (length (sanitize_error raw) = 301 \<and> last (sanitize_error raw) = 8230)"
proof (cases "300 < length raw")
  case False
  then show ?thesis by (simp add: sanitize_error_def Let_def)
qed (auto simp: sanitize_error_def Let_def)

lemma sanitize_error_fixed:
  "sanitize_error raw = raw \<longleftrightarrow>
     list_all (\<lambda>c. \<not> is_control c \<and> \<not> is_hidden c) raw \<and>
     (length raw \<le> 300 \<or> (length raw = 301 \<and> last raw = 8230))"
proof
  assume "sanitize_error raw = raw"
  then show "list_all (\<lambda>c. \<not> is_control c \<and> \<not> is_hidden c) raw \<and>
     (length raw \<le> 300 \<or> (length raw = 301 \<and> last raw = 8230))"
    using sanitize_error_clean [of raw] sanitize_error_long [of raw] by (auto simp: list_all_iff)
next
  assume h: "list_all (\<lambda>c. \<not> is_control c \<and> \<not> is_hidden c) raw \<and>
     (length raw \<le> 300 \<or> (length raw = 301 \<and> last raw = 8230))"
  then have f: "filter (\<lambda>c. \<not> is_control c \<and> \<not> is_hidden c) raw = raw" by (simp add: list_all_iff)
  show "sanitize_error raw = raw"
  proof (cases "length raw \<le> 300")
    case False
    with h have "length raw = 301" "last raw = 8230" "raw \<noteq> []" by auto
    then have "take 300 raw @ [8230] = raw" using append_butlast_last_id [of raw] by (simp add: butlast_conv_take)
    with False show ?thesis by (simp add: sanitize_error_def f)
  qed (simp add: sanitize_error_def f)
qed

lemma sanitize_error_idem [simp]: "sanitize_error (sanitize_error raw) = sanitize_error raw"
  using sanitize_error_clean [of raw] sanitize_error_long [of raw]
  by (subst sanitize_error_fixed) (simp add: list_all_iff)

text \<open>a stored failure text has no control and no hidden characters and at most 301 characters,
  sanitizing it again, as reading the row does, changes nothing; a text is kept as it is exactly
  when it is clean and not longer than 300 characters, or already ends in the mark of a cut.\<close>

theorem sanitize_error_stable:
  "sanitize_error (sanitize_error raw) = sanitize_error raw \<and>
   length (sanitize_error raw) \<le> 301 \<and>
   list_all (\<lambda>c. \<not> is_control c \<and> \<not> is_hidden c) (sanitize_error raw) \<and>
   (sanitize_error raw = raw \<longleftrightarrow>
      list_all (\<lambda>c. \<not> is_control c \<and> \<not> is_hidden c) raw \<and>
      (length raw \<le> 300 \<or> (length raw = 301 \<and> last raw = 8230)))"
  using sanitize_error_fixed sanitize_error_length sanitize_error_clean [of raw] by (simp add: list_all_iff)

end
