(* ===== verification/Job_Lifecycle.thy ===== *)
theory Job_Lifecycle
  imports Job_Store
begin

text \<open>
  The job table over time: the statements of \<open>Job_Store\<close> as the steps of a state machine, with any
  interleaving of the worker's callers, the runner and recovery.

  \<^item> \<open>row_ok\<close> and \<open>table_ok\<close> are what every reachable table satisfies: one row per job, the columns
    as the \<^verbatim>\<open>CHECK\<close> constraints and the reader require them, a commit marker only on a running row
    and a pending cancellation only on a running or a cancelled one.
  \<^item> \<open>lifecycle\<close> is the abstract machine of one job, which the table refines.
\<close>

section \<open>Steps\<close>

datatype job_event =
    Ev_Schedule instant job_spec
  | Ev_Reconfigure instant job_spec
  | Ev_Cancel instant "128 word"
  | Ev_Delete "128 word"
  | Ev_Mark "128 word" string commit_outcome
  | Ev_Recover instant
  | Ev_Claim "128 word" int instant string
  | Ev_Success job_record instant "instant option"
  | Ev_Committed job_record instant "instant option"
  | Ev_Failure job_record instant job_failure "instant option"
  | Ev_Cancelled job_record instant utext
  | Ev_Skipped job_record instant

inductive job_step :: "chrono_time \<Rightarrow> job_table \<Rightarrow> job_event \<Rightarrow> job_table \<Rightarrow> bool" for t where
  schedule: "job_step t T (Ev_Schedule now spec) (snd (schedule_job t now spec T))"
| reconfigure: "job_step t T (Ev_Reconfigure now spec) (snd (reconfigure_job t now spec T))"
| cancel: "job_step t T (Ev_Cancel now i) (snd (cancel_job t now i T))"
| delete: "job_step t T (Ev_Delete i) (snd (delete_job i T))"
| mark: "job_step t T (Ev_Mark i stamp outcome) (snd (mark_committed i stamp outcome T))"
| recover: "job_step t T (Ev_Recover now) (snd (recover_running t now T))"
| claim: "job_step t T (Ev_Claim i attempt now w) (snd (claim_job t i attempt now w T))"
| success: "job_step t T (Ev_Success j now d) (snd (finish_success t j now d T))"
| committed: "job_step t T (Ev_Committed j now d) (snd (finish_committed t j now d T))"
| failure: "job_step t T (Ev_Failure j now f d) (snd (finish_failure t j now f d T))"
| cancelled: "job_step t T (Ev_Cancelled j now reason) (snd (finish_cancelled t j now reason T))"
| skipped: "job_step t T (Ev_Skipped j now) (snd (finish_skipped t j now T))"

inductive_simps job_step_simps:
  "job_step t T (Ev_Schedule now spec) U" "job_step t T (Ev_Reconfigure now spec) U"
  "job_step t T (Ev_Cancel now i) U" "job_step t T (Ev_Delete i) U" "job_step t T (Ev_Mark i stamp outcome) U"
  "job_step t T (Ev_Recover now) U" "job_step t T (Ev_Claim i attempt now w) U"
  "job_step t T (Ev_Success j now d) U" "job_step t T (Ev_Committed j now d) U"
  "job_step t T (Ev_Failure j now f d) U" "job_step t T (Ev_Cancelled j now reason) U"
  "job_step t T (Ev_Skipped j now) U"

section \<open>Well-formed tables\<close>

definition stamp_ok :: "chrono_time \<Rightarrow> string option \<Rightarrow> bool" where
  "stamp_ok t v \<longleftrightarrow> (case v of None \<Rightarrow> True | Some s \<Rightarrow> \<exists>i. dt_textual t i \<and> s = dt_to_rfc3339 t i)"

definition row_config_ok :: "job_row \<Rightarrow> bool" where
  "row_config_ok r \<longleftrightarrow>
     kind_ok (row_kind r) \<and> (\<exists>s. schedule_ok s \<and> row_cadence r = schedule_token s) \<and>
     0 < row_max_attempts r \<and> row_max_attempts r < 4294967296 \<and>
     0 \<le> row_backoff_initial_seconds r \<and> row_backoff_initial_seconds r \<le> duration_max_seconds \<and>
     10000 \<le> row_backoff_multiplier_bps r \<and> row_backoff_multiplier_bps r < 4294967296 \<and>
     row_enabled r \<in> {0, 1} \<and> row_requires_explicit_opt_in r \<in> {0, 1}"

definition state_text_ok :: "string \<Rightarrow> bool" where
  "state_text_ok s \<longleftrightarrow> s \<in> range job_state_token"

definition outcome_text_ok :: "string option \<Rightarrow> bool" where
  "outcome_text_ok v \<longleftrightarrow> v \<in> insert None (Some ` range job_outcome_token)"

definition error_text_ok :: "utext option \<Rightarrow> bool" where
  "error_text_ok v \<longleftrightarrow> (case v of None \<Rightarrow> True | Some e \<Rightarrow> sanitize_error e = e)"

text \<open>A pending cancellation and a commit marker, against the state of the row.\<close>

definition cancel_flag_ok :: "int \<Rightarrow> string \<Rightarrow> bool" where
  "cancel_flag_ok c s \<longleftrightarrow> c \<in> {0, 1} \<and> (c = 1 \<longrightarrow> s \<in> {''running'', ''cancelled''})"

definition marker_ok :: "string option \<Rightarrow> string option \<Rightarrow> string \<Rightarrow> bool" where
  "marker_ok stamp outcome s \<longleftrightarrow>
     (stamp = None \<longleftrightarrow> outcome = None) \<and> outcome \<in> {None, Some ''succeeded'', Some ''failed''} \<and>
     (stamp \<noteq> None \<longrightarrow> s = ''running'')"

definition row_runtime_ok :: "chrono_time \<Rightarrow> job_row \<Rightarrow> bool" where
  "row_runtime_ok t r \<longleftrightarrow>
     stamp_ok t (row_next_due_at r) \<and> stamp_ok t (row_last_run_at r) \<and> state_text_ok (row_state r) \<and>
     0 \<le> row_attempt_count r \<and> row_attempt_count r < 4294967296 \<and>
     outcome_text_ok (row_last_outcome r) \<and> error_text_ok (row_last_error r) \<and>
     cancel_flag_ok (row_cancel_requested r) (row_state r) \<and>
     marker_ok (row_committed_at r) (row_committed_outcome r) (row_state r)"

definition row_ok :: "chrono_time \<Rightarrow> job_row \<Rightarrow> bool" where
  "row_ok t r \<longleftrightarrow> row_config_ok r \<and> row_runtime_ok t r"

definition table_ok :: "chrono_time \<Rightarrow> job_table \<Rightarrow> bool" where
  "table_ok t T \<longleftrightarrow> distinct (map row_id T) \<and> (\<forall>r \<in> set T. row_ok t r)"

lemma state_text_ok_iff:
  "state_text_ok s \<longleftrightarrow> s \<in> {''queued'', ''running'', ''succeeded'', ''failed'', ''cancelled''}"
proof -
  have u: "UNIV = {Queued, Running, State_Succeeded, State_Failed, State_Cancelled}"
    using job_state.exhaust by auto
  show ?thesis unfolding state_text_ok_def u by (simp only: image_insert image_empty job_state_token.simps)
qed

lemma outcome_text_ok_iff:
  "outcome_text_ok v \<longleftrightarrow> v \<in> {None, Some ''succeeded'', Some ''failed'', Some ''cancelled'', Some ''skipped''}"
proof -
  have u: "UNIV = {Outcome_Succeeded, Outcome_Failed, Outcome_Cancelled, Outcome_Skipped}"
    using job_outcome.exhaust by auto
  show ?thesis unfolding outcome_text_ok_def u by (simp only: image_insert image_empty job_outcome_token.simps)
qed

lemma token_texts_ok [simp]:
  "state_text_ok ''queued''" "state_text_ok ''running''" "state_text_ok ''succeeded''"
  "state_text_ok ''failed''" "state_text_ok ''cancelled''"
  "outcome_text_ok None" "outcome_text_ok (Some ''succeeded'')" "outcome_text_ok (Some ''failed'')"
  "outcome_text_ok (Some ''cancelled'')" "outcome_text_ok (Some ''skipped'')"
  by (simp_all only: state_text_ok_iff outcome_text_ok_iff insert_iff simp_thms)

lemma flags_ok [simp]:
  "cancel_flag_ok 0 s" "cancel_flag_ok 1 ''running''" "cancel_flag_ok 1 ''cancelled''"
  "marker_ok None None s" "cancel_flag_ok c ''running'' \<Longrightarrow> cancel_flag_ok c ''cancelled''"
  by (auto simp only: cancel_flag_ok_def marker_ok_def insert_iff simp_thms)

lemma error_text_ok_simps [simp]: "error_text_ok None" "error_text_ok (Some (sanitize_error e))"
  by (simp_all add: error_text_ok_def)

text \<open>The types of a specification's fields, and a first due time the table can hold.\<close>

definition spec_typed :: "chrono_time \<Rightarrow> job_spec \<Rightarrow> bool" where
  "spec_typed t s \<longleftrightarrow>
     0 \<le> spec_max_attempts s \<and> spec_max_attempts s < 4294967296 \<and>
     0 \<le> bo_multiplier_bps (spec_backoff s) \<and> bo_multiplier_bps (spec_backoff s) < 4294967296 \<and>
     num_seconds (bo_initial (spec_backoff s)) \<le> duration_max_seconds \<and>
     (case spec_schedule s of Interval n \<Rightarrow> in_i64 n | _ \<Rightarrow> True) \<and>
     dt_textual t (spec_next_due_at s)"

text \<open>
  What a caller passes: attempts are \<^verbatim>\<open>u32\<close>, texts of failures come from \<open>commit_outcome_failed\<close>,
  and the instants lie in the years 0 to 9999, as do the due times that follow from them.
\<close>

definition event_ok :: "chrono_time \<Rightarrow> job_table \<Rightarrow> job_event \<Rightarrow> bool" where
  "event_ok t T ev \<longleftrightarrow>
     (case ev of
        Ev_Schedule now spec \<Rightarrow> spec_typed t spec
      | Ev_Reconfigure now spec \<Rightarrow> spec_typed t spec
      | Ev_Mark i stamp outcome \<Rightarrow>
          (case outcome of Commit_Succeeded \<Rightarrow> True | Commit_Failed reason \<Rightarrow> sanitize_error reason = reason)
      | Ev_Recover now \<Rightarrow> dt_textual t now \<and>
          (\<forall>r \<in> set T. \<forall>s d. schedule_parse (row_cadence r) = Inr s \<and> next_due_after t s now = Some (Some d) \<longrightarrow> dt_textual t d)
      | Ev_Claim i attempt now w \<Rightarrow> 0 \<le> attempt \<and> attempt < 4294967296 \<and> dt_textual t now
      | Ev_Success j now d \<Rightarrow> (case d of None \<Rightarrow> True | Some d \<Rightarrow> dt_textual t d)
      | Ev_Committed j now d \<Rightarrow> (case d of None \<Rightarrow> True | Some d \<Rightarrow> dt_textual t d)
      | Ev_Failure j now f d \<Rightarrow> (case d of None \<Rightarrow> True | Some d \<Rightarrow> dt_textual t d)
      | _ \<Rightarrow> True)"

inductive job_run :: "chrono_time \<Rightarrow> job_table \<Rightarrow> job_event list \<Rightarrow> job_table \<Rightarrow> bool" for t where
  run_nil: "job_run t T [] T"
| run_cons: "event_ok t T ev \<Longrightarrow> job_step t T ev U \<Longrightarrow> job_run t U evs V \<Longrightarrow> job_run t T (ev # evs) V"

inductive_cases job_run_NilE: "job_run t T [] U"
inductive_cases job_run_ConsE: "job_run t T (ev # evs) U"

lemma stamp_ok_simps [simp]: "stamp_ok t None" "dt_textual t i \<Longrightarrow> stamp_ok t (Some (dt_to_rfc3339 t i))"
  by (auto simp: stamp_ok_def)

lemma stamp_ok_map_option [simp]:
  "(case d of None \<Rightarrow> True | Some d \<Rightarrow> dt_textual t d) \<Longrightarrow> stamp_ok t (map_option (dt_to_rfc3339 t) d)"
  by (cases d) simp_all

subsection \<open>Each row update keeps a row well formed\<close>

lemmas row_fields = clear_marker_def configure_row_def reset_row_def succeeded_row_def inserted_row_def
  row_config_ok_def row_runtime_ok_def

lemma inserted_row_ok: "spec_ok spec \<Longrightarrow> spec_typed t spec \<Longrightarrow> row_ok t (inserted_row t now spec)"
proof -
  assume h: "spec_ok spec" "spec_typed t spec"
  then have "schedule_ok (spec_schedule spec)" by (cases "spec_schedule spec") (simp_all add: spec_ok_def spec_typed_def)
  then have "row_config_ok (inserted_row t now spec)"
    using h num_seconds_nonneg [of "bo_initial (spec_backoff spec)"]
    by (auto simp: row_config_ok_def inserted_row_def spec_ok_def spec_typed_def bool_column_def)
  moreover have "row_runtime_ok t (inserted_row t now spec)"
    using h by (simp add: row_fields spec_typed_def)
  ultimately show ?thesis by (simp add: row_ok_def)
qed

lemma configure_row_ok: "row_ok t new \<Longrightarrow> row_ok t r \<Longrightarrow> row_ok t (configure_row new r)"
  by (simp add: row_ok_def row_config_ok_def row_runtime_ok_def configure_row_def)

text \<open>Out of the running state there is no marker.\<close>

lemma row_ok_idle: "row_ok t r \<Longrightarrow> row_state r \<noteq> ''running'' \<Longrightarrow> row_committed_at r = None \<and> row_committed_outcome r = None"
  by (auto simp: row_ok_def row_runtime_ok_def marker_ok_def)

lemma reset_row_ok:
  assumes "row_ok t r" "row_state r \<noteq> ''running''"
  shows "row_ok t (reset_row r)"
proof -
  have "row_committed_at r = None" "row_committed_outcome r = None" using row_ok_idle [OF assms] by simp_all
  with assms(1) show ?thesis by (simp add: row_ok_def row_fields)
qed

lemma error_text_ok_ascii:
  "list_all (\<lambda>c. 32 \<le> (of_char c :: nat) \<and> (of_char c :: nat) \<le> 126) s \<Longrightarrow> length s \<le> 300 \<Longrightarrow> error_text_ok (Some (ascii s))"
  by (auto simp: error_text_ok_def sanitize_error_fixed ascii_def list_all_iff is_control_def is_hidden_def)

lemma sanitized_ascii [simp]:
  "error_text_ok (Some (ascii ''cancelled by user''))"
  "error_text_ok (Some (ascii ''cancelled before recovery''))"
  "error_text_ok (Some (ascii ''the run failed before recovery''))"
  by (rule error_text_ok_ascii; simp)+

lemma cancel_row_ok:
  assumes "row_ok t r"
  shows "row_ok t (r\<lparr>
     row_state := (if row_state r = ''running'' then row_state r else ''cancelled''),
     row_last_outcome := (if row_state r = ''running'' then row_last_outcome r else Some ''cancelled''),
     row_last_error := (if row_state r = ''running'' then row_last_error r else Some (ascii ''cancelled by user'')),
     row_cancel_requested := 1, row_updated_at := n\<rparr>)"
proof (cases "row_state r = ''running''")
  case True
  with assms show ?thesis by (simp add: row_ok_def row_config_ok_def row_runtime_ok_def)
next
  case False
  with row_ok_idle [OF assms] assms show ?thesis by (simp add: row_ok_def row_config_ok_def row_runtime_ok_def)
qed

lemma succeeded_row_ok: "row_ok t r \<Longrightarrow> stamp_ok t d \<Longrightarrow> row_ok t (succeeded_row d n r)"
  by (simp add: row_ok_def row_fields)

lemma cleared_row_ok:
  "row_ok t r \<Longrightarrow> state_text_ok s \<Longrightarrow> outcome_text_ok v \<Longrightarrow> error_text_ok e \<Longrightarrow> stamp_ok t d \<Longrightarrow>
   row_ok t ((clear_marker r)\<lparr>row_state := s, row_next_due_at := d, row_last_outcome := v, row_last_error := e,
     row_updated_at := n\<rparr>)"
  by (simp add: row_ok_def row_fields)

lemma mark_row_ok:
  assumes "row_ok t r" "row_state r = ''running''" "token = ''succeeded'' \<and> e = None \<or> token = ''failed'' \<and> error_text_ok e"
  shows "row_ok t (r\<lparr>row_committed_at := Some (case row_committed_at r of None \<Rightarrow> stamp | Some v \<Rightarrow> v),
     row_committed_outcome := Some (case row_committed_outcome r of None \<Rightarrow> token | Some v \<Rightarrow> v),
     row_last_error := (if row_committed_outcome r = None \<and> token = ''failed'' \<and> e \<noteq> None then e else row_last_error r)\<rparr>)"
proof -
  have "marker_ok (Some s) (Some (case row_committed_outcome r of None \<Rightarrow> token | Some v \<Rightarrow> v)) ''running''" for s
    using assms(1,3) by (auto simp: row_ok_def row_runtime_ok_def marker_ok_def split: option.split)
  moreover have "error_text_ok (if row_committed_outcome r = None \<and> token = ''failed'' \<and> e \<noteq> None then e else row_last_error r)"
    using assms(1,3) by (auto simp: row_ok_def row_runtime_ok_def)
  ultimately show ?thesis using assms(1,2) by (simp add: row_ok_def row_config_ok_def row_runtime_ok_def)
qed

lemma claimed_row_ok:
  "row_ok t r \<Longrightarrow> 0 \<le> a \<Longrightarrow> a < 4294967296 \<Longrightarrow> stamp_ok t d \<Longrightarrow>
   row_ok t ((clear_marker r)\<lparr>row_state := ''running'', row_attempt_count := a, row_last_run_at := d,
     row_last_unlock_window := w, row_updated_at := n\<rparr>)"
  by (simp add: row_ok_def row_fields)

lemma cancelled_row_ok:
  "row_ok t r \<Longrightarrow> row_state r = ''running'' \<Longrightarrow> row_ok t (r\<lparr>row_state := ''cancelled'', row_last_outcome := Some ''cancelled'',
     row_last_error := Some (sanitize_error e), row_committed_at := None, row_committed_outcome := None,
     row_updated_at := n\<rparr>)"
  by (simp add: row_ok_def row_config_ok_def row_runtime_ok_def)

lemma row_ok_error: "row_ok t r \<Longrightarrow> error_text_ok (row_last_error r)"
  and row_ok_due: "row_ok t r \<Longrightarrow> stamp_ok t (row_next_due_at r)"
  and row_ok_cadence: "row_ok t r \<Longrightarrow> \<exists>s. schedule_ok s \<and> row_cadence r = schedule_token s"
  by (simp_all add: row_ok_def row_runtime_ok_def row_config_ok_def)

lemma recover_failed_row_ok: "row_ok t r \<Longrightarrow> row_ok t (recover_failed_row n r)"
  by (cases "row_last_error r")
    (auto simp: recover_failed_row_def row_ok_def row_config_ok_def row_runtime_ok_def clear_marker_def)

lemma recover_cancelled_row_ok: "row_ok t r \<Longrightarrow> row_ok t (recover_cancelled_row n r)"
  by (simp add: recover_cancelled_row_def row_ok_def row_fields)

lemma recover_requeued_row_ok: "row_ok t r \<Longrightarrow> stamp_ok t (Some n) \<Longrightarrow> row_ok t (recover_requeued_row n r)"
  by (cases "row_next_due_at r") (simp_all add: recover_requeued_row_def row_ok_def row_fields)

subsection \<open>Each statement keeps the table well formed\<close>

lemma table_ok_update:
  assumes "table_ok t T" "\<And>r. row_id (f r) = row_id r" "\<And>r. row_ok t r \<Longrightarrow> P r \<Longrightarrow> row_ok t (f r)"
  shows "table_ok t (sql_update P f T)"
  using assms by (auto simp: table_ok_def sql_update_ids set_sql_update)

lemma table_ok_upsert:
  assumes "table_ok t T" "row_ok t new" "\<And>r. row_id (upd r) = row_id r"
    "\<And>r. r \<in> set T \<Longrightarrow> row_ok t r \<Longrightarrow> row_id r = row_id new \<Longrightarrow> row_ok t (upd r)"
  shows "table_ok t (sql_upsert new upd T)"
  using assms sql_upsert_ids [of upd T new] by (auto simp: table_ok_def dest!: set_sql_upsert)

lemma schedule_job_ok: "table_ok t T \<Longrightarrow> spec_typed t spec \<Longrightarrow> table_ok t (snd (schedule_job t now spec T))"
  by (auto simp: schedule_job_def Let_def job_spec_validate_Inr split: sum.split
      intro!: table_ok_upsert inserted_row_ok configure_row_ok)

lemma reconfigure_job_ok: "table_ok t T \<Longrightarrow> spec_typed t spec \<Longrightarrow> table_ok t (snd (reconfigure_job t now spec T))"
  by (auto simp: reconfigure_job_def Let_def job_spec_validate_Inr list_ex_iff split: sum.split
      intro!: table_ok_upsert inserted_row_ok reset_row_ok configure_row_ok)

lemma cancel_job_ok: "table_ok t T \<Longrightarrow> table_ok t (snd (cancel_job t now i T))"
  unfolding cancel_job_def Let_def snd_conv by (rule table_ok_update) (simp_all add: cancel_row_ok)

lemma delete_job_ok: "table_ok t T \<Longrightarrow> table_ok t (snd (delete_job i T))"
  by (simp add: delete_job_def table_ok_def Let_def distinct_map_filter)

lemma mark_committed_ok:
  assumes "table_ok t T" "\<And>reason. outcome = Commit_Failed reason \<Longrightarrow> sanitize_error reason = reason"
  shows "table_ok t (snd (mark_committed i stamp outcome T))"
proof (cases outcome)
  case Commit_Succeeded
  show ?thesis unfolding mark_committed_def Commit_Succeeded Let_def commit_outcome.case prod.case snd_conv
    by (rule table_ok_update [OF assms(1)]) (simp, rule mark_row_ok, simp_all)
next
  case (Commit_Failed reason)
  with assms(2) have "error_text_ok (Some reason)" by (simp add: error_text_ok_def)
  then show ?thesis unfolding mark_committed_def Commit_Failed Let_def commit_outcome.case prod.case snd_conv
    by (intro table_ok_update [OF assms(1)]) (simp, rule mark_row_ok, simp_all)
qed

lemma claim_job_ok:
  "table_ok t T \<Longrightarrow> 0 \<le> a \<Longrightarrow> a < 4294967296 \<Longrightarrow> dt_textual t now \<Longrightarrow> table_ok t (snd (claim_job t i a now w T))"
  unfolding claim_job_def Let_def snd_conv by (rule table_ok_update) (simp_all add: claimed_row_ok)

lemma finish_success_ok:
  "table_ok t T \<Longrightarrow> (case d of None \<Rightarrow> True | Some d \<Rightarrow> dt_textual t d) \<Longrightarrow> table_ok t (snd (finish_success t j now d T))"
  unfolding finish_success_def Let_def snd_conv by (rule table_ok_update) (simp_all add: succeeded_row_ok)

lemma finish_committed_ok:
  "table_ok t T \<Longrightarrow> (case d of None \<Rightarrow> True | Some d \<Rightarrow> dt_textual t d) \<Longrightarrow> table_ok t (snd (finish_committed t j now d T))"
  unfolding finish_committed_def Let_def snd_conv by (rule table_ok_update) (simp_all add: succeeded_row_ok)

lemma finish_failure_ok:
  "table_ok t T \<Longrightarrow> (case d of None \<Rightarrow> True | Some d \<Rightarrow> dt_textual t d) \<Longrightarrow> table_ok t (snd (finish_failure t j now f d T))"
  unfolding finish_failure_def Let_def snd_conv
  by (rule table_ok_update) (auto intro!: cleared_row_ok row_ok_due split: option.splits)

lemma finish_cancelled_ok: "table_ok t T \<Longrightarrow> table_ok t (snd (finish_cancelled t j now reason T))"
  unfolding finish_cancelled_def Let_def snd_conv by (rule table_ok_update) (simp_all add: cancelled_row_ok)

lemma finish_skipped_ok: "table_ok t T \<Longrightarrow> table_ok t (snd (finish_skipped t j now T))"
  unfolding finish_skipped_def Let_def snd_conv
  by (rule table_ok_update) (simp_all add: row_ok_def row_fields)

lemma map_res_in: "map_res f xs = Inr ys \<Longrightarrow> y \<in> set ys \<Longrightarrow> \<exists>x \<in> set xs. f x = Inr y"
  by (induction xs arbitrary: ys) (auto simp: res_bind_Inr_iff)

lemma recover_committed_row_ok:
  "recover_committed_row t now (i, cadence, outcome) T = Some (n, U) \<Longrightarrow> table_ok t T \<Longrightarrow>
   (\<And>s d. schedule_parse cadence = Inr s \<Longrightarrow> next_due_after t s now = Some (Some d) \<Longrightarrow> dt_textual t d) \<Longrightarrow>
   table_ok t U"
  by (auto simp: recover_committed_row_def recover_next_due_def Let_def split: if_splits option.splits sum.splits
      intro!: table_ok_update recover_failed_row_ok succeeded_row_ok stamp_ok_map_option)

lemma recover_committed_ok:
  "recover_committed t now es n T = Some (m, U) \<Longrightarrow> table_ok t T \<Longrightarrow>
   (\<And>i cadence outcome s d. (i, cadence, outcome) \<in> set es \<Longrightarrow> schedule_parse cadence = Inr s \<Longrightarrow>
      next_due_after t s now = Some (Some d) \<Longrightarrow> dt_textual t d) \<Longrightarrow>
   table_ok t U"
proof (induction es arbitrary: n T)
  case (Cons e es)
  obtain i cadence outcome where e: "e = (i, cadence, outcome)" by (cases e) auto
  from Cons.prems(1) obtain k V where v: "recover_committed_row t now e T = Some (k, V)" "recover_committed t now es (n + k) V = Some (m, U)"
    by (auto split: option.splits)
  have "table_ok t V"
    by (rule recover_committed_row_ok [OF v(1) [unfolded e] Cons.prems(2)]) (rule Cons.prems(3), auto simp: e)
  then show ?case by (rule Cons.IH [OF v(2)]) (rule Cons.prems(3), auto)
qed simp

lemma recover_running_ok:
  assumes "table_ok t T" "event_ok t T (Ev_Recover now)"
  shows "table_ok t (snd (recover_running t now T))"
proof -
  have "table_ok t V"
    if m: "map_res committed_entry
        (filter (\<lambda>r. row_state r = ''running'' \<and> row_cancel_requested r = 1 \<and> row_committed_at r \<noteq> None) T) = Inr es"
      and r: "recover_committed t now es 0 T = Some (n, V)" for es n V
  proof (rule recover_committed_ok [OF r assms(1)])
    fix i cadence outcome s d
    assume "(i, cadence, outcome) \<in> set es"
    from map_res_in [OF m this] obtain r where "r \<in> set T" "committed_entry r = Inr (i, cadence, outcome)"
      by auto
    then have "r \<in> set T" "row_cadence r = cadence" by (auto simp: committed_entry_def split: option.splits)
    moreover assume "schedule_parse cadence = Inr s" "next_due_after t s now = Some (Some d)"
    ultimately show "dt_textual t d" using assms(2) by (auto simp: event_ok_def)
  qed
  moreover have "stamp_ok t (Some (dt_to_rfc3339 t now))" using assms(2) by (simp add: event_ok_def)
  ultimately show ?thesis using assms(1)
    by (auto simp: recover_running_def Let_def split: sum.split option.split
        intro!: table_ok_update recover_cancelled_row_ok recover_requeued_row_ok)
qed

lemma table_ok_step: "job_step t T ev U \<Longrightarrow> table_ok t T \<Longrightarrow> event_ok t T ev \<Longrightarrow> table_ok t U"
proof (induction rule: job_step.induct)
  case (mark T i stamp outcome)
  then show ?case by (intro mark_committed_ok) (auto simp: event_ok_def)
next
  case (recover T now)
  then show ?case by (intro recover_running_ok)
qed (simp_all add: event_ok_def schedule_job_ok reconfigure_job_ok cancel_job_ok delete_job_ok claim_job_ok
    finish_success_ok finish_committed_ok finish_failure_ok finish_cancelled_ok finish_skipped_ok)

lemma table_ok_run: "job_run t T evs U \<Longrightarrow> table_ok t T \<Longrightarrow> table_ok t U"
  by (induction rule: job_run.induct) (simp_all add: table_ok_step)

lemma table_ok_Nil [simp]: "table_ok t []"
  by (simp add: table_ok_def)

section \<open>Every reachable row is readable\<close>

definition opt_textual :: "chrono_time \<Rightarrow> instant option \<Rightarrow> bool" where
  "opt_textual t v \<longleftrightarrow> (case v of None \<Rightarrow> True | Some d \<Rightarrow> dt_textual t d)"

lemma opt_textual_simps [simp]: "opt_textual t None" "opt_textual t (Some d) \<longleftrightarrow> dt_textual t d"
  by (simp_all add: opt_textual_def)

lemma row_from_parts_eq:
  assumes "chrono_time_ok t" "row_ok t r"
    and s: "row_cadence r = schedule_token s" "schedule_ok s" and st: "row_state r = job_state_token st"
    and oc: "row_last_outcome r = map_option job_outcome_token oc"
    and nd: "row_next_due_at r = map_option (dt_to_rfc3339 t) nd" "opt_textual t nd"
    and lr: "row_last_run_at r = map_option (dt_to_rfc3339 t) lr" "opt_textual t lr"
  shows "row_from_parts t r = Inr \<lparr>jr_id = row_id r, jr_kind = row_kind r, jr_schedule = s, jr_next_due_at = nd,
      jr_state = st, jr_attempts = row_attempt_count r, jr_max_attempts = row_max_attempts r,
      jr_backoff = \<lparr>bo_initial = row_backoff_initial_seconds r * 1000000000,
        bo_multiplier_bps = row_backoff_multiplier_bps r\<rparr>,
      jr_enabled = (row_enabled r = 1), jr_requires_explicit_opt_in = (row_requires_explicit_opt_in r = 1),
      jr_payload_json = row_payload_json r, jr_last_run_at = lr, jr_last_outcome = oc,
      jr_last_error = row_last_error r, jr_last_unlock_window = row_last_unlock_window r,
      jr_cancel_requested = (row_cancel_requested r = 1)\<rparr>"
proof -
  note c = assms(2) [unfolded row_ok_def row_config_ok_def] and u = assms(2) [unfolded row_ok_def row_runtime_ok_def]
  have p: "parse_timestamp t (map_option (dt_to_rfc3339 t) d) f = Inr d" if "opt_textual t d" for d f
    using that assms(1) by (cases d) (simp_all add: parse_timestamp_def)
  have k: "trim (row_kind r) \<noteq> []" "\<not> 64 < length (text_bytes (row_kind r))" "list_all is_kind_byte (text_bytes (row_kind r))"
    using c validate_job_kind_Inr [of "row_kind r" "()"] by (auto simp: validate_job_kind_def split: if_splits)
  have o: "parse_last_outcome (row_last_outcome r) = Inr oc"
    by (cases oc) (simp_all add: parse_last_outcome_def oc store_fault_def job_outcome_parse_iff [THEN iffD2])
  have e: "map_option sanitize_error (row_last_error r) = row_last_error r"
    using u by (cases "row_last_error r") (simp_all add: error_text_ok_def)
  have n: "u32_try (row_attempt_count r) = Some (row_attempt_count r)" "u32_try (row_max_attempts r) = Some (row_max_attempts r)"
    "u32_try (row_backoff_multiplier_bps r) = Some (row_backoff_multiplier_bps r)"
    "duration_seconds (row_backoff_initial_seconds r) = Some (row_backoff_initial_seconds r * 1000000000)"
    using c u by (auto simp: u32_try_def duration_seconds_def)
  have b: "row_enabled r \<noteq> 0 \<longleftrightarrow> row_enabled r = 1" "row_requires_explicit_opt_in r \<noteq> 0 \<longleftrightarrow> row_requires_explicit_opt_in r = 1"
    "row_cancel_requested r \<noteq> 0 \<longleftrightarrow> row_cancel_requested r = 1"
    using c u by (auto simp: cancel_flag_ok_def)
  have v: "\<not> (row_backoff_initial_seconds r < 0 \<or> row_backoff_multiplier_bps r < 10000 \<or> row_max_attempts r = 0)"
    using c by auto
  show ?thesis
    unfolding row_from_parts_def o e b n nd(1) lr(1) s(1) st
    by (simp add: k v n p [OF nd(2)] p [OF lr(2)] schedule_parse_token [OF s(2)] store_fault_def
        job_state_parse_iff [THEN iffD2, OF refl])
qed

lemma row_parts:
  assumes "row_ok t r"
  obtains s st oc nd lr where "row_cadence r = schedule_token s" "schedule_ok s" "row_state r = job_state_token st"
    "row_last_outcome r = map_option job_outcome_token oc"
    "row_next_due_at r = map_option (dt_to_rfc3339 t) nd" "opt_textual t nd"
    "row_last_run_at r = map_option (dt_to_rfc3339 t) lr" "opt_textual t lr"
proof -
  note c = assms(1) [unfolded row_ok_def row_config_ok_def] and u = assms(1) [unfolded row_ok_def row_runtime_ok_def]
  obtain s where s: "schedule_ok s" "row_cadence r = schedule_token s" using c by blast
  obtain st where st: "row_state r = job_state_token st" using u by (auto simp: state_text_ok_def)
  have "\<exists>oc. v = map_option job_outcome_token oc" if "outcome_text_ok v" for v
    using that by (auto simp: outcome_text_ok_def intro: exI [of _ None] exI [of _ "Some x" for x])
  then obtain oc where oc: "row_last_outcome r = map_option job_outcome_token oc" using u by blast
  have stamp: "\<exists>d. v = map_option (dt_to_rfc3339 t) d \<and> opt_textual t d" if "stamp_ok t v" for v
    using that by (cases v) (auto simp: stamp_ok_def intro: exI [of _ None] exI [of _ "Some x" for x])
  obtain nd where nd: "row_next_due_at r = map_option (dt_to_rfc3339 t) nd" "opt_textual t nd" using u stamp by blast
  obtain lr where lr: "row_last_run_at r = map_option (dt_to_rfc3339 t) lr" "opt_textual t lr" using u stamp by blast
  show thesis by (rule that [OF s(2,1) st oc nd lr])
qed

text \<open>The record a well-formed row is read as.\<close>

definition row_view :: "chrono_time \<Rightarrow> job_row \<Rightarrow> job_record" where
  "row_view t r = projr (row_from_parts t r)"

lemma row_view:
  assumes "chrono_time_ok t" "row_ok t r"
  shows "row_from_parts t r = Inr (row_view t r)"
    and "jr_id (row_view t r) = row_id r" "jr_kind (row_view t r) = row_kind r"
    and "job_state_token (jr_state (row_view t r)) = row_state r"
    and "jr_attempts (row_view t r) = row_attempt_count r" "jr_enabled (row_view t r) \<longleftrightarrow> row_enabled r = 1"
    and "jr_last_unlock_window (row_view t r) = row_last_unlock_window r"
    and "row_next_due_at r = map_option (dt_to_rfc3339 t) (jr_next_due_at (row_view t r))"
    and "opt_textual t (jr_next_due_at (row_view t r))"
    and "schedule_token (jr_schedule (row_view t r)) = row_cadence r \<and> schedule_ok (jr_schedule (row_view t r))"
proof -
  from row_parts [OF assms(2)] obtain s st oc nd lr where p: "row_cadence r = schedule_token s" "schedule_ok s"
    "row_state r = job_state_token st" "row_last_outcome r = map_option job_outcome_token oc"
    "row_next_due_at r = map_option (dt_to_rfc3339 t) nd" "opt_textual t nd"
    "row_last_run_at r = map_option (dt_to_rfc3339 t) lr" "opt_textual t lr" .
  show "row_from_parts t r = Inr (row_view t r)"
    and "jr_id (row_view t r) = row_id r" "jr_kind (row_view t r) = row_kind r"
    and "job_state_token (jr_state (row_view t r)) = row_state r"
    and "jr_attempts (row_view t r) = row_attempt_count r" "jr_enabled (row_view t r) \<longleftrightarrow> row_enabled r = 1"
    and "jr_last_unlock_window (row_view t r) = row_last_unlock_window r"
    and "row_next_due_at r = map_option (dt_to_rfc3339 t) (jr_next_due_at (row_view t r))"
    and "opt_textual t (jr_next_due_at (row_view t r))"
    and "schedule_token (jr_schedule (row_view t r)) = row_cadence r \<and> schedule_ok (jr_schedule (row_view t r))"
    using row_from_parts_eq [OF assms p] p by (simp_all add: row_view_def)
qed

lemma rows_from_query_ok:
  assumes "chrono_time_ok t" "\<forall>r \<in> set rs. row_ok t r"
  shows "rows_from_query t rs = Inr (map (row_view t) rs)"
proof -
  have "map_res (row_from_parts t) rs = Inr (map (row_view t) rs)"
    using assms by (induction rs) (simp_all add: row_view(1))
  then show ?thesis using assms by (auto simp: rows_from_query_def list_ex_iff row_view(1))
qed

lemma durable_job_view:
  "chrono_time_ok t \<Longrightarrow> table_ok t T \<Longrightarrow> durable_job t i T = Inr (map_option (row_view t) (sql_find i T))"
  by (cases "sql_find i T") (auto simp: durable_job_def row_view(1) table_ok_def dest!: sql_find_Some)

lemma row_ok_checks: "row_ok t r \<Longrightarrow> durable_jobs_checks r \<and> commit_marker_checks r"
  by (auto simp only: row_ok_def row_config_ok_def row_runtime_ok_def durable_jobs_checks_def commit_marker_checks_def
      state_text_ok_iff outcome_text_ok_iff cancel_flag_ok_def marker_ok_def)

section \<open>The life of one job\<close>

text \<open>
  The machine the table refines: what each statement may do to the state of the job \<open>i\<close>, \<open>None\<close>
  being a job that does not exist.  A running job is left only by its terminal write or by recovery.
\<close>

inductive lifecycle :: "128 word \<Rightarrow> job_event \<Rightarrow> job_state option \<Rightarrow> job_state option \<Rightarrow> bool" for i where
  keep: "lifecycle i ev p p"
| create: "spec_id spec = i \<Longrightarrow> lifecycle i (Ev_Schedule now spec) None (Some Queued)"
| create': "spec_id spec = i \<Longrightarrow> lifecycle i (Ev_Reconfigure now spec) None (Some Queued)"
| reset: "spec_id spec = i \<Longrightarrow> s \<noteq> Running \<Longrightarrow> lifecycle i (Ev_Reconfigure now spec) (Some s) (Some Queued)"
| withdraw: "s \<in> {Queued, State_Succeeded} \<Longrightarrow> lifecycle i (Ev_Cancel now i) (Some s) (Some State_Cancelled)"
| remove: "s \<noteq> Running \<Longrightarrow> lifecycle i (Ev_Delete i) (Some s) None"
| claim: "s \<in> {Queued, State_Succeeded} \<Longrightarrow> lifecycle i (Ev_Claim i a now w) (Some s) (Some Running)"
| recover: "s \<noteq> Running \<Longrightarrow> lifecycle i (Ev_Recover now) (Some Running) (Some s)"
| succeed: "jr_id j = i \<Longrightarrow> lifecycle i (Ev_Success j now d) (Some Running) (Some State_Succeeded)"
| commit: "jr_id j = i \<Longrightarrow> lifecycle i (Ev_Committed j now d) (Some Running) (Some State_Succeeded)"
| fail: "jr_id j = i \<Longrightarrow> s \<in> {Running, Queued, State_Succeeded} \<Longrightarrow>
    lifecycle i (Ev_Failure j now f None) (Some s) (Some State_Failed)"
| retry: "jr_id j = i \<Longrightarrow> s \<in> {Running, Queued, State_Succeeded} \<Longrightarrow>
    lifecycle i (Ev_Failure j now f (Some d)) (Some s) (Some Queued)"
| stop: "jr_id j = i \<Longrightarrow> lifecycle i (Ev_Cancelled j now reason) (Some Running) (Some State_Cancelled)"
| skip: "jr_id j = i \<Longrightarrow> lifecycle i (Ev_Skipped j now) (Some Running) (Some Queued)"

inductive lifecycle_run :: "128 word \<Rightarrow> job_state option \<Rightarrow> job_event list \<Rightarrow> job_state option \<Rightarrow> bool" for i where
  life_nil: "lifecycle_run i p [] p"
| life_cons: "lifecycle i ev p q \<Longrightarrow> lifecycle_run i q evs r \<Longrightarrow> lifecycle_run i p (ev # evs) r"

definition state_of :: "job_row \<Rightarrow> job_state option" where
  "state_of r = (case job_state_parse (row_state r) of Inl _ \<Rightarrow> None | Inr s \<Rightarrow> Some s)"

definition phase :: "128 word \<Rightarrow> job_table \<Rightarrow> job_state option" where
  "phase i T = Option.bind (sql_find i T) state_of"

lemma state_of_eq: "row_state r = job_state_token s \<Longrightarrow> state_of r = Some s"
  by (simp add: state_of_def job_state_parse_iff [THEN iffD2])

lemma state_of_token:
  "row_state r = ''queued'' \<Longrightarrow> state_of r = Some Queued" "row_state r = ''running'' \<Longrightarrow> state_of r = Some Running"
  "row_state r = ''succeeded'' \<Longrightarrow> state_of r = Some State_Succeeded" "row_state r = ''failed'' \<Longrightarrow> state_of r = Some State_Failed"
  "row_state r = ''cancelled'' \<Longrightarrow> state_of r = Some State_Cancelled"
  by (rule state_of_eq; simp)+

lemma state_of_some: "row_ok t r \<Longrightarrow> \<exists>s. state_of r = Some s \<and> row_state r = job_state_token s"
  by (auto simp: row_ok_def row_runtime_ok_def state_text_ok_def intro: state_of_eq)

lemma token_running: "job_state_token s = ''running'' \<longleftrightarrow> s = Running"
  by (cases s) simp_all

lemma phase_update:
  assumes "\<And>r. row_id (f r) = row_id r"
    and "\<And>r. sql_find i T = Some r \<Longrightarrow> P r \<Longrightarrow> lifecycle i ev (state_of r) (state_of (f r))"
  shows "lifecycle i ev (phase i T) (phase i (sql_update P f T))"
  using assms by (cases "sql_find i T") (auto simp: phase_def sql_find_update lifecycle.keep)

lemma table_ok_find: "table_ok t T \<Longrightarrow> sql_find i T = Some r \<Longrightarrow> row_ok t r \<and> row_id r = i"
  by (auto simp: table_ok_def dest: sql_find_Some)

lemma idle_state:
  "row_state r \<in> {''queued'', ''succeeded''} \<Longrightarrow> \<exists>s \<in> {Queued, State_Succeeded}. state_of r = Some s"
  by (auto simp only: insert_iff empty_iff dest: state_of_token)

lemma active_state:
  "row_state r \<in> {''running'', ''queued'', ''succeeded''} \<Longrightarrow> \<exists>s \<in> {Running, Queued, State_Succeeded}. state_of r = Some s"
  by (auto simp only: insert_iff empty_iff dest: state_of_token)

lemma phase_schedule:
  assumes "table_ok t T"
  shows "lifecycle i (Ev_Schedule now spec) (phase i T) (phase i (snd (schedule_job t now spec T)))"
proof (cases "job_spec_validate spec")
  case (Inr u)
  have s: "state_of (configure_row n r) = state_of r" for n r by (simp add: state_of_def)
  have q: "state_of (inserted_row t n spec) = Some Queued" for n by (rule state_of_token) simp
  show ?thesis
    by (cases "sql_find i T")
      (auto simp: schedule_job_def Inr Let_def phase_def sql_find_upsert s q intro: lifecycle.keep lifecycle.create)
qed (simp add: schedule_job_def lifecycle.keep)

lemma phase_reconfigure:
  assumes "table_ok t T"
  shows "lifecycle i (Ev_Reconfigure now spec) (phase i T) (phase i (snd (reconfigure_job t now spec T)))"
proof (cases "job_spec_validate spec")
  case (Inr u)
  have s: "state_of (reset_row r) = Some Queued" for r by (rule state_of_token) simp
  have q: "state_of (inserted_row t n spec) = Some Queued" for n by (rule state_of_token) simp
  have r: "\<exists>s. s \<noteq> Running \<and> state_of r = Some s"
    if "\<not> list_ex (\<lambda>r. row_id r = spec_id spec \<and> row_state r = ''running'') T" "sql_find (spec_id spec) T = Some r" for r
    using that state_of_some [of t r] table_ok_find [OF assms that(2)] sql_find_Some [OF that(2)]
    by (auto simp: list_ex_iff token_running)
  show ?thesis
  proof (cases "list_ex (\<lambda>r. row_id r = spec_id spec \<and> row_state r = ''running'') T")
    case True
    then show ?thesis by (simp add: reconfigure_job_def Inr lifecycle.keep)
  next
    case False
    then have e: "phase i (snd (reconfigure_job t now spec T)) =
        (if i = spec_id spec then Some Queued else phase i T)"
      by (simp add: reconfigure_job_def Inr Let_def phase_def sql_find_upsert s q split: option.split)
    show ?thesis
    proof (cases "i = spec_id spec \<and> sql_find i T \<noteq> None")
      case True
      then obtain x s where "sql_find (spec_id spec) T = Some x" "s \<noteq> Running" "state_of x = Some s" using r [OF False] by auto
      with True show ?thesis unfolding e by (simp add: phase_def lifecycle.reset)
    next
      case False
      then show ?thesis unfolding e by (auto simp: phase_def intro: lifecycle.keep lifecycle.create')
    qed
  qed
qed (simp add: reconfigure_job_def lifecycle.keep)

lemma phase_delete:
  assumes "table_ok t T"
  shows "lifecycle i (Ev_Delete k) (phase i T) (phase i (snd (delete_job k T)))"
proof (cases "i = k")
  case False
  then show ?thesis unfolding delete_job_def Let_def phase_def snd_conv sql_find_filter_id by (simp add: lifecycle.keep)
next
  case True
  have gone: "find (\<lambda>r. row_id r = k \<and> row_state r = ''running'') T =
      (case sql_find k T of None \<Rightarrow> None | Some r \<Rightarrow> if row_state r = ''running'' then Some r else None)"
    using assms unfolding table_ok_def
  proof (induction T)
    case (Cons r T)
    then have "sql_find (row_id r) T = None" by (simp add: sql_find_None)
    with Cons show ?case by (auto split: option.splits)
  qed simp
  show ?thesis
  proof (cases "sql_find k T")
    case None
    then show ?thesis unfolding delete_job_def Let_def phase_def snd_conv sql_find_filter_id
      using True gone by (simp add: lifecycle.keep)
  next
    case (Some r)
    then obtain s where s: "state_of r = Some s" "row_state r = job_state_token s"
      using state_of_some table_ok_find [OF assms] by blast
    show ?thesis unfolding delete_job_def Let_def phase_def snd_conv sql_find_filter_id
      using True gone Some s by (auto simp: token_running intro: lifecycle.keep lifecycle.remove)
  qed
qed

lemma phase_leave_running:
  assumes "U = sql_update (\<lambda>r. P r \<and> row_state r = ''running'') f T"
    and "\<And>r. row_id (f r) = row_id r" "\<And>r. state_of (f r) = Some st" "st \<noteq> Running"
  shows "phase i U = phase i T \<or> phase i T = Some Running \<and> (\<exists>s. s \<noteq> Running \<and> phase i U = Some s)"
  using assms by (cases "sql_find i T") (auto simp: phase_def sql_find_update state_of_token)

lemma recovered_states:
  "state_of (recover_failed_row n r) = Some State_Failed" "state_of (succeeded_row d n r) = Some State_Succeeded"
  "state_of (recover_requeued_row n r) = Some Queued" "state_of (recover_cancelled_row n r) = Some State_Cancelled"
  by (rule state_of_token; simp)+

lemma phase_recover_row:
  assumes "recover_committed_row t now (k, cadence, outcome) T = Some (n, U)"
  shows "phase i U = phase i T \<or> phase i T = Some Running \<and> (\<exists>s. s \<noteq> Running \<and> phase i U = Some s)"
proof (cases "outcome = ''failed''")
  case True
  with assms have "U = sql_update (\<lambda>r. row_id r = k \<and> row_state r = ''running'')
      (recover_failed_row (dt_to_rfc3339 t now)) T"
    by (simp add: recover_committed_row_def Let_def)
  then show ?thesis by (rule phase_leave_running [OF _ _ recovered_states(1)]) simp_all
next
  case False
  with assms obtain d where "U = sql_update (\<lambda>r. row_id r = k \<and> row_state r = ''running'')
      (succeeded_row d (dt_to_rfc3339 t now)) T"
    by (auto simp: recover_committed_row_def Let_def split: option.splits)
  then show ?thesis by (rule phase_leave_running [OF _ _ recovered_states(2)]) simp_all
qed

lemma phase_recover_committed:
  "recover_committed t now es n T = Some (m, U) \<Longrightarrow>
   phase i U = phase i T \<or> phase i T = Some Running \<and> (\<exists>s. s \<noteq> Running \<and> phase i U = Some s)"
proof (induction es arbitrary: n T)
  case (Cons e es)
  obtain k cadence outcome where e: "e = (k, cadence, outcome)" by (cases e) auto
  from Cons.prems obtain l V where v: "recover_committed_row t now e T = Some (l, V)" "recover_committed t now es (n + l) V = Some (m, U)"
    by (auto split: option.splits)
  from phase_recover_row [OF v(1) [unfolded e], of i] Cons.IH [OF v(2)] show ?case by auto
qed simp

lemma phase_recover: "lifecycle i (Ev_Recover now) (phase i T) (phase i (snd (recover_running t now T)))"
proof -
  let ?n = "dt_to_rfc3339 t now"
  have "phase i (snd (recover_running t now T)) = phase i T \<or>
      phase i T = Some Running \<and> (\<exists>s. s \<noteq> Running \<and> phase i (snd (recover_running t now T)) = Some s)"
  proof (cases "map_res committed_entry
      (filter (\<lambda>r. row_state r = ''running'' \<and> row_cancel_requested r = 1 \<and> row_committed_at r \<noteq> None) T)")
    case (Inr es)
    show ?thesis
    proof (cases "recover_committed t now es 0 T")
      case (Some q)
      then obtain n V where v: "recover_committed t now es 0 T = Some (n, V)" by (cases q) auto
      define W where "W = sql_update (\<lambda>r. row_state r = ''running'' \<and> row_cancel_requested r = 1 \<and> row_committed_at r = None)
            (recover_cancelled_row ?n) V"
      have e: "snd (recover_running t now T) =
          sql_update (\<lambda>r. row_state r = ''running'' \<and> row_cancel_requested r = 0) (recover_requeued_row ?n) W"
        using Inr v unfolding recover_running_def W_def by (simp add: Let_def)
      have "phase i W = phase i V \<or> phase i V = Some Running \<and> (\<exists>s. s \<noteq> Running \<and> phase i W = Some s)"
        by (rule phase_leave_running [OF _ _ recovered_states(4),
              where P = "\<lambda>r. row_cancel_requested r = 1 \<and> row_committed_at r = None"])
          (simp_all add: W_def conj_ac)
      moreover have "phase i (snd (recover_running t now T)) = phase i W \<or>
          phase i W = Some Running \<and> (\<exists>s. s \<noteq> Running \<and> phase i (snd (recover_running t now T)) = Some s)"
        unfolding e by (rule phase_leave_running [OF _ _ recovered_states(3), where P = "\<lambda>r. row_cancel_requested r = 0"])
          (simp_all add: conj_ac)
      ultimately show ?thesis using phase_recover_committed [OF v, of i] by auto
    qed (simp add: recover_running_def Inr [simplified])
  qed (simp add: recover_running_def)
  then show ?thesis by (auto intro: lifecycle.keep lifecycle.recover)
qed

lemma lifecycle_same_state: "row_state q = row_state r \<Longrightarrow> lifecycle i ev (state_of r) (state_of q)"
  by (simp add: state_of_def lifecycle.keep)

lemma lifecycle_step:
  assumes "job_step t T ev U" "table_ok t T"
  shows "lifecycle i ev (phase i T) (phase i U)"
  using assms
proof (induction rule: job_step.induct)
  case (cancel T now k)
  show ?case unfolding cancel_job_def Let_def snd_conv
  proof (rule phase_update, simp)
    fix r assume r: "sql_find i T = Some r" "row_id r = k \<and> row_state r \<notin> {''failed'', ''cancelled''}"
    let ?f = "r\<lparr>row_state := (if row_state r = ''running'' then row_state r else ''cancelled''),
      row_last_outcome := (if row_state r = ''running'' then row_last_outcome r else Some ''cancelled''),
      row_last_error := (if row_state r = ''running'' then row_last_error r else Some (ascii ''cancelled by user'')),
      row_cancel_requested := 1, row_updated_at := dt_to_rfc3339 t now\<rparr>"
    obtain s where s: "state_of r = Some s" "row_state r = job_state_token s"
      using r state_of_some table_ok_find [OF cancel] by blast
    have "i = k" using r sql_find_Some by auto
    show "lifecycle i (Ev_Cancel now k) (state_of r) (state_of ?f)"
    proof (cases "s = Running")
      case True
      then have "state_of ?f = state_of r" using s by (simp add: state_of_def)
      then show ?thesis by (simp only: lifecycle.keep)
    next
      case False
      then have "state_of ?f = Some State_Cancelled" using s token_running by (intro state_of_token(5)) simp
      moreover have "s \<in> {Queued, State_Succeeded}" using False r(2) s(2) by (cases s) simp_all
      ultimately show ?thesis using s(1) \<open>i = k\<close> by (simp only: lifecycle.withdraw)
    qed
  qed
next
  case (mark T k stamp outcome)
  show ?case
    by (cases outcome) (auto simp: mark_committed_def Let_def intro!: phase_update lifecycle_same_state)
next
  case (claim T k a now w)
  show ?case unfolding claim_job_def Let_def snd_conv
    by (rule phase_update)
      (auto simp: state_of_token simp del: insert_iff dest!: idle_state sql_find_Some intro: lifecycle.claim)
next
  case (success T j now d)
  show ?case unfolding finish_success_def Let_def snd_conv
    by (rule phase_update) (auto simp: state_of_token dest!: sql_find_Some intro: lifecycle.succeed)
next
  case (committed T j now d)
  show ?case unfolding finish_committed_def Let_def snd_conv
    by (rule phase_update) (auto simp: state_of_token dest!: sql_find_Some intro: lifecycle.commit)
next
  case (failure T j now f d)
  show ?case unfolding finish_failure_def Let_def snd_conv
    by (rule phase_update, simp, cases d)
      (auto simp: state_of_token simp del: insert_iff dest!: active_state sql_find_Some intro: lifecycle.fail lifecycle.retry)
next
  case (cancelled T j now reason)
  show ?case unfolding finish_cancelled_def Let_def snd_conv
    by (rule phase_update) (auto simp: state_of_token dest!: sql_find_Some intro: lifecycle.stop)
next
  case (skipped T j now)
  show ?case unfolding finish_skipped_def Let_def snd_conv
    by (rule phase_update) (auto simp: state_of_token dest!: sql_find_Some intro: lifecycle.skip)
qed (simp_all add: phase_schedule phase_reconfigure phase_delete phase_recover)

section \<open>A time library to compute with\<close>

text \<open>
  An instance of the time parameter for the witnesses: months of thirty days, and texts of thirty
  decimal digits, which sort as the numbers do.
\<close>

primrec fixed_text :: "nat \<Rightarrow> nat \<Rightarrow> string" where
  "fixed_text 0 x = []"
| "fixed_text (Suc n) x = digit_char (x div 10 ^ n) # fixed_text n (x mod 10 ^ n)"

definition decimal_time :: chrono_time where
  "decimal_time = \<lparr>dt_min = 0, dt_max = 10 ^ 30 - 1, dt_text_min = 0, dt_text_max = 10 ^ 30 - 1,
     dt_checked_add_months = (\<lambda>i n. let j = i + n * 2592000000000000 in if j < 10 ^ 30 then Some j else None),
     dt_to_rfc3339 = (\<lambda>i. fixed_text 30 (nat i)), dt_parse_rfc3339 = (\<lambda>s. Some (int (digits_value s)))\<rparr>"

lemma digits_value_Cons: "digits_value (c # s) = (of_char c - 48) * 10 ^ length s + digits_value s"
proof (induction s rule: rev_induct)
  case (snoc d s)
  then show ?case using digits_value_snoc [of "c # s" d] digits_value_snoc [of s d] by (simp add: algebra_simps)
qed (simp add: digits_value_def)

lemma length_fixed_text [simp]: "length (fixed_text n x) = n"
  by (induction n arbitrary: x) simp_all

lemma div_pow10: "x < 10 ^ Suc n \<Longrightarrow> x div 10 ^ n < (10 :: nat)"
  by (simp add: less_mult_imp_div_less mult.commute)

lemma digits_value_fixed_text: "x < 10 ^ n \<Longrightarrow> digits_value (fixed_text n x) = x"
proof (induction n arbitrary: x)
  case (Suc n)
  then show ?case using div_pow10 [OF Suc.prems] div_mult_mod_eq [of x "10 ^ n"] by (simp add: digits_value_Cons of_char_digit)
qed (simp add: digits_value_def)

lemma digit_char_le:
  assumes "a < 10" "b < 10"
  shows "digit_char a < digit_char b \<longleftrightarrow> a < b" "digit_char a = digit_char b \<longleftrightarrow> a = b"
proof -
  show "digit_char a < digit_char b \<longleftrightarrow> a < b" using assms by (simp add: less_char_def of_char_digit)
  show "digit_char a = digit_char b \<longleftrightarrow> a = b" using of_char_digit [OF assms(1)] of_char_digit [OF assms(2)] by (metis add_left_cancel)
qed

lemma le_by_div_mod: "x \<le> y \<longleftrightarrow> x div b < y div b \<or> (x div b = y div b \<and> x mod b \<le> y mod b)" for x y b :: nat
proof (cases "x div b = y div b")
  case True
  then show ?thesis by (metis div_mult_mod_eq nat_add_left_cancel_le less_irrefl)
next
  case False
  then show ?thesis using div_le_mono [of x y b] div_le_mono [of y x b] by linarith
qed

lemma fixed_text_le: "x < 10 ^ n \<Longrightarrow> y < 10 ^ n \<Longrightarrow> fixed_text n x \<le> fixed_text n y \<longleftrightarrow> x \<le> y"
proof (induction n arbitrary: x y)
  case (Suc n)
  have d: "x div 10 ^ n < 10" "y div 10 ^ n < 10" using Suc.prems by (auto intro: div_pow10)
  have "fixed_text (Suc n) x \<le> fixed_text (Suc n) y \<longleftrightarrow>
      x div 10 ^ n < y div 10 ^ n \<or> (x div 10 ^ n = y div 10 ^ n \<and> x mod 10 ^ n \<le> y mod 10 ^ n)"
    using Suc.IH [of "x mod 10 ^ n" "y mod 10 ^ n"] digit_char_le [OF d] by simp
  then show ?case unfolding le_by_div_mod [of x y "10 ^ n"] .
qed simp

lemma decimal_time_ok: "chrono_time_ok decimal_time"
proof -
  have n: "nat i < 10 ^ 30 \<longleftrightarrow> i < 10 ^ 30" if "0 \<le> i" for i using that by (simp add: nat_less_iff)
  show ?thesis
    unfolding chrono_time_ok_def
  proof (intro conjI allI impI)
    fix i assume "dt_textual decimal_time i"
    then have "0 \<le> i" "i < 10 ^ 30" by (simp_all add: dt_textual_def decimal_time_def)
    then show "dt_parse_rfc3339 decimal_time (dt_to_rfc3339 decimal_time i) = Some i"
      using digits_value_fixed_text [of "nat i" 30] n [of i] by (simp add: decimal_time_def)
  next
    fix i j assume "dt_textual decimal_time i \<and> dt_textual decimal_time j"
    then have "0 \<le> i" "i < 10 ^ 30" "0 \<le> j" "j < 10 ^ 30" by (simp_all add: dt_textual_def decimal_time_def)
    then show "dt_to_rfc3339 decimal_time i \<le> dt_to_rfc3339 decimal_time j \<longleftrightarrow> i \<le> j"
      using fixed_text_le [of "nat i" 30 "nat j"] n [of i] n [of j] by (simp add: decimal_time_def nat_le_eq_zle)
  qed (auto simp: decimal_time_def dt_valid_def Let_def split: if_splits)
qed

end
