(* ===== verification/Job_Guarantees.thy ===== *)
theory Job_Guarantees
  imports Job_Lifecycle
begin

text \<open>
  What the job table promises its callers, over every sequence of its statements: rows that can be
  read, the life of a job, one claim in an unlock window, the list of due jobs, crash recovery and
  the round trip of a schedule.
\<close>

section \<open>A sample table\<close>

definition sample_spec :: job_spec where
  "sample_spec = \<lparr>spec_id = 7, spec_kind = ascii ''backup'', spec_schedule = Daily, spec_next_due_at = 1000,
     spec_max_attempts = 3, spec_backoff = backoff_default, spec_enabled = True,
     spec_requires_explicit_opt_in = False, spec_payload_json = None\<rparr>"

definition sample_table :: job_table where
  "sample_table = snd (schedule_job decimal_time 500 sample_spec [])"

lemma sample_spec_ok: "spec_ok sample_spec \<and> spec_typed decimal_time sample_spec"
proof -
  have n: "num_seconds 60000000000 = 60" using num_seconds_of_seconds [of 60] by simp
  have "kind_ok (spec_kind sample_spec)" by code_simp
  then show ?thesis
    by (simp add: spec_ok_def spec_typed_def sample_spec_def backoff_default_def n duration_max_seconds_def
        dt_textual_def decimal_time_def)
qed

lemma sample_spec_id: "spec_id sample_spec = 7"
  by (simp add: sample_spec_def)

lemma sample_table_eq: "sample_table = [inserted_row decimal_time (dt_to_rfc3339 decimal_time 500) sample_spec]"
  using sample_spec_ok job_spec_validate_Inr [of sample_spec "()"]
  by (simp add: sample_table_def schedule_job_def sql_upsert_def Let_def)

lemma sample_run: "job_run decimal_time [] [Ev_Schedule 500 sample_spec] sample_table"
  unfolding sample_table_def
  by (rule run_cons [OF _ job_step.schedule run_nil]) (simp add: event_ok_def sample_spec_ok)

lemma reachable_ok: "job_run t [] evs T \<Longrightarrow> table_ok t T"
  by (rule table_ok_run [OF _ table_ok_Nil])

section \<open>Rows that can be read\<close>

text \<open>C22: whatever the callers, the runner and recovery do and in whatever order, the table has one
  row per job, every row satisfies the constraints of the schema and is read without an error, its
  record shows the columns, a commit marker is only on a running row, and a pending cancellation
  only on a running or a cancelled one.\<close>

theorem reachable_rows_readable:
  assumes "chrono_time_ok t" "job_run t [] evs T"
  shows "distinct (map row_id T) \<and>
    (\<forall>r \<in> set T. durable_jobs_checks r \<and> commit_marker_checks r \<and>
       (\<exists>j. row_from_parts t r = Inr j \<and> jr_id j = row_id r \<and> jr_kind j = row_kind r \<and>
          schedule_token (jr_schedule j) = row_cadence r \<and> job_state_token (jr_state j) = row_state r \<and>
          jr_attempts j = row_attempt_count r \<and> kind_ok (jr_kind j)) \<and>
       (row_committed_at r \<noteq> None \<longrightarrow> row_state r = ''running'') \<and>
       (row_cancel_requested r = 1 \<longrightarrow> row_state r \<in> {''running'', ''cancelled''})) \<and>
    (\<exists>js. durable_jobs t T = Inr js \<and> map jr_id js = map row_id (order_by_due T))"
proof -
  have ok: "table_ok t T" using assms(2) by (rule reachable_ok)
  have rows: "durable_jobs_checks r \<and> commit_marker_checks r \<and>
       (\<exists>j. row_from_parts t r = Inr j \<and> jr_id j = row_id r \<and> jr_kind j = row_kind r \<and>
          schedule_token (jr_schedule j) = row_cadence r \<and> job_state_token (jr_state j) = row_state r \<and>
          jr_attempts j = row_attempt_count r \<and> kind_ok (jr_kind j)) \<and>
       (row_committed_at r \<noteq> None \<longrightarrow> row_state r = ''running'') \<and>
       (row_cancel_requested r = 1 \<longrightarrow> row_state r \<in> {''running'', ''cancelled''})" if "r \<in> set T" for r
  proof -
    have r: "row_ok t r" using ok that by (simp add: table_ok_def)
    have "\<exists>j. row_from_parts t r = Inr j \<and> jr_id j = row_id r \<and> jr_kind j = row_kind r \<and>
          schedule_token (jr_schedule j) = row_cadence r \<and> job_state_token (jr_state j) = row_state r \<and>
          jr_attempts j = row_attempt_count r \<and> kind_ok (jr_kind j)"
      using row_view [OF assms(1) r] r by (intro exI [of _ "row_view t r"]) (simp add: row_ok_def row_config_ok_def)
    moreover have "cancel_flag_ok (row_cancel_requested r) (row_state r)" "marker_ok (row_committed_at r) (row_committed_outcome r) (row_state r)"
      using r by (simp_all add: row_ok_def row_runtime_ok_def)
    ultimately show ?thesis using row_ok_checks [OF r] unfolding cancel_flag_ok_def marker_ok_def by blast
  qed
  have js: "\<exists>js. durable_jobs t T = Inr js \<and> map jr_id js = map row_id (order_by_due T)"
  proof -
    have "\<forall>r \<in> set (order_by_due T). row_ok t r" using ok by (simp add: order_by_due_def table_ok_def)
    then show ?thesis using rows_from_query_ok [OF assms(1)] row_view(2) [OF assms(1)]
      by (simp add: durable_jobs_def o_def)
  qed
  have d: "distinct (map row_id T)" using ok by (simp add: table_ok_def)
  show ?thesis by (rule conjI, rule d, rule conjI, rule ballI, erule rows, rule js)
qed

lemma reachable_rows_readable_witness:
  "\<exists>js. durable_jobs decimal_time sample_table = Inr js \<and> map jr_id js = [7]"
proof -
  have "map row_id (order_by_due sample_table) = [7]"
    by (simp add: sample_table_eq order_by_due_def sample_spec_id)
  with reachable_rows_readable [OF decimal_time_ok sample_run, THEN conjunct2, THEN conjunct2] show ?thesis by (simp only:)
qed

section \<open>The life of a job\<close>

text \<open>C2: seen from one job, every sequence of statements on the table is a run of its life cycle: a
  job is created queued, is claimed only when queued or succeeded, leaves the running state only by
  the terminal write of its run or by recovery - never by a new schedule, a new configuration, a
  cancellation or a removal - and a failed or cancelled job comes back only by a new configuration.\<close>

theorem table_refines_lifecycle:
  assumes "job_run t [] evs T"
  shows "lifecycle_run i None evs (phase i T)"
proof -
  have "job_run t U evs T \<Longrightarrow> table_ok t U \<Longrightarrow> lifecycle_run i (phase i U) evs (phase i T)" for U
  proof (induction rule: job_run.induct)
    case (run_cons T ev U evs V)
    then show ?case
      using life_cons [OF lifecycle_step [OF run_cons.hyps(2)] run_cons.IH] table_ok_step [OF run_cons.hyps(2)] by simp
  qed (rule life_nil)
  from this [OF assms] show ?thesis by (simp add: phase_def)
qed

lemma table_refines_lifecycle_witness:
  "lifecycle_run 7 None [Ev_Schedule 500 sample_spec] (phase 7 sample_table)"
  by (rule table_refines_lifecycle [OF sample_run])

section \<open>One claim in an unlock window\<close>

lemma window_kept:
  assumes "job_step t T ev U" "table_ok t T" "sql_find i T = Some r" "row_last_unlock_window r = Some w"
    and "case ev of Ev_Delete k \<Rightarrow> k \<noteq> i | Ev_Reconfigure now spec \<Rightarrow> spec_id spec \<noteq> i
      | Ev_Claim k a now v \<Rightarrow> k = i \<longrightarrow> v = w | _ \<Rightarrow> True"
  shows "\<exists>q. sql_find i U = Some q \<and> row_last_unlock_window q = Some w"
  using assms
proof (induction rule: job_step.induct)
  case (schedule T now spec)
  then show ?case
    by (cases "job_spec_validate spec") (auto simp: schedule_job_def Let_def sql_find_upsert)
next
  case (reconfigure T now spec)
  then show ?case
    by (cases "job_spec_validate spec") (auto simp: reconfigure_job_def Let_def sql_find_upsert)
next
  case (delete T k)
  then have "k \<noteq> i" by simp
  then show ?case using delete unfolding delete_job_def Let_def snd_conv sql_find_filter_id by simp
next
  case (mark T k stamp outcome)
  then show ?case by (cases outcome) (auto simp: mark_committed_def Let_def sql_find_update)
next
  case (recover T now)
  have u: "\<exists>q. sql_find i (sql_update P f T) = Some q \<and> row_last_unlock_window q = Some w"
    if "\<And>r. row_id (f r) = row_id r" "\<And>r. row_last_unlock_window (f r) = row_last_unlock_window r"
      "\<exists>r. sql_find i T = Some r \<and> row_last_unlock_window r = Some w" for P f and T :: job_table
  proof -
    from that(3) obtain r where "sql_find i T = Some r" "row_last_unlock_window r = Some w" by blast
    then show ?thesis using that(1,2) by (intro exI [of _ "if P r then f r else r"]) (simp add: sql_find_update)
  qed
  have x: "row_last_unlock_window (recover_failed_row n r) = row_last_unlock_window r"
    "row_last_unlock_window (succeeded_row d n r) = row_last_unlock_window r"
    "row_last_unlock_window (recover_cancelled_row n r) = row_last_unlock_window r"
    "row_last_unlock_window (recover_requeued_row n r) = row_last_unlock_window r" for n d r
    by (simp_all add: recover_failed_row_def succeeded_row_def recover_cancelled_row_def recover_requeued_row_def clear_marker_def)
  have loop: "recover_committed t now es n T = Some (m, V) \<Longrightarrow> \<exists>r. sql_find i T = Some r \<and> row_last_unlock_window r = Some w \<Longrightarrow>
      \<exists>r. sql_find i V = Some r \<and> row_last_unlock_window r = Some w" for es n m V T
  proof (induction es arbitrary: n T)
    case (Cons e es)
    obtain k c out where e: "e = (k, c, out)" by (cases e) auto
    from Cons.prems(1) obtain l W where l: "recover_committed_row t now e T = Some (l, W)" "recover_committed t now es (n + l) W = Some (m, V)"
      by (auto split: option.splits)
    have "\<exists>r. sql_find i W = Some r \<and> row_last_unlock_window r = Some w"
      using l(1) u [OF _ x(1) Cons.prems(2)] u [OF _ x(2) Cons.prems(2)]
      by (auto simp: e recover_committed_row_def Let_def split: if_splits option.splits)
    then show ?case by (rule Cons.IH [OF l(2)])
  qed simp
  show ?case
    using recover.prems(2,3) loop u [OF _ x(3)] u [OF _ x(4)]
    by (auto simp: recover_running_def Let_def split: sum.split option.split)
next
  case (claim T k a now v)
  then show ?case using sql_find_Some [OF claim(2)] by (auto simp: claim_job_def Let_def sql_find_update)
qed (auto simp: cancel_job_def finish_success_def finish_committed_def finish_failure_def finish_cancelled_def
    finish_skipped_def succeeded_row_def clear_marker_def Let_def sql_find_update)

lemma claim_sets_window:
  assumes "table_ok t T" "claim_job t i a now w T = (True, U)"
  shows "\<exists>r. sql_find i U = Some r \<and> row_last_unlock_window r = Some w \<and> row_state r = ''running''"
proof -
  let ?P = "\<lambda>r. row_state r \<in> {''queued'', ''succeeded''} \<and> row_attempt_count r = a - 1 \<and> row_last_unlock_window r \<noteq> Some w"
  have "sql_count (\<lambda>r. row_id r = i \<and> ?P r) T \<noteq> 0" using assms(2) by (simp add: claim_job_def Let_def)
  then obtain r where "sql_find i T = Some r" "?P r"
    using sql_count_one [of T i ?P] assms(1) by (auto simp: table_ok_def split: option.splits if_splits)
  then show ?thesis using assms(2) sql_find_Some [of i T r]
    by (auto simp: claim_job_def Let_def sql_find_update)
qed

text \<open>C13: once a job has been claimed in an unlock window, whatever happens to the table afterwards -
  its run finishing, failing, being cancelled or skipped, a crash and its recovery, new schedules -
  no later claim in the same window succeeds and the job is not listed as due in it, until the job
  is removed or configured anew or claimed in another window.\<close>

theorem one_claim_per_window:
  assumes "chrono_time_ok t" "job_run t [] before T" "claim_job t i a now w T = (True, T1)"
    and "0 \<le> a" "a < 4294967296" "dt_textual t now" "job_run t T1 evs T2"
    and "\<forall>ev \<in> set evs. case ev of Ev_Delete k \<Rightarrow> k \<noteq> i | Ev_Reconfigure now spec \<Rightarrow> spec_id spec \<noteq> i
      | Ev_Claim k a now v \<Rightarrow> k = i \<longrightarrow> v = w | _ \<Rightarrow> True"
  shows "\<not> fst (claim_job t i a' now' w T2) \<and>
    (\<forall>js. due_jobs t now' w T2 = Inr js \<longrightarrow> i \<notin> jr_id ` set js)"
proof -
  have ok: "table_ok t T" using assms(2) by (rule reachable_ok)
  then have ok1: "table_ok t T1" using claim_job_ok [OF ok assms(4-6), of i w] assms(3) by simp
  have run: "job_run t U es V \<Longrightarrow> table_ok t U \<Longrightarrow> \<exists>r. sql_find i U = Some r \<and> row_last_unlock_window r = Some w \<Longrightarrow>
      (\<forall>ev \<in> set es. case ev of Ev_Delete k \<Rightarrow> k \<noteq> i | Ev_Reconfigure now spec \<Rightarrow> spec_id spec \<noteq> i
        | Ev_Claim k a now v \<Rightarrow> k = i \<longrightarrow> v = w | _ \<Rightarrow> True) \<Longrightarrow>
      \<exists>r. sql_find i V = Some r \<and> row_last_unlock_window r = Some w" for U es V
  proof (induction rule: job_run.induct)
    case (run_cons T ev U evs V)
    have "\<exists>q. sql_find i U = Some q \<and> row_last_unlock_window q = Some w"
      using run_cons.prems window_kept [OF run_cons.hyps(2)] by auto
    then show ?case using run_cons.IH table_ok_step [OF run_cons.hyps(2)] run_cons.hyps(1) run_cons.prems by simp
  qed simp
  have ok2: "table_ok t T2" using table_ok_run [OF assms(7) ok1] .
  obtain r where r: "sql_find i T2 = Some r" "row_last_unlock_window r = Some w"
    using run [OF assms(7) ok1 _ assms(8)] claim_sets_window [OF ok assms(3)] by blast
  have u: "row_last_unlock_window q = Some w" if "q \<in> set T2" "row_id q = i" for q
    using sql_find_in [of T2 q] that r ok2 by (simp add: table_ok_def)
  have "\<not> fst (claim_job t i a' now' w T2)"
    using u by (auto simp: claim_job_def Let_def sql_count_zero_iff)
  moreover have "i \<notin> jr_id ` set js" if d: "due_jobs t now' w T2 = Inr js" for js
  proof -
    define rs where "rs = order_by_due (filter (row_due (dt_to_rfc3339 t now') w) T2)"
    have rs: "set rs \<subseteq> set T2" "\<forall>r \<in> set rs. row_last_unlock_window r \<noteq> Some w"
      by (auto simp: rs_def order_by_due_def row_due_def)
    have "js = map (row_view t) rs"
      using d rows_from_query_ok [OF assms(1), of rs] rs(1) ok2 by (auto simp: due_jobs_def rs_def [symmetric] table_ok_def)
    moreover have "jr_id (row_view t r) = row_id r" if "r \<in> set rs" for r
      using that rs(1) ok2 row_view(2) [OF assms(1), of r] by (auto simp: table_ok_def)
    ultimately have "jr_id ` set js = row_id ` set rs" by (simp add: image_image cong: image_cong)
    then show ?thesis using u rs by auto
  qed
  ultimately show ?thesis by blast
qed

lemma sample_claim:
  "claim_job decimal_time 7 1 2000 ''w1'' sample_table = (True, snd (claim_job decimal_time 7 1 2000 ''w1'' sample_table))"
proof -
  have "row_attempt_count (inserted_row decimal_time n sample_spec) = 0"
    "row_last_unlock_window (inserted_row decimal_time n sample_spec) = None" for n
    by (simp_all add: inserted_row_def)
  then show ?thesis by (simp add: claim_job_def Let_def sample_table_eq sql_count_def sample_spec_id)
qed

lemma one_claim_per_window_witness:
  "\<not> fst (claim_job decimal_time 7 2 3000 ''w1'' (snd (claim_job decimal_time 7 1 2000 ''w1'' sample_table)))"
proof -
  have "dt_textual decimal_time 2000" by (simp add: dt_textual_def decimal_time_def)
  from one_claim_per_window [OF decimal_time_ok sample_run sample_claim _ _ this run_nil, where a' = 2 and now' = 3000]
  show ?thesis by simp
qed

section \<open>The due jobs\<close>

lemma optional_stamps_le:
  assumes "chrono_time_ok t" "opt_textual t a" "opt_textual t b"
  shows "map_option (dt_to_rfc3339 t) a \<le> map_option (dt_to_rfc3339 t) b \<longleftrightarrow> a \<le> b"
    and "map_option (dt_to_rfc3339 t) a = map_option (dt_to_rfc3339 t) b \<longleftrightarrow> a = b"
  using assms rfc3339_order [OF assms(1)] rfc3339_round_trip [OF assms(1)]
  by (cases a; cases b; simp; metis option.inject)+

lemma due_key_mono:
  assumes "chrono_time_ok t" "row_ok t r" "row_ok t q" "(row_next_due_at r, row_id r) \<le> (row_next_due_at q, row_id q)"
  shows "(jr_next_due_at (row_view t r), jr_id (row_view t r)) \<le> (jr_next_due_at (row_view t q), jr_id (row_view t q))"
proof -
  note v = row_view [OF assms(1,2)] and w = row_view [OF assms(1,3)]
  note o = optional_stamps_le [OF assms(1) v(9) w(9), folded v(8) w(8)]
  have less: "(row_next_due_at r < row_next_due_at q) \<longleftrightarrow> jr_next_due_at (row_view t r) < jr_next_due_at (row_view t q)"
    unfolding less_le using o by simp
  show ?thesis using assms(4) less o(1) v(2) w(2) by auto
qed

text \<open>the due jobs of a window are exactly the enabled jobs that are queued or succeeded, have a
  due time not after now and were not claimed in that window; each is listed once, earliest first,
  equal times by id; no row is misread.\<close>

theorem due_jobs_exact:
  assumes "chrono_time_ok t" "job_run t [] evs T" "dt_textual t now"
  shows "\<exists>js. due_jobs t now w T = Inr js \<and> distinct (map jr_id js) \<and>
    sorted (map (\<lambda>j. (jr_next_due_at j, jr_id j)) js) \<and>
    (\<forall>j. j \<in> set js \<longleftrightarrow>
       durable_job t (jr_id j) T = Inr (Some j) \<and> jr_enabled j \<and> jr_state j \<in> {Queued, State_Succeeded} \<and>
       (case jr_next_due_at j of None \<Rightarrow> False | Some d \<Rightarrow> d \<le> now) \<and> jr_last_unlock_window j \<noteq> Some w)"
proof -
  define D where "D = row_due (dt_to_rfc3339 t now) w"
  define rs where "rs = order_by_due (filter D T)"
  have ok: "table_ok t T" using assms(2) by (rule reachable_ok)
  have rs: "set rs = {r \<in> set T. D r}" "distinct (map row_id rs)"
  proof -
    show "set rs = {r \<in> set T. D r}" by (simp add: rs_def order_by_due_def)
    have "mset (map row_id rs) = mset (map row_id (filter D T))" by (simp add: rs_def order_by_due_def)
    moreover have "distinct (map row_id (filter D T))" using ok by (simp add: table_ok_def distinct_map_filter)
    ultimately show "distinct (map row_id rs)" by (metis mset_eq_imp_distinct_iff)
  qed
  have ok_rs: "\<forall>r \<in> set rs. row_ok t r" using ok rs(1) by (simp add: table_ok_def)
  have v: "jr_id (row_view t r) = row_id r" if "r \<in> set rs" for r using row_view(2) [OF assms(1)] ok_rs that by simp
  have d: "due_jobs t now w T = Inr (map (row_view t) rs)"
    using rows_from_query_ok [OF assms(1) ok_rs] by (simp add: due_jobs_def rs_def D_def)
  moreover have "distinct (map jr_id (map (row_view t) rs))"
    using rs(2) v by (simp add: o_def cong: map_cong)
  moreover have "sorted (map (\<lambda>j. (jr_next_due_at j, jr_id j)) (map (row_view t) rs))"
  proof -
    have "sorted_wrt (\<lambda>r q. (row_next_due_at r, row_id r) \<le> (row_next_due_at q, row_id q)) rs"
      using sorted_sort_key [of "\<lambda>r. (row_next_due_at r, row_id r)" "filter D T"]
      unfolding rs_def order_by_due_def sorted_map .
    then have "sorted_wrt (\<lambda>r q. (jr_next_due_at (row_view t r), jr_id (row_view t r))
        \<le> (jr_next_due_at (row_view t q), jr_id (row_view t q))) rs"
      by (rule sorted_wrt_mono_rel [rotated]) (rule due_key_mono [OF assms(1)], use ok_rs in auto)
    then show ?thesis by (simp add: sorted_map sorted_wrt_map o_def del: less_eq_prod_simp)
  qed
  moreover have "j \<in> set (map (row_view t) rs) \<longleftrightarrow>
       durable_job t (jr_id j) T = Inr (Some j) \<and> jr_enabled j \<and> jr_state j \<in> {Queued, State_Succeeded} \<and>
       (case jr_next_due_at j of None \<Rightarrow> False | Some d \<Rightarrow> d \<le> now) \<and> jr_last_unlock_window j \<noteq> Some w" for j
  proof -
    have due: "D r \<longleftrightarrow> jr_enabled (row_view t r) \<and> jr_state (row_view t r) \<in> {Queued, State_Succeeded} \<and>
       (case jr_next_due_at (row_view t r) of None \<Rightarrow> False | Some d \<Rightarrow> d \<le> now) \<and>
       jr_last_unlock_window (row_view t r) \<noteq> Some w" if "r \<in> set T" for r
    proof -
      have "row_ok t r" using ok that by (simp add: table_ok_def)
      note x = row_view [OF assms(1) this]
      have "row_state r \<in> {''queued'', ''succeeded''} \<longleftrightarrow> jr_state (row_view t r) \<in> {Queued, State_Succeeded}"
        unfolding x(4) [symmetric] by (cases "jr_state (row_view t r)") simp_all
      moreover have "(case row_next_due_at r of None \<Rightarrow> False | Some d \<Rightarrow> d \<le> dt_to_rfc3339 t now) \<longleftrightarrow>
          (case jr_next_due_at (row_view t r) of None \<Rightarrow> False | Some d \<Rightarrow> d \<le> now)"
        unfolding x(8) using x(9) rfc3339_order [OF assms(1) _ assms(3)]
        by (cases "jr_next_due_at (row_view t r)") simp_all
      ultimately show ?thesis using x(6,7) by (simp only: D_def row_due_def)
    qed
    have "durable_job t (jr_id j) T = Inr (Some j) \<longleftrightarrow> (\<exists>r \<in> set T. j = row_view t r)"
    proof
      assume "durable_job t (jr_id j) T = Inr (Some j)"
      then show "\<exists>r \<in> set T. j = row_view t r"
        using durable_job_view [OF assms(1) ok, of "jr_id j"] sql_find_Some by fastforce
    next
      assume "\<exists>r \<in> set T. j = row_view t r"
      then obtain r where r: "r \<in> set T" "j = row_view t r" by blast
      then have "jr_id j = row_id r" using row_view(2) [OF assms(1)] ok by (simp add: table_ok_def)
      then show "durable_job t (jr_id j) T = Inr (Some j)"
        using durable_job_view [OF assms(1) ok] sql_find_in [of T r] r ok by (simp add: table_ok_def)
    qed
    then show ?thesis using due rs(1) by auto
  qed
  ultimately show ?thesis by blast
qed

lemma due_jobs_exact_witness:
  "\<exists>js. due_jobs decimal_time 2000 ''w1'' sample_table = Inr js \<and> distinct (map jr_id js)"
proof -
  have "dt_textual decimal_time 2000" by (simp add: dt_textual_def decimal_time_def)
  from due_jobs_exact [OF decimal_time_ok sample_run this, of "''w1''"] show ?thesis by blast
qed

section \<open>Crash recovery\<close>

text \<open>
  What recovery is to do with one row: nothing unless it was running; a run that committed keeps
  what it committed when a cancellation was pending, a run that did not is cancelled, and a run
  without a pending cancellation is queued again, due at once.
\<close>

definition recovered_row :: "chrono_time \<Rightarrow> instant \<Rightarrow> job_row \<Rightarrow> job_row" where
  "recovered_row t now r =
     (if row_state r \<noteq> ''running'' then r
      else if row_cancel_requested r = 0 then recover_requeued_row (dt_to_rfc3339 t now) r
      else
        case row_committed_outcome r of
          None \<Rightarrow> recover_cancelled_row (dt_to_rfc3339 t now) r
        | Some outcome \<Rightarrow>
            if outcome = ''failed'' then recover_failed_row (dt_to_rfc3339 t now) r
            else succeeded_row (map_option (dt_to_rfc3339 t) (the (recover_next_due t now (row_cadence r))))
              (dt_to_rfc3339 t now) r)"

text \<open>The run whose next due time the calendar cannot hold.\<close>

definition recovery_panics :: "chrono_time \<Rightarrow> instant \<Rightarrow> job_row \<Rightarrow> bool" where
  "recovery_panics t now r \<longleftrightarrow>
     row_state r = ''running'' \<and> row_cancel_requested r = 1 \<and> row_committed_outcome r = Some ''succeeded'' \<and>
     recover_next_due t now (row_cadence r) = None"

lemma count_split:
  "(\<And>x. x \<in> set xs \<Longrightarrow> R x \<longleftrightarrow> A x \<or> B x) \<Longrightarrow> (\<And>x. x \<in> set xs \<Longrightarrow> \<not> (A x \<and> B x)) \<Longrightarrow>
   length (filter R xs) = length (filter A xs) + length (filter B xs)"
  by (induction xs) auto

lemma recover_committed_eq:
  fixes t now
  defines "n \<equiv> dt_to_rfc3339 t now"
  defines "g \<equiv> \<lambda>c out. if out = ''failed'' then recover_failed_row n
      else succeeded_row (map_option (dt_to_rfc3339 t) (the (recover_next_due t now c))) n"
  defines "bad \<equiv> \<lambda>c out. out \<noteq> ''failed'' \<and> recover_next_due t now c = None"
  assumes "distinct (map fst es)"
  shows "recover_committed t now es m T =
    (if \<exists>i c out. (i, c, out) \<in> set es \<and> bad c out then None
     else Some (m + length (filter (\<lambda>r. row_state r = ''running'' \<and> row_id r \<in> fst ` set es) T),
       map (\<lambda>r. if row_state r = ''running'' then
              (case map_of es (row_id r) of None \<Rightarrow> r | Some (c, out) \<Rightarrow> g c out r) else r) T))"
  using assms(4)
proof (induction es arbitrary: m T)
  case Nil
  show ?case by (simp add: map_idI)
next
  case (Cons e es)
  obtain i c out where e: "e = (i, c, out)" by (cases e) auto
  have i: "i \<notin> fst ` set es" "distinct (map fst es)" using Cons.prems by (simp_all add: e)
  let ?P = "\<lambda>r. row_id r = i \<and> row_state r = ''running''"
  let ?f = "\<lambda>r. if row_state r = ''running'' then
              (case map_of es (row_id r) of None \<Rightarrow> r | Some (c, out) \<Rightarrow> g c out r) else r"
  let ?f' = "\<lambda>r. if row_state r = ''running'' then
              (case map_of (e # es) (row_id r) of None \<Rightarrow> r | Some (c, out) \<Rightarrow> g c out r) else r"
  have g: "row_id (g c out r) = row_id r" "row_state (g c out r) \<noteq> ''running''" for c out r
    by (simp_all add: g_def)
  have step: "recover_committed_row t now e T =
      (if bad c out then None else Some (sql_count ?P T, sql_update ?P (g c out) T))"
    by (auto simp: e recover_committed_row_def bad_def g_def n_def Let_def split: option.split)
  show ?case
  proof (cases "bad c out")
    case True
    then show ?thesis by (auto simp: step [unfolded e] e)
  next
    case False
    let ?T = "sql_update ?P (g c out) T"
    have m: "map ?f ?T = map ?f' T"
      using i(1) g by (auto simp: sql_update_def e map_of_eq_None_iff split: option.split)
    have n: "length (filter (\<lambda>r. row_state r = ''running'' \<and> row_id r \<in> fst ` set es) ?T) =
        length (filter (\<lambda>r. row_state r = ''running'' \<and> row_id r \<in> fst ` set es) T)"
      using i(1) g by (induction T) auto
    have c: "length (filter (\<lambda>r. row_state r = ''running'' \<and> row_id r \<in> fst ` set (e # es)) T) =
        sql_count ?P T + length (filter (\<lambda>r. row_state r = ''running'' \<and> row_id r \<in> fst ` set es) T)"
      unfolding sql_count_def by (rule count_split) (use i(1) in \<open>auto simp: e\<close>)
    show ?thesis using False Cons.IH [OF i(2), of "m + sql_count ?P T" ?T] m n c
      by (auto simp: step [unfolded e] e)
  qed
qed

text \<open>What recovery needs of the table: one row per job, and the constraints on flag and marker.\<close>

definition flags_ok :: "job_table \<Rightarrow> bool" where
  "flags_ok T \<longleftrightarrow> distinct (map row_id T) \<and>
     (\<forall>r \<in> set T. row_cancel_requested r \<in> {0, 1} \<and> commit_marker_checks r)"

lemma table_ok_flags: "table_ok t T \<Longrightarrow> flags_ok T"
  using row_ok_checks by (auto simp: flags_ok_def table_ok_def row_ok_def row_runtime_ok_def cancel_flag_ok_def)

lemma count_map: "length (filter P (map f xs)) = length (filter (\<lambda>x. P (f x)) xs)"
  by (induction xs) simp_all

lemma recover_running_eq:
  assumes ok: "flags_ok T"
  shows "recover_running t now T =
    (if \<exists>r \<in> set T. recovery_panics t now r then (Inl Store_Panic, T)
     else (Inr (length (filter (\<lambda>r. row_state r = ''running'') T)), map (recovered_row t now) T))"
proof -
  define n where "n = dt_to_rfc3339 t now"
  define M :: "job_row \<Rightarrow> bool" where "M = (\<lambda>r. row_state r = ''running'' \<and> row_cancel_requested r = 1 \<and> row_committed_at r \<noteq> None)"
  define es where "es = map (\<lambda>r. (row_id r, row_cadence r, the (row_committed_outcome r))) (filter M T)"
  define g where "g = (\<lambda>c out. if out = ''failed'' then recover_failed_row n
      else succeeded_row (map_option (dt_to_rfc3339 t) (the (recover_next_due t now c))) n)"
  define h where "h = (\<lambda>r. if M r then g (row_cadence r) (the (row_committed_outcome r)) r else r)"
  have f: "row_cancel_requested r \<in> {0, 1}" "commit_marker_checks r" if "r \<in> set T" for r
    using ok that by (simp_all add: flags_ok_def)
  have c: "row_cancel_requested r = 0 \<or> row_cancel_requested r = 1" if "r \<in> set T" for r
    using f(1) [OF that] by simp
  have o: "row_committed_at r = None \<longleftrightarrow> row_committed_outcome r = None"
      "row_committed_outcome r = None \<or> row_committed_outcome r = Some ''succeeded'' \<or> row_committed_outcome r = Some ''failed''"
    if "r \<in> set T" for r
    using f(2) [OF that] unfolding commit_marker_checks_def by blast+
  have entries: "map_res committed_entry (filter M T) = Inr es"
  proof -
    have "committed_entry r = Inr (row_id r, row_cadence r, the (row_committed_outcome r))" if "r \<in> set (filter M T)" for r
      using that o(1) [of r] by (auto simp: committed_entry_def M_def split: option.split)
    then have "map_res committed_entry rs = Inr (map (\<lambda>r. (row_id r, row_cadence r, the (row_committed_outcome r))) rs)"
      if "set rs \<subseteq> set (filter M T)" for rs
      using that by (induction rs) simp_all
    then show ?thesis by (simp add: es_def)
  qed
  have ids: "distinct (map row_id T)" using ok by (simp add: flags_ok_def)
  then have de: "distinct (map fst es)" by (simp add: es_def o_def distinct_map_filter)
  have look: "map_of es (row_id r) = (if M r then Some (row_cadence r, the (row_committed_outcome r)) else None)"
    if "r \<in> set T" for r
  proof (cases "M r")
    case True
    then show ?thesis using de that by (auto simp: es_def intro!: map_of_is_SomeI)
  next
    case False
    have "row_id r \<notin> fst ` set es"
    proof
      assume "row_id r \<in> fst ` set es"
      then have "row_id r \<in> row_id ` set (filter M T)" by (simp add: es_def image_image)
      then obtain q where q: "q \<in> set T" "M q" "row_id r = row_id q"
        unfolding image_iff set_filter by blast
      have "q = r" using sql_find_in [OF ids q(1)] sql_find_in [OF ids that] q(3) by simp
      with q(2) False show False by simp
    qed
    then show ?thesis using False by (simp add: map_of_eq_None_iff)
  qed
  have bad: "(\<exists>i c out. (i, c, out) \<in> set es \<and> out \<noteq> ''failed'' \<and> recover_next_due t now c = None)
      \<longleftrightarrow> (\<exists>r \<in> set T. recovery_panics t now r)"
  proof
    assume "\<exists>i c out. (i, c, out) \<in> set es \<and> out \<noteq> ''failed'' \<and> recover_next_due t now c = None"
    then obtain r where r: "r \<in> set T" "M r" "the (row_committed_outcome r) \<noteq> ''failed''"
        "recover_next_due t now (row_cadence r) = None"
      by (auto simp: es_def)
    moreover from this have "row_committed_outcome r = Some ''succeeded''"
      using o [OF r(1)] by (cases "row_committed_outcome r") (simp_all add: M_def)
    ultimately show "\<exists>r \<in> set T. recovery_panics t now r" by (auto simp: recovery_panics_def M_def)
  next
    assume "\<exists>r \<in> set T. recovery_panics t now r"
    then obtain r where r: "r \<in> set T" "recovery_panics t now r" by blast
    then have "M r" using o(1) [OF r(1)] by (simp add: recovery_panics_def M_def)
    then have "(row_id r, row_cadence r, the (row_committed_outcome r)) \<in> set es" using r(1) by (simp add: es_def)
    moreover have "the (row_committed_outcome r) \<noteq> ''failed''" "recover_next_due t now (row_cadence r) = None"
      using r(2) by (simp_all add: recovery_panics_def)
    ultimately show "\<exists>i c out. (i, c, out) \<in> set es \<and> out \<noteq> ''failed'' \<and> recover_next_due t now c = None" by blast
  qed
  have loop: "recover_committed t now es 0 T =
      (if \<exists>r \<in> set T. recovery_panics t now r then None else Some (length (filter M T), map h T))"
  proof -
    have a: "filter (\<lambda>r. row_state r = ''running'' \<and> row_id r \<in> fst ` set es) T = filter M T"
    proof (rule filter_cong [OF refl])
      fix r assume "r \<in> set T"
      then have "row_id r \<in> fst ` set es \<longleftrightarrow> M r" using look [of r] map_of_eq_None_iff [of es "row_id r"] by (cases "M r") simp_all
      then show "(row_state r = ''running'' \<and> row_id r \<in> fst ` set es) \<longleftrightarrow> M r" by (auto simp: M_def)
    qed
    have b: "map (\<lambda>r. if row_state r = ''running'' then
        (case map_of es (row_id r) of None \<Rightarrow> r | Some (c, out) \<Rightarrow>
          (if out = ''failed'' then recover_failed_row (dt_to_rfc3339 t now)
           else succeeded_row (map_option (dt_to_rfc3339 t) (the (recover_next_due t now c))) (dt_to_rfc3339 t now)) r) else r) T
        = map h T"
      by (rule map_cong [OF refl]) (simp add: look h_def g_def n_def, simp add: M_def)
    show ?thesis unfolding recover_committed_eq [OF de] a b bad by simp
  qed
  let ?P = "\<lambda>r. row_state r = ''running'' \<and> row_cancel_requested r = 1 \<and> row_committed_at r = None"
  let ?Q = "\<lambda>r. row_state r = ''running'' \<and> row_cancel_requested r = 0"
  have gs: "row_state (g c out r) \<noteq> ''running''" for c out r by (simp add: g_def)
  have count: "length (filter (\<lambda>r. row_state r = ''running'') T) =
      length (filter M T) + (sql_count ?P (map h T) + sql_count ?Q (sql_update ?P (recover_cancelled_row n) (map h T)))"
  proof -
    have "sql_count ?P (map h T) = length (filter ?P T)"
      unfolding sql_count_def count_map by (rule arg_cong [where f = length], rule filter_cong) (auto simp: h_def gs M_def)
    moreover have "sql_count ?Q (sql_update ?P (recover_cancelled_row n) (map h T)) = length (filter ?Q T)"
      unfolding sql_count_def sql_update_def map_map count_map
      by (rule arg_cong [where f = length], rule filter_cong) (auto simp: h_def gs M_def)
    moreover have "length (filter (\<lambda>r. row_state r = ''running'') T) = length (filter M T) + length (filter (\<lambda>r. ?P r \<or> ?Q r) T)"
      by (rule count_split) (use c in \<open>auto simp: M_def\<close>)
    moreover have "length (filter (\<lambda>r. ?P r \<or> ?Q r) T) = length (filter ?P T) + length (filter ?Q T)"
      by (rule count_split) auto
    ultimately show ?thesis by simp
  qed
  have rows: "sql_update ?Q (recover_requeued_row n) (sql_update ?P (recover_cancelled_row n) (map h T)) = map (recovered_row t now) T"
    unfolding sql_update_def map_map
  proof (rule map_cong [OF refl])
    fix r assume r: "r \<in> set T"
    show "((\<lambda>r. if ?Q r then recover_requeued_row n r else r) \<circ> ((\<lambda>r. if ?P r then recover_cancelled_row n r else r) \<circ> h)) r =
        recovered_row t now r"
      using c [OF r] o [OF r] gs unfolding h_def M_def recovered_row_def n_def [symmetric]
      by (auto simp: g_def split: option.split)
  qed
  show ?thesis
    unfolding recover_running_def M_def [symmetric] entries
    using loop count rows by (simp add: n_def [symmetric] Let_def)
qed

text \<open>C26: recovery after a crash treats every row as the table of cases says - no row stays running,
  what committed is recorded as it committed, what was cancelled and did not commit is cancelled,
  the rest is queued again, and rows that were not running are untouched - and it reports the number
  of rows that were running; it changes nothing when a schedule's next due time cannot be
  represented.\<close>

theorem recover_running_exact:
  assumes "job_run t [] evs T"
  shows "recover_running t now T =
      (if \<exists>r \<in> set T. recovery_panics t now r then (Inl Store_Panic, T)
       else (Inr (length (filter (\<lambda>r. row_state r = ''running'') T)), map (recovered_row t now) T)) \<and>
    row_state (recovered_row t now r) \<noteq> ''running''"
proof -
  have "row_state (recovered_row t now r) \<noteq> ''running''"
    by (auto simp: recovered_row_def split: option.split)
  then show ?thesis using recover_running_eq [OF table_ok_flags [OF reachable_ok [OF assms]]] by simp
qed

lemma recover_running_exact_witness:
  "recover_running decimal_time 5000 sample_table = (Inr 0, map (recovered_row decimal_time 5000) sample_table)"
proof -
  have "\<not> recovery_panics decimal_time 5000 r \<and> row_state r \<noteq> ''running''" if "r \<in> set sample_table" for r
    using that by (auto simp: recovery_panics_def sample_table_eq)
  with recover_running_exact [OF sample_run, of 5000, THEN conjunct1] show ?thesis
    by (simp add: filter_False)
qed

section \<open>Schedules read back\<close>

text \<open>The configuration a specification stores: whole seconds of its first delay.\<close>

definition configured :: "job_spec \<Rightarrow> job_record \<Rightarrow> job_record" where
  "configured s j = j\<lparr>jr_kind := spec_kind s, jr_schedule := spec_schedule s,
     jr_next_due_at := Some (spec_next_due_at s), jr_max_attempts := spec_max_attempts s,
     jr_backoff := \<lparr>bo_initial = num_seconds (bo_initial (spec_backoff s)) * 1000000000,
       bo_multiplier_bps = bo_multiplier_bps (spec_backoff s)\<rparr>,
     jr_enabled := spec_enabled s, jr_requires_explicit_opt_in := spec_requires_explicit_opt_in s,
     jr_payload_json := spec_payload_json s\<rparr>"

definition fresh_record :: "job_spec \<Rightarrow> job_record" where
  "fresh_record s = configured s \<lparr>jr_id = spec_id s, jr_kind = [], jr_schedule = Once, jr_next_due_at = None,
     jr_state = Queued, jr_attempts = 0, jr_max_attempts = 0, jr_backoff = backoff_default, jr_enabled = False,
     jr_requires_explicit_opt_in = False, jr_payload_json = None, jr_last_run_at = None, jr_last_outcome = None,
     jr_last_error = None, jr_last_unlock_window = None, jr_cancel_requested = False\<rparr>"

text \<open>A job configured anew forgets its attempts, its last outcome and its window.\<close>

definition forgotten :: "job_record \<Rightarrow> job_record" where
  "forgotten j = j\<lparr>jr_state := Queued, jr_attempts := 0, jr_last_outcome := None, jr_last_error := None,
     jr_last_unlock_window := None, jr_cancel_requested := False\<rparr>"

lemma bool_column_iff [simp]: "bool_column b = 1 \<longleftrightarrow> b"
  by (simp add: bool_column_def)

lemma spec_schedule_ok: "spec_ok s \<Longrightarrow> spec_typed t s \<Longrightarrow> schedule_ok (spec_schedule s) \<and> dt_textual t (spec_next_due_at s)"
  by (cases "spec_schedule s") (simp_all add: spec_ok_def spec_typed_def)

lemma view_inserted:
  assumes "chrono_time_ok t" "spec_ok s" "spec_typed t s"
  shows "row_view t (inserted_row t n s) = fresh_record s"
proof -
  let ?r = "inserted_row t n s"
  have p: "row_cadence ?r = schedule_token (spec_schedule s)" "schedule_ok (spec_schedule s)"
    "row_state ?r = job_state_token Queued" "row_last_outcome ?r = map_option job_outcome_token None"
    "row_next_due_at ?r = map_option (dt_to_rfc3339 t) (Some (spec_next_due_at s))" "opt_textual t (Some (spec_next_due_at s))"
    "row_last_run_at ?r = map_option (dt_to_rfc3339 t) None" "opt_textual t None"
    using spec_schedule_ok [OF assms(2,3)] by (simp_all add: inserted_row_def)
  from row_from_parts_eq [OF assms(1) inserted_row_ok [OF assms(2,3)] p] show ?thesis
    by (simp add: row_view_def fresh_record_def configured_def inserted_row_def)
qed

lemma view_configured:
  assumes "chrono_time_ok t" "spec_ok s" "spec_typed t s" "row_ok t r"
  shows "row_view t (configure_row (inserted_row t n s) r) = configured s (row_view t r)"
proof -
  let ?q = "configure_row (inserted_row t n s) r"
  from row_parts [OF assms(4)] obtain sc st oc nd lr where p: "row_cadence r = schedule_token sc" "schedule_ok sc"
    "row_state r = job_state_token st" "row_last_outcome r = map_option job_outcome_token oc"
    "row_next_due_at r = map_option (dt_to_rfc3339 t) nd" "opt_textual t nd"
    "row_last_run_at r = map_option (dt_to_rfc3339 t) lr" "opt_textual t lr" .
  have q: "row_cadence ?q = schedule_token (spec_schedule s)" "schedule_ok (spec_schedule s)"
    "row_state ?q = job_state_token st" "row_last_outcome ?q = map_option job_outcome_token oc"
    "row_next_due_at ?q = map_option (dt_to_rfc3339 t) (Some (spec_next_due_at s))" "opt_textual t (Some (spec_next_due_at s))"
    "row_last_run_at ?q = map_option (dt_to_rfc3339 t) lr" "opt_textual t lr"
    using spec_schedule_ok [OF assms(2,3)] p by (simp_all add: configure_row_def inserted_row_def)
  from row_from_parts_eq [OF assms(1) configure_row_ok [OF inserted_row_ok [OF assms(2,3)] assms(4)] q]
    row_from_parts_eq [OF assms(1,4) p] show ?thesis
    by (simp add: row_view_def configured_def configure_row_def inserted_row_def)
qed

lemma view_reset:
  assumes "chrono_time_ok t" "row_ok t r" "row_state r \<noteq> ''running''"
  shows "row_view t (reset_row r) = forgotten (row_view t r)"
proof -
  from row_parts [OF assms(2)] obtain sc st oc nd lr where p: "row_cadence r = schedule_token sc" "schedule_ok sc"
    "row_state r = job_state_token st" "row_last_outcome r = map_option job_outcome_token oc"
    "row_next_due_at r = map_option (dt_to_rfc3339 t) nd" "opt_textual t nd"
    "row_last_run_at r = map_option (dt_to_rfc3339 t) lr" "opt_textual t lr" .
  have q: "row_cadence (reset_row r) = schedule_token sc" "row_state (reset_row r) = job_state_token Queued"
    "row_last_outcome (reset_row r) = map_option job_outcome_token None"
    "row_next_due_at (reset_row r) = map_option (dt_to_rfc3339 t) nd"
    "row_last_run_at (reset_row r) = map_option (dt_to_rfc3339 t) lr"
    using p by (simp_all add: reset_row_def)
  from row_from_parts_eq [OF assms(1) reset_row_ok [OF assms(2,3)] q(1) p(2) q(2,3,4) p(6) q(5) p(8)]
    row_from_parts_eq [OF assms(1,2) p] show ?thesis
    by (simp add: row_view_def forgotten_def reset_row_def)
qed

text \<open>an accepted schedule reads back as it was given - a new job fresh and queued, an existing job
  with its new configuration and its state, attempts, outcome, window and pending cancellation as
  they were - and a new configuration also starts the job over, except that a running job refuses it;
  no other job is touched, and a specification that is not valid changes nothing.\<close>

theorem schedule_reads_back:
  assumes "chrono_time_ok t" "job_run t [] evs T" "spec_typed t spec"
  shows "(case job_spec_validate spec of
     Inl e \<Rightarrow> schedule_job t now spec T = (Inl (Invalid_Command_Spec e), T) \<and>
       reconfigure_job t now spec T = (Inl (Invalid_Command_Spec e), T)
   | Inr _ \<Rightarrow>
       fst (schedule_job t now spec T) = Inr () \<and>
       durable_job t i (snd (schedule_job t now spec T)) =
         (if i \<noteq> spec_id spec then durable_job t i T
          else case durable_job t i T of
                 Inr None \<Rightarrow> Inr (Some (fresh_record spec))
               | Inr (Some j) \<Rightarrow> Inr (Some (configured spec j))
               | Inl e \<Rightarrow> Inl e) \<and>
       (if phase (spec_id spec) T = Some Running
        then reconfigure_job t now spec T = (Inl Invalid_Command_Running, T)
        else fst (reconfigure_job t now spec T) = Inr () \<and>
          durable_job t i (snd (reconfigure_job t now spec T)) =
            (if i \<noteq> spec_id spec then durable_job t i T
             else case durable_job t i T of
                    Inr None \<Rightarrow> Inr (Some (fresh_record spec))
                  | Inr (Some j) \<Rightarrow> Inr (Some (forgotten (configured spec j)))
                  | Inl e \<Rightarrow> Inl e)))"
proof (cases "job_spec_validate spec")
  case (Inl e)
  then show ?thesis by (simp add: schedule_job_def reconfigure_job_def)
next
  case (Inr u)
  then have s: "spec_ok spec" by (simp add: job_spec_validate_Inr)
  have ok: "table_ok t T" using assms(2) by (rule reachable_ok)
  note view = durable_job_view [OF assms(1)]
  let ?new = "inserted_row t (dt_to_rfc3339 t now) spec"
  have r: "row_ok t r" "row_id r = k" if "sql_find k T = Some r" for r k
    using table_ok_find [OF ok that] by simp_all
  have ok1: "table_ok t (snd (schedule_job t now spec T))" by (rule schedule_job_ok [OF ok assms(3)])
  have ok2: "table_ok t (snd (reconfigure_job t now spec T))" by (rule reconfigure_job_ok [OF ok assms(3)])
  have running: "list_ex (\<lambda>r. row_id r = spec_id spec \<and> row_state r = ''running'') T \<longleftrightarrow> phase (spec_id spec) T = Some Running"
  proof
    assume "list_ex (\<lambda>r. row_id r = spec_id spec \<and> row_state r = ''running'') T"
    then obtain x where x: "x \<in> set T" "row_id x = spec_id spec" "row_state x = ''running''" by (auto simp: list_ex_iff)
    then have "sql_find (spec_id spec) T = Some x" using sql_find_in [of T x] ok by (simp add: table_ok_def)
    then show "phase (spec_id spec) T = Some Running" using x(3) by (simp add: phase_def state_of_token)
  next
    assume "phase (spec_id spec) T = Some Running"
    then obtain x where x: "sql_find (spec_id spec) T = Some x" "state_of x = Some Running" by (auto simp: phase_def bind_eq_Some_conv)
    then have "row_state x = ''running''" using state_of_some [OF r(1) [OF x(1)]] by auto
    then show "list_ex (\<lambda>r. row_id r = spec_id spec \<and> row_state r = ''running'') T"
      using sql_find_Some [OF x(1)] by (auto simp: list_ex_iff)
  qed
  have find1: "sql_find i (snd (schedule_job t now spec T)) =
      (if i = spec_id spec then Some (case sql_find i T of None \<Rightarrow> ?new | Some x \<Rightarrow> configure_row ?new x) else sql_find i T)"
    by (simp add: schedule_job_def Inr Let_def sql_find_upsert split: option.split)
  have find2: "sql_find i (snd (reconfigure_job t now spec T)) =
      (if i = spec_id spec then Some (case sql_find i T of None \<Rightarrow> ?new | Some x \<Rightarrow> reset_row (configure_row ?new x)) else sql_find i T)"
    if "phase (spec_id spec) T \<noteq> Some Running"
    using that running by (simp add: reconfigure_job_def Inr Let_def sql_find_upsert split: option.split)
  have v1: "row_view t (configure_row ?new x) = configured spec (row_view t x)" if "sql_find k T = Some x" for x k
    by (rule view_configured [OF assms(1) s assms(3) r(1) [OF that]])
  have v2: "row_view t (reset_row (configure_row ?new x)) = forgotten (configured spec (row_view t x))"
    if "sql_find (spec_id spec) T = Some x" "phase (spec_id spec) T \<noteq> Some Running" for x
  proof -
    have "row_state x \<noteq> ''running''" using that state_of_token(2) [of x] by (auto simp: phase_def)
    then show ?thesis
      using view_reset [OF assms(1) configure_row_ok [OF inserted_row_ok [OF s assms(3)] r(1) [OF that(1)]]] v1 [OF that(1)] by simp
  qed
  have a: "durable_job t i (snd (schedule_job t now spec T)) =
         (if i \<noteq> spec_id spec then durable_job t i T
          else case durable_job t i T of
                 Inr None \<Rightarrow> Inr (Some (fresh_record spec))
               | Inr (Some j) \<Rightarrow> Inr (Some (configured spec j))
               | Inl e \<Rightarrow> Inl e)"
    unfolding view [OF ok] view [OF ok1] find1
    by (cases "i = spec_id spec"; cases "sql_find (spec_id spec) T") (simp_all add: view_inserted [OF assms(1) s assms(3)] v1)
  have b: "durable_job t i (snd (reconfigure_job t now spec T)) =
            (if i \<noteq> spec_id spec then durable_job t i T
             else case durable_job t i T of
                    Inr None \<Rightarrow> Inr (Some (fresh_record spec))
                  | Inr (Some j) \<Rightarrow> Inr (Some (forgotten (configured spec j)))
                  | Inl e \<Rightarrow> Inl e)" if "phase (spec_id spec) T \<noteq> Some Running"
    unfolding view [OF ok] view [OF ok2] find2 [OF that]
    using that v2
    by (cases "i = spec_id spec"; cases "sql_find (spec_id spec) T") (simp_all add: view_inserted [OF assms(1) s assms(3)])
  have "fst (schedule_job t now spec T) = Inr ()" by (simp add: schedule_job_def Inr Let_def)
  moreover have "reconfigure_job t now spec T = (Inl Invalid_Command_Running, T)" if "phase (spec_id spec) T = Some Running"
    using that running by (simp add: reconfigure_job_def Inr)
  moreover have "fst (reconfigure_job t now spec T) = Inr ()" if "phase (spec_id spec) T \<noteq> Some Running"
    using that running by (simp add: reconfigure_job_def Inr Let_def)
  ultimately show ?thesis using a b Inr by simp
qed

lemma schedule_reads_back_witness:
  "durable_job decimal_time 7 (snd (schedule_job decimal_time 500 sample_spec [])) = Inr (Some (fresh_record sample_spec))"
proof -
  have v: "job_spec_validate sample_spec = Inr ()" using sample_spec_ok by (simp add: job_spec_validate_Inr)
  have d: "durable_job decimal_time 7 [] = Inr None" by (simp add: durable_job_def)
  from schedule_reads_back [OF decimal_time_ok run_nil sample_spec_ok [THEN conjunct2], of 500 7] show ?thesis
    by (simp add: v d sample_spec_id)
qed

end
