(* ===== verification/Job_Runner.thy ===== *)
theory Job_Runner
  imports Job_Guarantees
begin

text \<open>
  \<^verbatim>\<open>JobRunner\<close> of \<^verbatim>\<open>crates/job-runtime/src/lib.rs\<close> and its use by the worker
  (\<^verbatim>\<open>crates/db-worker/src/jobs.rs\<close>).

  The runner is generic in its store, as the code is: \<open>job_store_ops\<close> is the trait \<^verbatim>\<open>JobStore\<close>, each
  operation a step of a world \<open>'w\<close> that may fail.  The clock and the caller's cancellation token are
  read from the world.  The worker's store \<open>db_job_store\<close> lets other threads change the table before
  each of its calls (\<open>env\<close>) and the database fail at any of them (\<open>fault\<close>), so that a property for
  every \<open>env\<close> and \<open>fault\<close> is one for every interleaving.

  The locale \<open>job_store\<close> states what the runner relies on, and the worker's store interprets it.
\<close>

section \<open>The store interface\<close>

record ('w, 'e) job_store_ops =
  js_recover_running :: "instant \<Rightarrow> 'w \<Rightarrow> ('e, nat) res \<times> 'w"
  js_due_jobs :: "instant \<Rightarrow> string \<Rightarrow> 'w \<Rightarrow> ('e, job_record list) res \<times> 'w"
  js_claim_job :: "128 word \<Rightarrow> int \<Rightarrow> instant \<Rightarrow> string \<Rightarrow> 'w \<Rightarrow> ('e, bool) res \<times> 'w"
  js_cancellation_requested :: "128 word \<Rightarrow> 'w \<Rightarrow> ('e, bool) res \<times> 'w"
  js_committed :: "128 word \<Rightarrow> 'w \<Rightarrow> ('e, bool) res \<times> 'w"
  js_finish_success :: "job_record \<Rightarrow> instant \<Rightarrow> instant option \<Rightarrow> 'w \<Rightarrow> ('e, job_finish_result) res \<times> 'w"
  js_finish_committed :: "job_record \<Rightarrow> instant \<Rightarrow> instant option \<Rightarrow> 'w \<Rightarrow> ('e, unit) res \<times> 'w"
  js_finish_failure ::
    "job_record \<Rightarrow> instant \<Rightarrow> job_failure \<Rightarrow> instant option \<Rightarrow> 'w \<Rightarrow> ('e, job_finish_result) res \<times> 'w"
  js_finish_cancelled :: "job_record \<Rightarrow> instant \<Rightarrow> utext \<Rightarrow> 'w \<Rightarrow> ('e, unit) res \<times> 'w"
  js_finish_skipped :: "job_record \<Rightarrow> instant \<Rightarrow> 'w \<Rightarrow> ('e, job_finish_result) res \<times> 'w"

text \<open>The clock, and the cancellation token of the caller, which another thread may set.\<close>

record 'w job_host =
  host_now :: "'w \<Rightarrow> instant \<times> 'w"
  host_is_cancelled :: "'w \<Rightarrow> bool \<times> 'w"

section \<open>The runner\<close>

record job_run_report =
  rep_recovered :: nat
  rep_attempted :: nat
  rep_succeeded :: nat
  rep_failed :: nat
  rep_cancelled :: nat
  rep_skipped :: nat

definition report_default :: job_run_report where
  "report_default = \<lparr>rep_recovered = 0, rep_attempted = 0, rep_succeeded = 0, rep_failed = 0,
     rep_cancelled = 0, rep_skipped = 0\<rparr>"

text \<open>\<open>Runner_Panic\<close> stands for a panic of the calendar arithmetic, which ends the sweep.\<close>

datatype 'e job_runner_error = Runner_Store 'e | Runner_Panic

record claimed_job =
  cj_job :: job_record
  cj_attempt :: int

text \<open>Steps of the world that may fail, in sequence.\<close>

type_synonym ('w, 'e, 'a) world_run = "'w \<Rightarrow> ('e, 'a) res \<times> 'w"

definition w_return :: "'a \<Rightarrow> ('w, 'e, 'a) world_run" where
  "w_return x w = (Inr x, w)"

definition w_fail :: "'e \<Rightarrow> ('w, 'e, 'a) world_run" where
  "w_fail e w = (Inl e, w)"

definition w_bind :: "('w, 'e, 'a) world_run \<Rightarrow> ('a \<Rightarrow> ('w, 'e, 'b) world_run) \<Rightarrow> ('w, 'e, 'b) world_run" where
  "w_bind m f w = (case m w of (Inl e, w) \<Rightarrow> (Inl e, w) | (Inr x, w) \<Rightarrow> f x w)"

definition w_store :: "('w, 'e, 'a) world_run \<Rightarrow> ('w, 'e job_runner_error, 'a) world_run" where
  "w_store m w = (case m w of (Inl e, w) \<Rightarrow> (Inl (Runner_Store e), w) | (Inr x, w) \<Rightarrow> (Inr x, w))"

definition w_read :: "('w \<Rightarrow> 'a \<times> 'w) \<Rightarrow> ('w, 'e, 'a) world_run" where
  "w_read f w = (case f w of (x, w) \<Rightarrow> (Inr x, w))"

definition w_or_panic :: "'a option \<Rightarrow> ('w, 'e job_runner_error, 'a) world_run" where
  "w_or_panic v = (case v of None \<Rightarrow> w_fail Runner_Panic | Some x \<Rightarrow> w_return x)"

definition job_cancelled_text :: utext where
  "job_cancelled_text = ascii ''job cancelled''"

definition record_cancelled ::
    "('w, 'e) job_store_ops \<Rightarrow> job_record \<Rightarrow> instant \<Rightarrow> job_run_report \<Rightarrow>
     ('w, 'e job_runner_error, string \<times> job_run_report) world_run" where
  "record_cancelled S job completed_at report =
     w_bind (w_store (js_finish_cancelled S job completed_at job_cancelled_text)) (\<lambda>_.
       w_return (''cancelled'', report\<lparr>rep_cancelled := rep_cancelled report + 1\<rparr>))"

definition apply_execution ::
    "chrono_time \<Rightarrow> ('w, 'e) job_store_ops \<Rightarrow> job_record \<Rightarrow> int \<Rightarrow> job_execution \<Rightarrow> instant \<Rightarrow> job_run_report \<Rightarrow>
     ('w, 'e job_runner_error, string \<times> job_run_report) world_run" where
  "apply_execution t S job attempt execution completed_at report =
     (case execution of
        Succeeded \<Rightarrow>
          w_bind (w_or_panic (next_due_after t (jr_schedule job) completed_at)) (\<lambda>next_due_at.
          w_bind (w_store (js_finish_success S job completed_at next_due_at)) (\<lambda>finish.
            if finish = Finish_Cancelled then record_cancelled S job completed_at report
            else w_return (''succeeded'', report\<lparr>rep_succeeded := rep_succeeded report + 1\<rparr>)))
      | Committed \<Rightarrow>
          w_bind (w_or_panic (next_due_after t (jr_schedule job) completed_at)) (\<lambda>next_due_at.
          w_bind (w_store (js_finish_committed S job completed_at next_due_at)) (\<lambda>_.
            w_return (''succeeded'', report\<lparr>rep_succeeded := rep_succeeded report + 1\<rparr>)))
      | Failed failure \<Rightarrow>
          w_bind (if jf_retryable failure \<and> attempt < jr_max_attempts job
                  then w_or_panic (map_option Some
                    (Option.bind (delay_for_attempt (jr_backoff job) attempt) (dt_add t completed_at)))
                  else w_return None) (\<lambda>retry_at.
          w_bind (w_store (js_finish_failure S job completed_at failure retry_at)) (\<lambda>finish.
            if finish = Finish_Cancelled then record_cancelled S job completed_at report
            else w_return (''failed'', report\<lparr>rep_failed := rep_failed report + 1\<rparr>)))
      | Cancelled \<Rightarrow> record_cancelled S job completed_at report
      | Skipped \<Rightarrow>
          w_bind (w_store (js_finish_skipped S job completed_at)) (\<lambda>finish.
            if finish = Finish_Cancelled then record_cancelled S job completed_at report
            else w_return (''skipped'', report\<lparr>rep_skipped := rep_skipped report + 1\<rparr>)))"

text \<open>A row past its attempts: failed for good, or cancelled if a request won.\<close>

definition give_up ::
    "('w, 'e) job_store_ops \<Rightarrow> 'w job_host \<Rightarrow> job_record \<Rightarrow> instant \<Rightarrow> job_run_report \<Rightarrow>
     ('w, 'e job_runner_error, job_run_report) world_run" where
  "give_up S H job now report =
     w_bind (w_store (js_finish_failure S job now (job_failure_permanent (ascii ''maximum attempts reached'')) None)) (\<lambda>finish.
       if finish = Finish_Cancelled
       then w_bind (w_read (host_now H)) (\<lambda>cancelled_at.
            w_bind (record_cancelled S job cancelled_at report) (\<lambda>(_, report). w_return report))
       else w_return (report\<lparr>rep_failed := rep_failed report + 1\<rparr>))"

text \<open>A claimed row with a request already pending.\<close>

definition cancel_claimed ::
    "('w, 'e) job_store_ops \<Rightarrow> 'w job_host \<Rightarrow> job_record \<Rightarrow> job_run_report \<Rightarrow>
     ('w, 'e job_runner_error, job_run_report) world_run" where
  "cancel_claimed S H job report =
     w_bind (w_read (host_now H)) (\<lambda>cancelled_at.
     w_bind (record_cancelled S job cancelled_at report) (\<lambda>(_, report). w_return report))"

primrec claim_loop ::
    "('w, 'e) job_store_ops \<Rightarrow> 'w job_host \<Rightarrow> instant \<Rightarrow> string \<Rightarrow> job_record list \<Rightarrow> claimed_job list \<Rightarrow> job_run_report \<Rightarrow>
     ('w, 'e job_runner_error, claimed_job list \<times> job_run_report) world_run" where
  "claim_loop S H now unlock_window [] claimed report = w_return (claimed, report)"
| "claim_loop S H now unlock_window (job # jobs) claimed report =
     (let attempt = min (jr_attempts job + 1) 4294967295
      in if attempt > jr_max_attempts job
         then w_bind (give_up S H job now report) (\<lambda>report. claim_loop S H now unlock_window jobs claimed report)
         else
           w_bind (w_store (js_claim_job S (jr_id job) attempt now unlock_window)) (\<lambda>won.
             if \<not> won then claim_loop S H now unlock_window jobs claimed report
             else
               w_bind (w_store (js_cancellation_requested S (jr_id job))) (\<lambda>requested.
                 if requested
                 then w_bind (cancel_claimed S H job report) (\<lambda>report. claim_loop S H now unlock_window jobs claimed report)
                 else
                   claim_loop S H now unlock_window jobs (claimed @ [\<lparr>cj_job = job, cj_attempt = attempt\<rparr>])
                     (report\<lparr>rep_attempted := rep_attempted report + 1\<rparr>))))"

definition claim_due_of_kind ::
    "('w, 'e) job_store_ops \<Rightarrow> 'w job_host \<Rightarrow> instant \<Rightarrow> string \<Rightarrow> utext \<Rightarrow>
     ('w, 'e job_runner_error, claimed_job list \<times> job_run_report) world_run" where
  "claim_due_of_kind S H now unlock_window kind =
     w_bind (w_store (js_due_jobs S now unlock_window)) (\<lambda>jobs.
       claim_loop S H now unlock_window (filter (\<lambda>job. jr_kind job = kind) jobs) [] report_default)"

definition finish_claimed ::
    "chrono_time \<Rightarrow> ('w, 'e) job_store_ops \<Rightarrow> 'w job_host \<Rightarrow> claimed_job \<Rightarrow> job_execution \<Rightarrow>
     ('w, 'e job_runner_error, job_run_report) world_run" where
  "finish_claimed t S H claimed execution =
     w_bind (w_read (host_now H)) (\<lambda>completed_at.
     w_bind (apply_execution t S (cj_job claimed) (cj_attempt claimed) execution completed_at report_default)
       (\<lambda>(_, report). w_return report))"

subsection \<open>One invocation\<close>

text \<open>
  One turn of the watcher: a failed read cancels the handler, as a request or the caller's token does.
\<close>

definition watcher_poll ::
    "('w, 'e) job_store_ops \<Rightarrow> 'w job_host \<Rightarrow> 128 word \<Rightarrow> bool \<Rightarrow> 'w \<Rightarrow> bool \<times> 'w" where
  "watcher_poll S H ident token w =
     (if token then (True, w)
      else
        case js_cancellation_requested S ident w of
          (Inl _, w) \<Rightarrow> (True, w)
        | (Inr requested, w) \<Rightarrow>
            (case host_is_cancelled H w of (cancelled, w) \<Rightarrow> (cancelled \<or> requested, w)))"

primrec run_handler ::
    "('w, 'e) job_store_ops \<Rightarrow> 'w job_host \<Rightarrow> 128 word \<Rightarrow> 'w handler_run \<Rightarrow> bool \<Rightarrow> 'w \<Rightarrow> (job_execution \<times> bool) \<times> 'w" where
  "run_handler S H ident (Done execution) = (\<lambda>token w. ((execution, token), w))"
| "run_handler S H ident (Step polled step) = (\<lambda>token w.
     (case (if polled then watcher_poll S H ident token w else (token, w)) of
        (token, w) \<Rightarrow>
          (case map_prod id (run_handler S H ident) (step token w) of (w, rest) \<Rightarrow> rest token w)))"

definition decide_execution :: "bool \<Rightarrow> bool \<Rightarrow> job_execution \<Rightarrow> job_execution" where
  "decide_execution was_cancelled marked_committed execution =
     (if was_cancelled \<and> execution \<noteq> Committed \<and> \<not> marked_committed then Cancelled
      else if marked_committed \<and> execution = Succeeded then Committed
      else execution)"

text \<open>\<^verbatim>\<open>unwrap_or(false)\<close>: a failed read is not committed.\<close>

definition read_committed :: "('w, 'e) job_store_ops \<Rightarrow> 128 word \<Rightarrow> 'w \<Rightarrow> bool \<times> 'w" where
  "read_committed S ident w = (case js_committed S ident w of (Inl _, w) \<Rightarrow> (False, w) | (Inr b, w) \<Rightarrow> (b, w))"

definition conclude_invocation ::
    "chrono_time \<Rightarrow> ('w, 'e) job_store_ops \<Rightarrow> 'w job_host \<Rightarrow> job_record \<Rightarrow> int \<Rightarrow> job_execution \<Rightarrow> bool \<Rightarrow> job_run_report \<Rightarrow>
     ('w, 'e job_runner_error, string \<times> job_run_report) world_run" where
  "conclude_invocation t S H job attempt execution was_cancelled report =
     w_bind (w_read (read_committed S (jr_id job))) (\<lambda>marked_committed.
     w_bind (w_read (host_now H)) (\<lambda>completed_at.
       apply_execution t S job attempt (decide_execution was_cancelled marked_committed execution) completed_at report))"

definition run_invocation ::
    "chrono_time \<Rightarrow> ('w, 'e) job_store_ops \<Rightarrow> 'w job_host \<Rightarrow> 'w job_executor \<Rightarrow> job_record \<Rightarrow> int \<Rightarrow> job_run_report \<Rightarrow>
     ('w, 'e job_runner_error, string \<times> job_run_report) world_run" where
  "run_invocation t S H X job attempt report =
     w_bind (w_read (host_is_cancelled H)) (\<lambda>cancelled.
     w_bind (w_read (run_handler S H (jr_id job) (je_execute X job) cancelled)) (\<lambda>(execution, was_cancelled).
       conclude_invocation t S H job attempt execution was_cancelled report))"

text \<open>A row the policy does not run.\<close>

definition skip_claimed ::
    "('w, 'e) job_store_ops \<Rightarrow> 'w job_host \<Rightarrow> job_record \<Rightarrow> job_run_report \<Rightarrow>
     ('w, 'e job_runner_error, job_run_report) world_run" where
  "skip_claimed S H job report =
     w_bind (w_read (host_now H)) (\<lambda>skipped_at.
     w_bind (w_store (js_finish_skipped S job skipped_at)) (\<lambda>finish.
       if finish = Finish_Cancelled then cancel_claimed S H job report
       else w_return (report\<lparr>rep_skipped := rep_skipped report + 1\<rparr>)))"

primrec run_loop ::
    "chrono_time \<Rightarrow> ('w, 'e) job_store_ops \<Rightarrow> 'w job_host \<Rightarrow> 'w job_executor \<Rightarrow> instant \<Rightarrow> string \<Rightarrow> job_record list \<Rightarrow>
     job_run_report \<Rightarrow> ('w, 'e job_runner_error, job_run_report) world_run" where
  "run_loop t S H X now unlock_window [] report = w_return report"
| "run_loop t S H X now unlock_window (job # jobs) report =
     w_bind (w_read (host_is_cancelled H)) (\<lambda>stop.
       if stop then w_return report
       else
         let attempt = min (jr_attempts job + 1) 4294967295
         in if attempt > jr_max_attempts job
            then w_bind (give_up S H job now report) (\<lambda>report. run_loop t S H X now unlock_window jobs report)
            else
              w_bind (w_store (js_claim_job S (jr_id job) attempt now unlock_window)) (\<lambda>won.
                if \<not> won then run_loop t S H X now unlock_window jobs report
                else
                  w_bind (w_store (js_cancellation_requested S (jr_id job))) (\<lambda>requested.
                    if requested
                    then w_bind (cancel_claimed S H job report) (\<lambda>report. run_loop t S H X now unlock_window jobs report)
                    else
                      w_bind (\<lambda>w. (Inr (je_should_run X job w), w)) (\<lambda>allowed.
                        if \<not> allowed
                        then w_bind (skip_claimed S H job report) (\<lambda>report. run_loop t S H X now unlock_window jobs report)
                        else
                          w_bind (run_invocation t S H X job attempt (report\<lparr>rep_attempted := rep_attempted report + 1\<rparr>))
                            (\<lambda>(_, report). run_loop t S H X now unlock_window jobs report)))))"

definition run_due_with_clock ::
    "chrono_time \<Rightarrow> ('w, 'e) job_store_ops \<Rightarrow> 'w job_host \<Rightarrow> 'w job_executor \<Rightarrow> utext list \<Rightarrow> instant \<Rightarrow> string \<Rightarrow>
     ('w, 'e job_runner_error, job_run_report) world_run" where
  "run_due_with_clock t S H X excluded now unlock_window =
     w_bind (w_store (js_recover_running S now)) (\<lambda>recovered.
     w_bind (w_store (js_due_jobs S now unlock_window)) (\<lambda>jobs.
       run_loop t S H X now unlock_window (filter (\<lambda>job. jr_kind job \<notin> set excluded) jobs)
         (report_default\<lparr>rep_recovered := recovered\<rparr>)))"

section \<open>The worker's store\<close>

record job_world =
  jw_table :: job_table
  jw_calls :: nat

text \<open>
  One call of the store: other threads may have changed the table since the last one, and the
  database may fail.
\<close>

definition db_call ::
    "(nat \<Rightarrow> job_table \<Rightarrow> job_table) \<Rightarrow> (nat \<Rightarrow> bool) \<Rightarrow> (job_table \<Rightarrow> (job_store_error, 'a) res \<times> job_table) \<Rightarrow>
     (job_world, job_store_error, 'a) world_run" where
  "db_call env fault f w =
     (let T = env (jw_calls w) (jw_table w);
          (r, T') = (if fault (jw_calls w) then (Inl Store_Sqlite, T) else f T)
      in (r, \<lparr>jw_table = T', jw_calls = jw_calls w + 1\<rparr>))"

definition ok_call :: "'a \<times> job_table \<Rightarrow> (job_store_error, 'a) res \<times> job_table" where
  "ok_call p = (Inr (fst p), snd p)"

definition db_job_store ::
    "chrono_time \<Rightarrow> (nat \<Rightarrow> job_table \<Rightarrow> job_table) \<Rightarrow> (nat \<Rightarrow> bool) \<Rightarrow> (job_world, job_store_error) job_store_ops" where
  "db_job_store t env fault =
     \<lparr>js_recover_running = (\<lambda>now. db_call env fault (recover_running t now)),
      js_due_jobs = (\<lambda>now unlock_window. db_call env fault (\<lambda>T. (due_jobs t now unlock_window T, T))),
      js_claim_job = (\<lambda>ident attempt started_at unlock_window.
        db_call env fault (\<lambda>T. ok_call (claim_job t ident attempt started_at unlock_window T))),
      js_cancellation_requested = (\<lambda>ident. db_call env fault (\<lambda>T. (Inr (job_cancellation_requested ident T), T))),
      js_committed = (\<lambda>ident. db_call env fault (\<lambda>T. (Inr (job_committed ident T), T))),
      js_finish_success = (\<lambda>job completed_at next_due_at.
        db_call env fault (\<lambda>T. ok_call (finish_success t job completed_at next_due_at T))),
      js_finish_committed = (\<lambda>job completed_at next_due_at.
        db_call env fault (\<lambda>T. ok_call (finish_committed t job completed_at next_due_at T))),
      js_finish_failure = (\<lambda>job failed_at failure retry_at.
        db_call env fault (\<lambda>T. ok_call (finish_failure t job failed_at failure retry_at T))),
      js_finish_cancelled = (\<lambda>job cancelled_at reason.
        db_call env fault (\<lambda>T. ok_call (finish_cancelled t job cancelled_at reason T))),
      js_finish_skipped = (\<lambda>job skipped_at. db_call env fault (\<lambda>T. ok_call (finish_skipped t job skipped_at T)))\<rparr>"

definition run_due_jobs_with_clock where
  "run_due_jobs_with_clock t env fault H X now unlock_window =
     run_due_with_clock t (db_job_store t env fault) H X lock_releasing_job_kinds now unlock_window"

definition claim_due_jobs_of_kind where
  "claim_due_jobs_of_kind t env fault H kind now unlock_window =
     claim_due_of_kind (db_job_store t env fault) H now unlock_window kind"

definition finish_claimed_job where
  "finish_claimed_job t env fault H claimed execution =
     finish_claimed t (db_job_store t env fault) H claimed execution"

end
