(* ===== verification/Job_Sweep.thy ===== *)
theory Job_Sweep
  imports Job_Runner
begin

text \<open>
  What a sweep of the runner does: its accounts, the interface \<open>job_store\<close> it relies on with the
  worker's store as its instance, and the fate of work that has committed.
\<close>

section \<open>Sequences of steps\<close>

lemma w_bind_Inr: "w_bind m f w = (Inr y, v) \<longleftrightarrow> (\<exists>x u. m w = (Inr x, u) \<and> f x u = (Inr y, v))"
  by (auto simp: w_bind_def split: prod.split sum.split)

lemma w_store_Inr: "w_store m w = (Inr y, v) \<longleftrightarrow> m w = (Inr y, v)"
  by (auto simp: w_store_def split: prod.split sum.split)

lemma w_read_Inr: "w_read f w = (Inr y, v) \<longleftrightarrow> f w = (y, v)"
  by (auto simp: w_read_def split: prod.split)

lemma w_return_Inr: "w_return x w = (Inr y, v) \<longleftrightarrow> x = y \<and> w = v"
  by (simp add: w_return_def)

lemma w_or_panic_Inr: "w_or_panic x w = (Inr y, v) \<longleftrightarrow> x = Some y \<and> w = v"
  by (cases x) (simp_all add: w_or_panic_def w_return_def w_fail_def)

lemmas world_steps = w_bind_Inr w_store_Inr w_read_Inr w_return_Inr w_or_panic_Inr

section \<open>The accounts of a sweep\<close>

definition rep_outcomes :: "job_run_report \<Rightarrow> nat" where
  "rep_outcomes r = rep_succeeded r + rep_failed r + rep_cancelled r + rep_skipped r"

text \<open>A row adds one outcome, and keeps the numbers of rows recovered and attempted.\<close>

definition one_more :: "job_run_report \<Rightarrow> job_run_report \<Rightarrow> bool" where
  "one_more r s \<longleftrightarrow> rep_outcomes s = rep_outcomes r + 1 \<and> rep_recovered s = rep_recovered r \<and>
     rep_attempted s = rep_attempted r"

lemma one_more_updates:
  "one_more r (r\<lparr>rep_succeeded := rep_succeeded r + 1\<rparr>)" "one_more r (r\<lparr>rep_failed := rep_failed r + 1\<rparr>)"
  "one_more r (r\<lparr>rep_cancelled := rep_cancelled r + 1\<rparr>)" "one_more r (r\<lparr>rep_skipped := rep_skipped r + 1\<rparr>)"
  by (simp_all add: one_more_def rep_outcomes_def)

lemma record_cancelled_report:
  "record_cancelled S job n rep w = (Inr (l, rep'), v) \<Longrightarrow> l = ''cancelled'' \<and> one_more rep rep'"
  by (auto simp: record_cancelled_def world_steps intro: one_more_updates [simplified])

lemma apply_execution_report:
  "apply_execution t S job a e n rep w = (Inr (l, rep'), v) \<Longrightarrow> one_more rep rep'"
  by (cases e)
    (auto simp: apply_execution_def world_steps simp del: One_nat_def split: if_splits
      dest: record_cancelled_report intro: one_more_updates)

lemma give_up_report: "give_up S H job n rep w = (Inr rep', v) \<Longrightarrow> one_more rep rep'"
  by (auto simp: give_up_def world_steps simp del: One_nat_def split: if_splits prod.splits
      dest: record_cancelled_report intro: one_more_updates)

lemma cancel_claimed_report: "cancel_claimed S H job rep w = (Inr rep', v) \<Longrightarrow> one_more rep rep'"
  by (auto simp: cancel_claimed_def world_steps split: prod.splits dest: record_cancelled_report)

lemma skip_claimed_report: "skip_claimed S H job rep w = (Inr rep', v) \<Longrightarrow> one_more rep rep'"
  by (auto simp: skip_claimed_def world_steps simp del: One_nat_def split: if_splits
      dest: cancel_claimed_report intro: one_more_updates)

lemma run_invocation_report: "run_invocation t S H X job a rep w = (Inr (l, rep'), v) \<Longrightarrow> one_more rep rep'"
  by (auto simp: run_invocation_def conclude_invocation_def world_steps split: prod.splits dest: apply_execution_report)

text \<open>The ways of one turn of the loop that ends well.\<close>

lemma run_loop_ConsE:
  assumes "run_loop t S H X now u (job # jobs) rep w = (Inr rep', v)"
  obtains
    (stop) "host_is_cancelled H w = (True, v)" "rep' = rep"
  | (give_up) w1 w2 r1 where "host_is_cancelled H w = (False, w1)" "give_up S H job now rep w1 = (Inr r1, w2)"
      "run_loop t S H X now u jobs r1 w2 = (Inr rep', v)"
  | (lost) w1 w2 a where "host_is_cancelled H w = (False, w1)" "js_claim_job S (jr_id job) a now u w1 = (Inr False, w2)"
      "run_loop t S H X now u jobs rep w2 = (Inr rep', v)"
  | (requested) w1 w2 w3 w4 r1 a where "host_is_cancelled H w = (False, w1)"
      "js_claim_job S (jr_id job) a now u w1 = (Inr True, w2)"
      "js_cancellation_requested S (jr_id job) w2 = (Inr True, w3)" "cancel_claimed S H job rep w3 = (Inr r1, w4)"
      "run_loop t S H X now u jobs r1 w4 = (Inr rep', v)"
  | (skip) w1 w2 w3 w4 r1 a where "host_is_cancelled H w = (False, w1)"
      "js_claim_job S (jr_id job) a now u w1 = (Inr True, w2)"
      "js_cancellation_requested S (jr_id job) w2 = (Inr False, w3)" "skip_claimed S H job rep w3 = (Inr r1, w4)"
      "run_loop t S H X now u jobs r1 w4 = (Inr rep', v)"
  | (run) w1 w2 w3 w4 r1 l a where "host_is_cancelled H w = (False, w1)"
      "js_claim_job S (jr_id job) a now u w1 = (Inr True, w2)"
      "js_cancellation_requested S (jr_id job) w2 = (Inr False, w3)"
      "run_invocation t S H X job a (rep\<lparr>rep_attempted := rep_attempted rep + 1\<rparr>) w3 = (Inr (l, r1), w4)"
      "run_loop t S H X now u jobs r1 w4 = (Inr rep', v)"
proof -
  define a where "a = min (jr_attempts job + 1) 4294967295"
  note body = assms [unfolded run_loop.simps w_bind_Inr w_read_Inr Let_def, folded a_def]
  from body obtain b w1 where h: "host_is_cancelled H w = (b, w1)" by blast
  show thesis
  proof (cases b)
    case True
    then show thesis using body h stop by (auto simp: w_return_Inr)
  next
    case b: False
    have h: "host_is_cancelled H w = (False, w1)" using h b by simp
    show thesis
    proof (cases "a > jr_max_attempts job")
      case True
      then show thesis using body h b give_up by (auto simp: w_bind_Inr)
    next
      case False
      then obtain c w2 where c: "js_claim_job S (jr_id job) a now u w1 = (Inr c, w2)"
        and rest: "(if \<not> c then run_loop t S H X now u jobs rep
                else
                  w_bind (w_store (js_cancellation_requested S (jr_id job))) (\<lambda>requested.
                    if requested
                    then w_bind (cancel_claimed S H job rep) (\<lambda>report. run_loop t S H X now u jobs report)
                    else
                      w_bind (\<lambda>w. (Inr (je_should_run X job w), w)) (\<lambda>allowed.
                        if \<not> allowed
                        then w_bind (skip_claimed S H job rep) (\<lambda>report. run_loop t S H X now u jobs report)
                        else
                          w_bind (run_invocation t S H X job a (rep\<lparr>rep_attempted := rep_attempted rep + 1\<rparr>))
                            (\<lambda>(_, report). run_loop t S H X now u jobs report)))) w2 = (Inr rep', v)"
        using body h b by (auto simp only: w_bind_Inr w_store_Inr if_False simp_thms)
      show thesis
      proof (cases c)
        case False
        then show thesis using rest c h lost by simp
      next
        case True
        with rest obtain q w3 where q: "js_cancellation_requested S (jr_id job) w2 = (Inr q, w3)"
          and rest: "(if q then w_bind (cancel_claimed S H job rep) (\<lambda>report. run_loop t S H X now u jobs report)
                    else
                      w_bind (\<lambda>w. (Inr (je_should_run X job w), w)) (\<lambda>allowed.
                        if \<not> allowed
                        then w_bind (skip_claimed S H job rep) (\<lambda>report. run_loop t S H X now u jobs report)
                        else
                          w_bind (run_invocation t S H X job a (rep\<lparr>rep_attempted := rep_attempted rep + 1\<rparr>))
                            (\<lambda>(_, report). run_loop t S H X now u jobs report))) w3 = (Inr rep', v)"
          by (auto simp only: w_bind_Inr w_store_Inr if_False simp_thms)
        have c: "js_claim_job S (jr_id job) a now u w1 = (Inr True, w2)" using c True by simp
        show thesis
        proof (cases q)
          case True
          then show thesis using rest q c h requested by (auto simp: w_bind_Inr)
        next
          case False
          then show thesis
            using rest q c h skip [OF h c] run [OF h c] by (auto simp: w_bind_Inr split: if_splits)
        qed
      qed
    qed
  qed
qed

lemma run_loop_report:
  "run_loop t S H X now u jobs rep w = (Inr rep', v) \<Longrightarrow>
   rep_recovered rep' = rep_recovered rep \<and> rep_outcomes rep \<le> rep_outcomes rep' \<and>
   rep_outcomes rep' \<le> rep_outcomes rep + length jobs \<and> rep_attempted rep \<le> rep_attempted rep' \<and>
   rep_attempted rep' - rep_attempted rep \<le> rep_outcomes rep' - rep_outcomes rep"
proof (induction jobs arbitrary: rep w)
  case Nil
  then show ?case by (simp add: world_steps)
next
  case (Cons job jobs)
  have step: ?case if "one_more r r1" "rep_recovered r = rep_recovered rep" "rep_outcomes r = rep_outcomes rep"
      "rep_attempted rep \<le> rep_attempted r" "rep_attempted r \<le> rep_attempted rep + 1"
      "run_loop t S H X now u jobs r1 w1 = (Inr rep', v)" for r r1 w1
    using Cons.IH [OF that(6)] that(1-5) unfolding one_more_def by auto
  from Cons.prems show ?case
  proof (cases rule: run_loop_ConsE)
    case stop
    then show ?thesis by simp
  next
    case (give_up w1 w2 r1)
    from give_up_report [OF give_up(2)] show ?thesis by (rule step [OF _ _ _ _ _ give_up(3)]) simp_all
  next
    case (lost w1 w2 a)
    from Cons.IH [OF lost(3)] show ?thesis by simp
  next
    case (requested w1 w2 w3 w4 r1 a)
    from cancel_claimed_report [OF requested(4)] show ?thesis by (rule step [OF _ _ _ _ _ requested(5)]) simp_all
  next
    case (skip w1 w2 w3 w4 r1 a)
    from skip_claimed_report [OF skip(4)] show ?thesis by (rule step [OF _ _ _ _ _ skip(5)]) simp_all
  next
    case (run w1 w2 w3 w4 r1 l a)
    from run_invocation_report [OF run(4)] show ?thesis
      by (rule step [OF _ _ _ _ _ run(5)]) (simp_all add: rep_outcomes_def)
  qed
qed

text \<open>for any store, a sweep that completes counts every row it settled under exactly one outcome,
  at most one per due row of its kinds, attempts no more than it settled, and reports as recovered
  what the store recovered.\<close>

theorem run_due_accounts:
  assumes "run_due_with_clock t S H X excluded now u w = (Inr rep, v)"
  shows "\<exists>recovered jobs w1 w2. js_recover_running S now w = (Inr recovered, w1) \<and>
    js_due_jobs S now u w1 = (Inr jobs, w2) \<and> rep_recovered rep = recovered \<and>
    rep_succeeded rep + rep_failed rep + rep_cancelled rep + rep_skipped rep
      \<le> length (filter (\<lambda>job. jr_kind job \<notin> set excluded) jobs) \<and>
    rep_attempted rep \<le> rep_succeeded rep + rep_failed rep + rep_cancelled rep + rep_skipped rep"
proof -
  from assms obtain recovered jobs w1 w2 where s: "js_recover_running S now w = (Inr recovered, w1)"
    "js_due_jobs S now u w1 = (Inr jobs, w2)"
    "run_loop t S H X now u (filter (\<lambda>job. jr_kind job \<notin> set excluded) jobs)
       (report_default\<lparr>rep_recovered := recovered\<rparr>) w2 = (Inr rep, v)"
    by (auto simp: run_due_with_clock_def world_steps)
  from run_loop_report [OF s(3)] s(1,2) show ?thesis
    by (simp add: report_default_def rep_outcomes_def)
qed

text \<open>A sweep of an empty store.\<close>

definition idle_host :: "job_world job_host" where
  "idle_host = \<lparr>host_now = (\<lambda>w. (0, w)), host_is_cancelled = (\<lambda>w. (False, w))\<rparr>"

definition done_executor :: "job_execution \<Rightarrow> 'w job_executor" where
  "done_executor e = \<lparr>je_should_run = (\<lambda>_ _. True), je_execute = (\<lambda>_. Done e)\<rparr>"

lemma run_due_accounts_witness:
  "run_due_with_clock decimal_time (db_job_store decimal_time (\<lambda>_ T. T) (\<lambda>_. False)) idle_host (done_executor Succeeded)
     [] 0 ''w1'' \<lparr>jw_table = [], jw_calls = 0\<rparr> = (Inr report_default, \<lparr>jw_table = [], jw_calls = 2\<rparr>) \<and>
   rep_attempted report_default \<le> 0"
proof -
  have r: "run_due_with_clock decimal_time (db_job_store decimal_time (\<lambda>_ T. T) (\<lambda>_. False)) idle_host (done_executor Succeeded)
     [] 0 ''w1'' \<lparr>jw_table = [], jw_calls = 0\<rparr> = (Inr report_default, \<lparr>jw_table = [], jw_calls = 2\<rparr>)"
    by (simp add: run_due_with_clock_def w_bind_def w_store_def w_return_def db_job_store_def db_call_def
        recover_running_def due_jobs_def rows_from_query_def order_by_due_def sql_count_def report_default_def)
  from run_due_accounts [OF r] r show ?thesis by (auto simp: report_default_def)
qed

section \<open>What the runner relies on\<close>

text \<open>
  The contract of a store, by the set of jobs it holds as running: claiming adds the job, a terminal
  write that applies removes it, one that lost to a cancellation leaves it, recovery empties the set,
  and reading changes nothing.
\<close>

locale job_store =
  fixes S :: "('w, 'e) job_store_ops"
    and good :: "'w \<Rightarrow> bool"
    and running :: "'w \<Rightarrow> (128 word) set"
  assumes recover: "good w \<Longrightarrow> js_recover_running S now w = (Inr n, v) \<Longrightarrow> good v \<and> running v = {}"
    and due_jobs: "good w \<Longrightarrow> js_due_jobs S now u w = (Inr js, v) \<Longrightarrow> good v \<and> running v = running w"
    and claim: "good w \<Longrightarrow> js_claim_job S i a now u w = (Inr b, v) \<Longrightarrow>
      good v \<and> running v = (if b then insert i (running w) else running w)"
    and requested: "good w \<Longrightarrow> js_cancellation_requested S i w = (r, v) \<Longrightarrow> good v \<and> running v = running w"
    and committed: "good w \<Longrightarrow> js_committed S i w = (r, v) \<Longrightarrow> good v \<and> running v = running w"
    and success: "good w \<Longrightarrow> js_finish_success S j now d w = (Inr f, v) \<Longrightarrow>
      good v \<and> running v = (if f = Applied then running w - {jr_id j} else running w)"
    and commit: "good w \<Longrightarrow> js_finish_committed S j now d w = (Inr x, v) \<Longrightarrow>
      good v \<and> running v = running w - {jr_id j}"
    and failure: "good w \<Longrightarrow> js_finish_failure S j now g d w = (Inr f, v) \<Longrightarrow>
      good v \<and> running v = (if f = Applied then running w - {jr_id j} else running w)"
    and cancelled: "good w \<Longrightarrow> js_finish_cancelled S j now m w = (Inr x, v) \<Longrightarrow>
      good v \<and> running v = running w - {jr_id j}"
    and skipped: "good w \<Longrightarrow> js_finish_skipped S j now w = (Inr f, v) \<Longrightarrow>
      good v \<and> running v = (if f = Applied then running w - {jr_id j} else running w)"
begin

text \<open>Steps of the world that neither claim nor settle a job: the clock, the token, a handler.\<close>

definition quiet :: "'w \<Rightarrow> 'w \<Rightarrow> bool" where
  "quiet w v \<longleftrightarrow> (good w \<longrightarrow> good v \<and> running v = running w)"

definition settles :: "'w \<Rightarrow> 'w \<Rightarrow> 128 word \<Rightarrow> bool" where
  "settles w v i \<longleftrightarrow> good v \<and> running v = running w - {i}"

lemma record_cancelled_settles:
  "good w \<Longrightarrow> record_cancelled S job n rep w = (Inr x, v) \<Longrightarrow> settles w v (jr_id job)"
  by (auto simp: record_cancelled_def world_steps settles_def dest: cancelled)

lemma finish_settles:
  assumes "good u \<and> running u = (if f = Applied then running w - {jr_id job} else running w)"
    and "(if f = Finish_Cancelled then record_cancelled S job n rep else w_return y) u = (Inr x, v)"
  shows "settles w v (jr_id job)"
proof (cases f)
  case Applied
  with assms show ?thesis by (simp add: world_steps settles_def)
next
  case Finish_Cancelled
  with assms show ?thesis using record_cancelled_settles [of u job n rep x v] by (simp add: settles_def)
qed

lemma apply_execution_settles:
  assumes "good w" "apply_execution t S job a e n rep w = (Inr x, v)"
  shows "settles w v (jr_id job)"
proof (cases e)
  case Succeeded
  with assms(2) obtain d f u where o: "js_finish_success S job n d w = (Inr f, u)"
    "(if f = Finish_Cancelled then record_cancelled S job n rep
      else w_return (''succeeded'', rep\<lparr>rep_succeeded := rep_succeeded rep + 1\<rparr>)) u = (Inr x, v)"
    by (auto simp: apply_execution_def w_bind_Inr w_store_Inr w_or_panic_Inr)
  show ?thesis by (rule finish_settles [OF success [OF assms(1) o(1)] o(2)])
next
  case Committed
  with assms show ?thesis by (auto simp: apply_execution_def world_steps settles_def dest: commit)
next
  case (Failed g)
  with assms(2) obtain d f u where o: "js_finish_failure S job n g d w = (Inr f, u)"
    "(if f = Finish_Cancelled then record_cancelled S job n rep
      else w_return (''failed'', rep\<lparr>rep_failed := rep_failed rep + 1\<rparr>)) u = (Inr x, v)"
    by (auto simp: apply_execution_def w_bind_Inr w_store_Inr w_or_panic_Inr w_return_Inr split: if_splits)
  show ?thesis by (rule finish_settles [OF failure [OF assms(1) o(1)] o(2)])
next
  case Cancelled
  with assms show ?thesis by (auto simp: apply_execution_def dest: record_cancelled_settles)
next
  case Skipped
  with assms(2) obtain f u where o: "js_finish_skipped S job n w = (Inr f, u)"
    "(if f = Finish_Cancelled then record_cancelled S job n rep
      else w_return (''skipped'', rep\<lparr>rep_skipped := rep_skipped rep + 1\<rparr>)) u = (Inr x, v)"
    by (auto simp: apply_execution_def w_bind_Inr w_store_Inr)
  show ?thesis by (rule finish_settles [OF skipped [OF assms(1) o(1)] o(2)])
qed

lemma settles_quiet: "good w \<Longrightarrow> quiet w u \<Longrightarrow> settles u v i \<Longrightarrow> settles w v i"
  by (auto simp: settles_def quiet_def)

lemma watcher_poll_quiet:
  assumes "\<And>w. quiet w (snd (host_is_cancelled H w))"
  shows "quiet w (snd (watcher_poll S H i tok w))"
proof (cases tok)
  case False
  obtain r v where rv: "js_cancellation_requested S i w = (r, v)" by fastforce
  then have q: "quiet w v" using requested by (auto simp: quiet_def)
  have "quiet v (snd (host_is_cancelled H v))" by (rule assms)
  with q False rv show ?thesis
    by (cases "host_is_cancelled H v") (auto simp: watcher_poll_def quiet_def split: sum.split)
qed (simp add: watcher_poll_def quiet_def)

end

inductive handler_keeps :: "('w \<Rightarrow> 'w \<Rightarrow> bool) \<Rightarrow> 'w handler_run \<Rightarrow> bool" for R where
  keeps_done: "handler_keeps R (Done e)"
| keeps_step: "(\<And>tok w. R w (fst (step tok w)) \<and> handler_keeps R (snd (step tok w))) \<Longrightarrow> handler_keeps R (Step p step)"

lemma claim_loop_ConsE:
  assumes "claim_loop S H now u (job # jobs) claimed rep w = (Inr x, v)"
  obtains
    (give_up) w1 r1 where "give_up S H job now rep w = (Inr r1, w1)" "claim_loop S H now u jobs claimed r1 w1 = (Inr x, v)"
  | (lost) w1 a where "js_claim_job S (jr_id job) a now u w = (Inr False, w1)"
      "claim_loop S H now u jobs claimed rep w1 = (Inr x, v)"
  | (requested) w1 w2 w3 r1 a where "js_claim_job S (jr_id job) a now u w = (Inr True, w1)"
      "js_cancellation_requested S (jr_id job) w1 = (Inr True, w2)" "cancel_claimed S H job rep w2 = (Inr r1, w3)"
      "claim_loop S H now u jobs claimed r1 w3 = (Inr x, v)"
  | (claimed) w1 w2 a r1 where "js_claim_job S (jr_id job) a now u w = (Inr True, w1)"
      "js_cancellation_requested S (jr_id job) w1 = (Inr False, w2)" "a = min (jr_attempts job + 1) 4294967295"
      "a \<le> jr_max_attempts job"
      "claim_loop S H now u jobs (claimed @ [\<lparr>cj_job = job, cj_attempt = a\<rparr>]) r1 w2 = (Inr x, v)"
proof -
  define a where "a = min (jr_attempts job + 1) 4294967295"
  note body = assms [unfolded claim_loop.simps Let_def, folded a_def]
  show thesis
  proof (cases "a > jr_max_attempts job")
    case True
    then show thesis using body give_up by (auto simp: w_bind_Inr)
  next
    case False
    with body obtain c w1 where c: "js_claim_job S (jr_id job) a now u w = (Inr c, w1)"
      and rest: "(if \<not> c then claim_loop S H now u jobs claimed rep
             else
               w_bind (w_store (js_cancellation_requested S (jr_id job))) (\<lambda>requested.
                 if requested
                 then w_bind (cancel_claimed S H job rep) (\<lambda>report. claim_loop S H now u jobs claimed report)
                 else
                   claim_loop S H now u jobs (claimed @ [\<lparr>cj_job = job, cj_attempt = a\<rparr>])
                     (rep\<lparr>rep_attempted := rep_attempted rep + 1\<rparr>))) w1 = (Inr x, v)"
      by (auto simp only: w_bind_Inr w_store_Inr if_False simp_thms)
    show thesis
    proof (cases c)
      case False
      then show thesis using rest c lost by simp
    next
      case True
      then have c: "js_claim_job S (jr_id job) a now u w = (Inr True, w1)" using c by simp
      show thesis using rest True \<open>\<not> a > jr_max_attempts job\<close> requested [OF c] claimed [OF c] a_def
        by (auto simp: w_bind_Inr w_store_Inr split: if_splits)
    qed
  qed
qed

context job_store begin

lemma quiet_refl: "quiet w w"
  by (simp add: quiet_def)

lemma quiet_trans: "quiet w u \<Longrightarrow> quiet u v \<Longrightarrow> quiet w v"
  by (simp add: quiet_def)

lemma run_handler_quiet:
  assumes "handler_keeps quiet h" "\<And>w. quiet w (snd (host_is_cancelled H w))"
  shows "quiet w (snd (run_handler S H i h tok w))"
  using assms(1)
proof (induction arbitrary: tok w rule: handler_keeps.induct)
  case (keeps_step step p)
  obtain tok1 w1 where w1: "(if p then watcher_poll S H i tok w else (tok, w)) = (tok1, w1)" by fastforce
  have q1: "quiet w w1"
    using w1 watcher_poll_quiet [OF assms(2), of w i tok] quiet_refl by (auto split: if_splits)
  obtain w2 h2 where w2: "step tok1 w1 = (w2, h2)" by fastforce
  then have "quiet w1 w2" "quiet w2 (snd (run_handler S H i h2 tok1 w2))"
    using keeps_step [of w1 tok1] by auto
  then show ?case using q1 quiet_trans by (auto simp: w1 w2)
qed (simp add: quiet_refl)

lemma read_committed_quiet: "quiet w (snd (read_committed S i w))"
proof -
  obtain r v where "js_committed S i w = (r, v)" by fastforce
  then show ?thesis using committed [of w i r v] by (auto simp: read_committed_def quiet_def split: sum.split)
qed

definition quiet_host :: "'w job_host \<Rightarrow> bool" where
  "quiet_host H \<longleftrightarrow> (\<forall>w. quiet w (snd (host_now H w)) \<and> quiet w (snd (host_is_cancelled H w)))"

lemma host_quiet:
  "quiet_host H \<Longrightarrow> host_now H w = (x, v) \<Longrightarrow> quiet w v"
  "quiet_host H \<Longrightarrow> host_is_cancelled H w = (b, v) \<Longrightarrow> quiet w v"
  by (metis quiet_host_def snd_conv)+

lemma quiet_good: "quiet w v \<Longrightarrow> good w \<Longrightarrow> good v"
  by (simp add: quiet_def)

lemma cancel_claimed_settles:
  assumes "good w" "quiet_host H" "cancel_claimed S H job rep w = (Inr x, v)"
  shows "settles w v (jr_id job)"
proof -
  from assms(3) obtain n w1 y where s: "host_now H w = (n, w1)" "record_cancelled S job n rep w1 = (Inr y, v)"
    by (auto simp: cancel_claimed_def world_steps split: prod.splits)
  show ?thesis
    using settles_quiet [OF assms(1) host_quiet(1) [OF assms(2) s(1)]]
      record_cancelled_settles [OF quiet_good [OF host_quiet(1) [OF assms(2) s(1)] assms(1)] s(2)] by blast
qed

lemma give_up_settles:
  assumes "good w" "quiet_host H" "give_up S H job now rep w = (Inr x, v)"
  shows "settles w v (jr_id job)"
proof -
  from assms(3) obtain f w1 where s:
    "js_finish_failure S job now (job_failure_permanent (ascii ''maximum attempts reached'')) None w = (Inr f, w1)"
    and rest: "(if f = Finish_Cancelled
       then w_bind (w_read (host_now H)) (\<lambda>cancelled_at.
            w_bind (record_cancelled S job cancelled_at rep) (\<lambda>(_, report). w_return report))
       else w_return (rep\<lparr>rep_failed := rep_failed rep + 1\<rparr>)) w1 = (Inr x, v)"
    by (auto simp: give_up_def w_bind_Inr w_store_Inr)
  note f = failure [OF assms(1) s]
  show ?thesis
  proof (cases f)
    case Applied
    with f rest show ?thesis by (simp add: settles_def w_return_Inr)
  next
    case Finish_Cancelled
    with rest have "cancel_claimed S H job rep w1 = (Inr x, v)" by (simp add: cancel_claimed_def)
    then show ?thesis using cancel_claimed_settles [OF _ assms(2)] f Finish_Cancelled by (auto simp: settles_def)
  qed
qed

lemma skip_claimed_settles:
  assumes "good w" "quiet_host H" "skip_claimed S H job rep w = (Inr x, v)"
  shows "settles w v (jr_id job)"
proof -
  from assms(3) obtain n w1 f w2 where s: "host_now H w = (n, w1)" "js_finish_skipped S job n w1 = (Inr f, w2)"
    and rest: "(if f = Finish_Cancelled then cancel_claimed S H job rep
       else w_return (rep\<lparr>rep_skipped := rep_skipped rep + 1\<rparr>)) w2 = (Inr x, v)"
    by (auto simp: skip_claimed_def w_bind_Inr w_store_Inr w_read_Inr)
  note q = host_quiet(1) [OF assms(2) s(1)]
  note f = skipped [OF quiet_good [OF q assms(1)] s(2)]
  have "settles w1 v (jr_id job)"
  proof (cases f)
    case Applied
    with f rest show ?thesis by (simp add: settles_def w_return_Inr)
  next
    case Finish_Cancelled
    then show ?thesis using cancel_claimed_settles [OF _ assms(2), of w2 job rep x v] rest f by (simp add: settles_def)
  qed
  then show ?thesis by (rule settles_quiet [OF assms(1) q])
qed

lemma conclude_invocation_settles:
  assumes "good w" "quiet_host H" "conclude_invocation t S H job a e c rep w = (Inr x, v)"
  shows "settles w v (jr_id job)"
proof -
  from assms(3) obtain m w1 n w2 where s: "read_committed S (jr_id job) w = (m, w1)" "host_now H w1 = (n, w2)"
    "apply_execution t S job a (decide_execution c m e) n rep w2 = (Inr x, v)"
    by (auto simp: conclude_invocation_def world_steps)
  have "quiet w w1" using read_committed_quiet [of w "jr_id job"] s(1) by simp
  then have q: "quiet w w2" using host_quiet(1) [OF assms(2) s(2)] quiet_trans by blast
  show ?thesis
    using settles_quiet [OF assms(1) q apply_execution_settles [OF quiet_good [OF q assms(1)] s(3)]] .
qed

lemma run_invocation_settles:
  assumes "good w" "quiet_host H" "handler_keeps quiet (je_execute X job)" "run_invocation t S H X job a rep w = (Inr x, v)"
  shows "settles w v (jr_id job)"
proof -
  from assms(4) obtain b w1 e c w2 where s: "host_is_cancelled H w = (b, w1)"
    "run_handler S H (jr_id job) (je_execute X job) b w1 = ((e, c), w2)"
    "conclude_invocation t S H job a e c rep w2 = (Inr x, v)"
    by (auto simp: run_invocation_def world_steps split: prod.splits)
  have "quiet w1 w2"
    using run_handler_quiet [OF assms(3), of H w1 "jr_id job" b] assms(2) s(2) by (simp add: quiet_host_def)
  then have q: "quiet w w2" using host_quiet(2) [OF assms(2) s(1)] quiet_trans by blast
  show ?thesis
    using settles_quiet [OF assms(1) q conclude_invocation_settles [OF quiet_good [OF q assms(1)] assms(2) s(3)]] .
qed

text \<open>Every job a sweep claims it also settles.\<close>

lemma run_loop_settles:
  assumes "quiet_host H" "\<And>job. handler_keeps quiet (je_execute X job)"
  shows "good w \<Longrightarrow> run_loop t S H X now u jobs rep w = (Inr rep', v) \<Longrightarrow> good v \<and> running v \<subseteq> running w"
proof (induction jobs arbitrary: rep w)
  case Nil
  then show ?case by (simp add: world_steps)
next
  case (Cons job jobs)
  have claimed: "good w4 \<and> running w4 \<subseteq> running w"
    if "host_is_cancelled H w = (False, w1)" "js_claim_job S (jr_id job) a now u w1 = (Inr True, w2)"
      "js_cancellation_requested S (jr_id job) w2 = (Inr c, w3)" "good w3 \<Longrightarrow> settles w3 w4 (jr_id job)" for w1 w2 w3 w4 a c
  proof -
    have "good w1" "running w1 = running w" using host_quiet(2) [OF assms(1) that(1)] Cons.prems(1) by (simp_all add: quiet_def)
    then show ?thesis using claim [OF _ that(2)] requested [OF _ that(3)] that(4) by (auto simp: settles_def)
  qed
  have next': ?case if "good w1 \<and> running w1 \<subseteq> running w" "run_loop t S H X now u jobs r1 w1 = (Inr rep', v)" for r1 w1
    using Cons.IH [OF _ that(2)] that(1) by auto
  from Cons.prems(2) show ?case
  proof (cases rule: run_loop_ConsE)
    case stop
    then show ?thesis using host_quiet(2) [OF assms(1) stop(1)] Cons.prems(1) by (simp add: quiet_def)
  next
    case (give_up w1 w2 r1)
    have q: "good w1" "running w1 = running w" using host_quiet(2) [OF assms(1) give_up(1)] Cons.prems(1) by (simp_all add: quiet_def)
    then have "good w2 \<and> running w2 \<subseteq> running w" using give_up_settles [OF q(1) assms(1) give_up(2)] by (auto simp: settles_def)
    then show ?thesis by (rule next' [OF _ give_up(3)])
  next
    case (lost w1 w2 a)
    have q: "good w1" "running w1 = running w" using host_quiet(2) [OF assms(1) lost(1)] Cons.prems(1) by (simp_all add: quiet_def)
    then have "good w2 \<and> running w2 \<subseteq> running w" using claim [OF q(1) lost(2)] by simp
    then show ?thesis by (rule next' [OF _ lost(3)])
  next
    case (requested w1 w2 w3 w4 r1 a)
    show ?thesis by (rule next' [OF claimed [OF requested(1-3)] requested(5)]) (rule cancel_claimed_settles [OF _ assms(1) requested(4)])
  next
    case (skip w1 w2 w3 w4 r1 a)
    show ?thesis by (rule next' [OF claimed [OF skip(1-3)] skip(5)]) (rule skip_claimed_settles [OF _ assms(1) skip(4)])
  next
    case (run w1 w2 w3 w4 r1 l a)
    show ?thesis by (rule next' [OF claimed [OF run(1-3)] run(5)]) (rule run_invocation_settles [OF _ assms run(4)])
  qed
qed

lemma run_due_settles:
  assumes "quiet_host H" "\<And>job. handler_keeps quiet (je_execute X job)" "good w"
    and "run_due_with_clock t S H X excluded now u w = (Inr rep, v)"
  shows "good v \<and> running v = {}"
proof -
  from assms(4) obtain n js w1 w2 rep0 where s: "js_recover_running S now w = (Inr n, w1)" "js_due_jobs S now u w1 = (Inr js, w2)"
    "run_loop t S H X now u (filter (\<lambda>job. jr_kind job \<notin> set excluded) js) rep0 w2 = (Inr rep, v)"
    by (auto simp: run_due_with_clock_def world_steps)
  then show ?thesis using recover [OF assms(3) s(1)] due_jobs [OF _ s(2)] run_loop_settles [OF assms(1,2) _ s(3)] by auto
qed

lemma claim_loop_running:
  assumes "quiet_host H"
  shows "good w \<Longrightarrow> running w = (jr_id \<circ> cj_job) ` set claimed \<Longrightarrow> distinct (map jr_id jobs) \<Longrightarrow>
    jr_id ` set jobs \<inter> running w = {} \<Longrightarrow> claim_loop S H now u jobs claimed rep w = (Inr (claimed', rep'), v) \<Longrightarrow>
    good v \<and> running v = (jr_id \<circ> cj_job) ` set claimed' \<and> set claimed \<subseteq> set claimed' \<and>
    (\<forall>c \<in> set claimed' - set claimed. cj_job c \<in> set jobs \<and> cj_attempt c \<le> jr_max_attempts (cj_job c))"
proof (induction jobs arbitrary: claimed rep w)
  case Nil
  then show ?case by (simp add: world_steps)
next
  case (Cons job jobs)
  note pre = Cons.prems(1-4)
  have step: ?case if "good w1" "running w1 = running w" "claim_loop S H now u jobs claimed r1 w1 = (Inr (claimed', rep'), v)" for r1 w1
    using Cons.IH [OF that(1) _ _ _ that(3)] that(2) pre by auto
  from Cons.prems(5) show ?case
  proof (cases rule: claim_loop_ConsE)
    case (give_up w1 r1)
    then show ?thesis using give_up_settles [OF pre(1) assms give_up(1)] pre(4) by (intro step) (auto simp: settles_def)
  next
    case (lost w1 a)
    then show ?thesis using claim [OF pre(1) lost(1)] by (intro step) auto
  next
    case (requested w1 w2 w3 r1 a)
    have g: "good w1" "running w1 = insert (jr_id job) (running w)" using claim [OF pre(1) requested(1)] by auto
    have g2: "good w2" "running w2 = running w1" using job_store.requested [OF job_store_axioms g(1) requested(2)] by auto
    show ?thesis using cancel_claimed_settles [OF g2(1) assms requested(3)] g g2 pre(4) requested(4)
      by (intro step) (auto simp: settles_def)
  next
    case (claimed w1 w2 a r1)
    have g: "good w1" "running w1 = insert (jr_id job) (running w)" using claim [OF pre(1) claimed(1)] by auto
    have g2: "good w2" "running w2 = running w1" using requested [OF g(1) claimed(2)] by auto
    have "running w2 = (jr_id \<circ> cj_job) ` set (claimed @ [\<lparr>cj_job = job, cj_attempt = a\<rparr>])" using g g2 pre(2) by simp
    from Cons.IH [OF g2(1) this _ _ claimed(5)] g g2 pre(3,4) claimed(4) show ?thesis by auto
  qed
qed

lemma finish_claimed_settles:
  assumes "good w" "quiet_host H" "finish_claimed t S H c e w = (Inr rep, v)"
  shows "settles w v (jr_id (cj_job c))"
proof -
  from assms(3) obtain n w1 y where s: "host_now H w = (n, w1)"
    "apply_execution t S (cj_job c) (cj_attempt c) e n report_default w1 = (Inr y, v)"
    by (auto simp: finish_claimed_def world_steps split: prod.splits)
  note q = host_quiet(1) [OF assms(2) s(1)]
  show ?thesis by (rule settles_quiet [OF assms(1) q apply_execution_settles [OF quiet_good [OF q assms(1)] s(2)]])
qed

end

end
