(* ===== verification/Job_Worker.thy ===== *)
theory Job_Worker
  imports Job_Sweep
begin

text \<open>
  The runner on the worker's store: the store meets the contract \<open>job_store\<close>, and with it what a
  sweep, a claim and a terminal write leave in the job table, under interference and failures.
\<close>

section \<open>The worker's store meets the contract\<close>

definition running_ids :: "job_table \<Rightarrow> (128 word) set" where
  "running_ids T = row_id ` {r \<in> set T. row_state r = ''running''}"

lemma running_ids_simps [simp]:
  "running_ids [] = {}"
  "running_ids (r # T) = (if row_state r = ''running'' then insert (row_id r) (running_ids T) else running_ids T)"
  by (auto simp: running_ids_def)

text \<open>Other threads keep the constraints, and neither start nor settle a run.\<close>

definition env_quiet :: "(nat \<Rightarrow> job_table \<Rightarrow> job_table) \<Rightarrow> bool" where
  "env_quiet env \<longleftrightarrow> (\<forall>n T. flags_ok T \<longrightarrow> flags_ok (env n T) \<and> running_ids (env n T) = running_ids T)"

lemma flags_ok_update:
  assumes "flags_ok T" "\<And>r. row_id (f r) = row_id r"
    and "\<And>r. row_cancel_requested r \<in> {0, 1} \<Longrightarrow> commit_marker_checks r \<Longrightarrow> P r \<Longrightarrow>
      row_cancel_requested (f r) \<in> {0, 1} \<and> commit_marker_checks (f r)"
  shows "flags_ok (sql_update P f T)"
  using assms unfolding flags_ok_def by (auto simp: sql_update_ids set_sql_update)

lemma cleared_flags: "row_cancel_requested r = 0 \<Longrightarrow> row_committed_at r = None \<Longrightarrow> row_committed_outcome r = None \<Longrightarrow>
    row_cancel_requested r \<in> {0, 1} \<and> commit_marker_checks r"
  by (simp add: commit_marker_checks_def)

lemma same_row:
  fixes T :: job_table
  assumes "distinct (map row_id T)" "r \<in> set T" "q \<in> set T" "row_id r = row_id q"
  shows "r = q"
proof -
  have "Some r = sql_find (row_id r) T" using assms(1,2) by (rule sql_find_in [symmetric])
  also have "\<dots> = Some q" unfolding assms(4) using assms(1,3) by (rule sql_find_in)
  finally show ?thesis by (rule option.inject [THEN iffD1])
qed

lemma running_ids_update:
  assumes "distinct (map row_id T)" "\<And>r. row_id (f r) = row_id r" "\<And>r. P r \<Longrightarrow> row_id r = i" "sql_count P T \<noteq> 0"
  shows "(\<And>r. row_state (f r) \<noteq> ''running'') \<Longrightarrow> running_ids (sql_update P f T) = running_ids T - {i}"
    and "(\<And>r. row_state (f r) = ''running'') \<Longrightarrow> running_ids (sql_update P f T) = insert i (running_ids T)"
proof -
  obtain q where q: "q \<in> set T" "P q" "row_id q = i" using assms(3,4) by (auto simp: sql_count_zero_iff)
  have p: "P r \<longleftrightarrow> row_id r = i" if "r \<in> set T" for r using same_row [OF assms(1) that q(1)] q assms(3) by auto
  have e: "running_ids (sql_update P f T) = row_id ` {r \<in> set T. row_state (if row_id r = i then f r else r) = ''running''}"
  proof -
    let ?g = "\<lambda>r. if P r then f r else r"
    have "{r \<in> ?g ` set T. row_state r = ''running''} = ?g ` {r \<in> set T. row_state (?g r) = ''running''}" by blast
    moreover have "row_id (?g r) = row_id r" for r using assms(2) by simp
    ultimately have "running_ids (sql_update P f T) = row_id ` {r \<in> set T. row_state (?g r) = ''running''}"
      by (simp only: running_ids_def set_sql_update image_image)
    also have "{r \<in> set T. row_state (?g r) = ''running''} = {r \<in> set T. row_state (if row_id r = i then f r else r) = ''running''}"
      using p by (intro Collect_cong conj_cong refl) simp
    finally show ?thesis .
  qed
  show "running_ids (sql_update P f T) = running_ids T - {i}" if "\<And>r. row_state (f r) \<noteq> ''running''"
    unfolding e using that by (auto simp: running_ids_def split: if_splits)
  show "running_ids (sql_update P f T) = insert i (running_ids T)" if s: "\<And>r. row_state (f r) = ''running''"
  proof -
    have "{r \<in> set T. row_state (if row_id r = i then f r else r) = ''running''} =
        {r \<in> set T. row_id r = i} \<union> {r \<in> set T. row_state r = ''running''}" using s by auto
    moreover have "row_id ` {r \<in> set T. row_id r = i} = {i}" using q(1,3) by auto
    ultimately show ?thesis unfolding e by (simp add: running_ids_def image_Un)
  qed
qed

lemma sql_update_none: "sql_count P T = 0 \<Longrightarrow> sql_update P f T = T"
  by (auto simp: sql_count_zero_iff sql_update_def intro!: map_idI)

text \<open>A terminal write either applies to the job's one row or changes nothing.\<close>

lemma terminal_write:
  assumes "flags_ok T" "\<And>r. row_id (f r) = row_id r" "\<And>r. row_state (f r) \<noteq> ''running''" "\<And>r. P r \<Longrightarrow> row_id r = i"
    and "\<And>r. row_cancel_requested (f r) = 0 \<and> row_committed_at (f r) = None \<and> row_committed_outcome (f r) = None"
  shows "flags_ok (sql_update P f T) \<and>
    running_ids (sql_update P f T) = (if finish_result (sql_count P T) = Applied then running_ids T - {i} else running_ids T)"
proof -
  have "flags_ok (sql_update P f T)"
    by (rule flags_ok_update [OF assms(1,2)]) (rule cleared_flags, use assms(5) in auto)
  then show ?thesis
    using running_ids_update(1) [OF _ assms(2,4) _ assms(3), of T] assms(1) sql_update_none [of P T f]
    by (auto simp: finish_result_def flags_ok_def)
qed

lemma write_running:
  assumes "flags_ok T" "\<And>r. row_id (f r) = row_id r" "\<And>r. row_state (f r) \<noteq> ''running''"
    and "\<And>r. row_cancel_requested r \<in> {0, 1} \<Longrightarrow> row_cancel_requested (f r) \<in> {0, 1}"
    and "\<And>r. row_committed_at (f r) = None \<and> row_committed_outcome (f r) = None"
  shows "flags_ok (sql_update (\<lambda>r. row_id r = i \<and> row_state r = ''running'') f T) \<and>
    running_ids (sql_update (\<lambda>r. row_id r = i \<and> row_state r = ''running'') f T) = running_ids T - {i}"
proof -
  let ?P = "\<lambda>r. row_id r = i \<and> row_state r = ''running''"
  have "flags_ok (sql_update ?P f T)"
    by (rule flags_ok_update [OF assms(1,2)]) (use assms(4,5) in \<open>simp add: commit_marker_checks_def\<close>)
  moreover have "running_ids (sql_update ?P f T) = running_ids T - {i}"
  proof (cases "sql_count ?P T = 0")
    case True
    then have "i \<notin> running_ids T" by (auto simp: sql_count_zero_iff running_ids_def)
    then show ?thesis using sql_update_none [OF True, of f] by simp
  next
    case False
    then show ?thesis using running_ids_update(1) [OF _ assms(2) _ False assms(3), of i] assms(1) by (simp add: flags_ok_def)
  qed
  ultimately show ?thesis by blast
qed

lemma db_call_Inr:
  "db_call env fault f w = (Inr x, v) \<Longrightarrow> f (env (jw_calls w) (jw_table w)) = (Inr x, jw_table v)"
  by (auto simp: db_call_def Let_def split: if_splits prod.splits)

lemma db_read:
  "db_call env fault (\<lambda>T. (g T, T)) w = (r, v) \<Longrightarrow> jw_table v = env (jw_calls w) (jw_table w)"
  by (auto simp: db_call_def Let_def split: if_splits)

lemma ok_call_eq: "ok_call p = (Inr x, T) \<longleftrightarrow> p = (x, T)"
  by (cases p) (simp add: ok_call_def)

lemma succeeded_row_flags:
  "row_cancel_requested (succeeded_row d n r) = 0 \<and> row_committed_at (succeeded_row d n r) = None \<and>
   row_committed_outcome (succeeded_row d n r) = None"
  by (simp add: succeeded_row_def)

lemma recovered_flags:
  assumes "flags_ok T"
  shows "flags_ok (map (recovered_row t now) T) \<and> running_ids (map (recovered_row t now) T) = {}"
proof -
  have i: "row_id (recovered_row t now r) = row_id r" for r by (simp add: recovered_row_def split: option.split)
  have "row_cancel_requested (recovered_row t now r) \<in> {0, 1} \<and> commit_marker_checks (recovered_row t now r)"
    if "r \<in> set T" for r
  proof (cases "row_state r = ''running''")
    case True
    then show ?thesis
      by (intro cleared_flags) (auto simp: recovered_row_def recover_requeued_row_def recover_cancelled_row_def
          recover_failed_row_def succeeded_row_def split: option.split)
  next
    case False
    then show ?thesis using assms that by (simp add: recovered_row_def flags_ok_def)
  qed
  moreover have "row_state (recovered_row t now r) \<noteq> ''running''" for r
    by (auto simp: recovered_row_def split: option.split)
  moreover have "map row_id (map (recovered_row t now) T) = map row_id T" by (simp add: i o_def)
  ultimately show ?thesis using assms unfolding flags_ok_def running_ids_def by (auto simp del: map_map)
qed

lemma job_store_db:
  assumes "env_quiet env"
  shows "job_store (db_job_store t env fault) (\<lambda>w. flags_ok (jw_table w)) (\<lambda>w. running_ids (jw_table w))"
proof
  have e: "flags_ok (env n T) \<and> running_ids (env n T) = running_ids T" if "flags_ok T" for n T
    using assms that by (simp add: env_quiet_def)
  fix w v :: job_world
  assume w: "flags_ok (jw_table w)"
  let ?T = "env (jw_calls w) (jw_table w)"
  have T: "flags_ok ?T" "running_ids ?T = running_ids (jw_table w)" using e [OF w] by simp_all
  show "flags_ok (jw_table v) \<and> running_ids (jw_table v) = {}" if "js_recover_running (db_job_store t env fault) now w = (Inr n, v)" for now n
  proof -
    have "recover_running t now ?T = (Inr n, jw_table v)" using that by (auto simp: db_job_store_def dest: db_call_Inr)
    then have "jw_table v = map (recovered_row t now) ?T"
      unfolding recover_running_eq [OF T(1), of t now] by (simp split: if_splits)
    then show ?thesis using recovered_flags [OF T(1), of t now] by simp
  qed
  show "flags_ok (jw_table v) \<and> running_ids (jw_table v) = running_ids (jw_table w)"
    if "js_due_jobs (db_job_store t env fault) now u w = (Inr js, v)" for now u js
  proof -
    have "jw_table v = ?T" using that unfolding db_job_store_def job_store_ops.simps by (rule db_read)
    then show ?thesis by (simp only: T)
  qed
  show "flags_ok (jw_table v) \<and> running_ids (jw_table v) = running_ids (jw_table w)"
    if "js_cancellation_requested (db_job_store t env fault) i w = (r, v)" for i r
  proof -
    have "jw_table v = ?T" using that unfolding db_job_store_def job_store_ops.simps by (rule db_read)
    then show ?thesis by (simp only: T)
  qed
  show "flags_ok (jw_table v) \<and> running_ids (jw_table v) = running_ids (jw_table w)"
    if "js_committed (db_job_store t env fault) i w = (r, v)" for i r
  proof -
    have "jw_table v = ?T" using that unfolding db_job_store_def job_store_ops.simps by (rule db_read)
    then show ?thesis by (simp only: T)
  qed
  show "flags_ok (jw_table v) \<and> running_ids (jw_table v) = (if b then insert i (running_ids (jw_table w)) else running_ids (jw_table w))"
    if c: "js_claim_job (db_job_store t env fault) i a now u w = (Inr b, v)" for i a now u b
  proof -
    let ?P = "\<lambda>r. row_id r = i \<and> row_state r \<in> {''queued'', ''succeeded''} \<and>
                 row_attempt_count r = a - 1 \<and> row_last_unlock_window r \<noteq> Some u"
    let ?f = "\<lambda>r. (clear_marker r)\<lparr>row_state := ''running'', row_attempt_count := a,
            row_last_run_at := Some (dt_to_rfc3339 t now), row_last_unlock_window := Some u,
            row_updated_at := dt_to_rfc3339 t now\<rparr>"
    have s: "b = (sql_count ?P ?T \<noteq> 0)" "jw_table v = sql_update ?P ?f ?T"
      using c by (auto simp: db_job_store_def ok_call_eq claim_job_def Let_def dest!: db_call_Inr)
    have "flags_ok (jw_table v)" unfolding s(2)
      by (rule flags_ok_update [OF T(1)]) (simp, rule cleared_flags, simp_all)
    moreover have "running_ids (jw_table v) = (if b then insert i (running_ids ?T) else running_ids ?T)"
      unfolding s using running_ids_update(2) [of ?T ?f ?P i] sql_update_none [of ?P ?T ?f] T(1) by (auto simp: flags_ok_def)
    ultimately show ?thesis using T(2) by simp
  qed
  show "flags_ok (jw_table v) \<and> running_ids (jw_table v) =
      (if f = Applied then running_ids (jw_table w) - {jr_id j} else running_ids (jw_table w))"
    if c: "js_finish_success (db_job_store t env fault) j now d w = (Inr f, v)" for j now d f
  proof -
    have "finish_success t j now d ?T = (f, jw_table v)" using c by (auto simp: db_job_store_def ok_call_eq dest!: db_call_Inr)
    then have e: "f = fst (finish_success t j now d ?T)" "jw_table v = snd (finish_success t j now d ?T)" by simp_all
    show ?thesis unfolding e T(2) [symmetric] finish_success_def Let_def fst_conv snd_conv
      by (rule terminal_write [OF T(1)]) (simp_all add: succeeded_row_flags)
  qed
  show "flags_ok (jw_table v) \<and> running_ids (jw_table v) = running_ids (jw_table w) - {jr_id j}"
    if c: "js_finish_committed (db_job_store t env fault) j now d w = (Inr x, v)" for j now d x
  proof -
    have "finish_committed t j now d ?T = (x, jw_table v)" using c by (auto simp: db_job_store_def ok_call_eq dest!: db_call_Inr)
    then have e: "jw_table v = snd (finish_committed t j now d ?T)" by simp_all
    show ?thesis unfolding e T(2) [symmetric] finish_committed_def fst_conv snd_conv
      by (rule write_running [OF T(1)]) (simp_all add: succeeded_row_flags)
  qed
  show "flags_ok (jw_table v) \<and> running_ids (jw_table v) =
      (if f = Applied then running_ids (jw_table w) - {jr_id j} else running_ids (jw_table w))"
    if c: "js_finish_failure (db_job_store t env fault) j now g d w = (Inr f, v)" for j now g d f
  proof -
    have "finish_failure t j now g d ?T = (f, jw_table v)" using c by (auto simp: db_job_store_def ok_call_eq dest!: db_call_Inr)
    then have e: "f = fst (finish_failure t j now g d ?T)" "jw_table v = snd (finish_failure t j now g d ?T)" by simp_all
    show ?thesis unfolding e T(2) [symmetric] finish_failure_def Let_def fst_conv snd_conv
      by (rule terminal_write [OF T(1)]) (simp_all)
  qed
  show "flags_ok (jw_table v) \<and> running_ids (jw_table v) = running_ids (jw_table w) - {jr_id j}"
    if c: "js_finish_cancelled (db_job_store t env fault) j now m w = (Inr x, v)" for j now m x
  proof -
    have "finish_cancelled t j now m ?T = (x, jw_table v)" using c by (auto simp: db_job_store_def ok_call_eq dest!: db_call_Inr)
    then have e: "jw_table v = snd (finish_cancelled t j now m ?T)" by simp_all
    show ?thesis unfolding e T(2) [symmetric] finish_cancelled_def Let_def fst_conv snd_conv
      by (rule write_running [OF T(1)]) (simp_all)
  qed
  show "flags_ok (jw_table v) \<and> running_ids (jw_table v) =
      (if f = Applied then running_ids (jw_table w) - {jr_id j} else running_ids (jw_table w))"
    if c: "js_finish_skipped (db_job_store t env fault) j now w = (Inr f, v)" for j now f
  proof -
    have "finish_skipped t j now ?T = (f, jw_table v)" using c by (auto simp: db_job_store_def ok_call_eq dest!: db_call_Inr)
    then have e: "f = fst (finish_skipped t j now ?T)" "jw_table v = snd (finish_skipped t j now ?T)" by simp_all
    show ?thesis unfolding e T(2) [symmetric] finish_skipped_def Let_def fst_conv snd_conv
      by (rule terminal_write [OF T(1)]) (simp_all)
  qed
qed

interpretation worker: job_store "db_job_store t (\<lambda>_ T. T) fault" "\<lambda>w. flags_ok (jw_table w)" "\<lambda>w. running_ids (jw_table w)"
  for t fault
  by (rule job_store_db) (simp add: env_quiet_def)

section \<open>What a sweep leaves\<close>

text \<open>A step that keeps the constraints and the set of running jobs: the clock, the token, a handler.\<close>

definition runs_kept :: "job_world \<Rightarrow> job_world \<Rightarrow> bool" where
  "runs_kept w v \<longleftrightarrow>
     (flags_ok (jw_table w) \<longrightarrow> flags_ok (jw_table v) \<and> running_ids (jw_table v) = running_ids (jw_table w))"

definition host_keeps_runs :: "job_world job_host \<Rightarrow> bool" where
  "host_keeps_runs H \<longleftrightarrow> (\<forall>w. runs_kept w (snd (host_now H w)) \<and> runs_kept w (snd (host_is_cancelled H w)))"

lemma quiet_db:
  assumes "env_quiet env"
  shows "job_store.quiet (\<lambda>w. flags_ok (jw_table w)) (\<lambda>w. running_ids (jw_table w)) = runs_kept"
    and "job_store.quiet_host (\<lambda>w. flags_ok (jw_table w)) (\<lambda>w. running_ids (jw_table w)) H = host_keeps_runs H"
proof -
  note st = job_store_db [OF assms, of decimal_time "\<lambda>_. False"]
  show "job_store.quiet (\<lambda>w. flags_ok (jw_table w)) (\<lambda>w. running_ids (jw_table w)) = runs_kept"
    by (rule ext, rule ext) (simp add: job_store.quiet_def [OF st] runs_kept_def)
  then show "job_store.quiet_host (\<lambda>w. flags_ok (jw_table w)) (\<lambda>w. running_ids (jw_table w)) H = host_keeps_runs H"
    by (simp add: job_store.quiet_host_def [OF st] host_keeps_runs_def)
qed

lemma idle_host_keeps: "host_keeps_runs idle_host"
  by (simp add: host_keeps_runs_def idle_host_def runs_kept_def)

text \<open>C25: a sweep that completes leaves no job running, whatever the handlers return and whatever other
  threads do to the table meanwhile, as long as they and the handlers neither start nor settle a run:
  every row the sweep found running it recovered, and every row it claimed it settled.\<close>

theorem sweep_leaves_none_running:
  assumes "env_quiet env" "host_keeps_runs H" "\<And>job. handler_keeps runs_kept (je_execute X job)"
    and "flags_ok (jw_table w)"
    and "run_due_jobs_with_clock t env fault H X now u w = (Inr rep, v)"
  shows "flags_ok (jw_table v) \<and> running_ids (jw_table v) = {}"
  using job_store.run_due_settles [OF job_store_db [OF assms(1)], of H X] assms
  unfolding quiet_db [OF assms(1)] run_due_jobs_with_clock_def by blast

definition running_row :: job_row where
  "running_row = (inserted_row decimal_time (dt_to_rfc3339 decimal_time 500) sample_spec)
     \<lparr>row_state := ''running'', row_attempt_count := 1, row_last_unlock_window := Some ''w1''\<rparr>"

lemma running_row_flags: "flags_ok [running_row] \<and> running_ids [running_row] = {7}"
  by (simp add: flags_ok_def running_row_def inserted_row_def commit_marker_checks_def sample_spec_id)

lemma recover_running_row:
  "recover_running decimal_time 5000 [running_row] = (Inr 1, [recovered_row decimal_time 5000 running_row])"
proof -
  have "row_state running_row = ''running''" "row_cancel_requested running_row = 0"
    by (simp_all add: running_row_def inserted_row_def)
  then show ?thesis using running_row_flags recover_running_eq [of "[running_row]" decimal_time 5000]
    by (simp add: recovery_panics_def)
qed

lemma sweep_of_running_row:
  "run_due_jobs_with_clock decimal_time (\<lambda>_ T. T) (\<lambda>_. False) idle_host (done_executor Succeeded) 5000 ''w1''
     \<lparr>jw_table = [running_row], jw_calls = 0\<rparr> =
   (Inr (report_default\<lparr>rep_recovered := 1\<rparr>), \<lparr>jw_table = [recovered_row decimal_time 5000 running_row], jw_calls = 2\<rparr>)"
proof -
  have "row_last_unlock_window (recovered_row decimal_time 5000 running_row) = Some ''w1''"
    by (simp add: recovered_row_def recover_requeued_row_def running_row_def inserted_row_def clear_marker_def)
  then have "due_jobs decimal_time 5000 ''w1'' [recovered_row decimal_time 5000 running_row] = Inr []"
    by (simp add: due_jobs_def row_due_def rows_from_query_def order_by_due_def)
  then show ?thesis
    by (simp add: run_due_jobs_with_clock_def run_due_with_clock_def w_bind_def w_store_def w_return_def
        db_job_store_def db_call_def recover_running_row)
qed

lemma sweep_leaves_none_running_witness:
  "running_ids [running_row] = {7} \<and> running_ids [recovered_row decimal_time 5000 running_row] = {}"
proof -
  have h: "handler_keeps runs_kept (je_execute (done_executor Succeeded) job)" for job
    by (simp add: done_executor_def keeps_done)
  from sweep_leaves_none_running [OF _ idle_host_keeps h _ sweep_of_running_row] show ?thesis
    using running_row_flags by (simp add: env_quiet_def)
qed

section \<open>Claims outside the sweep\<close>

lemma row_from_parts_id: "row_from_parts t r = Inr j \<Longrightarrow> jr_id j = row_id r"
  by (auto simp: row_from_parts_def res_bind_Inr_iff split: if_splits)

lemma due_jobs_distinct: "flags_ok T \<Longrightarrow> due_jobs t now u T = Inr js \<Longrightarrow> distinct (map jr_id js)"
proof -
  assume ok: "flags_ok T" and d: "due_jobs t now u T = Inr js"
  define rs where "rs = order_by_due (filter (row_due (dt_to_rfc3339 t now) u) T)"
  have "list_all2 (\<lambda>r j. row_from_parts t r = Inr j) rs js"
    using d by (auto simp: due_jobs_def rows_from_query_def rs_def map_res_Inr_iff split: if_splits)
  then have "map jr_id js = map row_id rs"
    by (induction rule: list_all2_induct) (simp_all add: row_from_parts_id)
  moreover have "mset (map row_id rs) = mset (map row_id (filter (row_due (dt_to_rfc3339 t now) u) T))"
    by (simp add: rs_def order_by_due_def)
  then have "distinct (map row_id rs)"
    using ok mset_eq_imp_distinct_iff by (metis distinct_map_filter flags_ok_def)
  ultimately show ?thesis by simp
qed

text \<open>claiming the due jobs of a kind outside the sweep leaves running exactly the jobs it hands out,
  each within its attempts; reporting an outcome of such a job settles that job and no other.\<close>

theorem claimed_jobs_are_running:
  assumes "env_quiet env" "host_keeps_runs H" "flags_ok (jw_table w)" "running_ids (jw_table w) = {}"
    and "claim_due_jobs_of_kind t env fault H kind now u w = (Inr (claimed, rep), v)"
    and "finish_claimed_job t env fault H c e v = (Inr rep', v')"
  shows "running_ids (jw_table v) = (jr_id \<circ> cj_job) ` set claimed \<and>
    (\<forall>c \<in> set claimed. jr_kind (cj_job c) = kind \<and> cj_attempt c \<le> jr_max_attempts (cj_job c)) \<and>
    running_ids (jw_table v') = running_ids (jw_table v) - {jr_id (cj_job c)}"
proof -
  note st = job_store_db [OF assms(1)]
  from assms(5) obtain js w1 where s: "js_due_jobs (db_job_store t env fault) now u w = (Inr js, w1)"
    "claim_loop (db_job_store t env fault) H now u (filter (\<lambda>job. jr_kind job = kind) js) [] report_default w1 = (Inr (claimed, rep), v)"
    by (auto simp: claim_due_jobs_of_kind_def claim_due_of_kind_def w_bind_Inr w_store_Inr)
  have w1: "flags_ok (jw_table w1)" "running_ids (jw_table w1) = {}"
    using job_store.due_jobs [OF st assms(3) s(1)] assms(4) by simp_all
  have "due_jobs t now u (env (jw_calls w) (jw_table w)) = Inr js"
    using s(1) by (auto simp: db_job_store_def dest!: db_call_Inr)
  then have "distinct (map jr_id js)"
    by (rule due_jobs_distinct [rotated]) (use assms(1,3) in \<open>simp add: env_quiet_def\<close>)
  then have "distinct (map jr_id (filter (\<lambda>job. jr_kind job = kind) js))" by (rule distinct_map_filter)
  then have a: "flags_ok (jw_table v) \<and> running_ids (jw_table v) = (jr_id \<circ> cj_job) ` set claimed \<and>
      (\<forall>c \<in> set claimed. cj_job c \<in> set (filter (\<lambda>job. jr_kind job = kind) js) \<and> cj_attempt c \<le> jr_max_attempts (cj_job c))"
    using job_store.claim_loop_running [OF st, where H = H, unfolded quiet_db [OF assms(1)],
        OF assms(2) w1(1) _ _ _ s(2)] w1(2) by simp
  moreover have "running_ids (jw_table v') = running_ids (jw_table v) - {jr_id (cj_job c)}"
  proof -
    have f: "finish_claimed t (db_job_store t env fault) H c e v = (Inr rep', v')"
      using assms(6) by (simp add: finish_claimed_job_def)
    note fs = job_store.finish_claimed_settles [OF st, where H = H, unfolded quiet_db [OF assms(1)],
        OF a [THEN conjunct1] assms(2) f]
    then show ?thesis by (simp add: job_store.settles_def [OF st])
  qed
  ultimately show ?thesis by simp
qed

lemma sample_due: "due_jobs decimal_time 2000 ''w1'' sample_table = Inr [fresh_record sample_spec]"
proof -
  let ?r = "inserted_row decimal_time (dt_to_rfc3339 decimal_time 500) sample_spec"
  have "dt_textual decimal_time 1000" "dt_textual decimal_time 2000" by (simp_all add: dt_textual_def decimal_time_def)
  then have le: "dt_to_rfc3339 decimal_time 1000 \<le> dt_to_rfc3339 decimal_time 2000"
    using rfc3339_order [OF decimal_time_ok, of 1000 2000] by simp
  have "row_due (dt_to_rfc3339 decimal_time 2000) ''w1'' ?r"
    using le by (simp add: row_due_def inserted_row_def bool_column_def sample_spec_def)
  moreover have "row_ok decimal_time ?r" using inserted_row_ok sample_spec_ok by blast
  ultimately show ?thesis
    using rows_from_query_ok [OF decimal_time_ok, of "[?r]"] view_inserted [OF decimal_time_ok] sample_spec_ok
    by (simp add: due_jobs_def sample_table_eq order_by_due_def)
qed

definition sample_claimed :: claimed_job where
  "sample_claimed = \<lparr>cj_job = fresh_record sample_spec, cj_attempt = 1\<rparr>"

definition claimed_world :: job_world where
  "claimed_world = \<lparr>jw_table = snd (claim_job decimal_time 7 1 2000 ''w1'' sample_table), jw_calls = 3\<rparr>"

lemma fresh_fields:
  "jr_id (fresh_record sample_spec) = 7" "jr_attempts (fresh_record sample_spec) = 0" "jr_max_attempts (fresh_record sample_spec) = 3"
  "jr_kind (fresh_record sample_spec) = spec_kind sample_spec" "jr_schedule (fresh_record sample_spec) = Daily"
  by (simp_all add: fresh_record_def configured_def sample_spec_def)

lemma sample_claims:
  "claim_due_jobs_of_kind decimal_time (\<lambda>_ T. T) (\<lambda>_. False) idle_host (spec_kind sample_spec) 2000 ''w1''
     \<lparr>jw_table = sample_table, jw_calls = 0\<rparr> =
   (Inr ([sample_claimed], report_default\<lparr>rep_attempted := 1\<rparr>), claimed_world)"
proof -
  have r: "row_attempt_count (inserted_row decimal_time n sample_spec) = 0"
    "row_last_unlock_window (inserted_row decimal_time n sample_spec) = None" for n
    by (simp_all add: inserted_row_def)
  have c: "\<not> job_cancellation_requested 7 (snd (claim_job decimal_time 7 1 2000 ''w1'' sample_table))"
    by (simp add: job_cancellation_requested_def claim_job_def Let_def sample_table_eq sample_spec_id r)
  have w: "fst (claim_job decimal_time 7 1 2000 ''w1'' sample_table)" by (subst sample_claim) simp
  show ?thesis using w c
    by (simp add: claim_due_jobs_of_kind_def claim_due_of_kind_def w_bind_def w_store_def w_return_def db_job_store_def
        db_call_def sample_due fresh_fields ok_call_def Let_def sample_claimed_def claimed_world_def report_default_def)
qed

lemma claimed_jobs_are_running_witness:
  "running_ids (jw_table claimed_world) = {7} \<and>
   running_ids (jw_table (snd (finish_claimed_job decimal_time (\<lambda>_ T. T) (\<lambda>_. False) idle_host sample_claimed Cancelled claimed_world))) = {}"
proof -
  have f: "flags_ok (jw_table \<lparr>jw_table = sample_table, jw_calls = 0\<rparr>)"
    using table_ok_flags [OF reachable_ok [OF sample_run]] by simp
  have e: "running_ids (jw_table \<lparr>jw_table = sample_table, jw_calls = 0\<rparr>) = {}" by (simp add: sample_table_eq)
  have "\<exists>rep. finish_claimed_job decimal_time (\<lambda>_ T. T) (\<lambda>_. False) idle_host sample_claimed Cancelled claimed_world =
      (Inr rep, snd (finish_claimed_job decimal_time (\<lambda>_ T. T) (\<lambda>_. False) idle_host sample_claimed Cancelled claimed_world))"
    by (simp add: finish_claimed_job_def finish_claimed_def apply_execution_def record_cancelled_def w_bind_def w_store_def
        w_read_def w_return_def idle_host_def db_job_store_def db_call_def ok_call_def Let_def)
  then obtain rep where g: "finish_claimed_job decimal_time (\<lambda>_ T. T) (\<lambda>_. False) idle_host sample_claimed Cancelled claimed_world =
      (Inr rep, snd (finish_claimed_job decimal_time (\<lambda>_ T. T) (\<lambda>_. False) idle_host sample_claimed Cancelled claimed_world))" ..
  from claimed_jobs_are_running [OF _ idle_host_keeps f e sample_claims g] show ?thesis
    by (simp add: env_quiet_def sample_claimed_def fresh_fields)
qed

section \<open>Committed work\<close>

text \<open>The job is running and carries the marker of its commit.\<close>

definition marked :: "128 word \<Rightarrow> job_table \<Rightarrow> bool" where
  "marked i T \<longleftrightarrow> flags_ok T \<and> (\<exists>r. sql_find i T = Some r \<and> row_state r = ''running'' \<and> row_committed_at r \<noteq> None)"

lemma marked_committed: "marked i T \<Longrightarrow> job_committed i T"
proof -
  assume "marked i T"
  then obtain r where r: "distinct (map row_id T)" "sql_find i T = Some r" "row_state r = ''running''" "row_committed_at r \<noteq> None"
    by (auto simp: marked_def flags_ok_def)
  have "find (\<lambda>r. row_id r = i \<and> row_state r = ''running'') T = Some r"
    using r(1,2,3)
  proof (induction T)
    case (Cons x T)
    then show ?case by (auto split: if_splits)
  qed simp
  then show ?thesis using r(4) by (simp add: job_committed_def)
qed

lemma marked_failure:
  assumes "marked (jr_id j) T"
  shows "fst (finish_failure t j n f d T) = Applied \<and>
    phase (jr_id j) (snd (finish_failure t j n f d T)) = Some (if d = None then State_Failed else Queued)"
proof -
  obtain r where r: "distinct (map row_id T)" "sql_find (jr_id j) T = Some r" "row_state r = ''running''" "row_committed_at r \<noteq> None"
    using assms by (auto simp: marked_def flags_ok_def)
  have c: "sql_count (\<lambda>r. row_id r = jr_id j \<and> row_state r \<in> {''running'', ''queued'', ''succeeded''} \<and>
                 (row_cancel_requested r = 0 \<or> row_committed_at r \<noteq> None)) T = 1"
    using r sql_count_one [OF r(1), of "jr_id j" "\<lambda>r. row_state r \<in> {''running'', ''queued'', ''succeeded''} \<and>
                 (row_cancel_requested r = 0 \<or> row_committed_at r \<noteq> None)"] by simp
  have "fst (finish_failure t j n f d T) = Applied"
    unfolding finish_failure_def Let_def fst_conv c by (simp add: finish_result_def)
  moreover have "phase (jr_id j) (snd (finish_failure t j n f d T)) = Some (if d = None then State_Failed else Queued)"
    unfolding finish_failure_def Let_def snd_conv
    using r sql_find_Some [OF r(2)] by (simp add: phase_def sql_find_update state_of_token)
  ultimately show ?thesis by blast
qed

lemma marked_success:
  assumes "marked (jr_id j) T"
  shows "phase (jr_id j) (snd (finish_committed t j n d T)) = Some State_Succeeded"
  using assms by (auto simp: marked_def finish_committed_def phase_def sql_find_update state_of_token dest: sql_find_Some)

text \<open>C21: when the durable effect of a run has committed, its outcome stands: whatever cancellations
  arrive - before the handler returned, between any two calls of the store - a success is recorded
  as succeeded and a failure as failed, or queued for its retry, never as cancelled.\<close>

theorem committed_work_never_cancelled:
  assumes "\<And>n T. marked (jr_id j) T \<Longrightarrow> marked (jr_id j) (env n T)"
    and "\<And>w. marked (jr_id j) (jw_table w) \<Longrightarrow> marked (jr_id j) (jw_table (snd (host_now H w)))"
    and "marked (jr_id j) (jw_table w)" "\<not> fault (jw_calls w)" "e \<noteq> Cancelled" "e \<noteq> Skipped"
    and "conclude_invocation t (db_job_store t env fault) H j a e was_cancelled rep w = (Inr (outcome, rep'), v)"
  shows "(case e of
       Failed f \<Rightarrow> outcome = ''failed'' \<and> rep' = rep\<lparr>rep_failed := rep_failed rep + 1\<rparr> \<and>
         phase (jr_id j) (jw_table v) =
           Some (if jf_retryable f \<and> a < jr_max_attempts j then Queued else State_Failed)
     | _ \<Rightarrow> outcome = ''succeeded'' \<and> rep' = rep\<lparr>rep_succeeded := rep_succeeded rep + 1\<rparr> \<and>
         phase (jr_id j) (jw_table v) = Some State_Succeeded)"
proof -
  let ?S = "db_job_store t env fault"
  define w1 where "w1 = \<lparr>jw_table = env (jw_calls w) (jw_table w), jw_calls = jw_calls w + 1\<rparr>"
  have m1: "marked (jr_id j) (jw_table w1)" using assms(1,3) by (simp add: w1_def)
  have "read_committed ?S (jr_id j) w = (True, w1)"
    using assms(4) marked_committed [OF m1] by (simp add: read_committed_def db_job_store_def db_call_def w1_def)
  then obtain n w2 where h: "host_now H w1 = (n, w2)"
    and ap: "apply_execution t ?S j a (decide_execution was_cancelled True e) n rep w2 = (Inr (outcome, rep'), v)"
    using assms(7) by (auto simp: conclude_invocation_def w_bind_Inr w_read_Inr)
  have m2: "marked (jr_id j) (env k (jw_table w2))" for k using assms(2) [OF m1] assms(1) h by simp
  have settled: "phase (jr_id j) U = Some State_Succeeded"
    if "finish_committed t j n d (env k (jw_table w2)) = (x, U)" for d k x U
    using marked_success [OF m2, of t n d k] that by simp
  show ?thesis
  proof (cases e)
    case (Failed f)
    then have "decide_execution was_cancelled True e = Failed f" by (simp add: decide_execution_def)
    with ap obtain d r w2' w3 where d: "(if jf_retryable f \<and> a < jr_max_attempts j
        then w_or_panic (map_option Some (Option.bind (delay_for_attempt (jr_backoff j) a) (dt_add t n)))
        else w_return None) w2 = (Inr d :: job_store_error job_runner_error + instant option, w2')"
      and r: "js_finish_failure ?S j n f d w2' = (Inr r, w3)"
      and rest: "(if r = Finish_Cancelled then record_cancelled ?S j n rep
        else w_return (''failed'', rep\<lparr>rep_failed := rep_failed rep + 1\<rparr>)) w3 = (Inr (outcome, rep'), v)"
      by (auto simp only: apply_execution_def job_execution.case w_bind_Inr w_store_Inr)
    have w2': "w2' = w2" using d by (auto simp: w_return_Inr w_or_panic_Inr split: if_splits)
    have dn: "d \<noteq> None \<longleftrightarrow> jf_retryable f \<and> a < jr_max_attempts j"
      using d by (auto simp: w_return_Inr w_or_panic_Inr split: if_splits)
    have "finish_failure t j n f d (env (jw_calls w2) (jw_table w2)) = (r, jw_table w3)"
      using r by (auto simp: w2' db_job_store_def ok_call_eq dest!: db_call_Inr)
    then have "r = Applied" "phase (jr_id j) (jw_table w3) = Some (if d = None then State_Failed else Queued)"
      using marked_failure [OF m2, of t n f d "jw_calls w2"] by simp_all
    then show ?thesis using rest dn Failed by (cases d) (auto simp: w_return_Inr)
  qed (use assms(5,6) ap in \<open>auto simp: decide_execution_def apply_execution_def w_bind_Inr w_store_Inr
      w_return_Inr w_or_panic_Inr db_job_store_def ok_call_eq dest!: db_call_Inr dest: settled split: if_splits\<close>)
qed

text \<open>A run that has committed and was asked to stop.\<close>

definition marked_row :: job_row where
  "marked_row = running_row\<lparr>row_cancel_requested := 1, row_committed_at := Some ''2030'',
     row_committed_outcome := Some ''succeeded''\<rparr>"

definition marked_world :: job_world where
  "marked_world = \<lparr>jw_table = [marked_row], jw_calls = 0\<rparr>"

lemma marked_row_fields:
  "row_id marked_row = 7" "row_state marked_row = ''running''" "row_cancel_requested marked_row = 1"
  "row_committed_at marked_row = Some ''2030''" "row_committed_outcome marked_row = Some ''succeeded''"
  by (simp_all add: marked_row_def running_row_def inserted_row_def sample_spec_id)

lemma marked_world_marked: "marked 7 (jw_table marked_world)"
  by (simp add: marked_def marked_world_def flags_ok_def marked_row_fields commit_marker_checks_def)

lemma daily_due: "dt_add decimal_time 0 86400000000000 = Some 86400000000000"
  by (simp add: dt_add_def dt_valid_def decimal_time_def)

lemma committed_work_never_cancelled_witness:
  "\<exists>v. conclude_invocation decimal_time (db_job_store decimal_time (\<lambda>_ T. T) (\<lambda>_. False)) idle_host (fresh_record sample_spec) 1
     Succeeded True report_default marked_world = (Inr (''succeeded'', report_default\<lparr>rep_succeeded := 1\<rparr>), v) \<and>
   phase 7 (jw_table v) = Some State_Succeeded"
proof -
  let ?S = "db_job_store decimal_time (\<lambda>_ T. T) (\<lambda>_. False)"
  have c: "job_committed 7 [marked_row]" by (simp add: job_committed_def marked_row_fields)
  have "\<exists>y v. conclude_invocation decimal_time ?S idle_host (fresh_record sample_spec) 1 Succeeded True report_default marked_world =
      (Inr y, v)"
    by (simp add: conclude_invocation_def w_bind_def w_read_def read_committed_def db_job_store_def db_call_def Let_def
        marked_world_def fresh_fields c idle_host_def decide_execution_def apply_execution_def daily_due w_or_panic_def
        w_return_def w_store_def ok_call_def)
  then obtain l rep' v where e: "conclude_invocation decimal_time ?S idle_host (fresh_record sample_spec) 1 Succeeded True report_default marked_world =
      (Inr (l, rep'), v)" by auto
  have i: "jr_id (fresh_record sample_spec) = 7" by (rule fresh_fields)
  have "l = ''succeeded'' \<and> rep' = report_default\<lparr>rep_succeeded := rep_succeeded report_default + 1\<rparr> \<and>
      phase (jr_id (fresh_record sample_spec)) (jw_table v) = Some State_Succeeded"
    using committed_work_never_cancelled [OF _ _ _ _ _ _ e] marked_world_marked by (simp add: i idle_host_def)
  then show ?thesis using e by (auto simp: i report_default_def)
qed

text \<open>A claimed job reported outside the sweep is not recorded as the sweep would record it: of a run
  that has committed and was asked to stop, the sweep records the success, but reporting the success
  of the same claimed job records the job as cancelled, and the marker is lost.\<close>

theorem finish_claimed_ignores_the_marker:
  "phase 7 (jw_table (snd (finish_claimed_job decimal_time (\<lambda>_ T. T) (\<lambda>_. False) idle_host sample_claimed Succeeded marked_world)))
     = Some State_Cancelled \<and>
   \<not> job_committed 7 (jw_table (snd (finish_claimed_job decimal_time (\<lambda>_ T. T) (\<lambda>_. False) idle_host sample_claimed Succeeded marked_world))) \<and>
   phase 7 (jw_table (snd (conclude_invocation decimal_time (db_job_store decimal_time (\<lambda>_ T. T) (\<lambda>_. False)) idle_host
     (fresh_record sample_spec) 1 Succeeded True report_default marked_world))) = Some State_Succeeded"
proof -
  have c: "job_committed 7 [marked_row]" by (simp add: job_committed_def marked_row_fields)
  have "phase 7 (jw_table (snd (finish_claimed_job decimal_time (\<lambda>_ T. T) (\<lambda>_. False) idle_host sample_claimed Succeeded marked_world)))
     = Some State_Cancelled"
    by (simp add: finish_claimed_job_def finish_claimed_def sample_claimed_def w_bind_def w_read_def idle_host_def
        apply_execution_def fresh_fields daily_due w_or_panic_def w_return_def w_store_def db_job_store_def db_call_def Let_def
        ok_call_def marked_world_def finish_success_def sql_count_def marked_row_fields finish_result_def record_cancelled_def
        finish_cancelled_def phase_def state_of_token)
  moreover have "\<not> job_committed 7 (jw_table (snd (finish_claimed_job decimal_time (\<lambda>_ T. T) (\<lambda>_. False) idle_host sample_claimed Succeeded marked_world)))"
    by (simp add: finish_claimed_job_def finish_claimed_def sample_claimed_def w_bind_def w_read_def idle_host_def
        apply_execution_def fresh_fields daily_due w_or_panic_def w_return_def w_store_def db_job_store_def db_call_def Let_def
        ok_call_def marked_world_def finish_success_def sql_count_def marked_row_fields finish_result_def record_cancelled_def
        finish_cancelled_def job_committed_def)
  moreover have "phase 7 (jw_table (snd (conclude_invocation decimal_time (db_job_store decimal_time (\<lambda>_ T. T) (\<lambda>_. False)) idle_host
     (fresh_record sample_spec) 1 Succeeded True report_default marked_world))) = Some State_Succeeded"
    by (simp add: conclude_invocation_def w_bind_def w_read_def read_committed_def db_job_store_def db_call_def Let_def
        marked_world_def fresh_fields c idle_host_def decide_execution_def apply_execution_def daily_due w_or_panic_def
        w_return_def w_store_def ok_call_def finish_committed_def marked_row_fields phase_def state_of_token)
  ultimately show ?thesis by blast
qed

section \<open>Skipped runs\<close>

definition refusing_executor :: "'w job_executor" where
  "refusing_executor = \<lparr>je_should_run = (\<lambda>_ _. False), je_execute = (\<lambda>_. Done Skipped)\<rparr>"

text \<open>The table after one sweep in an unlock window, with no interference.\<close>

definition swept :: "job_world job_executor \<Rightarrow> string \<Rightarrow> job_table \<Rightarrow> job_table" where
  "swept X u T = jw_table (snd (run_due_jobs_with_clock decimal_time (\<lambda>_ T. T) (\<lambda>_. False) idle_host X 2000 u
     \<lparr>jw_table = T, jw_calls = 0\<rparr>))"

definition due_row :: "job_row \<Rightarrow> bool" where
  "due_row r \<longleftrightarrow> row_ok decimal_time r \<and> row_state r = ''queued'' \<and> row_enabled r = 1 \<and>
     row_next_due_at r = Some (dt_to_rfc3339 decimal_time 1000) \<and> row_kind r = ascii ''backup''"

definition skipped_row :: "string \<Rightarrow> job_row \<Rightarrow> job_row" where
  "skipped_row u r = (clear_marker r)\<lparr>row_state := ''queued'', row_attempt_count := row_attempt_count r + 1,
     row_last_run_at := Some (dt_to_rfc3339 decimal_time 2000), row_last_unlock_window := Some u,
     row_last_outcome := Some ''skipped'', row_updated_at := dt_to_rfc3339 decimal_time 0\<rparr>"

lemma view_max: "chrono_time_ok t \<Longrightarrow> row_ok t r \<Longrightarrow> jr_max_attempts (row_view t r) = row_max_attempts r"
proof -
  assume h: "chrono_time_ok t" "row_ok t r"
  from row_parts [OF h(2)] obtain sc st oc nd lr where p: "row_cadence r = schedule_token sc" "schedule_ok sc"
    "row_state r = job_state_token st" "row_last_outcome r = map_option job_outcome_token oc"
    "row_next_due_at r = map_option (dt_to_rfc3339 t) nd" "opt_textual t nd"
    "row_last_run_at r = map_option (dt_to_rfc3339 t) lr" "opt_textual t lr" .
  from row_from_parts_eq [OF h p] show ?thesis by (simp add: row_view_def)
qed

lemma due_row_sweep:
  assumes "due_row r" "row_last_unlock_window r \<noteq> Some u"
  shows "recover_running decimal_time 2000 [r] = (Inr 0, [r])"
    and "due_jobs decimal_time 2000 u [r] = Inr [row_view decimal_time r]"
    and "jr_kind (row_view decimal_time r) \<notin> set lock_releasing_job_kinds"
    and "row_cancel_requested r = 0"
proof -
  have r: "row_ok decimal_time r" "row_state r = ''queued''" using assms by (simp_all add: due_row_def)
  show c: "row_cancel_requested r = 0" using r by (auto simp: row_ok_def row_runtime_ok_def cancel_flag_ok_def)
  have "flags_ok [r]" using table_ok_flags [of decimal_time "[r]"] r(1) by (simp add: table_ok_def)
  from recover_running_eq [OF this, of decimal_time 2000] show "recover_running decimal_time 2000 [r] = (Inr 0, [r])"
    using r(2) by (simp add: recovery_panics_def recovered_row_def)
  have "dt_textual decimal_time 1000" "dt_textual decimal_time 2000" by (simp_all add: dt_textual_def decimal_time_def)
  then have "dt_to_rfc3339 decimal_time 1000 \<le> dt_to_rfc3339 decimal_time 2000"
    using rfc3339_order [OF decimal_time_ok, of 1000 2000] by simp
  then have "row_due (dt_to_rfc3339 decimal_time 2000) u r" using assms by (simp add: row_due_def due_row_def)
  then show "due_jobs decimal_time 2000 u [r] = Inr [row_view decimal_time r]"
    using rows_from_query_ok [OF decimal_time_ok, of "[r]"] r(1) by (simp add: due_jobs_def order_by_due_def)
  have "ascii ''backup'' \<noteq> connector_refresh_job_kind" by code_simp
  then show "jr_kind (row_view decimal_time r) \<notin> set lock_releasing_job_kinds"
    using assms(1) row_view(3) [OF decimal_time_ok r(1)] by (simp add: lock_releasing_job_kinds_def due_row_def)
qed

lemma sweep_skips:
  assumes "due_row r" "row_last_unlock_window r \<noteq> Some u" "row_attempt_count r < row_max_attempts r"
  shows "swept refusing_executor u [r] = [skipped_row u r]" and "due_row (skipped_row u r)"
proof -
  note f = due_row_sweep [OF assms(1,2)]
  have r: "row_ok decimal_time r" "row_state r = ''queued''" using assms by (simp_all add: due_row_def)
  have m: "row_max_attempts r < 4294967296" "0 \<le> row_attempt_count r"
    using r(1) by (simp_all add: row_ok_def row_config_ok_def row_runtime_ok_def)
  note v = row_view(2,5) [OF decimal_time_ok r(1)] view_max [OF decimal_time_ok r(1)]
  have a: "min (row_attempt_count r + 1) 4294967295 = row_attempt_count r + 1" using m assms(3) by simp
  show "swept refusing_executor u [r] = [skipped_row u r]"
    using f r(2) assms(2,3) unfolding swept_def run_due_jobs_with_clock_def
    by (simp add: run_due_with_clock_def w_bind_def w_store_def w_read_def w_return_def db_job_store_def db_call_def Let_def
        ok_call_def idle_host_def v a claim_job_def sql_count_def job_cancellation_requested_def refusing_executor_def
        skip_claimed_def finish_skipped_def finish_result_def skipped_row_def clear_marker_def)
  have t: "stamp_ok decimal_time (Some (dt_to_rfc3339 decimal_time 2000))"
    by (rule stamp_ok_simps) (simp add: dt_textual_def decimal_time_def)
  have "row_ok decimal_time (skipped_row u r)"
    using r(1) m assms(3) t by (simp add: skipped_row_def row_ok_def row_fields)
  then show "due_row (skipped_row u r)" using assms(1) by (simp add: due_row_def skipped_row_def clear_marker_def)
qed

lemma sweep_gives_up:
  assumes "due_row r" "row_last_unlock_window r \<noteq> Some u" "row_attempt_count r = row_max_attempts r"
    and "row_max_attempts r < 4294967295"
  shows "phase (row_id r) (swept X u [r]) = Some State_Failed"
proof -
  note f = due_row_sweep [OF assms(1,2)]
  have r: "row_ok decimal_time r" "row_state r = ''queued''" using assms by (simp_all add: due_row_def)
  note v = row_view(2,5) [OF decimal_time_ok r(1)] view_max [OF decimal_time_ok r(1)]
  have a: "row_max_attempts r < min (row_attempt_count r + 1) 4294967295" using assms(3,4) by simp
  show ?thesis
    using f r(2) assms(3) a unfolding swept_def run_due_jobs_with_clock_def
    by (simp add: run_due_with_clock_def w_bind_def w_store_def w_read_def w_return_def db_job_store_def db_call_def Let_def
        ok_call_def idle_host_def v give_up_def finish_failure_def sql_count_def finish_result_def phase_def state_of_token)
qed

text \<open>A policy skip leaves the job queued but uses up one of its attempts: a job that the policy
  declined in as many unlock windows as it has attempts is recorded as failed at the next one, even
  if it would be allowed to run by then.\<close>

theorem skips_use_up_attempts:
  "phase 7 (swept refusing_executor ''w3'' (swept refusing_executor ''w2'' (swept refusing_executor ''w1'' sample_table)))
     = Some Queued \<and>
   phase 7 (swept X ''w4'' (swept refusing_executor ''w3'' (swept refusing_executor ''w2'' (swept refusing_executor ''w1'' sample_table))))
     = Some State_Failed"
proof -
  define r where "r = inserted_row decimal_time (dt_to_rfc3339 decimal_time 500) sample_spec"
  have r: "due_row r" "row_last_unlock_window r = None" "row_attempt_count r = 0" "row_max_attempts r = 3" "row_id r = 7"
    using inserted_row_ok [of sample_spec decimal_time] sample_spec_ok
    by (simp_all add: r_def due_row_def inserted_row_def bool_column_def sample_spec_def)
  have s: "row_last_unlock_window (skipped_row u q) = Some u" "row_attempt_count (skipped_row u q) = row_attempt_count q + 1"
    "row_max_attempts (skipped_row u q) = row_max_attempts q" "row_id (skipped_row u q) = row_id q"
    "row_state (skipped_row u q) = ''queued''" for u q
    by (simp_all add: skipped_row_def clear_marker_def)
  note k = sweep_skips [OF r(1), of "''w1''"]
  note k2 = sweep_skips [OF k(2), of "''w2''"]
  note k3 = sweep_skips [OF k2(2), of "''w3''"]
  have e: "swept refusing_executor ''w3'' (swept refusing_executor ''w2'' (swept refusing_executor ''w1'' sample_table)) =
      [skipped_row ''w3'' (skipped_row ''w2'' (skipped_row ''w1'' r))]"
    using k(1) k2(1) k3(1) by (simp add: sample_table_eq r_def [symmetric] s r)
  show ?thesis unfolding e
    using sweep_gives_up [OF k3(2), of "''w4''" X] by (simp add: s r phase_def state_of_token)
qed

end
