(* ===== verification/Cbe.thy ===== *)
theory Cbe
  imports Prelude
begin

text \<open>
  \<^verbatim>\<open>crates/sync-core/src/cbe.rs\<close>: the canonical binary encoding in which everything is written that
  synchronization hashes, signs or authenticates.

  A byte string is a list of 8-bit words, an array \<^verbatim>\<open>[u8; N]\<close> the word of its bits (first byte
  highest), a Rust string its UTF-8 bytes.  A writer is a function from the bytes written so far to
  those with the field appended (\<open>w_all\<close> chains writers in the order of the code); a reader takes
  the rest of the input to an error or to the value and what is left.  The two assertions of the
  code are the error \<open>Wire_Panic\<close>.  Lengths fit the machine's \<^verbatim>\<open>usize\<close> of 64 bits.

  The locale \<open>wire_field\<close> is the contract of one kind of field: the reader succeeds exactly on what
  the writer writes.  It gives the round trip and that there is one encoding for a value.
\<close>

named_theorems wire_reads \<open>a reader succeeds exactly on what the writer writes\<close>
named_theorems wire_steps \<open>a reader on what the writer wrote\<close>
named_theorems wire_appends \<open>a writer appends to what is written\<close>

type_synonym byte = "8 word"
type_synonym bytes = "byte list"

definition ascii_bytes :: "string \<Rightarrow> bytes" where
  "ascii_bytes s = map of_char s"

section \<open>Big-endian numbers\<close>

primrec be :: "nat \<Rightarrow> nat \<Rightarrow> bytes" where
  "be 0 n = []"
| "be (Suc k) n = word_of_nat (n div 256 ^ k) # be k n"

primrec of_be :: "bytes \<Rightarrow> nat" where
  "of_be [] = 0"
| "of_be (b # bs) = unat b * 256 ^ length bs + of_be bs"

lemma length_be [simp]: "length (be k n) = k"
  by (induction k) auto

lemma unat_byte_less: "unat (b :: byte) < 256"
  using unsigned_less [of b] by simp

lemma of_be_less: "of_be bs < 256 ^ length bs"
proof (induction bs)
  case (Cons b bs)
  have "unat b * 256 ^ length bs + of_be bs < Suc (unat b) * 256 ^ length bs"
    using Cons.IH by simp
  also have "\<dots> \<le> 256 * 256 ^ length bs"
    using unat_byte_less [of b] by (intro mult_le_mono1) simp
  finally show ?case by simp
qed simp

lemma of_be_be: "of_be (be k n) = n mod 256 ^ k"
proof (induction k)
  case (Suc k)
  have "unat (word_of_nat (n div 256 ^ k) :: byte) = n div 256 ^ k mod 256"
    by (simp add: unat_of_nat)
  then show ?case using Suc.IH by (simp add: mod_mult2_eq [of n "256 ^ k" 256, simplified mult.commute] mult.commute)
qed simp

lemma of_be_inj: "length xs = length ys \<Longrightarrow> of_be xs = of_be ys \<Longrightarrow> xs = ys"
proof (induction xs ys rule: list_induct2)
  case (Cons x xs y ys)
  let ?m = "256 ^ length xs :: nat"
  have lt: "of_be xs < ?m" "of_be ys < ?m" using of_be_less Cons.hyps by metis+
  have eq: "unat x * ?m + of_be xs = unat y * ?m + of_be ys" using Cons.prems Cons.hyps by simp
  have "(unat x * ?m + of_be xs) div ?m = unat x" "(unat y * ?m + of_be ys) div ?m = unat y"
    using lt by simp_all
  then have "unat x = unat y" using eq by simp
  then show ?case using eq Cons.IH by (simp add: unsigned_word_eqI)
qed simp

lemma be_of_be [simp]: "length bs = k \<Longrightarrow> be k (of_be bs) = bs"
  using of_be_less [of bs] by (intro of_be_inj) (auto simp: of_be_be)

lemma be_eq_iff: "a < 256 ^ k \<Longrightarrow> b < 256 ^ k \<Longrightarrow> be k a = be k b \<longleftrightarrow> a = b"
  by (metis of_be_be mod_less)

section \<open>UTF-8\<close>

text \<open>\<^verbatim>\<open>std::str::from_utf8\<close> succeeds: the well-formed byte sequences of the Unicode standard.\<close>

definition utf8_tail :: "byte \<Rightarrow> bool" where
  "utf8_tail b \<longleftrightarrow> 0x80 \<le> b \<and> b \<le> 0xBF"

definition utf8_second :: "byte \<Rightarrow> byte \<Rightarrow> bool" where
  "utf8_second a b \<longleftrightarrow>
     (if a = 0xE0 then 0xA0 \<le> b \<and> b \<le> 0xBF
      else if a = 0xED then 0x80 \<le> b \<and> b \<le> 0x9F
      else if a = 0xF0 then 0x90 \<le> b \<and> b \<le> 0xBF
      else if a = 0xF4 then 0x80 \<le> b \<and> b \<le> 0x8F
      else utf8_tail b)"

fun utf8_ok :: "bytes \<Rightarrow> bool" where
  "utf8_ok [] = True"
| "utf8_ok (a # r) =
     (if a < 0x80 then utf8_ok r
      else if 0xC2 \<le> a \<and> a \<le> 0xDF then
        (case r of b # r \<Rightarrow> utf8_tail b \<and> utf8_ok r | [] \<Rightarrow> False)
      else if 0xE0 \<le> a \<and> a \<le> 0xEF then
        (case r of b # c # r \<Rightarrow> utf8_second a b \<and> utf8_tail c \<and> utf8_ok r | _ \<Rightarrow> False)
      else if 0xF0 \<le> a \<and> a \<le> 0xF4 then
        (case r of b # c # d # r \<Rightarrow> utf8_second a b \<and> utf8_tail c \<and> utf8_tail d \<and> utf8_ok r | _ \<Rightarrow> False)
      else False)"

lemma utf8_ascii: "list_all (\<lambda>b. b < 0x80) bs \<Longrightarrow> utf8_ok bs"
  by (induction bs) auto

section \<open>Errors\<close>

datatype wire_error =
    Truncated | TrailingBytes | TooLong | LengthExceedsInput | BadPresence | InvalidUtf8 | BadLabel
  | LabelMismatch | UnknownObjectType | ObjectFieldsMismatch | SnapshotWithoutManifest
  | CounterAboveCap | CiphertextTooShort | InvalidIdempotencyKey | EmptyOptionalBytes
  | BadEngineVersion | ListNotAscending | UnknownActorType | ObjectTooLarge | BadMagic
  | UnsupportedProtocol | UnsupportedContainer | Wire_Panic

definition is_malformed :: "wire_error \<Rightarrow> bool" where
  "is_malformed e \<longleftrightarrow> e \<notin> {UnsupportedProtocol, UnsupportedContainer, InvalidIdempotencyKey}"

definition label_byte :: "byte \<Rightarrow> bool" where
  "label_byte b \<longleftrightarrow> 0x61 \<le> b \<and> b \<le> 0x7A \<or> 0x30 \<le> b \<and> b \<le> 0x39 \<or> b \<in> set (ascii_bytes ''/_.-'')"

definition valid_label :: "bytes \<Rightarrow> bool" where
  "valid_label label \<longleftrightarrow> 1 \<le> length label \<and> length label \<le> 64 \<and> list_all label_byte label"

section \<open>Writers\<close>

definition with_label :: "bytes \<Rightarrow> (wire_error, bytes) res" where
  "with_label label =
     (if valid_label label then Inr (be 2 (length label) @ label) else Inl Wire_Panic)"

definition w_all :: "(bytes \<Rightarrow> bytes) list \<Rightarrow> bytes \<Rightarrow> bytes" where
  "w_all fields w = fold (\<lambda>f. f) fields w"

definition w_u8 :: "byte \<Rightarrow> bytes \<Rightarrow> bytes" where
  "w_u8 v w = w @ [v]"

definition w_fixed :: "'n::len word \<Rightarrow> bytes \<Rightarrow> bytes" where
  "w_fixed v w = w @ be (LENGTH('n) div 8) (unat v)"

definition w_u16 :: "16 word \<Rightarrow> bytes \<Rightarrow> bytes" where
  "w_u16 v w = w @ be 2 (unat v)"

definition w_u32 :: "32 word \<Rightarrow> bytes \<Rightarrow> bytes" where
  "w_u32 v w = w @ be 4 (unat v)"

definition w_u64 :: "64 word \<Rightarrow> bytes \<Rightarrow> bytes" where
  "w_u64 v w = w @ be 8 (unat v)"

definition w_i64 :: "int \<Rightarrow> bytes \<Rightarrow> bytes" where
  "w_i64 v w = w @ be 8 (unat (word_of_int v :: 64 word))"

definition w_bytes :: "nat \<Rightarrow> bytes \<Rightarrow> bytes \<Rightarrow> (wire_error, bytes) res" where
  "w_bytes mx v w =
     (if mx < length v then Inl TooLong
      else if 2 ^ 32 \<le> length v then Inl TooLong
      else Inr (w @ be 4 (length v) @ v))"

definition w_blob :: "nat \<Rightarrow> bytes \<Rightarrow> bytes \<Rightarrow> (wire_error, bytes) res" where
  "w_blob mx v w =
     (if mx < length v then Inl TooLong
      else if 2 ^ 64 \<le> length v then Inl TooLong
      else Inr (w @ be 8 (length v) @ v))"

definition w_text :: "nat \<Rightarrow> bytes \<Rightarrow> bytes \<Rightarrow> (wire_error, bytes) res" where
  "w_text mx v w = w_bytes mx v w"

definition w_list :: "nat \<Rightarrow> 'a list \<Rightarrow> ('a \<Rightarrow> bytes \<Rightarrow> bytes) \<Rightarrow> bytes \<Rightarrow> (wire_error, bytes) res" where
  "w_list mx items write w =
     (if mx < length items then Inl TooLong
      else if 2 ^ 32 \<le> length items then Inl TooLong
      else Inr (w_all (map write items) (w @ be 4 (length items))))"

definition w_opt :: "'a option \<Rightarrow> ('a \<Rightarrow> bytes \<Rightarrow> bytes) \<Rightarrow> bytes \<Rightarrow> bytes" where
  "w_opt v write w = (case v of None \<Rightarrow> w @ [0] | Some inner \<Rightarrow> write inner (w @ [1]))"

section \<open>Readers\<close>

definition r_take :: "nat \<Rightarrow> bytes \<Rightarrow> (wire_error, bytes \<times> bytes) res" where
  "r_take n r = (if length r < n then Inl Truncated else Inr (take n r, drop n r))"

definition r_u8 :: "bytes \<Rightarrow> (wire_error, byte \<times> bytes) res" where
  "r_u8 r = res_bind (r_take 1 r) (\<lambda>(b, r). Inr (hd b, r))"

definition r_fixed :: "bytes \<Rightarrow> (wire_error, 'n::len word \<times> bytes) res" where
  "r_fixed r = res_bind (r_take (LENGTH('n) div 8) r) (\<lambda>(b, r). Inr (word_of_nat (of_be b), r))"

definition r_u16 :: "bytes \<Rightarrow> (wire_error, 16 word \<times> bytes) res" where
  "r_u16 r = r_fixed r"

definition r_u32 :: "bytes \<Rightarrow> (wire_error, 32 word \<times> bytes) res" where
  "r_u32 r = r_fixed r"

definition r_u64 :: "bytes \<Rightarrow> (wire_error, 64 word \<times> bytes) res" where
  "r_u64 r = r_fixed r"

definition r_i64 :: "bytes \<Rightarrow> (wire_error, int \<times> bytes) res" where
  "r_i64 r = res_bind (r_fixed r) (\<lambda>(v, r). Inr (sint (v :: 64 word), r))"

definition r_label :: "bytes \<Rightarrow> bytes \<Rightarrow> (wire_error, bytes) res" where
  "r_label expected r =
     res_bind (r_u16 r) (\<lambda>(n, r).
       if \<not> (1 \<le> unat n \<and> unat n \<le> 64) then Inl BadLabel
       else res_bind (r_take (unat n) r) (\<lambda>(label, r).
         if \<not> utf8_ok label then Inl BadLabel
         else if \<not> valid_label label then Inl BadLabel
         else if label = expected then Inr r
         else Inl LabelMismatch))"

definition r_bytes :: "nat \<Rightarrow> bytes \<Rightarrow> (wire_error, bytes \<times> bytes) res" where
  "r_bytes mx r =
     res_bind (r_u32 r) (\<lambda>(n, r).
       if mx < unat n then Inl TooLong
       else if length r < unat n then Inl LengthExceedsInput
       else r_take (unat n) r)"

definition r_blob :: "nat \<Rightarrow> bytes \<Rightarrow> (wire_error, bytes \<times> bytes) res" where
  "r_blob mx r =
     res_bind (r_u64 r) (\<lambda>(n, r).
       if mx < unat n then Inl TooLong
       else if length r < unat n then Inl LengthExceedsInput
       else r_take (unat n) r)"

definition r_text :: "nat \<Rightarrow> bytes \<Rightarrow> (wire_error, bytes \<times> bytes) res" where
  "r_text mx r =
     res_bind (r_bytes mx r) (\<lambda>(v, r). if utf8_ok v then Inr (v, r) else Inl InvalidUtf8)"

definition r_opt ::
    "(bytes \<Rightarrow> (wire_error, 'a \<times> bytes) res) \<Rightarrow> bytes \<Rightarrow> (wire_error, 'a option \<times> bytes) res" where
  "r_opt read r =
     res_bind (r_u8 r) (\<lambda>(p, r).
       if p = 0 then Inr (None, r)
       else if p = 1 then res_bind (read r) (\<lambda>(v, r). Inr (Some v, r))
       else Inl BadPresence)"

primrec r_items ::
    "(bytes \<Rightarrow> (wire_error, 'a \<times> bytes) res) \<Rightarrow> nat \<Rightarrow> bytes \<Rightarrow> (wire_error, 'a list \<times> bytes) res" where
  "r_items read 0 r = Inr ([], r)"
| "r_items read (Suc n) r =
     res_bind (read r) (\<lambda>(v, r). res_bind (r_items read n r) (\<lambda>(vs, r). Inr (v # vs, r)))"

definition r_list ::
    "nat \<Rightarrow> nat \<Rightarrow> (bytes \<Rightarrow> (wire_error, 'a \<times> bytes) res) \<Rightarrow> bytes \<Rightarrow>
     (wire_error, 'a list \<times> bytes) res" where
  "r_list mx min_item_size read r =
     (if min_item_size < 1 then Inl Wire_Panic
      else res_bind (r_u32 r) (\<lambda>(count, r).
        if mx < unat count then Inl TooLong
        else if 2 ^ 64 \<le> unat count * min_item_size then Inl LengthExceedsInput
        else if length r < unat count * min_item_size then Inl LengthExceedsInput
        else r_items read (unat count) r))"

definition r_finish :: "bytes \<Rightarrow> (wire_error, unit) res" where
  "r_finish r = (if r = [] then Inr () else Inl TrailingBytes)"

section \<open>Reading is the inverse of writing\<close>

lemma res_if_Inr_iff [simp]:
  "(if c then Inl e else m) = Inr y \<longleftrightarrow> \<not> c \<and> m = Inr y"
  by simp

lemma r_take_iff: "r_take n r = Inr (b, r') \<longleftrightarrow> length b = n \<and> r = b @ r'"
  by (auto simp: r_take_def)

lemma r_u8_iff: "r_u8 r = Inr (v, r') \<longleftrightarrow> r = w_u8 v [] @ r'"
  by (auto simp: r_u8_def w_u8_def res_bind_Inr_iff r_take_iff length_Suc_conv)

lemma be_unat_of_be:
  assumes "8 dvd LENGTH('n::len)" "length b = LENGTH('n) div 8"
  shows "be (LENGTH('n) div 8) (unat (word_of_nat (of_be b) :: 'n word)) = b"
proof -
  have "of_be b < 256 ^ (LENGTH('n) div 8)" using of_be_less [of b] assms(2) by simp
  also have "(256 :: nat) ^ (LENGTH('n) div 8) = 2 ^ (8 * (LENGTH('n) div 8))"
    by (simp only: power_mult) simp
  also have "\<dots> = 2 ^ LENGTH('n)" using assms(1) by simp
  finally show ?thesis using assms(2) by (simp add: unat_of_nat)
qed

lemma of_be_unat:
  assumes "8 dvd LENGTH('n::len)"
  shows "word_of_nat (of_be (be (LENGTH('n) div 8) (unat (v :: 'n word)))) = v"
proof -
  have "(256 :: nat) ^ (LENGTH('n) div 8) = 2 ^ (8 * (LENGTH('n) div 8))"
    by (simp only: power_mult) simp
  also have "\<dots> = 2 ^ LENGTH('n)" using assms by simp
  finally show ?thesis using unsigned_less [of v] by (simp add: of_be_be)
qed

lemma r_fixed_iff:
  assumes "8 dvd LENGTH('n::len)"
  shows "r_fixed r = Inr (v :: 'n word, r') \<longleftrightarrow> r = w_fixed v [] @ r'"
  using be_unat_of_be [OF assms] of_be_unat [OF assms, of v]
  by (auto simp: r_fixed_def w_fixed_def res_bind_Inr_iff r_take_iff)

lemma r_u16_iff: "r_u16 r = Inr (v, r') \<longleftrightarrow> r = w_u16 v [] @ r'"
  using r_fixed_iff [where v = v] by (simp add: r_u16_def w_u16_def w_fixed_def)

lemma r_u32_iff: "r_u32 r = Inr (v, r') \<longleftrightarrow> r = w_u32 v [] @ r'"
  using r_fixed_iff [where v = v] by (simp add: r_u32_def w_u32_def w_fixed_def)

lemma r_u64_iff: "r_u64 r = Inr (v, r') \<longleftrightarrow> r = w_u64 v [] @ r'"
  using r_fixed_iff [where v = v] by (simp add: r_u64_def w_u64_def w_fixed_def)

lemma r_i64_iff: "r_i64 r = Inr (v, r') \<longleftrightarrow> in_i64 v \<and> r = w_i64 v [] @ r'"
proof -
  have range: "in_i64 (sint (x :: 64 word))" for x
    using sint_ge [of x] sint_lt [of x] by (simp add: machine_int)
  have inv: "sint (word_of_int v :: 64 word) = v" if "in_i64 v"
    using that by (simp add: machine_int sint_sbintrunc' signed_take_bit_int_eq_self_iff)
  have eq: "r_fixed r = Inr (x :: 64 word, r') \<longleftrightarrow> r = be 8 (unat x) @ r'" for x
    using r_fixed_iff [where v = x] by (simp add: w_fixed_def)
  show ?thesis using range inv by (auto simp: r_i64_def w_i64_def res_bind_Inr_iff eq)
qed

lemma w_bytes_iff: "w_bytes mx v w = Inr w' \<longleftrightarrow> length v \<le> mx \<and> length v < 2 ^ 32 \<and> w' = w @ be 4 (length v) @ v"
  by (auto simp: w_bytes_def)

lemma r_length_iff:
  "n < 2 ^ 32 \<Longrightarrow> unat (x :: 32 word) = n \<longleftrightarrow> x = word_of_nat n"
  by (auto simp: unat_of_nat)

lemma r_bytes_iff: "r_bytes mx r = Inr (v, r') \<longleftrightarrow> (\<exists>b. w_bytes mx v [] = Inr b \<and> r = b @ r')"
proof -
  have "unat (x :: 32 word) < 2 ^ 32" for x using unsigned_less [of x] by simp
  then show ?thesis
    by (auto simp: r_bytes_def w_bytes_iff res_bind_Inr_iff r_u32_iff w_u32_def r_take_iff unat_of_nat
        intro!: exI [of _ "word_of_nat (length v) :: 32 word"])
qed

lemma unat_word_less:
  "unat (x :: 32 word) < 4294967296" "unat (y :: 64 word) < 18446744073709551616"
  using unsigned_less [of x] unsigned_less [of y] by simp_all

lemma r_blob_iff:
  "r_blob mx r = Inr (v, r') \<longleftrightarrow> (\<exists>b. w_blob mx v [] = Inr b \<and> r = b @ r')"
proof -
  have u64: "\<not> 2 ^ 64 \<le> unat (x :: 64 word)" for x by (simp add: not_le unat_word_less)
  show ?thesis
    by (auto simp: u64 [simplified] r_blob_def w_blob_def res_bind_Inr_iff r_u64_iff w_u64_def r_take_iff unat_of_nat
        intro!: exI [of _ "word_of_nat (length v) :: 64 word"])
qed

lemma r_text_iff:
  "r_text mx r = Inr (v, r') \<longleftrightarrow> utf8_ok v \<and> (\<exists>b. w_text mx v [] = Inr b \<and> r = b @ r')"
  by (auto simp: r_text_def w_text_def res_bind_Inr_iff r_bytes_iff)

lemma label_byte_ascii: "label_byte b \<Longrightarrow> b < 0x80"
  unfolding label_byte_def by (auto simp: ascii_bytes_def word_le_nat_alt word_less_nat_alt)

lemma valid_label_utf8: "valid_label label \<Longrightarrow> utf8_ok label"
  unfolding valid_label_def by (auto intro!: utf8_ascii simp: list_all_iff label_byte_ascii)

lemma r_label_iff:
  assumes "valid_label expected"
  shows "r_label expected r = Inr r' \<longleftrightarrow> (\<exists>b. with_label expected = Inr b \<and> r = b @ r')"
proof -
  have len: "1 \<le> length expected" "length expected \<le> 64" using assms by (simp_all add: valid_label_def)
  then show ?thesis
    using assms valid_label_utf8 [OF assms]
    by (auto simp: r_label_def with_label_def res_bind_Inr_iff r_u16_iff w_u16_def r_take_iff unat_of_nat
        intro!: exI [of _ "word_of_nat (length expected) :: 16 word"])
qed

lemma r_finish_iff: "r_finish r = Inr u \<longleftrightarrow> r = []"
  by (simp add: r_finish_def)

lemma w_all_simps [simp]: "w_all [] w = w" "w_all (f # fs) w = w_all fs (f w)"
  by (simp_all add: w_all_def)

locale wire_field =
  fixes put :: "'a \<Rightarrow> bytes \<Rightarrow> bytes"
    and get :: "bytes \<Rightarrow> (wire_error, 'a \<times> bytes) res"
    and ok :: "'a \<Rightarrow> bool"
  assumes append: "put v w = w @ put v []"
    and read_iff: "get r = Inr (v, r') \<longleftrightarrow> ok v \<and> r = put v [] @ r'"
begin

lemma read_write: "ok v \<Longrightarrow> get (put v w) = (case w of [] \<Rightarrow> Inr (v, []) | _ \<Rightarrow> get (put v w))"
  by (cases w) (auto simp: read_iff)

lemma prefix_free: "ok v \<Longrightarrow> ok v' \<Longrightarrow> put v [] @ r = put v' [] @ r' \<Longrightarrow> v = v' \<and> r = r'"
  by (metis read_iff sum.inject(2) prod.inject)

lemma w_opt_append: "w_opt v put w = w @ w_opt v put []"
  by (cases v) (simp_all add: w_opt_def append [of _ "w @ [1]"] append [of _ "[1]"])

lemma r_opt_iff:
  "r_opt get r = Inr (v, r') \<longleftrightarrow> pred_option ok v \<and> r = w_opt v put [] @ r'"
proof (cases v)
  case None
  then show ?thesis
    by (auto simp: r_opt_def w_opt_def res_bind_Inr_iff r_u8_iff w_u8_def intro!: exI [of _ "0 :: byte"])
next
  case (Some x)
  then show ?thesis
    by (auto simp: r_opt_def w_opt_def res_bind_Inr_iff r_u8_iff w_u8_def read_iff append [of _ "[1]"]
        intro!: exI [of _ "1 :: byte"])
qed

lemma w_all_append: "w_all (map put vs) w = w @ w_all (map put vs) []"
proof (induction vs arbitrary: w)
  case (Cons v vs)
  from Cons.IH [of "put v w"] Cons.IH [of "put v []"] show ?case by (simp add: append [of v w])
qed simp

lemma r_items_iff:
  "r_items get n r = Inr (vs, r') \<longleftrightarrow>
     length vs = n \<and> list_all ok vs \<and> r = w_all (map put vs) [] @ r'"
proof (induction n arbitrary: r vs)
  case (Suc n)
  show ?case
  proof (cases vs)
    case (Cons v ws)
    then show ?thesis
      using w_all_append [of ws "put v []"] by (auto simp: res_bind_Inr_iff read_iff Suc.IH)
  qed (auto simp: res_bind_Inr_iff)
qed auto

lemma w_all_length:
  assumes "\<forall>v. ok v \<longrightarrow> m \<le> length (put v [])"
  shows "list_all ok vs \<Longrightarrow> length vs * m \<le> length (w_all (map put vs) [])"
proof (induction vs)
  case (Cons v vs)
  then show ?case using assms w_all_append [of vs "put v []"] by (simp add: add_mono)
qed simp

lemma r_list_general:
  assumes m: "1 \<le> m" and small: "mx < 2 ^ 32" "mx * m < 2 ^ 64"
  shows "r_list mx m get r = Inr (vs, r') \<longleftrightarrow>
     list_all ok vs \<and> (\<exists>b. w_list mx vs put [] = Inr b \<and> r = b @ r') \<and>
     length vs * m \<le> length (w_all (map put vs) []) + length r'"
proof -
  have less: "length vs * m < 2 ^ 64" if "length vs \<le> mx"
    using small(2) that by (meson le_less_trans mult_le_mono1)
  have u32: "\<not> 2 ^ 32 \<le> unat (x :: 32 word)" for x by (simp add: not_le unat_word_less)
  show ?thesis
    using m small(1) less w_all_append [of vs "be 4 (length vs)"]
    by (auto simp: u32 [simplified] r_list_def w_list_def res_bind_Inr_iff r_u32_iff w_u32_def r_items_iff unat_of_nat
        intro!: exI [of _ "word_of_nat (length vs) :: 32 word"])
qed

lemma r_list_iff:
  assumes min: "\<forall>v. ok v \<longrightarrow> m \<le> length (put v [])" "1 \<le> m" and small: "mx < 2 ^ 32" "mx * m < 2 ^ 64"
  shows "r_list mx m get r = Inr (vs, r') \<longleftrightarrow>
     list_all ok vs \<and> (\<exists>b. w_list mx vs put [] = Inr b \<and> r = b @ r')"
  using r_list_general [OF min(2) small, of r vs r'] w_all_length [OF min(1), of vs] by fastforce

end

interpretation u8: wire_field w_u8 r_u8 "\<lambda>_. True"
  by unfold_locales (auto simp: r_u8_iff, simp add: w_u8_def)

interpretation u16: wire_field w_u16 r_u16 "\<lambda>_. True"
  by unfold_locales (auto simp: r_u16_iff, simp add: w_u16_def)

interpretation u32: wire_field w_u32 r_u32 "\<lambda>_. True"
  by unfold_locales (auto simp: r_u32_iff, simp add: w_u32_def)

interpretation u64: wire_field w_u64 r_u64 "\<lambda>_. True"
  by unfold_locales (auto simp: r_u64_iff, simp add: w_u64_def)

interpretation i64: wire_field w_i64 r_i64 in_i64
  by unfold_locales (auto simp: r_i64_iff, simp add: w_i64_def)

interpretation uuid16: wire_field "w_fixed :: 128 word \<Rightarrow> _" r_fixed "\<lambda>_. True"
  by unfold_locales (simp add: w_fixed_def, simp add: r_fixed_iff)

interpretation digest32: wire_field "w_fixed :: 256 word \<Rightarrow> _" r_fixed "\<lambda>_. True"
  by unfold_locales (simp add: w_fixed_def, simp add: r_fixed_iff)

interpretation nonce4: wire_field "w_fixed :: 32 word \<Rightarrow> _" r_fixed "\<lambda>_. True"
  by unfold_locales (simp add: w_fixed_def, simp add: r_fixed_iff)

lemma opt_digest_iff:
  "r_opt r_fixed r = Inr (v, r') \<longleftrightarrow> r = w_opt v (w_fixed :: 256 word \<Rightarrow> bytes \<Rightarrow> bytes) [] @ r'"
  by (simp add: digest32.r_opt_iff option.pred_True)

lemma opt_u64_iff: "r_opt r_u64 r = Inr (v, r') \<longleftrightarrow> r = w_opt v w_u64 [] @ r'"
  by (simp add: u64.r_opt_iff option.pred_True)

lemmas fixed_reads [wire_reads] =
  u8.read_iff u16.read_iff u32.read_iff u64.read_iff i64.read_iff uuid16.read_iff digest32.read_iff
  nonce4.read_iff opt_digest_iff opt_u64_iff r_bytes_iff r_text_iff r_finish_iff

lemmas writers_append [wire_appends] = w_u8_def w_u16_def w_u32_def w_u64_def w_i64_def w_fixed_def

lemma w_opt_digest_append: "w_opt v (w_fixed :: 256 word \<Rightarrow> bytes \<Rightarrow> bytes) w = w @ w_opt v w_fixed []"
  by (rule digest32.w_opt_append)

lemma w_opt_u64_append: "w_opt v w_u64 w = w @ w_opt v w_u64 []"
  by (rule u64.w_opt_append)

lemma read_steps [wire_steps]:
  "r_u8 (w_u8 a [] @ r) = Inr (a, r)"
  "r_u16 (w_u16 b [] @ r) = Inr (b, r)"
  "r_u32 (w_u32 c [] @ r) = Inr (c, r)"
  "r_u64 (w_u64 d [] @ r) = Inr (d, r)"
  "r_fixed (w_fixed e [] @ r) = Inr (e :: 128 word, r)"
  "r_fixed (w_fixed f [] @ r) = Inr (f :: 256 word, r)"
  "r_fixed (w_fixed c [] @ r) = Inr (c :: 32 word, r)"
  "r_opt r_fixed (w_opt g w_fixed [] @ r) = Inr (g :: 256 word option, r)"
  "r_opt r_u64 (w_opt h w_u64 [] @ r) = Inr (h, r)"
  by (simp_all add: wire_reads)

lemma read_steps_last [wire_steps]:
  "r_opt r_fixed (w_opt g w_fixed []) = Inr (g :: 256 word option, [])"
  "r_fixed (w_fixed f []) = Inr (f :: 256 word, [])"
  using read_steps(8) [of g "[]"] read_steps(6) [of f "[]"] by simp_all

lemma read_i64_step [wire_steps]:
  "in_i64 v \<Longrightarrow> r_i64 (w_i64 v [] @ r) = Inr (v, r)" "in_i64 v \<Longrightarrow> r_i64 (w_i64 v []) = Inr (v, [])"
  by (simp_all add: wire_reads)

lemma r_label_step [wire_steps]:
  "valid_label l \<Longrightarrow> with_label l = Inr b \<Longrightarrow> r_label l (b @ r) = Inr r"
  by (simp add: r_label_iff)

lemma r_finish_Nil [simp]: "r_finish [] = Inr ()"
  by (simp add: r_finish_def)

section \<open>One encoding for every value\<close>

text \<open>
  A reader succeeds with a value exactly when the input starts with what the writer writes for that
  value (for numbers, arrays, byte strings within their bound, and text, which must also be valid
  UTF-8), so a value has one encoding and reading never looks past it.
\<close>
theorem wire_fields_canonical:
  "(r_u8 r = Inr (a, r') \<longleftrightarrow> r = w_u8 a [] @ r') \<and>
   (r_u16 r = Inr (b, r') \<longleftrightarrow> r = w_u16 b [] @ r') \<and>
   (r_u32 r = Inr (c, r') \<longleftrightarrow> r = w_u32 c [] @ r') \<and>
   (r_u64 r = Inr (d, r') \<longleftrightarrow> r = w_u64 d [] @ r') \<and>
   (r_i64 r = Inr (e, r') \<longleftrightarrow> in_i64 e \<and> r = w_i64 e [] @ r') \<and>
   (r_fixed r = Inr (f, r') \<longleftrightarrow> r = w_fixed (f :: 128 word) [] @ r') \<and>
   (r_fixed r = Inr (g, r') \<longleftrightarrow> r = w_fixed (g :: 256 word) [] @ r') \<and>
   (r_bytes mx r = Inr (v, r') \<longleftrightarrow> (\<exists>w. w_bytes mx v [] = Inr w \<and> r = w @ r')) \<and>
   (r_blob mx r = Inr (v, r') \<longleftrightarrow> (\<exists>w. w_blob mx v [] = Inr w \<and> r = w @ r')) \<and>
   (r_text mx r = Inr (v, r') \<longleftrightarrow> utf8_ok v \<and> (\<exists>w. w_text mx v [] = Inr w \<and> r = w @ r')) \<and>
   (r_opt r_u64 r = Inr (x, r') \<longleftrightarrow> r = w_opt x w_u64 [] @ r')"
  using u64.r_opt_iff [of r x r']
  by (simp add: r_u8_iff r_u16_iff r_u32_iff r_u64_iff i64.read_iff uuid16.read_iff digest32.read_iff
      r_bytes_iff r_blob_iff r_text_iff option.pred_True)

end
