(* ===== verification/Wire_Header.thy ===== *)
theory Wire_Header
  imports Cbe
begin

text \<open>
  \<^verbatim>\<open>crates/sync-core/src/header.rs\<close>: the clear header of a sealed object, the container that carries
  it, and the reader that finds the header from the first bytes of a container.

  Ids and digests are words of their 16, 32 or 4 bytes, each kind of digest its own type as in the
  code.  SHA-256 is a parameter.  A length that the code holds as \<^verbatim>\<open>u64\<close> is a natural number: the
  sums of \<open>read_frame\<close> stay below \<open>2 ^ 33\<close> apart from the given total, so none of them wraps.
\<close>

definition protocol_version :: "16 word" where "protocol_version = 1"

definition header_label :: bytes where
  "header_label = ascii_bytes ''dohflow/sync-header/v1''"

definition max_invocation_counter :: "64 word" where
  "max_invocation_counter = 4294967295"

definition max_engine_version :: nat where "max_engine_version = 64"

definition object_envelope :: byte where "object_envelope = 1"
definition object_snapshot :: byte where "object_snapshot = 2"

definition is_valid_engine_version :: "bytes \<Rightarrow> bool" where
  "is_valid_engine_version v \<longleftrightarrow>
     1 \<le> length v \<and> length v \<le> max_engine_version \<and> list_all (\<lambda>b. 0x21 \<le> b \<and> b \<le> 0x7E) v"

datatype idempotency_key_tag = IdempotencyKeyTag (tag_bytes: "256 word")
datatype metadata_commitment = MetadataCommitment (meta_bytes: "256 word")
datatype manifest_commitment = ManifestCommitment (manifest_bytes: "256 word")
datatype fingerprint = Fingerprint (fingerprint_bytes: "256 word")
datatype nonce_domain = NonceDomain (domain_bytes: "32 word")

definition nonce_domain_derive ::
    "(bytes \<Rightarrow> 256 word) \<Rightarrow> 128 word \<Rightarrow> 64 word \<Rightarrow> fingerprint \<Rightarrow> byte \<Rightarrow> (wire_error, nonce_domain) res" where
  "nonce_domain_derive sha256 vault_id key_epoch fp object_type =
     res_bind (with_label (ascii_bytes ''dohflow/sync-nonce/v1'')) (\<lambda>w.
       let digest = sha256 (w_all [w_fixed vault_id, w_u64 key_epoch, w_fixed (fingerprint_bytes fp), w_u8 object_type] w)
       in Inr (NonceDomain (word_of_nat (of_be (take 4 (be 32 (unat digest)))))))"

datatype object_kind =
    Envelope (idempotency_key_tag: idempotency_key_tag)
      (immutable_metadata_commitment: metadata_commitment) (envelope_manifest: "manifest_commitment option")
  | Snapshot (snapshot_manifest: manifest_commitment)

record clear_header =
  h_vault_id :: "128 word"
  h_key_epoch :: "64 word"
  h_object :: object_kind
  h_object_id :: "128 word"
  h_device_id :: "128 word"
  h_fingerprint :: fingerprint
  h_nonce_domain :: nonce_domain
  h_invocation_counter :: "64 word"
  h_base_seq :: "64 word"
  h_payload_schema_version :: "32 word"
  h_engine_version :: bytes
  h_schema_version :: "32 word"

primrec object_type :: "object_kind \<Rightarrow> byte" where
  "object_type (Envelope _ _ _) = object_envelope"
| "object_type (Snapshot _) = object_snapshot"

primrec object_fields :: "object_kind \<Rightarrow> 256 word option \<times> 256 word option \<times> 256 word option" where
  "object_fields (Envelope tag commitment manifest) =
     (Some (tag_bytes tag), Some (meta_bytes commitment), map_option manifest_bytes manifest)"
| "object_fields (Snapshot manifest) = (None, None, Some (manifest_bytes manifest))"

definition header_encode :: "clear_header \<Rightarrow> (wire_error, bytes) res" where
  "header_encode h =
     (if max_invocation_counter < h_invocation_counter h then Inl CounterAboveCap
      else if \<not> is_valid_engine_version (h_engine_version h) then Inl BadEngineVersion
      else res_bind (with_label header_label) (\<lambda>w.
        let (tag, commitment, manifest) = object_fields (h_object h);
            w = w_all [w_u16 protocol_version, w_fixed (h_vault_id h), w_u64 (h_key_epoch h),
                  w_u8 (object_type (h_object h)), w_fixed (h_object_id h), w_opt tag w_fixed,
                  w_opt commitment w_fixed, w_fixed (h_device_id h),
                  w_fixed (fingerprint_bytes (h_fingerprint h)), w_fixed (domain_bytes (h_nonce_domain h)),
                  w_u64 (h_invocation_counter h), w_u64 (h_base_seq h), w_u32 (h_payload_schema_version h)] w
        in res_bind (w_text max_engine_version (h_engine_version h) w) (\<lambda>w.
             Inr (w_all [w_u32 (h_schema_version h), w_opt manifest w_fixed] w))))"

definition header_object ::
    "byte \<Rightarrow> 256 word option \<Rightarrow> 256 word option \<Rightarrow> 256 word option \<Rightarrow> (wire_error, object_kind) res" where
  "header_object ty tag commitment manifest =
     (if ty = object_envelope then
        (case (tag, commitment) of
           (Some tag, Some commitment) \<Rightarrow>
             Inr (Envelope (IdempotencyKeyTag tag) (MetadataCommitment commitment) (map_option ManifestCommitment manifest))
         | _ \<Rightarrow> Inl ObjectFieldsMismatch)
      else if ty = object_snapshot then
        (case (tag, commitment) of
           (None, None) \<Rightarrow>
             (case manifest of Some m \<Rightarrow> Inr (Snapshot (ManifestCommitment m)) | None \<Rightarrow> Inl SnapshotWithoutManifest)
         | _ \<Rightarrow> Inl ObjectFieldsMismatch)
      else Inl UnknownObjectType)"

definition header_decode :: "bytes \<Rightarrow> (wire_error, clear_header) res" where
  "header_decode bs =
     res_bind (r_label header_label bs) (\<lambda>r.
     res_bind (r_u16 r) (\<lambda>(protocol, r).
     if protocol \<noteq> protocol_version then Inl UnsupportedProtocol else
     res_bind (r_fixed r) (\<lambda>(vault_id, r).
     res_bind (r_u64 r) (\<lambda>(key_epoch, r).
     res_bind (r_u8 r) (\<lambda>(ty, r).
     res_bind (r_fixed r) (\<lambda>(object_id, r).
     res_bind (r_opt r_fixed r) (\<lambda>(tag, r).
     res_bind (r_opt r_fixed r) (\<lambda>(commitment, r).
     res_bind (r_fixed r) (\<lambda>(device_id, r).
     res_bind (r_fixed r) (\<lambda>(fp, r).
     res_bind (r_fixed r) (\<lambda>(domain, r).
     res_bind (r_u64 r) (\<lambda>(counter, r).
     res_bind (r_u64 r) (\<lambda>(base_seq, r).
     res_bind (r_u32 r) (\<lambda>(payload_schema_version, r).
     res_bind (r_text max_engine_version r) (\<lambda>(version, r).
     res_bind (r_u32 r) (\<lambda>(schema_version, r).
     res_bind (r_opt r_fixed r) (\<lambda>(manifest, r).
     res_bind (r_finish r) (\<lambda>_.
     res_bind (header_object ty tag commitment manifest) (\<lambda>object.
     if max_invocation_counter < counter then Inl CounterAboveCap
     else if \<not> is_valid_engine_version version then Inl BadEngineVersion
     else Inr \<lparr>h_vault_id = vault_id, h_key_epoch = key_epoch, h_object = object, h_object_id = object_id,
            h_device_id = device_id, h_fingerprint = Fingerprint fp, h_nonce_domain = NonceDomain domain,
            h_invocation_counter = counter, h_base_seq = base_seq,
            h_payload_schema_version = payload_schema_version, h_engine_version = version,
            h_schema_version = schema_version\<rparr>)))))))))))))))))))"

section \<open>The header has one encoding\<close>

lemma header_object_iff:
  "header_object ty tag commitment manifest = Inr ob \<longleftrightarrow>
     ty = object_type ob \<and> tag = fst (object_fields ob) \<and>
     commitment = fst (snd (object_fields ob)) \<and> manifest = snd (snd (object_fields ob))"
proof -
  have ne: "object_envelope \<noteq> object_snapshot" by (simp add: object_envelope_def object_snapshot_def)
  have inv: "map_option ManifestCommitment m = n \<longleftrightarrow> m = map_option manifest_bytes n" for m n
    by (cases m; cases n) auto
  show ?thesis
    using ne by (cases ob) (auto simp: header_object_def inv split: option.splits)
qed

lemma engine_version_utf8: "is_valid_engine_version v \<Longrightarrow> utf8_ok v"
  by (rule utf8_ascii)
    (auto simp: is_valid_engine_version_def list_all_iff word_le_nat_alt word_less_nat_alt dest!: bspec)

lemma engine_version_length: "is_valid_engine_version v \<Longrightarrow> length v \<le> max_engine_version"
  by (simp add: is_valid_engine_version_def)

lemma header_label_valid: "valid_label header_label"
  unfolding header_label_def by code_simp

lemmas header_reads = wire_reads r_label_iff [OF header_label_valid] header_object_iff

text \<open>The bytes of a header in one piece.\<close>

definition header_bytes_of :: "bytes \<Rightarrow> clear_header \<Rightarrow> bytes" where
  "header_bytes_of label h =
     label @ w_u16 protocol_version [] @ w_fixed (h_vault_id h) [] @ w_u64 (h_key_epoch h) [] @
     w_u8 (object_type (h_object h)) [] @ w_fixed (h_object_id h) [] @
     w_opt (fst (object_fields (h_object h))) w_fixed [] @
     w_opt (fst (snd (object_fields (h_object h)))) w_fixed [] @ w_fixed (h_device_id h) [] @
     w_fixed (fingerprint_bytes (h_fingerprint h)) [] @ w_fixed (domain_bytes (h_nonce_domain h)) [] @
     w_u64 (h_invocation_counter h) [] @ w_u64 (h_base_seq h) [] @ w_u32 (h_payload_schema_version h) [] @
     be 4 (length (h_engine_version h)) @ h_engine_version h @ w_u32 (h_schema_version h) [] @
     w_opt (snd (snd (object_fields (h_object h)))) w_fixed []"

definition header_ok :: "clear_header \<Rightarrow> bool" where
  "header_ok h \<longleftrightarrow> h_invocation_counter h \<le> max_invocation_counter \<and> is_valid_engine_version (h_engine_version h)"

lemma header_encode_iff:
  "header_encode h = Inr bs \<longleftrightarrow> header_ok h \<and> (\<exists>label. with_label header_label = Inr label \<and> bs = header_bytes_of label h)"
proof -
  obtain tag commitment manifest where f: "object_fields (h_object h) = (tag, commitment, manifest)"
    by (metis prod_cases3)
  have fit: "is_valid_engine_version (h_engine_version h) \<Longrightarrow>
      length (h_engine_version h) \<le> max_engine_version \<and> length (h_engine_version h) < 4294967296"
    using engine_version_length by (fastforce simp: max_engine_version_def)
  show ?thesis
    using fit by (auto simp: header_encode_def header_ok_def header_bytes_of_def f w_text_def w_bytes_iff
        res_bind_Inr_iff wire_appends w_opt_digest_append [of _ "_ @ _"])
qed

lemma header_object_fields:
  "header_object (object_type ob) (fst (object_fields ob)) (fst (snd (object_fields ob)))
     (snd (snd (object_fields ob))) = Inr ob"
  by (simp add: header_object_iff)

lemma header_read_text:
  "is_valid_engine_version v \<Longrightarrow>
   r_text max_engine_version (be 4 (length v) @ v @ r) = Inr (v, r)"
  using engine_version_utf8 [of v] engine_version_length [of v]
  by (simp add: r_text_iff w_text_def w_bytes_iff max_engine_version_def)

lemma header_decode_iff:
  "header_decode bs = Inr h \<longleftrightarrow> header_ok h \<and> (\<exists>label. with_label header_label = Inr label \<and> bs = header_bytes_of label h)"
proof
  assume "header_decode bs = Inr h"
  then show "header_ok h \<and> (\<exists>label. with_label header_label = Inr label \<and> bs = header_bytes_of label h)"
    by (auto simp: header_decode_def res_bind_Inr_iff header_reads header_bytes_of_def header_ok_def w_text_def
        w_bytes_iff not_less)
next
  assume "header_ok h \<and> (\<exists>label. with_label header_label = Inr label \<and> bs = header_bytes_of label h)"
  then show "header_decode bs = Inr h"
    by (auto simp: header_decode_def header_bytes_of_def header_ok_def wire_steps header_label_valid
        header_read_text header_object_fields r_finish_def not_less)
qed

text \<open>
  C39: Parsing a header succeeds with a value on exactly one byte string, the one that encoding that value
  gives; so headers round-trip both ways, and the bytes that are authenticated determine the header.
\<close>
theorem header_codec_exact:
  "header_decode bs = Inr h \<longleftrightarrow> header_encode h = Inr bs"
  by (simp add: header_decode_iff header_encode_iff)

lemma header_encode_decode: "header_encode h = Inr bs \<Longrightarrow> header_decode bs = Inr h"
  by (simp add: header_decode_iff header_encode_iff)

lemma header_decode_encode: "header_decode bs = Inr h \<Longrightarrow> header_encode h = Inr bs"
  by (simp add: header_decode_iff header_encode_iff)

lemma w_opt_digest_length: "length (w_opt v (w_fixed :: 256 word \<Rightarrow> bytes \<Rightarrow> bytes) []) \<le> 33"
  by (cases v) (simp_all add: w_opt_def w_fixed_def)

lemma header_length: "header_encode h = Inr bs \<Longrightarrow> length bs < 512"
proof -
  assume enc: "header_encode h = Inr bs"
  then obtain label where label: "with_label header_label = Inr label" and bs: "bs = header_bytes_of label h"
    and ok: "header_ok h" by (auto simp: header_encode_iff)
  have "length label \<le> 66"
    using label header_label_valid by (auto simp: with_label_def valid_label_def)
  moreover have "length (h_engine_version h) \<le> 64"
    using ok by (simp add: header_ok_def is_valid_engine_version_def max_engine_version_def)
  ultimately show ?thesis
    using w_opt_digest_length [of "fst (object_fields (h_object h))"]
      w_opt_digest_length [of "fst (snd (object_fields (h_object h)))"]
      w_opt_digest_length [of "snd (snd (object_fields (h_object h)))"]
    by (simp add: bs header_bytes_of_def wire_appends)
qed

section \<open>The container\<close>

definition container_magic :: bytes where "container_magic = ascii_bytes ''DFSY''"
definition container_version :: nat where "container_version = 1"
definition min_ciphertext_len :: nat where "min_ciphertext_len = 16"
definition frame_head_len :: nat where "frame_head_len = 4 + 2 + 4"
definition ciphertext_len_field :: nat where "ciphertext_len_field = 8"

definition max_envelope_container_len :: nat where
  "max_envelope_container_len = 2 ^ 24 + 4096 * 32 + 4096"

record parsed_container =
  pc_header :: clear_header
  pc_header_bytes :: bytes
  pc_ciphertext :: bytes

definition encode_container :: "clear_header \<Rightarrow> bytes \<Rightarrow> (wire_error, bytes) res" where
  "encode_container h ciphertext =
     res_bind (header_encode h) (\<lambda>header_bytes.
       if 2 ^ 32 \<le> length header_bytes then Inl TooLong
       else if 2 ^ 64 \<le> length ciphertext then Inl TooLong
       else Inr (container_magic @ be 2 container_version @ be 4 (length header_bytes) @ header_bytes @
                 be 8 (length ciphertext) @ ciphertext))"

datatype peek_error = PrefixTooShort nat | Peek_Wire wire_error

record frame =
  frame_header :: clear_header
  frame_header_len :: nat
  frame_ciphertext_len :: nat

definition read_frame :: "bytes \<Rightarrow> nat \<Rightarrow> (peek_error, frame) res" where
  "read_frame avail total_len =
     (let held = length avail;
          whole = (held = total_len);
          short = (\<lambda>needed. PrefixTooShort (min needed total_len));
          lack = (\<lambda>needed. if whole then Peek_Wire Truncated else short needed);
          magic_len = length container_magic
      in if total_len < held then Inl (Peek_Wire LengthExceedsInput)
         else if held < magic_len then
           (if avail \<noteq> take held container_magic then Inl (Peek_Wire BadMagic) else Inl (lack frame_head_len))
         else if take magic_len avail \<noteq> container_magic then Inl (Peek_Wire BadMagic)
         else if held < magic_len + 2 then Inl (lack frame_head_len)
         else if of_be (take 2 (drop 4 avail)) \<noteq> container_version then Inl (Peek_Wire UnsupportedContainer)
         else if held < frame_head_len then Inl (lack frame_head_len)
         else
           let header_len = of_be (take 4 (drop 6 avail));
               after_head = total_len - frame_head_len
           in if after_head < header_len then Inl (Peek_Wire LengthExceedsInput)
              else
                let header_end = frame_head_len + header_len
                in if held < header_end then Inl (lack (header_end + ciphertext_len_field))
                   else case header_decode (take (header_end - frame_head_len) (drop frame_head_len avail)) of
                          Inl e \<Rightarrow> Inl (Peek_Wire e)
                        | Inr header \<Rightarrow>
                            let length_end = header_end + ciphertext_len_field
                            in if total_len < length_end then Inl (Peek_Wire Truncated)
                               else if held < length_end then Inl (lack length_end)
                               else
                                 let ciphertext_len = of_be (take (length_end - header_end) (drop header_end avail));
                                     remaining = total_len - length_end
                                 in if remaining < ciphertext_len then Inl (Peek_Wire LengthExceedsInput)
                                    else if ciphertext_len < min_ciphertext_len then Inl (Peek_Wire CiphertextTooShort)
                                    else if ciphertext_len < remaining then Inl (Peek_Wire TrailingBytes)
                                    else Inr \<lparr>frame_header = header, frame_header_len = header_len,
                                           frame_ciphertext_len = ciphertext_len\<rparr>)"

definition parse_container :: "bytes \<Rightarrow> (wire_error, parsed_container) res" where
  "parse_container bs =
     (case read_frame bs (length bs) of
        Inl (Peek_Wire e) \<Rightarrow> Inl e
      | Inl (PrefixTooShort _) \<Rightarrow> Inl Truncated
      | Inr f \<Rightarrow>
          let header_bytes = take (frame_header_len f) (drop frame_head_len bs);
              ciphertext_start = frame_head_len + frame_header_len f + ciphertext_len_field
          in Inr \<lparr>pc_header = frame_header f, pc_header_bytes = header_bytes,
                  pc_ciphertext = drop ciphertext_start bs\<rparr>)"

definition parse_container_with_limit :: "bytes \<Rightarrow> nat \<Rightarrow> (wire_error, parsed_container) res" where
  "parse_container_with_limit bs max_len =
     (if max_len < length bs then Inl ObjectTooLarge else parse_container bs)"

type_synonym container_peek = frame

definition peek_container :: "bytes \<Rightarrow> nat \<Rightarrow> (peek_error, container_peek) res" where
  "peek_container prefix total_len = read_frame prefix total_len"

lemma container_magic_length [simp]: "length container_magic = 4"
  by (simp add: container_magic_def ascii_bytes_def)

lemmas frame_consts = frame_head_len_def ciphertext_len_field_def min_ciphertext_len_def container_version_def

lemma frame_pieces:
  "bs = take 4 bs @ take 2 (drop 4 bs) @ take 4 (drop 6 bs) @ take n (drop 10 bs) @ take 8 (drop (10 + n) bs) @
        drop (18 + n) bs"
proof -
  have step: "drop i bs = take k (drop i bs) @ drop (i + k) bs" for i k
    by (metis append_take_drop_id drop_drop add.commute)
  show ?thesis
    using step [of 0 4] step [of 4 2] step [of 6 4] step [of 10 n] step [of "10 + n" 8]
    by (simp add: add.commute)
qed

text \<open>What an accepted frame looks like.\<close>

lemma read_frame_whole_iff:
  "read_frame bs (length bs) = Inr f \<longleftrightarrow>
     (\<exists>header_bytes ciphertext.
        bs = container_magic @ be 2 container_version @ be 4 (length header_bytes) @ header_bytes @
             be 8 (length ciphertext) @ ciphertext \<and>
        length header_bytes < 2 ^ 32 \<and> length ciphertext < 2 ^ 64 \<and> 16 \<le> length ciphertext \<and>
        header_decode header_bytes = Inr (frame_header f) \<and>
        frame_header_len f = length header_bytes \<and> frame_ciphertext_len f = length ciphertext)"
  (is "?l \<longleftrightarrow> ?r")
proof
  assume ?r
  then show ?l
    by (auto simp: read_frame_def Let_def frame_consts of_be_be)
next
  assume l: ?l
  define hl where "hl = of_be (take 4 (drop 6 bs))"
  define ct where "ct = drop (18 + hl) bs"
  have magic: "take 4 bs = container_magic" and version: "of_be (take 2 (drop 4 bs)) = 1"
    and len: "18 + hl \<le> length bs" and header: "header_decode (take hl (drop 10 bs)) = Inr (frame_header f)"
    and ctl: "of_be (take 8 (drop (10 + hl) bs)) = length ct" and ct16: "16 \<le> length ct"
    and out: "frame_header_len f = hl" "frame_ciphertext_len f = length ct"
    using l by (auto simp: read_frame_def Let_def frame_consts hl_def ct_def split: if_splits sum.splits)
  have "take 2 (drop 4 bs) = be 2 1" "take 4 (drop 6 bs) = be 4 hl" "take 8 (drop (10 + hl) bs) = be 8 (length ct)"
    using len version ctl be_of_be [of "take 2 (drop 4 bs)" 2] be_of_be [of "take 4 (drop 6 bs)" 4]
      be_of_be [of "take 8 (drop (10 + hl) bs)" 8] by (simp_all add: hl_def)
  moreover have "hl < 2 ^ 32" "length ct < 2 ^ 64"
    using of_be_less [of "take 4 (drop 6 bs)"] of_be_less [of "take 8 (drop (10 + hl) bs)"] len ctl
    by (simp_all add: hl_def)
  ultimately show ?r
    using frame_pieces [of bs hl] magic len header ct16 out ct_def
    by (intro exI [of _ "take hl (drop 10 bs)"] exI [of _ ct]) (simp add: container_version_def)
qed

lemma parse_container_iff:
  "parse_container bs = Inr p \<longleftrightarrow>
     encode_container (pc_header p) (pc_ciphertext p) = Inr bs \<and>
     header_encode (pc_header p) = Inr (pc_header_bytes p) \<and> min_ciphertext_len \<le> length (pc_ciphertext p)"
proof
  assume "parse_container bs = Inr p"
  then obtain f where f: "read_frame bs (length bs) = Inr f"
    and p: "p = \<lparr>pc_header = frame_header f, pc_header_bytes = take (frame_header_len f) (drop frame_head_len bs),
                pc_ciphertext = drop (frame_head_len + frame_header_len f + ciphertext_len_field) bs\<rparr>"
    by (auto simp: parse_container_def Let_def split: sum.splits peek_error.splits)
  from f obtain hb ct where bs: "bs = container_magic @ be 2 container_version @ be 4 (length hb) @ hb @
             be 8 (length ct) @ ct" and lens: "length hb < 2 ^ 32" "length ct < 2 ^ 64" "16 \<le> length ct"
    and dec: "header_decode hb = Inr (frame_header f)" and hl: "frame_header_len f = length hb"
    unfolding read_frame_whole_iff by blast
  have "pc_header_bytes p = hb" "pc_ciphertext p = ct"
    by (simp_all add: p hl bs frame_consts)
  then show "encode_container (pc_header p) (pc_ciphertext p) = Inr bs \<and>
     header_encode (pc_header p) = Inr (pc_header_bytes p) \<and> min_ciphertext_len \<le> length (pc_ciphertext p)"
    using header_decode_encode [OF dec] lens by (simp add: p encode_container_def bs min_ciphertext_len_def)
next
  assume r: "encode_container (pc_header p) (pc_ciphertext p) = Inr bs \<and>
     header_encode (pc_header p) = Inr (pc_header_bytes p) \<and> min_ciphertext_len \<le> length (pc_ciphertext p)"
  define f where "f = \<lparr>frame_header = pc_header p, frame_header_len = length (pc_header_bytes p),
    frame_ciphertext_len = length (pc_ciphertext p)\<rparr>"
  have bs: "bs = container_magic @ be 2 container_version @ be 4 (length (pc_header_bytes p)) @ pc_header_bytes p @
      be 8 (length (pc_ciphertext p)) @ pc_ciphertext p"
    and lens: "length (pc_header_bytes p) < 2 ^ 32" "length (pc_ciphertext p) < 2 ^ 64"
    using r by (auto simp: encode_container_def)
  have "read_frame bs (length bs) = Inr f"
    unfolding read_frame_whole_iff
    using r lens header_encode_decode
    by (intro exI [of _ "pc_header_bytes p"] exI [of _ "pc_ciphertext p"]) (simp add: f_def bs min_ciphertext_len_def)
  then show "parse_container bs = Inr p"
    by (simp add: parse_container_def f_def) (simp add: bs frame_consts)
qed

text \<open>
  A container parses exactly when it is the encoding of its header and ciphertext; the bytes handed
  on as authenticated data are the encoding of the header, and the ciphertext has room for its tag.
\<close>
theorem container_exact:
  "parse_container bs = Inr p \<longleftrightarrow>
     encode_container (pc_header p) (pc_ciphertext p) = Inr bs \<and>
     header_encode (pc_header p) = Inr (pc_header_bytes p) \<and> min_ciphertext_len \<le> length (pc_ciphertext p)"
  by (rule parse_container_iff)

lemma read_frame_lengths:
  assumes "read_frame bs (length bs) = Inr f"
  shows "length (take (frame_header_len f) (drop frame_head_len bs)) = frame_header_len f"
    and "length (drop (frame_head_len + frame_header_len f + ciphertext_len_field) bs) = frame_ciphertext_len f"
proof -
  from assms obtain hb ct where "bs = container_magic @ be 2 container_version @ be 4 (length hb) @ hb @
             be 8 (length ct) @ ct" "frame_header_len f = length hb" "frame_ciphertext_len f = length ct"
    unfolding read_frame_whole_iff by blast
  then show "length (take (frame_header_len f) (drop frame_head_len bs)) = frame_header_len f"
    "length (drop (frame_head_len + frame_header_len f + ciphertext_len_field) bs) = frame_ciphertext_len f"
    by (simp_all add: frame_consts)
qed

lemma read_frame_whole_never_short: "read_frame bs (length bs) \<noteq> Inl (PrefixTooShort m)"
  by (simp only: read_frame_def Let_def refl if_True)
    (intro conjI impI allI | split if_split sum.split | simp (no_asm))+

lemma take_prefix_neq:
  assumes n: "n \<le> 4" "n \<le> length bs" and ne: "take n bs \<noteq> take n container_magic"
  shows "if length bs < 4 then bs \<noteq> take (length bs) container_magic else take 4 bs \<noteq> container_magic"
proof -
  have "take n (take k xs) = take n xs" if "n \<le> k" for k and xs :: bytes
    using that by (simp add: min_def)
  then show ?thesis using n ne by metis
qed

lemma piece_of_prefix: "i + k \<le> n \<Longrightarrow> take k (drop i (take n bs)) = take k (drop i bs)"
  by (simp add: drop_take)

lemma read_frame_prefix:
  assumes n: "n < length bs"
  shows "case read_frame (take n bs) (length bs) of
           Inr f \<Rightarrow> read_frame bs (length bs) = Inr f
         | Inl (Peek_Wire e) \<Rightarrow> read_frame bs (length bs) = Inl (Peek_Wire e)
         | Inl (PrefixTooShort needed) \<Rightarrow> n < needed \<and> needed \<le> length bs"
proof (cases "n < 4")
  case True
  then show ?thesis
    using n take_prefix_neq [of n bs] by (auto simp: read_frame_def Let_def frame_consts min_def)
next
  case False
  then have m: "take 4 (take n bs) = take 4 bs" by (simp add: min_def)
  show ?thesis
  proof (cases "n < 10")
    case True
    then show ?thesis
      using n False m piece_of_prefix [of 4 2 n bs] by (auto simp: read_frame_def Let_def frame_consts)
  next
    case n10: False
    define hl where "hl = of_be (take 4 (drop 6 bs))"
    have v: "take 2 (drop 4 (take n bs)) = take 2 (drop 4 bs)"
      and l: "take 4 (drop 6 (take n bs)) = take 4 (drop 6 bs)"
      and h: "10 + hl \<le> n \<Longrightarrow> take hl (drop 10 (take n bs)) = take hl (drop 10 bs)"
      and c: "18 + hl \<le> n \<Longrightarrow> take 8 (drop (10 + hl) (take n bs)) = take 8 (drop (10 + hl) bs)"
      using n10 by (simp_all add: piece_of_prefix)
    show ?thesis
      using n n10 m h c
      by (auto simp: read_frame_def Let_def frame_consts v l hl_def [symmetric] not_less split: sum.splits)
  qed
qed

text \<open>
  Reading a container from a prefix of it agrees with reading all of it: the same header and lengths,
  the same error, or a request for more bytes than are held and no more than there are.
\<close>
theorem peek_agrees_with_parse:
  "case peek_container (take n bs) (length bs) of
     Inr k \<Rightarrow> (\<exists>p. parse_container bs = Inr p \<and> pc_header p = frame_header k \<and>
                 frame_header_len k = length (pc_header_bytes p) \<and> frame_ciphertext_len k = length (pc_ciphertext p))
   | Inl (Peek_Wire e) \<Rightarrow> parse_container bs = Inl e
   | Inl (PrefixTooShort needed) \<Rightarrow> n < needed \<and> needed \<le> length bs"
proof (cases "n < length bs")
  case True
  from read_frame_prefix [OF this] show ?thesis
    by (auto simp: peek_container_def parse_container_def Let_def split: sum.splits peek_error.splits
        dest: read_frame_lengths)
next
  case False
  then show ?thesis
    by (auto simp: peek_container_def parse_container_def Let_def split: sum.splits peek_error.splits
        simp: read_frame_whole_never_short dest: read_frame_lengths)
qed

end
