(* ===== verification/Keys.thy ===== *)
theory Keys
  imports Wire_Header
begin

text \<open>
  \<^verbatim>\<open>crates/sync-core/src/keys.rs\<close>: which keys and signatures synchronization accepts.

  The elliptic-curve library is a parameter, the record \<open>dalek\<close> of the calls the code makes: whether
  the bytes of a point decompress, what the point compresses to, whether it is of small order or
  has torsion, and the library's own strict verification.  The comparisons of scalars and of
  field elements are the code's own and are modelled on its limbs and bytes.
\<close>

unbundle bit_operations_syntax

record dalek =
  from_bytes :: "256 word \<Rightarrow> bool"
  recompress :: "256 word \<Rightarrow> 256 word"
  is_weak :: "256 word \<Rightarrow> bool"
  is_torsion_free :: "256 word \<Rightarrow> bool"
  verify_strict :: "256 word \<Rightarrow> bytes \<Rightarrow> 512 word \<Rightarrow> bool"

definition array_bytes :: "'n::len word \<Rightarrow> bytes" where
  "array_bytes v = be (LENGTH('n) div 8) (unat v)"

definition group_order_le :: bytes where
  "group_order_le =
     [0xed, 0xd3, 0xf5, 0x5c, 0x1a, 0x63, 0x12, 0x58, 0xd6, 0x9c, 0xf7, 0xa2, 0xde, 0xf9, 0xde, 0x14,
      0x00, 0x00, 0x00, 0x00, 0x00, 0x00, 0x00, 0x00, 0x00, 0x00, 0x00, 0x00, 0x00, 0x00, 0x00, 0x10]"

definition ed25519_point_acceptable :: "dalek \<Rightarrow> 256 word \<Rightarrow> bool" where
  "ed25519_point_acceptable c encoded \<longleftrightarrow>
     from_bytes c encoded \<and> recompress c encoded = encoded \<and> \<not> is_weak c encoded \<and> is_torsion_free c encoded"

text \<open>The loop runs from the last byte down, so over the reversed lists.\<close>

fun below_from_top :: "bytes \<Rightarrow> bytes \<Rightarrow> bool" where
  "below_from_top (s # ss) (g # gs) = (if s \<noteq> g then s < g else below_from_top ss gs)"
| "below_from_top _ _ = False"

definition scalar_below_order :: "bytes \<Rightarrow> bool" where
  "scalar_below_order s = below_from_top (rev s) (rev group_order_le)"

definition ed25519_public_key_acceptable :: "dalek \<Rightarrow> 256 word \<Rightarrow> bool" where
  "ed25519_public_key_acceptable c public_key = ed25519_point_acceptable c public_key"

definition ed25519_verify_strict :: "dalek \<Rightarrow> 256 word \<Rightarrow> bytes \<Rightarrow> 512 word \<Rightarrow> bool" where
  "ed25519_verify_strict c public_key message signature \<longleftrightarrow>
     (if \<not> ed25519_point_acceptable c public_key then False
      else
        let r = take 32 (array_bytes signature); s = drop 32 (array_bytes signature)
        in if \<not> ed25519_point_acceptable c (word_of_nat (of_be r)) \<or> \<not> scalar_below_order s then False
           else if \<not> from_bytes c public_key then False
           else verify_strict c public_key message signature)"

section \<open>X25519 public keys\<close>

definition field_prime_limbs :: "64 word list" where
  "field_prime_limbs =
     [0xffffffffffffffed, 0xffffffffffffffff, 0xffffffffffffffff, 0x7fffffffffffffff]"

definition limbs :: "bytes \<Rightarrow> 64 word list" where
  "limbs bs = map (\<lambda>i. word_of_nat (of_be (rev (take 8 (drop (8 * i) bs))))) [0..<4]"

fun at_least_from_top :: "64 word list \<Rightarrow> 64 word list \<Rightarrow> bool" where
  "at_least_from_top (a # as) (b # bs) = (if a \<noteq> b then b < a else at_least_from_top as bs)"
| "at_least_from_top _ _ = True"

definition at_least :: "64 word list \<Rightarrow> 64 word list \<Rightarrow> bool" where
  "at_least a b = at_least_from_top (rev a) (rev b)"

fun subtract_limbs :: "64 word \<Rightarrow> 64 word list \<Rightarrow> 64 word list \<Rightarrow> 64 word list" where
  "subtract_limbs borrow (a # as) (b # bs) =
     (let d1 = a - b; b1 = a < b; d2 = d1 - borrow; b2 = d1 < borrow
      in d2 # subtract_limbs (if b1 \<or> b2 then 1 else 0) as bs)"
| "subtract_limbs borrow _ _ = []"

definition subtract :: "64 word list \<Rightarrow> 64 word list \<Rightarrow> 64 word list" where
  "subtract a b = subtract_limbs 0 a b"

definition low_order_u_values :: "bytes list" where
  "low_order_u_values =
     [[0, 0, 0, 0, 0, 0, 0, 0, 0, 0, 0, 0, 0, 0, 0, 0, 0, 0, 0, 0, 0, 0, 0, 0, 0, 0, 0, 0, 0, 0, 0, 0],
      [1, 0, 0, 0, 0, 0, 0, 0, 0, 0, 0, 0, 0, 0, 0, 0, 0, 0, 0, 0, 0, 0, 0, 0, 0, 0, 0, 0, 0, 0, 0, 0],
      [0xec, 0xff, 0xff, 0xff, 0xff, 0xff, 0xff, 0xff, 0xff, 0xff, 0xff, 0xff, 0xff, 0xff, 0xff, 0xff,
       0xff, 0xff, 0xff, 0xff, 0xff, 0xff, 0xff, 0xff, 0xff, 0xff, 0xff, 0xff, 0xff, 0xff, 0xff, 0x7f],
      [0xe0, 0xeb, 0x7a, 0x7c, 0x3b, 0x41, 0xb8, 0xae, 0x16, 0x56, 0xe3, 0xfa, 0xf1, 0x9f, 0xc4, 0x6a,
       0xda, 0x09, 0x8d, 0xeb, 0x9c, 0x32, 0xb1, 0xfd, 0x86, 0x62, 0x05, 0x16, 0x5f, 0x49, 0xb8, 0x00],
      [0x5f, 0x9c, 0x95, 0xbc, 0xa3, 0x50, 0x8c, 0x24, 0xb1, 0xd0, 0xb1, 0x55, 0x9c, 0x83, 0xef, 0x5b,
       0x04, 0x44, 0x5c, 0xc4, 0x58, 0x1c, 0x8e, 0x86, 0xd8, 0x22, 0x4e, 0xdd, 0xd0, 0x9f, 0x11, 0x57]]"

definition x25519_public_key_acceptable :: "256 word \<Rightarrow> bool" where
  "x25519_public_key_acceptable public_key \<longleftrightarrow>
     (let u = limbs (array_bytes public_key);
          u = u[3 := (u ! 3) AND 0x7fffffffffffffff];
          u = (if at_least u field_prime_limbs then subtract u field_prime_limbs else u)
      in \<not> list_ex (\<lambda>low. limbs low = u) low_order_u_values)"

section \<open>The screens as arithmetic\<close>

text \<open>The number an array holds with its first byte lowest.\<close>

definition le_value :: "bytes \<Rightarrow> nat" where
  "le_value bs = of_be (rev bs)"

primrec limb_value :: "64 word list \<Rightarrow> nat" where
  "limb_value [] = 0"
| "limb_value (x # xs) = unat x + 2 ^ 64 * limb_value xs"

lemma below_from_top_iff:
  "length xs = length ys \<Longrightarrow> below_from_top xs ys \<longleftrightarrow> of_be xs < of_be ys"
proof (induction xs ys rule: list_induct2)
  case (Cons x xs y ys)
  have *: "a * M + b < a' * M + b'" if "a < a'" "b < M" for a a' b b' M :: nat
  proof -
    have "a * M + b < Suc a * M" using that by simp
    also have "\<dots> \<le> a' * M" using that by (intro mult_le_mono1) simp
    finally show ?thesis by simp
  qed
  show ?case
  proof (cases "x = y")
    case False
    then have "unat x < unat y \<or> unat y < unat x" by (metis linorder_neqE_nat unsigned_word_eqI)
    then show ?thesis
      using False Cons.hyps of_be_less [of xs] of_be_less [of ys]
        *[of "unat x" "unat y" "of_be xs" "256 ^ length xs" "of_be ys"]
        *[of "unat y" "unat x" "of_be ys" "256 ^ length xs" "of_be xs"]
      by (auto simp: word_less_nat_alt)
  qed (use Cons in simp)
qed simp

lemma scalar_below_order_iff:
  "length s = 32 \<Longrightarrow> scalar_below_order s \<longleftrightarrow> le_value s < le_value group_order_le"
  by (simp add: scalar_below_order_def le_value_def below_from_top_iff group_order_le_def)

lemma unat_u64_less [simp]: "unat (x :: 64 word) < 18446744073709551616"
  by (rule unat_word_less(2))

lemma limb_value_less: "limb_value xs < 2 ^ (64 * length xs)"
proof (induction xs)
  case (Cons x xs)
  have "limb_value (x # xs) < 2 ^ 64 * Suc (limb_value xs)" by (simp add: unat_word_less)
  also have "\<dots> \<le> 2 ^ 64 * 2 ^ (64 * length xs)" using Cons.IH by (intro mult_le_mono2) simp
  finally show ?case by (simp add: power_add)
qed simp

lemma limb_value_inj: "length xs = length ys \<Longrightarrow> limb_value xs = limb_value ys \<Longrightarrow> xs = ys"
proof (induction xs ys rule: list_induct2)
  case (Cons x xs y ys)
  have "unat x + 2 ^ 64 * limb_value xs = unat y + 2 ^ 64 * limb_value ys" using Cons.prems by simp
  then have "(unat x + 2 ^ 64 * limb_value xs) mod 2 ^ 64 = (unat y + 2 ^ 64 * limb_value ys) mod 2 ^ 64"
    by (rule arg_cong)
  then have "unat x = unat y" by (simp add: unat_word_less)
  then show ?case using Cons by (auto intro: unsigned_word_eqI)
qed simp

lemma limb_value_snoc: "limb_value (xs @ [x]) = limb_value xs + 2 ^ (64 * length xs) * unat x"
  by (induction xs) (auto simp: power_add algebra_simps)

lemma at_least_from_top_iff:
  "length xs = length ys \<Longrightarrow> at_least_from_top xs ys \<longleftrightarrow> limb_value (rev ys) \<le> limb_value (rev xs)"
proof (induction xs ys rule: list_induct2)
  case (Cons x xs y ys)
  have *: "b + M * a < b' + M * a'" if "a < a'" "b < M" for a a' b b' M :: nat
  proof -
    have "b + M * a < M * Suc a" using that by simp
    also have "\<dots> \<le> M * a'" using that by (intro mult_le_mono2) simp
    finally show ?thesis by simp
  qed
  show ?case
  proof (cases "x = y")
    case False
    then have "unat x < unat y \<or> unat y < unat x" by (metis linorder_neqE_nat unsigned_word_eqI)
    then show ?thesis
      using False Cons.hyps limb_value_less [of "rev xs"] limb_value_less [of "rev ys"]
        *[of "unat x" "unat y" "limb_value (rev xs)" "2 ^ (64 * length xs)" "limb_value (rev ys)"]
        *[of "unat y" "unat x" "limb_value (rev ys)" "2 ^ (64 * length xs)" "limb_value (rev xs)"]
      by (auto simp: word_less_nat_alt limb_value_snoc)
  qed (use Cons in \<open>simp add: limb_value_snoc\<close>)
qed simp

lemma at_least_iff: "length a = length b \<Longrightarrow> at_least a b \<longleftrightarrow> limb_value b \<le> limb_value a"
  by (simp add: at_least_def at_least_from_top_iff)

lemma borrow_step:
  fixes x y c :: "64 word"
  assumes c: "c = 0 \<or> c = 1"
  shows "uint (x - y - c) = uint x - uint y - uint c + 2 ^ 64 * (if x < y \<or> x - y < c then 1 else 0)"
proof -
  have r: "0 \<le> uint x" "uint x < 2 ^ 64" "0 \<le> uint y" "uint y < 2 ^ 64"
    using uint_lt2p [of x] uint_lt2p [of y] by simp_all
  have d: "uint (x - y) = (if x < y then uint x - uint y + 2 ^ 64 else uint x - uint y)"
  proof -
    have m: "uint (x - y) = (uint x - uint y) mod 2 ^ 64" by (simp add: uint_word_ariths)
    show ?thesis
    proof (cases "x < y")
      case True
      have "(uint x - uint y) mod 2 ^ 64 = (uint x - uint y + 2 ^ 64) mod 2 ^ 64" by simp
      also have "\<dots> = uint x - uint y + 2 ^ 64"
        by (rule mod_pos_pos_trivial) (use r True [unfolded word_less_def] in linarith)+
      finally show ?thesis using m True by simp
    next
      case False
      then have "uint y \<le> uint x" by (simp add: word_less_def)
      then have "(uint x - uint y) mod 2 ^ 64 = uint x - uint y"
        by (intro mod_pos_pos_trivial) (use r in linarith)+
      then show ?thesis using m False by simp
    qed
  qed
  show ?thesis
  proof (cases "c = 0")
    case False
    with c have c1: "c = 1" by simp
    have z: "x - y < 1 \<longleftrightarrow> uint (x - y) = 0"
      using uint_ge_0 [of "x - y"] unfolding word_less_def uint_1 by linarith
    have e: "uint (x - y - 1) = (uint (x - y) - 1) mod 2 ^ 64" by (simp add: uint_word_ariths)
    have b: "0 \<le> uint (x - y)" "uint (x - y) < 2 ^ 64" using uint_lt2p [of "x - y"] by simp_all
    have m: "uint (x - y - 1) = (if uint (x - y) = 0 then 2 ^ 64 - 1 else uint (x - y) - 1)"
    proof (cases "uint (x - y) = 0")
      case False
      then show ?thesis unfolding e using b by (simp only: if_False) (rule mod_pos_pos_trivial; linarith)
    qed (simp add: e)
    have "uint (x - y) \<noteq> 0" if "x < y"
    proof -
      have "uint (x - y) = uint x - uint y + 2 ^ 64" using d that by simp
      then show ?thesis using r by linarith
    qed
    then show ?thesis using d m z by (auto simp: c1)
  qed (use d in auto)
qed

lemma subtract_limbs_value:
  "length xs = length ys \<Longrightarrow> c = 0 \<or> c = 1 \<Longrightarrow>
   length (subtract_limbs c xs ys) = length xs \<and>
   (\<exists>k :: int. int (limb_value (subtract_limbs c xs ys)) =
      int (limb_value xs) - int (limb_value ys) - uint c + 2 ^ (64 * length xs) * k)"
proof (induction xs ys arbitrary: c rule: list_induct2)
  case Nil
  then show ?case by (auto intro: exI [of _ "1 :: int"])
next
  case (Cons x xs y ys)
  let ?c = "if x < y \<or> x - y < c then 1 else 0 :: 64 word"
  have u: "uint ?c = (if x < y \<or> x - y < c then 1 else 0)" by simp
  have c': "?c = 0 \<or> ?c = 1" by simp
  from Cons.IH [OF c'] obtain k :: int where len: "length (subtract_limbs ?c xs ys) = length xs"
    and k: "int (limb_value (subtract_limbs ?c xs ys)) =
      int (limb_value xs) - int (limb_value ys) - uint ?c + 2 ^ (64 * length xs) * k"
    by (elim conjE exE)
  have out: "subtract_limbs c (x # xs) (y # ys) = (x - y - c) # subtract_limbs ?c xs ys"
    by (simp add: Let_def)
  have "int (limb_value (subtract_limbs c (x # xs) (y # ys))) =
      uint (x - y - c) + 2 ^ 64 * int (limb_value (subtract_limbs ?c xs ys))"
    by (simp add: out)
  also have "\<dots> = int (limb_value (x # xs)) - int (limb_value (y # ys)) - uint c + 2 ^ (64 * length (x # xs)) * k"
    unfolding borrow_step [OF Cons.prems] k u by (simp add: power_add algebra_simps)
  finally show ?case using len out by auto
qed

lemma subtract_value:
  assumes "length a = length b" "limb_value b \<le> limb_value a"
  shows "limb_value (subtract a b) = limb_value a - limb_value b" and "length (subtract a b) = length a"
proof -
  from subtract_limbs_value [OF assms(1), of 0] obtain k :: int
    where len: "length (subtract a b) = length a"
      and k: "int (limb_value (subtract a b)) = int (limb_value a) - int (limb_value b) + 2 ^ (64 * length a) * k"
    by (auto simp: subtract_def)
  let ?M = "2 ^ (64 * length a) :: int"
  have lt: "int (limb_value (subtract a b)) < ?M" "int (limb_value a) < ?M"
    using limb_value_less [of "subtract a b"] limb_value_less [of a] len
    by (metis of_nat_less_iff of_nat_numeral of_nat_power)+
  have "k = 0"
  proof (rule ccontr)
    assume "k \<noteq> 0"
    then have "1 \<le> k \<or> k \<le> - 1" by auto
    then have "?M \<le> ?M * k \<or> ?M * k \<le> - ?M"
      by (metis mult.right_neutral mult_left_mono mult_minus_right zero_le_numeral zero_le_power)
    then show False using k lt assms(2) by linarith
  qed
  then show "limb_value (subtract a b) = limb_value a - limb_value b" using k assms(2) by simp
  show "length (subtract a b) = length a" by (rule len)
qed

lemma le_value_append: "le_value (xs @ ys) = le_value xs + 256 ^ length xs * le_value ys"
proof -
  have *: "of_be (us @ vs) = of_be us * 256 ^ length vs + of_be vs" for us vs
    by (induction us) (auto simp: power_add algebra_simps)
  show ?thesis by (simp add: le_value_def *)
qed

lemma le_value_less: "le_value xs < 256 ^ length xs"
  using of_be_less [of "rev xs"] by (simp add: le_value_def)

lemma length_limbs [simp]: "length (limbs bs) = 4"
  by (simp add: limbs_def)

lemma limbs_explicit:
  "limbs bs = [word_of_nat (le_value (take 8 bs)), word_of_nat (le_value (take 8 (drop 8 bs))),
     word_of_nat (le_value (take 8 (drop 16 bs))), word_of_nat (le_value (take 8 (drop 24 bs)))]"
proof -
  have "[0..<4] = [0, 1, 2, 3 :: nat]" by code_simp
  then show ?thesis by (simp add: limbs_def le_value_def)
qed

lemma limb_value_limbs: "length bs = 32 \<Longrightarrow> limb_value (limbs bs) = le_value bs"
proof -
  assume len: "length bs = 32"
  have split: "bs = take 8 bs @ take 8 (drop 8 bs) @ take 8 (drop 16 bs) @ take 8 (drop 24 bs)"
  proof -
    have step: "drop i bs = take 8 (drop i bs) @ drop (i + 8) bs" for i
      by (metis append_take_drop_id drop_drop add.commute)
    show ?thesis using step [of 0] step [of 8] step [of 16] len by simp
  qed
  have piece: "unat (word_of_nat (le_value (take 8 xs)) :: 64 word) = le_value (take 8 xs)" for xs
  proof -
    have "le_value (take 8 xs) < 256 ^ 8"
      using le_value_less [of "take 8 xs"]
      by (rule less_le_trans) (use power_increasing [of "min (length xs) 8" 8 "256 :: nat"] in simp)
    then show ?thesis by (simp add: unat_of_nat)
  qed
  have "le_value bs = le_value (take 8 bs) + 2 ^ 64 * (le_value (take 8 (drop 8 bs)) +
      2 ^ 64 * (le_value (take 8 (drop 16 bs)) + 2 ^ 64 * le_value (take 8 (drop 24 bs))))"
    by (subst split) (simp add: le_value_append len)
  then show ?thesis by (simp add: limbs_explicit piece)
qed

lemma length_4_conv: "length u = 4 \<longleftrightarrow> (\<exists>a b c d. u = [a, b, c, d])"
  by (auto simp: numeral_eq_Suc length_Suc_conv)

lemma limb_value_low_bits:
  assumes "length u = 4"
  shows "limb_value (u[3 := (u ! 3) AND 0x7fffffffffffffff]) = limb_value u mod 2 ^ 255"
proof -
  from assms obtain a b c d where u: "u = [a, b, c, d]" by (auto simp: length_4_conv)
  have "(0x7fffffffffffffff :: 64 word) = mask 63" by (simp add: mask_eq_exp_minus_1)
  then have "d AND 0x7fffffffffffffff = take_bit 63 d" by (simp only: take_bit_eq_mask)
  then have "unat (d AND 0x7fffffffffffffff) = take_bit 63 (unat d)" by (simp only: unsigned_take_bit_eq)
  then have d: "unat (d AND 0x7fffffffffffffff) = unat d mod 2 ^ 63" by (simp only: take_bit_eq_mod)
  define A where "A = limb_value [a, b, c]"
  have A: "A < 2 ^ 192" using limb_value_less [of "[a, b, c]"] by (simp add: A_def)
  have whole: "limb_value [a, b, c, e] = A + 2 ^ 192 * unat e" for e
    using limb_value_snoc [of "[a, b, c]" e] by (simp add: A_def)
  have "(A + 2 ^ 192 * unat d) mod (2 ^ 192 * 2 ^ 63) =
      2 ^ 192 * ((A + 2 ^ 192 * unat d) div 2 ^ 192 mod 2 ^ 63) + (A + 2 ^ 192 * unat d) mod 2 ^ 192"
    by (rule mod_mult2_eq)
  also have "\<dots> = A + 2 ^ 192 * (unat d mod 2 ^ 63)" using A by simp
  finally show ?thesis by (simp add: u whole d del: limb_value.simps)
qed

lemma field_prime_value: "limb_value field_prime_limbs = 2 ^ 255 - 19"
  by (simp add: field_prime_limbs_def)

lemma reduced_value:
  assumes "length u = 4" "limb_value u < 2 ^ 255"
  defines "r \<equiv> (if at_least u field_prime_limbs then subtract u field_prime_limbs else u)"
  shows "limb_value r = limb_value u mod (2 ^ 255 - 19)" "length r = 4"
proof -
  have p: "length field_prime_limbs = 4" by (simp add: field_prime_limbs_def)
  have al: "at_least u field_prime_limbs \<longleftrightarrow> 2 ^ 255 - 19 \<le> limb_value u"
    using at_least_iff [of u field_prime_limbs] assms(1) p by (simp add: field_prime_value)
  show "limb_value r = limb_value u mod (2 ^ 255 - 19)"
  proof (cases "2 ^ 255 - 19 \<le> limb_value u")
    case True
    then have "limb_value r = limb_value u - (2 ^ 255 - 19)"
      using subtract_value(1) [of u field_prime_limbs] assms(1) p al by (simp add: r_def field_prime_value)
    also have "\<dots> = limb_value u mod (2 ^ 255 - 19)"
    proof -
      have "limb_value u mod (2 ^ 255 - 19) = (limb_value u - (2 ^ 255 - 19)) mod (2 ^ 255 - 19)"
        using True by (simp add: le_mod_geq)
      also have "\<dots> = limb_value u - (2 ^ 255 - 19)" using assms(2) by (intro mod_less) simp
      finally show ?thesis by (rule sym)
    qed
    finally show ?thesis .
  next
    case False
    then show ?thesis using al by (simp add: r_def)
  qed
  show "length r = 4"
    using subtract_value(2) [of u field_prime_limbs] assms(1) p al by (auto simp: r_def field_prime_value)
qed

lemma low_order_lengths: "list_all (\<lambda>low. length low = 32) low_order_u_values"
  by (simp add: low_order_u_values_def)

lemma low_order_values:
  "map le_value low_order_u_values =
     [0, 1, 2 ^ 255 - 20,
      325606250916557431795983626356110631294008115727848805560023387167927233504,
      39382357235489614581723060781553021112529911719440698176882885853963445705823]"
  by (simp add: low_order_u_values_def le_value_def)

lemma group_order_value: "le_value group_order_le = 2 ^ 252 + 27742317777372353535851937790883648493"
  by (simp add: group_order_le_def le_value_def)

lemma array_bytes_length [simp]: "length (array_bytes (v :: 'n::len word)) = LENGTH('n) div 8"
  by (simp add: array_bytes_def)

lemma scalar_below_order_exact:
  "scalar_below_order (array_bytes (s :: 256 word)) \<longleftrightarrow>
     le_value (array_bytes s) < 2 ^ 252 + 27742317777372353535851937790883648493"
  using scalar_below_order_iff [of "array_bytes s"] by (simp add: group_order_value)

definition small_order_u :: "nat set" where
  "small_order_u =
     {0, 1, 2 ^ 255 - 20,
      325606250916557431795983626356110631294008115727848805560023387167927233504,
      39382357235489614581723060781553021112529911719440698176882885853963445705823}"

lemma x25519_public_key_acceptable_exact:
  "x25519_public_key_acceptable k \<longleftrightarrow> le_value (array_bytes k) mod 2 ^ 255 mod (2 ^ 255 - 19) \<notin> small_order_u"
proof -
  let ?l = "limbs (array_bytes k)"
  define u where "u = ?l[3 := (?l ! 3) AND 0x7fffffffffffffff]"
  define r where "r = (if at_least u field_prime_limbs then subtract u field_prime_limbs else u)"
  have v: "limb_value u = le_value (array_bytes k) mod 2 ^ 255" and len: "length u = 4"
    using limb_value_low_bits [of ?l] limb_value_limbs [of "array_bytes k"] by (simp_all add: u_def)
  then have lt: "limb_value u < 2 ^ 255" by (simp only: mod_less_divisor zero_less_power zero_less_numeral)
  have rv: "limb_value r = le_value (array_bytes k) mod 2 ^ 255 mod (2 ^ 255 - 19)" "length r = 4"
    using reduced_value [OF len lt, folded r_def] v by simp_all
  have "limbs low = r \<longleftrightarrow> le_value low = limb_value r" if "low \<in> set low_order_u_values" for low
  proof -
    have "length low = 32" using low_order_lengths that by (simp add: list_all_iff)
    then show ?thesis using limb_value_limbs [of low] limb_value_inj [of "limbs low" r] rv(2) by auto
  qed
  then have "list_ex (\<lambda>low. limbs low = r) low_order_u_values \<longleftrightarrow> limb_value r \<in> set (map le_value low_order_u_values)"
    unfolding list_ex_iff set_map image_iff by metis
  then have "x25519_public_key_acceptable k \<longleftrightarrow> limb_value r \<notin> set (map le_value low_order_u_values)"
    by (simp only: x25519_public_key_acceptable_def Let_def u_def r_def)
  then show ?thesis unfolding low_order_values rv(1) small_order_u_def by (simp only: list.set)
qed

text \<open>
  C38: The byte and limb comparisons are the arithmetic they stand for: a signature scalar is accepted
  exactly below the group order, and an X25519 key is refused exactly when, with the top bit cleared and
  reduced modulo \<open>2 ^ 255 - 19\<close>, it is one of the five points of small order.
\<close>
theorem key_screens_exact:
  "(scalar_below_order (array_bytes (s :: 256 word)) \<longleftrightarrow>
      le_value (array_bytes s) < 2 ^ 252 + 27742317777372353535851937790883648493) \<and>
   (x25519_public_key_acceptable k \<longleftrightarrow>
      le_value (array_bytes k) mod 2 ^ 255 mod (2 ^ 255 - 19) \<notin>
        {0, 1, 2 ^ 255 - 20,
         325606250916557431795983626356110631294008115727848805560023387167927233504,
         39382357235489614581723060781553021112529911719440698176882885853963445705823})"
  by (intro conjI scalar_below_order_exact x25519_public_key_acceptable_exact [unfolded small_order_u_def])

end
