(* ===== verification/Membership.thy ===== *)
theory Membership
  imports Keys
begin

text \<open>
  \<^verbatim>\<open>crates/sync-core/src/membership.rs\<close>, the data: signed records, membership and epoch bodies with
  their encodings, the errors of the chain, members and the verified state.

  SHA-256 is a parameter.  An \<^verbatim>\<open>expect\<close> that the bytes of a key fit their field is the error
  \<open>Wire_Panic\<close>, and \<open>mb_fingerprint_total\<close> shows it does not happen.  Versions are 64-bit words.
\<close>

definition suite_one :: "16 word" where "suite_one = 1"
definition kem_one :: "16 word" where "kem_one = 0x0020"
definition kem_public_key_len :: nat where "kem_public_key_len = 32"
definition max_recipients :: nat where "max_recipients = 1024"
definition max_chain_len :: nat where "max_chain_len = 4096"
definition max_members :: nat where "max_members = max_recipients"
definition sealed_keys_ciphertext_len :: nat where "sealed_keys_ciphertext_len = 109"
definition max_membership_body :: nat where "max_membership_body = 2560"
definition max_epoch_body :: nat where "max_epoch_body = 512 + max_recipients * 2364"

definition membership_label :: bytes where "membership_label = ascii_bytes ''dohflow/sync-membership/v1''"
definition epoch_label :: bytes where "epoch_label = ascii_bytes ''dohflow/sync-epoch-record/v1''"
definition hpke_info_label :: bytes where "hpke_info_label = ascii_bytes ''dohflow/sync-hpke-info/v1''"
definition hpke_aad_label :: bytes where "hpke_aad_label = ascii_bytes ''dohflow/sync-hpke-aad/v1''"
definition fingerprint_label :: bytes where "fingerprint_label = ascii_bytes ''dohflow/device-fpr/v1''"
definition state_label :: bytes where "state_label = ascii_bytes ''dohflow/sync-verified-state/v1''"

type_synonym hash = "bytes \<Rightarrow> 256 word"

definition device_fingerprint ::
    "hash \<Rightarrow> 16 word \<Rightarrow> 16 word \<Rightarrow> 256 word \<Rightarrow> bytes \<Rightarrow> (wire_error, fingerprint) res" where
  "device_fingerprint sha256 suite_id kem_id ed25519_pk kem_public_key =
     res_bind (with_label fingerprint_label) (\<lambda>w.
       let w = w_all [w_u16 suite_id, w_u16 kem_id, w_fixed ed25519_pk] w
       in case w_bytes 2048 kem_public_key w of
            Inl _ \<Rightarrow> Inl Wire_Panic
          | Inr w \<Rightarrow> Inr (Fingerprint (sha256 w)))"

section \<open>Signed records\<close>

record signed_record =
  sr_body :: bytes
  sr_signature :: "512 word"

definition signed_record_parse :: "bytes \<Rightarrow> nat \<Rightarrow> (wire_error, signed_record) res" where
  "signed_record_parse bs max_body =
     res_bind (r_bytes max_body bs) (\<lambda>(body, r).
     res_bind (r_fixed r) (\<lambda>(signature, r).
     res_bind (r_finish r) (\<lambda>_. Inr \<lparr>sr_body = body, sr_signature = signature\<rparr>)))"

definition signed_record_encode :: "signed_record \<Rightarrow> (wire_error, bytes) res" where
  "signed_record_encode s =
     res_bind (w_bytes (2 ^ 64 - 1) (sr_body s) []) (\<lambda>w. Inr (w_fixed (sr_signature s) w))"

definition signed_record_id :: "hash \<Rightarrow> signed_record \<Rightarrow> 256 word" where
  "signed_record_id sha256 s = sha256 (sr_body s)"

section \<open>Membership bodies\<close>

datatype action = Add | Revoke

record membership_body =
  mb_suite_id :: "16 word"
  mb_kem_id :: "16 word"
  mb_vault_id :: "128 word"
  mb_version :: "64 word"
  mb_prev_id :: "256 word option"
  mb_action :: action
  mb_signer_fingerprint :: fingerprint
  mb_device_id :: "128 word"
  mb_ed25519_pk :: "256 word"
  mb_kem_public_key :: "256 word"
  mb_issued_at :: int

primrec action_byte :: "action \<Rightarrow> byte" where
  "action_byte Add = 1"
| "action_byte Revoke = 2"

definition action_from_byte :: "byte \<Rightarrow> (wire_error, action) res" where
  "action_from_byte b = (if b = 1 then Inr Add else if b = 2 then Inr Revoke else Inl UnknownObjectType)"

definition membership_body_encode :: "membership_body \<Rightarrow> (wire_error, bytes) res" where
  "membership_body_encode b =
     res_bind (with_label membership_label) (\<lambda>w.
       let w = w_all [w_u16 protocol_version, w_u16 (mb_suite_id b), w_u16 (mb_kem_id b), w_fixed (mb_vault_id b),
                 w_u64 (mb_version b), w_opt (mb_prev_id b) w_fixed, w_u8 (action_byte (mb_action b)),
                 w_fixed (fingerprint_bytes (mb_signer_fingerprint b)), w_fixed (mb_device_id b),
                 w_fixed (mb_ed25519_pk b)] w
       in res_bind (w_bytes 2048 (array_bytes (mb_kem_public_key b)) w) (\<lambda>w.
            Inr (w_i64 (mb_issued_at b) w)))"

definition kem_key_from :: "bytes \<Rightarrow> (wire_error, 256 word) res" where
  "kem_key_from bs = (if length bs = kem_public_key_len then Inr (word_of_nat (of_be bs)) else Inl TooLong)"

definition membership_body_decode :: "bytes \<Rightarrow> (wire_error, membership_body) res" where
  "membership_body_decode bs =
     res_bind (r_label membership_label bs) (\<lambda>r.
     res_bind (r_u16 r) (\<lambda>(protocol, r).
     if protocol \<noteq> protocol_version then Inl UnsupportedProtocol else
     res_bind (r_u16 r) (\<lambda>(suite_id, r).
     res_bind (r_u16 r) (\<lambda>(kem_id, r).
     res_bind (r_fixed r) (\<lambda>(vault_id, r).
     res_bind (r_u64 r) (\<lambda>(version, r).
     res_bind (r_opt r_fixed r) (\<lambda>(prev_id, r).
     res_bind (r_u8 r) (\<lambda>(action, r).
     res_bind (action_from_byte action) (\<lambda>action.
     res_bind (r_fixed r) (\<lambda>(signer, r).
     res_bind (r_fixed r) (\<lambda>(device_id, r).
     res_bind (r_fixed r) (\<lambda>(pk, r).
     res_bind (r_bytes 2048 r) (\<lambda>(kem, r).
     res_bind (kem_key_from kem) (\<lambda>kem.
     res_bind (r_i64 r) (\<lambda>(issued_at, r).
     res_bind (r_finish r) (\<lambda>_.
     Inr \<lparr>mb_suite_id = suite_id, mb_kem_id = kem_id, mb_vault_id = vault_id, mb_version = version,
          mb_prev_id = prev_id, mb_action = action, mb_signer_fingerprint = Fingerprint signer,
          mb_device_id = device_id, mb_ed25519_pk = pk, mb_kem_public_key = kem,
          mb_issued_at = issued_at\<rparr>))))))))))))))))"

definition mb_fingerprint :: "hash \<Rightarrow> membership_body \<Rightarrow> (wire_error, fingerprint) res" where
  "mb_fingerprint sha256 b =
     device_fingerprint sha256 (mb_suite_id b) (mb_kem_id b) (mb_ed25519_pk b) (array_bytes (mb_kem_public_key b))"

section \<open>Epoch bodies\<close>

datatype reason = Genesis | Cutover | Grant | Rotation

primrec reason_byte :: "reason \<Rightarrow> byte" where
  "reason_byte Genesis = 1"
| "reason_byte Cutover = 2"
| "reason_byte Grant = 3"
| "reason_byte Rotation = 4"

definition reason_from_byte :: "byte \<Rightarrow> (wire_error, reason) res" where
  "reason_from_byte b =
     (if b = 1 then Inr Genesis else if b = 2 then Inr Cutover else if b = 3 then Inr Grant
      else if b = 4 then Inr Rotation else Inl UnknownObjectType)"

record recipient =
  rc_device_id :: "128 word"
  rc_fingerprint :: fingerprint
  rc_suite_id :: "16 word"
  rc_kem_id :: "16 word"
  rc_enc :: "256 word"
  rc_ciphertext :: bytes

record epoch_body =
  eb_suite_id :: "16 word"
  eb_kem_id :: "16 word"
  eb_vault_id :: "128 word"
  eb_key_epoch :: "64 word"
  eb_reason :: reason
  eb_membership_head :: "256 word"
  eb_prev_epoch_id :: "256 word option"
  eb_key_commitment_ke :: "256 word"
  eb_key_commitment_s :: "256 word"
  eb_sealer_fingerprint :: fingerprint
  eb_recipients :: "recipient list"

definition epoch_header_bytes :: "epoch_body \<Rightarrow> (wire_error, bytes) res" where
  "epoch_header_bytes b =
     res_bind (with_label epoch_label) (\<lambda>w.
       Inr (w_all [w_u16 protocol_version, w_u16 (eb_suite_id b), w_u16 (eb_kem_id b), w_fixed (eb_vault_id b),
              w_u64 (eb_key_epoch b), w_u8 (reason_byte (eb_reason b)), w_fixed (eb_membership_head b),
              w_opt (eb_prev_epoch_id b) w_fixed, w_fixed (eb_key_commitment_ke b),
              w_fixed (eb_key_commitment_s b), w_fixed (fingerprint_bytes (eb_sealer_fingerprint b))] w))"

definition epoch_header_hash :: "hash \<Rightarrow> epoch_body \<Rightarrow> (wire_error, 256 word) res" where
  "epoch_header_hash sha256 b = res_bind (epoch_header_bytes b) (\<lambda>w. Inr (sha256 w))"

definition hpke_info :: "hash \<Rightarrow> epoch_body \<Rightarrow> 128 word \<Rightarrow> fingerprint \<Rightarrow> (wire_error, bytes) res" where
  "hpke_info sha256 b recipient_device_id recipient_fingerprint =
     res_bind (with_label hpke_info_label) (\<lambda>w.
     res_bind (epoch_header_hash sha256 b) (\<lambda>header_hash.
       Inr (w_all [w_u16 protocol_version, w_u16 (eb_suite_id b), w_fixed (eb_vault_id b), w_u64 (eb_key_epoch b),
              w_fixed recipient_device_id, w_fixed (fingerprint_bytes recipient_fingerprint),
              w_fixed (fingerprint_bytes (eb_sealer_fingerprint b)), w_fixed (eb_membership_head b),
              w_fixed header_hash] w)))"

definition hpke_aad :: "hash \<Rightarrow> epoch_body \<Rightarrow> fingerprint \<Rightarrow> (wire_error, bytes) res" where
  "hpke_aad sha256 b recipient_fingerprint =
     res_bind (with_label hpke_aad_label) (\<lambda>w.
     res_bind (epoch_header_hash sha256 b) (\<lambda>header_hash.
       Inr (w_all [w_fixed header_hash, w_fixed (fingerprint_bytes recipient_fingerprint)] w)))"

definition recipients_ascending :: "recipient list \<Rightarrow> bool" where
  "recipients_ascending rs \<longleftrightarrow>
     list_all (\<lambda>(a, b). fingerprint_bytes (rc_fingerprint a) < fingerprint_bytes (rc_fingerprint b)) (zip rs (tl rs))"

primrec w_recipients :: "recipient list \<Rightarrow> bytes \<Rightarrow> (wire_error, bytes) res" where
  "w_recipients [] w = Inr w"
| "w_recipients (r # rs) w =
     (if length (rc_ciphertext r) \<noteq> sealed_keys_ciphertext_len then Inl TooLong
      else
        let w = w_all [w_fixed (rc_device_id r), w_fixed (fingerprint_bytes (rc_fingerprint r)),
                  w_u16 (rc_suite_id r), w_u16 (rc_kem_id r)] w
        in res_bind (w_bytes 2048 (array_bytes (rc_enc r)) w) (\<lambda>w.
           res_bind (w_bytes 256 (rc_ciphertext r) w) (\<lambda>w. w_recipients rs w)))"

definition epoch_body_encode :: "epoch_body \<Rightarrow> (wire_error, bytes) res" where
  "epoch_body_encode b =
     res_bind (epoch_header_bytes b) (\<lambda>w.
       if max_recipients < length (eb_recipients b) then Inl TooLong
       else if \<not> recipients_ascending (eb_recipients b) then Inl ListNotAscending
       else if 2 ^ 32 \<le> length (eb_recipients b) then Inl TooLong
       else w_recipients (eb_recipients b) (w_u32 (word_of_nat (length (eb_recipients b))) w))"

definition r_recipient :: "bytes \<Rightarrow> (wire_error, recipient \<times> bytes) res" where
  "r_recipient r =
     res_bind (r_fixed r) (\<lambda>(device_id, r).
     res_bind (r_fixed r) (\<lambda>(fp, r).
     res_bind (r_u16 r) (\<lambda>(suite_id, r).
     res_bind (r_u16 r) (\<lambda>(kem_id, r).
     res_bind (r_bytes 2048 r) (\<lambda>(enc, r).
     res_bind (kem_key_from enc) (\<lambda>enc.
     res_bind (r_bytes 256 r) (\<lambda>(ciphertext, r).
     if length ciphertext \<noteq> sealed_keys_ciphertext_len then Inl TooLong
     else Inr (\<lparr>rc_device_id = device_id, rc_fingerprint = Fingerprint fp, rc_suite_id = suite_id,
                rc_kem_id = kem_id, rc_enc = enc, rc_ciphertext = ciphertext\<rparr>, r))))))))"

definition epoch_body_decode :: "bytes \<Rightarrow> (wire_error, epoch_body) res" where
  "epoch_body_decode bs =
     res_bind (r_label epoch_label bs) (\<lambda>r.
     res_bind (r_u16 r) (\<lambda>(protocol, r).
     if protocol \<noteq> protocol_version then Inl UnsupportedProtocol else
     res_bind (r_u16 r) (\<lambda>(suite_id, r).
     res_bind (r_u16 r) (\<lambda>(kem_id, r).
     res_bind (r_fixed r) (\<lambda>(vault_id, r).
     res_bind (r_u64 r) (\<lambda>(key_epoch, r).
     res_bind (r_u8 r) (\<lambda>(reason, r).
     res_bind (reason_from_byte reason) (\<lambda>reason.
     res_bind (r_fixed r) (\<lambda>(membership_head, r).
     res_bind (r_opt r_fixed r) (\<lambda>(prev_epoch_id, r).
     res_bind (r_fixed r) (\<lambda>(ke, r).
     res_bind (r_fixed r) (\<lambda>(s, r).
     res_bind (r_fixed r) (\<lambda>(sealer, r).
     res_bind (r_list max_recipients 60 r_recipient r) (\<lambda>(recipients, r).
     res_bind (r_finish r) (\<lambda>_.
     if \<not> recipients_ascending recipients then Inl ListNotAscending
     else Inr \<lparr>eb_suite_id = suite_id, eb_kem_id = kem_id, eb_vault_id = vault_id, eb_key_epoch = key_epoch,
            eb_reason = reason, eb_membership_head = membership_head, eb_prev_epoch_id = prev_epoch_id,
            eb_key_commitment_ke = ke, eb_key_commitment_s = s, eb_sealer_fingerprint = Fingerprint sealer,
            eb_recipients = recipients\<rparr>)))))))))))))))"

section \<open>Every body has one encoding\<close>

lemma sync_labels_valid [simp]:
  "valid_label membership_label" "valid_label epoch_label" "valid_label hpke_info_label"
  "valid_label hpke_aad_label" "valid_label fingerprint_label" "valid_label state_label"
  unfolding membership_label_def epoch_label_def hpke_info_label_def hpke_aad_label_def fingerprint_label_def
    state_label_def by code_simp+

lemma mb_fingerprint_total:
  "mb_fingerprint sha256 b = Inr (Fingerprint (sha256 (be 2 (length fingerprint_label) @ fingerprint_label @
     w_u16 (mb_suite_id b) [] @ w_u16 (mb_kem_id b) [] @ w_fixed (mb_ed25519_pk b) [] @
     be 4 32 @ array_bytes (mb_kem_public_key b))))"
  by (simp add: mb_fingerprint_def device_fingerprint_def with_label_def w_bytes_def wire_appends)

lemma of_be_array [simp]: "word_of_nat (of_be (array_bytes (v :: 256 word))) = v"
  using of_be_unat [of v] by (simp add: array_bytes_def)

lemma kem_key_from_iff: "kem_key_from bs = Inr k \<longleftrightarrow> bs = array_bytes k"
proof -
  have "array_bytes (word_of_nat (of_be bs) :: 256 word) = bs" if "length bs = 32"
    using be_unat_of_be [of bs, where 'n = 256] that by (simp add: array_bytes_def)
  then show ?thesis by (auto simp: kem_key_from_def kem_public_key_len_def)
qed

lemma kem_key_from_array [simp]: "kem_key_from (array_bytes k) = Inr k"
  by (simp add: kem_key_from_iff)

lemma action_from_byte_iff: "action_from_byte b = Inr a \<longleftrightarrow> b = action_byte a"
  by (cases a) (auto simp: action_from_byte_def)

lemma action_from_byte_step [simp]: "action_from_byte (action_byte a) = Inr a"
  by (simp add: action_from_byte_iff)

lemma reason_from_byte_iff: "reason_from_byte b = Inr a \<longleftrightarrow> b = reason_byte a"
  by (cases a) (auto simp: reason_from_byte_def)

lemma reason_from_byte_step [simp]: "reason_from_byte (reason_byte a) = Inr a"
  by (simp add: reason_from_byte_iff)

lemma r_bytes_step:
  "length v = n \<Longrightarrow> n \<le> mx \<Longrightarrow> n < 2 ^ 32 \<Longrightarrow> r_bytes mx (be 4 n @ v @ r) = Inr (v, r)"
  by (simp add: r_bytes_iff w_bytes_iff)

definition membership_body_bytes :: "bytes \<Rightarrow> membership_body \<Rightarrow> bytes" where
  "membership_body_bytes label b =
     label @ w_u16 protocol_version [] @ w_u16 (mb_suite_id b) [] @ w_u16 (mb_kem_id b) [] @
     w_fixed (mb_vault_id b) [] @ w_u64 (mb_version b) [] @ w_opt (mb_prev_id b) w_fixed [] @
     w_u8 (action_byte (mb_action b)) [] @ w_fixed (fingerprint_bytes (mb_signer_fingerprint b)) [] @
     w_fixed (mb_device_id b) [] @ w_fixed (mb_ed25519_pk b) [] @ be 4 32 @ array_bytes (mb_kem_public_key b) @
     w_i64 (mb_issued_at b) []"

lemma membership_body_encode_iff:
  "membership_body_encode b = Inr bs \<longleftrightarrow>
     (\<exists>label. with_label membership_label = Inr label \<and> bs = membership_body_bytes label b)"
  by (auto simp: membership_body_encode_def membership_body_bytes_def res_bind_Inr_iff w_bytes_iff wire_appends
      w_opt_digest_append [of _ "_ @ _"])

lemma membership_body_decode_iff:
  "membership_body_decode bs = Inr b \<longleftrightarrow> in_i64 (mb_issued_at b) \<and>
     (\<exists>label. with_label membership_label = Inr label \<and> bs = membership_body_bytes label b)"
proof
  assume "membership_body_decode bs = Inr b"
  then show "in_i64 (mb_issued_at b) \<and> (\<exists>label. with_label membership_label = Inr label \<and> bs = membership_body_bytes label b)"
    by (auto simp: membership_body_decode_def res_bind_Inr_iff wire_reads r_label_iff membership_body_bytes_def
        w_bytes_iff kem_key_from_iff action_from_byte_iff)
next
  assume "in_i64 (mb_issued_at b) \<and> (\<exists>label. with_label membership_label = Inr label \<and> bs = membership_body_bytes label b)"
  then show "membership_body_decode bs = Inr b"
    by (auto simp: membership_body_decode_def membership_body_bytes_def wire_steps r_bytes_step)
qed

lemma membership_body_codec:
  "membership_body_decode bs = Inr b \<longleftrightarrow> in_i64 (mb_issued_at b) \<and> membership_body_encode b = Inr bs"
  by (simp add: membership_body_decode_iff membership_body_encode_iff)

definition recipient_ok :: "recipient \<Rightarrow> bool" where
  "recipient_ok r \<longleftrightarrow> length (rc_ciphertext r) = sealed_keys_ciphertext_len"

definition w_recipient :: "recipient \<Rightarrow> bytes \<Rightarrow> bytes" where
  "w_recipient r w = w @ w_fixed (rc_device_id r) [] @ w_fixed (fingerprint_bytes (rc_fingerprint r)) [] @
     w_u16 (rc_suite_id r) [] @ w_u16 (rc_kem_id r) [] @ be 4 32 @ array_bytes (rc_enc r) @
     be 4 (length (rc_ciphertext r)) @ rc_ciphertext r"

lemma r_recipient_iff: "r_recipient r = Inr (v, r') \<longleftrightarrow> recipient_ok v \<and> r = w_recipient v [] @ r'"
proof
  assume "r_recipient r = Inr (v, r')"
  then show "recipient_ok v \<and> r = w_recipient v [] @ r'"
    by (auto simp: r_recipient_def res_bind_Inr_iff wire_reads w_recipient_def recipient_ok_def w_bytes_iff
        kem_key_from_iff)
next
  assume "recipient_ok v \<and> r = w_recipient v [] @ r'"
  then show "r_recipient r = Inr (v, r')"
    by (simp add: r_recipient_def w_recipient_def recipient_ok_def wire_steps r_bytes_step sealed_keys_ciphertext_len_def)
qed

interpretation recipient_list: wire_field w_recipient r_recipient recipient_ok
  by unfold_locales (simp_all add: w_recipient_def r_recipient_iff)

lemma w_recipients_iff:
  "w_recipients rs w = Inr w' \<longleftrightarrow> list_all recipient_ok rs \<and> w' = w_all (map w_recipient rs) w"
  by (induction rs arbitrary: w)
    (auto simp: res_bind_Inr_iff w_bytes_iff recipient_ok_def w_recipient_def wire_appends sealed_keys_ciphertext_len_def)

definition epoch_body_bytes :: "bytes \<Rightarrow> epoch_body \<Rightarrow> bytes" where
  "epoch_body_bytes label b =
     label @ w_u16 protocol_version [] @ w_u16 (eb_suite_id b) [] @ w_u16 (eb_kem_id b) [] @
     w_fixed (eb_vault_id b) [] @ w_u64 (eb_key_epoch b) [] @ w_u8 (reason_byte (eb_reason b)) [] @
     w_fixed (eb_membership_head b) [] @ w_opt (eb_prev_epoch_id b) w_fixed [] @
     w_fixed (eb_key_commitment_ke b) [] @ w_fixed (eb_key_commitment_s b) [] @
     w_fixed (fingerprint_bytes (eb_sealer_fingerprint b)) [] @
     be 4 (length (eb_recipients b)) @ w_all (map w_recipient (eb_recipients b)) []"

definition epoch_body_ok :: "epoch_body \<Rightarrow> bool" where
  "epoch_body_ok b \<longleftrightarrow> length (eb_recipients b) \<le> max_recipients \<and> recipients_ascending (eb_recipients b) \<and>
     list_all recipient_ok (eb_recipients b)"

lemma epoch_body_encode_iff:
  "epoch_body_encode b = Inr bs \<longleftrightarrow> epoch_body_ok b \<and>
     (\<exists>label. with_label epoch_label = Inr label \<and> bs = epoch_body_bytes label b)"
  by (auto simp: epoch_body_encode_def epoch_header_bytes_def epoch_body_bytes_def epoch_body_ok_def res_bind_Inr_iff
      w_recipients_iff wire_appends w_opt_digest_append [of _ "_ @ _"] recipient_list.w_all_append [of _ "_ @ _"]
      unat_of_nat max_recipients_def)

lemma w_recipient_length: "recipient_ok r \<Longrightarrow> 60 \<le> length (w_recipient r [])"
  by (simp add: w_recipient_def wire_appends)

lemma r_recipients_iff:
  "r_list max_recipients 60 r_recipient r = Inr (rs, r') \<longleftrightarrow>
     list_all recipient_ok rs \<and> length rs \<le> max_recipients \<and>
     r = be 4 (length rs) @ w_all (map w_recipient rs) [] @ r'"
proof -
  have "\<forall>v. recipient_ok v \<longrightarrow> 60 \<le> length (w_recipient v [])" using w_recipient_length by blast
  from recipient_list.r_list_iff [OF this, of max_recipients r rs r'] recipient_list.w_all_append [of rs "be 4 (length rs)"]
  show ?thesis by (auto simp: w_list_def max_recipients_def)
qed

lemma epoch_body_codec:
  "epoch_body_decode bs = Inr b \<longleftrightarrow> epoch_body_encode b = Inr bs"
  unfolding epoch_body_encode_iff
proof
  assume "epoch_body_decode bs = Inr b"
  then show "epoch_body_ok b \<and> (\<exists>label. with_label epoch_label = Inr label \<and> bs = epoch_body_bytes label b)"
    by (auto simp: epoch_body_decode_def res_bind_Inr_iff wire_reads r_label_iff epoch_body_bytes_def
        r_recipients_iff reason_from_byte_iff epoch_body_ok_def)
next
  have last: "r_list max_recipients 60 r_recipient (be 4 (length rs) @ w_all (map w_recipient rs) []) = Inr (rs, [])"
    if "list_all recipient_ok rs" "length rs \<le> max_recipients" for rs
    using that by (simp add: r_recipients_iff)
  assume "epoch_body_ok b \<and> (\<exists>label. with_label epoch_label = Inr label \<and> bs = epoch_body_bytes label b)"
  then show "epoch_body_decode bs = Inr b"
    by (auto simp: epoch_body_decode_def epoch_body_bytes_def epoch_body_ok_def wire_steps last)
qed

lemma signed_record_codec:
  "length (sr_body s) \<le> mx \<Longrightarrow> signed_record_parse bs mx = Inr s \<longleftrightarrow> signed_record_encode s = Inr bs"
proof -
  assume len: "length (sr_body s) \<le> mx"
  have iff: "r_fixed r = Inr (v, r') \<longleftrightarrow> r = w_fixed v [] @ r'" for r r' and v :: "512 word"
    by (rule r_fixed_iff) simp
  show ?thesis
    using len by (cases s) (auto simp: signed_record_parse_def signed_record_encode_def res_bind_Inr_iff r_bytes_iff
        iff w_bytes_iff r_finish_iff wire_appends)
qed

end
