(* ===== verification/Membership_State.thy ===== *)
theory Membership_State
  imports Membership
begin

text \<open>
  \<^verbatim>\<open>crates/sync-core/src/membership.rs\<close>, the state: the errors of the chain with their kinds, members,
  the verified state with its queries, and its stored form.

  \<open>Ch_Panic\<close> stands for a panic of the code, and is shown not to occur on a verified state.  An index into the
  membership records is a natural number (\<^verbatim>\<open>usize\<close>), a version a 64-bit word.
\<close>

section \<open>Chain errors\<close>

datatype chain_error =
    Ch_Malformed nat wire_error | Ch_UnsupportedProtocol nat | Ch_UnsupportedSuite nat | Ch_TooLong
  | Ch_VaultMismatch nat | Ch_BadGenesis nat | Ch_WrongVersion nat | Ch_WrongPrevId nat
  | Ch_BadSignature nat | Ch_SignerUnknown nat | Ch_SignerRevoked nat | Ch_FingerprintMismatch nat
  | Ch_KeyUnacceptable nat | Ch_FingerprintReused nat | Ch_DeviceIdReused nat | Ch_KeyReused nat
  | Ch_TooManyMembers nat | Ch_RevokeMismatch nat | Ch_RevokeOfUnauthorized nat | Ch_WouldEmptyChain nat
  | Ch_Fork "64 word" "256 word" "256 word" | Ch_EpochRecordMissing "64 word"
  | Ch_EpochEquivocation "256 word" "256 word" | Ch_CutoverHeadNotRevoke nat | Ch_GrantHeadNotAdd nat
  | Ch_BadEpochSequence nat | Ch_UnknownHead nat | Ch_RecipientsMismatch nat | Ch_SealerNotAuthorized nat
  | Ch_EpochBadSignature nat | Ch_Panic

datatype failure_kind =
    Kind_MalformedObject | Kind_UnsupportedProtocol | Kind_UnsupportedSuite | Kind_MembershipChainInvalid
  | Kind_MembershipChainFork | Kind_EpochRecordMissing | Kind_EpochEquivocation | Kind_CutoverHeadNotRevoke
  | Kind_GrantHeadNotAdd | Kind_BadEpochSequence | Kind_EpochRecordInvalid

primrec failure_kind_name :: "failure_kind \<Rightarrow> string" where
  "failure_kind_name Kind_MalformedObject = ''MalformedObject''"
| "failure_kind_name Kind_UnsupportedProtocol = ''UnsupportedProtocol''"
| "failure_kind_name Kind_UnsupportedSuite = ''UnsupportedSuite''"
| "failure_kind_name Kind_MembershipChainInvalid = ''MembershipChainInvalid''"
| "failure_kind_name Kind_MembershipChainFork = ''MembershipChainFork''"
| "failure_kind_name Kind_EpochRecordMissing = ''EpochRecordMissing''"
| "failure_kind_name Kind_EpochEquivocation = ''EpochEquivocation''"
| "failure_kind_name Kind_CutoverHeadNotRevoke = ''CutoverHeadNotRevoke''"
| "failure_kind_name Kind_GrantHeadNotAdd = ''GrantHeadNotAdd''"
| "failure_kind_name Kind_BadEpochSequence = ''BadEpochSequence''"
| "failure_kind_name Kind_EpochRecordInvalid = ''EpochRecordInvalid''"

definition chain_error_kind :: "chain_error \<Rightarrow> failure_kind" where
  "chain_error_kind e =
     (case e of
        Ch_Malformed _ _ \<Rightarrow> Kind_MalformedObject
      | Ch_TooLong \<Rightarrow> Kind_MalformedObject
      | Ch_UnsupportedProtocol _ \<Rightarrow> Kind_UnsupportedProtocol
      | Ch_UnsupportedSuite _ \<Rightarrow> Kind_UnsupportedSuite
      | Ch_Fork _ _ _ \<Rightarrow> Kind_MembershipChainFork
      | Ch_EpochRecordMissing _ \<Rightarrow> Kind_EpochRecordMissing
      | Ch_EpochEquivocation _ _ \<Rightarrow> Kind_EpochEquivocation
      | Ch_CutoverHeadNotRevoke _ \<Rightarrow> Kind_CutoverHeadNotRevoke
      | Ch_GrantHeadNotAdd _ \<Rightarrow> Kind_GrantHeadNotAdd
      | Ch_BadEpochSequence _ \<Rightarrow> Kind_BadEpochSequence
      | Ch_UnknownHead _ \<Rightarrow> Kind_EpochRecordMissing
      | Ch_RecipientsMismatch _ \<Rightarrow> Kind_EpochRecordInvalid
      | Ch_SealerNotAuthorized _ \<Rightarrow> Kind_EpochRecordInvalid
      | Ch_EpochBadSignature _ \<Rightarrow> Kind_EpochRecordInvalid
      | _ \<Rightarrow> Kind_MembershipChainInvalid)"

definition is_retryable :: "chain_error \<Rightarrow> bool" where
  "is_retryable e = (case e of Ch_EpochRecordMissing _ \<Rightarrow> True | _ \<Rightarrow> False)"

definition halts_sync :: "chain_error \<Rightarrow> bool" where
  "halts_sync e = (case e of Ch_Fork _ _ _ \<Rightarrow> True | Ch_EpochEquivocation _ _ \<Rightarrow> True | _ \<Rightarrow> False)"

section \<open>The verified state\<close>

record member =
  m_device_id :: "128 word"
  m_fingerprint :: fingerprint
  m_ed25519_pk :: "256 word"
  m_kem_public_key :: "256 word"
  m_added_at_version :: "64 word"
  m_revoked_at_version :: "64 word option"

definition authorized_at :: "member \<Rightarrow> 64 word \<Rightarrow> bool" where
  "authorized_at m version \<longleftrightarrow>
     m_added_at_version m \<le> version \<and>
     (case m_revoked_at_version m of None \<Rightarrow> True | Some r \<Rightarrow> version < r)"

record step_ref =
  st_id :: "256 word"
  st_action :: action

record epoch_ref =
  er_id :: "256 word"
  er_prev_epoch_id :: "256 word option"
  er_key_epoch :: "64 word"
  er_reason :: reason
  er_head_index :: nat
  er_key_commitment_ke :: "256 word"

record verified_state =
  vs_vault_id :: "128 word"
  vs_steps :: "step_ref list"
  vs_members :: "member list"
  vs_epochs :: "epoch_ref list"
  vs_key_commitment_s :: "256 word option"

definition verified_state_empty :: "128 word \<Rightarrow> verified_state" where
  "verified_state_empty vault_id =
     \<lparr>vs_vault_id = vault_id, vs_steps = [], vs_members = [], vs_epochs = [], vs_key_commitment_s = None\<rparr>"

definition last_opt :: "'a list \<Rightarrow> 'a option" where
  "last_opt xs = (if xs = [] then None else Some (last xs))"

fun position :: "('a \<Rightarrow> bool) \<Rightarrow> 'a list \<Rightarrow> nat option" where
  "position P [] = None"
| "position P (x # xs) = (if P x then Some 0 else map_option Suc (position P xs))"

definition head_id :: "verified_state \<Rightarrow> 256 word option" where
  "head_id s = map_option st_id (last_opt (vs_steps s))"

definition head_version :: "verified_state \<Rightarrow> 64 word" where
  "head_version s = word_of_nat (length (vs_steps s))"

definition epoch_key_commitment :: "verified_state \<Rightarrow> 64 word \<Rightarrow> 256 word option" where
  "epoch_key_commitment s key_epoch =
     map_option er_key_commitment_ke (find (\<lambda>e. er_key_epoch e = key_epoch) (vs_epochs s))"

definition tag_key_commitment :: "verified_state \<Rightarrow> 256 word option" where
  "tag_key_commitment s = vs_key_commitment_s s"

definition membership_version_of :: "verified_state \<Rightarrow> 256 word \<Rightarrow> 64 word option" where
  "membership_version_of s ident =
     map_option (\<lambda>i. word_of_nat i + 1) (position (\<lambda>st. st_id st = ident) (vs_steps s))"

definition epoch_head_id :: "verified_state \<Rightarrow> 256 word option" where
  "epoch_head_id s = map_option er_id (last_opt (vs_epochs s))"

definition state_key_epoch :: "verified_state \<Rightarrow> 64 word" where
  "state_key_epoch s = (case last_opt (vs_epochs s) of None \<Rightarrow> 0 | Some e \<Rightarrow> er_key_epoch e)"

definition authorized :: "verified_state \<Rightarrow> member list" where
  "authorized s = filter (\<lambda>m. authorized_at m (head_version s)) (vs_members s)"

definition authorized_member :: "verified_state \<Rightarrow> fingerprint \<Rightarrow> 64 word \<Rightarrow> member option" where
  "authorized_member s fp version = find (\<lambda>m. m_fingerprint m = fp \<and> authorized_at m version) (vs_members s)"

definition authorized_member_by_fingerprint_at_version ::
    "verified_state \<Rightarrow> fingerprint \<Rightarrow> 64 word \<Rightarrow> member option" where
  "authorized_member_by_fingerprint_at_version s fp version = authorized_member s fp version"

definition authorized_member_at_version :: "verified_state \<Rightarrow> 128 word \<Rightarrow> 64 word \<Rightarrow> member option" where
  "authorized_member_at_version s device_id version =
     find (\<lambda>m. m_device_id m = device_id \<and> authorized_at m version) (vs_members s)"

definition authorized_member_in_epoch :: "verified_state \<Rightarrow> 128 word \<Rightarrow> 64 word \<Rightarrow> member option" where
  "authorized_member_in_epoch s device_id key_epoch =
     (case find (\<lambda>e. er_key_epoch e = key_epoch) (rev (vs_epochs s)) of
        None \<Rightarrow> None
      | Some l \<Rightarrow>
          let version = word_of_nat (er_head_index l + 1)
          in find (\<lambda>m. m_device_id m = device_id \<and> authorized_at m version) (vs_members s))"

record epoch_at_position =
  ep_key_epoch :: "64 word"
  ep_membership_head_version :: "64 word"

definition after_epoch_record :: "verified_state \<Rightarrow> 256 word \<Rightarrow> epoch_at_position option" where
  "after_epoch_record s epoch_record_id =
     map_option (\<lambda>r. \<lparr>ep_key_epoch = er_key_epoch r,
                      ep_membership_head_version = word_of_nat (er_head_index r + 1)\<rparr>)
       (find (\<lambda>e. er_id e = epoch_record_id) (vs_epochs s))"

section \<open>The stored form\<close>

definition w_step :: "step_ref \<Rightarrow> bytes \<Rightarrow> bytes" where
  "w_step st w = w_all [w_fixed (st_id st), w_u8 (action_byte (st_action st))] w"

definition w_member :: "member \<Rightarrow> bytes \<Rightarrow> bytes" where
  "w_member m w =
     w_all [w_fixed (m_device_id m), w_fixed (fingerprint_bytes (m_fingerprint m)), w_fixed (m_ed25519_pk m),
       w_fixed (m_kem_public_key m), w_u64 (m_added_at_version m), w_opt (m_revoked_at_version m) w_u64] w"

definition w_epoch_ref :: "epoch_ref \<Rightarrow> bytes \<Rightarrow> bytes" where
  "w_epoch_ref e w =
     w_all [w_fixed (er_id e), w_opt (er_prev_epoch_id e) w_fixed, w_u64 (er_key_epoch e),
       w_u8 (reason_byte (er_reason e)), w_u64 (word_of_nat (er_head_index e)), w_fixed (er_key_commitment_ke e)] w"

definition verified_state_encode :: "verified_state \<Rightarrow> (wire_error, bytes) res" where
  "verified_state_encode s =
     res_bind (with_label state_label) (\<lambda>w.
     res_bind (w_list max_chain_len (vs_steps s) w_step (w_fixed (vs_vault_id s) w)) (\<lambda>w.
     res_bind (w_list max_chain_len (vs_members s) w_member w) (\<lambda>w.
     res_bind (w_list max_chain_len (vs_epochs s) w_epoch_ref w) (\<lambda>w.
       Inr (w_opt (vs_key_commitment_s s) w_fixed w)))))"

definition r_step :: "bytes \<Rightarrow> (wire_error, step_ref \<times> bytes) res" where
  "r_step r =
     res_bind (r_fixed r) (\<lambda>(ident, r).
     res_bind (r_u8 r) (\<lambda>(action, r).
     res_bind (action_from_byte action) (\<lambda>action.
       Inr (\<lparr>st_id = ident, st_action = action\<rparr>, r))))"

definition r_member :: "bytes \<Rightarrow> (wire_error, member \<times> bytes) res" where
  "r_member r =
     res_bind (r_fixed r) (\<lambda>(device_id, r).
     res_bind (r_fixed r) (\<lambda>(fp, r).
     res_bind (r_fixed r) (\<lambda>(pk, r).
     res_bind (r_fixed r) (\<lambda>(kem, r).
     res_bind (r_u64 r) (\<lambda>(added, r).
     res_bind (r_opt r_u64 r) (\<lambda>(revoked, r).
       Inr (\<lparr>m_device_id = device_id, m_fingerprint = Fingerprint fp, m_ed25519_pk = pk, m_kem_public_key = kem,
             m_added_at_version = added, m_revoked_at_version = revoked\<rparr>, r)))))))"

definition r_epoch_ref :: "bytes \<Rightarrow> (wire_error, epoch_ref \<times> bytes) res" where
  "r_epoch_ref r =
     res_bind (r_fixed r) (\<lambda>(ident, r).
     res_bind (r_opt r_fixed r) (\<lambda>(prev, r).
     res_bind (r_u64 r) (\<lambda>(key_epoch, r).
     res_bind (r_u8 r) (\<lambda>(reason, r).
     res_bind (reason_from_byte reason) (\<lambda>reason.
     res_bind (r_u64 r) (\<lambda>(head_index, r).
     res_bind (r_fixed r) (\<lambda>(ke, r).
       Inr (\<lparr>er_id = ident, er_prev_epoch_id = prev, er_key_epoch = key_epoch, er_reason = reason,
             er_head_index = unat head_index, er_key_commitment_ke = ke\<rparr>, r))))))))"

definition state_consistent :: "verified_state \<Rightarrow> bool" where
  "state_consistent s \<longleftrightarrow>
     (let version_limit = word_of_nat (length (vs_steps s))
      in list_all (\<lambda>m. 1 \<le> m_added_at_version m \<and> m_added_at_version m \<le> version_limit \<and>
             (case m_revoked_at_version m of
                None \<Rightarrow> True
              | Some v \<Rightarrow> m_added_at_version m < v \<and> v \<le> version_limit)) (vs_members s) \<and>
         list_all (\<lambda>e. er_head_index e < length (vs_steps s)) (vs_epochs s) \<and>
         (vs_key_commitment_s s \<noteq> None) = (vs_epochs s \<noteq> []))"

definition verified_state_decode :: "bytes \<Rightarrow> (wire_error, verified_state) res" where
  "verified_state_decode bs =
     res_bind (r_label state_label bs) (\<lambda>r.
     res_bind (r_fixed r) (\<lambda>(vault_id, r).
     res_bind (r_list max_chain_len 33 r_step r) (\<lambda>(steps, r).
     res_bind (r_list max_chain_len 105 r_member r) (\<lambda>(members, r).
     res_bind (r_list max_chain_len 83 r_epoch_ref r) (\<lambda>(epochs, r).
     res_bind (r_opt r_fixed r) (\<lambda>(key_commitment_s, r).
     res_bind (r_finish r) (\<lambda>_.
       let s = \<lparr>vs_vault_id = vault_id, vs_steps = steps, vs_members = members, vs_epochs = epochs,
                vs_key_commitment_s = key_commitment_s\<rparr>
       in if \<not> state_consistent s then Inl ObjectFieldsMismatch else Inr s)))))))"

lemma r_step_iff: "r_step r = Inr (v, r') \<longleftrightarrow> r = w_step v [] @ r'"
proof
  assume "r_step r = Inr (v, r')"
  then show "r = w_step v [] @ r'"
    by (auto simp: r_step_def w_step_def res_bind_Inr_iff wire_reads action_from_byte_iff wire_appends)
next
  assume "r = w_step v [] @ r'"
  moreover have "w_step v [] = w_fixed (st_id v) [] @ w_u8 (action_byte (st_action v)) []"
    by (simp add: w_step_def wire_appends)
  ultimately show "r_step r = Inr (v, r')" by (simp add: r_step_def wire_steps)
qed

interpretation step_list: wire_field w_step r_step "\<lambda>_. True"
  by unfold_locales (simp_all add: r_step_iff, simp add: w_step_def wire_appends)

lemma w_member_bytes:
  "w_member m w = w @ w_fixed (m_device_id m) [] @ w_fixed (fingerprint_bytes (m_fingerprint m)) [] @
     w_fixed (m_ed25519_pk m) [] @ w_fixed (m_kem_public_key m) [] @ w_u64 (m_added_at_version m) [] @
     w_opt (m_revoked_at_version m) w_u64 []"
  by (simp add: w_member_def wire_appends w_opt_u64_append [of _ "_ @ _"])

lemma r_member_iff: "r_member r = Inr (v, r') \<longleftrightarrow> r = w_member v [] @ r'"
proof
  assume "r_member r = Inr (v, r')"
  then show "r = w_member v [] @ r'"
    by (auto simp: r_member_def w_member_bytes res_bind_Inr_iff wire_reads)
next
  assume "r = w_member v [] @ r'"
  then show "r_member r = Inr (v, r')" by (simp add: r_member_def w_member_bytes wire_steps)
qed

interpretation member_list: wire_field w_member r_member "\<lambda>_. True"
  by unfold_locales (simp_all add: r_member_iff, simp add: w_member_bytes)

lemma w_epoch_ref_bytes:
  "w_epoch_ref e w = w @ w_fixed (er_id e) [] @ w_opt (er_prev_epoch_id e) w_fixed [] @ w_u64 (er_key_epoch e) [] @
     w_u8 (reason_byte (er_reason e)) [] @ w_u64 (word_of_nat (er_head_index e)) [] @
     w_fixed (er_key_commitment_ke e) []"
  by (simp add: w_epoch_ref_def wire_appends w_opt_digest_append [of _ "_ @ _"])

definition epoch_ref_ok :: "epoch_ref \<Rightarrow> bool" where
  "epoch_ref_ok e \<longleftrightarrow> er_head_index e < 2 ^ 64"

lemma r_epoch_ref_iff: "r_epoch_ref r = Inr (v, r') \<longleftrightarrow> epoch_ref_ok v \<and> r = w_epoch_ref v [] @ r'"
proof
  assume "r_epoch_ref r = Inr (v, r')"
  then show "epoch_ref_ok v \<and> r = w_epoch_ref v [] @ r'"
    by (auto simp: r_epoch_ref_def w_epoch_ref_bytes res_bind_Inr_iff wire_reads reason_from_byte_iff epoch_ref_ok_def
        unat_word_less)
next
  assume "epoch_ref_ok v \<and> r = w_epoch_ref v [] @ r'"
  then show "r_epoch_ref r = Inr (v, r')"
    by (simp add: r_epoch_ref_def w_epoch_ref_bytes wire_steps epoch_ref_ok_def unat_of_nat)
qed

interpretation epoch_list: wire_field w_epoch_ref r_epoch_ref epoch_ref_ok
  by unfold_locales (simp_all add: r_epoch_ref_iff w_epoch_ref_bytes)

lemma chain_len_bounds: "max_chain_len < 2 ^ 32" "max_chain_len * 33 < 2 ^ 64" "max_chain_len * 105 < 2 ^ 64"
  "max_chain_len * 83 < 2 ^ 64"
  by (simp_all add: max_chain_len_def)

lemma r_steps_iff:
  "r_list max_chain_len 33 r_step r = Inr (vs, r') \<longleftrightarrow>
     length vs \<le> max_chain_len \<and> r = be 4 (length vs) @ w_all (map w_step vs) [] @ r'"
proof -
  have "\<forall>v. True \<longrightarrow> 33 \<le> length (w_step v [])" by (simp add: w_step_def wire_appends)
  from step_list.r_list_iff [OF this _ chain_len_bounds(1,2), of r vs r'] show ?thesis
    using chain_len_bounds(1)
    by (auto simp: w_list_def step_list.w_all_append [of vs "be 4 (length vs)"] list_all_iff)
qed

lemma r_members_iff:
  "r_list max_chain_len 105 r_member r = Inr (vs, r') \<longleftrightarrow>
     length vs \<le> max_chain_len \<and> r = be 4 (length vs) @ w_all (map w_member vs) [] @ r'"
proof -
  have "\<forall>v. True \<longrightarrow> 105 \<le> length (w_member v [])" by (simp add: w_member_bytes wire_appends)
  from member_list.r_list_iff [OF this _ chain_len_bounds(1,3), of r vs r'] show ?thesis
    using chain_len_bounds(1)
    by (auto simp: w_list_def member_list.w_all_append [of vs "be 4 (length vs)"] list_all_iff)
qed

definition epochs_fit :: "epoch_ref list \<Rightarrow> nat \<Rightarrow> bool" where
  "epochs_fit es n \<longleftrightarrow> length es * 83 \<le> length (w_all (map w_epoch_ref es) []) + n"

lemma r_epochs_iff:
  "r_list max_chain_len 83 r_epoch_ref r = Inr (vs, r') \<longleftrightarrow>
     list_all epoch_ref_ok vs \<and> length vs \<le> max_chain_len \<and>
     r = be 4 (length vs) @ w_all (map w_epoch_ref vs) [] @ r' \<and> epochs_fit vs (length r')"
  using epoch_list.r_list_general [OF _ chain_len_bounds(1,4), of r vs r'] chain_len_bounds(1)
  by (auto simp: w_list_def epoch_list.w_all_append [of vs "be 4 (length vs)"] epochs_fit_def)

text \<open>
  An epoch record without predecessor takes 82 bytes, one less than the size the reader of the list is
  given; the commitment that follows the list makes up for it as long as there are few of them.
\<close>

lemma epochs_fit_few:
  "length (filter (\<lambda>e. er_prev_epoch_id e = None) es) \<le> n \<Longrightarrow> epochs_fit es n"
proof (induction es arbitrary: n)
  case (Cons e es)
  show ?case
  proof (cases "er_prev_epoch_id e")
    case None
    with Cons.prems obtain m where n: "n = Suc m" and m: "length (filter (\<lambda>e. er_prev_epoch_id e = None) es) \<le> m"
      by (cases n) auto
    from Cons.IH [OF m] show ?thesis
      using n None epoch_list.w_all_append [of es "w_epoch_ref e []"]
      by (simp add: epochs_fit_def w_epoch_ref_bytes wire_appends w_opt_def)
  next
    case (Some p)
    with Cons.prems have "length (filter (\<lambda>e. er_prev_epoch_id e = None) es) \<le> n" by simp
    from Cons.IH [OF this] show ?thesis
      using Some epoch_list.w_all_append [of es "w_epoch_ref e []"]
      by (simp add: epochs_fit_def w_epoch_ref_bytes wire_appends w_opt_def)
  qed
qed (simp add: epochs_fit_def)

definition verified_state_bytes :: "bytes \<Rightarrow> verified_state \<Rightarrow> bytes" where
  "verified_state_bytes label s =
     label @ w_fixed (vs_vault_id s) [] @ be 4 (length (vs_steps s)) @ w_all (map w_step (vs_steps s)) [] @
     be 4 (length (vs_members s)) @ w_all (map w_member (vs_members s)) [] @
     be 4 (length (vs_epochs s)) @ w_all (map w_epoch_ref (vs_epochs s)) [] @ w_opt (vs_key_commitment_s s) w_fixed []"

definition verified_state_small :: "verified_state \<Rightarrow> bool" where
  "verified_state_small s \<longleftrightarrow> length (vs_steps s) \<le> max_chain_len \<and> length (vs_members s) \<le> max_chain_len \<and>
     length (vs_epochs s) \<le> max_chain_len"

lemma verified_state_encode_iff:
  "verified_state_encode s = Inr bs \<longleftrightarrow> verified_state_small s \<and>
     (\<exists>label. with_label state_label = Inr label \<and> bs = verified_state_bytes label s)"
  by (auto simp: verified_state_encode_def verified_state_small_def verified_state_bytes_def res_bind_Inr_iff w_list_def
      wire_appends w_opt_digest_append [of _ "_ @ _"] step_list.w_all_append [of _ "_ @ _"]
      member_list.w_all_append [of _ "_ @ _"] epoch_list.w_all_append [of _ "_ @ _"] max_chain_len_def)

lemma state_consistent_heads:
  "verified_state_small s \<Longrightarrow> state_consistent s \<Longrightarrow> list_all epoch_ref_ok (vs_epochs s)"
  by (auto simp: verified_state_small_def state_consistent_def list_all_iff epoch_ref_ok_def max_chain_len_def Let_def)

lemma verified_state_decode_iff:
  "verified_state_decode bs = Inr s \<longleftrightarrow> verified_state_small s \<and> state_consistent s \<and>
     epochs_fit (vs_epochs s) (length (w_opt (vs_key_commitment_s s) (w_fixed :: 256 word \<Rightarrow> _) [])) \<and>
     (\<exists>label. with_label state_label = Inr label \<and> bs = verified_state_bytes label s)"
proof
  assume "verified_state_decode bs = Inr s"
  then show "verified_state_small s \<and> state_consistent s \<and>
     epochs_fit (vs_epochs s) (length (w_opt (vs_key_commitment_s s) (w_fixed :: 256 word \<Rightarrow> _) [])) \<and>
     (\<exists>label. with_label state_label = Inr label \<and> bs = verified_state_bytes label s)"
    by (auto simp: verified_state_decode_def Let_def res_bind_Inr_iff wire_reads r_label_iff r_steps_iff r_members_iff
        r_epochs_iff verified_state_small_def verified_state_bytes_def)
next
  assume asm: "verified_state_small s \<and> state_consistent s \<and>
     epochs_fit (vs_epochs s) (length (w_opt (vs_key_commitment_s s) (w_fixed :: 256 word \<Rightarrow> _) [])) \<and>
     (\<exists>label. with_label state_label = Inr label \<and> bs = verified_state_bytes label s)"
  have lists: "length vs \<le> max_chain_len \<Longrightarrow>
      r_list max_chain_len 33 r_step (be 4 (length vs) @ w_all (map w_step vs) [] @ r) = Inr (vs, r)"
    "length ms \<le> max_chain_len \<Longrightarrow>
      r_list max_chain_len 105 r_member (be 4 (length ms) @ w_all (map w_member ms) [] @ r) = Inr (ms, r)"
    "list_all epoch_ref_ok es \<Longrightarrow> length es \<le> max_chain_len \<Longrightarrow> epochs_fit es (length r) \<Longrightarrow>
      r_list max_chain_len 83 r_epoch_ref (be 4 (length es) @ w_all (map w_epoch_ref es) [] @ r) = Inr (es, r)"
    for vs ms es r
    by (simp_all add: r_steps_iff r_members_iff r_epochs_iff)
  from asm show "verified_state_decode bs = Inr s"
    using state_consistent_heads [of s]
    by (cases s) (auto simp: verified_state_decode_def verified_state_bytes_def verified_state_small_def wire_steps
        lists Let_def)
qed

end
