(* ===== verification/Membership_Chain.thy ===== *)
theory Membership_Chain
  imports Membership_State
begin

text \<open>
  \<^verbatim>\<open>crates/sync-core/src/membership.rs\<close>, the verifier: \<open>extend\<close> applies the membership records and
  then the epoch records that follow a verified state, each checked in the order of the code, and
  requires at the end that the newest epoch record names the newest membership record.

  The code mutates a copy of the state and drops it on an error; here each step returns the new
  state or the error.  The fingerprint of a membership body, which cannot fail, is computed once
  before the branches that use it.  Indexing and arithmetic that could panic do so here as
  \<open>Ch_Panic\<close>; the last section gives the same steps without them.
\<close>

section \<open>Indexing and arithmetic that can panic\<close>

text \<open>
  An index out of range panics, and so does arithmetic on \<^verbatim>\<open>usize\<close> or \<^verbatim>\<open>u64\<close> that leaves the type: this is what
  a build with overflow checks does, and a build without them computes the same wherever these do not panic.
\<close>

definition index_at :: "'a list \<Rightarrow> nat \<Rightarrow> (chain_error, 'a) res" where
  "index_at xs i = (if i < length xs then Inr (xs ! i) else Inl Ch_Panic)"

definition usize_sub :: "nat \<Rightarrow> nat \<Rightarrow> (chain_error, nat) res" where
  "usize_sub a b = (if b \<le> a then Inr (a - b) else Inl Ch_Panic)"

definition usize_add :: "nat \<Rightarrow> nat \<Rightarrow> (chain_error, nat) res" where
  "usize_add a b = (if a + b < 2 ^ 64 then Inr (a + b) else Inl Ch_Panic)"

definition u64_add :: "64 word \<Rightarrow> 64 word \<Rightarrow> (chain_error, 64 word) res" where
  "u64_add a b = (if unat a + unat b < 2 ^ 64 then Inr (a + b) else Inl Ch_Panic)"

text \<open>The same where the code is computing the error it will return.\<close>

definition or_panic :: "(chain_error, 'a) res \<Rightarrow> ('a \<Rightarrow> chain_error) \<Rightarrow> chain_error" where
  "or_panic r f = (case r of Inl e \<Rightarrow> e | Inr x \<Rightarrow> f x)"

section \<open>Membership records\<close>

definition malformed :: "nat \<Rightarrow> wire_error \<Rightarrow> chain_error" where
  "malformed i e = (if e = UnsupportedProtocol then Ch_UnsupportedProtocol i else Ch_Malformed i e)"

definition map_err :: "('e \<Rightarrow> 'f) \<Rightarrow> ('e, 'a) res \<Rightarrow> ('f, 'a) res" where
  "map_err f r = (case r of Inl e \<Rightarrow> Inl (f e) | Inr x \<Rightarrow> Inr x)"

definition check_suite :: "16 word \<Rightarrow> 16 word \<Rightarrow> nat \<Rightarrow> (chain_error, unit) res" where
  "check_suite suite_id kem_id i =
     (if suite_id = suite_one \<and> kem_id = kem_one then Inr () else Inl (Ch_UnsupportedSuite i))"

definition signer_missing :: "verified_state \<Rightarrow> fingerprint \<Rightarrow> nat \<Rightarrow> chain_error" where
  "signer_missing s fp i =
     (if list_ex (\<lambda>m. m_fingerprint m = fp) (vs_members s) then Ch_SignerRevoked i else Ch_SignerUnknown i)"

definition conflicting_membership ::
    "dalek \<Rightarrow> verified_state \<Rightarrow> nat \<Rightarrow> nat \<Rightarrow> membership_body \<Rightarrow> fingerprint \<Rightarrow> signed_record \<Rightarrow> 256 word \<Rightarrow> chain_error" where
  "conflicting_membership c s i pos body recomputed rec ident =
     (let verdict = (\<lambda>valid_there.
            if valid_there then
              or_panic (usize_sub pos 1) (\<lambda>k.
              or_panic (index_at (vs_steps s) k) (\<lambda>accepted.
                Ch_Fork (mb_version body) (st_id accepted) ident))
            else Ch_BadSignature i)
      in if pos = 1 then
           (if mb_version body \<noteq> 1 \<or> mb_prev_id body \<noteq> None \<or> mb_action body \<noteq> Add
               \<or> mb_signer_fingerprint body \<noteq> recomputed
            then Ch_BadGenesis i
            else if \<not> ed25519_public_key_acceptable c (mb_ed25519_pk body)
               \<or> \<not> x25519_public_key_acceptable (mb_kem_public_key body)
            then Ch_KeyUnacceptable i
            else or_panic (index_at (vs_members s) 0) (\<lambda>founder.
                   if mb_signer_fingerprint body \<noteq> m_fingerprint founder then Ch_BadGenesis i
                   else verdict (ed25519_verify_strict c (m_ed25519_pk founder) (sr_body rec) (sr_signature rec))))
         else
           or_panic (usize_sub pos 2) (\<lambda>k.
           or_panic (index_at (vs_steps s) k) (\<lambda>previous.
             if mb_prev_id body \<noteq> Some (st_id previous) then Ch_WrongPrevId i
             else or_panic (usize_sub pos 1) (\<lambda>previous_version.
               case authorized_member s (mb_signer_fingerprint body) (word_of_nat previous_version) of
                 None \<Rightarrow> signer_missing s (mb_signer_fingerprint body) i
               | Some signer \<Rightarrow>
                   verdict (ed25519_verify_strict c (m_ed25519_pk signer) (sr_body rec) (sr_signature rec))))))"

definition new_member :: "membership_body \<Rightarrow> fingerprint \<Rightarrow> 64 word \<Rightarrow> member" where
  "new_member body fp version =
     \<lparr>m_device_id = mb_device_id body, m_fingerprint = fp, m_ed25519_pk = mb_ed25519_pk body,
      m_kem_public_key = mb_kem_public_key body, m_added_at_version = version, m_revoked_at_version = None\<rparr>"

definition push_step :: "256 word \<Rightarrow> action \<Rightarrow> verified_state \<Rightarrow> verified_state" where
  "push_step ident a s = s\<lparr>vs_steps := vs_steps s @ [\<lparr>st_id = ident, st_action = a\<rparr>]\<rparr>"

definition apply_genesis ::
    "dalek \<Rightarrow> verified_state \<Rightarrow> nat \<Rightarrow> membership_body \<Rightarrow> fingerprint \<Rightarrow> signed_record \<Rightarrow> 256 word \<Rightarrow>
     (chain_error, verified_state) res" where
  "apply_genesis c s i body recomputed rec ident =
     (if mb_version body \<noteq> 1 \<or> mb_prev_id body \<noteq> None \<or> mb_action body \<noteq> Add
         \<or> mb_signer_fingerprint body \<noteq> recomputed
      then Inl (Ch_BadGenesis i)
      else if \<not> ed25519_public_key_acceptable c (mb_ed25519_pk body)
         \<or> \<not> x25519_public_key_acceptable (mb_kem_public_key body)
      then Inl (Ch_KeyUnacceptable i)
      else if \<not> ed25519_verify_strict c (mb_ed25519_pk body) (sr_body rec) (sr_signature rec)
      then Inl (Ch_BadSignature i)
      else Inr (push_step ident Add (s\<lparr>vs_members := vs_members s @ [new_member body recomputed 1]\<rparr>)))"

definition apply_add ::
    "dalek \<Rightarrow> verified_state \<Rightarrow> nat \<Rightarrow> membership_body \<Rightarrow> fingerprint \<Rightarrow> (chain_error, verified_state) res" where
  "apply_add c s i body recomputed =
     (if \<not> ed25519_public_key_acceptable c (mb_ed25519_pk body)
         \<or> \<not> x25519_public_key_acceptable (mb_kem_public_key body)
      then Inl (Ch_KeyUnacceptable i)
      else if list_ex (\<lambda>m. m_fingerprint m = recomputed) (vs_members s) then Inl (Ch_FingerprintReused i)
      else if list_ex (\<lambda>m. m_device_id m = mb_device_id body) (vs_members s) then Inl (Ch_DeviceIdReused i)
      else if list_ex (\<lambda>m. m_ed25519_pk m = mb_ed25519_pk body \<or> m_kem_public_key m = mb_kem_public_key body)
                (vs_members s)
      then Inl (Ch_KeyReused i)
      else if max_members \<le> length (authorized s) then Inl (Ch_TooManyMembers i)
      else Inr (s\<lparr>vs_members := vs_members s @ [new_member body recomputed (mb_version body)]\<rparr>))"

definition apply_revoke ::
    "verified_state \<Rightarrow> nat \<Rightarrow> membership_body \<Rightarrow> fingerprint \<Rightarrow> (chain_error, verified_state) res" where
  "apply_revoke s i body recomputed =
     (let authorized_now = length (authorized s)
      in case position (\<lambda>m. m_fingerprint m = recomputed) (vs_members s) of
           None \<Rightarrow> Inl (Ch_RevokeMismatch i)
         | Some k \<Rightarrow>
             let target = vs_members s ! k
             in if m_device_id target \<noteq> mb_device_id body \<or> m_ed25519_pk target \<noteq> mb_ed25519_pk body
                   \<or> m_kem_public_key target \<noteq> mb_kem_public_key body
                then Inl (Ch_RevokeMismatch i)
                else if m_revoked_at_version target \<noteq> None then Inl (Ch_RevokeOfUnauthorized i)
                else if authorized_now \<le> 1 then Inl (Ch_WouldEmptyChain i)
                else Inr (s\<lparr>vs_members := (vs_members s)[k := target\<lparr>m_revoked_at_version := Some (mb_version body)\<rparr>]\<rparr>))"

definition apply_next ::
    "dalek \<Rightarrow> verified_state \<Rightarrow> nat \<Rightarrow> membership_body \<Rightarrow> fingerprint \<Rightarrow> signed_record \<Rightarrow> 256 word \<Rightarrow> step_ref \<Rightarrow>
     (chain_error, verified_state) res" where
  "apply_next c s i body recomputed rec ident previous =
     (let previous_version = word_of_nat (length (vs_steps s))
      in res_bind (u64_add previous_version 1) (\<lambda>wanted.
         if mb_version body \<noteq> wanted then Inl (Ch_WrongVersion i)
         else if mb_prev_id body \<noteq> Some (st_id previous) then Inl (Ch_WrongPrevId i)
         else case authorized_member s (mb_signer_fingerprint body) previous_version of
                None \<Rightarrow> Inl (signer_missing s (mb_signer_fingerprint body) i)
              | Some signer \<Rightarrow>
                  if \<not> ed25519_verify_strict c (m_ed25519_pk signer) (sr_body rec) (sr_signature rec)
                  then Inl (Ch_BadSignature i)
                  else res_bind
                    (case mb_action body of
                       Add \<Rightarrow> apply_add c s i body recomputed
                     | Revoke \<Rightarrow> apply_revoke s i body recomputed)
                    (\<lambda>s. Inr (push_step ident (mb_action body) s))))"

definition apply_membership ::
    "hash \<Rightarrow> dalek \<Rightarrow> verified_state \<Rightarrow> nat \<Rightarrow> bytes \<Rightarrow> (chain_error, verified_state) res" where
  "apply_membership sha256 c s i bs =
     (if max_chain_len \<le> length (vs_steps s) then Inl Ch_TooLong
      else
        res_bind (map_err (malformed i) (signed_record_parse bs max_membership_body)) (\<lambda>rec.
        res_bind (map_err (malformed i) (membership_body_decode (sr_body rec))) (\<lambda>body.
        res_bind (check_suite (mb_suite_id body) (mb_kem_id body) i) (\<lambda>_.
        if mb_vault_id body \<noteq> vs_vault_id s then Inl (Ch_VaultMismatch i)
        else
          let ident = signed_record_id sha256 rec; pos = unat (mb_version body)
          in res_bind (map_err (\<lambda>_. Ch_Panic) (mb_fingerprint sha256 body)) (\<lambda>recomputed.
             if 1 \<le> pos \<and> pos \<le> length (vs_steps s) then
               res_bind (usize_sub pos 1) (\<lambda>k.
               res_bind (index_at (vs_steps s) k) (\<lambda>accepted.
                 if st_id accepted = ident then Inr s
                 else Inl (conflicting_membership c s i pos body recomputed rec ident)))
             else case last_opt (vs_steps s) of
                    None \<Rightarrow> apply_genesis c s i body recomputed rec ident
                  | Some previous \<Rightarrow> apply_next c s i body recomputed rec ident previous)))))"

section \<open>Epoch records\<close>

definition conflicting_epoch ::
    "dalek \<Rightarrow> verified_state \<Rightarrow> nat \<Rightarrow> epoch_body \<Rightarrow> signed_record \<Rightarrow> 256 word \<Rightarrow> 256 word \<Rightarrow> chain_error" where
  "conflicting_epoch c s i body rec accepted conflicting =
     (case position (\<lambda>st. st_id st = eb_membership_head body) (vs_steps s) of
        None \<Rightarrow> Ch_UnknownHead i
      | Some head_index \<Rightarrow>
          or_panic (usize_add head_index 1) (\<lambda>head_version.
            case authorized_member s (eb_sealer_fingerprint body) (word_of_nat head_version) of
              None \<Rightarrow> Ch_SealerNotAuthorized i
            | Some sealer \<Rightarrow>
                if ed25519_verify_strict c (m_ed25519_pk sealer) (sr_body rec) (sr_signature rec)
                then Ch_EpochEquivocation accepted conflicting
                else Ch_EpochBadSignature i))"

definition epoch_successor ::
    "verified_state \<Rightarrow> nat \<Rightarrow> epoch_body \<Rightarrow> nat \<Rightarrow> epoch_ref \<Rightarrow> (chain_error, unit) res" where
  "epoch_successor s i body head_index previous =
     (if eb_prev_epoch_id body \<noteq> Some (er_id previous) \<or> vs_key_commitment_s s \<noteq> Some (eb_key_commitment_s body)
      then Inl (Ch_BadEpochSequence i)
      else
        let fresh_key = \<not> list_ex (\<lambda>e. er_key_commitment_ke e = eb_key_commitment_ke body) (vs_epochs s);
            advance =
              res_bind (usize_add (er_head_index previous) 1) (\<lambda>next_index.
              if next_index < head_index then
                res_bind (usize_add (er_head_index previous) 2) (\<lambda>version.
                  Inl (Ch_EpochRecordMissing (word_of_nat version)))
              else if head_index \<noteq> next_index then Inl (Ch_BadEpochSequence i)
              else index_at (vs_steps s) head_index)
        in case eb_reason body of
             Genesis \<Rightarrow> Inl Ch_Panic
           | Cutover \<Rightarrow>
               res_bind advance (\<lambda>head.
               if st_action head \<noteq> Revoke then Inl (Ch_CutoverHeadNotRevoke i)
               else res_bind (u64_add (er_key_epoch previous) 1) (\<lambda>next_epoch.
                 if eb_key_epoch body \<noteq> next_epoch \<or> \<not> fresh_key then Inl (Ch_BadEpochSequence i) else Inr ()))
           | Grant \<Rightarrow>
               res_bind advance (\<lambda>head.
               if st_action head \<noteq> Add then Inl (Ch_GrantHeadNotAdd i)
               else if eb_key_epoch body \<noteq> er_key_epoch previous
                  \<or> eb_key_commitment_ke body \<noteq> er_key_commitment_ke previous then Inl (Ch_BadEpochSequence i)
               else Inr ())
           | Rotation \<Rightarrow>
               if head_index \<noteq> er_head_index previous then Inl (Ch_BadEpochSequence i)
               else res_bind (u64_add (er_key_epoch previous) 1) (\<lambda>next_epoch.
                 if eb_key_epoch body \<noteq> next_epoch \<or> \<not> fresh_key then Inl (Ch_BadEpochSequence i) else Inr ()))"

text \<open>The sequence rules give the commitment to the tag secret that the state holds afterwards.\<close>

definition epoch_sequence ::
    "verified_state \<Rightarrow> nat \<Rightarrow> epoch_body \<Rightarrow> nat \<Rightarrow> (chain_error, 256 word option) res" where
  "epoch_sequence s i body head_index =
     (case last_opt (vs_epochs s) of
        None \<Rightarrow>
          (if eb_reason body = Genesis then
             (if eb_key_epoch body \<noteq> 1 \<or> eb_prev_epoch_id body \<noteq> None \<or> head_index \<noteq> 0
              then Inl (Ch_BadEpochSequence i)
              else Inr (Some (eb_key_commitment_s body)))
           else Inl (Ch_BadEpochSequence i))
      | Some previous \<Rightarrow>
          (if eb_reason body = Genesis then Inl (Ch_BadEpochSequence i)
           else res_bind (epoch_successor s i body head_index previous) (\<lambda>_. Inr (vs_key_commitment_s s))))"

definition expected_recipients :: "verified_state \<Rightarrow> reason \<Rightarrow> 64 word \<Rightarrow> member list" where
  "expected_recipients s reason version =
     (case reason of
        Grant \<Rightarrow> filter (\<lambda>m. m_added_at_version m = version) (vs_members s)
      | _ \<Rightarrow> filter (\<lambda>m. authorized_at m version) (vs_members s))"

fun list_recipients ::
    "member list \<Rightarrow> nat \<Rightarrow> fingerprint list \<Rightarrow> recipient list \<Rightarrow> (chain_error, fingerprint list) res" where
  "list_recipients expected i listed [] = Inr listed"
| "list_recipients expected i listed (r # rs) =
     (let known = list_ex (\<lambda>m. m_device_id m = rc_device_id r \<and> m_fingerprint m = rc_fingerprint r) expected
      in if rc_suite_id r \<noteq> suite_one \<or> rc_kem_id r \<noteq> kem_one \<or> \<not> known \<or> rc_fingerprint r \<in> set listed
         then Inl (Ch_RecipientsMismatch i)
         else list_recipients expected i (rc_fingerprint r # listed) rs)"

definition apply_new_epoch ::
    "dalek \<Rightarrow> verified_state \<Rightarrow> nat \<Rightarrow> epoch_body \<Rightarrow> signed_record \<Rightarrow> 256 word \<Rightarrow> (chain_error, verified_state) res" where
  "apply_new_epoch c s i body rec ident =
     res_bind (ok_or (position (\<lambda>st. st_id st = eb_membership_head body) (vs_steps s)) (Ch_UnknownHead i)) (\<lambda>head_index.
       res_bind (usize_add head_index 1) (\<lambda>head_version.
       let version = word_of_nat head_version
       in res_bind (ok_or (authorized_member s (eb_sealer_fingerprint body) version) (Ch_SealerNotAuthorized i)) (\<lambda>sealer.
          if \<not> ed25519_verify_strict c (m_ed25519_pk sealer) (sr_body rec) (sr_signature rec)
          then Inl (Ch_EpochBadSignature i)
          else res_bind (epoch_sequence s i body head_index) (\<lambda>key_commitment_s.
            let expected = expected_recipients s (eb_reason body) version
            in res_bind (list_recipients expected i [] (eb_recipients body)) (\<lambda>listed.
               if length listed \<noteq> length expected then Inl (Ch_RecipientsMismatch i)
               else Inr (s\<lparr>vs_key_commitment_s := key_commitment_s,
                           vs_epochs := vs_epochs s @
                             [\<lparr>er_id = ident, er_prev_epoch_id = eb_prev_epoch_id body,
                               er_key_epoch = eb_key_epoch body, er_reason = eb_reason body,
                               er_head_index = head_index, er_key_commitment_ke = eb_key_commitment_ke body\<rparr>]\<rparr>))))))"

definition apply_epoch ::
    "hash \<Rightarrow> dalek \<Rightarrow> verified_state \<Rightarrow> nat \<Rightarrow> bytes \<Rightarrow> (chain_error, verified_state) res" where
  "apply_epoch sha256 c s i bs =
     (if max_chain_len \<le> length (vs_epochs s) then Inl Ch_TooLong
      else
        res_bind (map_err (malformed i) (signed_record_parse bs max_epoch_body)) (\<lambda>rec.
        res_bind (map_err (malformed i) (epoch_body_decode (sr_body rec))) (\<lambda>body.
        res_bind (check_suite (eb_suite_id body) (eb_kem_id body) i) (\<lambda>_.
        if eb_vault_id body \<noteq> vs_vault_id s then Inl (Ch_VaultMismatch i)
        else
          let ident = signed_record_id sha256 rec
          in case find (\<lambda>e. er_prev_epoch_id e = eb_prev_epoch_id body) (vs_epochs s) of
               Some existing \<Rightarrow>
                 (if er_id existing = ident then Inr s
                  else Inl (conflicting_epoch c s i body rec (er_id existing) ident))
             | None \<Rightarrow> apply_new_epoch c s i body rec ident))))"

section \<open>A batch of records\<close>

primrec apply_memberships ::
    "hash \<Rightarrow> dalek \<Rightarrow> nat \<Rightarrow> bytes list \<Rightarrow> verified_state \<Rightarrow> (chain_error, verified_state) res" where
  "apply_memberships sha256 c i [] s = Inr s"
| "apply_memberships sha256 c i (b # bs) s =
     res_bind (apply_membership sha256 c s i b) (apply_memberships sha256 c (Suc i) bs)"

primrec apply_epochs ::
    "hash \<Rightarrow> dalek \<Rightarrow> nat \<Rightarrow> bytes list \<Rightarrow> verified_state \<Rightarrow> (chain_error, verified_state) res" where
  "apply_epochs sha256 c i [] s = Inr s"
| "apply_epochs sha256 c i (b # bs) s =
     res_bind (apply_epoch sha256 c s i b) (apply_epochs sha256 c (Suc i) bs)"

definition coupled :: "verified_state \<Rightarrow> (chain_error, verified_state) res" where
  "coupled s =
     (if vs_steps s = [] then Inr s
      else case last_opt (vs_epochs s) of
             None \<Rightarrow> Inl (Ch_EpochRecordMissing 1)
           | Some l \<Rightarrow>
               res_bind (usize_add (er_head_index l) 1) (\<lambda>next_index.
               if next_index < length (vs_steps s) then
                 res_bind (usize_add (er_head_index l) 2) (\<lambda>version.
                   Inl (Ch_EpochRecordMissing (word_of_nat version)))
               else Inr s))"

definition extend ::
    "hash \<Rightarrow> dalek \<Rightarrow> verified_state \<Rightarrow> bytes list \<Rightarrow> bytes list \<Rightarrow> (chain_error, verified_state) res" where
  "extend sha256 c s memberships epochs =
     res_bind (apply_memberships sha256 c 0 memberships s) (\<lambda>s.
     res_bind (apply_epochs sha256 c 0 epochs s) coupled)"

definition verify_chain ::
    "hash \<Rightarrow> dalek \<Rightarrow> 128 word \<Rightarrow> bytes list \<Rightarrow> bytes list \<Rightarrow> (chain_error, verified_state) res" where
  "verify_chain sha256 c vault_id memberships epochs =
     extend sha256 c (verified_state_empty vault_id) memberships epochs"

section \<open>Where nothing panics\<close>

lemma checked_Inr:
  "index_at xs i = Inr x \<longleftrightarrow> i < length xs \<and> x = xs ! i"
  "usize_sub a b = Inr d \<longleftrightarrow> b \<le> a \<and> d = a - b"
  "usize_add a b = Inr d \<longleftrightarrow> a + b < 2 ^ 64 \<and> d = a + b"
  "u64_add v w = Inr z \<longleftrightarrow> unat v + unat w < 2 ^ 64 \<and> z = v + w"
  by (auto simp: index_at_def usize_sub_def usize_add_def u64_add_def)

lemma or_panic_Inr [simp]: "or_panic (Inr x) f = f x"
  by (simp add: or_panic_def)

lemma checked_ok:
  "i < length xs \<Longrightarrow> index_at xs i = Inr (xs ! i)"
  "b \<le> a \<Longrightarrow> usize_sub a b = Inr (a - b)"
  "a \<le> max_chain_len \<Longrightarrow> b \<le> max_chain_len \<Longrightarrow> usize_add a b = Inr (a + b)"
  "unat v \<le> max_chain_len \<Longrightarrow> u64_add v 1 = Inr (v + 1)"
  by (simp_all add: checked_Inr max_chain_len_def)

lemma conflicting_membership_eq:
  assumes "1 \<le> pos" "pos \<le> length (vs_steps s)"
  shows "conflicting_membership c s i pos body recomputed rec ident =
     (let verdict = (\<lambda>valid_there.
            if valid_there then Ch_Fork (mb_version body) (st_id (vs_steps s ! (pos - 1))) ident
            else Ch_BadSignature i)
      in if pos = 1 then
           (if mb_version body \<noteq> 1 \<or> mb_prev_id body \<noteq> None \<or> mb_action body \<noteq> Add
               \<or> mb_signer_fingerprint body \<noteq> recomputed
            then Ch_BadGenesis i
            else if \<not> ed25519_public_key_acceptable c (mb_ed25519_pk body)
               \<or> \<not> x25519_public_key_acceptable (mb_kem_public_key body)
            then Ch_KeyUnacceptable i
            else case vs_members s of
                   [] \<Rightarrow> Ch_Panic
                 | founder # _ \<Rightarrow>
                     if mb_signer_fingerprint body \<noteq> m_fingerprint founder then Ch_BadGenesis i
                     else verdict (ed25519_verify_strict c (m_ed25519_pk founder) (sr_body rec) (sr_signature rec)))
         else if mb_prev_id body \<noteq> Some (st_id (vs_steps s ! (pos - 2))) then Ch_WrongPrevId i
         else case authorized_member s (mb_signer_fingerprint body) (word_of_nat (pos - 1)) of
                None \<Rightarrow> signer_missing s (mb_signer_fingerprint body) i
              | Some signer \<Rightarrow>
                  verdict (ed25519_verify_strict c (m_ed25519_pk signer) (sr_body rec) (sr_signature rec)))"
proof -
  have at: "index_at (vs_steps s) (pos - 1) = Inr (vs_steps s ! (pos - 1))" "usize_sub pos 1 = Inr (pos - 1)"
    using assms by (simp_all add: checked_Inr)
  have before: "pos \<noteq> 1 \<Longrightarrow> usize_sub pos 2 = Inr (pos - 2) \<and> index_at (vs_steps s) (pos - 2) = Inr (vs_steps s ! (pos - 2))"
    using assms by (auto simp: checked_Inr)
  have founder: "index_at (vs_members s) 0 = (case vs_members s of [] \<Rightarrow> Inl Ch_Panic | m # _ \<Rightarrow> Inr m)"
    by (simp add: index_at_def split: list.split)
  show ?thesis
    unfolding conflicting_membership_def at or_panic_Inr founder
    by (cases "pos = 1"; cases "vs_members s") (simp_all add: before or_panic_def Let_def)
qed

lemma apply_next_eq:
  assumes "length (vs_steps s) \<le> max_chain_len"
  shows "apply_next c s i body recomputed rec ident previous =
     (let previous_version = word_of_nat (length (vs_steps s))
      in if mb_version body \<noteq> previous_version + 1 then Inl (Ch_WrongVersion i)
         else if mb_prev_id body \<noteq> Some (st_id previous) then Inl (Ch_WrongPrevId i)
         else case authorized_member s (mb_signer_fingerprint body) previous_version of
                None \<Rightarrow> Inl (signer_missing s (mb_signer_fingerprint body) i)
              | Some signer \<Rightarrow>
                  if \<not> ed25519_verify_strict c (m_ed25519_pk signer) (sr_body rec) (sr_signature rec)
                  then Inl (Ch_BadSignature i)
                  else res_bind
                    (case mb_action body of
                       Add \<Rightarrow> apply_add c s i body recomputed
                     | Revoke \<Rightarrow> apply_revoke s i body recomputed)
                    (\<lambda>s. Inr (push_step ident (mb_action body) s)))"
proof -
  have "unat (word_of_nat (length (vs_steps s)) :: 64 word) \<le> max_chain_len"
    using assms by (simp add: unat_of_nat max_chain_len_def)
  then show ?thesis unfolding apply_next_def by (simp add: checked_ok)
qed

lemma apply_membership_eq:
  "apply_membership sha256 c s i bs =
     (if max_chain_len \<le> length (vs_steps s) then Inl Ch_TooLong
      else
        res_bind (map_err (malformed i) (signed_record_parse bs max_membership_body)) (\<lambda>rec.
        res_bind (map_err (malformed i) (membership_body_decode (sr_body rec))) (\<lambda>body.
        res_bind (check_suite (mb_suite_id body) (mb_kem_id body) i) (\<lambda>_.
        if mb_vault_id body \<noteq> vs_vault_id s then Inl (Ch_VaultMismatch i)
        else
          let ident = signed_record_id sha256 rec; pos = unat (mb_version body)
          in res_bind (map_err (\<lambda>_. Ch_Panic) (mb_fingerprint sha256 body)) (\<lambda>recomputed.
             if 1 \<le> pos \<and> pos \<le> length (vs_steps s) then
               (if st_id (vs_steps s ! (pos - 1)) = ident then Inr s
                else Inl (conflicting_membership c s i pos body recomputed rec ident))
             else case last_opt (vs_steps s) of
                    None \<Rightarrow> apply_genesis c s i body recomputed rec ident
                  | Some previous \<Rightarrow> apply_next c s i body recomputed rec ident previous)))))"
proof -
  have first: "(if 1 \<le> pos \<and> pos \<le> length steps
         then res_bind (usize_sub pos 1) (\<lambda>k. res_bind (index_at steps k) f) else x) =
      (if 1 \<le> pos \<and> pos \<le> length steps then f (steps ! (pos - 1)) else x)"
    for pos :: nat and steps :: "step_ref list" and f x
    by (auto simp: checked_ok)
  show ?thesis unfolding apply_membership_def Let_def first by (rule refl)
qed

end
