(* ===== verification/Membership_Guarantees.thy ===== *)
theory Membership_Guarantees
  imports Membership_Chain
begin

text \<open>
  What the verifier of the membership chain promises: the invariant of every verified state, that
  what was verified never changes, who a new epoch key is given to, that only a member can cause a
  halt, and the round trip of the stored state.

  A new membership record is a step of the relation \<open>member_step\<close>, a new epoch record one of
  \<open>epoch_step\<close>; the verifier refines them, and the invariants are shown on the relations.
\<close>

declare of_nat_Suc [simp del]

section \<open>Searching lists\<close>

lemma position_Some: "position P xs = Some k \<Longrightarrow> k < length xs \<and> P (xs ! k)"
proof (induction xs arbitrary: k)
  case (Cons x xs)
  then show ?case by (auto split: if_splits)
qed simp

lemma find_append: "find P (xs @ ys) = (case find P xs of None \<Rightarrow> find P ys | Some x \<Rightarrow> Some x)"
  by (induction xs) auto

lemma find_update:
  "k < length xs \<Longrightarrow> P y = P (xs ! k) \<Longrightarrow> f y = f (xs ! k) \<Longrightarrow>
   map_option f (find P (xs[k := y])) = map_option f (find P xs)"
proof (induction xs arbitrary: k)
  case (Cons x xs)
  then show ?case by (cases k) auto
qed simp

lemma find_Some: "find P xs = Some x \<Longrightarrow> x \<in> set xs \<and> P x"
  by (induction xs) (auto split: if_splits)

lemma find_None: "find P xs = None \<longleftrightarrow> (\<forall>x\<in>set xs. \<not> P x)"
  by (induction xs) auto

lemma filter_update_same:
  "k < length xs \<Longrightarrow> P y = P (xs ! k) \<Longrightarrow> length (filter P (xs[k := y])) = length (filter P xs)"
  by (subst (2) id_take_nth_drop [of k xs]) (auto simp: upd_conv_take_nth_drop)

lemma filter_update_drop:
  "k < length xs \<Longrightarrow> \<not> P y \<Longrightarrow> P (xs ! k) \<Longrightarrow> Suc (length (filter P (xs[k := y]))) = length (filter P xs)"
  by (subst (2) id_take_nth_drop [of k xs]) (auto simp: upd_conv_take_nth_drop)

lemma map_update_same: "f y = f (xs ! k) \<Longrightarrow> map f (xs[k := y]) = map f xs"
  by (rule nth_equalityI, simp, cases "k < length xs") (auto simp: nth_list_update)

section \<open>The invariant of the membership records\<close>

definition auth :: "verified_state \<Rightarrow> nat \<Rightarrow> member list" where
  "auth s v = filter (\<lambda>m. authorized_at m (word_of_nat v)) (vs_members s)"

definition member_ok :: "step_ref list \<Rightarrow> member \<Rightarrow> bool" where
  "member_ok steps m \<longleftrightarrow>
     1 \<le> unat (m_added_at_version m) \<and> unat (m_added_at_version m) \<le> length steps \<and>
     st_action (steps ! (unat (m_added_at_version m) - 1)) = Add \<and>
     (case m_revoked_at_version m of
        None \<Rightarrow> True
      | Some r \<Rightarrow> unat (m_added_at_version m) < unat r \<and> unat r \<le> length steps \<and>
          st_action (steps ! (unat r - 1)) = Revoke)"

definition chain_ok :: "verified_state \<Rightarrow> bool" where
  "chain_ok s \<longleftrightarrow>
     length (vs_steps s) \<le> max_chain_len \<and> length (vs_members s) \<le> length (vs_steps s) \<and>
     (\<forall>m \<in> set (vs_members s). member_ok (vs_steps s) m) \<and>
     distinct (map m_fingerprint (vs_members s)) \<and> distinct (map m_device_id (vs_members s)) \<and>
     distinct (map m_ed25519_pk (vs_members s)) \<and> distinct (map m_kem_public_key (vs_members s)) \<and>
     distinct (map m_added_at_version (vs_members s)) \<and>
     (\<forall>v \<in> {1..length (vs_steps s)}. auth s v \<noteq> [] \<and> length (auth s v) \<le> max_members)"

inductive member_step :: "verified_state \<Rightarrow> verified_state \<Rightarrow> bool" where
  step_genesis: "vs_steps s = [] \<Longrightarrow> vs_members s = [] \<Longrightarrow> m_added_at_version m = 1 \<Longrightarrow> m_revoked_at_version m = None \<Longrightarrow>
     member_step s (push_step ident Add (s\<lparr>vs_members := [m]\<rparr>))"
| step_add: "vs_steps s \<noteq> [] \<Longrightarrow> length (vs_steps s) < max_chain_len \<Longrightarrow>
     m_added_at_version m = word_of_nat (Suc (length (vs_steps s))) \<Longrightarrow> m_revoked_at_version m = None \<Longrightarrow>
     m_fingerprint m \<notin> set (map m_fingerprint (vs_members s)) \<Longrightarrow>
     m_device_id m \<notin> set (map m_device_id (vs_members s)) \<Longrightarrow>
     m_ed25519_pk m \<notin> set (map m_ed25519_pk (vs_members s)) \<Longrightarrow>
     m_kem_public_key m \<notin> set (map m_kem_public_key (vs_members s)) \<Longrightarrow>
     length (auth s (length (vs_steps s))) < max_members \<Longrightarrow>
     member_step s (push_step ident Add (s\<lparr>vs_members := vs_members s @ [m]\<rparr>))"
| step_revoke: "vs_steps s \<noteq> [] \<Longrightarrow> length (vs_steps s) < max_chain_len \<Longrightarrow> k < length (vs_members s) \<Longrightarrow>
     m_revoked_at_version (vs_members s ! k) = None \<Longrightarrow> 1 < length (auth s (length (vs_steps s))) \<Longrightarrow>
     member_step s (push_step ident Revoke
       (s\<lparr>vs_members := (vs_members s)[k := (vs_members s ! k)
            \<lparr>m_revoked_at_version := Some (word_of_nat (Suc (length (vs_steps s))))\<rparr>]\<rparr>))"

lemma version_unat: "v \<le> max_chain_len + 1 \<Longrightarrow> unat (word_of_nat v :: 64 word) = v"
  by (simp add: unat_of_nat max_chain_len_def)

lemma authorized_at_nat:
  "v \<le> max_chain_len + 1 \<Longrightarrow>
   authorized_at m (word_of_nat v) \<longleftrightarrow> unat (m_added_at_version m) \<le> v \<and>
     (case m_revoked_at_version m of None \<Rightarrow> True | Some r \<Rightarrow> v < unat r)"
  by (simp add: authorized_at_def word_le_nat_alt word_less_nat_alt version_unat split: option.splits)

lemma authorized_auth: "authorized s = auth s (length (vs_steps s))"
  by (simp add: authorized_def auth_def head_version_def)

lemma push_step_sel [simp]:
  "vs_steps (push_step ident a s) = vs_steps s @ [\<lparr>st_id = ident, st_action = a\<rparr>]"
  "vs_members (push_step ident a s) = vs_members s" "vs_epochs (push_step ident a s) = vs_epochs s"
  "vs_vault_id (push_step ident a s) = vs_vault_id s"
  "vs_key_commitment_s (push_step ident a s) = vs_key_commitment_s s"
  by (simp_all add: push_step_def)

lemma member_ok_append:
  "member_ok steps m \<Longrightarrow> member_ok (steps @ later) m"
  by (auto simp: member_ok_def nth_append split: option.splits)

lemma member_ok_next:
  "member_ok steps m \<Longrightarrow> length steps < max_chain_len \<Longrightarrow>
   authorized_at m (word_of_nat (Suc (length steps))) \<longleftrightarrow> authorized_at m (word_of_nat (length steps))"
  by (auto simp: authorized_at_nat member_ok_def split: option.splits)

lemma chain_ok_head:
  "chain_ok s \<Longrightarrow> vs_steps s \<noteq> [] \<Longrightarrow>
   auth s (length (vs_steps s)) \<noteq> [] \<and> length (auth s (length (vs_steps s))) \<le> max_members"
  unfolding chain_ok_def by (metis atLeastAtMost_iff length_greater_0_conv less_eq_Suc_le One_nat_def order_refl)

lemma chain_ok_empty: "chain_ok (verified_state_empty vault_id)"
  by (simp add: chain_ok_def verified_state_empty_def)

text \<open>Authorization at the versions before a step is not changed by it.\<close>

lemma auth_add:
  assumes ok: "\<forall>m \<in> set (vs_members s). member_ok (vs_steps s) m" and len: "length (vs_steps s) < max_chain_len"
    and m: "m_added_at_version m = word_of_nat (Suc (length (vs_steps s)))" "m_revoked_at_version m = None"
    and s': "vs_members s' = vs_members s @ [m]"
  shows "v \<le> length (vs_steps s) \<Longrightarrow> auth s' v = auth s v"
    and "auth s' (Suc (length (vs_steps s))) = auth s (length (vs_steps s)) @ [m]"
proof -
  show "auth s' v = auth s v" if "v \<le> length (vs_steps s)"
    using that len m by (simp add: auth_def s' authorized_at_nat version_unat)
  have "filter (\<lambda>m. authorized_at m (word_of_nat (Suc (length (vs_steps s))))) (vs_members s) =
      filter (\<lambda>m. authorized_at m (word_of_nat (length (vs_steps s)))) (vs_members s)"
    using ok len member_ok_next by (intro filter_cong refl) auto
  then show "auth s' (Suc (length (vs_steps s))) = auth s (length (vs_steps s)) @ [m]"
    using len m by (simp add: auth_def s' authorized_at_nat [of "Suc (length (vs_steps s))" m] version_unat
        del: of_nat_Suc)
qed

lemma auth_revoke:
  assumes ok: "\<forall>m \<in> set (vs_members s). member_ok (vs_steps s) m" and len: "length (vs_steps s) < max_chain_len"
    and k: "k < length (vs_members s)" "m_revoked_at_version (vs_members s ! k) = None"
    and s': "vs_members s' = (vs_members s)[k := (vs_members s ! k)
               \<lparr>m_revoked_at_version := Some (word_of_nat (Suc (length (vs_steps s))))\<rparr>]"
  shows "v \<le> length (vs_steps s) \<Longrightarrow> length (auth s' v) = length (auth s v)"
    and "Suc (length (auth s' (Suc (length (vs_steps s))))) = length (auth s (length (vs_steps s)))"
proof -
  have kok: "member_ok (vs_steps s) (vs_members s ! k)" using ok k(1) by simp
  show "length (auth s' v) = length (auth s v)" if "v \<le> length (vs_steps s)"
    unfolding auth_def s' using that len k
    by (intro filter_update_same) (simp_all add: authorized_at_nat version_unat del: of_nat_Suc)
  have "filter (\<lambda>m. authorized_at m (word_of_nat (Suc (length (vs_steps s))))) (vs_members s) =
      filter (\<lambda>m. authorized_at m (word_of_nat (length (vs_steps s)))) (vs_members s)"
    using ok len member_ok_next by (intro filter_cong refl) auto
  moreover have "Suc (length (filter (\<lambda>m. authorized_at m (word_of_nat (Suc (length (vs_steps s))))) (vs_members s'))) =
      length (filter (\<lambda>m. authorized_at m (word_of_nat (Suc (length (vs_steps s))))) (vs_members s))"
    unfolding s' using kok len k
    by (intro filter_update_drop) (simp_all add: authorized_at_nat version_unat member_ok_def del: of_nat_Suc)
  ultimately show "Suc (length (auth s' (Suc (length (vs_steps s))))) = length (auth s (length (vs_steps s)))"
    by (simp add: auth_def del: of_nat_Suc)
qed

lemma member_ok_new:
  assumes "length steps < max_chain_len" "m_added_at_version m = word_of_nat (Suc (length steps))"
    "m_revoked_at_version m = None"
  shows "member_ok (steps @ [\<lparr>st_id = ident, st_action = Add\<rparr>]) m"
  using assms by (simp add: member_ok_def version_unat del: of_nat_Suc)

lemma member_ok_revoked:
  assumes "member_ok steps m" "m_revoked_at_version m = None" "length steps < max_chain_len"
  shows "member_ok (steps @ [\<lparr>st_id = ident, st_action = Revoke\<rparr>])
           (m\<lparr>m_revoked_at_version := Some (word_of_nat (Suc (length steps)))\<rparr>)"
  using assms by (auto simp: member_ok_def version_unat nth_append simp del: of_nat_Suc)

lemma member_step_chain_ok:
  assumes "member_step s s'" "chain_ok s"
  shows "chain_ok s'"
  using assms(1)
proof cases
  case (step_genesis m ident)
  have "auth s' v = [m]" if "v = 1" for v
    using that step_genesis by (simp add: auth_def authorized_at_def of_nat_Suc)
  then show ?thesis
    using step_genesis by (auto simp: chain_ok_def member_ok_def max_chain_len_def max_members_def max_recipients_def)
next
  case (step_add m ident)
  have ok: "\<forall>m \<in> set (vs_members s). member_ok (vs_steps s) m" using assms(2) by (simp add: chain_ok_def)
  have mem: "vs_members s' = vs_members s @ [m]" and steps: "vs_steps s' = vs_steps s @ [\<lparr>st_id = ident, st_action = Add\<rparr>]"
    using step_add(1) by simp_all
  note auth = auth_add [OF ok step_add(3-5) mem]
  have fresh: "m_added_at_version m \<notin> set (map m_added_at_version (vs_members s))"
  proof
    assume "m_added_at_version m \<in> set (map m_added_at_version (vs_members s))"
    then obtain m' where m': "m' \<in> set (vs_members s)" "m_added_at_version m' = m_added_at_version m" by auto
    then have "unat (m_added_at_version m) \<le> length (vs_steps s)" using ok by (auto simp: member_ok_def)
    then show False using step_add(3,4) by (simp add: version_unat del: of_nat_Suc)
  qed
  have "auth s' v \<noteq> [] \<and> length (auth s' v) \<le> max_members" if "v \<in> {1..Suc (length (vs_steps s))}" for v
  proof (cases "v = Suc (length (vs_steps s))")
    case True
    then show ?thesis using auth(2) step_add(10) by simp
  next
    case False
    then show ?thesis using auth(1) [of v] assms(2) that by (simp add: chain_ok_def)
  qed
  moreover have "\<forall>x \<in> set (vs_members s'). member_ok (vs_steps s') x"
    using ok member_ok_append member_ok_new [OF step_add(3-5)] by (auto simp: mem steps)
  ultimately show ?thesis
    using assms(2) fresh step_add(3,6-9) by (simp add: chain_ok_def mem steps)
next
  case (step_revoke k ident)
  have ok: "\<forall>m \<in> set (vs_members s). member_ok (vs_steps s) m" using assms(2) by (simp add: chain_ok_def)
  let ?t = "(vs_members s ! k)\<lparr>m_revoked_at_version := Some (word_of_nat (Suc (length (vs_steps s))))\<rparr>"
  have mem: "vs_members s' = (vs_members s)[k := ?t]" and steps: "vs_steps s' = vs_steps s @ [\<lparr>st_id = ident, st_action = Revoke\<rparr>]"
    using step_revoke(1) by simp_all
  note auth = auth_revoke [OF ok step_revoke(3-5) mem]
  have "auth s' v \<noteq> [] \<and> length (auth s' v) \<le> max_members" if v: "v \<in> {1..Suc (length (vs_steps s))}" for v
  proof (cases "v = Suc (length (vs_steps s))")
    case True
    have "length (auth s (length (vs_steps s))) \<le> max_members"
      using chain_ok_head assms(2) step_revoke(2) by blast
    then show ?thesis using auth(2) step_revoke(6) True by (simp del: length_0_conv flip: length_greater_0_conv)
  next
    case False
    then have "auth s v \<noteq> [] \<and> length (auth s v) \<le> max_members" and "length (auth s' v) = length (auth s v)"
      using auth(1) [of v] assms(2) v by (simp_all add: chain_ok_def)
    then show ?thesis by (metis length_0_conv)
  qed
  moreover have "\<forall>x \<in> set (vs_members s'). member_ok (vs_steps s') x"
  proof
    fix x assume "x \<in> set (vs_members s')"
    then have "x = ?t \<or> x \<in> set (vs_members s)" using set_update_subset_insert unfolding mem by fastforce
    moreover have "member_ok (vs_steps s') ?t"
      unfolding steps using ok step_revoke(3-5) by (intro member_ok_revoked) simp_all
    ultimately show "member_ok (vs_steps s') x" using ok member_ok_append unfolding steps by blast
  qed
  moreover have "map f (vs_members s') = map f (vs_members s)" if "f ?t = f (vs_members s ! k)" for f :: "member \<Rightarrow> 'x"
    unfolding mem by (rule map_update_same [where f = f, OF that])
  ultimately show ?thesis
    using assms(2) step_revoke(3) by (simp add: chain_ok_def mem steps map_update_same)
qed

section \<open>The verifier refines the steps\<close>

lemma map_err_iff: "map_err f r = Inr x \<longleftrightarrow> r = Inr x"
  by (cases r) (auto simp: map_err_def)

lemma last_opt_None: "last_opt xs = None \<longleftrightarrow> xs = []"
  by (simp add: last_opt_def)

lemma last_opt_Some: "last_opt xs = Some x \<longleftrightarrow> xs \<noteq> [] \<and> x = last xs"
  by (auto simp: last_opt_def)

lemma apply_genesis_step:
  assumes "apply_genesis c s i body fp rec ident = Inr s'" "vs_steps s = []" "vs_members s = []"
  shows "member_step s s'"
  using assms step_genesis [of s "new_member body fp 1" ident]
  by (auto simp: apply_genesis_def new_member_def split: if_splits)

lemma apply_next_step:
  assumes "apply_next c s i body fp rec ident previous = Inr s'" "vs_steps s \<noteq> []"
    "length (vs_steps s) < max_chain_len"
  shows "member_step s s'"
proof -
  have version: "mb_version body = word_of_nat (Suc (length (vs_steps s)))"
    using assms(1) unfolding apply_next_eq [OF less_imp_le [OF assms(3)]] by (simp add: Let_def of_nat_Suc add.commute split: if_splits)
  obtain t where t: "(case mb_action body of Add \<Rightarrow> apply_add c s i body fp | Revoke \<Rightarrow> apply_revoke s i body fp) = Inr t"
    and s': "s' = push_step ident (mb_action body) t"
    using assms(1) unfolding apply_next_eq [OF less_imp_le [OF assms(3)]]
    by (auto simp: Let_def res_bind_Inr_iff split: if_splits option.splits)
  show ?thesis
  proof (cases "mb_action body")
    case Add
    then show ?thesis
      using t s' assms(2,3) version step_add [of s "new_member body fp (mb_version body)" ident]
      by (force simp: apply_add_def new_member_def list_ex_iff authorized_auth split: if_splits)
  next
    case Revoke
    then obtain k where k: "position (\<lambda>m. m_fingerprint m = fp) (vs_members s) = Some k"
      and r: "m_revoked_at_version (vs_members s ! k) = None" "1 < length (authorized s)"
      and t': "t = s\<lparr>vs_members := (vs_members s)[k := (vs_members s ! k)\<lparr>m_revoked_at_version := Some (mb_version body)\<rparr>]\<rparr>"
      using t by (auto simp: apply_revoke_def Let_def split: option.splits if_splits)
    show ?thesis
      using step_revoke [of s k ident] position_Some [OF k] r t' s' Revoke assms(2,3) version
      by (simp add: authorized_auth)
  qed
qed

lemma apply_membership_Inr:
  assumes "apply_membership sha256 c s i bs = Inr s'"
  obtains (repeated) "s' = s"
  | (genesis) rec body fp where "vs_steps s = []"
      "apply_genesis c s i body fp rec (signed_record_id sha256 rec) = Inr s'"
  | (successor) rec body fp where "vs_steps s \<noteq> []" "length (vs_steps s) < max_chain_len"
      "apply_next c s i body fp rec (signed_record_id sha256 rec) (last (vs_steps s)) = Inr s'"
proof (cases "vs_steps s = []")
  case True
  with assms genesis show thesis
    by (auto simp: apply_membership_eq Let_def res_bind_Inr_iff last_opt_def split: if_splits)
next
  case False
  with assms repeated successor show thesis
    by (auto simp: apply_membership_eq Let_def res_bind_Inr_iff last_opt_def not_le split: if_splits)
qed

lemma apply_membership_refines:
  assumes "apply_membership sha256 c s i bs = Inr s'" "chain_ok s"
  shows "s' = s \<or> member_step s s'"
  using assms(1)
proof (cases rule: apply_membership_Inr)
  case genesis
  moreover have "vs_members s = []" using genesis(1) assms(2) by (simp add: chain_ok_def)
  ultimately show ?thesis by (blast intro: apply_genesis_step)
qed (blast intro: apply_next_step)+

inductive member_steps :: "verified_state \<Rightarrow> verified_state \<Rightarrow> bool" where
  msteps_refl: "member_steps s s"
| msteps_step: "member_step s t \<Longrightarrow> member_steps t u \<Longrightarrow> member_steps s u"

lemma member_steps_chain_ok: "member_steps s s' \<Longrightarrow> chain_ok s \<Longrightarrow> chain_ok s'"
  by (induction rule: member_steps.induct) (auto intro: member_step_chain_ok)

lemma apply_memberships_refines:
  "apply_memberships sha256 c i bs s = Inr s' \<Longrightarrow> chain_ok s \<Longrightarrow> member_steps s s'"
proof (induction bs arbitrary: s i)
  case (Cons b bs)
  from Cons.prems(1) obtain t where t: "apply_membership sha256 c s i b = Inr t"
    and rest: "apply_memberships sha256 c (Suc i) bs t = Inr s'" by (auto simp: res_bind_Inr_iff)
  from apply_membership_refines [OF t Cons.prems(2)] have "t = s \<or> member_step s t" .
  then show ?case
    using Cons.IH [OF rest] Cons.prems(2) member_step_chain_ok by (auto intro: msteps_step)
qed (auto intro: msteps_refl)

section \<open>Epoch records\<close>

definition epoch_follows :: "step_ref list \<Rightarrow> epoch_ref \<Rightarrow> epoch_ref \<Rightarrow> bool" where
  "epoch_follows steps e f \<longleftrightarrow>
     er_prev_epoch_id f = Some (er_id e) \<and>
     (case er_reason f of
        Genesis \<Rightarrow> False
      | Cutover \<Rightarrow> er_head_index f = Suc (er_head_index e) \<and> st_action (steps ! er_head_index f) = Revoke \<and>
          er_key_epoch f = er_key_epoch e + 1
      | Grant \<Rightarrow> er_head_index f = Suc (er_head_index e) \<and> st_action (steps ! er_head_index f) = Add \<and>
          er_key_epoch f = er_key_epoch e
      | Rotation \<Rightarrow> er_head_index f = er_head_index e \<and> er_key_epoch f = er_key_epoch e + 1)"

definition epochs_ok :: "verified_state \<Rightarrow> bool" where
  "epochs_ok s \<longleftrightarrow>
     length (vs_epochs s) \<le> max_chain_len \<and> (\<forall>e \<in> set (vs_epochs s). er_head_index e < length (vs_steps s)) \<and>
     ((vs_key_commitment_s s \<noteq> None) = (vs_epochs s \<noteq> [])) \<and>
     (\<forall>e. vs_epochs s \<noteq> [] \<longrightarrow> hd (vs_epochs s) = e \<longrightarrow>
        er_reason e = Genesis \<and> er_head_index e = 0 \<and> er_key_epoch e = 1 \<and> er_prev_epoch_id e = None) \<and>
     successively (epoch_follows (vs_steps s)) (vs_epochs s) \<and>
     (\<forall>e \<in> set (vs_epochs s). \<forall>f \<in> set (vs_epochs s).
        er_key_commitment_ke e = er_key_commitment_ke f \<longleftrightarrow> er_key_epoch e = er_key_epoch f)"

text \<open>A new epoch record, and to whom its key is sealed.\<close>

inductive epoch_step :: "dalek \<Rightarrow> verified_state \<Rightarrow> epoch_body \<Rightarrow> verified_state \<Rightarrow> bool" where
  step_epoch: "length (vs_epochs s) < max_chain_len \<Longrightarrow> er_head_index e < length (vs_steps s) \<Longrightarrow>
     er_key_epoch e = eb_key_epoch body \<Longrightarrow> er_reason e = eb_reason body \<Longrightarrow>
     st_id (vs_steps s ! er_head_index e) = eb_membership_head body \<Longrightarrow>
     authorized_member s (eb_sealer_fingerprint body) (word_of_nat (Suc (er_head_index e))) = Some sealer \<Longrightarrow>
     ed25519_verify_strict c (m_ed25519_pk sealer) message signature \<Longrightarrow>
     (if vs_epochs s = [] then er_reason e = Genesis \<and> er_head_index e = 0 \<and> er_key_epoch e = 1 \<and> er_prev_epoch_id e = None
      else epoch_follows (vs_steps s) (last (vs_epochs s)) e \<and>
        (if er_reason e = Grant then er_key_commitment_ke e = er_key_commitment_ke (last (vs_epochs s))
         else er_key_commitment_ke e \<notin> set (map er_key_commitment_ke (vs_epochs s))) \<and>
        key = vs_key_commitment_s s) \<Longrightarrow>
     key \<noteq> None \<Longrightarrow>
     list_recipients (expected_recipients s (er_reason e) (word_of_nat (Suc (er_head_index e)))) i [] (eb_recipients body) = Inr listed \<Longrightarrow>
     length listed = length (expected_recipients s (er_reason e) (word_of_nat (Suc (er_head_index e)))) \<Longrightarrow>
     epoch_step c s body (s\<lparr>vs_key_commitment_s := key, vs_epochs := vs_epochs s @ [e]\<rparr>)"

lemma ok_or_Inr_iff: "ok_or v e = Inr x \<longleftrightarrow> v = Some x"
  by (cases v) auto

lemma epoch_successor_Inr:
  assumes "epoch_successor s i body head_index previous = Inr u"
  shows "eb_prev_epoch_id body = Some (er_id previous)" "vs_key_commitment_s s = Some (eb_key_commitment_s body)"
    and "case eb_reason body of
       Genesis \<Rightarrow> False
     | Cutover \<Rightarrow> head_index = Suc (er_head_index previous) \<and> st_action (vs_steps s ! head_index) = Revoke \<and>
         eb_key_epoch body = er_key_epoch previous + 1 \<and>
         eb_key_commitment_ke body \<notin> set (map er_key_commitment_ke (vs_epochs s))
     | Grant \<Rightarrow> head_index = Suc (er_head_index previous) \<and> st_action (vs_steps s ! head_index) = Add \<and>
         eb_key_epoch body = er_key_epoch previous \<and> eb_key_commitment_ke body = er_key_commitment_ke previous
     | Rotation \<Rightarrow> head_index = er_head_index previous \<and> eb_key_epoch body = er_key_epoch previous + 1 \<and>
         eb_key_commitment_ke body \<notin> set (map er_key_commitment_ke (vs_epochs s))"
  using assms
  by (auto simp: epoch_successor_def Let_def res_bind_Inr_iff checked_Inr list_ex_iff split: if_splits reason.splits)

lemma apply_new_epoch_step:
  assumes "apply_new_epoch c s i body rec ident = Inr s'" "length (vs_epochs s) < max_chain_len"
    "vs_epochs s = [] \<or> vs_key_commitment_s s \<noteq> None"
  shows "epoch_step c s body s'"
proof -
  obtain head_index sealer key listed where
    head: "position (\<lambda>st. st_id st = eb_membership_head body) (vs_steps s) = Some head_index"
    and sealer: "authorized_member s (eb_sealer_fingerprint body) (word_of_nat (Suc head_index)) = Some sealer"
    and sig: "ed25519_verify_strict c (m_ed25519_pk sealer) (sr_body rec) (sr_signature rec)"
    and seq: "epoch_sequence s i body head_index = Inr key"
    and listed: "list_recipients (expected_recipients s (eb_reason body) (word_of_nat (Suc head_index))) i [] (eb_recipients body) = Inr listed"
      "length listed = length (expected_recipients s (eb_reason body) (word_of_nat (Suc head_index)))"
    and s': "s' = s\<lparr>vs_key_commitment_s := key, vs_epochs := vs_epochs s @
                             [\<lparr>er_id = ident, er_prev_epoch_id = eb_prev_epoch_id body,
                               er_key_epoch = eb_key_epoch body, er_reason = eb_reason body,
                               er_head_index = head_index, er_key_commitment_ke = eb_key_commitment_ke body\<rparr>]\<rparr>"
    using assms(1)
    by (auto simp: apply_new_epoch_def Let_def res_bind_Inr_iff ok_or_Inr_iff checked_Inr split: if_splits)
  let ?e = "\<lparr>er_id = ident, er_prev_epoch_id = eb_prev_epoch_id body,
     er_key_epoch = eb_key_epoch body, er_reason = eb_reason body,
     er_head_index = head_index, er_key_commitment_ke = eb_key_commitment_ke body\<rparr>"
  have rule: "if vs_epochs s = [] then er_reason ?e = Genesis \<and> er_head_index ?e = 0 \<and> er_key_epoch ?e = 1 \<and> er_prev_epoch_id ?e = None
      else epoch_follows (vs_steps s) (last (vs_epochs s)) ?e \<and>
        (if er_reason ?e = Grant then er_key_commitment_ke ?e = er_key_commitment_ke (last (vs_epochs s))
         else er_key_commitment_ke ?e \<notin> set (map er_key_commitment_ke (vs_epochs s))) \<and>
        key = vs_key_commitment_s s"
  proof (cases "vs_epochs s = []")
    case True
    then show ?thesis using seq by (simp add: epoch_sequence_def last_opt_def split: if_splits)
  next
    case False
    then obtain u where succ: "epoch_successor s i body head_index (last (vs_epochs s)) = Inr u"
      and key: "key = vs_key_commitment_s s"
      using seq by (auto simp: epoch_sequence_def last_opt_def res_bind_Inr_iff split: if_splits)
    show ?thesis
      using epoch_successor_Inr [OF succ] False key by (auto simp: epoch_follows_def split: reason.splits)
  qed
  have key: "key \<noteq> None"
    using seq assms(3)
    by (auto simp: epoch_sequence_def last_opt_def res_bind_Inr_iff split: if_splits)
  show ?thesis
    unfolding s'
    by (rule step_epoch [where e = ?e and sealer = sealer and message = "sr_body rec" and signature = "sr_signature rec"
          and i = i and listed = listed, OF assms(2)])
      (use position_Some [OF head] sealer sig rule key listed in simp_all)
qed

lemma apply_epoch_Inr:
  assumes "apply_epoch sha256 c s i bs = Inr s'"
  obtains (repeated) "s' = s"
  | (new) rec body where "signed_record_parse bs max_epoch_body = Inr rec" "epoch_body_decode (sr_body rec) = Inr body"
      "length (vs_epochs s) < max_chain_len"
      "apply_new_epoch c s i body rec (signed_record_id sha256 rec) = Inr s'"
  using assms
  by (auto simp: apply_epoch_def Let_def res_bind_Inr_iff map_err_iff not_le split: if_splits option.splits)

lemma apply_epoch_refines:
  assumes "apply_epoch sha256 c s i bs = Inr s'" "epochs_ok s"
  shows "s' = s \<or> (\<exists>body. epoch_step c s body s')"
  using assms(1)
proof (cases rule: apply_epoch_Inr)
  case (new rec body)
  have "vs_epochs s = [] \<or> vs_key_commitment_s s \<noteq> None" using assms(2) by (auto simp: epochs_ok_def)
  then show ?thesis using apply_new_epoch_step [OF new(4,3)] by blast
qed simp

text \<open>Key epochs count up by at most one from record to record, so they do not wrap.\<close>

lemma epoch_follows_key:
  assumes "epoch_follows steps e f" "unat (er_key_epoch e) \<le> max_chain_len"
  shows "unat (er_key_epoch e) \<le> unat (er_key_epoch f)" "unat (er_key_epoch f) \<le> Suc (unat (er_key_epoch e))"
    and "er_head_index e \<le> er_head_index f"
proof -
  have "unat (er_key_epoch e + 1) = Suc (unat (er_key_epoch e))"
    using assms(2) by (simp add: unat_word_ariths max_chain_len_def)
  then show "unat (er_key_epoch e) \<le> unat (er_key_epoch f)" "unat (er_key_epoch f) \<le> Suc (unat (er_key_epoch e))"
    and "er_head_index e \<le> er_head_index f"
    using assms(1) by (auto simp: epoch_follows_def split: reason.splits)
qed

lemma successively_nth: "successively P xs \<Longrightarrow> Suc i < length xs \<Longrightarrow> P (xs ! i) (xs ! Suc i)"
proof (induction xs arbitrary: i)
  case (Cons x xs)
  then show ?case by (cases i) (auto simp: successively_Cons hd_conv_nth)
qed simp

lemma epochs_ok_follows:
  assumes "epochs_ok s" "Suc i < length (vs_epochs s)"
  shows "epoch_follows (vs_steps s) (vs_epochs s ! i) (vs_epochs s ! Suc i)"
  by (rule successively_nth [of "epoch_follows (vs_steps s)"]) (use assms in \<open>simp_all add: epochs_ok_def\<close>)

lemma epoch_first:
  "epochs_ok s \<Longrightarrow> vs_epochs s \<noteq> [] \<Longrightarrow>
   er_key_epoch (vs_epochs s ! 0) = 1 \<and> er_head_index (vs_epochs s ! 0) = 0 \<and>
   er_prev_epoch_id (vs_epochs s ! 0) = None"
  by (simp add: epochs_ok_def hd_conv_nth)

lemma epoch_key_bound:
  "epochs_ok s \<Longrightarrow> i < length (vs_epochs s) \<Longrightarrow> unat (er_key_epoch (vs_epochs s ! i)) \<le> Suc i"
proof (induction i)
  case 0
  then show ?case using epoch_first [of s] by auto
next
  case (Suc i)
  then have "epoch_follows (vs_steps s) (vs_epochs s ! i) (vs_epochs s ! Suc i)"
    by (intro epochs_ok_follows) simp_all
  moreover have "unat (er_key_epoch (vs_epochs s ! i)) \<le> max_chain_len"
    using Suc by (simp add: epochs_ok_def)
  ultimately show ?case using epoch_follows_key(2) Suc by fastforce
qed

lemma epoch_key_small:
  assumes "epochs_ok s" "e \<in> set (vs_epochs s)"
  shows "unat (er_key_epoch e) \<le> max_chain_len"
proof -
  obtain i where "i < length (vs_epochs s)" "e = vs_epochs s ! i" using assms(2) by (metis in_set_conv_nth)
  then show ?thesis using epoch_key_bound [OF assms(1), of i] assms(1) by (simp add: epochs_ok_def)
qed

lemma epoch_mono:
  assumes "epochs_ok s" "j < length (vs_epochs s)"
  shows "i \<le> j \<Longrightarrow> unat (er_key_epoch (vs_epochs s ! i)) \<le> unat (er_key_epoch (vs_epochs s ! j)) \<and>
    er_head_index (vs_epochs s ! i) \<le> er_head_index (vs_epochs s ! j)"
  using assms(2)
proof (induction j)
  case (Suc j)
  show ?case
  proof (cases "i = Suc j")
    case False
    have "epoch_follows (vs_steps s) (vs_epochs s ! j) (vs_epochs s ! Suc j)"
      using Suc.prems assms(1) by (intro epochs_ok_follows) simp_all
    then show ?thesis
      using epoch_follows_key epoch_key_small [OF assms(1), of "vs_epochs s ! j"] Suc False by fastforce
  qed simp
qed simp

lemma epoch_last_key:
  assumes "epochs_ok s" "e \<in> set (vs_epochs s)"
  shows "unat (er_key_epoch e) \<le> unat (er_key_epoch (last (vs_epochs s)))"
proof -
  obtain i where i: "i < length (vs_epochs s)" "e = vs_epochs s ! i" using assms(2) by (metis in_set_conv_nth)
  then have "last (vs_epochs s) = vs_epochs s ! (length (vs_epochs s) - 1)" by (intro last_conv_nth) auto
  then show ?thesis using epoch_mono [OF assms(1), of "length (vs_epochs s) - 1" i] i by auto
qed

lemma epoch_step_epochs_ok:
  assumes "epoch_step c s body s'" "epochs_ok s"
  shows "epochs_ok s'"
  using assms(1)
proof cases
  case (step_epoch e sealer message signature key i listed)
  show ?thesis
  proof (cases "vs_epochs s = []")
    case True
    then show ?thesis using step_epoch assms(2) by (auto simp: epochs_ok_def)
  next
    case False
    let ?l = "last (vs_epochs s)"
    have l: "?l \<in> set (vs_epochs s)" using False by simp
    have follows: "epoch_follows (vs_steps s) ?l e"
      and fresh: "if er_reason e = Grant then er_key_commitment_ke e = er_key_commitment_ke ?l
         else er_key_commitment_ke e \<notin> set (map er_key_commitment_ke (vs_epochs s))"
      using step_epoch(9) unfolding if_not_P [OF False] by blast+
    have keys: "er_key_commitment_ke e = er_key_commitment_ke f \<longleftrightarrow> er_key_epoch e = er_key_epoch f"
      if f: "f \<in> set (vs_epochs s)" for f
    proof (cases "er_reason e = Grant")
      case True
      have "er_key_epoch e = er_key_epoch ?l" using follows True by (simp add: epoch_follows_def)
      moreover have "er_key_commitment_ke ?l = er_key_commitment_ke f \<longleftrightarrow> er_key_epoch ?l = er_key_epoch f"
        using assms(2) l f unfolding epochs_ok_def by blast
      ultimately show ?thesis using fresh True by simp
    next
      case False
      then have "er_key_epoch e = er_key_epoch ?l + 1"
        using follows by (auto simp: epoch_follows_def split: reason.splits)
      then have "unat (er_key_epoch e) = Suc (unat (er_key_epoch ?l))"
        using epoch_key_small [OF assms(2) l] by (simp add: unat_word_ariths max_chain_len_def)
      then have "er_key_epoch e \<noteq> er_key_epoch f" using epoch_last_key [OF assms(2) f] by auto
      moreover have "er_key_commitment_ke e \<noteq> er_key_commitment_ke f" using fresh False f by auto
      ultimately show ?thesis by simp
    qed
    then have sym: "\<forall>f \<in> set (vs_epochs s). (er_key_commitment_ke f = er_key_commitment_ke e \<longleftrightarrow> er_key_epoch f = er_key_epoch e)"
      by metis
    show ?thesis
      using step_epoch assms(2) False follows keys sym by (auto simp: epochs_ok_def successively_append_iff)
  qed
qed

lemma member_step_grows:
  "member_step s s' \<Longrightarrow> (\<exists>st. vs_steps s' = vs_steps s @ [st]) \<and> vs_epochs s' = vs_epochs s \<and>
     vs_key_commitment_s s' = vs_key_commitment_s s \<and> vs_vault_id s' = vs_vault_id s"
  by (induction rule: member_step.induct) auto

lemma member_step_epochs_ok:
  assumes "member_step s s'" "epochs_ok s"
  shows "epochs_ok s'"
proof -
  obtain st where st: "vs_steps s' = vs_steps s @ [st]" "vs_epochs s' = vs_epochs s"
      "vs_key_commitment_s s' = vs_key_commitment_s s"
    using member_step_grows [OF assms(1)] by blast
  have heads: "\<forall>e \<in> set (vs_epochs s). er_head_index e < length (vs_steps s)"
    and succ: "successively (epoch_follows (vs_steps s)) (vs_epochs s)"
    using assms(2) by (simp_all add: epochs_ok_def)
  have "successively (epoch_follows (vs_steps s @ [st])) (vs_epochs s)"
    by (rule successively_mono [OF succ]) (use heads in \<open>auto simp: epoch_follows_def nth_append split: reason.splits\<close>)
  then show ?thesis using assms(2) st heads by (auto simp: epochs_ok_def)
qed

lemma epoch_step_grows:
  "epoch_step c s body s' \<Longrightarrow> vs_steps s' = vs_steps s \<and> vs_members s' = vs_members s \<and>
     vs_vault_id s' = vs_vault_id s \<and> (\<exists>e. vs_epochs s' = vs_epochs s @ [e])"
  by (induction rule: epoch_step.induct) auto

lemma epoch_step_chain_ok: "epoch_step c s body s' \<Longrightarrow> chain_ok s \<Longrightarrow> chain_ok s'"
  using epoch_step_grows [of c s body s'] by (simp add: chain_ok_def auth_def)

end
