(* ===== verification/Membership_Theorems.thy ===== *)
theory Membership_Theorems
  imports Membership_Guarantees "HOL-Library.Sublist"
begin

text \<open>
  The theorems on the membership chain, over every state that records accepted in any order lead to
  (\<open>verified\<close>), and a founded chain as the concrete state on which they are applied.
\<close>

declare of_nat_Suc [simp del]

inductive verified :: "hash \<Rightarrow> dalek \<Rightarrow> 128 word \<Rightarrow> verified_state \<Rightarrow> bool" for sha256 c vault_id where
  verified_empty: "verified sha256 c vault_id (verified_state_empty vault_id)"
| verified_membership: "verified sha256 c vault_id s \<Longrightarrow> apply_membership sha256 c s i bs = Inr s' \<Longrightarrow>
     verified sha256 c vault_id s'"
| verified_epoch: "verified sha256 c vault_id s \<Longrightarrow> apply_epoch sha256 c s i bs = Inr s' \<Longrightarrow>
     verified sha256 c vault_id s'"

lemma verified_ok: "verified sha256 c vault_id s \<Longrightarrow> chain_ok s \<and> epochs_ok s"
proof (induction rule: verified.induct)
  case verified_empty
  then show ?case using chain_ok_empty by (simp add: epochs_ok_def verified_state_empty_def)
next
  case (verified_membership s i bs s')
  then show ?case
    using apply_membership_refines [OF verified_membership.hyps(2)] member_step_chain_ok member_step_epochs_ok by blast
next
  case (verified_epoch s i bs s')
  then show ?case
    using apply_epoch_refines [OF verified_epoch.hyps(2)] epoch_step_chain_ok epoch_step_epochs_ok by blast
qed

lemma verified_memberships:
  "verified sha256 c vault_id s \<Longrightarrow> apply_memberships sha256 c i bs s = Inr s' \<Longrightarrow> verified sha256 c vault_id s'"
  by (induction bs arbitrary: s i) (auto simp: res_bind_Inr_iff intro: verified_membership)

lemma verified_epochs:
  "verified sha256 c vault_id s \<Longrightarrow> apply_epochs sha256 c i bs s = Inr s' \<Longrightarrow> verified sha256 c vault_id s'"
  by (induction bs arbitrary: s i) (auto simp: res_bind_Inr_iff intro: verified_epoch)

lemma coupled_Inr: "coupled s = Inr s' \<Longrightarrow> s' = s \<and> (vs_steps s = [] \<or>
    vs_epochs s \<noteq> [] \<and> length (vs_steps s) \<le> Suc (er_head_index (last (vs_epochs s))))"
  by (auto simp: coupled_def last_opt_def res_bind_Inr_iff checked_Inr split: if_splits)

lemma extend_Inr:
  assumes "extend sha256 c s ms es = Inr s'"
  obtains t where "apply_memberships sha256 c 0 ms s = Inr t" "apply_epochs sha256 c 0 es t = Inr s'"
    "vs_steps s' = [] \<or> vs_epochs s' \<noteq> [] \<and> length (vs_steps s') \<le> Suc (er_head_index (last (vs_epochs s')))"
  using assms coupled_Inr by (fastforce simp: extend_def res_bind_Inr_iff)

lemma verified_extend:
  assumes "verified sha256 c vault_id s" "extend sha256 c s ms es = Inr s'"
  shows "verified sha256 c vault_id s'"
  using assms(2) by (rule extend_Inr) (use assms(1) verified_memberships verified_epochs in blast)

section \<open>What was verified does not change\<close>

definition keys_of :: "member \<Rightarrow> 128 word \<times> fingerprint \<times> 256 word \<times> 256 word" where
  "keys_of m = (m_device_id m, m_fingerprint m, m_ed25519_pk m, m_kem_public_key m)"

definition signer_at :: "verified_state \<Rightarrow> fingerprint \<Rightarrow> nat \<Rightarrow> (128 word \<times> fingerprint \<times> 256 word \<times> 256 word) option" where
  "signer_at s fp v = map_option keys_of (authorized_member_by_fingerprint_at_version s fp (word_of_nat v))"

definition extends :: "verified_state \<Rightarrow> verified_state \<Rightarrow> bool" where
  "extends s s' \<longleftrightarrow>
     prefix (vs_steps s) (vs_steps s') \<and> prefix (vs_epochs s) (vs_epochs s') \<and> vs_vault_id s' = vs_vault_id s \<and>
     (\<forall>v \<in> {1..length (vs_steps s)}. \<forall>fp. signer_at s' fp v = signer_at s fp v)"

lemma extends_refl: "extends s s"
  by (simp add: extends_def)

lemma extends_trans:
  assumes "extends s t" "extends t u"
  shows "extends s u"
proof -
  have "length (vs_steps s) \<le> length (vs_steps t)" using assms(1) by (auto simp: extends_def dest: prefix_length_le)
  then show ?thesis using assms unfolding extends_def by (auto intro: prefix_order.trans)
qed

lemma member_step_extends:
  assumes "member_step s s'" "chain_ok s"
  shows "extends s s'"
proof -
  have "signer_at s' fp v = signer_at s fp v" if v: "v \<in> {1..length (vs_steps s)}" for v fp
    using assms(1)
  proof cases
    case (step_genesis m ident)
    with v show ?thesis by simp
  next
    case (step_add m ident)
    have "\<not> authorized_at m (word_of_nat v)"
      using step_add(3-5) v by (simp add: authorized_at_nat version_unat)
    then show ?thesis
      using step_add(1) by (simp add: signer_at_def authorized_member_by_fingerprint_at_version_def authorized_member_def
          find_append split: option.splits)
  next
    case (step_revoke k ident)
    show ?thesis
      using step_revoke v
      by (simp add: signer_at_def authorized_member_by_fingerprint_at_version_def authorized_member_def)
        (intro find_update; simp add: authorized_at_nat version_unat keys_of_def)
  qed
  then show ?thesis using member_step_grows [OF assms(1)] by (auto simp: extends_def)
qed

lemma apply_membership_extends:
  "apply_membership sha256 c s i bs = Inr s' \<Longrightarrow> chain_ok s \<Longrightarrow> extends s s'"
  using apply_membership_refines member_step_extends extends_refl by blast

lemma epoch_step_extends: "epoch_step c s body s' \<Longrightarrow> extends s s'"
  using epoch_step_grows [of c s body s']
  by (auto simp: extends_def signer_at_def authorized_member_by_fingerprint_at_version_def authorized_member_def)

lemma apply_epoch_extends:
  "apply_epoch sha256 c s i bs = Inr s' \<Longrightarrow> epochs_ok s \<Longrightarrow> extends s s'"
  using apply_epoch_refines epoch_step_extends extends_refl by blast

lemma apply_memberships_extends:
  "verified sha256 c vault_id s \<Longrightarrow> apply_memberships sha256 c i bs s = Inr s' \<Longrightarrow> extends s s'"
proof (induction bs arbitrary: s i)
  case (Cons b bs)
  then obtain t where t: "apply_membership sha256 c s i b = Inr t" "apply_memberships sha256 c (Suc i) bs t = Inr s'"
    by (auto simp: res_bind_Inr_iff)
  then show ?case
    using Cons.IH [of t] verified_membership [OF Cons.prems(1)] apply_membership_extends verified_ok [OF Cons.prems(1)]
      extends_trans by blast
qed (simp add: extends_refl)

lemma apply_epochs_extends:
  "verified sha256 c vault_id s \<Longrightarrow> apply_epochs sha256 c i bs s = Inr s' \<Longrightarrow> extends s s'"
proof (induction bs arbitrary: s i)
  case (Cons b bs)
  then obtain t where t: "apply_epoch sha256 c s i b = Inr t" "apply_epochs sha256 c (Suc i) bs t = Inr s'"
    by (auto simp: res_bind_Inr_iff)
  then show ?case
    using Cons.IH [of t] verified_epoch [OF Cons.prems(1)] apply_epoch_extends verified_ok [OF Cons.prems(1)]
      extends_trans by blast
qed (simp add: extends_refl)


lemma extend_extends:
  assumes "verified sha256 c vault_id s" "extend sha256 c s ms es = Inr s'"
  shows "extends s s'"
  using assms(2)
proof (rule extend_Inr)
  fix t assume t: "apply_memberships sha256 c 0 ms s = Inr t" "apply_epochs sha256 c 0 es t = Inr s'"
  show "extends s s'"
    using apply_memberships_extends [OF assms(1) t(1)]
      apply_epochs_extends [OF verified_memberships [OF assms(1) t(1)] t(2)] extends_trans by blast
qed

section \<open>To whom an epoch key is sealed\<close>

definition rc_key :: "recipient \<Rightarrow> 128 word \<times> fingerprint" where
  "rc_key r = (rc_device_id r, rc_fingerprint r)"

definition m_key :: "member \<Rightarrow> 128 word \<times> fingerprint" where
  "m_key m = (m_device_id m, m_fingerprint m)"

lemma list_recipients_Inr:
  "list_recipients expected i listed rs = Inr listed' \<Longrightarrow> distinct listed \<Longrightarrow>
     set (map rc_key rs) \<subseteq> set (map m_key expected) \<and> listed' = rev (map rc_fingerprint rs) @ listed \<and>
     distinct listed'"
proof (induction rs arbitrary: listed)
  case (Cons r rs)
  then have rest: "list_recipients expected i (rc_fingerprint r # listed) rs = Inr listed'"
    and fresh: "rc_fingerprint r \<notin> set listed"
    and known: "list_ex (\<lambda>m. m_device_id m = rc_device_id r \<and> m_fingerprint m = rc_fingerprint r) expected"
    by (auto simp: Let_def split: if_splits)
  have "rc_key r \<in> set (map m_key expected)"
    using known by (force simp: list_ex_iff rc_key_def m_key_def)
  moreover have "set (map rc_key rs) \<subseteq> set (map m_key expected)"
    "listed' = rev (map rc_fingerprint rs) @ rc_fingerprint r # listed" "distinct listed'"
    using Cons.IH [OF rest _] fresh Cons.prems(2) unfolding distinct.simps by blast+
  ultimately show ?case by simp
qed simp

lemma subset_same_length:
  assumes "set xs \<subseteq> set ys" "distinct xs" "length xs = length ys"
  shows "set xs = set ys"
  using assms card_seteq [of "set ys" "set xs"] distinct_card [of xs] card_length [of ys] by simp

lemma recipients_exact:
  assumes "list_recipients expected i [] rs = Inr listed" "length listed = length expected"
  shows "set (map rc_key rs) = set (map m_key expected) \<and> distinct (map rc_fingerprint rs)"
proof -
  note l = list_recipients_Inr [OF assms(1)]
  have "distinct (rev (map rc_fingerprint rs))" using l by (metis append_Nil2 distinct.simps(1))
  then have d: "distinct (map rc_fingerprint rs)" by simp
  then have "distinct (map snd (map rc_key rs))" by (simp add: rc_key_def comp_def)
  then have "distinct (map rc_key rs)" unfolding distinct_map by blast
  moreover have "length rs = length expected" using l assms(2) by simp
  ultimately have "set (map rc_key rs) = set (map m_key expected)"
    using l by (intro subset_same_length) auto
  then show ?thesis using d by blast
qed

lemma authorized_memberD:
  "authorized_member s fp version = Some m \<Longrightarrow>
     m \<in> set (vs_members s) \<and> m_fingerprint m = fp \<and> authorized_at m version"
  by (auto simp: authorized_member_def dest: find_Some)

lemma epoch_sequence_grant:
  "epoch_sequence s i body h = Inr key \<Longrightarrow> eb_reason body = Grant \<Longrightarrow> st_action (vs_steps s ! h) = Add"
  by (auto simp: epoch_sequence_def res_bind_Inr_iff split: option.splits dest!: epoch_successor_Inr(3))

lemma new_epoch_record:
  assumes "apply_epoch sha256 c s i bs = Inr s'" "s' \<noteq> s"
  obtains rec body e sealer where
    "signed_record_parse bs max_epoch_body = Inr rec" "epoch_body_decode (sr_body rec) = Inr body"
    "vs_epochs s' = vs_epochs s @ [e]" "vs_members s' = vs_members s"
    "st_id (vs_steps s ! er_head_index e) = eb_membership_head body" "er_head_index e < length (vs_steps s)"
    "er_key_epoch e = eb_key_epoch body" "er_reason e = eb_reason body" "er_id e = signed_record_id sha256 rec"
    "authorized_member s (eb_sealer_fingerprint body) (word_of_nat (Suc (er_head_index e))) = Some sealer"
    "ed25519_verify_strict c (m_ed25519_pk sealer) (sr_body rec) (sr_signature rec)"
    "set (map rc_key (eb_recipients body)) =
       m_key ` set (expected_recipients s (er_reason e) (word_of_nat (Suc (er_head_index e))))"
    "distinct (map rc_fingerprint (eb_recipients body))"
    "eb_reason body = Grant \<Longrightarrow> st_action (vs_steps s ! er_head_index e) = Add"
  using assms(1)
proof (cases rule: apply_epoch_Inr)
  case (new rec body)
  let ?ident = "signed_record_id sha256 rec"
  obtain head_index sealer key listed where
    head: "position (\<lambda>st. st_id st = eb_membership_head body) (vs_steps s) = Some head_index"
    and sealer: "authorized_member s (eb_sealer_fingerprint body) (word_of_nat (Suc head_index)) = Some sealer"
    and sig: "ed25519_verify_strict c (m_ed25519_pk sealer) (sr_body rec) (sr_signature rec)"
    and seq: "epoch_sequence s i body head_index = Inr key"
    and listed: "list_recipients (expected_recipients s (eb_reason body) (word_of_nat (Suc head_index))) i [] (eb_recipients body) = Inr listed"
      "length listed = length (expected_recipients s (eb_reason body) (word_of_nat (Suc head_index)))"
    and s': "s' = s\<lparr>vs_key_commitment_s := key, vs_epochs := vs_epochs s @
                             [\<lparr>er_id = ?ident, er_prev_epoch_id = eb_prev_epoch_id body,
                               er_key_epoch = eb_key_epoch body, er_reason = eb_reason body,
                               er_head_index = head_index, er_key_commitment_ke = eb_key_commitment_ke body\<rparr>]\<rparr>"
    using new(4)
    by (auto simp: apply_new_epoch_def Let_def res_bind_Inr_iff ok_or_Inr_iff checked_Inr split: if_splits)
  show thesis
    by (rule that [OF new(1,2), of "\<lparr>er_id = ?ident, er_prev_epoch_id = eb_prev_epoch_id body,
        er_key_epoch = eb_key_epoch body, er_reason = eb_reason body,
        er_head_index = head_index, er_key_commitment_ke = eb_key_commitment_ke body\<rparr>" sealer])
      (use s' sealer sig position_Some [OF head] recipients_exact [OF listed]
        epoch_sequence_grant [OF seq] in simp_all)
qed (use assms(2) in simp)

text \<open>Where an epoch record names the newest version of the chain, "authorized" is "authorized now".\<close>

lemma grant_recipients:
  assumes "chain_ok s" "h < length (vs_steps s)" "m \<in> set (expected_recipients s Grant (word_of_nat (Suc h)))"
  shows "expected_recipients s Grant (word_of_nat (Suc h)) = [m] \<and> authorized_at m (word_of_nat (Suc h))"
proof -
  let ?v = "word_of_nat (Suc h) :: 64 word"
  have v: "unat ?v = Suc h" using assms(1,2) by (intro version_unat) (simp add: chain_ok_def)
  have m: "m \<in> set (vs_members s)" "m_added_at_version m = ?v"
    using assms(3) by (simp_all add: expected_recipients_def)
  have ok: "member_ok (vs_steps s) m" using assms(1) m(1) by (simp add: chain_ok_def)
  have "distinct (map m_added_at_version (expected_recipients s Grant ?v))"
    using assms(1) by (auto simp: chain_ok_def expected_recipients_def distinct_map_filter)
  moreover have "set (expected_recipients s Grant ?v) \<subseteq> {x. m_added_at_version x = ?v}"
    by (auto simp: expected_recipients_def)
  ultimately have "expected_recipients s Grant ?v = [m]"
    using assms(3) by (cases "expected_recipients s Grant ?v"; cases "tl (expected_recipients s Grant ?v)") auto
  moreover have "authorized_at m ?v"
    using ok m(2) v by (auto simp: authorized_at_def member_ok_def word_less_nat_alt split: option.splits)
  ultimately show ?thesis by blast
qed

text \<open>Every add has its member, so a grant has a recipient.\<close>

definition adds_have_members :: "verified_state \<Rightarrow> bool" where
  "adds_have_members s \<longleftrightarrow> (\<forall>h < length (vs_steps s). st_action (vs_steps s ! h) = Add \<longrightarrow>
     word_of_nat (Suc h) \<in> m_added_at_version ` set (vs_members s))"

lemma member_step_adds:
  assumes "member_step s s'" "adds_have_members s"
  shows "adds_have_members s'"
  using assms(1)
proof cases
  case (step_genesis m ident)
  then show ?thesis by (simp add: adds_have_members_def of_nat_Suc)
next
  case (step_add m ident)
  then show ?thesis using assms(2) by (auto simp: adds_have_members_def nth_append less_Suc_eq)
next
  case (step_revoke k ident)
  have "map m_added_at_version (vs_members s') = map m_added_at_version (vs_members s)"
    unfolding step_revoke(1) push_step_sel by (simp add: map_update_same)
  then have "m_added_at_version ` set (vs_members s') = m_added_at_version ` set (vs_members s)"
    by (metis set_map)
  then show ?thesis using assms(2) step_revoke(1) by (auto simp: adds_have_members_def nth_append less_Suc_eq)
qed

lemma verified_adds: "verified sha256 c vault_id s \<Longrightarrow> adds_have_members s"
proof (induction rule: verified.induct)
  case verified_empty
  then show ?case by (simp add: adds_have_members_def verified_state_empty_def)
next
  case (verified_membership s i bs s')
  then show ?case
    using apply_membership_refines [OF verified_membership.hyps(2)] verified_ok [OF verified_membership.hyps(1)]
      member_step_adds by blast
next
  case (verified_epoch s i bs s')
  from apply_epoch_refines [OF verified_epoch.hyps(2)] verified_ok [OF verified_epoch.hyps(1)] epoch_step_grows
  have "vs_steps s' = vs_steps s \<and> vs_members s' = vs_members s" by blast
  then show ?case using verified_epoch.IH by (simp add: adds_have_members_def)
qed

lemma granted_to_one:
  assumes v: "verified sha256 c vault_id s" and h: "h < length (vs_steps s)" "st_action (vs_steps s ! h) = Add"
    and rs: "set (map rc_key rs) = m_key ` set (expected_recipients s Grant (word_of_nat (Suc h)))"
      "distinct (map rc_fingerprint rs)"
  shows "\<exists>m \<in> set (vs_members s). map rc_key rs = [m_key m] \<and> m_added_at_version m = word_of_nat (Suc h) \<and>
    authorized_at m (word_of_nat (Suc h))"
proof -
  have "word_of_nat (Suc h) \<in> m_added_at_version ` set (vs_members s)"
    using verified_adds [OF v] h by (simp add: adds_have_members_def)
  then obtain m where m: "m \<in> set (vs_members s)" "m_added_at_version m = word_of_nat (Suc h)" by auto
  then have "m \<in> set (expected_recipients s Grant (word_of_nat (Suc h)))" by (simp add: expected_recipients_def)
  then have one: "expected_recipients s Grant (word_of_nat (Suc h)) = [m]" "authorized_at m (word_of_nat (Suc h))"
    using grant_recipients verified_ok [OF v] h(1) by blast+
  have "distinct (map snd (map rc_key rs))" using rs(2) by (simp add: rc_key_def comp_def)
  then have "distinct (map rc_key rs)" unfolding distinct_map by blast
  moreover have keys: "set (map rc_key rs) = {m_key m}" using rs(1) one(1) by simp
  ultimately have "length (map rc_key rs) = 1" using distinct_card [of "map rc_key rs"] by simp
  then obtain x where "map rc_key rs = [x]" by (metis One_nat_def length_0_conv length_Suc_conv)
  then show ?thesis using keys m one(2) by auto
qed

end
