(* ===== verification/Membership_Claims.thy ===== *)
theory Membership_Claims
  imports Membership_Theorems
begin

text \<open>
  The properties of the membership chain: the invariant, what does not change, who seals a key to
  whom, what a halt proves, that the verifier does not panic, that batches may be delivered again, and the
  round trip of the stored state.  A founded chain is the concrete state the hypotheses are discharged on.
\<close>

declare of_nat_Suc [simp del]

section \<open>The errors of a record\<close>

text \<open>Most errors are a refusal of the record: neither a halt nor a panic.\<close>

definition refusal :: "chain_error \<Rightarrow> bool" where
  "refusal e \<longleftrightarrow> \<not> halts_sync e \<and> e \<noteq> Ch_Panic"

lemma refusals [simp]:
  "refusal (malformed i e)" "refusal (signer_missing s fp i)" "refusal Ch_TooLong" "refusal (Ch_VaultMismatch i)"
  "refusal (Ch_UnsupportedSuite i)" "refusal (Ch_UnknownHead i)" "refusal (Ch_SealerNotAuthorized i)"
  "refusal (Ch_EpochBadSignature i)" "refusal (Ch_BadEpochSequence i)" "refusal (Ch_RecipientsMismatch i)"
  "refusal (Ch_EpochRecordMissing v)" "refusal (Ch_CutoverHeadNotRevoke i)" "refusal (Ch_GrantHeadNotAdd i)"
  "refusal (Ch_BadGenesis i)" "refusal (Ch_KeyUnacceptable i)" "refusal (Ch_BadSignature i)"
  "refusal (Ch_WrongVersion i)" "refusal (Ch_WrongPrevId i)" "refusal (Ch_FingerprintReused i)"
  "refusal (Ch_DeviceIdReused i)" "refusal (Ch_KeyReused i)" "refusal (Ch_TooManyMembers i)"
  "refusal (Ch_RevokeMismatch i)" "refusal (Ch_RevokeOfUnauthorized i)" "refusal (Ch_WouldEmptyChain i)"
  by (simp_all add: refusal_def halts_sync_def malformed_def signer_missing_def)

lemma refusal_fork [simp]: "\<not> refusal (Ch_Fork v a b)" "\<not> refusal (Ch_EpochEquivocation a b)"
  by (simp_all add: refusal_def halts_sync_def)

lemma apply_genesis_Inl: "apply_genesis c s i body fp rec ident = Inl e \<Longrightarrow> refusal e"
  by (auto simp: apply_genesis_def split: if_splits)

lemma apply_add_Inl: "apply_add c s i body fp = Inl e \<Longrightarrow> refusal e"
  by (auto simp: apply_add_def split: if_splits)

lemma apply_revoke_Inl: "apply_revoke s i body fp = Inl e \<Longrightarrow> refusal e"
  by (auto simp: apply_revoke_def Let_def split: if_splits option.splits)

lemma map_err_Inl_iff: "map_err f r = Inl e \<longleftrightarrow> (\<exists>e'. r = Inl e' \<and> e = f e')"
  by (cases r) (auto simp: map_err_def)

lemma apply_next_Inl:
  "apply_next c s i body fp rec ident previous = Inl e \<Longrightarrow> length (vs_steps s) \<le> max_chain_len \<Longrightarrow> refusal e"
  by (auto simp: apply_next_eq Let_def res_bind_Inl_iff apply_add_Inl apply_revoke_Inl
      split: if_splits option.splits action.splits)

lemma apply_membership_Inl:
  assumes "apply_membership sha256 c s i bs = Inl e"
  obtains (refused) "refusal e"
  | (conflict) rec body fp where "signed_record_parse bs max_membership_body = Inr rec"
      "membership_body_decode (sr_body rec) = Inr body"
      "1 \<le> unat (mb_version body)" "unat (mb_version body) \<le> length (vs_steps s)"
      "st_id (vs_steps s ! (unat (mb_version body) - 1)) \<noteq> signed_record_id sha256 rec"
      "e = conflicting_membership c s i (unat (mb_version body)) body fp rec (signed_record_id sha256 rec)"
proof (cases "max_chain_len \<le> length (vs_steps s)")
  case True
  then show thesis using assms refused by (simp add: apply_membership_eq)
next
  case False
  consider "refusal e" | rec body fp where "signed_record_parse bs max_membership_body = Inr rec"
      "membership_body_decode (sr_body rec) = Inr body"
      "(let ident = signed_record_id sha256 rec; pos = unat (mb_version body)
        in if 1 \<le> pos \<and> pos \<le> length (vs_steps s) then
             (if st_id (vs_steps s ! (pos - 1)) = ident then Inr s
              else Inl (conflicting_membership c s i pos body fp rec ident))
           else case last_opt (vs_steps s) of
                  None \<Rightarrow> apply_genesis c s i body fp rec ident
                | Some previous \<Rightarrow> apply_next c s i body fp rec ident previous) = Inl e"
    using assms False
    by (auto simp: apply_membership_eq Let_def res_bind_Inl_iff map_err_Inl_iff map_err_iff check_suite_def
        mb_fingerprint_total simp del: One_nat_def split: if_splits)
  then show thesis
  proof cases
    case 2
    then show thesis
      using conflict [OF 2(1,2)] refused apply_genesis_Inl apply_next_Inl [OF _ less_imp_le [OF False [unfolded not_le]]]
      by (simp add: Let_def split: if_splits option.splits) blast+
  qed (rule refused)
qed

lemma list_recipients_Inl: "list_recipients expected i listed rs = Inl e \<Longrightarrow> refusal e"
  by (induction rs arbitrary: listed) (auto simp: Let_def split: if_splits)

lemma epoch_successor_Inl:
  assumes fail: "epoch_successor s i body h previous = Inl e" and reason: "eb_reason body \<noteq> Genesis"
    and h: "h < length (vs_steps s)" and ok: "chain_ok s" "epochs_ok s" and previous: "previous \<in> set (vs_epochs s)"
  shows "refusal e"
proof -
  have "er_head_index previous < length (vs_steps s)" "length (vs_steps s) \<le> max_chain_len"
    using ok previous by (simp_all add: chain_ok_def epochs_ok_def)
  then have "usize_add (er_head_index previous) 1 = Inr (er_head_index previous + 1)"
    "usize_add (er_head_index previous) 2 = Inr (er_head_index previous + 2)"
    by (simp_all add: checked_Inr max_chain_len_def)
  moreover have "u64_add (er_key_epoch previous) 1 = Inr (er_key_epoch previous + 1)"
    using epoch_key_small [OF ok(2) previous] by (rule checked_ok)
  moreover have "index_at (vs_steps s) h = Inr (vs_steps s ! h)" using h by (rule checked_ok)
  ultimately show ?thesis
    using fail reason by (auto simp: epoch_successor_def Let_def split: reason.splits if_splits)
qed

lemma epoch_sequence_Inl:
  assumes "epoch_sequence s i body h = Inl e" "h < length (vs_steps s)" "chain_ok s" "epochs_ok s"
  shows "refusal e"
proof (cases "vs_epochs s = []")
  case True
  then show ?thesis using assms(1) by (auto simp: epoch_sequence_def last_opt_def split: if_splits)
next
  case False
  then have "last (vs_epochs s) \<in> set (vs_epochs s)" by simp
  then show ?thesis
    using assms False epoch_successor_Inl [of s i body h "last (vs_epochs s)" e]
    by (auto simp: epoch_sequence_def last_opt_def res_bind_Inl_iff split: if_splits)
qed

lemma ok_or_Inl_iff: "ok_or v e = Inl x \<longleftrightarrow> v = None \<and> x = e"
  by (cases v) auto

text \<open>The version of a record in the chain is computed without overflow.\<close>

lemma head_version_ok:
  assumes "position P (vs_steps s) = Some h" "chain_ok s"
  shows "h < length (vs_steps s) \<and> usize_add h 1 = Inr (h + 1)"
proof -
  have "h < length (vs_steps s)" using position_Some [OF assms(1)] by simp
  moreover have "length (vs_steps s) \<le> max_chain_len" using assms(2) by (simp add: chain_ok_def)
  ultimately show ?thesis by (simp add: checked_Inr max_chain_len_def)
qed

lemma apply_new_epoch_Inl:
  assumes "apply_new_epoch c s i body rec ident = Inl e" "chain_ok s" "epochs_ok s"
  shows "refusal e"
proof (cases "position (\<lambda>st. st_id st = eb_membership_head body) (vs_steps s)")
  case None
  then show ?thesis using assms(1) by (auto simp: apply_new_epoch_def)
next
  case (Some h)
  note h = head_version_ok [OF Some assms(2)]
  show ?thesis
    using assms(1) h epoch_sequence_Inl [OF _ _ assms(2,3), of i body h e]
    by (auto simp: apply_new_epoch_def Some Let_def res_bind_Inl_iff ok_or_Inl_iff list_recipients_Inl split: if_splits)
qed

lemma apply_epoch_Inl:
  assumes "apply_epoch sha256 c s i bs = Inl e" "chain_ok s" "epochs_ok s"
  obtains (refused) "refusal e"
  | (conflict) rec body f where "signed_record_parse bs max_epoch_body = Inr rec"
      "epoch_body_decode (sr_body rec) = Inr body"
      "find (\<lambda>e. er_prev_epoch_id e = eb_prev_epoch_id body) (vs_epochs s) = Some f"
      "er_id f \<noteq> signed_record_id sha256 rec"
      "e = conflicting_epoch c s i body rec (er_id f) (signed_record_id sha256 rec)"
  using assms(1) apply_new_epoch_Inl [OF _ assms(2,3)]
  by (auto simp: apply_epoch_def Let_def res_bind_Inl_iff map_err_Inl_iff map_err_iff check_suite_def
      split: if_splits option.splits)

lemma conflicting_epoch_eq:
  assumes "chain_ok s"
  shows "conflicting_epoch c s i body rec accepted conflicting =
     (case position (\<lambda>st. st_id st = eb_membership_head body) (vs_steps s) of
        None \<Rightarrow> Ch_UnknownHead i
      | Some head_index \<Rightarrow>
          (case authorized_member s (eb_sealer_fingerprint body) (word_of_nat (head_index + 1)) of
             None \<Rightarrow> Ch_SealerNotAuthorized i
           | Some sealer \<Rightarrow>
               if ed25519_verify_strict c (m_ed25519_pk sealer) (sr_body rec) (sr_signature rec)
               then Ch_EpochEquivocation accepted conflicting
               else Ch_EpochBadSignature i))"
  using head_version_ok [OF _ assms] by (simp add: conflicting_epoch_def split: option.split)

section \<open>Verification does not panic\<close>

lemma apply_membership_no_panic:
  assumes "chain_ok s"
  shows "apply_membership sha256 c s i bs \<noteq> Inl Ch_Panic"
proof
  assume "apply_membership sha256 c s i bs = Inl Ch_Panic"
  then show False
  proof (cases rule: apply_membership_Inl)
    case refused
    then show False by (simp add: refusal_def)
  next
    case (conflict rec body fp)
    then have "vs_steps s \<noteq> []" by auto
    then have "vs_members s \<noteq> []" using chain_ok_head [OF assms] by (auto simp: auth_def)
    then show False
      using conflict(6) unfolding conflicting_membership_eq [OF conflict(3,4)]
      by (auto simp: signer_missing_def Let_def split: list.splits option.splits if_splits)
  qed
qed

lemma apply_epoch_no_panic:
  assumes "chain_ok s" "epochs_ok s"
  shows "apply_epoch sha256 c s i bs \<noteq> Inl Ch_Panic"
proof
  assume "apply_epoch sha256 c s i bs = Inl Ch_Panic"
  from this assms show False
    by (cases rule: apply_epoch_Inl)
      (auto simp: refusal_def conflicting_epoch_eq [OF assms(1)] split: option.splits if_splits)
qed

lemma apply_memberships_no_panic:
  "verified sha256 c vault_id s \<Longrightarrow> apply_memberships sha256 c i bs s \<noteq> Inl Ch_Panic"
proof (induction bs arbitrary: s i)
  case (Cons b bs)
  show ?case
  proof (cases "apply_membership sha256 c s i b")
    case (Inl e)
    then show ?thesis using apply_membership_no_panic verified_ok [OF Cons.prems] by auto
  next
    case (Inr t)
    then show ?thesis using Cons.IH [OF verified_membership [OF Cons.prems Inr]] by simp
  qed
qed simp

lemma apply_epochs_no_panic:
  "verified sha256 c vault_id s \<Longrightarrow> apply_epochs sha256 c i bs s \<noteq> Inl Ch_Panic"
proof (induction bs arbitrary: s i)
  case (Cons b bs)
  show ?case
  proof (cases "apply_epoch sha256 c s i b")
    case (Inl e)
    then show ?thesis using apply_epoch_no_panic verified_ok [OF Cons.prems] by auto
  next
    case (Inr t)
    then show ?thesis using Cons.IH [OF verified_epoch [OF Cons.prems Inr]] by simp
  qed
qed simp

lemma coupled_eq:
  assumes "chain_ok s" "epochs_ok s"
  shows "coupled s =
     (if vs_steps s = [] then Inr s
      else case last_opt (vs_epochs s) of
             None \<Rightarrow> Inl (Ch_EpochRecordMissing 1)
           | Some l \<Rightarrow>
               if er_head_index l + 1 < length (vs_steps s)
               then Inl (Ch_EpochRecordMissing (word_of_nat (er_head_index l + 2)))
               else Inr s)"
proof -
  have "usize_add (er_head_index l) 1 = Inr (er_head_index l + 1) \<and> usize_add (er_head_index l) 2 = Inr (er_head_index l + 2)"
    if "l \<in> set (vs_epochs s)" for l
  proof -
    have "er_head_index l < length (vs_steps s)" "length (vs_steps s) \<le> max_chain_len"
      using assms that by (simp_all add: chain_ok_def epochs_ok_def)
    then show ?thesis by (simp add: checked_Inr max_chain_len_def)
  qed
  then show ?thesis by (simp add: coupled_def last_opt_def)
qed

lemma extend_no_panic:
  assumes "verified sha256 c vault_id s"
  shows "extend sha256 c s ms es \<noteq> Inl Ch_Panic"
proof
  assume "extend sha256 c s ms es = Inl Ch_Panic"
  then obtain t u where t: "apply_memberships sha256 c 0 ms s = Inr t" "apply_epochs sha256 c 0 es t = Inr u"
    and panic: "coupled u = Inl Ch_Panic"
    using apply_memberships_no_panic [OF assms] apply_epochs_no_panic [OF verified_memberships [OF assms]]
    by (auto simp: extend_def res_bind_Inl_iff)
  have "verified sha256 c vault_id u" using verified_epochs [OF verified_memberships [OF assms t(1)] t(2)] .
  then show False using panic verified_ok [of sha256 c vault_id u]
    by (simp add: coupled_eq split: if_splits option.splits)
qed

section \<open>A halt is evidence against a member\<close>

text \<open>What a fork of the membership chain and an equivocation of its epoch records consist in.\<close>

definition fork_evidence :: "hash \<Rightarrow> dalek \<Rightarrow> verified_state \<Rightarrow> bytes \<Rightarrow> chain_error \<Rightarrow> bool" where
  "fork_evidence sha256 c s bs e \<longleftrightarrow> (\<exists>rec body v m.
     signed_record_parse bs max_membership_body = Inr rec \<and> membership_body_decode (sr_body rec) = Inr body \<and>
     v = unat (mb_version body) \<and> 1 \<le> v \<and> v \<le> length (vs_steps s) \<and>
     st_id (vs_steps s ! (v - 1)) \<noteq> signed_record_id sha256 rec \<and>
     m \<in> set (vs_members s) \<and> m_fingerprint m = mb_signer_fingerprint body \<and>
     (if v = 1 then m = hd (vs_members s)
      else authorized_at m (word_of_nat (v - 1)) \<and> mb_prev_id body = Some (st_id (vs_steps s ! (v - 2)))) \<and>
     ed25519_verify_strict c (m_ed25519_pk m) (sr_body rec) (sr_signature rec) \<and>
     e = Ch_Fork (mb_version body) (st_id (vs_steps s ! (v - 1))) (signed_record_id sha256 rec))"

definition equivocation_evidence :: "hash \<Rightarrow> dalek \<Rightarrow> verified_state \<Rightarrow> bytes \<Rightarrow> chain_error \<Rightarrow> bool" where
  "equivocation_evidence sha256 c s bs e \<longleftrightarrow> (\<exists>rec body f h m.
     signed_record_parse bs max_epoch_body = Inr rec \<and> epoch_body_decode (sr_body rec) = Inr body \<and>
     f \<in> set (vs_epochs s) \<and> er_prev_epoch_id f = eb_prev_epoch_id body \<and> er_id f \<noteq> signed_record_id sha256 rec \<and>
     h < length (vs_steps s) \<and> st_id (vs_steps s ! h) = eb_membership_head body \<and>
     m \<in> set (vs_members s) \<and> m_fingerprint m = eb_sealer_fingerprint body \<and>
     authorized_at m (word_of_nat (Suc h)) \<and>
     ed25519_verify_strict c (m_ed25519_pk m) (sr_body rec) (sr_signature rec) \<and>
     e = Ch_EpochEquivocation (er_id f) (signed_record_id sha256 rec))"

lemma conflicting_membership_halts:
  assumes halt: "\<not> refusal (conflicting_membership c s i pos body fp rec ident)" and members: "vs_members s \<noteq> []"
    and pos: "1 \<le> pos" "pos \<le> length (vs_steps s)"
  obtains m where "m \<in> set (vs_members s)" "m_fingerprint m = mb_signer_fingerprint body"
    "if pos = 1 then m = hd (vs_members s)
     else authorized_at m (word_of_nat (pos - 1)) \<and> mb_prev_id body = Some (st_id (vs_steps s ! (pos - 2)))"
    "ed25519_verify_strict c (m_ed25519_pk m) (sr_body rec) (sr_signature rec)"
    "conflicting_membership c s i pos body fp rec ident = Ch_Fork (mb_version body) (st_id (vs_steps s ! (pos - 1))) ident"
proof (cases "pos = 1")
  case True
  note eq = conflicting_membership_eq [OF pos] and halt' = halt [unfolded conflicting_membership_eq [OF pos]]
  obtain m ms where m: "vs_members s = m # ms" using members by (cases "vs_members s") auto
  have founder: "m_fingerprint m = mb_signer_fingerprint body"
    using halt' True m by (simp add: if_distrib [of refusal] split: if_split_asm)
  have signed: "ed25519_verify_strict c (m_ed25519_pk m) (sr_body rec) (sr_signature rec)"
    using halt' True m by (simp add: if_distrib [of refusal] split: if_split_asm)
  have fork: "conflicting_membership c s i pos body fp rec ident =
      Ch_Fork (mb_version body) (st_id (vs_steps s ! (pos - 1))) ident"
    unfolding eq using halt' True m by (simp add: if_distrib [of refusal] split: if_split_asm)
  show thesis by (rule that [of m, OF _ founder _ signed fork]) (simp_all add: m True)
next
  case False
  note halt = halt [unfolded conflicting_membership_eq [OF pos] Let_def if_not_P [OF False]]
  have prev: "mb_prev_id body = Some (st_id (vs_steps s ! (pos - 2)))"
    using halt by (simp split: if_splits)
  obtain m where m: "authorized_member s (mb_signer_fingerprint body) (word_of_nat (pos - 1)) = Some m"
    using halt prev by (cases "authorized_member s (mb_signer_fingerprint body) (word_of_nat (pos - 1))") simp_all
  have signed: "ed25519_verify_strict c (m_ed25519_pk m) (sr_body rec) (sr_signature rec)"
    using halt prev m by (simp split: if_splits)
  have fork: "conflicting_membership c s i pos body fp rec ident =
      Ch_Fork (mb_version body) (st_id (vs_steps s ! (pos - 1))) ident"
    unfolding conflicting_membership_eq [OF pos] Let_def if_not_P [OF False] using prev m signed by simp
  show thesis using that [of m] authorized_memberD [OF m] False prev signed fork by simp
qed

lemma apply_membership_halts:
  assumes "apply_membership sha256 c s i bs = Inl e" "halts_sync e" "chain_ok s"
  shows "fork_evidence sha256 c s bs e"
  using assms(1)
proof (cases rule: apply_membership_Inl)
  case (conflict rec body fp)
  have "vs_steps s \<noteq> []" using conflict by auto
  then have members: "vs_members s \<noteq> []" using chain_ok_head [OF assms(3)] by (auto simp: auth_def)
  have "\<not> refusal e" using assms(2) by (simp add: refusal_def)
  from this [unfolded conflict(6)] members conflict(3,4)
  obtain m where "m \<in> set (vs_members s)" "m_fingerprint m = mb_signer_fingerprint body"
    "if unat (mb_version body) = 1 then m = hd (vs_members s)
     else authorized_at m (word_of_nat (unat (mb_version body) - 1)) \<and>
       mb_prev_id body = Some (st_id (vs_steps s ! (unat (mb_version body) - 2)))"
    "ed25519_verify_strict c (m_ed25519_pk m) (sr_body rec) (sr_signature rec)"
    "e = Ch_Fork (mb_version body) (st_id (vs_steps s ! (unat (mb_version body) - 1))) (signed_record_id sha256 rec)"
    unfolding conflict(6) by (rule conflicting_membership_halts)
  then show ?thesis
    unfolding fork_evidence_def using conflict(1-5) by blast
qed (use assms(2) in \<open>simp add: refusal_def\<close>)

lemma apply_epoch_halts:
  assumes "apply_epoch sha256 c s i bs = Inl e" "halts_sync e" and ok: "chain_ok s" "epochs_ok s"
  shows "equivocation_evidence sha256 c s bs e"
  using assms(1) ok
proof (cases rule: apply_epoch_Inl)
  case (conflict rec body f)
  from conflict(5) assms(2) obtain h m where h: "position (\<lambda>st. st_id st = eb_membership_head body) (vs_steps s) = Some h"
      and m: "authorized_member s (eb_sealer_fingerprint body) (word_of_nat (Suc h)) = Some m"
      "ed25519_verify_strict c (m_ed25519_pk m) (sr_body rec) (sr_signature rec)"
      and e: "e = Ch_EpochEquivocation (er_id f) (signed_record_id sha256 rec)"
    by (auto simp: conflicting_epoch_eq [OF ok(1)] halts_sync_def split: option.splits if_splits)
  show ?thesis
    unfolding equivocation_evidence_def
    using conflict(1,2,4) find_Some [OF conflict(3)] position_Some [OF h] authorized_memberD [OF m(1)] m(2) e by blast
qed (use assms(2) in \<open>simp add: refusal_def\<close>)

text \<open>The evidence is judged at the state that the records before it in the batch lead to.\<close>

lemma apply_memberships_halts:
  assumes "verified sha256 c vault_id s" "apply_memberships sha256 c i bs s = Inl e" "halts_sync e"
  shows "\<exists>earlier b later t. bs = earlier @ b # later \<and> apply_memberships sha256 c i earlier s = Inr t \<and>
    fork_evidence sha256 c t b e"
  using assms
proof (induction bs arbitrary: s i)
  case (Cons b bs)
  show ?case
  proof (cases "apply_membership sha256 c s i b")
    case (Inl e')
    then have "fork_evidence sha256 c s b e"
      using Cons.prems apply_membership_halts verified_ok by fastforce
    then show ?thesis by (intro exI [of _ "[]"] exI [of _ b] exI [of _ bs] exI [of _ s]) simp
  next
    case (Inr r)
    have "apply_memberships sha256 c (Suc i) bs r = Inl e" using Cons.prems(2) Inr by simp
    from Cons.IH [OF verified_membership [OF Cons.prems(1) Inr] this Cons.prems(3)]
    obtain earlier x later t where x: "bs = earlier @ x # later" "apply_memberships sha256 c (Suc i) earlier r = Inr t"
        "fork_evidence sha256 c t x e"
      by blast
    then show ?thesis
      using Inr by (intro exI [of _ "b # earlier"] exI [of _ x] exI [of _ later] exI [of _ t]) simp
  qed
qed simp

lemma apply_epochs_halts:
  assumes "verified sha256 c vault_id s" "apply_epochs sha256 c i bs s = Inl e" "halts_sync e"
  shows "\<exists>earlier b later t. bs = earlier @ b # later \<and> apply_epochs sha256 c i earlier s = Inr t \<and>
    equivocation_evidence sha256 c t b e"
  using assms
proof (induction bs arbitrary: s i)
  case (Cons b bs)
  show ?case
  proof (cases "apply_epoch sha256 c s i b")
    case (Inl e')
    then have "equivocation_evidence sha256 c s b e"
      using Cons.prems apply_epoch_halts verified_ok by fastforce
    then show ?thesis by (intro exI [of _ "[]"] exI [of _ b] exI [of _ bs] exI [of _ s]) simp
  next
    case (Inr r)
    have "apply_epochs sha256 c (Suc i) bs r = Inl e" using Cons.prems(2) Inr by simp
    from Cons.IH [OF verified_epoch [OF Cons.prems(1) Inr] this Cons.prems(3)]
    obtain earlier x later t where x: "bs = earlier @ x # later" "apply_epochs sha256 c (Suc i) earlier r = Inr t"
        "equivocation_evidence sha256 c t x e"
      by blast
    then show ?thesis
      using Inr by (intro exI [of _ "b # earlier"] exI [of _ x] exI [of _ later] exI [of _ t]) simp
  qed
qed simp

lemma coupled_refuses:
  "chain_ok s \<Longrightarrow> epochs_ok s \<Longrightarrow> coupled s = Inl e \<Longrightarrow> \<not> halts_sync e"
  by (auto simp: coupled_eq halts_sync_def split: if_splits option.splits)

lemma extend_halts:
  assumes v: "verified sha256 c vault_id s" and halt: "extend sha256 c s ms es = Inl e" "halts_sync e"
  obtains (fork) earlier b later t where "ms = earlier @ b # later"
      "apply_memberships sha256 c 0 earlier s = Inr t" "verified sha256 c vault_id t" "fork_evidence sha256 c t b e"
  | (equivocation) earlier b later r t where "es = earlier @ b # later" "apply_memberships sha256 c 0 ms s = Inr r"
      "apply_epochs sha256 c 0 earlier r = Inr t" "verified sha256 c vault_id t" "equivocation_evidence sha256 c t b e"
proof (cases "apply_memberships sha256 c 0 ms s")
  case (Inl e')
  then have "apply_memberships sha256 c 0 ms s = Inl e" using halt(1) by (simp add: extend_def)
  from apply_memberships_halts [OF v this halt(2)] fork verified_memberships [OF v] show thesis by blast
next
  case (Inr r)
  have r: "verified sha256 c vault_id r" using verified_memberships [OF v Inr] .
  have "apply_epochs sha256 c 0 es r = Inl e"
  proof (cases "apply_epochs sha256 c 0 es r")
    case u: (Inr u)
    then show ?thesis
      using halt Inr coupled_refuses [of u e] verified_ok [OF verified_epochs [OF r u]] by (simp add: extend_def)
  qed (use halt(1) Inr in \<open>simp add: extend_def\<close>)
  from apply_epochs_halts [OF r this halt(2)] equivocation Inr verified_epochs [OF r] show thesis by blast
qed

section \<open>Delivery may be repeated\<close>

lemma extends_step:
  assumes "extends t u" "n < length (vs_steps t)"
  shows "vs_steps u ! n = vs_steps t ! n" "n < length (vs_steps u)"
  using assms by (auto simp: extends_def prefix_def nth_append)

lemma membership_repeated:
  assumes "apply_membership sha256 c s i bs = Inr t" "extends t u" "length (vs_steps u) < max_chain_len"
  shows "apply_membership sha256 c u i bs = Inr u"
proof -
  obtain rec body fp where rec: "signed_record_parse bs max_membership_body = Inr rec"
      "membership_body_decode (sr_body rec) = Inr body" "check_suite (mb_suite_id body) (mb_kem_id body) i = Inr ()"
      "mb_vault_id body = vs_vault_id s" "mb_fingerprint sha256 body = Inr fp" "length (vs_steps s) < max_chain_len"
    and run: "(let ident = signed_record_id sha256 rec; pos = unat (mb_version body)
        in if 1 \<le> pos \<and> pos \<le> length (vs_steps s) then
             (if st_id (vs_steps s ! (pos - 1)) = ident then Inr s
              else Inl (conflicting_membership c s i pos body fp rec ident))
           else case last_opt (vs_steps s) of
                  None \<Rightarrow> apply_genesis c s i body fp rec ident
                | Some previous \<Rightarrow> apply_next c s i body fp rec ident previous) = Inr t"
    using assms(1)
    by (auto simp: apply_membership_eq Let_def res_bind_Inr_iff map_err_iff not_le simp del: One_nat_def split: if_splits)
  let ?pos = "unat (mb_version body)"
  have there: "1 \<le> ?pos \<and> ?pos \<le> length (vs_steps t) \<and> st_id (vs_steps t ! (?pos - 1)) = signed_record_id sha256 rec
      \<and> vs_vault_id t = vs_vault_id s"
  proof (cases "1 \<le> ?pos \<and> ?pos \<le> length (vs_steps s)")
    case True
    then show ?thesis using run by (auto simp: Let_def split: if_splits)
  next
    case False
    show ?thesis
    proof (cases "vs_steps s = []")
      case True
      then show ?thesis
        using run False by (auto simp: Let_def last_opt_def apply_genesis_def split: if_splits)
    next
      case nonempty: False
      then have "apply_next c s i body fp rec (signed_record_id sha256 rec) (last (vs_steps s)) = Inr t"
        using run unfolding Let_def if_not_P [OF False] by (simp add: last_opt_def)
      then have version: "mb_version body = word_of_nat (Suc (length (vs_steps s)))"
        and "vs_steps t = vs_steps s @ [\<lparr>st_id = signed_record_id sha256 rec, st_action = mb_action body\<rparr>] \<and>
          vs_vault_id t = vs_vault_id s"
        unfolding apply_next_eq [OF less_imp_le [OF rec(6)]]
        by (auto simp: Let_def of_nat_Suc add.commute res_bind_Inr_iff apply_add_def apply_revoke_def
            split: if_splits option.splits action.splits)
      moreover have "?pos = Suc (length (vs_steps s))"
        unfolding version using rec(6) by (intro version_unat) simp
      ultimately show ?thesis by simp
    qed
  qed
  have "?pos - 1 < length (vs_steps t)" using there by linarith
  then have "?pos \<le> length (vs_steps u)" "st_id (vs_steps u ! (?pos - 1)) = signed_record_id sha256 rec"
    using extends_step [OF assms(2)] there by force+
  moreover have "vs_vault_id u = vs_vault_id s" using assms(2) there by (simp add: extends_def)
  ultimately show ?thesis
    using rec there assms(3) by (simp add: apply_membership_eq map_err_def not_le)
qed

lemma epoch_repeated:
  assumes "apply_epoch sha256 c s i bs = Inr t" "extends t u" "length (vs_epochs u) < max_chain_len"
  shows "apply_epoch sha256 c u i bs = Inr u"
proof -
  obtain rec body where rec: "signed_record_parse bs max_epoch_body = Inr rec"
      "epoch_body_decode (sr_body rec) = Inr body" "check_suite (eb_suite_id body) (eb_kem_id body) i = Inr ()"
      "eb_vault_id body = vs_vault_id s"
    and run: "(case find (\<lambda>e. er_prev_epoch_id e = eb_prev_epoch_id body) (vs_epochs s) of
               Some existing \<Rightarrow>
                 (if er_id existing = signed_record_id sha256 rec then Inr s
                  else Inl (conflicting_epoch c s i body rec (er_id existing) (signed_record_id sha256 rec)))
             | None \<Rightarrow> apply_new_epoch c s i body rec (signed_record_id sha256 rec)) = Inr t"
    using assms(1)
    by (auto simp: apply_epoch_def Let_def res_bind_Inr_iff map_err_iff not_le split: if_splits)
  obtain e where e: "find (\<lambda>e. er_prev_epoch_id e = eb_prev_epoch_id body) (vs_epochs t) = Some e"
      "er_id e = signed_record_id sha256 rec" and vault: "vs_vault_id t = vs_vault_id s"
  proof (cases "find (\<lambda>e. er_prev_epoch_id e = eb_prev_epoch_id body) (vs_epochs s)")
    case None
    then obtain e where "vs_epochs t = vs_epochs s @ [e]" "er_prev_epoch_id e = eb_prev_epoch_id body"
        "er_id e = signed_record_id sha256 rec" "vs_vault_id t = vs_vault_id s"
      using run by (auto simp: apply_new_epoch_def Let_def res_bind_Inr_iff checked_Inr split: if_splits)
    then show thesis using that None by (simp add: find_append)
  next
    case (Some e)
    then show thesis using run that by (simp split: if_splits)
  qed
  have "find (\<lambda>e. er_prev_epoch_id e = eb_prev_epoch_id body) (vs_epochs u) = Some e"
    using assms(2) e(1) by (auto simp: extends_def prefix_def find_append)
  moreover have "vs_vault_id u = vs_vault_id s" using assms(2) vault by (simp add: extends_def)
  ultimately show ?thesis
    using rec e(2) assms(3) by (simp add: apply_epoch_def map_err_def not_le)
qed

lemma memberships_repeated:
  assumes "verified sha256 c vault_id s" "apply_memberships sha256 c i bs s = Inr t" "extends t u"
    "length (vs_steps u) < max_chain_len"
  shows "apply_memberships sha256 c i bs u = Inr u"
  using assms(1,2)
proof (induction bs arbitrary: s i)
  case (Cons b bs)
  then obtain r where r: "apply_membership sha256 c s i b = Inr r" "apply_memberships sha256 c (Suc i) bs r = Inr t"
    by (auto simp: res_bind_Inr_iff)
  have v: "verified sha256 c vault_id r" using Cons.prems(1) r(1) by (rule verified_membership)
  have "extends r u" using apply_memberships_extends [OF v r(2)] assms(3) by (rule extends_trans)
  then show ?case using membership_repeated [OF r(1) _ assms(4)] Cons.IH [OF v r(2)] by simp
qed simp

lemma epochs_repeated:
  assumes "verified sha256 c vault_id s" "apply_epochs sha256 c i bs s = Inr t" "extends t u"
    "length (vs_epochs u) < max_chain_len"
  shows "apply_epochs sha256 c i bs u = Inr u"
  using assms(1,2)
proof (induction bs arbitrary: s i)
  case (Cons b bs)
  then obtain r where r: "apply_epoch sha256 c s i b = Inr r" "apply_epochs sha256 c (Suc i) bs r = Inr t"
    by (auto simp: res_bind_Inr_iff)
  have v: "verified sha256 c vault_id r" using Cons.prems(1) r(1) by (rule verified_epoch)
  have "extends r u" using apply_epochs_extends [OF v r(2)] assms(3) by (rule extends_trans)
  then show ?case using epoch_repeated [OF r(1) _ assms(4)] Cons.IH [OF v r(2)] by simp
qed simp

lemma extend_repeated:
  assumes "verified sha256 c vault_id s" "extend sha256 c s ms es = Inr t"
    "length (vs_steps t) < max_chain_len" "length (vs_epochs t) < max_chain_len"
  shows "extend sha256 c t ms es = Inr t"
  using assms(2)
proof (rule extend_Inr)
  fix r assume r: "apply_memberships sha256 c 0 ms s = Inr r" "apply_epochs sha256 c 0 es r = Inr t"
    and coupling: "vs_steps t = [] \<or> vs_epochs t \<noteq> [] \<and> length (vs_steps t) \<le> Suc (er_head_index (last (vs_epochs t)))"
  have v: "verified sha256 c vault_id r" using verified_memberships [OF assms(1) r(1)] .
  have "apply_memberships sha256 c 0 ms t = Inr t"
    using memberships_repeated [OF assms(1) r(1) apply_epochs_extends [OF v r(2)] assms(3)] .
  moreover have "apply_epochs sha256 c 0 es t = Inr t"
    using epochs_repeated [OF v r(2) extends_refl assms(4)] .
  moreover have "coupled t = Inr t"
    using coupling verified_ok [OF verified_epochs [OF v r(2)]] by (auto simp: coupled_eq last_opt_def)
  ultimately show ?thesis by (simp add: extend_def)
qed

text \<open>At its greatest length the chain refuses even a record it holds.\<close>

lemma full_chain_refuses:
  "max_chain_len \<le> length (vs_steps s) \<Longrightarrow> apply_membership sha256 c s i bs = Inl Ch_TooLong"
  by (simp add: apply_membership_eq)

section \<open>The members of a key epoch\<close>

lemma authorized_later:
  assumes ok: "chain_ok s" and m: "m \<in> set (vs_members s)" and j: "h \<le> j" "j < length (vs_steps s)"
    and adds: "\<And>i. h < i \<Longrightarrow> i \<le> j \<Longrightarrow> st_action (vs_steps s ! i) = Add"
    and auth: "authorized_at m (word_of_nat (Suc h))"
  shows "authorized_at m (word_of_nat (Suc j))"
proof -
  have len: "length (vs_steps s) \<le> max_chain_len" and mok: "member_ok (vs_steps s) m"
    using ok m by (simp_all add: chain_ok_def)
  show ?thesis
  proof (cases "m_revoked_at_version m")
    case None
    then show ?thesis using auth j len by (simp add: authorized_at_nat)
  next
    case (Some r)
    have r: "unat r \<le> length (vs_steps s)" "st_action (vs_steps s ! (unat r - 1)) = Revoke"
      using mok Some by (simp_all add: member_ok_def)
    have "Suc h < unat r" using auth j len Some by (simp add: authorized_at_nat)
    then have "h < unat r - 1" by linarith
    then have "\<not> unat r - 1 \<le> j" using adds [of "unat r - 1"] r(2) by auto
    then show ?thesis using auth j len Some by (simp add: authorized_at_nat)
  qed
qed

lemma same_key_adds:
  assumes "epochs_ok s" "b < length (vs_epochs s)"
    "a \<le> b" "er_key_epoch (vs_epochs s ! a) = er_key_epoch (vs_epochs s ! b)"
    "er_head_index (vs_epochs s ! a) < i" "i \<le> er_head_index (vs_epochs s ! b)"
  shows "st_action (vs_steps s ! i) = Add"
  using assms(2-)
proof (induction b)
  case (Suc b)
  show ?case
  proof (cases "a = Suc b")
    case False
    then have "a \<le> b" using Suc.prems(2) by simp
    let ?e = "vs_epochs s ! b" and ?f = "vs_epochs s ! Suc b"
    have follows: "epoch_follows (vs_steps s) ?e ?f" using assms(1) Suc.prems(1) by (rule epochs_ok_follows)
    have small: "unat (er_key_epoch ?e) \<le> max_chain_len"
      using epoch_key_small [OF assms(1), of ?e] Suc.prems(1) by simp
    have "unat (er_key_epoch (vs_epochs s ! a)) \<le> unat (er_key_epoch ?e)"
      using epoch_mono [OF assms(1), of b a] Suc.prems(1) \<open>a \<le> b\<close> by simp
    then have same: "er_key_epoch ?f = er_key_epoch ?e"
      using epoch_follows_key(1) [OF follows small] Suc.prems(3) by (metis order_antisym word_unat_eq_iff)
    have "er_key_epoch ?e + 1 \<noteq> er_key_epoch ?e" by simp
    then have grant: "er_head_index ?f = Suc (er_head_index ?e)" "st_action (vs_steps s ! er_head_index ?f) = Add"
      using follows same by (auto simp: epoch_follows_def split: reason.splits)
    show ?thesis
    proof (cases "i = er_head_index ?f")
      case False
      then show ?thesis using Suc.IH Suc.prems \<open>a \<le> b\<close> same grant by simp
    qed (use grant in simp)
  qed (use Suc.prems in simp)
qed simp

lemma find_rev_last:
  assumes "find P (rev xs) = Some x"
  shows "\<exists>b < length xs. x = xs ! b \<and> P x \<and> (\<forall>a < length xs. P (xs ! a) \<longrightarrow> a \<le> b)"
  using assms
proof (induction xs rule: rev_induct)
  case (snoc y ys)
  show ?case
  proof (cases "P y")
    case True
    then show ?thesis using snoc.prems by (intro exI [of _ "length ys"]) (auto simp: nth_append)
  next
    case False
    then obtain b where "b < length ys" "x = ys ! b" "P x" "\<forall>a < length ys. P (ys ! a) \<longrightarrow> a \<le> b"
      using snoc by auto
    then show ?thesis using False by (intro exI [of _ b]) (auto simp: nth_append less_Suc_eq)
  qed
qed simp

section \<open>The verified state can be stored\<close>

lemma chain_ok_consistent:
  assumes "chain_ok s" "epochs_ok s"
  shows "state_consistent s"
proof -
  have len: "length (vs_steps s) \<le> max_chain_len" using assms(1) by (simp add: chain_ok_def)
  have head: "unat (word_of_nat (length (vs_steps s)) :: 64 word) = length (vs_steps s)"
    using len by (intro version_unat) simp
  have "1 \<le> m_added_at_version m \<and> m_added_at_version m \<le> word_of_nat (length (vs_steps s)) \<and>
      (case m_revoked_at_version m of
         None \<Rightarrow> True
       | Some v \<Rightarrow> m_added_at_version m < v \<and> v \<le> word_of_nat (length (vs_steps s)))"
    if "m \<in> set (vs_members s)" for m
  proof -
    have ok: "member_ok (vs_steps s) m" using assms(1) that by (simp add: chain_ok_def)
    then have "1 \<le> m_added_at_version m" "m_added_at_version m \<le> word_of_nat (length (vs_steps s))"
      unfolding word_le_nat_alt head member_ok_def by simp_all
    moreover have "m_added_at_version m < v \<and> v \<le> word_of_nat (length (vs_steps s))"
      if "m_revoked_at_version m = Some v" for v
      using ok that unfolding word_le_nat_alt word_less_nat_alt head member_ok_def by simp
    ultimately show ?thesis by (cases "m_revoked_at_version m") auto
  qed
  then show ?thesis using assms(2) by (simp add: state_consistent_def epochs_ok_def list_all_iff Let_def)
qed

lemma epochs_ok_one_first:
  assumes "epochs_ok s"
  shows "length (filter (\<lambda>e. er_prev_epoch_id e = None) (vs_epochs s)) \<le> 1"
proof (cases "vs_epochs s")
  case (Cons e es)
  have "er_prev_epoch_id f \<noteq> None" if "f \<in> set es" for f
  proof -
    from that obtain i where i: "i < length es" "f = es ! i" unfolding in_set_conv_nth by blast
    have "epoch_follows (vs_steps s) (vs_epochs s ! i) (vs_epochs s ! Suc i)"
      using i Cons by (intro epochs_ok_follows [OF assms]) simp
    then show ?thesis using i Cons by (simp add: epoch_follows_def)
  qed
  then have "filter (\<lambda>e. er_prev_epoch_id e = None) es = []" by (simp add: filter_empty_conv)
  then show ?thesis using Cons by simp
qed simp

lemma storable:
  assumes "chain_ok s" "epochs_ok s"
  shows "verified_state_small s \<and> state_consistent s \<and>
     epochs_fit (vs_epochs s) (length (w_opt (vs_key_commitment_s s) (w_fixed :: 256 word \<Rightarrow> _) [])) \<and>
     (\<exists>label. with_label state_label = Inr label)"
proof -
  have "verified_state_small s"
    using assms by (simp add: verified_state_small_def chain_ok_def epochs_ok_def)
  moreover have "length (filter (\<lambda>e. er_prev_epoch_id e = None) (vs_epochs s)) \<le>
      length (w_opt (vs_key_commitment_s s) (w_fixed :: 256 word \<Rightarrow> _) [])"
    using epochs_ok_one_first [OF assms(2)] by (simp add: w_opt_def w_u8_def wire_appends split: option.splits)
  ultimately show ?thesis
    using chain_ok_consistent [OF assms] epochs_fit_few by (auto simp: with_label_def)
qed

end
