(* ===== verification/Membership_Example.thy ===== *)
theory Membership_Example
  imports Membership_Claims
begin

text \<open>
  A founded chain, as the concrete state the theorems are applied to: one device founds the vault
  and seals the first key to itself; a second genesis record of the same device is a fork.
\<close>

declare of_nat_Suc [simp del]

definition last_hash :: hash where
  "last_hash bs = (if bs = [] then 0 else word_of_nat (unat (last bs)))"

definition trusting :: dalek where
  "trusting = \<lparr>from_bytes = \<lambda>_. True, recompress = \<lambda>k. k, is_weak = \<lambda>_. False, is_torsion_free = \<lambda>_. True,
     verify_strict = \<lambda>_ _ _. True\<rparr>"

definition founding_body :: "int \<Rightarrow> membership_body" where
  "founding_body issued_at =
     \<lparr>mb_suite_id = 1, mb_kem_id = 32, mb_vault_id = 7, mb_version = 1, mb_prev_id = None, mb_action = Add,
      mb_signer_fingerprint = Fingerprint 1, mb_device_id = 5, mb_ed25519_pk = 3, mb_kem_public_key = 1,
      mb_issued_at = issued_at\<rparr>"

definition founding_epoch :: epoch_body where
  "founding_epoch =
     \<lparr>eb_suite_id = 1, eb_kem_id = 32, eb_vault_id = 7, eb_key_epoch = 1, eb_reason = Genesis,
      eb_membership_head = 0, eb_prev_epoch_id = None, eb_key_commitment_ke = 11, eb_key_commitment_s = 12,
      eb_sealer_fingerprint = Fingerprint 1,
      eb_recipients = [\<lparr>rc_device_id = 5, rc_fingerprint = Fingerprint 1, rc_suite_id = 1, rc_kem_id = 32,
         rc_enc = 9, rc_ciphertext = replicate 109 0\<rparr>]\<rparr>"

definition labelled :: "bytes \<Rightarrow> bytes" where
  "labelled l = be 2 (length l) @ l"

definition signed_bytes :: "bytes \<Rightarrow> bytes" where
  "signed_bytes body = be 4 (length body) @ body @ w_fixed (0 :: 512 word) []"

definition founding_record :: "int \<Rightarrow> bytes" where
  "founding_record issued_at = signed_bytes (membership_body_bytes (labelled membership_label) (founding_body issued_at))"

definition founding_epoch_record :: bytes where
  "founding_epoch_record = signed_bytes (epoch_body_bytes (labelled epoch_label) founding_epoch)"

definition founded :: verified_state where
  "founded =
     \<lparr>vs_vault_id = 7, vs_steps = [\<lparr>st_id = 0, st_action = Add\<rparr>],
      vs_members = [\<lparr>m_device_id = 5, m_fingerprint = Fingerprint 1, m_ed25519_pk = 3, m_kem_public_key = 1,
        m_added_at_version = 1, m_revoked_at_version = None\<rparr>],
      vs_epochs = [\<lparr>er_id = 0, er_prev_epoch_id = None, er_key_epoch = 1, er_reason = Genesis,
        er_head_index = 0, er_key_commitment_ke = 11\<rparr>],
      vs_key_commitment_s = Some 12\<rparr>"

lemma with_label_valid: "valid_label l \<Longrightarrow> with_label l = Inr (labelled l)"
  by (simp add: with_label_def labelled_def)

lemma signed_bytes_parse:
  "length body \<le> mx \<Longrightarrow> length body < 2 ^ 32 \<Longrightarrow>
   signed_record_parse (signed_bytes body) mx = Inr \<lparr>sr_body = body, sr_signature = 0\<rparr>"
  by (subst signed_record_codec)
    (simp_all add: signed_record_encode_def signed_bytes_def res_bind_Inr_iff w_bytes_iff wire_appends)

lemma trusting_key [simp]: "ed25519_public_key_acceptable trusting k"
  by (simp add: trusting_def ed25519_public_key_acceptable_def ed25519_point_acceptable_def)

lemma be_zero: "be k 0 = replicate k 0"
  by (induction k) auto

lemma be_one: "be (Suc k) 1 = replicate k 0 @ [1]"
proof (induction k)
  case (Suc k)
  have "(1 :: nat) < 256 * 256 ^ k" using one_le_power [of "256 :: nat" k] by linarith
  then show ?case using Suc by (simp add: of_nat_Suc)
qed (simp add: of_nat_Suc)

lemma of_be_zeros [simp]: "of_be (replicate k 0) = 0"
  by (induction k) auto

lemma le_value_zeros: "le_value (replicate k 0) = 0"
  by (simp add: le_value_def)

lemma trusting_signature [simp]: "ed25519_verify_strict trusting k m 0"
proof -
  have "scalar_below_order (drop 32 (array_bytes (0 :: 512 word)))"
    by (simp add: scalar_below_order_iff array_bytes_def be_zero le_value_zeros group_order_value)
  then show ?thesis by (simp add: trusting_def ed25519_verify_strict_def ed25519_point_acceptable_def)
qed

lemma array_one: "array_bytes (1 :: 256 word) = replicate 31 0 @ [1]"
  using be_one [of 31] by (simp add: array_bytes_def)

lemma kem_key_one [simp]: "x25519_public_key_acceptable 1"
proof -
  have "le_value (array_bytes (1 :: 256 word)) = 2 ^ 248"
    by (simp add: le_value_def array_one)
  then show ?thesis by (simp add: x25519_public_key_acceptable_exact small_order_u_def)
qed

lemma labels_length: "length membership_label = 26" "length epoch_label = 28" "length fingerprint_label = 21"
  by (simp_all add: membership_label_def epoch_label_def fingerprint_label_def ascii_bytes_def)

lemma founding_lengths:
  "length (membership_body_bytes (labelled membership_label) (founding_body t)) < 512"
  "length (epoch_body_bytes (labelled epoch_label) founding_epoch) < 512"
  by (simp_all add: membership_body_bytes_def epoch_body_bytes_def labelled_def labels_length founding_body_def
      founding_epoch_def w_recipient_def w_opt_def wire_appends w_all_def)

lemma founding_parse:
  "in_i64 t \<Longrightarrow> signed_record_parse (founding_record t) max_membership_body =
     Inr \<lparr>sr_body = membership_body_bytes (labelled membership_label) (founding_body t), sr_signature = 0\<rparr> \<and>
   membership_body_decode (membership_body_bytes (labelled membership_label) (founding_body t)) = Inr (founding_body t)"
  using founding_lengths(1) [of t] with_label_valid
  by (simp add: founding_record_def signed_bytes_parse max_membership_body_def membership_body_decode_iff founding_body_def)

lemma founding_epoch_parse:
  "signed_record_parse founding_epoch_record max_epoch_body =
     Inr \<lparr>sr_body = epoch_body_bytes (labelled epoch_label) founding_epoch, sr_signature = 0\<rparr> \<and>
   epoch_body_decode (epoch_body_bytes (labelled epoch_label) founding_epoch) = Inr founding_epoch"
  using founding_lengths(2) with_label_valid
  by (simp add: founding_epoch_record_def signed_bytes_parse max_epoch_body_def epoch_body_codec
      epoch_body_encode_iff epoch_body_ok_def founding_epoch_def recipient_ok_def sealed_keys_ciphertext_len_def
      max_recipients_def recipients_ascending_def)

lemma last_hash_append: "ys \<noteq> [] \<Longrightarrow> last_hash (xs @ ys) = last_hash ys"
  by (simp add: last_hash_def)

lemma be_empty: "be k n = [] \<longleftrightarrow> k = 0"
  by (cases k) simp_all

lemma last_be: "0 < k \<Longrightarrow> last (be k n) = word_of_nat n"
  by (induction k) (auto simp: be_empty)

lemma last_hash_be: "0 < k \<Longrightarrow> last_hash (be k n) = word_of_nat (n mod 256)"
  by (simp only: last_hash_def be_empty last_be unat_of_nat) simp

lemma founding_ids:
  "signed_record_id last_hash \<lparr>sr_body = membership_body_bytes l (founding_body 0), sr_signature = sig\<rparr> = 0"
  "signed_record_id last_hash \<lparr>sr_body = membership_body_bytes l (founding_body 1), sr_signature = sig\<rparr> = 1"
  "signed_record_id last_hash \<lparr>sr_body = epoch_body_bytes l founding_epoch, sr_signature = sig\<rparr> = 0"
  "mb_fingerprint last_hash (founding_body t) = Inr (Fingerprint 1)"
proof -
  have w64: "w_i64 n [] = be 8 (unat (word_of_int n :: 64 word))" for n by (simp add: w_i64_def)
  show "signed_record_id last_hash \<lparr>sr_body = membership_body_bytes l (founding_body 0), sr_signature = sig\<rparr> = 0"
    "signed_record_id last_hash \<lparr>sr_body = membership_body_bytes l (founding_body 1), sr_signature = sig\<rparr> = 1"
    by (simp_all add: signed_record_id_def membership_body_bytes_def last_hash_append w64 last_hash_be be_empty founding_body_def
        of_nat_Suc del: be.simps)
  show "signed_record_id last_hash \<lparr>sr_body = epoch_body_bytes l founding_epoch, sr_signature = sig\<rparr> = 0"
    by (simp add: signed_record_id_def epoch_body_bytes_def founding_epoch_def w_recipient_def last_hash_def)
  show "mb_fingerprint last_hash (founding_body t) = Inr (Fingerprint 1)"
    by (simp add: mb_fingerprint_total founding_body_def array_one last_hash_def of_nat_Suc)
qed

lemma apply_membership_parsed:
  assumes "signed_record_parse bs max_membership_body = Inr rec" "membership_body_decode (sr_body rec) = Inr body"
    "mb_suite_id body = suite_one" "mb_kem_id body = kem_one" "mb_vault_id body = vs_vault_id s"
    "mb_fingerprint sha256 body = Inr fp" "length (vs_steps s) < max_chain_len"
  shows "apply_membership sha256 c s i bs =
    (if 1 \<le> unat (mb_version body) \<and> unat (mb_version body) \<le> length (vs_steps s) then
       (if st_id (vs_steps s ! (unat (mb_version body) - 1)) = signed_record_id sha256 rec then Inr s
        else Inl (conflicting_membership c s i (unat (mb_version body)) body fp rec (signed_record_id sha256 rec)))
     else case last_opt (vs_steps s) of
            None \<Rightarrow> apply_genesis c s i body fp rec (signed_record_id sha256 rec)
          | Some previous \<Rightarrow> apply_next c s i body fp rec (signed_record_id sha256 rec) previous)"
  using assms by (simp add: apply_membership_eq map_err_def check_suite_def Let_def del: One_nat_def)

lemma apply_epoch_parsed:
  assumes "signed_record_parse bs max_epoch_body = Inr rec" "epoch_body_decode (sr_body rec) = Inr body"
    "eb_suite_id body = suite_one" "eb_kem_id body = kem_one" "eb_vault_id body = vs_vault_id s"
    "length (vs_epochs s) < max_chain_len"
  shows "apply_epoch sha256 c s i bs =
    (case find (\<lambda>e. er_prev_epoch_id e = eb_prev_epoch_id body) (vs_epochs s) of
       Some existing \<Rightarrow>
         (if er_id existing = signed_record_id sha256 rec then Inr s
          else Inl (conflicting_epoch c s i body rec (er_id existing) (signed_record_id sha256 rec)))
     | None \<Rightarrow> apply_new_epoch c s i body rec (signed_record_id sha256 rec))"
  using assms by (simp add: apply_epoch_def map_err_def check_suite_def Let_def)

lemma founding_fields:
  "mb_suite_id (founding_body t) = suite_one" "mb_kem_id (founding_body t) = kem_one" "mb_vault_id (founding_body t) = 7"
  "mb_version (founding_body t) = 1" "mb_prev_id (founding_body t) = None" "mb_action (founding_body t) = Add"
  "mb_signer_fingerprint (founding_body t) = Fingerprint 1" "mb_device_id (founding_body t) = 5"
  "mb_ed25519_pk (founding_body t) = 3" "mb_kem_public_key (founding_body t) = 1"
  by (simp_all add: founding_body_def suite_one_def kem_one_def)

lemma founding_epoch_fields:
  "eb_suite_id founding_epoch = suite_one" "eb_kem_id founding_epoch = kem_one" "eb_vault_id founding_epoch = 7"
  by (simp_all add: founding_epoch_def suite_one_def kem_one_def)

lemma small_times: "in_i64 0" "in_i64 1"
  by (simp_all add: in_i64_def i64_min_def i64_max_def)

lemma founding_membership:
  "apply_membership last_hash trusting (verified_state_empty 7) i (founding_record 0) =
     Inr (founded\<lparr>vs_epochs := [], vs_key_commitment_s := None\<rparr>)"
  using founding_parse [OF small_times(1)]
  by (simp add: apply_membership_parsed [where fp = "Fingerprint 1"] founding_fields founding_ids max_chain_len_def
      verified_state_empty_def last_opt_def apply_genesis_def new_member_def push_step_def founded_def)

lemma founding_seal:
  "apply_epoch last_hash trusting (founded\<lparr>vs_epochs := [], vs_key_commitment_s := None\<rparr>) i founding_epoch_record =
     Inr founded"
proof -
  let ?rec = "\<lparr>sr_body = epoch_body_bytes (labelled epoch_label) founding_epoch, sr_signature = 0\<rparr>"
  have "apply_new_epoch trusting (founded\<lparr>vs_epochs := [], vs_key_commitment_s := None\<rparr>) i founding_epoch ?rec 0 =
      Inr founded"
    by (simp add: apply_new_epoch_def usize_add_def authorized_member_def authorized_at_def epoch_sequence_def last_opt_def
        expected_recipients_def founding_epoch_def founded_def suite_one_def kem_one_def of_nat_Suc)
  then show ?thesis
    using apply_epoch_parsed [OF founding_epoch_parse [THEN conjunct1]] founding_epoch_parse
    by (simp add: founding_ids founding_epoch_fields max_chain_len_def founded_def)
qed

lemma founding_chain:
  "verify_chain last_hash trusting 7 [founding_record 0] [founding_epoch_record] = Inr founded"
  by (simp add: verify_chain_def extend_def founding_membership founding_seal)
    (simp add: coupled_def usize_add_def founded_def last_opt_def)

lemma founded_verified: "verified last_hash trusting 7 founded"
  using verified_extend [OF verified_empty] founding_chain unfolding verify_chain_def by blast

lemma founding_fork:
  "extend last_hash trusting founded [founding_record 1] [] = Inl (Ch_Fork 1 0 1)"
proof -
  have "conflicting_membership trusting founded 0 1 (founding_body 1) (Fingerprint 1)
      \<lparr>sr_body = membership_body_bytes (labelled membership_label) (founding_body 1), sr_signature = 0\<rparr> 1 =
      Ch_Fork 1 0 1"
    by (simp add: conflicting_membership_def usize_sub_def index_at_def founding_fields founded_def)
  then show ?thesis
    using founding_parse [OF small_times(2)]
    by (simp add: extend_def apply_membership_parsed [where fp = "Fingerprint 1"] founding_fields founding_ids
        max_chain_len_def founded_def)
qed

end
