(* ===== verification/Membership_Properties.thy ===== *)
theory Membership_Properties
  imports Membership_Example
begin

text \<open>
  The properties of the membership chain, over every state that accepted records lead to, with the
  founded chain as their witness.
\<close>

declare of_nat_Suc [simp del]

text \<open>
  C5: Whatever batch of records a verified chain accepts, the result is well formed: identities and
  keys are never reused, every member was added by an add and revoked by a later revoke, at every version there is
  an authorized member and at most 1024, key epochs count up along the epoch records, distinct keys have
  distinct epochs, and the newest epoch record names the newest membership record.
\<close>
theorem chain_stays_well_formed:
  assumes "verified sha256 c vault_id s" "extend sha256 c s ms es = Inr s'"
  shows "chain_ok s' \<and> epochs_ok s' \<and>
    (vs_steps s' \<noteq> [] \<longrightarrow> vs_epochs s' \<noteq> [] \<and> Suc (er_head_index (last (vs_epochs s'))) = length (vs_steps s'))"
  using assms(2)
proof (rule extend_Inr)
  assume coupling: "vs_steps s' = [] \<or> vs_epochs s' \<noteq> [] \<and> length (vs_steps s') \<le> Suc (er_head_index (last (vs_epochs s')))"
  have ok: "chain_ok s' \<and> epochs_ok s'" using verified_ok [OF verified_extend [OF assms]] .
  then have "vs_epochs s' \<noteq> [] \<Longrightarrow> er_head_index (last (vs_epochs s')) < length (vs_steps s')"
    by (simp add: epochs_ok_def)
  then show ?thesis using ok coupling by linarith
qed

theorem chain_stays_well_formed_witness:
  "chain_ok founded \<and> epochs_ok founded \<and> Suc (er_head_index (last (vs_epochs founded))) = length (vs_steps founded)"
proof -
  have "vs_steps founded \<noteq> []" by (simp add: founded_def)
  with chain_stays_well_formed [OF verified_empty] founding_chain show ?thesis unfolding verify_chain_def by blast
qed

text \<open>
  C6: What was verified does not change: a longer chain keeps every membership record, every epoch record and
  the vault, and at each of the old versions the same keys sign for the same devices.
\<close>
theorem chain_history_immutable:
  assumes "verified sha256 c vault_id s" "extend sha256 c s ms es = Inr s'"
  shows "prefix (vs_steps s) (vs_steps s') \<and> prefix (vs_epochs s) (vs_epochs s') \<and> vs_vault_id s' = vs_vault_id s \<and>
    (\<forall>v \<in> {1..length (vs_steps s)}. \<forall>fp. signer_at s' fp v = signer_at s fp v)"
  using extend_extends [OF assms] unfolding extends_def .

theorem chain_history_immutable_witness:
  "prefix (vs_steps founded) (vs_steps founded) \<and>
   signer_at founded (Fingerprint 1) 1 = Some (5, Fingerprint 1, 3, 1)"
proof -
  have "extend last_hash trusting founded [] [] = Inr founded"
    by (simp add: extend_def coupled_def usize_add_def founded_def last_opt_def)
  from chain_history_immutable [OF founded_verified this] show ?thesis
    by (simp add: signer_at_def authorized_member_by_fingerprint_at_version_def authorized_member_def founded_def
        authorized_at_def keys_of_def of_nat_Suc)
qed

text \<open>
  C7: A new epoch record is signed by a member authorized at the version it names, and its recipients are
  exactly the members authorized at that version, each once, and nobody else; those of a grant are one
  member alone, the one added at that version, who is authorized there.
\<close>
theorem epoch_key_goes_to_members:
  assumes "verified sha256 c vault_id s" "apply_epoch sha256 c s i bs = Inr s'" "s' \<noteq> s"
  shows "\<exists>rec body e sealer version.
    signed_record_parse bs max_epoch_body = Inr rec \<and> epoch_body_decode (sr_body rec) = Inr body \<and>
    vs_epochs s' = vs_epochs s @ [e] \<and> er_head_index e < length (vs_steps s) \<and>
    st_id (vs_steps s ! er_head_index e) = eb_membership_head body \<and>
    version = word_of_nat (Suc (er_head_index e)) \<and>
    sealer \<in> set (vs_members s) \<and> m_fingerprint sealer = eb_sealer_fingerprint body \<and> authorized_at sealer version \<and>
    ed25519_verify_strict c (m_ed25519_pk sealer) (sr_body rec) (sr_signature rec) \<and>
    distinct (map rc_fingerprint (eb_recipients body)) \<and>
    (if eb_reason body = Grant
     then \<exists>m \<in> set (vs_members s). map rc_key (eb_recipients body) = [m_key m] \<and>
            m_added_at_version m = version \<and> authorized_at m version
     else rc_key ` set (eb_recipients body) = m_key ` {m \<in> set (vs_members s). authorized_at m version})"
  using assms(2,3)
proof (rule new_epoch_record)
  fix rec body e sealer
  assume e: "signed_record_parse bs max_epoch_body = Inr rec" "epoch_body_decode (sr_body rec) = Inr body"
    "vs_epochs s' = vs_epochs s @ [e]" "st_id (vs_steps s ! er_head_index e) = eb_membership_head body"
    "er_head_index e < length (vs_steps s)" "er_reason e = eb_reason body"
    and sealer: "authorized_member s (eb_sealer_fingerprint body) (word_of_nat (Suc (er_head_index e))) = Some sealer"
      "ed25519_verify_strict c (m_ed25519_pk sealer) (sr_body rec) (sr_signature rec)"
    and recipients: "set (map rc_key (eb_recipients body)) =
       m_key ` set (expected_recipients s (er_reason e) (word_of_nat (Suc (er_head_index e))))"
      "distinct (map rc_fingerprint (eb_recipients body))"
    and add: "eb_reason body = Grant \<Longrightarrow> st_action (vs_steps s ! er_head_index e) = Add"
  let ?v = "word_of_nat (Suc (er_head_index e)) :: 64 word"
  have grant: "\<exists>m \<in> set (vs_members s). map rc_key (eb_recipients body) = [m_key m] \<and>
      m_added_at_version m = ?v \<and> authorized_at m ?v" if "eb_reason body = Grant"
    by (rule granted_to_one [OF assms(1) e(5) add [OF that]]) (use recipients that e(6) in simp_all)
  have others: "rc_key ` set (eb_recipients body) = m_key ` {m \<in> set (vs_members s). authorized_at m ?v}"
    if "eb_reason body \<noteq> Grant"
    using recipients(1) that e(6) by (cases "eb_reason body") (simp_all add: expected_recipients_def)
  show ?thesis
    using e sealer(2) authorized_memberD [OF sealer(1)] recipients(2) grant others by auto
qed

theorem epoch_key_goes_to_members_witness:
  "\<exists>body sealer. epoch_body_decode (epoch_body_bytes (labelled epoch_label) founding_epoch) = Inr body \<and>
     sealer \<in> set (vs_members founded) \<and> authorized_at sealer 1 \<and>
     rc_key ` set (eb_recipients body) = m_key ` {m \<in> set (vs_members founded). authorized_at m 1}"
proof -
  let ?s = "founded\<lparr>vs_epochs := [], vs_key_commitment_s := None\<rparr>"
  have v: "verified last_hash trusting 7 ?s"
    by (rule verified_membership [OF verified_empty founding_membership])
  have "founded \<noteq> ?s" by (simp add: founded_def)
  from epoch_key_goes_to_members [OF v founding_seal this] founding_epoch_parse
  obtain e sealer where "vs_epochs founded = vs_epochs ?s @ [e]" "er_head_index e < length (vs_steps ?s)"
      "sealer \<in> set (vs_members ?s)" "authorized_at sealer (word_of_nat (Suc (er_head_index e)))"
      "if eb_reason founding_epoch = Grant then True
       else rc_key ` set (eb_recipients founding_epoch) =
         m_key ` {m \<in> set (vs_members ?s). authorized_at m (word_of_nat (Suc (er_head_index e)))}"
    by fastforce
  then have "sealer \<in> set (vs_members founded)" "authorized_at sealer 1"
      "rc_key ` set (eb_recipients founding_epoch) = m_key ` {m \<in> set (vs_members founded). authorized_at m 1}"
    by (simp_all add: founded_def founding_epoch_def of_nat_Suc)
  then show ?thesis using founding_epoch_parse by blast
qed

text \<open>
  C8: The verifier halts only on evidence against a member.  The evidence is a record of the delivered batch,
  judged at the verified state that the records before it lead to: another membership record for a version that
  state holds, or another epoch record after one it holds, with the valid signature of a member of that state who
  was authorized to write it (for the first version the founder).  The halt names the accepted record and the
  conflicting one.  Nobody outside the vault can halt it.
\<close>
theorem halt_needs_member_evidence:
  assumes "verified sha256 c vault_id s" "extend sha256 c s ms es = Inl e" "halts_sync e"
  shows "(\<exists>earlier b later t. ms = earlier @ b # later \<and> apply_memberships sha256 c 0 earlier s = Inr t \<and>
      verified sha256 c vault_id t \<and> fork_evidence sha256 c t b e) \<or>
    (\<exists>earlier b later r t. es = earlier @ b # later \<and> apply_memberships sha256 c 0 ms s = Inr r \<and>
      apply_epochs sha256 c 0 earlier r = Inr t \<and> verified sha256 c vault_id t \<and> equivocation_evidence sha256 c t b e)"
  using assms by (rule extend_halts) blast+

theorem halt_needs_member_evidence_witness:
  "fork_evidence last_hash trusting founded (founding_record 1) (Ch_Fork 1 0 1)"
proof -
  have "(\<exists>earlier b later t. [founding_record 1] = earlier @ b # later \<and>
      apply_memberships last_hash trusting 0 earlier founded = Inr t \<and>
      verified last_hash trusting 7 t \<and> fork_evidence last_hash trusting t b (Ch_Fork 1 0 1))"
    using halt_needs_member_evidence [OF founded_verified founding_fork] by (simp add: halts_sync_def)
  then show ?thesis by (auto simp: Cons_eq_append_conv)
qed

text \<open>
  Within one key epoch members are only added, so the question \<open>is this device a member in this
  epoch\<close>, which the code answers at the epoch's last record, is answered yes exactly when the device
  was authorized at one of the epoch's records.
\<close>
theorem epoch_members_window:
  assumes "verified sha256 c vault_id s"
  shows "authorized_member_in_epoch s device k \<noteq> None \<longleftrightarrow>
    (\<exists>e \<in> set (vs_epochs s). er_key_epoch e = k \<and>
       (\<exists>m \<in> set (vs_members s). m_device_id m = device \<and> authorized_at m (word_of_nat (Suc (er_head_index e)))))"
proof -
  have ok: "chain_ok s" "epochs_ok s" using verified_ok [OF assms] by simp_all
  show ?thesis
  proof (cases "find (\<lambda>e. er_key_epoch e = k) (rev (vs_epochs s))")
    case None
    then have "\<forall>e \<in> set (vs_epochs s). er_key_epoch e \<noteq> k" by (simp add: find_None)
    then show ?thesis using None by (simp add: authorized_member_in_epoch_def)
  next
    case (Some l)
    obtain b where b: "b < length (vs_epochs s)" "l = vs_epochs s ! b" "er_key_epoch l = k"
      and latest: "\<And>a. a < length (vs_epochs s) \<Longrightarrow> er_key_epoch (vs_epochs s ! a) = k \<Longrightarrow> a \<le> b"
      using find_rev_last [OF Some] by blast
    have l: "l \<in> set (vs_epochs s)" using nth_mem [OF b(1)] b(2) by simp
    have "authorized_at m (word_of_nat (Suc (er_head_index l)))"
      if e: "e \<in> set (vs_epochs s)" "er_key_epoch e = k" and m: "m \<in> set (vs_members s)"
        "authorized_at m (word_of_nat (Suc (er_head_index e)))" for e m
    proof -
      from e(1) obtain a where a: "a < length (vs_epochs s)" "vs_epochs s ! a = e" unfolding in_set_conv_nth by blast
      have ab: "a \<le> b" using latest a e(2) by simp
      have lk: "vs_epochs s ! b = l" using b(2) by simp
      have adds: "st_action (vs_steps s ! i) = Add" if "er_head_index e < i" "i \<le> er_head_index l" for i
        using same_key_adds [OF ok(2) b(1) ab, of i] that e(2) b(3) unfolding a(2) lk by simp
      have "er_head_index e \<le> er_head_index l" using epoch_mono [OF ok(2) b(1) ab] unfolding a(2) lk by simp
      moreover have "er_head_index l < length (vs_steps s)" using ok(2) nth_mem [OF b(1)] lk by (simp add: epochs_ok_def)
      ultimately show ?thesis using authorized_later [OF ok(1) m(1)] adds m(2) by blast
    qed
    then have "(\<exists>m \<in> set (vs_members s). m_device_id m = device \<and> authorized_at m (word_of_nat (Suc (er_head_index l)))) \<longleftrightarrow>
        (\<exists>e \<in> set (vs_epochs s). er_key_epoch e = k \<and>
           (\<exists>m \<in> set (vs_members s). m_device_id m = device \<and> authorized_at m (word_of_nat (Suc (er_head_index e)))))"
      using l b(3) by blast
    then show ?thesis using Some by (simp add: authorized_member_in_epoch_def find_None)
  qed
qed

theorem epoch_members_window_witness:
  "authorized_member_in_epoch founded 5 1 \<noteq> None"
  unfolding epoch_members_window [OF founded_verified] by (simp add: founded_def authorized_at_def of_nat_Suc)

text \<open>
  C32: The verified state can be stored and read back: it encodes, and decoding the bytes gives the same state.
\<close>
theorem verified_state_round_trip:
  assumes "verified sha256 c vault_id s"
  shows "\<exists>bs. verified_state_encode s = Inr bs \<and> verified_state_decode bs = Inr s"
  using storable [OF verified_ok [OF assms, THEN conjunct1] verified_ok [OF assms, THEN conjunct2]]
    verified_state_encode_iff verified_state_decode_iff by blast

theorem verified_state_round_trip_witness:
  "\<exists>bs. verified_state_encode founded = Inr bs \<and> verified_state_decode bs = Inr founded"
  by (rule verified_state_round_trip [OF founded_verified])

text \<open>
  C35: Verification does not panic, whatever bytes are delivered to a verified chain: the verifier never indexes
  its lists of records and members out of range, no subtraction or addition on \<^verbatim>\<open>usize\<close> or \<^verbatim>\<open>u64\<close> leaves the type,
  and neither the \<^verbatim>\<open>expect\<close> of the fingerprint nor the \<^verbatim>\<open>unreachable!\<close> of the reason table is reached.
\<close>
theorem verification_never_panics:
  assumes "verified sha256 c vault_id s"
  shows "extend sha256 c s ms es \<noteq> Inl Ch_Panic"
  using assms by (rule extend_no_panic)

theorem verification_never_panics_witness:
  "extend last_hash trusting founded [[]] [] \<noteq> Inl Ch_Panic"
  by (rule verification_never_panics [OF founded_verified])

text \<open>
  Delivering a batch again changes nothing, also when other records were accepted in the
  batch before it, as long as the chain is below its greatest length.
\<close>
theorem redelivery_is_harmless:
  assumes "verified sha256 c vault_id s" "extend sha256 c s ms es = Inr t"
    "length (vs_steps t) < max_chain_len" "length (vs_epochs t) < max_chain_len"
  shows "extend sha256 c t ms es = Inr t"
  using assms by (rule extend_repeated)

theorem redelivery_is_harmless_witness:
  "extend last_hash trusting founded [founding_record 0] [founding_epoch_record] = Inr founded"
proof -
  have "length (vs_steps founded) < max_chain_len" "length (vs_epochs founded) < max_chain_len"
    by (simp_all add: founded_def max_chain_len_def)
  with redelivery_is_harmless [OF verified_empty] founding_chain show ?thesis unfolding verify_chain_def by blast
qed

end
