(* ===== verification/Sync_Envelope.thy ===== *)
theory Sync_Envelope
  imports Membership
begin

text \<open>
  \<^verbatim>\<open>crates/sync-core/src/envelope.rs\<close>: the plaintext of a command envelope with its encoding, the
  commitments that bind it to its clear header, the digest of an envelope, and the checks a receiver runs
  after decryption (the range of \<^verbatim>\<open>issued_at\<close> is that of \<^verbatim>\<open>crates/core-ids/src/issued_at.rs\<close>).

  SHA-256 and the keyed hash of idempotency keys are parameters.  Digests compare as the words of their
  bytes, which is their byte order.  An \<^verbatim>\<open>expect\<close> is the error \<open>Wire_Panic\<close> or \<open>Rx_Panic\<close>.
\<close>

unbundle bit_operations_syntax

definition plaintext_label :: bytes where "plaintext_label = ascii_bytes ''dohflow/sync-envelope-plaintext/v1''"
definition meta_commit_label :: bytes where "meta_commit_label = ascii_bytes ''dohflow/sync-meta-commit/v1''"
definition manifest_label :: bytes where "manifest_label = ascii_bytes ''dohflow/sync-artifact-manifest/v1''"
definition envelope_digest_label :: bytes where "envelope_digest_label = ascii_bytes ''dohflow/sync-envelope-digest/v1''"
definition max_manifest_entries :: nat where "max_manifest_entries = 4096"
definition max_payload :: nat where "max_payload = 2 ^ 24"
definition max_actor_id :: nat where "max_actor_id = 256"

section \<open>Idempotency keys\<close>

datatype idempotency_key = IdempotencyKey (key_word: "128 word")

datatype invalid_key = InvalidKey

definition key_from_bytes :: "128 word \<Rightarrow> (invalid_key, idempotency_key) res" where
  "key_from_bytes k =
     (let bs = array_bytes k
      in if drop_bit 4 (bs ! 6) = 4 \<and> drop_bit 6 (bs ! 8) = 2 then Inr (IdempotencyKey k) else Inl InvalidKey)"

definition lower_hex :: "byte \<Rightarrow> byte option" where
  "lower_hex b =
     (if 0x30 \<le> b \<and> b \<le> 0x39 then Some (b - 0x30)
      else if 0x61 \<le> b \<and> b \<le> 0x66 then Some (b - 0x61 + 10)
      else None)"

function key_loop :: "bytes \<Rightarrow> nat \<Rightarrow> bytes \<Rightarrow> bytes option" where
  "key_loop bs p raw =
     (if 36 \<le> p then Some raw
      else if p \<in> {8, 13, 18, 23} then
        (if bs ! p \<noteq> 0x2D then None else key_loop bs (p + 1) raw)
      else
        case (lower_hex (bs ! p), lower_hex (bs ! (p + 1))) of
          (Some high, Some low) \<Rightarrow> key_loop bs (p + 2) (raw @ [push_bit 4 high OR low])
        | _ \<Rightarrow> None)"
  by auto

termination
  by (relation "measure (\<lambda>(bs, p, raw). 36 - p)") auto

declare key_loop.simps [simp del]

definition key_parse :: "bytes \<Rightarrow> (invalid_key, idempotency_key) res" where
  "key_parse txt =
     (if length txt \<noteq> 36 then Inl InvalidKey
      else case key_loop txt 0 [] of
             None \<Rightarrow> Inl InvalidKey
           | Some raw \<Rightarrow> key_from_bytes (word_of_nat (of_be raw)))"

section \<open>Metadata and its commitment\<close>

record immutable_meta =
  im_command_id :: "128 word"
  im_correlation_id :: "128 word"
  im_causation_id :: "128 word option"
  im_actor_type :: byte
  im_actor_id :: bytes
  im_idempotency_key :: idempotency_key
  im_issued_at :: int
  im_device_id :: "128 word"

definition check_actor_type :: "byte \<Rightarrow> (wire_error, unit) res" where
  "check_actor_type t = (if 1 \<le> t \<and> t \<le> 4 then Inr () else Inl UnknownActorType)"

definition write_fields :: "immutable_meta \<Rightarrow> bytes \<Rightarrow> (wire_error, bytes) res" where
  "write_fields m w =
     res_bind (check_actor_type (im_actor_type m)) (\<lambda>_.
       let w = w_all [w_fixed (im_command_id m), w_fixed (im_correlation_id m), w_opt (im_causation_id m) w_fixed,
                 w_u8 (im_actor_type m)] w
       in res_bind (w_text max_actor_id (im_actor_id m) w) (\<lambda>w.
            Inr (w_all [w_fixed (key_word (im_idempotency_key m)), w_i64 (im_issued_at m)] w)))"

definition meta_commitment :: "hash \<Rightarrow> immutable_meta \<Rightarrow> (wire_error, metadata_commitment) res" where
  "meta_commitment sha256 m =
     res_bind (with_label meta_commit_label) (\<lambda>w.
     res_bind (write_fields m w) (\<lambda>w.
       Inr (MetadataCommitment (sha256 (w_fixed (im_device_id m) w)))))"

section \<open>Manifests\<close>

datatype artifact_manifest = ArtifactManifest (manifest_ids: "256 word list")

definition adjacent :: "('a \<Rightarrow> 'a \<Rightarrow> bool) \<Rightarrow> 'a list \<Rightarrow> bool" where
  "adjacent P xs \<longleftrightarrow> list_ex (\<lambda>(a, b). P a b) (zip xs (tl xs))"

definition manifest_new :: "256 word list \<Rightarrow> (wire_error, artifact_manifest) res" where
  "manifest_new ids =
     (if max_manifest_entries < length ids then Inl TooLong
      else
        let ids = sort ids
        in if adjacent (=) ids then Inl ListNotAscending else Inr (ArtifactManifest ids))"

definition manifest_bytes_bounded :: "256 word list \<Rightarrow> nat \<Rightarrow> (wire_error, bytes) res" where
  "manifest_bytes_bounded ids mx =
     res_bind (with_label manifest_label) (\<lambda>w.
       case w_list mx ids w_fixed w of Inl _ \<Rightarrow> Inl Wire_Panic | Inr w \<Rightarrow> Inr w)"

definition manifest_preimage_head :: "32 word \<Rightarrow> (wire_error, bytes) res" where
  "manifest_preimage_head n = res_bind (with_label manifest_label) (\<lambda>w. Inr (w_u32 n w))"

definition manifest_commit :: "hash \<Rightarrow> artifact_manifest \<Rightarrow> (wire_error, manifest_commitment) res" where
  "manifest_commit sha256 m =
     res_bind (manifest_bytes_bounded (manifest_ids m) max_manifest_entries) (\<lambda>w. Inr (ManifestCommitment (sha256 w)))"

section \<open>The plaintext\<close>

record envelope_plaintext =
  pt_meta :: immutable_meta
  pt_write_set_hash :: "256 word"
  pt_delta_manifest :: artifact_manifest
  pt_payload :: bytes

definition plaintext_encode :: "envelope_plaintext \<Rightarrow> (wire_error, bytes) res" where
  "plaintext_encode p =
     res_bind (with_label plaintext_label) (\<lambda>w.
     res_bind (write_fields (pt_meta p) w) (\<lambda>w.
       let w = w_all [w_fixed (im_device_id (pt_meta p)), w_fixed (pt_write_set_hash p)] w
       in res_bind (w_list max_manifest_entries (manifest_ids (pt_delta_manifest p)) w_fixed w) (\<lambda>w.
            w_bytes max_payload (pt_payload p) w)))"

definition key_read :: "128 word \<Rightarrow> (wire_error, idempotency_key) res" where
  "key_read k = (case key_from_bytes k of Inl _ \<Rightarrow> Inl InvalidIdempotencyKey | Inr k \<Rightarrow> Inr k)"

definition plaintext_decode :: "bytes \<Rightarrow> (wire_error, envelope_plaintext) res" where
  "plaintext_decode bs =
     res_bind (r_label plaintext_label bs) (\<lambda>r.
     res_bind (r_fixed r) (\<lambda>(command_id, r).
     res_bind (r_fixed r) (\<lambda>(correlation_id, r).
     res_bind (r_opt r_fixed r) (\<lambda>(causation_id, r).
     res_bind (r_u8 r) (\<lambda>(actor_type, r).
     res_bind (check_actor_type actor_type) (\<lambda>_.
     res_bind (r_text max_actor_id r) (\<lambda>(actor_id, r).
     res_bind (r_fixed r) (\<lambda>(key, r).
     res_bind (key_read key) (\<lambda>key.
     res_bind (r_i64 r) (\<lambda>(issued_at, r).
     res_bind (r_fixed r) (\<lambda>(device_id, r).
     res_bind (r_fixed r) (\<lambda>(write_set_hash, r).
     res_bind (r_list max_manifest_entries 32 r_fixed r) (\<lambda>(delta, r).
     if adjacent (\<ge>) delta then Inl ListNotAscending else
     res_bind (r_bytes max_payload r) (\<lambda>(payload, r).
     res_bind (r_finish r) (\<lambda>_.
     Inr \<lparr>pt_meta = \<lparr>im_command_id = command_id, im_correlation_id = correlation_id,
            im_causation_id = causation_id, im_actor_type = actor_type, im_actor_id = actor_id,
            im_idempotency_key = key, im_issued_at = issued_at, im_device_id = device_id\<rparr>,
          pt_write_set_hash = write_set_hash, pt_delta_manifest = ArtifactManifest delta,
          pt_payload = payload\<rparr>)))))))))))))))"

definition canonical_envelope_digest :: "hash \<Rightarrow> bytes \<Rightarrow> bytes \<Rightarrow> (wire_error, 256 word) res" where
  "canonical_envelope_digest sha256 header_bytes ciphertext =
     (if 2 ^ 32 \<le> length header_bytes then Inl TooLong
      else if 2 ^ 64 \<le> length ciphertext then Inl TooLong
      else res_bind (with_label envelope_digest_label) (\<lambda>w.
        Inr (sha256 (w @ be 4 (length header_bytes) @ header_bytes @ be 8 (length ciphertext) @ ciphertext))))"

section \<open>The checks of a receiver\<close>

definition issued_at_min_micros :: int where "issued_at_min_micros = 0"
definition issued_at_max_micros :: int where "issued_at_max_micros = 253402300799999999"

definition issued_at_in_range :: "int \<Rightarrow> bool" where
  "issued_at_in_range micros \<longleftrightarrow> issued_at_min_micros \<le> micros \<and> micros \<le> issued_at_max_micros"

datatype receiver_error =
    NotAnEnvelope | TagMismatch | MetadataCommitmentMismatch | ObjectIdMismatch | DeviceMismatch
  | NonceDomainMismatch | ManifestCommitmentMismatch | UnencodableMetadata | IssuedAtOutOfRange | Rx_Panic

record checked_envelope =
  ce_header :: clear_header
  ce_plaintext :: envelope_plaintext

definition manifest_matches ::
    "hash \<Rightarrow> manifest_commitment option \<Rightarrow> artifact_manifest \<Rightarrow> (receiver_error, bool) res" where
  "manifest_matches sha256 found m =
     (case found of
        None \<Rightarrow> Inr (manifest_ids m = [])
      | Some found \<Rightarrow>
          if manifest_ids m = [] then Inr False
          else case manifest_commit sha256 m of Inl _ \<Rightarrow> Inl Rx_Panic | Inr c \<Rightarrow> Inr (found = c))"

definition check_envelope ::
    "hash \<Rightarrow> (idempotency_key \<Rightarrow> idempotency_key_tag) \<Rightarrow> clear_header \<Rightarrow> envelope_plaintext \<Rightarrow>
     (receiver_error, checked_envelope) res" where
  "check_envelope sha256 tag_for h p =
     (case h_object h of
        Snapshot _ \<Rightarrow> Inl NotAnEnvelope
      | Envelope tag commitment manifest \<Rightarrow>
          if h_object_id h \<noteq> im_command_id (pt_meta p) then Inl ObjectIdMismatch
          else if h_device_id h \<noteq> im_device_id (pt_meta p) then Inl DeviceMismatch
          else if tag \<noteq> tag_for (im_idempotency_key (pt_meta p)) then Inl TagMismatch
          else case meta_commitment sha256 (pt_meta p) of
            Inl _ \<Rightarrow> Inl UnencodableMetadata
          | Inr expected \<Rightarrow>
              if commitment \<noteq> expected then Inl MetadataCommitmentMismatch
              else case nonce_domain_derive sha256 (h_vault_id h) (h_key_epoch h) (h_fingerprint h) object_envelope of
                Inl _ \<Rightarrow> Inl Rx_Panic
              | Inr domain \<Rightarrow>
                  if h_nonce_domain h \<noteq> domain then Inl NonceDomainMismatch
                  else res_bind (manifest_matches sha256 manifest (pt_delta_manifest p)) (\<lambda>manifest_ok.
                    if \<not> manifest_ok then Inl ManifestCommitmentMismatch
                    else if \<not> issued_at_in_range (im_issued_at (pt_meta p)) then Inl IssuedAtOutOfRange
                    else Inr \<lparr>ce_header = h, ce_plaintext = p\<rparr>))"

section \<open>Keys have one text form\<close>

definition hex_digit :: "byte \<Rightarrow> byte" where
  "hex_digit n = (if n < 10 then n + 0x30 else n - 10 + 0x61)"

definition hex_pair :: "byte \<Rightarrow> bytes" where
  "hex_pair b = [hex_digit (drop_bit 4 b), hex_digit (b AND 15)]"

lemma lower_hex_iff: "lower_hex c = Some n \<longleftrightarrow> n < 16 \<and> c = hex_digit n"
proof -
  have "\<forall>c n :: byte. lower_hex c = Some n \<longleftrightarrow> n < 16 \<and> c = hex_digit n"
    unfolding lower_hex_def hex_digit_def
    by (auto simp: word_le_nat_alt word_less_nat_alt unat_word_ariths unat_sub_if' unat_arith_simps split: if_splits)
  then show ?thesis by blast
qed

lemma nibble_take: "(h :: byte) < 16 \<longleftrightarrow> take_bit 4 h = h"
proof -
  have "take_bit 4 h = h \<longleftrightarrow> unat h mod 16 = unat h"
    by (simp add: word_unat_eq_iff take_bit_eq_mod unat_mod)
  then show ?thesis by (simp add: word_less_nat_alt mod_eq_self_iff_div_eq_0 div_eq_0_iff)
qed

lemma nibble_and: "(b :: byte) AND 15 = take_bit 4 b"
  by (simp add: take_bit_eq_mask mask_eq_exp_minus_1)

lemma nibbles:
  assumes "(h :: byte) < 16" "l < 16"
  shows "drop_bit 4 (push_bit 4 h OR l) = h" "(push_bit 4 h OR l) AND 15 = l"
proof -
  have h: "take_bit 4 h = h" and l: "take_bit 4 l = l" using assms nibble_take by blast+
  have hb: "\<not> bit h n" and lb: "\<not> bit l n" if "4 \<le> n" for n
    using h l that by (metis bit_take_bit_iff not_less)+
  show "drop_bit 4 (push_bit 4 h OR l) = h"
    by (rule bit_word_eqI) (use lb hb not_le in \<open>auto simp: bit_simps\<close>)
  show "(push_bit 4 h OR l) AND 15 = l"
    unfolding nibble_and by (rule bit_word_eqI) (use lb in \<open>auto simp: bit_simps\<close>)
qed

lemma nibbles_join: "push_bit 4 (drop_bit 4 b) OR (b AND 15) = (b :: byte)"
  unfolding nibble_and by (rule bit_word_eqI) (auto simp: bit_simps)

lemma nibble_less: "(b :: byte) AND 15 < 16" "drop_bit 4 (b :: byte) < 16"
proof -
  show "b AND 15 < 16" by (simp add: nibble_take nibble_and)
  show "drop_bit 4 b < 16"
    unfolding nibble_take by (rule bit_word_eqI) (use bit_imp_le_length [of b] in \<open>fastforce simp: bit_simps\<close>)
qed

lemma hex_pair_iff:
  "(lower_hex a = Some h \<and> lower_hex b = Some l) \<longleftrightarrow>
     (\<exists>v. [a, b] = hex_pair v \<and> h = drop_bit 4 v \<and> l = v AND 15)"
proof
  assume "lower_hex a = Some h \<and> lower_hex b = Some l"
  then have "h < 16" "a = hex_digit h" "l < 16" "b = hex_digit l" by (simp_all add: lower_hex_iff)
  then show "\<exists>v. [a, b] = hex_pair v \<and> h = drop_bit 4 v \<and> l = v AND 15"
    using nibbles [of h l] by (intro exI [of _ "push_bit 4 h OR l"]) (simp add: hex_pair_def)
next
  assume "\<exists>v. [a, b] = hex_pair v \<and> h = drop_bit 4 v \<and> l = v AND 15"
  then show "lower_hex a = Some h \<and> lower_hex b = Some l"
    using nibble_less by (auto simp: hex_pair_def lower_hex_iff)
qed

lemma key_loop_end: "key_loop bs 36 raw = Some r \<longleftrightarrow> r = raw"
  by (subst key_loop.simps) auto

lemma key_loop_hyphen:
  "p \<in> {8, 13, 18, 23} \<Longrightarrow> q = p + 1 \<Longrightarrow> key_loop bs p raw = Some r \<longleftrightarrow> bs ! p = 0x2D \<and> key_loop bs q raw = Some r"
  by (subst key_loop.simps) auto

lemma key_loop_pair:
  assumes "p < 36" "p \<notin> {8, 13, 18, 23}" "q = p + 1" "n = p + 2"
  shows "key_loop bs p raw = Some r \<longleftrightarrow>
    (\<exists>v. [bs ! p, bs ! q] = hex_pair v \<and> key_loop bs n (raw @ [v]) = Some r)"
proof -
  have step: "key_loop bs p raw = Some r \<longleftrightarrow>
      (\<exists>h l. (lower_hex (bs ! p) = Some h \<and> lower_hex (bs ! (p + 1)) = Some l) \<and>
         key_loop bs (p + 2) (raw @ [push_bit 4 h OR l]) = Some r)"
    using assms(1,2) by (subst key_loop.simps) (auto split: option.splits)
  show ?thesis
    unfolding step assms(3,4) hex_pair_iff by (metis nibbles_join)
qed

lemma two_of_drop:
  "Suc p < length bs \<Longrightarrow> take (2 * Suc n) (drop p bs) = [bs ! p, bs ! (p + 1)] @ take (2 * n) (drop (p + 2) bs)"
  by (simp flip: Cons_nth_drop_Suc)

lemma key_loop_group:
  "\<forall>q. p \<le> q \<and> q < p + 2 * n \<longrightarrow> q \<notin> {8, 13, 18, 23} \<Longrightarrow> p + 2 * n \<le> 36 \<Longrightarrow> length bs = 36 \<Longrightarrow>
   key_loop bs p raw = Some r \<longleftrightarrow>
     (\<exists>vs. length vs = n \<and> take (2 * n) (drop p bs) = concat (map hex_pair vs) \<and>
        key_loop bs (p + 2 * n) (raw @ vs) = Some r)"
proof (induction n arbitrary: p raw)
  case (Suc n)
  have p: "p < 36" "p \<notin> {8, 13, 18, 23}" using Suc.prems(1,2) by auto
  have two: "take (2 * Suc n) (drop p bs) = [bs ! p, bs ! (p + 1)] @ take (2 * n) (drop (p + 2) bs)"
    using Suc.prems(2,3) by (intro two_of_drop) simp
  have len: "length (hex_pair v) = 2" for v by (simp add: hex_pair_def)
  have "key_loop bs p raw = Some r \<longleftrightarrow>
      (\<exists>v. [bs ! p, bs ! (p + 1)] = hex_pair v \<and> key_loop bs (p + 2) (raw @ [v]) = Some r)"
    using p by (rule key_loop_pair) simp_all
  also have "\<dots> \<longleftrightarrow> (\<exists>v vs. [bs ! p, bs ! (p + 1)] = hex_pair v \<and> length vs = n \<and>
      take (2 * n) (drop (p + 2) bs) = concat (map hex_pair vs) \<and> key_loop bs (p + 2 * Suc n) (raw @ v # vs) = Some r)"
    using Suc.IH [of "p + 2"] Suc.prems by simp
  also have "\<dots> \<longleftrightarrow> (\<exists>vs. length vs = Suc n \<and> take (2 * Suc n) (drop p bs) = concat (map hex_pair vs) \<and>
      key_loop bs (p + 2 * Suc n) (raw @ vs) = Some r)"
    unfolding two length_Suc_conv using len by (auto simp del: append.simps) fastforce+
  finally show ?case .
qed auto

definition key_layout :: "bytes \<Rightarrow> bytes" where
  "key_layout raw =
     (let h = concat (map hex_pair raw)
      in take 8 h @ [0x2D] @ take 4 (drop 8 h) @ [0x2D] @ take 4 (drop 12 h) @ [0x2D] @ take 4 (drop 16 h) @ [0x2D] @ drop 20 h)"

lemma hex_length [simp]: "length (concat (map hex_pair vs)) = 2 * length vs"
  by (induction vs) (simp_all add: hex_pair_def)

lemma key_layout_append:
  assumes "length a = 4" "length b = 2" "length c = 2" "length d = 2"
  shows "key_layout (a @ b @ c @ d @ e) =
    concat (map hex_pair a) @ [0x2D] @ concat (map hex_pair b) @ [0x2D] @ concat (map hex_pair c) @ [0x2D] @
    concat (map hex_pair d) @ [0x2D] @ concat (map hex_pair e)"
  using assms by (simp add: key_layout_def)

lemma key_pieces:
  assumes "length bs = 36"
  shows "bs = take 8 bs @ [bs ! 8] @ take 4 (drop 9 bs) @ [bs ! 13] @ take 4 (drop 14 bs) @ [bs ! 18] @
    take 4 (drop 19 bs) @ [bs ! 23] @ take 12 (drop 24 bs)"
proof -
  have piece: "drop i bs = take k (drop i bs) @ drop (i + k) bs" for i k
    by (metis append_take_drop_id drop_drop add.commute)
  have one: "i < 36 \<Longrightarrow> drop i bs = [bs ! i] @ drop (Suc i) bs" for i
    using assms by (simp add: Cons_nth_drop_Suc)
  have "bs = take 8 bs @ drop 8 bs" by simp
  also have "drop 8 bs = [bs ! 8] @ take 4 (drop 9 bs) @ drop 13 bs" using one [of 8] piece [of 9 4] by simp
  also have "drop 13 bs = [bs ! 13] @ take 4 (drop 14 bs) @ drop 18 bs" using one [of 13] piece [of 14 4] by simp
  also have "drop 18 bs = [bs ! 18] @ take 4 (drop 19 bs) @ drop 23 bs" using one [of 18] piece [of 19 4] by simp
  also have "drop 23 bs = [bs ! 23] @ take 12 (drop 24 bs)" using one [of 23] assms by simp
  finally show ?thesis by simp
qed

lemma key_loop_layout:
  assumes "length bs = 36"
  shows "key_loop bs 0 [] = Some raw \<longleftrightarrow> length raw = 16 \<and> bs = key_layout raw"
proof -
  have "key_loop bs 0 [] = Some raw \<longleftrightarrow>
    (\<exists>a b c d e. length a = 4 \<and> take 8 bs = concat (map hex_pair a) \<and> bs ! 8 = 0x2D \<and>
       length b = 2 \<and> take 4 (drop 9 bs) = concat (map hex_pair b) \<and> bs ! 13 = 0x2D \<and>
       length c = 2 \<and> take 4 (drop 14 bs) = concat (map hex_pair c) \<and> bs ! 18 = 0x2D \<and>
       length d = 2 \<and> take 4 (drop 19 bs) = concat (map hex_pair d) \<and> bs ! 23 = 0x2D \<and>
       length e = 6 \<and> take 12 (drop 24 bs) = concat (map hex_pair e) \<and> raw = a @ b @ c @ d @ e)"
    using assms
    by (simp add: key_loop_group [of 0 4] key_loop_hyphen [of 8 9] key_loop_group [of 9 2] key_loop_hyphen [of 13 14]
        key_loop_group [of 14 2] key_loop_hyphen [of 18 19] key_loop_group [of 19 2] key_loop_hyphen [of 23 24]
        key_loop_group [of 24 6] key_loop_end)
  also have "\<dots> \<longleftrightarrow> length raw = 16 \<and> bs = key_layout raw"
  proof
    assume "\<exists>a b c d e. length a = 4 \<and> take 8 bs = concat (map hex_pair a) \<and> bs ! 8 = 0x2D \<and>
       length b = 2 \<and> take 4 (drop 9 bs) = concat (map hex_pair b) \<and> bs ! 13 = 0x2D \<and>
       length c = 2 \<and> take 4 (drop 14 bs) = concat (map hex_pair c) \<and> bs ! 18 = 0x2D \<and>
       length d = 2 \<and> take 4 (drop 19 bs) = concat (map hex_pair d) \<and> bs ! 23 = 0x2D \<and>
       length e = 6 \<and> take 12 (drop 24 bs) = concat (map hex_pair e) \<and> raw = a @ b @ c @ d @ e"
    then show "length raw = 16 \<and> bs = key_layout raw"
      using key_pieces [OF assms] key_layout_append by auto
  next
    assume r: "length raw = 16 \<and> bs = key_layout raw"
    have piece: "drop i raw = take k (drop i raw) @ drop (i + k) raw" for i k
      by (metis append_take_drop_id drop_drop add.commute)
    obtain a b c d e where raw: "raw = a @ b @ c @ d @ e"
      and len: "length a = 4" "length b = 2" "length c = 2" "length d = 2" "length e = 6"
    proof (rule that)
      show "raw = take 4 raw @ take 2 (drop 4 raw) @ take 2 (drop 6 raw) @ take 2 (drop 8 raw) @ drop 10 raw"
        using piece [of 0 4] piece [of 4 2] piece [of 6 2] piece [of 8 2] by simp
    qed (use r in simp_all)
    have bs: "bs = concat (map hex_pair a) @ [0x2D] @ concat (map hex_pair b) @ [0x2D] @ concat (map hex_pair c) @
        [0x2D] @ concat (map hex_pair d) @ [0x2D] @ concat (map hex_pair e)"
      using r key_layout_append [OF len(1-4), of e] raw by simp
    show "\<exists>a b c d e. length a = 4 \<and> take 8 bs = concat (map hex_pair a) \<and> bs ! 8 = 0x2D \<and>
       length b = 2 \<and> take 4 (drop 9 bs) = concat (map hex_pair b) \<and> bs ! 13 = 0x2D \<and>
       length c = 2 \<and> take 4 (drop 14 bs) = concat (map hex_pair c) \<and> bs ! 18 = 0x2D \<and>
       length d = 2 \<and> take 4 (drop 19 bs) = concat (map hex_pair d) \<and> bs ! 23 = 0x2D \<and>
       length e = 6 \<and> take 12 (drop 24 bs) = concat (map hex_pair e) \<and> raw = a @ b @ c @ d @ e"
      unfolding bs using len
      by (intro exI [of _ a] exI [of _ b] exI [of _ c] exI [of _ d] exI [of _ e]) (simp add: nth_append raw)
  qed
  finally show ?thesis .
qed

definition key_version_four :: "128 word \<Rightarrow> bool" where
  "key_version_four k \<longleftrightarrow> drop_bit 4 (array_bytes k ! 6) = 4 \<and> drop_bit 6 (array_bytes k ! 8) = 2"

lemma key_from_bytes_iff: "key_from_bytes w = Inr k \<longleftrightarrow> w = key_word k \<and> key_version_four w"
  by (cases k) (auto simp: key_from_bytes_def key_version_four_def Let_def)

lemma key_layout_length: "length raw = 16 \<Longrightarrow> length (key_layout raw) = 36"
  by (simp add: key_layout_def Let_def)

lemma array_bytes_of_be: "length raw = 16 \<Longrightarrow> array_bytes (word_of_nat (of_be raw) :: 128 word) = raw"
  using be_unat_of_be [of raw, where 'n = 128] by (simp add: array_bytes_def)

lemma of_be_array_bytes: "word_of_nat (of_be (array_bytes w)) = (w :: 128 word)"
  using of_be_unat [of w] by (simp add: array_bytes_def)

text \<open>
  A text is read as an idempotency key exactly when it is the lowercase hyphenated form of the
  key's 16 bytes and those carry version 4 and the variant; so a key has one text form and
  every other text is refused.
\<close>
theorem key_parse_exact:
  "key_parse txt = Inr k \<longleftrightarrow> txt = key_layout (array_bytes (key_word k)) \<and> key_version_four (key_word k)"
proof
  assume parsed: "key_parse txt = Inr k"
  then have len: "length txt = 36" by (auto simp: key_parse_def split: if_splits)
  with parsed obtain raw where loop: "key_loop txt 0 [] = Some raw"
    and key: "key_from_bytes (word_of_nat (of_be raw)) = Inr k"
    by (auto simp: key_parse_def split: option.splits)
  have raw: "length raw = 16" "txt = key_layout raw" using key_loop_layout [OF len] loop by blast+
  have "key_word k = word_of_nat (of_be raw)" "key_version_four (key_word k)" using key by (auto simp: key_from_bytes_iff)
  with array_bytes_of_be [OF raw(1)] raw(2) show "txt = key_layout (array_bytes (key_word k)) \<and> key_version_four (key_word k)"
    by metis
next
  assume key: "txt = key_layout (array_bytes (key_word k)) \<and> key_version_four (key_word k)"
  have raw: "length (array_bytes (key_word k)) = 16" by (simp add: array_bytes_def)
  from key_layout_length [OF raw] have len: "length txt = 36" unfolding conjunct1 [OF key] .
  then have "key_loop txt 0 [] = Some (array_bytes (key_word k))" using key_loop_layout [OF len, of "array_bytes (key_word k)"] raw key by blast
  moreover have "key_from_bytes (key_word k) = Inr k" using key by (simp add: key_from_bytes_iff)
  ultimately show "key_parse txt = Inr k" using len by (simp add: key_parse_def of_be_array_bytes)
qed

section \<open>The plaintext has one encoding\<close>

lemma envelope_labels_valid [simp]:
  "valid_label plaintext_label" "valid_label meta_commit_label" "valid_label manifest_label"
  "valid_label envelope_digest_label" "valid_label (ascii_bytes ''dohflow/sync-nonce/v1'')"
  unfolding plaintext_label_def meta_commit_label_def manifest_label_def envelope_digest_label_def by code_simp+

lemma check_actor_type_iff: "check_actor_type t = Inr u \<longleftrightarrow> 1 \<le> t \<and> t \<le> 4"
  by (auto simp: check_actor_type_def)

lemma key_read_iff: "key_read w = Inr k \<longleftrightarrow> w = key_word k \<and> key_version_four w"
  unfolding key_from_bytes_iff [symmetric] by (simp add: key_read_def split: sum.splits)

lemma opt_uuid_iff:
  "r_opt r_fixed r = Inr (v, r') \<longleftrightarrow> r = w_opt v (w_fixed :: 128 word \<Rightarrow> bytes \<Rightarrow> bytes) [] @ r'"
  by (simp add: uuid16.r_opt_iff option.pred_True)

definition meta_fields_bytes :: "immutable_meta \<Rightarrow> bytes" where
  "meta_fields_bytes m =
     w_fixed (im_command_id m) [] @ w_fixed (im_correlation_id m) [] @ w_opt (im_causation_id m) w_fixed [] @
     w_u8 (im_actor_type m) [] @ be 4 (length (im_actor_id m)) @ im_actor_id m @
     w_fixed (key_word (im_idempotency_key m)) [] @ w_i64 (im_issued_at m) []"

lemma write_fields_iff:
  "write_fields m w = Inr w' \<longleftrightarrow> 1 \<le> im_actor_type m \<and> im_actor_type m \<le> 4 \<and> length (im_actor_id m) \<le> max_actor_id \<and>
     w' = w @ meta_fields_bytes m"
  by (auto simp: write_fields_def res_bind_Inr_iff check_actor_type_iff w_text_def w_bytes_iff max_actor_id_def
      meta_fields_bytes_def wire_appends uuid16.w_opt_append [of _ "_ @ _"])

definition plaintext_bytes :: "bytes \<Rightarrow> envelope_plaintext \<Rightarrow> bytes" where
  "plaintext_bytes label p =
     label @ meta_fields_bytes (pt_meta p) @ w_fixed (im_device_id (pt_meta p)) [] @ w_fixed (pt_write_set_hash p) [] @
     be 4 (length (manifest_ids (pt_delta_manifest p))) @ w_all (map w_fixed (manifest_ids (pt_delta_manifest p))) [] @
     be 4 (length (pt_payload p)) @ pt_payload p"

definition plaintext_small :: "envelope_plaintext \<Rightarrow> bool" where
  "plaintext_small p \<longleftrightarrow> 1 \<le> im_actor_type (pt_meta p) \<and> im_actor_type (pt_meta p) \<le> 4 \<and>
     length (im_actor_id (pt_meta p)) \<le> max_actor_id \<and>
     length (manifest_ids (pt_delta_manifest p)) \<le> max_manifest_entries \<and> length (pt_payload p) \<le> max_payload"

text \<open>What the types of the code guarantee of a plaintext.\<close>

definition plaintext_typed :: "envelope_plaintext \<Rightarrow> bool" where
  "plaintext_typed p \<longleftrightarrow> utf8_ok (im_actor_id (pt_meta p)) \<and> key_version_four (key_word (im_idempotency_key (pt_meta p))) \<and>
     in_i64 (im_issued_at (pt_meta p)) \<and> sorted_wrt (<) (manifest_ids (pt_delta_manifest p))"

lemma plaintext_encode_iff:
  "plaintext_encode p = Inr bs \<longleftrightarrow> plaintext_small p \<and>
     (\<exists>label. with_label plaintext_label = Inr label \<and> bs = plaintext_bytes label p)"
  by (auto simp: plaintext_encode_def plaintext_small_def plaintext_bytes_def res_bind_Inr_iff write_fields_iff w_list_def
      w_bytes_iff max_manifest_entries_def max_payload_def wire_appends digest32.w_all_append [of _ "_ @ _"])

lemma adjacent_ascending: "\<not> adjacent (\<ge>) xs \<longleftrightarrow> sorted_wrt (<) (xs :: 'a :: linorder list)"
proof (induction xs)
  case (Cons x xs)
  then show ?case by (cases xs) (force simp: adjacent_def)+
qed (simp add: adjacent_def)

lemma r_digests_iff:
  "r_list max_manifest_entries 32 r_fixed r = Inr (ids, r') \<longleftrightarrow>
     length ids \<le> max_manifest_entries \<and> r = be 4 (length ids) @ w_all (map w_fixed (ids :: 256 word list)) [] @ r'"
proof -
  have "\<forall>v. True \<longrightarrow> 32 \<le> length (w_fixed (v :: 256 word) [])" by (simp add: wire_appends)
  from digest32.r_list_iff [OF this, of max_manifest_entries r ids r'] digest32.w_all_append [of ids "be 4 (length ids)"]
  show ?thesis by (auto simp: w_list_def max_manifest_entries_def list_all_iff)
qed

lemma key_read_step: "key_version_four (key_word k) \<Longrightarrow> key_read (key_word k) = Inr k"
  by (simp add: key_read_iff)

lemma r_actor_step:
  "utf8_ok v \<Longrightarrow> length v \<le> max_actor_id \<Longrightarrow> r_text max_actor_id (be 4 (length v) @ v @ r) = Inr (v, r)"
  by (simp add: r_text_iff w_text_def w_bytes_iff max_actor_id_def)

lemma r_payload_step:
  "length v \<le> max_payload \<Longrightarrow> r_bytes max_payload (be 4 (length v) @ v) = Inr (v, [])"
  using r_bytes_step [OF refl, of v max_payload "[]"] by (simp add: max_payload_def)

lemma plaintext_decode_bytes:
  assumes "plaintext_decode bs = Inr p"
  shows "plaintext_typed p \<and> plaintext_small p \<and>
     (\<exists>label. with_label plaintext_label = Inr label \<and> bs = plaintext_bytes label p)"
  using assms
  by (auto simp: plaintext_decode_def res_bind_Inr_iff wire_reads r_label_iff opt_uuid_iff r_digests_iff key_read_iff
      check_actor_type_iff w_text_def w_bytes_iff plaintext_typed_def plaintext_small_def plaintext_bytes_def
      meta_fields_bytes_def adjacent_ascending)

lemma plaintext_bytes_decode:
  assumes "plaintext_typed p" "plaintext_small p" "with_label plaintext_label = Inr label"
  shows "plaintext_decode (plaintext_bytes label p) = Inr p"
proof -
  obtain m where m: "pt_meta p = m" by blast
  have "r_opt r_fixed (w_opt v (w_fixed :: 128 word \<Rightarrow> _) [] @ r) = Inr (v, r)" for v r by (simp add: opt_uuid_iff)
  moreover have "check_actor_type (im_actor_type m) = Inr ()"
    using assms(2) m by (simp add: check_actor_type_iff plaintext_small_def)
  moreover have "r_list max_manifest_entries 32 r_fixed
      (be 4 (length (manifest_ids (pt_delta_manifest p))) @ w_all (map w_fixed (manifest_ids (pt_delta_manifest p))) [] @ r) =
      Inr (manifest_ids (pt_delta_manifest p), r)" for r
    using assms(2) by (simp add: r_digests_iff plaintext_small_def)
  ultimately show ?thesis
    using assms m
    by (simp add: plaintext_decode_def plaintext_bytes_def meta_fields_bytes_def plaintext_typed_def plaintext_small_def
        wire_steps r_actor_step r_payload_step key_read_step adjacent_ascending)
qed

text \<open>
  C33: The plaintext of an envelope is read from exactly the one byte string that encoding gives, for a
  plaintext with what the types of the code promise (a key of version 4, text in UTF-8, a strictly
  ascending manifest); reading checks all of it.
\<close>
theorem plaintext_codec_exact:
  "plaintext_decode bs = Inr p \<longleftrightarrow> plaintext_typed p \<and> plaintext_encode p = Inr bs"
proof
  assume "plaintext_decode bs = Inr p"
  then show "plaintext_typed p \<and> plaintext_encode p = Inr bs"
    unfolding plaintext_encode_iff by (auto dest!: plaintext_decode_bytes)
next
  assume "plaintext_typed p \<and> plaintext_encode p = Inr bs"
  then obtain label where "plaintext_typed p" "plaintext_small p" "with_label plaintext_label = Inr label"
    "bs = plaintext_bytes label p"
    unfolding plaintext_encode_iff by blast
  then show "plaintext_decode bs = Inr p" by (simp add: plaintext_bytes_decode)
qed

section \<open>The digest and the checks bind header and plaintext\<close>

definition digest_preimage :: "bytes \<Rightarrow> bytes \<Rightarrow> bytes" where
  "digest_preimage header_bytes ciphertext =
     be 2 (length envelope_digest_label) @ envelope_digest_label @
     be 4 (length header_bytes) @ header_bytes @ be 8 (length ciphertext) @ ciphertext"

lemma be_inj: "be k m = be k n \<Longrightarrow> m < 256 ^ k \<Longrightarrow> n < 256 ^ k \<Longrightarrow> m = n"
  by (metis mod_less of_be_be)

lemma canonical_envelope_digest_Inr:
  "canonical_envelope_digest sha256 h c = Inr d \<longleftrightarrow>
     length h < 2 ^ 32 \<and> length c < 2 ^ 64 \<and> d = sha256 (digest_preimage h c)"
  by (auto simp: canonical_envelope_digest_def digest_preimage_def with_label_def)

lemma digest_preimage_inj:
  assumes "digest_preimage h c = digest_preimage h' c'" "length h < 2 ^ 32" "length h' < 2 ^ 32"
  shows "h = h' \<and> c = c'"
proof -
  have eq: "be 4 (length h) @ h @ be 8 (length c) @ c = be 4 (length h') @ h' @ be 8 (length c') @ c'"
    using assms(1) by (simp add: digest_preimage_def)
  then have "be 4 (length h) = be 4 (length h')" and rest: "h @ be 8 (length c) @ c = h' @ be 8 (length c') @ c'"
    by (simp_all add: append_eq_append_conv)
  then have "length h = length h'" using assms(2,3) by (intro be_inj [of 4]) simp_all
  then show ?thesis using rest by simp
qed

definition expected_manifest :: "hash \<Rightarrow> 256 word list \<Rightarrow> manifest_commitment option" where
  "expected_manifest sha256 ids =
     (if ids = [] then None
      else Some (ManifestCommitment (sha256 (be 2 (length manifest_label) @ manifest_label @
        be 4 (length ids) @ w_all (map w_fixed ids) []))))"

definition expected_domain :: "hash \<Rightarrow> 128 word \<Rightarrow> 64 word \<Rightarrow> fingerprint \<Rightarrow> nonce_domain" where
  "expected_domain sha256 vault_id key_epoch fp =
     (let l = ascii_bytes ''dohflow/sync-nonce/v1'';
          digest = sha256 (w_all [w_fixed vault_id, w_u64 key_epoch, w_fixed (fingerprint_bytes fp), w_u8 object_envelope]
                     (be 2 (length l) @ l))
      in NonceDomain (word_of_nat (of_be (take 4 (be 32 (unat digest))))))"

lemma nonce_domain_derive_eq:
  "nonce_domain_derive sha256 vault_id key_epoch fp object_envelope = Inr (expected_domain sha256 vault_id key_epoch fp)"
  by (simp add: nonce_domain_derive_def expected_domain_def with_label_def Let_def)

lemma manifest_commit_eq:
  "manifest_commit sha256 m =
     (if length (manifest_ids m) \<le> max_manifest_entries
      then Inr (ManifestCommitment (sha256 (be 2 (length manifest_label) @ manifest_label @
        be 4 (length (manifest_ids m)) @ w_all (map w_fixed (manifest_ids m)) [])))
      else Inl Wire_Panic)"
  using digest32.w_all_append [of "manifest_ids m" "be 2 (length manifest_label) @ manifest_label @ be 4 (length (manifest_ids m))"]
  by (auto simp: manifest_commit_def manifest_bytes_bounded_def with_label_def w_list_def max_manifest_entries_def)

lemma manifest_matches_iff:
  "manifest_matches sha256 found m = Inr True \<longleftrightarrow>
     found = expected_manifest sha256 (manifest_ids m) \<and> length (manifest_ids m) \<le> max_manifest_entries"
  by (cases found) (auto simp: manifest_matches_def expected_manifest_def manifest_commit_eq)

lemma check_envelope_Inr:
  "check_envelope sha256 tag_for h p = Inr ce \<longleftrightarrow> ce = \<lparr>ce_header = h, ce_plaintext = p\<rparr> \<and>
     (\<exists>commitment. meta_commitment sha256 (pt_meta p) = Inr commitment \<and>
        h_object h = Envelope (tag_for (im_idempotency_key (pt_meta p))) commitment
          (expected_manifest sha256 (manifest_ids (pt_delta_manifest p)))) \<and>
     h_object_id h = im_command_id (pt_meta p) \<and> h_device_id h = im_device_id (pt_meta p) \<and>
     h_nonce_domain h = expected_domain sha256 (h_vault_id h) (h_key_epoch h) (h_fingerprint h) \<and>
     length (manifest_ids (pt_delta_manifest p)) \<le> max_manifest_entries \<and>
     issued_at_in_range (im_issued_at (pt_meta p))"
proof (cases "h_object h")
  case (Snapshot m)
  then show ?thesis by (simp add: check_envelope_def)
next
  case (Envelope tag commitment manifest)
  show ?thesis
    using Envelope manifest_matches_iff [of sha256 manifest "pt_delta_manifest p"]
    by (cases "meta_commitment sha256 (pt_meta p)")
      (auto simp: check_envelope_def nonce_domain_derive_eq res_bind_Inr_iff)
qed

text \<open>
  C10: The checks of a receiver pass exactly on the header that the plaintext and the sealing context determine:
  an envelope header whose object id, device, tag, metadata commitment, manifest
  commitment and nonce domain are the ones recomputed from the plaintext, with an issue time
  between 1970 and 9999.  The sender is left with the counter, the base and the versions.
\<close>
theorem check_envelope_exact:
  "check_envelope sha256 tag_for h p = Inr ce \<longleftrightarrow> ce = \<lparr>ce_header = h, ce_plaintext = p\<rparr> \<and>
     (\<exists>commitment. meta_commitment sha256 (pt_meta p) = Inr commitment \<and>
        h_object h = Envelope (tag_for (im_idempotency_key (pt_meta p))) commitment
          (expected_manifest sha256 (manifest_ids (pt_delta_manifest p)))) \<and>
     h_object_id h = im_command_id (pt_meta p) \<and> h_device_id h = im_device_id (pt_meta p) \<and>
     h_nonce_domain h = expected_domain sha256 (h_vault_id h) (h_key_epoch h) (h_fingerprint h) \<and>
     length (manifest_ids (pt_delta_manifest p)) \<le> max_manifest_entries \<and>
     0 \<le> im_issued_at (pt_meta p) \<and> im_issued_at (pt_meta p) \<le> 253402300799999999"
  unfolding check_envelope_Inr issued_at_in_range_def issued_at_min_micros_def issued_at_max_micros_def by blast

end
