(* ===== verification/Sync_Status.thy ===== *)
theory Sync_Status
  imports Sync_Envelope Membership_Guarantees
begin

text \<open>
  \<^verbatim>\<open>crates/sync-core/src/status.rs\<close>: the state machine that says whether a replica may apply the next
  log position, and from \<^verbatim>\<open>void.rs\<close> what it reads of the honored voids.

  Each \<^verbatim>\<open>&mut self\<close> operation is a function from the status to the next status and the event it
  returns.  The private fields of a permit mean that every permit is one that \<open>rebootstrap_permit\<close>
  built; the step relation \<open>status_exit\<close> says so.  A release build is modelled: the
  \<^verbatim>\<open>debug_assert!\<close> on a header built by hand does nothing.
\<close>

named_theorems status_ops \<open>the operations of the status machine\<close>

section \<open>Honored voids, as the status reads them\<close>

record honored_void =
  hv_void_id :: "256 word"
  hv_first :: "64 word"
  hv_last :: "64 word"

datatype fork_suspected =
    DigestAtStop "64 word" "256 word" "256 word"
  | VoidAtTwoPositions "256 word" "64 word" "64 word"

datatype void_ledger = VoidLedger (vl_honored: "honored_void list")

definition void_ledger_new :: void_ledger where
  "void_ledger_new = VoidLedger []"

definition skips :: "void_ledger \<Rightarrow> 64 word \<Rightarrow> bool" where
  "skips l seq \<longleftrightarrow> list_ex (\<lambda>v. hv_first v \<le> seq \<and> seq \<le> hv_last v) (vl_honored l)"

definition snapshot_passes_stop :: "64 word \<Rightarrow> 64 word \<Rightarrow> honored_void list \<Rightarrow> bool" where
  "snapshot_passes_stop stop_seq root recorded \<longleftrightarrow>
     list_ex (\<lambda>v. hv_first v \<le> stop_seq \<and> stop_seq \<le> hv_last v \<and> hv_last v < root) recorded"

section \<open>Data\<close>

datatype halt_evidence =
    Fork "64 word" "256 word" "256 word"
  | SeqConflict "64 word" "256 word" "256 word"
  | WriteSetMismatch "64 word" "256 word" "256 word"
  | AppliedPositionInvalid "64 word" "256 word"
  | HonoredAtTwoPositions "256 word" "64 word" "64 word"
  | Equivocation "256 word" "256 word"

datatype apply_failure_code = ApplyFailureCode (code_word: "16 word")

definition apply_failure_code_new :: "16 word \<Rightarrow> apply_failure_code option" where
  "apply_failure_code_new code = (if code = 0 then None else Some (ApplyFailureCode code))"

datatype stop_reason = ReceiverCheck receiver_error | Apply apply_failure_code

record invalid_envelope =
  ie_seq :: "64 word"
  ie_envelope_digest :: "256 word"
  ie_command_id :: "128 word"
  ie_device_id :: "128 word"
  ie_fingerprint :: fingerprint
  ie_reason :: stop_reason

record engine_version =
  ev_len :: byte
  ev_bytes :: bytes

definition engine_version_new :: "bytes \<Rightarrow> (wire_error, engine_version) res" where
  "engine_version_new raw =
     (if raw = [] \<or> 64 < length raw \<or> \<not> list_all (\<lambda>b. 0x21 \<le> b \<and> b \<le> 0x7E) raw then Inl BadEngineVersion
      else Inr \<lparr>ev_len = word_of_nat (length raw), ev_bytes = raw @ replicate (64 - length raw) 0\<rparr>)"

definition engine_version_as_str :: "engine_version \<Rightarrow> bytes" where
  "engine_version_as_str v =
     (let txt = take (unat (ev_len v)) (ev_bytes v) in if utf8_ok txt then txt else [])"

definition unparseable_version :: engine_version where
  "unparseable_version = \<lparr>ev_len = 13, ev_bytes = ascii_bytes ''!unparseable!'' @ replicate 51 0\<rparr>"

definition header_engine_version :: "clear_header \<Rightarrow> engine_version" where
  "header_engine_version h =
     (case engine_version_new (h_engine_version h) of Inr v \<Rightarrow> v | Inl _ \<Rightarrow> unparseable_version)"

record update_required =
  ur_seq :: "64 word"
  ur_envelope_digest :: "256 word"
  ur_envelope_engine_version :: engine_version
  ur_own_engine_version :: engine_version

record snapshot_facts =
  sf_root :: "64 word"
  sf_own_engine_version :: engine_version
  sf_engine_version :: engine_version
  sf_recorded_voids :: "honored_void list"
  sf_held_voids :: "(64 word \<times> 64 word) list"

datatype stop_kind =
  Kind_EnvelopeInvalid | Kind_UpdateRequired | Kind_WriteSetMismatch | Kind_AppliedPositionInvalid

record stop_identity =
  si_kind :: stop_kind
  si_seq :: "64 word"
  si_digest :: "256 word"

record permit =
  rp_root :: "64 word"
  rp_stop :: stop_identity

datatype sync_status =
  Healthy | Halted halt_evidence | EnvelopeInvalid invalid_envelope | UpdateRequired update_required

datatype sync_event =
    Event_Halted halt_evidence | Event_EnvelopeInvalid invalid_envelope
  | Event_UpdateRequired update_required | Event_Rebootstrapped "64 word" | Event_Resumed "64 word"

section \<open>What a status allows\<close>

primrec can_apply :: "sync_status \<Rightarrow> 64 word \<Rightarrow> bool" where
  "can_apply Healthy seq = True"
| "can_apply (Halted _) seq = False"
| "can_apply (EnvelopeInvalid invalid) seq = (seq < ie_seq invalid)"
| "can_apply (UpdateRequired update) seq = (seq < ur_seq update)"

definition can_push :: "sync_status \<Rightarrow> bool" where
  "can_push s \<longleftrightarrow> s = Healthy"

definition is_healthy :: "sync_status \<Rightarrow> bool" where
  "is_healthy s \<longleftrightarrow> s = Healthy"

primrec is_halted :: "sync_status \<Rightarrow> bool" where
  "is_halted Healthy = False"
| "is_halted (Halted _) = True"
| "is_halted (EnvelopeInvalid _) = False"
| "is_halted (UpdateRequired _) = False"

section \<open>Observations\<close>

definition observe_chain_error :: "sync_status \<Rightarrow> chain_error \<Rightarrow> sync_status \<times> sync_event option" where
  "observe_chain_error s e =
     (if is_halted s then (s, None)
      else case e of
             Ch_Fork version accepted conflicting \<Rightarrow>
               (Halted (Fork version accepted conflicting),
                Some (Event_Halted (Fork version accepted conflicting)))
           | Ch_EpochEquivocation accepted conflicting \<Rightarrow>
               (Halted (Equivocation accepted conflicting),
                Some (Event_Halted (Equivocation accepted conflicting)))
           | _ \<Rightarrow> (s, None))"

definition observe_honored :: "sync_status \<Rightarrow> honored_void \<Rightarrow> sync_status \<times> sync_event option" where
  "observe_honored s h =
     (case s of
        EnvelopeInvalid invalid \<Rightarrow>
          if ie_seq invalid = hv_first h then (Healthy, Some (Event_Resumed (hv_last h))) else (s, None)
      | _ \<Rightarrow> (s, None))"

primrec fork_halt :: "fork_suspected \<Rightarrow> halt_evidence" where
  "fork_halt (DigestAtStop seq ours theirs) = SeqConflict seq ours theirs"
| "fork_halt (VoidAtTwoPositions void_id honored_at offered_at) =
     HonoredAtTwoPositions void_id honored_at offered_at"

definition observe_fork_suspected :: "sync_status \<Rightarrow> fork_suspected \<Rightarrow> sync_status \<times> sync_event option" where
  "observe_fork_suspected s f =
     (if is_halted s then (s, None)
      else (Halted (fork_halt f), Some (Event_Halted (fork_halt f))))"

definition same_position_other_digest ::
    "sync_status \<Rightarrow> 64 word \<Rightarrow> 256 word \<Rightarrow> (sync_status \<times> sync_event) option" where
  "same_position_other_digest s seq digest =
     (case (case s of
              EnvelopeInvalid i \<Rightarrow> Some (ie_seq i, ie_envelope_digest i)
            | UpdateRequired u \<Rightarrow> Some (ur_seq u, ur_envelope_digest u)
            | _ \<Rightarrow> None) of
        None \<Rightarrow> None
      | Some (recorded_seq, recorded_digest) \<Rightarrow>
          if recorded_seq \<noteq> seq \<or> recorded_digest = digest then None
          else Some (Halted (SeqConflict seq recorded_digest digest),
                     Event_Halted (SeqConflict seq recorded_digest digest)))"

definition observe_engine_version ::
    "sync_status \<Rightarrow> 64 word \<Rightarrow> 256 word \<Rightarrow> engine_version \<Rightarrow> engine_version \<Rightarrow>
     sync_status \<times> sync_event option" where
  "observe_engine_version s seq digest envelope_version own =
     (case same_position_other_digest s seq digest of
        Some (s', event) \<Rightarrow> (s', Some event)
      | None \<Rightarrow>
          if envelope_version = own then (s, None)
          else
            let update = \<lparr>ur_seq = seq, ur_envelope_digest = digest,
                          ur_envelope_engine_version = envelope_version, ur_own_engine_version = own\<rparr>;
                set_update = (UpdateRequired update, Some (Event_UpdateRequired update))
            in case s of
                 Halted _ \<Rightarrow> (s, None)
               | EnvelopeInvalid i \<Rightarrow>
                   if ie_seq i = seq then set_update
                   else if ie_seq i \<le> seq then (s, None)
                   else set_update
               | UpdateRequired u \<Rightarrow> if ur_seq u \<le> seq then (s, None) else set_update
               | Healthy \<Rightarrow> set_update)"

definition observe_stop ::
    "sync_status \<Rightarrow> 64 word \<Rightarrow> 256 word \<Rightarrow> clear_header \<Rightarrow> engine_version \<Rightarrow> (stop_reason, unit) res \<Rightarrow>
     sync_status \<times> sync_event option" where
  "observe_stop s seq digest h own outcome =
     (if header_engine_version h \<noteq> own then
        observe_engine_version s seq digest (header_engine_version h) own
      else
        case same_position_other_digest s seq digest of
          Some (s', event) \<Rightarrow> (s', Some event)
        | None \<Rightarrow>
            case outcome of
              Inr _ \<Rightarrow> (s, None)
            | Inl reason \<Rightarrow>
                let invalid = \<lparr>ie_seq = seq, ie_envelope_digest = digest, ie_command_id = h_object_id h,
                               ie_device_id = h_device_id h, ie_fingerprint = h_fingerprint h,
                               ie_reason = reason\<rparr>;
                    set_invalid = (EnvelopeInvalid invalid, Some (Event_EnvelopeInvalid invalid))
                in case s of
                     Halted _ \<Rightarrow> (s, None)
                   | EnvelopeInvalid i \<Rightarrow> if ie_seq i \<le> seq then (s, None) else set_invalid
                   | UpdateRequired u \<Rightarrow> if ur_seq u \<le> seq then (s, None) else set_invalid
                   | Healthy \<Rightarrow> set_invalid)"

definition observe_envelope ::
    "sync_status \<Rightarrow> 64 word \<Rightarrow> 256 word \<Rightarrow> clear_header \<Rightarrow> engine_version \<Rightarrow> (receiver_error, unit) res \<Rightarrow>
     sync_status \<times> sync_event option" where
  "observe_envelope s seq digest h own outcome = observe_stop s seq digest h own (map_err ReceiverCheck outcome)"

definition observe_apply_failure ::
    "sync_status \<Rightarrow> 64 word \<Rightarrow> 256 word \<Rightarrow> clear_header \<Rightarrow> engine_version \<Rightarrow> (apply_failure_code, unit) res \<Rightarrow>
     sync_status \<times> sync_event option" where
  "observe_apply_failure s seq digest h own outcome = observe_stop s seq digest h own (map_err Apply outcome)"

definition observe_envelope_in_context ::
    "sync_status \<Rightarrow> void_ledger \<Rightarrow> 64 word \<Rightarrow> 64 word \<Rightarrow> 256 word \<Rightarrow> clear_header \<Rightarrow> engine_version \<Rightarrow>
     (receiver_error, unit) res \<Rightarrow> sync_status \<times> sync_event option" where
  "observe_envelope_in_context s ledger next_to_apply seq digest h own outcome =
     (if skips ledger seq then (s, None)
      else if seq < next_to_apply then
        (if outcome = Inr () \<or> is_halted s then (s, None)
         else (Halted (AppliedPositionInvalid seq digest),
               Some (Event_Halted (AppliedPositionInvalid seq digest))))
      else observe_envelope s seq digest h own outcome)"

definition observe_own_engine_version :: "sync_status \<Rightarrow> engine_version \<Rightarrow> sync_status" where
  "observe_own_engine_version s own =
     (case s of
        UpdateRequired u \<Rightarrow> if ur_envelope_engine_version u = own then Healthy else s
      | _ \<Rightarrow> s)"

definition observe_write_set_mismatch ::
    "sync_status \<Rightarrow> 64 word \<Rightarrow> 256 word \<Rightarrow> 256 word \<Rightarrow> sync_status \<times> sync_event option" where
  "observe_write_set_mismatch s seq expected computed =
     (if is_halted s \<or> expected = computed then (s, None)
      else (Halted (WriteSetMismatch seq expected computed),
            Some (Event_Halted (WriteSetMismatch seq expected computed))))"

section \<open>Leaving a stop through a snapshot\<close>

text \<open>The match that both functions below make on the status.\<close>

primrec halt_identity :: "halt_evidence \<Rightarrow> stop_identity option" where
  "halt_identity (Fork _ _ _) = None"
| "halt_identity (SeqConflict _ _ _) = None"
| "halt_identity (WriteSetMismatch seq expected _) =
     Some \<lparr>si_kind = Kind_WriteSetMismatch, si_seq = seq, si_digest = expected\<rparr>"
| "halt_identity (AppliedPositionInvalid seq digest) =
     Some \<lparr>si_kind = Kind_AppliedPositionInvalid, si_seq = seq, si_digest = digest\<rparr>"
| "halt_identity (HonoredAtTwoPositions _ _ _) = None"
| "halt_identity (Equivocation _ _) = None"

primrec current_stop :: "sync_status \<Rightarrow> stop_identity option" where
  "current_stop Healthy = None"
| "current_stop (Halted e) = halt_identity e"
| "current_stop (EnvelopeInvalid i) =
     Some \<lparr>si_kind = Kind_EnvelopeInvalid, si_seq = ie_seq i, si_digest = ie_envelope_digest i\<rparr>"
| "current_stop (UpdateRequired u) =
     Some \<lparr>si_kind = Kind_UpdateRequired, si_seq = ur_seq u, si_digest = ur_envelope_digest u\<rparr>"

definition rebootstrap_permit :: "sync_status \<Rightarrow> snapshot_facts \<Rightarrow> permit option" where
  "rebootstrap_permit s snapshot =
     (if sf_engine_version snapshot \<noteq> sf_own_engine_version snapshot \<or>
         list_ex (\<lambda>(first, last). first \<le> sf_root snapshot \<and> sf_root snapshot \<le> last) (sf_held_voids snapshot)
      then None
      else case current_stop s of
             None \<Rightarrow> None
           | Some stop \<Rightarrow>
               if (case s of
                     EnvelopeInvalid i \<Rightarrow>
                       snapshot_passes_stop (ie_seq i) (sf_root snapshot) (sf_recorded_voids snapshot)
                   | _ \<Rightarrow> si_seq stop \<le> sf_root snapshot)
               then Some \<lparr>rp_root = sf_root snapshot, rp_stop = stop\<rparr> else None)"

definition observe_rebootstrapped :: "sync_status \<Rightarrow> permit \<Rightarrow> sync_status \<times> sync_event option" where
  "observe_rebootstrapped s permit =
     (case current_stop s of
        None \<Rightarrow> (s, None)
      | Some current \<Rightarrow>
          if current \<noteq> rp_stop permit then (s, None)
          else (Healthy, Some (Event_Rebootstrapped (rp_root permit))))"

lemmas [status_ops] =
  observe_chain_error_def observe_honored_def observe_fork_suspected_def same_position_other_digest_def
  observe_engine_version_def observe_stop_def observe_envelope_def observe_apply_failure_def
  observe_envelope_in_context_def observe_own_engine_version_def observe_write_set_mismatch_def
  observe_rebootstrapped_def

section \<open>Steps\<close>

text \<open>The status changes only through the operations: what is observed, and the ways out of a stop.\<close>

inductive status_observe :: "sync_status \<Rightarrow> sync_status \<times> sync_event option \<Rightarrow> bool" where
  chain_error: "status_observe s (observe_chain_error s e)"
| fork_suspected: "status_observe s (observe_fork_suspected s f)"
| envelope: "status_observe s (observe_envelope s seq digest h own outcome)"
| in_context: "status_observe s (observe_envelope_in_context s ledger next_to_apply seq digest h own outcome)"
| apply_failure: "status_observe s (observe_apply_failure s seq digest h own result)"
| version: "status_observe s (observe_engine_version s seq digest envelope_version own)"
| write_set_mismatch: "status_observe s (observe_write_set_mismatch s seq expected computed)"

inductive status_exit :: "sync_status \<Rightarrow> sync_status \<times> sync_event option \<Rightarrow> bool" where
  honored: "status_exit s (observe_honored s v)"
| rebootstrapped: "rebootstrap_permit s0 snapshot = Some permit \<Longrightarrow> status_exit s (observe_rebootstrapped s permit)"
| own_version: "status_exit s (observe_own_engine_version s own, None)"

section \<open>Engine versions\<close>

lemma unparseable_version_parses: "engine_version_new (ascii_bytes ''!unparseable!'') = Inr unparseable_version"
  by code_simp

lemma engine_version_new_as_str:
  assumes "engine_version_new raw = Inr v"
  shows "engine_version_as_str v = raw"
proof -
  have raw: "length raw \<le> 64" "list_all (\<lambda>b. 0x21 \<le> b \<and> b \<le> 0x7E) raw"
    and v: "v = \<lparr>ev_len = word_of_nat (length raw), ev_bytes = raw @ replicate (64 - length raw) 0\<rparr>"
    using assms by (auto simp: engine_version_new_def split: if_splits)
  have "list_all (\<lambda>b. b < 0x80) raw"
    using raw(2) by (rule list.pred_mono_strong) (auto simp: word_less_nat_alt word_le_nat_alt)
  then have "utf8_ok raw" by (rule utf8_ascii)
  moreover have "unat (word_of_nat (length raw) :: byte) = length raw" using raw(1) by (simp add: unat_of_nat)
  ultimately show ?thesis by (simp add: engine_version_as_str_def v)
qed

lemma header_engine_version_inj:
  assumes "is_valid_engine_version (h_engine_version h)" "engine_version_new raw = Inr v"
  shows "header_engine_version h = v \<longleftrightarrow> h_engine_version h = raw"
proof -
  have "h_engine_version h \<noteq> [] \<and> length (h_engine_version h) \<le> 64 \<and>
      list_all (\<lambda>b. 0x21 \<le> b \<and> b \<le> 0x7E) (h_engine_version h)"
    using assms(1) by (cases "h_engine_version h") (simp_all add: is_valid_engine_version_def max_engine_version_def)
  then obtain w where w: "engine_version_new (h_engine_version h) = Inr w"
    unfolding engine_version_new_def by auto
  then have hw: "header_engine_version h = w" by (simp add: header_engine_version_def)
  note texts = engine_version_new_as_str [OF w] engine_version_new_as_str [OF assms(2)]
  show ?thesis
  proof
    assume "header_engine_version h = v"
    then show "h_engine_version h = raw" unfolding hw using texts by (elim subst) (rule refl)
  next
    assume "h_engine_version h = raw"
    then show "header_engine_version h = v" using w assms(2) unfolding hw by simp
  qed
qed

section \<open>What a step can do\<close>

primrec status_event :: "sync_status \<Rightarrow> sync_event option" where
  "status_event Healthy = None"
| "status_event (Halted e) = Some (Event_Halted e)"
| "status_event (EnvelopeInvalid i) = Some (Event_EnvelopeInvalid i)"
| "status_event (UpdateRequired u) = Some (Event_UpdateRequired u)"

definition announced :: "sync_status \<Rightarrow> sync_status \<times> sync_event option \<Rightarrow> bool" where
  "announced s r \<longleftrightarrow> snd r = (if fst r = s then None else status_event (fst r))"

definition narrows :: "sync_status \<Rightarrow> sync_status \<times> sync_event option \<Rightarrow> bool" where
  "narrows s r \<longleftrightarrow> (\<forall>n. can_apply (fst r) n \<longrightarrow> can_apply s n) \<and> (is_halted s \<longrightarrow> fst r = s)"

lemma observe_engine_version_step:
  "announced s (observe_engine_version s seq digest envelope_version own)"
  "narrows s (observe_engine_version s seq digest envelope_version own)"
  by (cases s; auto simp: announced_def narrows_def observe_engine_version_def same_position_other_digest_def Let_def)+

lemma observe_stop_step:
  "announced s (observe_stop s seq digest h own outcome)"
  "narrows s (observe_stop s seq digest h own outcome)"
  using observe_engine_version_step [of s seq digest "header_engine_version h" own]
  by (cases s; auto simp: announced_def narrows_def observe_stop_def same_position_other_digest_def Let_def
      split: sum.splits)+

lemma status_observe_step:
  assumes "status_observe s r"
  shows "announced s r" "narrows s r"
proof -
  have "announced s r \<and> narrows s r"
    using assms
  proof cases
    case (in_context seq digest h own outcome ledger next_to_apply)
    then show ?thesis
      using observe_stop_step [of s]
      by (auto simp: observe_envelope_in_context_def observe_envelope_def announced_def narrows_def)
  qed (simp_all only: observe_stop_step observe_engine_version_step observe_envelope_def observe_apply_failure_def simp_thms,
      auto simp: observe_chain_error_def observe_fork_suspected_def observe_write_set_mismatch_def announced_def
        narrows_def split: chain_error.splits)
  then show "announced s r" "narrows s r" by simp_all
qed

section \<open>What the machine guarantees\<close>

text \<open>
  Every operation that records an observation returns an event exactly when it changes the status, and
  the event carries the new status.
\<close>
theorem one_event_per_change:
  "status_observe s r \<Longrightarrow> snd r = (if fst r = s then None else status_event (fst r))"
  using status_observe_step(1) by (simp only: announced_def)

theorem one_event_per_change_witness:
  "snd (observe_write_set_mismatch Healthy 3 1 2) = Some (Event_Halted (WriteSetMismatch 3 1 2))"
  using one_event_per_change [OF write_set_mismatch [of Healthy 3 1 2]]
  by (simp add: observe_write_set_mismatch_def)

inductive observed :: "sync_status \<Rightarrow> sync_status \<Rightarrow> bool" where
  no_step: "observed s s"
| observe: "observed s t \<Longrightarrow> status_observe t r \<Longrightarrow> observed s (fst r)"

lemma observed_narrows: "observed s t \<Longrightarrow> narrows s (t, None)"
proof (induction rule: observed.induct)
  case (observe s t r)
  then show ?case using status_observe_step(2) [OF observe.hyps(2)]
    by (cases t) (auto simp: narrows_def)
qed (simp add: narrows_def)

lemma can_push_iff: "can_push s \<longleftrightarrow> (\<forall>n. can_apply s n)"
  by (cases s) (auto simp: can_push_def)

text \<open>
  C15: No sequence of observations, in any order, lets a replica apply a position, or push, where it could
  not before; a halt stays what it is.
\<close>
theorem observations_never_widen:
  "observed s t \<Longrightarrow>
     (can_apply t n \<longrightarrow> can_apply s n) \<and> (can_push t \<longrightarrow> can_push s) \<and> (is_halted s \<longrightarrow> t = s)"
  using observed_narrows unfolding can_push_iff narrows_def by fastforce

theorem observations_never_widen_witness:
  "\<not> can_push (fst (observe_write_set_mismatch (Halted (Equivocation 1 2)) 3 1 2))"
  using observations_never_widen [OF observe [OF no_step write_set_mismatch [of "Halted (Equivocation 1 2)" 3 1 2]]]
  by (simp add: can_push_def)

section \<open>The ways out\<close>

definition snapshot_sound :: "snapshot_facts \<Rightarrow> bool" where
  "snapshot_sound f \<longleftrightarrow> sf_engine_version f = sf_own_engine_version f \<and>
     (\<forall>(first, last) \<in> set (sf_held_voids f). \<not> (first \<le> sf_root f \<and> sf_root f \<le> last))"

definition snapshot_clears :: "sync_status \<Rightarrow> snapshot_facts \<Rightarrow> bool" where
  "snapshot_clears s f \<longleftrightarrow> snapshot_sound f \<and>
     (case s of
        Healthy \<Rightarrow> False
      | EnvelopeInvalid i \<Rightarrow>
          \<exists>v \<in> set (sf_recorded_voids f). hv_first v \<le> ie_seq i \<and> ie_seq i \<le> hv_last v \<and> hv_last v < sf_root f
      | UpdateRequired u \<Rightarrow> ur_seq u \<le> sf_root f
      | Halted (WriteSetMismatch seq _ _) \<Rightarrow> seq \<le> sf_root f
      | Halted (AppliedPositionInvalid seq _) \<Rightarrow> seq \<le> sf_root f
      | Halted _ \<Rightarrow> False)"

lemma rebootstrap_permit_iff:
  "rebootstrap_permit s f = Some p \<longleftrightarrow> snapshot_clears s f \<and>
     (\<exists>stop. current_stop s = Some stop \<and> p = \<lparr>rp_root = sf_root f, rp_stop = stop\<rparr>)"
proof (cases s)
  case (Halted e)
  then show ?thesis
    by (cases e) (auto simp: rebootstrap_permit_def snapshot_clears_def snapshot_sound_def list_ex_iff)
qed (auto simp: rebootstrap_permit_def snapshot_clears_def snapshot_sound_def snapshot_passes_stop_def list_ex_iff)

lemma snapshot_clears_cong:
  "current_stop s = Some stop \<Longrightarrow> current_stop t = Some stop \<Longrightarrow> snapshot_clears s f \<longleftrightarrow> snapshot_clears t f"
proof -
  have *: "halt_identity e = Some k \<Longrightarrow> si_kind k \<in> {Kind_WriteSetMismatch, Kind_AppliedPositionInvalid} \<and>
      (snapshot_clears (Halted e) f \<longleftrightarrow> snapshot_sound f \<and> si_seq k \<le> sf_root f)" for e k
    by (cases e) (auto simp: snapshot_clears_def)
  assume "current_stop s = Some stop" "current_stop t = Some stop"
  then show ?thesis
    using * by (cases s; cases t) (force simp: snapshot_clears_def)+
qed

text \<open>
  C17: A permit, whenever it was issued, ends a stop exactly if it was issued for this stop, and then the
  snapshot is a sound way out of it: of this build's version and not rooted in a held void range;
  past an honored void it records that covers an invalid envelope; at or past the position otherwise;
  never for a fork, an equivocation, a position conflict or a void honored at two positions.
\<close>
theorem snapshot_exit_exact:
  "rebootstrap_permit s0 f = Some p \<Longrightarrow>
     observe_rebootstrapped s p =
       (if current_stop s = Some (rp_stop p) \<and> snapshot_clears s f
        then (Healthy, Some (Event_Rebootstrapped (sf_root f))) else (s, None))"
  using snapshot_clears_cong [of s "rp_stop p" s0 f]
  by (auto simp: rebootstrap_permit_iff observe_rebootstrapped_def split: option.splits)

theorem snapshot_exit_exact_witness:
  "observe_rebootstrapped (Halted (WriteSetMismatch 3 1 2))
     \<lparr>rp_root = 7, rp_stop = \<lparr>si_kind = Kind_WriteSetMismatch, si_seq = 3, si_digest = 1\<rparr>\<rparr> =
     (Healthy, Some (Event_Rebootstrapped 7))"
  using snapshot_exit_exact [of "Halted (WriteSetMismatch 3 1 2)"
      "\<lparr>sf_root = 7, sf_own_engine_version = unparseable_version, sf_engine_version = unparseable_version,
        sf_recorded_voids = [], sf_held_voids = [(8, 9)]\<rparr>" _ "Halted (WriteSetMismatch 3 1 2)"]
  by (simp add: rebootstrap_permit_iff snapshot_clears_def snapshot_sound_def)

inductive status_run :: "sync_status \<Rightarrow> sync_status \<Rightarrow> bool" where
  start: "status_run s s"
| observe: "status_run s t \<Longrightarrow> status_observe t r \<Longrightarrow> status_run s (fst r)"
| exit: "status_run s t \<Longrightarrow> status_exit t r \<Longrightarrow> status_run s (fst r)"

text \<open>The halts that nothing may end, named by their evidence.\<close>

primrec irrevocable :: "halt_evidence \<Rightarrow> bool" where
  "irrevocable (Fork _ _ _) = True"
| "irrevocable (Equivocation _ _) = True"
| "irrevocable (SeqConflict _ _ _) = True"
| "irrevocable (HonoredAtTwoPositions _ _ _) = True"
| "irrevocable (WriteSetMismatch _ _ _) = False"
| "irrevocable (AppliedPositionInvalid _ _) = False"

lemma status_exit_halted:
  "status_exit (Halted e) r \<Longrightarrow> irrevocable e \<Longrightarrow> fst r = Halted e"
  by (cases e; auto elim!: status_exit.cases
      simp: observe_honored_def observe_rebootstrapped_def observe_own_engine_version_def)

text \<open>
  C16: No run of the machine, whatever is observed, honored, installed or updated and whatever permit is
  presented, leaves a halt on a fork, an equivocation, a position conflict or a void at two positions; it stays
  with its first evidence.
\<close>
theorem fork_halt_is_final:
  "status_run s t \<Longrightarrow> s = Halted e \<Longrightarrow> irrevocable e \<Longrightarrow> t = Halted e"
proof (induction rule: status_run.induct)
  case (observe s t r)
  then show ?case using status_observe_step(2) [OF observe.hyps(2)] by (auto simp: narrows_def)
qed (auto dest: status_exit_halted)

theorem fork_halt_is_final_witness:
  "observe_own_engine_version (Halted (Equivocation 1 2)) unparseable_version = Halted (Equivocation 1 2)"
  using fork_halt_is_final [OF exit [OF start own_version [of "Halted (Equivocation 1 2)" unparseable_version]]]
  by simp

section \<open>The order of verification does not matter\<close>

type_synonym log = "64 word \<Rightarrow> 256 word \<times> clear_header \<times> (receiver_error, unit) res"

definition verify_position :: "log \<Rightarrow> engine_version \<Rightarrow> 64 word \<Rightarrow> sync_status \<Rightarrow> sync_status" where
  "verify_position log own q s = (case log q of (digest, h, outcome) \<Rightarrow> fst (observe_envelope s q digest h own outcome))"

definition poisoned :: "log \<Rightarrow> engine_version \<Rightarrow> 64 word \<Rightarrow> bool" where
  "poisoned log own q \<longleftrightarrow> (case log q of (_, h, outcome) \<Rightarrow> header_engine_version h \<noteq> own \<or> outcome \<noteq> Inr ())"

definition stop_at :: "log \<Rightarrow> engine_version \<Rightarrow> 64 word \<Rightarrow> sync_status" where
  "stop_at log own q =
     (case log q of (digest, h, outcome) \<Rightarrow>
        if header_engine_version h \<noteq> own then
          UpdateRequired \<lparr>ur_seq = q, ur_envelope_digest = digest,
            ur_envelope_engine_version = header_engine_version h, ur_own_engine_version = own\<rparr>
        else case outcome of
               Inr _ \<Rightarrow> Healthy
             | Inl e \<Rightarrow>
                 EnvelopeInvalid \<lparr>ie_seq = q, ie_envelope_digest = digest, ie_command_id = h_object_id h,
                   ie_device_id = h_device_id h, ie_fingerprint = h_fingerprint h, ie_reason = ReceiverCheck e\<rparr>)"

lemma verify_position_Healthy: "verify_position log own q Healthy = stop_at log own q"
  by (auto simp: verify_position_def stop_at_def observe_envelope_def observe_stop_def observe_engine_version_def
      same_position_other_digest_def map_err_def Let_def split: prod.splits sum.splits)

lemma stop_at_sound: "\<not> poisoned log own q \<Longrightarrow> stop_at log own q = Healthy"
  by (auto simp: poisoned_def stop_at_def split: prod.splits)

lemma verify_position_stopped:
  "poisoned log own p \<Longrightarrow>
     verify_position log own q (stop_at log own p) =
       (if poisoned log own q \<and> q < p then stop_at log own q else stop_at log own p)"
  by (cases "p = q"; cases "snd (snd (log q))")
    (auto simp: verify_position_def stop_at_def poisoned_def observe_envelope_def observe_stop_def
      observe_engine_version_def same_position_other_digest_def map_err_def Let_def split: prod.splits sum.splits)

text \<open>
  C18: Verifying the envelopes of a log in any order, with repetitions, leads a healthy replica to the same
  status: stopped at the least position whose envelope is of a foreign version or fails a check, and
  healthy if there is none.
\<close>
theorem verification_order_irrelevant:
  "fold (verify_position log own) qs Healthy =
     (if \<exists>q \<in> set qs. poisoned log own q then stop_at log own (Min {q \<in> set qs. poisoned log own q}) else Healthy)"
proof (induction qs rule: rev_induct)
  case (snoc q qs)
  show ?case
  proof (cases "\<exists>p \<in> set qs. poisoned log own p")
    case True
    let ?P = "{p \<in> set qs. poisoned log own p}"
    have "?P \<noteq> {}" using True by blast
    then have "Min ?P \<in> ?P" by (intro Min_in) auto
    moreover have "{p \<in> set (qs @ [q]). poisoned log own p} = (if poisoned log own q then insert q ?P else ?P)" by auto
    moreover have "Min (insert q ?P) = min q (Min ?P)" using \<open>?P \<noteq> {}\<close> by (intro Min_insert) auto
    ultimately show ?thesis
      using True snoc by (auto simp: verify_position_stopped min_def)
  next
    case False
    then have "{p \<in> set (qs @ [q]). poisoned log own p} = (if poisoned log own q then {q} else {})" by auto
    then show ?thesis using False snoc by (auto simp: verify_position_Healthy stop_at_sound)
  qed
qed simp

section \<open>The version gate\<close>

lemma version_gate:
  "fst (observe_envelope s seq digest h own outcome) = EnvelopeInvalid i \<Longrightarrow> EnvelopeInvalid i \<noteq> s \<Longrightarrow>
     header_engine_version h = own \<and> ie_seq i = seq \<and> ie_envelope_digest i = digest \<and> outcome \<noteq> Inr ()"
  by (cases s; auto simp: observe_envelope_def observe_stop_def observe_engine_version_def same_position_other_digest_def
      map_err_def Let_def split: if_splits sum.splits)

text \<open>
  Below the cursor the gate is not consulted: a failed outcome halts the replica also when the envelope
  is of another version than the build.
\<close>

lemma applied_position_ignores_gate:
  "\<not> skips ledger seq \<Longrightarrow> seq < next_to_apply \<Longrightarrow> outcome \<noteq> Inr () \<Longrightarrow> \<not> is_halted s \<Longrightarrow>
     fst (observe_envelope_in_context s ledger next_to_apply seq digest h own outcome) =
       Halted (AppliedPositionInvalid seq digest)"
  by (simp add: observe_envelope_in_context_def)

end
