(* ===== verification/Sync_Void.thy ===== *)
theory Sync_Void
  imports Sync_Status Membership_Example
begin

text \<open>
  \<^verbatim>\<open>crates/sync-core/src/void.rs\<close>: void records, by which the vault moves past a position whose envelope is
  invalid, the rule by which a replica honors one, and the ledger of the honored voids.

  The ledger's range type and its two queries stand in \<open>Sync_Status\<close>, which reads them.  SHA-256 and the
  elliptic-curve library are parameters.
\<close>

definition void_label :: bytes where "void_label = ascii_bytes ''dohflow/sync-void/v1''"
definition void_ledger_label :: bytes where "void_ledger_label = ascii_bytes ''dohflow/sync-void-ledger/v1''"
definition max_void_body :: nat where "max_void_body = 256"
definition max_ledger_entries :: nat where "max_ledger_entries = 4096"

section \<open>Void records\<close>

datatype void_reason = Reason_ReceiverCheck | Reason_DeterministicApply

record void_body =
  vb_suite_id :: "16 word"
  vb_vault_id :: "128 word"
  vb_seq :: "64 word"
  vb_command_id :: "128 word"
  vb_envelope_digest :: "256 word"
  vb_reason :: void_reason
  vb_signer_fingerprint :: fingerprint
  vb_issued_at :: int

primrec void_reason_byte :: "void_reason \<Rightarrow> byte" where
  "void_reason_byte Reason_ReceiverCheck = 1"
| "void_reason_byte Reason_DeterministicApply = 2"

definition void_reason_from_byte :: "byte \<Rightarrow> (wire_error, void_reason) res" where
  "void_reason_from_byte b =
     (if b = 1 then Inr Reason_ReceiverCheck else if b = 2 then Inr Reason_DeterministicApply
      else Inl UnknownObjectType)"

definition void_body_encode :: "void_body \<Rightarrow> (wire_error, bytes) res" where
  "void_body_encode b =
     res_bind (with_label void_label) (\<lambda>w.
       Inr (w_all [w_u16 protocol_version, w_u16 (vb_suite_id b), w_fixed (vb_vault_id b), w_u64 (vb_seq b),
              w_fixed (vb_command_id b), w_fixed (vb_envelope_digest b), w_u8 (void_reason_byte (vb_reason b)),
              w_fixed (fingerprint_bytes (vb_signer_fingerprint b)), w_i64 (vb_issued_at b)] w))"

definition void_body_decode :: "bytes \<Rightarrow> (wire_error, void_body) res" where
  "void_body_decode bs =
     res_bind (r_label void_label bs) (\<lambda>r.
     res_bind (r_u16 r) (\<lambda>(protocol, r).
     if protocol \<noteq> protocol_version then Inl UnsupportedProtocol else
     res_bind (r_u16 r) (\<lambda>(suite_id, r).
     res_bind (r_fixed r) (\<lambda>(vault_id, r).
     res_bind (r_u64 r) (\<lambda>(seq, r).
     res_bind (r_fixed r) (\<lambda>(command_id, r).
     res_bind (r_fixed r) (\<lambda>(digest, r).
     res_bind (r_u8 r) (\<lambda>(reason, r).
     res_bind (void_reason_from_byte reason) (\<lambda>reason.
     res_bind (r_fixed r) (\<lambda>(signer, r).
     res_bind (r_i64 r) (\<lambda>(issued_at, r).
     res_bind (r_finish r) (\<lambda>_.
     Inr \<lparr>vb_suite_id = suite_id, vb_vault_id = vault_id, vb_seq = seq, vb_command_id = command_id,
          vb_envelope_digest = digest, vb_reason = reason, vb_signer_fingerprint = Fingerprint signer,
          vb_issued_at = issued_at\<rparr>))))))))))))"

definition void_body_id :: "hash \<Rightarrow> void_body \<Rightarrow> (wire_error, 256 word) res" where
  "void_body_id sha256 b = res_bind (void_body_encode b) (\<lambda>w. Inr (sha256 w))"

datatype void_error =
    Void_Malformed wire_error | Void_UnsupportedProtocol | Void_UnsupportedSuite | Void_WrongVault
  | Void_SignerNotAuthorized | Void_BadSignature

record verified_void =
  vv_id :: "256 word"
  vv_position :: "64 word"
  vv_body :: void_body

definition void_body_error :: "wire_error \<Rightarrow> void_error" where
  "void_body_error e = (if e = UnsupportedProtocol then Void_UnsupportedProtocol else Void_Malformed e)"

definition verify_void ::
    "hash \<Rightarrow> dalek \<Rightarrow> verified_state \<Rightarrow> epoch_at_position \<Rightarrow> 64 word \<Rightarrow> bytes \<Rightarrow>
     (void_error, verified_void) res" where
  "verify_void sha256 c state at_void p record =
     res_bind (map_err Void_Malformed (signed_record_parse record max_void_body)) (\<lambda>signed.
     res_bind (map_err void_body_error (void_body_decode (sr_body signed))) (\<lambda>body.
       if vb_suite_id body \<noteq> suite_one then Inl Void_UnsupportedSuite
       else if vb_vault_id body \<noteq> vs_vault_id state then Inl Void_WrongVault
       else
         res_bind (ok_or (authorized_member_by_fingerprint_at_version state (vb_signer_fingerprint body)
                            (ep_membership_head_version at_void)) Void_SignerNotAuthorized) (\<lambda>signer.
           if \<not> ed25519_verify_strict c (m_ed25519_pk signer) (sr_body signed) (sr_signature signed)
           then Inl Void_BadSignature
           else Inr \<lparr>vv_id = signed_record_id sha256 signed, vv_position = p, vv_body = body\<rparr>)))"

section \<open>The rule\<close>

datatype inert =
    VoidNotAfterTarget | AlreadyCovered | PrecedesRoot | FoundValid | NotYetEvaluated | NotDeterminable
  | CommandMismatch

definition is_transient :: "inert \<Rightarrow> bool" where
  "is_transient i \<longleftrightarrow> i = NotYetEvaluated \<or> i = NotDeterminable"

datatype honor =
    Honored honored_void | AlreadyHonored honored_void | Inert inert | ForkSuspected fork_suspected

datatype offer_error =
  StopBehindFrontier | RootNotBelowFrontier | FrontierInsideHonoredRange | VoidsNotAscending

record honor_context =
  hc_status :: sync_status
  hc_next_to_apply :: "64 word"
  hc_snapshot_root :: "64 word option"
  hc_target_not_determinable :: bool

definition offer_at_stop ::
    "void_ledger \<Rightarrow> verified_void \<Rightarrow> invalid_envelope \<Rightarrow> honor \<times> void_ledger" where
  "offer_at_stop l v stop =
     (let body = vv_body v in
      if ie_envelope_digest stop \<noteq> vb_envelope_digest body then
        (ForkSuspected (DigestAtStop (vb_seq body) (ie_envelope_digest stop) (vb_envelope_digest body)), l)
      else if ie_command_id stop \<noteq> vb_command_id body then (Inert CommandMismatch, l)
      else
        let h = \<lparr>hv_void_id = vv_id v, hv_first = vb_seq body, hv_last = vv_position v - 1\<rparr>
        in (Honored h, VoidLedger (vl_honored l @ [h])))"

definition checked_inc :: "64 word \<Rightarrow> 64 word option" where
  "checked_inc w = (if w = - 1 then None else Some (w + 1))"

definition saturating_inc :: "64 word \<Rightarrow> 64 word" where
  "saturating_inc w = (if w = - 1 then w else w + 1)"

definition offer_one :: "void_ledger \<Rightarrow> verified_void \<Rightarrow> honor_context \<Rightarrow> honor \<times> void_ledger" where
  "offer_one l v ctx =
     (let body = vv_body v; p = vv_position v in
      case find (\<lambda>h. hv_void_id h = vv_id v) (vl_honored l) of
        Some existing \<Rightarrow>
          ((if checked_inc (hv_last existing) = Some p then AlreadyHonored existing
            else ForkSuspected (VoidAtTwoPositions (vv_id v) (saturating_inc (hv_last existing)) p)), l)
      | None \<Rightarrow>
          if p \<le> vb_seq body then (Inert VoidNotAfterTarget, l)
          else if skips l (vb_seq body) then (Inert AlreadyCovered, l)
          else if (case hc_snapshot_root ctx of None \<Rightarrow> False | Some root \<Rightarrow> vb_seq body \<le> root)
            then (Inert PrecedesRoot, l)
          else if vb_seq body < hc_next_to_apply ctx then (Inert FoundValid, l)
          else if hc_next_to_apply ctx < vb_seq body then (Inert NotYetEvaluated, l)
          else
            let other = (Inert (if hc_target_not_determinable ctx then NotDeterminable else NotYetEvaluated), l)
            in case hc_status ctx of
                 EnvelopeInvalid stop \<Rightarrow>
                   if ie_seq stop = vb_seq body then offer_at_stop l v stop else other
               | Halted _ \<Rightarrow> (Inert NotYetEvaluated, l)
               | _ \<Rightarrow> other)"

primrec changes_replica :: "honor \<Rightarrow> bool" where
  "changes_replica (Honored _) = True"
| "changes_replica (AlreadyHonored _) = False"
| "changes_replica (Inert _) = False"
| "changes_replica (ForkSuspected _) = True"

primrec offer_loop :: "void_ledger \<Rightarrow> verified_void list \<Rightarrow> honor_context \<Rightarrow> honor list \<times> void_ledger" where
  "offer_loop l [] ctx = ([], l)"
| "offer_loop l (v # vs) ctx =
     (let (outcome, l) = offer_one l v ctx
      in if changes_replica outcome then ([outcome], l)
         else let (outcomes, l) = offer_loop l vs ctx in (outcome # outcomes, l))"

primrec stop_seq :: "sync_status \<Rightarrow> 64 word option" where
  "stop_seq Healthy = None"
| "stop_seq (Halted _) = None"
| "stop_seq (EnvelopeInvalid stop) = Some (ie_seq stop)"
| "stop_seq (UpdateRequired update) = Some (ur_seq update)"

definition offer_in_order ::
    "void_ledger \<Rightarrow> verified_void list \<Rightarrow> honor_context \<Rightarrow> (offer_error, honor list \<times> void_ledger) res" where
  "offer_in_order l vs ctx =
     (let next_to_apply = hc_next_to_apply ctx in
      if (case stop_seq (hc_status ctx) of None \<Rightarrow> False | Some seq \<Rightarrow> seq < next_to_apply) then Inl StopBehindFrontier
      else if (case hc_snapshot_root ctx of None \<Rightarrow> False | Some root \<Rightarrow> next_to_apply \<le> root)
        then Inl RootNotBelowFrontier
      else if list_ex (\<lambda>h. next_to_apply \<le> hv_last h) (vl_honored l) then Inl FrontierInsideHonoredRange
      else if adjacent (\<ge>) (map vv_position vs) then Inl VoidsNotAscending
      else Inr (offer_loop l vs ctx))"

section \<open>The stored ledger\<close>

definition w_honored :: "honored_void \<Rightarrow> bytes \<Rightarrow> bytes" where
  "w_honored h = w_all [w_fixed (hv_void_id h), w_u64 (hv_first h), w_u64 (hv_last h)]"

definition r_honored :: "bytes \<Rightarrow> (wire_error, honored_void \<times> bytes) res" where
  "r_honored r =
     res_bind (r_fixed r) (\<lambda>(void_id, r).
     res_bind (r_u64 r) (\<lambda>(first, r).
     res_bind (r_u64 r) (\<lambda>(last, r).
     Inr (\<lparr>hv_void_id = void_id, hv_first = first, hv_last = last\<rparr>, r))))"

definition void_ledger_encode :: "void_ledger \<Rightarrow> (wire_error, bytes) res" where
  "void_ledger_encode l =
     res_bind (with_label void_ledger_label) (\<lambda>w. w_list max_ledger_entries (vl_honored l) w_honored w)"

definition ranges_ascend :: "honored_void list \<Rightarrow> bool" where
  "ranges_ascend hs \<longleftrightarrow>
     list_all (\<lambda>i. \<not> hv_last (hs ! i) < hv_first (hs ! i) \<and>
                   \<not> (0 < i \<and> hv_first (hs ! i) \<le> hv_last (hs ! (i - 1)))) [0..<length hs]"

definition void_ledger_decode :: "bytes \<Rightarrow> (wire_error, void_ledger) res" where
  "void_ledger_decode bs =
     res_bind (r_label void_ledger_label bs) (\<lambda>r.
     res_bind (r_list max_ledger_entries 48 r_honored r) (\<lambda>(honored, r).
     res_bind (r_finish r) (\<lambda>_.
       if \<not> ranges_ascend honored then Inl ListNotAscending else Inr (VoidLedger honored))))"

section \<open>The encodings\<close>

lemma void_labels_valid [simp]:
  "valid_label void_label" "valid_label void_ledger_label"
  by (code_simp)+

lemma void_reason_byte_step [simp]: "void_reason_from_byte (void_reason_byte r) = Inr r"
  by (cases r) (simp_all add: void_reason_from_byte_def)

lemma void_reason_from_byte_iff: "void_reason_from_byte b = Inr r \<longleftrightarrow> b = void_reason_byte r"
  by (cases r) (auto simp: void_reason_from_byte_def)

definition void_body_bytes :: "bytes \<Rightarrow> void_body \<Rightarrow> bytes" where
  "void_body_bytes label b =
     label @ w_u16 protocol_version [] @ w_u16 (vb_suite_id b) [] @ w_fixed (vb_vault_id b) [] @ w_u64 (vb_seq b) [] @
     w_fixed (vb_command_id b) [] @ w_fixed (vb_envelope_digest b) [] @ w_u8 (void_reason_byte (vb_reason b)) [] @
     w_fixed (fingerprint_bytes (vb_signer_fingerprint b)) [] @ w_i64 (vb_issued_at b) []"

lemma void_body_encode_iff:
  "void_body_encode b = Inr bs \<longleftrightarrow> (\<exists>label. with_label void_label = Inr label \<and> bs = void_body_bytes label b)"
  by (auto simp: void_body_encode_def void_body_bytes_def res_bind_Inr_iff wire_appends)

lemma void_body_codec:
  "void_body_decode bs = Inr b \<longleftrightarrow> in_i64 (vb_issued_at b) \<and> void_body_encode b = Inr bs"
  unfolding void_body_encode_iff
proof
  assume "void_body_decode bs = Inr b"
  then show "in_i64 (vb_issued_at b) \<and> (\<exists>label. with_label void_label = Inr label \<and> bs = void_body_bytes label b)"
    by (auto simp: void_body_decode_def res_bind_Inr_iff wire_reads r_label_iff void_body_bytes_def
        void_reason_from_byte_iff)
next
  assume "in_i64 (vb_issued_at b) \<and> (\<exists>label. with_label void_label = Inr label \<and> bs = void_body_bytes label b)"
  then show "void_body_decode bs = Inr b"
    by (auto simp: void_body_decode_def void_body_bytes_def wire_steps)
qed

lemma w_honored_bytes:
  "w_honored h w = w @ w_fixed (hv_void_id h) [] @ w_u64 (hv_first h) [] @ w_u64 (hv_last h) []"
  by (simp add: w_honored_def wire_appends)

lemma r_honored_iff: "r_honored r = Inr (v, r') \<longleftrightarrow> r = w_honored v [] @ r'"
proof
  assume "r_honored r = Inr (v, r')"
  then show "r = w_honored v [] @ r'"
    by (auto simp: r_honored_def w_honored_bytes res_bind_Inr_iff wire_reads)
next
  assume "r = w_honored v [] @ r'"
  then show "r_honored r = Inr (v, r')" by (simp add: r_honored_def w_honored_bytes wire_steps)
qed

interpretation honored_list: wire_field w_honored r_honored "\<lambda>_. True"
  by unfold_locales (simp_all add: r_honored_iff, simp add: w_honored_bytes)

lemma ledger_len_bounds: "max_ledger_entries < 2 ^ 32" "max_ledger_entries * 48 < 2 ^ 64"
  by (simp_all add: max_ledger_entries_def)

lemma r_honored_list_iff:
  "r_list max_ledger_entries 48 r_honored r = Inr (vs, r') \<longleftrightarrow>
     length vs \<le> max_ledger_entries \<and> r = be 4 (length vs) @ w_all (map w_honored vs) [] @ r'"
proof -
  have "\<forall>v. True \<longrightarrow> 48 \<le> length (w_honored v [])" by (simp add: w_honored_bytes wire_appends)
  from honored_list.r_list_iff [OF this _ ledger_len_bounds, of r vs r'] show ?thesis
    using ledger_len_bounds(1)
    by (auto simp: w_list_def honored_list.w_all_append [of vs "be 4 (length vs)"] list_all_iff)
qed

lemma r_honored_list_step:
  "length vs \<le> max_ledger_entries \<Longrightarrow>
     r_list max_ledger_entries 48 r_honored (be 4 (length vs) @ w_all (map w_honored vs) []) = Inr (vs, [])"
  by (simp add: r_honored_list_iff)

definition disjoint_ascending :: "honored_void list \<Rightarrow> bool" where
  "disjoint_ascending hs \<longleftrightarrow>
     sorted_wrt (\<lambda>a b. hv_last a < hv_first b) hs \<and> (\<forall>h \<in> set hs. hv_first h \<le> hv_last h)"

lemma disjoint_ascending_snoc:
  "disjoint_ascending (hs @ [h]) \<longleftrightarrow>
     disjoint_ascending hs \<and> hv_first h \<le> hv_last h \<and> (\<forall>g \<in> set hs. hv_last g < hv_first h)"
  by (auto simp: disjoint_ascending_def sorted_wrt_append)

lemma ranges_ascend_Nil [simp]: "ranges_ascend []"
  by (simp add: ranges_ascend_def)

lemma ranges_ascend_snoc:
  "ranges_ascend (hs @ [h]) \<longleftrightarrow>
     ranges_ascend hs \<and> hv_first h \<le> hv_last h \<and> (hs = [] \<or> hv_last (last hs) < hv_first h)"
proof -
  have "list_all (\<lambda>i. \<not> hv_last ((hs @ [h]) ! i) < hv_first ((hs @ [h]) ! i) \<and>
                   \<not> (0 < i \<and> hv_first ((hs @ [h]) ! i) \<le> hv_last ((hs @ [h]) ! (i - 1)))) [0..<length hs] \<longleftrightarrow>
      ranges_ascend hs"
    by (auto simp: ranges_ascend_def list_all_iff nth_append)
  then show ?thesis
    by (cases "hs = []") (auto simp: ranges_ascend_def [of "hs @ [h]"] ranges_ascend_def [of "[h]"] not_le not_less
        nth_append last_conv_nth)
qed

lemma ranges_ascend_iff: "ranges_ascend hs \<longleftrightarrow> disjoint_ascending hs"
proof (induction hs rule: rev_induct)
  case (snoc h hs)
  have "hv_last g < hv_first h"
    if "disjoint_ascending hs" "hv_last (last hs) < hv_first h" "g \<in> set hs" for g
    using that by (cases hs rule: rev_cases) (auto simp: disjoint_ascending_def sorted_wrt_append)
  then show ?case
    using snoc.IH by (cases "hs = []") (auto simp: ranges_ascend_snoc disjoint_ascending_snoc
        ranges_ascend_snoc [of "[]", simplified] disjoint_ascending_snoc [of "[]", simplified])
qed (simp add: disjoint_ascending_def)

definition ledger_bytes :: "bytes \<Rightarrow> void_ledger \<Rightarrow> bytes" where
  "ledger_bytes label l = label @ be 4 (length (vl_honored l)) @ w_all (map w_honored (vl_honored l)) []"

lemma void_ledger_encode_iff:
  "void_ledger_encode l = Inr bs \<longleftrightarrow> length (vl_honored l) \<le> max_ledger_entries \<and>
     (\<exists>label. with_label void_ledger_label = Inr label \<and> bs = ledger_bytes label l)"
  by (auto simp: void_ledger_encode_def ledger_bytes_def res_bind_Inr_iff w_list_def max_ledger_entries_def
      honored_list.w_all_append [of _ "_ @ _"])

text \<open>
  The stored form of the ledger reads back, and reading accepts nothing else: it succeeds exactly on what
  writing gives for ranges that run forward, ascend and are disjoint.
\<close>
theorem void_ledger_codec_exact:
  "void_ledger_decode bs = Inr l \<longleftrightarrow>
     disjoint_ascending (vl_honored l) \<and> void_ledger_encode l = Inr bs"
  unfolding void_ledger_encode_iff
proof
  assume "void_ledger_decode bs = Inr l"
  then show "disjoint_ascending (vl_honored l) \<and> length (vl_honored l) \<le> max_ledger_entries \<and>
      (\<exists>label. with_label void_ledger_label = Inr label \<and> bs = ledger_bytes label l)"
    by (auto simp: void_ledger_decode_def res_bind_Inr_iff wire_reads r_label_iff r_honored_list_iff
        ledger_bytes_def ranges_ascend_iff split: if_splits)
next
  assume "disjoint_ascending (vl_honored l) \<and> length (vl_honored l) \<le> max_ledger_entries \<and>
      (\<exists>label. with_label void_ledger_label = Inr label \<and> bs = ledger_bytes label l)"
  then show "void_ledger_decode bs = Inr l"
    by (cases l) (auto simp: void_ledger_decode_def ledger_bytes_def wire_steps ranges_ascend_iff r_honored_list_step)
qed

section \<open>Who may void\<close>

lemma verify_void_Inr:
  assumes "verify_void sha256 c state at_void p record = Inr v"
  obtains signed m where
    "signed_record_parse record max_void_body = Inr signed" "void_body_decode (sr_body signed) = Inr (vv_body v)"
    "vv_id v = sha256 (sr_body signed)" "vv_position v = p"
    "vb_suite_id (vv_body v) = suite_one" "vb_vault_id (vv_body v) = vs_vault_id state"
    "authorized_member_by_fingerprint_at_version state (vb_signer_fingerprint (vv_body v))
       (ep_membership_head_version at_void) = Some m"
    "ed25519_verify_strict c (m_ed25519_pk m) (sr_body signed) (sr_signature signed)"
  using assms
  by (auto simp: verify_void_def res_bind_Inr_iff map_err_iff ok_or_Inr_iff signed_record_id_def split: if_splits)

section \<open>What an offer does\<close>

lemma offer_one_honored_iff:
  "offer_one l v ctx = (Honored h, l') \<longleftrightarrow>
     vv_id v \<notin> hv_void_id ` set (vl_honored l) \<and> vb_seq (vv_body v) < vv_position v \<and>
     \<not> skips l (vb_seq (vv_body v)) \<and> (\<forall>root. hc_snapshot_root ctx = Some root \<longrightarrow> root < vb_seq (vv_body v)) \<and>
     hc_next_to_apply ctx = vb_seq (vv_body v) \<and>
     (\<exists>stop. hc_status ctx = EnvelopeInvalid stop \<and> ie_seq stop = vb_seq (vv_body v) \<and>
        ie_envelope_digest stop = vb_envelope_digest (vv_body v) \<and> ie_command_id stop = vb_command_id (vv_body v)) \<and>
     h = \<lparr>hv_void_id = vv_id v, hv_first = vb_seq (vv_body v), hv_last = vv_position v - 1\<rparr> \<and>
     l' = VoidLedger (vl_honored l @ [h])"
proof (cases "find (\<lambda>h. hv_void_id h = vv_id v) (vl_honored l)")
  case None
  then have "vv_id v \<notin> hv_void_id ` set (vl_honored l)" by (auto simp: find_None_iff)
  with None show ?thesis
    by (cases "hc_status ctx"; cases "hc_snapshot_root ctx")
      (auto simp: offer_one_def offer_at_stop_def Let_def not_le not_less split: if_splits)
next
  case (Some g)
  then have "vv_id v \<in> hv_void_id ` set (vl_honored l)" by (auto simp: find_Some_iff intro!: image_eqI [OF sym])
  with Some show ?thesis by (simp add: offer_one_def Let_def)
qed

lemma offer_one_ledger:
  "offer_one l v ctx = (outcome, l') \<Longrightarrow> (\<forall>h. outcome \<noteq> Honored h) \<Longrightarrow> l' = l"
  by (auto simp: offer_one_def offer_at_stop_def Let_def split: option.splits if_splits sync_status.splits)

lemma offer_loop_honors:
  assumes "offer_loop l vs ctx = (outcomes, l')"
  shows "(l' = l \<and> (\<forall>h. Honored h \<notin> set outcomes)) \<or>
    (\<exists>v \<in> set vs. \<exists>h. offer_one l v ctx = (Honored h, l') \<and> last outcomes = Honored h \<and> outcomes \<noteq> [] \<and>
       (\<forall>h'. Honored h' \<in> set outcomes \<longrightarrow> h' = h))"
  using assms
proof (induction vs arbitrary: outcomes l')
  case (Cons v vs)
  obtain outcome l1 where one: "offer_one l v ctx = (outcome, l1)" by fastforce
  obtain rest l2 where loop: "offer_loop l vs ctx = (rest, l2)" by fastforce
  show ?case
  proof (cases outcome)
    case (Honored h)
    then show ?thesis using one Cons.prems by auto
  next
    case (ForkSuspected f)
    then show ?thesis using one Cons.prems offer_one_ledger [OF one] by auto
  next
    case (AlreadyHonored h)
    then have "l1 = l" using offer_one_ledger [OF one] by simp
    then show ?thesis using one AlreadyHonored Cons.prems loop Cons.IH [OF loop] by auto
  next
    case (Inert i)
    then have "l1 = l" using offer_one_ledger [OF one] by simp
    then show ?thesis using one Inert Cons.prems loop Cons.IH [OF loop] by auto
  qed
qed simp

definition frontier_ok :: "void_ledger \<Rightarrow> honor_context \<Rightarrow> bool" where
  "frontier_ok l ctx \<longleftrightarrow>
     (\<forall>seq. stop_seq (hc_status ctx) = Some seq \<longrightarrow> hc_next_to_apply ctx \<le> seq) \<and>
     (\<forall>root. hc_snapshot_root ctx = Some root \<longrightarrow> root < hc_next_to_apply ctx) \<and>
     (\<forall>h \<in> set (vl_honored l). hv_last h < hc_next_to_apply ctx)"

lemma offer_in_order_Inr:
  "offer_in_order l vs ctx = Inr r \<longleftrightarrow>
     frontier_ok l ctx \<and> sorted_wrt (<) (map vv_position vs) \<and> r = offer_loop l vs ctx"
proof -
  have "\<not> adjacent (\<ge>) (map vv_position vs) \<longleftrightarrow> sorted_wrt (<) (map vv_position vs)" by (rule adjacent_ascending)
  then show ?thesis
    by (auto simp: offer_in_order_def frontier_ok_def Let_def list_ex_iff not_le not_less split: option.splits)
qed

definition void_ids :: "void_ledger \<Rightarrow> 256 word list" where
  "void_ids l = map hv_void_id (vl_honored l)"

lemma find_void_id_None: "find (\<lambda>h. hv_void_id h = i) (vl_honored l) = None \<longleftrightarrow> i \<notin> set (void_ids l)"
  by (force simp: find_None_iff void_ids_def)

definition ledger_ok :: "void_ledger \<Rightarrow> bool" where
  "ledger_ok l \<longleftrightarrow> disjoint_ascending (vl_honored l) \<and> distinct (void_ids l)"

text \<open>All that an accepted offer can do to the ledger: nothing, or one more range that starts at the stop.\<close>

lemma offer_in_order_cases:
  assumes "offer_in_order l vs ctx = Inr (outcomes, l')"
  obtains (unchanged) "l' = l" "\<forall>h. Honored h \<notin> set outcomes"
  | (honored) v stop h where
      "v \<in> set vs" "outcomes \<noteq> []" "last outcomes = Honored h" "vl_honored l' = vl_honored l @ [h]"
      "h = \<lparr>hv_void_id = vv_id v, hv_first = ie_seq stop, hv_last = vv_position v - 1\<rparr>"
      "hc_status ctx = EnvelopeInvalid stop" "ie_seq stop = hc_next_to_apply ctx" "ie_seq stop = vb_seq (vv_body v)"
      "ie_envelope_digest stop = vb_envelope_digest (vv_body v)" "ie_command_id stop = vb_command_id (vv_body v)"
      "ie_seq stop < vv_position v" "vv_id v \<notin> set (void_ids l)"
      "\<forall>h'. Honored h' \<in> set outcomes \<longrightarrow> h' = h"
proof -
  have loop: "offer_loop l vs ctx = (outcomes, l')" using assms by (simp add: offer_in_order_Inr)
  from offer_loop_honors [OF loop] show thesis
  proof
    assume "\<exists>v \<in> set vs. \<exists>h. offer_one l v ctx = (Honored h, l') \<and> last outcomes = Honored h \<and> outcomes \<noteq> [] \<and>
        (\<forall>h'. Honored h' \<in> set outcomes \<longrightarrow> h' = h)"
    then obtain v h where v: "v \<in> set vs" "offer_one l v ctx = (Honored h, l')" "last outcomes = Honored h"
      "outcomes \<noteq> []" "\<forall>h'. Honored h' \<in> set outcomes \<longrightarrow> h' = h" by blast
    from v(2) obtain stop where "hc_status ctx = EnvelopeInvalid stop" "ie_seq stop = vb_seq (vv_body v)"
      "ie_envelope_digest stop = vb_envelope_digest (vv_body v)" "ie_command_id stop = vb_command_id (vv_body v)"
      unfolding offer_one_honored_iff by blast
    with v show thesis by (intro honored [of v h stop]) (auto simp: offer_one_honored_iff void_ids_def)
  qed (use unchanged in blast)
qed

section \<open>The ledger\<close>

lemma le_pred_word: "a < (p :: 64 word) \<Longrightarrow> n \<le> p - 1 \<longleftrightarrow> n < p"
  by unat_arith

lemma pred_word: "a < (p :: 64 word) \<Longrightarrow> a \<le> p - 1 \<and> p - 1 \<noteq> - 1 \<and> p - 1 < p"
  using le_pred_word [of a p a] le_pred_word [of a p "p - 1"] by (auto simp: diff_eq_eq)

lemma offer_in_order_ledger_ok:
  assumes "offer_in_order l vs ctx = Inr (outcomes, l')" "ledger_ok l"
  shows "ledger_ok l'"
  using assms(1)
proof (cases rule: offer_in_order_cases)
  case (honored v stop h)
  have "hv_last g < hv_first h" if "g \<in> set (vl_honored l)" for g
    using assms(1) that honored by (simp add: offer_in_order_Inr frontier_ok_def)
  then show ?thesis
    using assms(2) honored pred_word [of "ie_seq stop" "vv_position v"]
    by (auto simp: ledger_ok_def void_ids_def disjoint_ascending_snoc)
qed (use assms(2) in simp)

text \<open>A ledger changes only by offers; a restart stores and reads it.\<close>

inductive ledger_reached :: "void_ledger \<Rightarrow> bool" where
  empty: "ledger_reached void_ledger_new"
| offer: "ledger_reached l \<Longrightarrow> offer_in_order l vs ctx = Inr (outcomes, l') \<Longrightarrow> ledger_reached l'"
| restart: "ledger_reached l \<Longrightarrow> void_ledger_encode l = Inr bs \<Longrightarrow> void_ledger_decode bs = Inr l' \<Longrightarrow> ledger_reached l'"

lemma ledger_encode_inj:
  assumes "void_ledger_encode l = Inr bs" "ledger_ok l"
  shows "void_ledger_decode bs = Inr l"
proof -
  obtain label where "length (vl_honored l) \<le> max_ledger_entries" "with_label void_ledger_label = Inr label"
      "bs = ledger_bytes label l"
    using assms(1) unfolding void_ledger_encode_iff by blast
  then show ?thesis
    using assms(2)
    by (cases l) (auto simp: void_ledger_decode_def ledger_bytes_def wire_steps ranges_ascend_iff r_honored_list_step
        ledger_ok_def)
qed

text \<open>
  C12: A ledger built by any offers, with any restarts between, holds ranges that run forward, ascend and are
  disjoint, and no void twice: a void is honored at most once, whatever is offered again.
\<close>
theorem ledger_stays_ordered:
  "ledger_reached l \<Longrightarrow>
     sorted_wrt (\<lambda>a b. hv_last a < hv_first b) (vl_honored l) \<and>
     list_all (\<lambda>h. hv_first h \<le> hv_last h) (vl_honored l) \<and> distinct (map hv_void_id (vl_honored l))"
proof -
  assume "ledger_reached l"
  then have "ledger_ok l"
  proof induction
    case (restart l bs l')
    then show ?case using ledger_encode_inj [of l bs] by simp
  qed (auto simp: offer_in_order_ledger_ok, simp add: ledger_ok_def disjoint_ascending_def void_ids_def void_ledger_new_def)
  then show ?thesis by (auto simp: ledger_ok_def disjoint_ascending_def void_ids_def list_all_iff)
qed

section \<open>A concrete void\<close>

text \<open>The member of the founded chain voids position 5, at position 7.\<close>

definition sample_body :: void_body where
  "sample_body = \<lparr>vb_suite_id = 1, vb_vault_id = 7, vb_seq = 5, vb_command_id = 3, vb_envelope_digest = 4,
     vb_reason = Reason_ReceiverCheck, vb_signer_fingerprint = Fingerprint 1, vb_issued_at = 0\<rparr>"

definition sample_record :: bytes where
  "sample_record = signed_bytes (void_body_bytes (labelled void_label) sample_body)"

definition sample_void :: verified_void where
  "sample_void = \<lparr>vv_id = 0, vv_position = 7, vv_body = sample_body\<rparr>"

definition sample_stop :: "256 word \<Rightarrow> invalid_envelope" where
  "sample_stop digest = \<lparr>ie_seq = 5, ie_envelope_digest = digest, ie_command_id = 3, ie_device_id = 5,
     ie_fingerprint = Fingerprint 1, ie_reason = ReceiverCheck TagMismatch\<rparr>"

definition sample_context :: "256 word \<Rightarrow> honor_context" where
  "sample_context digest = \<lparr>hc_status = EnvelopeInvalid (sample_stop digest), hc_next_to_apply = 5,
     hc_snapshot_root = None, hc_target_not_determinable = False\<rparr>"

definition sample_range :: honored_void where
  "sample_range = \<lparr>hv_void_id = 0, hv_first = 5, hv_last = 6\<rparr>"

lemmas sample_defs = sample_body_def sample_void_def sample_stop_def sample_context_def sample_range_def

lemma sample_verified:
  "verify_void last_hash trusting founded \<lparr>ep_key_epoch = 1, ep_membership_head_version = 1\<rparr> 7 sample_record =
     Inr sample_void"
proof -
  have "length (void_body_bytes (labelled void_label) sample_body) \<le> 256"
    by (simp add: void_body_bytes_def labelled_def void_label_def ascii_bytes_def wire_appends w_all_def)
  then have "signed_record_parse sample_record max_void_body =
      Inr \<lparr>sr_body = void_body_bytes (labelled void_label) sample_body, sr_signature = 0\<rparr>"
    by (simp add: sample_record_def signed_bytes_parse max_void_body_def)
  moreover have "void_body_decode (void_body_bytes (labelled void_label) sample_body) = Inr sample_body"
    unfolding void_body_codec void_body_encode_iff
    by (simp add: with_label_valid sample_body_def small_times)
  moreover have "last_hash (void_body_bytes (labelled void_label) sample_body) = 0"
    by (simp add: void_body_bytes_def last_hash_append w_i64_def last_hash_be be_empty sample_body_def del: be.simps)
  ultimately show ?thesis
    by (simp add: verify_void_def map_err_def signed_record_id_def authorized_member_by_fingerprint_at_version_def
        authorized_member_def authorized_at_def founded_def suite_one_def sample_defs)
qed

lemma sample_offer:
  "offer_in_order void_ledger_new [sample_void] (sample_context 4) =
     Inr ([Honored sample_range], VoidLedger [sample_range])"
  by (simp add: offer_in_order_Inr frontier_ok_def void_ledger_new_def offer_one_def offer_at_stop_def skips_def
      Let_def sample_defs)

theorem ledger_stays_ordered_witness:
  "sorted_wrt (\<lambda>a b. hv_last a < hv_first b) [sample_range]"
  using ledger_stays_ordered [OF offer [OF empty sample_offer]] by simp

section \<open>What is skipped\<close>

lemma skips_snoc: "skips (VoidLedger (hs @ [h])) n \<longleftrightarrow> skips (VoidLedger hs) n \<or> (hv_first h \<le> n \<and> n \<le> hv_last h)"
  by (auto simp: skips_def)

text \<open>
  C11: If offering void records pulled from the log makes the replica skip a position, then the replica was
  stopped, at its cursor, at an envelope it had itself found invalid; one of the records, pulled after the position,
  is signed by a member authorized where the record stands and names that envelope's digest and command;
  and the position is from the stop to just before the record.  Nothing becomes unskipped.
\<close>
theorem skip_needs_own_verdict_and_member_void:
  "offer_in_order l vs ctx = Inr (outcomes, l') \<Longrightarrow>
   (\<And>v. v \<in> set vs \<Longrightarrow> verify_void sha256 c state (at_void v) (vv_position v) (record v) = Inr v) \<Longrightarrow>
     (skips l n \<longrightarrow> skips l' n) \<and>
     (skips l' n \<and> \<not> skips l n \<longrightarrow>
       (\<exists>stop v signed m. hc_status ctx = EnvelopeInvalid stop \<and> ie_seq stop = hc_next_to_apply ctx \<and>
          v \<in> set vs \<and> ie_seq stop \<le> n \<and> n < vv_position v \<and>
          vb_envelope_digest (vv_body v) = ie_envelope_digest stop \<and> vb_command_id (vv_body v) = ie_command_id stop \<and>
          signed_record_parse (record v) max_void_body = Inr signed \<and> void_body_decode (sr_body signed) = Inr (vv_body v) \<and>
          authorized_member_by_fingerprint_at_version state (vb_signer_fingerprint (vv_body v))
            (ep_membership_head_version (at_void v)) = Some m \<and>
          ed25519_verify_strict c (m_ed25519_pk m) (sr_body signed) (sr_signature signed)))"
proof -
  assume offer: "offer_in_order l vs ctx = Inr (outcomes, l')"
    and verified: "\<And>v. v \<in> set vs \<Longrightarrow> verify_void sha256 c state (at_void v) (vv_position v) (record v) = Inr v"
  show ?thesis
    using offer
  proof (cases rule: offer_in_order_cases)
    case (honored v stop h)
    from verify_void_Inr [OF verified [OF honored(1)]] obtain signed m where
      "signed_record_parse (record v) max_void_body = Inr signed" "void_body_decode (sr_body signed) = Inr (vv_body v)"
      "authorized_member_by_fingerprint_at_version state (vb_signer_fingerprint (vv_body v))
         (ep_membership_head_version (at_void v)) = Some m"
      "ed25519_verify_strict c (m_ed25519_pk m) (sr_body signed) (sr_signature signed)" by metis
    then show ?thesis
      using honored le_pred_word [OF honored(11), of n] skips_snoc [of "vl_honored l" h n]
      by (cases l; cases l') fastforce
  qed simp
qed

theorem skip_needs_own_verdict_and_member_void_witness:
  "\<exists>(signed :: signed_record) (m :: member). void_body_decode (sr_body signed) = Inr sample_body \<and> m_fingerprint m = Fingerprint 1 \<and>
     ed25519_verify_strict trusting (m_ed25519_pk m) (sr_body signed) (sr_signature signed)"
proof -
  have "skips (VoidLedger [sample_range]) 6" "\<not> skips void_ledger_new 6"
    by (simp_all add: skips_def void_ledger_new_def sample_range_def)
  moreover have "\<And>v. v \<in> set [sample_void] \<Longrightarrow>
      verify_void last_hash trusting founded \<lparr>ep_key_epoch = 1, ep_membership_head_version = 1\<rparr> (vv_position v)
        sample_record = Inr v"
    using sample_verified by (simp add: sample_void_def)
  ultimately have "\<exists>(signed :: signed_record) (m :: member). void_body_decode (sr_body signed) = Inr (vv_body sample_void) \<and>
      authorized_member_by_fingerprint_at_version founded (vb_signer_fingerprint (vv_body sample_void)) 1 = Some m \<and>
      ed25519_verify_strict trusting (m_ed25519_pk m) (sr_body signed) (sr_signature signed)"
    using skip_needs_own_verdict_and_member_void [OF sample_offer, of last_hash trusting founded
        "\<lambda>_. \<lparr>ep_key_epoch = 1, ep_membership_head_version = 1\<rparr>" "\<lambda>_. sample_record" 6]
    by auto
  moreover have "m_fingerprint m = Fingerprint 1"
    if "authorized_member_by_fingerprint_at_version founded (vb_signer_fingerprint (vv_body sample_void)) 1 = Some m" for m
    using that by (auto simp: sample_void_def sample_body_def authorized_member_by_fingerprint_at_version_def
        authorized_member_def dest: find_Some)
  ultimately show ?thesis by (fastforce simp: sample_void_def)
qed

section \<open>After a void is honored\<close>

text \<open>
  Once an offer honors a void, the status becomes healthy again, resuming after the range, and the
  context with the cursor moved past the range is one in which further offers are judged.
\<close>
theorem honored_void_resumes:
  "offer_in_order l vs ctx = Inr (outcomes, l') \<Longrightarrow> Honored h \<in> set outcomes \<Longrightarrow>
     observe_honored (hc_status ctx) h = (Healthy, Some (Event_Resumed (hv_last h))) \<and> outcomes \<noteq> [] \<and>
     last outcomes = Honored h \<and> hc_next_to_apply ctx < hv_last h + 1 \<and>
     (sorted_wrt (<) (map vv_position us) \<longrightarrow>
        offer_in_order l' us (ctx\<lparr>hc_status := Healthy, hc_next_to_apply := hv_last h + 1\<rparr>) =
          Inr (offer_loop l' us (ctx\<lparr>hc_status := Healthy, hc_next_to_apply := hv_last h + 1\<rparr>)))"
proof -
  assume offer: "offer_in_order l vs ctx = Inr (outcomes, l')" and mem: "Honored h \<in> set outcomes"
  show ?thesis
    using offer
  proof (cases rule: offer_in_order_cases)
    case unchanged
    with mem show ?thesis by simp
  next
    case (honored v stop h')
    then have h: "h' = h" using mem by blast
    have next_pos: "hv_last h + 1 = vv_position v" using honored(5) h by simp
    have "frontier_ok l' (ctx\<lparr>hc_status := Healthy, hc_next_to_apply := hv_last h + 1\<rparr>)"
      unfolding frontier_ok_def next_pos
      using offer honored(4,5,7,11) h pred_word [OF honored(11)]
      by (auto simp: offer_in_order_Inr frontier_ok_def)
    then show ?thesis
      using honored h next_pos by (auto simp: offer_in_order_Inr observe_honored_def)
  qed
qed

theorem honored_void_resumes_witness:
  "observe_honored (EnvelopeInvalid (sample_stop 4)) sample_range = (Healthy, Some (Event_Resumed 6))"
  using honored_void_resumes [OF sample_offer, of sample_range "[]"] by (simp add: sample_defs)

text \<open>
  Offering an honored void again, alone, at its position never honors it a second time: whatever the
  context, a judged offer reports it as already honored and leaves the ledger as it is.
\<close>
theorem honored_once:
  "offer_in_order l vs ctx = Inr (outcomes, l') \<Longrightarrow> last outcomes = Honored h \<Longrightarrow> outcomes \<noteq> [] \<Longrightarrow> vv_id v = hv_void_id h \<Longrightarrow>
     offer_one l' v ctx' =
       (if vv_position v = hv_last h + 1 then AlreadyHonored h
        else ForkSuspected (VoidAtTwoPositions (vv_id v) (hv_last h + 1) (vv_position v)), l')"
proof -
  assume offer: "offer_in_order l vs ctx = Inr (outcomes, l')" and "last outcomes = Honored h" "outcomes \<noteq> []"
    and v: "vv_id v = hv_void_id h"
  then have mem: "Honored h \<in> set outcomes" by (metis last_in_set)
  show ?thesis
    using offer
  proof (cases rule: offer_in_order_cases)
    case unchanged
    with mem show ?thesis by simp
  next
    case (honored w stop h')
    then have h: "h' = h" using mem by blast
    have "find (\<lambda>g. hv_void_id g = vv_id v) (vl_honored l) = None"
      using honored(5,12) h v by (simp add: find_void_id_None)
    then have "find (\<lambda>g. hv_void_id g = vv_id v) (vl_honored l') = Some h"
      using honored(4) h v by (simp add: find_append)
    moreover have "hv_last h \<noteq> - 1" using honored(5,11) h pred_word by simp
    ultimately show ?thesis by (auto simp: offer_one_def checked_inc_def saturating_inc_def)
  qed
qed

theorem honored_once_witness:
  "offer_one (VoidLedger [sample_range]) sample_void (sample_context 4) =
     (AlreadyHonored sample_range, VoidLedger [sample_range])"
  using honored_once [OF sample_offer, of sample_range sample_void] by (simp add: sample_defs)

text \<open>
  C29: A void that names the stop's position with another digest is never a silent refusal: judged at the
  stop it halts the replica as a conflict of the log, with both digests, and is not honored.
\<close>
theorem other_digest_halts:
  "vv_id v \<notin> set (void_ids l) \<Longrightarrow> frontier_ok l ctx \<Longrightarrow> hc_status ctx = EnvelopeInvalid stop \<Longrightarrow>
   hc_next_to_apply ctx = ie_seq stop \<Longrightarrow> vb_seq (vv_body v) = ie_seq stop \<Longrightarrow> ie_seq stop < vv_position v \<Longrightarrow>
   vb_envelope_digest (vv_body v) \<noteq> ie_envelope_digest stop \<Longrightarrow>
     \<exists>f. offer_in_order l [v] ctx = Inr ([ForkSuspected f], l) \<and>
       fst (observe_fork_suspected (hc_status ctx) f) =
         Halted (SeqConflict (ie_seq stop) (ie_envelope_digest stop) (vb_envelope_digest (vv_body v)))"
proof -
  assume fresh: "vv_id v \<notin> set (void_ids l)" and frontier: "frontier_ok l ctx"
    and stop: "hc_status ctx = EnvelopeInvalid stop" and at_stop: "hc_next_to_apply ctx = ie_seq stop"
    and seq: "vb_seq (vv_body v) = ie_seq stop" "ie_seq stop < vv_position v"
    and other: "vb_envelope_digest (vv_body v) \<noteq> ie_envelope_digest stop"
  have "find (\<lambda>h. hv_void_id h = vv_id v) (vl_honored l) = None"
    using fresh by (simp add: find_void_id_None)
  moreover have "\<not> skips l (ie_seq stop)" "\<forall>root. hc_snapshot_root ctx = Some root \<longrightarrow> root < ie_seq stop"
    using frontier at_stop by (auto simp: frontier_ok_def skips_def list_ex_iff)
  ultimately have "offer_one l v ctx =
      (ForkSuspected (DigestAtStop (ie_seq stop) (ie_envelope_digest stop) (vb_envelope_digest (vv_body v))), l)"
    using stop at_stop seq other by (auto simp: offer_one_def offer_at_stop_def Let_def not_le split: option.splits)
  then show ?thesis using frontier stop by (auto simp: offer_in_order_Inr observe_fork_suspected_def)
qed

theorem other_digest_halts_witness:
  "\<exists>f. offer_in_order void_ledger_new [sample_void] (sample_context 9) = Inr ([ForkSuspected f], void_ledger_new)"
  using other_digest_halts [of sample_void void_ledger_new "sample_context 9" "sample_stop 9"]
  by (auto simp: void_ids_def void_ledger_new_def frontier_ok_def sample_defs)

end
