(* ===== verification/Sync_Accepted.thy ===== *)
theory Sync_Accepted
  imports Sync_Void
begin

text \<open>
  \<^verbatim>\<open>crates/sync-core/src/accepted.rs\<close>: the service's index of accepted envelopes, the decision it makes on
  a push, and the match a client makes between its outbox and what it pulls.

  The trait \<^verbatim>\<open>AcceptedIndex\<close> is the pair of lookups that \<open>decide_push\<close> takes; its documented contract is
  the locale \<open>accepted_index\<close>, interpreted on the index of the code.  A hash map is a map.  The bytes of a
  container come from \<open>Wire_Header\<close>.
\<close>

definition accepted_label :: bytes where "accepted_label = ascii_bytes ''dohflow/sync-accepted/v1''"
definition max_result_ref :: nat where "max_result_ref = 64"

section \<open>Records\<close>

record accepted_record =
  ar_vault_id :: "128 word"
  ar_command_id :: "128 word"
  ar_tag :: idempotency_key_tag
  ar_envelope_digest :: "256 word"
  ar_commitment :: metadata_commitment
  ar_key_epoch :: "64 word"
  ar_seq :: "64 word"
  ar_result_ref :: "bytes option"

definition w_result_ref :: "bytes option \<Rightarrow> bytes \<Rightarrow> (wire_error, bytes) res" where
  "w_result_ref v w =
     (case v of
        None \<Rightarrow> Inr (w_u8 0 w)
      | Some reference \<Rightarrow>
          if reference = [] then Inl EmptyOptionalBytes else w_bytes max_result_ref reference (w_u8 1 w))"

definition accepted_encode :: "accepted_record \<Rightarrow> (wire_error, bytes) res" where
  "accepted_encode a =
     res_bind (with_label accepted_label) (\<lambda>w.
       w_result_ref (ar_result_ref a)
         (w_all [w_fixed (ar_vault_id a), w_fixed (ar_command_id a), w_fixed (tag_bytes (ar_tag a)),
            w_fixed (ar_envelope_digest a), w_fixed (meta_bytes (ar_commitment a)), w_u64 (ar_key_epoch a),
            w_u64 (ar_seq a)] w))"

definition r_reference :: "bytes \<Rightarrow> (wire_error, bytes \<times> bytes) res" where
  "r_reference r =
     res_bind (r_bytes max_result_ref r) (\<lambda>(bs, r). if bs = [] then Inl EmptyOptionalBytes else Inr (bs, r))"

definition accepted_decode :: "bytes \<Rightarrow> (wire_error, accepted_record) res" where
  "accepted_decode bs =
     res_bind (r_label accepted_label bs) (\<lambda>r.
     res_bind (r_fixed r) (\<lambda>(vault_id, r).
     res_bind (r_fixed r) (\<lambda>(command_id, r).
     res_bind (r_fixed r) (\<lambda>(tag, r).
     res_bind (r_fixed r) (\<lambda>(digest, r).
     res_bind (r_fixed r) (\<lambda>(commitment, r).
     res_bind (r_u64 r) (\<lambda>(key_epoch, r).
     res_bind (r_u64 r) (\<lambda>(seq, r).
     res_bind (r_opt r_reference r) (\<lambda>(result_ref, r).
     res_bind (r_finish r) (\<lambda>_.
     Inr \<lparr>ar_vault_id = vault_id, ar_command_id = command_id, ar_tag = IdempotencyKeyTag tag,
          ar_envelope_digest = digest, ar_commitment = MetadataCommitment commitment,
          ar_key_epoch = key_epoch, ar_seq = seq, ar_result_ref = result_ref\<rparr>))))))))))"

section \<open>Identities\<close>

datatype identity_error = Identity_NotAnEnvelope | Identity_Digest | NotTheCheckedEnvelope

record identity =
  id_vault_id :: "128 word"
  id_command_id :: "128 word"
  id_tag :: idempotency_key_tag
  id_envelope_digest :: "256 word"
  id_commitment :: metadata_commitment
  id_device_id :: "128 word"
  id_fingerprint :: fingerprint

definition identity_from_container :: "hash \<Rightarrow> parsed_container \<Rightarrow> (identity_error, identity) res" where
  "identity_from_container sha256 pc =
     (case h_object (pc_header pc) of
        Snapshot _ \<Rightarrow> Inl Identity_NotAnEnvelope
      | Envelope tag commitment _ \<Rightarrow>
          res_bind (map_err (\<lambda>_. Identity_Digest)
                     (canonical_envelope_digest sha256 (pc_header_bytes pc) (pc_ciphertext pc))) (\<lambda>digest.
          Inr \<lparr>id_vault_id = h_vault_id (pc_header pc), id_command_id = h_object_id (pc_header pc), id_tag = tag,
               id_envelope_digest = digest, id_commitment = commitment, id_device_id = h_device_id (pc_header pc),
               id_fingerprint = h_fingerprint (pc_header pc)\<rparr>))"

datatype push_identity = PushIdentity (push_id: identity)

definition push_from_container :: "hash \<Rightarrow> parsed_container \<Rightarrow> (identity_error, push_identity) res" where
  "push_from_container sha256 pc = res_bind (identity_from_container sha256 pc) (\<lambda>i. Inr (PushIdentity i))"

definition push_accepted :: "push_identity \<Rightarrow> 64 word \<Rightarrow> 64 word \<Rightarrow> bytes option \<Rightarrow> accepted_record" where
  "push_accepted p key_epoch seq result_ref =
     (let i = push_id p in
      \<lparr>ar_vault_id = id_vault_id i, ar_command_id = id_command_id i, ar_tag = id_tag i,
       ar_envelope_digest = id_envelope_digest i, ar_commitment = id_commitment i,
       ar_key_epoch = key_epoch, ar_seq = seq, ar_result_ref = result_ref\<rparr>)"

section \<open>The decision on a push\<close>

datatype push_decision = Replay accepted_record | ProtocolFork | Unknown

datatype index_inconsistent = IndexInconsistent

definition decide_push ::
    "(128 word \<Rightarrow> accepted_record option) \<Rightarrow> (idempotency_key_tag \<Rightarrow> accepted_record option) \<Rightarrow> push_identity \<Rightarrow>
     (index_inconsistent, push_decision) res" where
  "decide_push index_by_command index_by_tag p =
     (let i = push_id p;
          by_command = index_by_command (id_command_id i);
          by_tag = index_by_tag (id_tag i)
      in if list_ex (\<lambda>r. ar_vault_id r \<noteq> id_vault_id i) (List.map_filter id [by_command, by_tag])
         then Inl IndexInconsistent
         else if \<not> pred_option (\<lambda>r. ar_command_id r = id_command_id i) by_command \<or>
                 \<not> pred_option (\<lambda>r. ar_tag r = id_tag i) by_tag
         then Inl IndexInconsistent
         else Inr (case (by_command, by_tag) of
                     (None, None) \<Rightarrow> Unknown
                   | (Some r, Some s) \<Rightarrow>
                       if r = s \<and> ar_envelope_digest r = id_envelope_digest i \<and> ar_commitment r = id_commitment i
                       then Replay r else ProtocolFork
                   | _ \<Rightarrow> ProtocolFork))"

record in_memory_index =
  ix_by_command :: "128 word \<rightharpoonup> accepted_record"
  ix_by_tag :: "256 word \<rightharpoonup> accepted_record"

datatype duplicate_identity = DuplicateIdentity

definition index_new :: in_memory_index where
  "index_new = \<lparr>ix_by_command = Map.empty, ix_by_tag = Map.empty\<rparr>"

definition index_insert :: "in_memory_index \<Rightarrow> accepted_record \<Rightarrow> (duplicate_identity, in_memory_index) res" where
  "index_insert ix r =
     (if ix_by_command ix (ar_command_id r) \<noteq> None \<or> ix_by_tag ix (tag_bytes (ar_tag r)) \<noteq> None
      then Inl DuplicateIdentity
      else Inr (ix\<lparr>ix_by_command := (ix_by_command ix)(ar_command_id r \<mapsto> r),
                   ix_by_tag := (ix_by_tag ix)(tag_bytes (ar_tag r) \<mapsto> r)\<rparr>))"

definition index_by_command_id :: "in_memory_index \<Rightarrow> 128 word \<Rightarrow> accepted_record option" where
  "index_by_command_id ix command_id = ix_by_command ix command_id"

definition index_by_tag :: "in_memory_index \<Rightarrow> idempotency_key_tag \<Rightarrow> accepted_record option" where
  "index_by_tag ix tag = ix_by_tag ix (tag_bytes tag)"

section \<open>The match on a pull\<close>

datatype outbox_entry = OutboxEntry (outbox_id: identity)

definition outbox_from_container :: "hash \<Rightarrow> parsed_container \<Rightarrow> (identity_error, outbox_entry) res" where
  "outbox_from_container sha256 pc = res_bind (identity_from_container sha256 pc) (\<lambda>i. Inr (OutboxEntry i))"

record pulled_envelope =
  pe_identity :: identity
  pe_seq :: "64 word"
  pe_result_ref :: "bytes option"

definition pulled_from_container ::
    "hash \<Rightarrow> parsed_container \<Rightarrow> checked_envelope \<Rightarrow> 64 word \<Rightarrow> bytes option \<Rightarrow>
     (identity_error, pulled_envelope) res" where
  "pulled_from_container sha256 pc checked seq result_ref =
     (if ce_header checked \<noteq> pc_header pc then Inl NotTheCheckedEnvelope
      else res_bind (identity_from_container sha256 pc) (\<lambda>i.
             Inr \<lparr>pe_identity = i, pe_seq = seq, pe_result_ref = result_ref\<rparr>))"

datatype pull_match = BindToAccepted "64 word" "bytes option" | Pull_ProtocolFork | NotMine

definition match_pulled :: "outbox_entry \<Rightarrow> pulled_envelope \<Rightarrow> pull_match" where
  "match_pulled outbox pulled =
     (let mine = outbox_id outbox; theirs = pe_identity pulled;
          same_command = (id_command_id mine = id_command_id theirs);
          same_tag = (id_tag mine = id_tag theirs)
      in if \<not> same_command \<and> \<not> same_tag then NotMine
         else if same_command \<and> same_tag \<and> id_envelope_digest mine = id_envelope_digest theirs \<and>
                 id_commitment mine = id_commitment theirs
         then BindToAccepted (pe_seq pulled) (pe_result_ref pulled)
         else Pull_ProtocolFork)"

section \<open>Records have one encoding\<close>

lemma accepted_label_valid [simp]: "valid_label accepted_label"
  by code_simp

definition reference_ok :: "bytes option \<Rightarrow> bool" where
  "reference_ok v \<longleftrightarrow> (\<forall>x. v = Some x \<longrightarrow> x \<noteq> [] \<and> length x \<le> max_result_ref)"

definition reference_bytes :: "bytes option \<Rightarrow> bytes" where
  "reference_bytes v = (case v of None \<Rightarrow> [0] | Some x \<Rightarrow> 1 # be 4 (length x) @ x)"

lemma w_result_ref_iff: "w_result_ref v w = Inr w' \<longleftrightarrow> reference_ok v \<and> w' = w @ reference_bytes v"
  by (auto simp: w_result_ref_def reference_ok_def reference_bytes_def w_bytes_iff max_result_ref_def w_u8_def
      split: option.splits)

lemma r_reference_iff:
  "r_opt r_reference r = Inr (v, r') \<longleftrightarrow> reference_ok v \<and> r = reference_bytes v @ r'"
proof -
  have *: "r_reference q = Inr (x, r') \<longleftrightarrow> x \<noteq> [] \<and> length x \<le> max_result_ref \<and> q = be 4 (length x) @ x @ r'" for q x
    by (auto simp: r_reference_def res_bind_Inr_iff r_bytes_iff w_bytes_iff max_result_ref_def)
  note simps = r_opt_def res_bind_Inr_iff r_u8_iff w_u8_def * reference_ok_def reference_bytes_def
  show ?thesis
  proof (cases v)
    case None
    then show ?thesis by (auto simp: simps intro!: exI [of _ "0 :: byte"])
  next
    case (Some x)
    then show ?thesis by (auto simp: simps intro!: exI [of _ "1 :: byte"])
  qed
qed

definition accepted_bytes :: "bytes \<Rightarrow> accepted_record \<Rightarrow> bytes" where
  "accepted_bytes label a =
     label @ w_fixed (ar_vault_id a) [] @ w_fixed (ar_command_id a) [] @ w_fixed (tag_bytes (ar_tag a)) [] @
     w_fixed (ar_envelope_digest a) [] @ w_fixed (meta_bytes (ar_commitment a)) [] @ w_u64 (ar_key_epoch a) [] @
     w_u64 (ar_seq a) [] @ reference_bytes (ar_result_ref a)"

lemma accepted_encode_iff:
  "accepted_encode a = Inr bs \<longleftrightarrow> reference_ok (ar_result_ref a) \<and>
     (\<exists>label. with_label accepted_label = Inr label \<and> bs = accepted_bytes label a)"
  by (auto simp: accepted_encode_def accepted_bytes_def res_bind_Inr_iff w_result_ref_iff wire_appends)

lemma r_reference_step:
  "reference_ok v \<Longrightarrow> r_opt r_reference (reference_bytes v) = Inr (v, [])"
  by (simp add: r_reference_iff)

text \<open>
  A record of the index is read from exactly the one byte string that encoding gives; an empty result
  reference, which would be a second form of none, is neither written nor read.
\<close>
theorem accepted_codec_exact:
  "accepted_decode bs = Inr a \<longleftrightarrow> accepted_encode a = Inr bs"
  unfolding accepted_encode_iff
proof
  assume "accepted_decode bs = Inr a"
  then show "reference_ok (ar_result_ref a) \<and>
      (\<exists>label. with_label accepted_label = Inr label \<and> bs = accepted_bytes label a)"
    by (auto simp: accepted_decode_def res_bind_Inr_iff wire_reads r_label_iff r_reference_iff accepted_bytes_def)
next
  assume "reference_ok (ar_result_ref a) \<and>
      (\<exists>label. with_label accepted_label = Inr label \<and> bs = accepted_bytes label a)"
  then show "accepted_decode bs = Inr a"
    by (auto simp: accepted_decode_def accepted_bytes_def wire_steps r_reference_step)
qed

section \<open>The contract of an index\<close>

text \<open>
  The client of the lookups is \<open>decide_push\<close>; the provider promises that the two lookups are two keys of
  one set of records of one vault, and that an insert of a record with two fresh keys adds just it.
\<close>

locale accepted_index =
  fixes invar :: "'i \<Rightarrow> bool"
    and vault :: "128 word"
    and by_command :: "'i \<Rightarrow> 128 word \<Rightarrow> accepted_record option"
    and by_tag :: "'i \<Rightarrow> idempotency_key_tag \<Rightarrow> accepted_record option"
    and put :: "'i \<Rightarrow> accepted_record \<Rightarrow> (duplicate_identity, 'i) res"
  assumes command_key: "invar ix \<Longrightarrow> by_command ix k = Some r \<Longrightarrow>
      ar_command_id r = k \<and> ar_vault_id r = vault \<and> by_tag ix (ar_tag r) = Some r"
    and tag_key: "invar ix \<Longrightarrow> by_tag ix t = Some r \<Longrightarrow> ar_tag r = t \<and> by_command ix (ar_command_id r) = Some r"
    and put_fresh: "invar ix \<Longrightarrow> by_command ix (ar_command_id r) = None \<Longrightarrow> by_tag ix (ar_tag r) = None \<Longrightarrow>
      ar_vault_id r = vault \<Longrightarrow>
      \<exists>ix'. put ix r = Inr ix' \<and> invar ix' \<and> by_command ix' = (by_command ix)(ar_command_id r \<mapsto> r)"
begin

definition same_envelope :: "push_identity \<Rightarrow> accepted_record \<Rightarrow> bool" where
  "same_envelope p r \<longleftrightarrow> ar_command_id r = id_command_id (push_id p) \<and> ar_tag r = id_tag (push_id p) \<and>
     ar_envelope_digest r = id_envelope_digest (push_id p) \<and> ar_commitment r = id_commitment (push_id p)"

lemma decide_lookups:
  assumes "invar ix" "id_vault_id (push_id p) = vault"
    and "by_command ix (id_command_id (push_id p)) = c" "by_tag ix (id_tag (push_id p)) = t"
  shows "decide_push (by_command ix) (by_tag ix) p =
    Inr (if c = None \<and> t = None then Unknown
         else if c = t \<and> same_envelope p (the c) then Replay (the c) else ProtocolFork)"
proof -
  have c: "ar_command_id r = id_command_id (push_id p) \<and> ar_vault_id r = vault"
    if "c = Some r" for r
    using command_key [OF assms(1), of "id_command_id (push_id p)" r] assms(3) that by auto
  have t: "ar_tag r = id_tag (push_id p) \<and> ar_vault_id r = vault" if "t = Some r" for r
    using tag_key [OF assms(1), of "id_tag (push_id p)" r] command_key [OF assms(1), of "ar_command_id r" r] assms(4) that
    by auto
  have lookups: "decide_push (by_command ix) (by_tag ix) p =
      (if list_ex (\<lambda>r. ar_vault_id r \<noteq> vault) (List.map_filter id [c, t]) then Inl IndexInconsistent
       else if \<not> pred_option (\<lambda>r. ar_command_id r = id_command_id (push_id p)) c \<or>
               \<not> pred_option (\<lambda>r. ar_tag r = id_tag (push_id p)) t
       then Inl IndexInconsistent
       else Inr (case (c, t) of
                   (None, None) \<Rightarrow> Unknown
                 | (Some r, Some s) \<Rightarrow>
                     if r = s \<and> ar_envelope_digest r = id_envelope_digest (push_id p) \<and>
                        ar_commitment r = id_commitment (push_id p)
                     then Replay r else ProtocolFork
                 | _ \<Rightarrow> ProtocolFork))"
    unfolding decide_push_def Let_def assms(2-4) ..
  show ?thesis
  proof (cases c)
    case None
    then show ?thesis using t unfolding lookups by (cases t) (simp_all add: List.map_filter_def)
  next
    case (Some r)
    then show ?thesis
      using c [OF Some] t unfolding lookups by (cases t) (auto simp: List.map_filter_def same_envelope_def)
  qed
qed

lemma decide_unknown:
  assumes "invar ix" "id_vault_id (push_id p) = vault"
  shows "decide_push (by_command ix) (by_tag ix) p = Inr Unknown \<longleftrightarrow>
     by_command ix (id_command_id (push_id p)) = None \<and> by_tag ix (id_tag (push_id p)) = None"
  by (simp add: decide_lookups [OF assms refl refl])

lemma decide_replay:
  assumes "invar ix" "id_vault_id (push_id p) = vault"
  shows "decide_push (by_command ix) (by_tag ix) p = Inr (Replay r) \<longleftrightarrow>
     by_command ix (id_command_id (push_id p)) = Some r \<and> same_envelope p r"
  using command_key [OF assms(1), of "id_command_id (push_id p)" r]
  by (auto simp: decide_lookups [OF assms refl refl] same_envelope_def)

end

section \<open>The index of the code\<close>

definition index_ok :: "128 word \<Rightarrow> in_memory_index \<Rightarrow> bool" where
  "index_ok v ix \<longleftrightarrow>
     (\<forall>k r. ix_by_command ix k = Some r \<longrightarrow>
        ar_command_id r = k \<and> ar_vault_id r = v \<and> ix_by_tag ix (tag_bytes (ar_tag r)) = Some r) \<and>
     (\<forall>k r. ix_by_tag ix k = Some r \<longrightarrow> tag_bytes (ar_tag r) = k \<and> ix_by_command ix (ar_command_id r) = Some r)"

lemma tag_eq_iff: "tag_bytes t = tag_bytes u \<longleftrightarrow> t = u"
  by (cases t; cases u) simp

lemma index_ok_new: "index_ok v index_new"
  by (simp add: index_ok_def index_new_def)

lemma index_insert_ok:
  assumes "index_ok v ix" "index_insert ix r = Inr ix'" "ar_vault_id r = v"
  shows "index_ok v ix'"
proof -
  have fresh: "ix_by_command ix (ar_command_id r) = None" "ix_by_tag ix (tag_bytes (ar_tag r)) = None"
    and ix': "ix_by_command ix' = (ix_by_command ix)(ar_command_id r \<mapsto> r)"
      "ix_by_tag ix' = (ix_by_tag ix)(tag_bytes (ar_tag r) \<mapsto> r)"
    using assms(2) by (auto simp: index_insert_def split: if_splits)
  have "tag_bytes (ar_tag q) \<noteq> tag_bytes (ar_tag r)" if "ix_by_command ix k = Some q" for k q
    using assms(1) fresh that unfolding index_ok_def by (metis option.distinct(1))
  moreover have "ar_command_id q \<noteq> ar_command_id r" if "ix_by_tag ix k = Some q" for k q
    using assms(1) fresh that unfolding index_ok_def by (metis option.distinct(1))
  ultimately show ?thesis
    using assms(1,3) unfolding index_ok_def ix' by (auto split: if_splits)
qed

interpretation in_memory: accepted_index "index_ok v" v index_by_command_id index_by_tag index_insert for v
proof
  fix v ix and r :: accepted_record
  assume ok: "index_ok v ix" and fresh: "index_by_command_id ix (ar_command_id r) = None" "index_by_tag ix (ar_tag r) = None"
    and "ar_vault_id r = v"
  then have "index_insert ix r = Inr (ix\<lparr>ix_by_command := (ix_by_command ix)(ar_command_id r \<mapsto> r),
      ix_by_tag := (ix_by_tag ix)(tag_bytes (ar_tag r) \<mapsto> r)\<rparr>)"
    by (simp add: index_insert_def index_by_command_id_def index_by_tag_def)
  then show "\<exists>ix'. index_insert ix r = Inr ix' \<and> index_ok v ix' \<and>
      index_by_command_id ix' = (index_by_command_id ix)(ar_command_id r \<mapsto> r)"
    using index_insert_ok [OF ok _ \<open>ar_vault_id r = v\<close>] by (fastforce simp: index_by_command_id_def)
qed (auto simp: index_ok_def index_by_command_id_def index_by_tag_def intro: tag_eq_iff [THEN iffD1])

section \<open>A service\<close>

text \<open>
  The documented order around \<open>decide_push\<close>: a container is appended only when the decision is unknown, and
  its record enters the index with it.
\<close>

inductive served :: "hash \<Rightarrow> 128 word \<Rightarrow> (parsed_container \<times> accepted_record) list \<Rightarrow> in_memory_index \<Rightarrow> bool"
  for sha256 v where
  start: "served sha256 v [] index_new"
| append: "served sha256 v log ix \<Longrightarrow> push_from_container sha256 pc = Inr p \<Longrightarrow> id_vault_id (push_id p) = v \<Longrightarrow>
     decide_push (index_by_command_id ix) (index_by_tag ix) p = Inr Unknown \<Longrightarrow>
     index_insert ix (push_accepted p key_epoch seq result_ref) = Inr ix' \<Longrightarrow>
     served sha256 v (log @ [(pc, push_accepted p key_epoch seq result_ref)]) ix'"

lemma push_accepted_fields [simp]:
  "ar_vault_id (push_accepted p e q f) = id_vault_id (push_id p)"
  "ar_command_id (push_accepted p e q f) = id_command_id (push_id p)"
  "ar_tag (push_accepted p e q f) = id_tag (push_id p)"
  "ar_envelope_digest (push_accepted p e q f) = id_envelope_digest (push_id p)"
  "ar_commitment (push_accepted p e q f) = id_commitment (push_id p)"
  by (simp_all add: push_accepted_def Let_def)

definition log_matches :: "hash \<Rightarrow> (parsed_container \<times> accepted_record) list \<Rightarrow> in_memory_index \<Rightarrow> bool" where
  "log_matches sha256 log ix \<longleftrightarrow>
     (\<forall>k r. index_by_command_id ix k = Some r \<longleftrightarrow> ar_command_id r = k \<and> r \<in> snd ` set log) \<and>
     (\<forall>(pc, r) \<in> set log. \<exists>p. push_from_container sha256 pc = Inr p \<and> in_memory.same_envelope p r)"

lemma served_ok: "served sha256 v log ix \<Longrightarrow> index_ok v ix \<and> log_matches sha256 log ix"
proof (induction rule: served.induct)
  case start
  then show ?case using index_ok_new by (simp add: log_matches_def index_by_command_id_def index_new_def)
next
  case (append log ix pc p key_epoch seq result_ref ix')
  let ?r = "push_accepted p key_epoch seq result_ref"
  have ok: "index_ok v ix'"
    using append by (auto intro: index_insert_ok)
  have by_command: "index_by_command_id ix' = (index_by_command_id ix)(ar_command_id ?r \<mapsto> ?r)"
    and fresh: "index_by_command_id ix (ar_command_id ?r) = None"
    using append.hyps(5) by (auto simp: index_insert_def index_by_command_id_def split: if_splits)
  have "\<forall>r \<in> snd ` set log. ar_command_id r \<noteq> ar_command_id ?r"
    using append.IH fresh unfolding log_matches_def by (metis option.distinct(1))
  moreover have "in_memory.same_envelope p ?r" by (simp add: in_memory.same_envelope_def)
  ultimately have "log_matches sha256 (log @ [(pc, ?r)]) ix'"
    using append.IH append.hyps(2) fresh unfolding log_matches_def by_command by (auto split: if_splits)
  with ok show ?case by simp
qed

text \<open>
  C19: A service that appends only what the decision calls unknown never finds its index inconsistent, and the
  decision on a push is exact: unknown if no accepted envelope has its command or tag, and then the insert
  succeeds; a replay of a record if that record has the push's command, tag, digest and commitment; a fork
  otherwise.  So a retry of an accepted container is a replay.
\<close>
theorem push_decision_exact:
  "served sha256 v log ix \<Longrightarrow> id_vault_id (push_id p) = v \<Longrightarrow>
     (\<exists>d. decide_push (index_by_command_id ix) (index_by_tag ix) p = Inr d) \<and>
     (decide_push (index_by_command_id ix) (index_by_tag ix) p = Inr Unknown \<longleftrightarrow>
        id_command_id (push_id p) \<notin> ar_command_id ` snd ` set log \<and> id_tag (push_id p) \<notin> ar_tag ` snd ` set log) \<and>
     (decide_push (index_by_command_id ix) (index_by_tag ix) p = Inr Unknown \<longrightarrow>
        (\<exists>ix'. index_insert ix (push_accepted p key_epoch seq result_ref) = Inr ix')) \<and>
     (decide_push (index_by_command_id ix) (index_by_tag ix) p = Inr (Replay r) \<longleftrightarrow>
        r \<in> snd ` set log \<and> ar_command_id r = id_command_id (push_id p) \<and> ar_tag r = id_tag (push_id p) \<and>
        ar_envelope_digest r = id_envelope_digest (push_id p) \<and> ar_commitment r = id_commitment (push_id p))"
proof -
  assume served: "served sha256 v log ix" and v: "id_vault_id (push_id p) = v"
  have ok: "index_ok v ix" and log: "log_matches sha256 log ix" using served_ok [OF served] by simp_all
  have command: "index_by_command_id ix k = Some r \<longleftrightarrow> ar_command_id r = k \<and> r \<in> snd ` set log" for k r
    using log by (simp add: log_matches_def)
  have no_command: "index_by_command_id ix k = None \<longleftrightarrow> k \<notin> ar_command_id ` snd ` set log" for k
    using command [of k] by (auto simp: not_Some_eq [symmetric] image_iff simp del: not_Some_eq)
  have tag: "index_by_tag ix t = Some r \<longleftrightarrow> ar_tag r = t \<and> r \<in> snd ` set log" for t r
    using in_memory.tag_key [OF ok, of t r] in_memory.command_key [OF ok, of "ar_command_id r" r]
      command [of "ar_command_id r" r] by auto
  have no_tag: "index_by_tag ix t = None \<longleftrightarrow> t \<notin> ar_tag ` snd ` set log" for t
    using tag [of t] by (auto simp: not_Some_eq [symmetric] image_iff simp del: not_Some_eq)
  let ?d = "decide_push (index_by_command_id ix) (index_by_tag ix) p"
  have total: "\<exists>d. ?d = Inr d" by (simp add: in_memory.decide_lookups [OF ok v refl refl])
  have unknown: "?d = Inr Unknown \<longleftrightarrow>
      id_command_id (push_id p) \<notin> ar_command_id ` snd ` set log \<and> id_tag (push_id p) \<notin> ar_tag ` snd ` set log"
    by (simp add: in_memory.decide_unknown [OF ok v] no_command no_tag)
  have replay: "?d = Inr (Replay r) \<longleftrightarrow>
      r \<in> snd ` set log \<and> ar_command_id r = id_command_id (push_id p) \<and> ar_tag r = id_tag (push_id p) \<and>
      ar_envelope_digest r = id_envelope_digest (push_id p) \<and> ar_commitment r = id_commitment (push_id p)"
    by (auto simp: in_memory.decide_replay [OF ok v] command in_memory.same_envelope_def)
  have "?d = Inr Unknown \<Longrightarrow> \<exists>ix'. index_insert ix (push_accepted p key_epoch seq result_ref) = Inr ix'"
    using in_memory.put_fresh [OF ok, of "push_accepted p key_epoch seq result_ref"] v
    by (auto simp: in_memory.decide_unknown [OF ok v])
  with total unknown replay show ?thesis by blast
qed

definition collision :: "hash \<Rightarrow> bytes \<Rightarrow> bytes \<Rightarrow> bool" where
  "collision sha256 a b \<longleftrightarrow> a \<noteq> b \<and> sha256 a = sha256 b"

lemma identity_Inr:
  assumes "identity_from_container sha256 pc = Inr i"
  obtains tag commitment manifest where
    "h_object (pc_header pc) = Envelope tag commitment manifest" "id_tag i = tag" "id_commitment i = commitment"
    "id_command_id i = h_object_id (pc_header pc)" "id_vault_id i = h_vault_id (pc_header pc)"
    "length (pc_header_bytes pc) < 2 ^ 32"
    "id_envelope_digest i = sha256 (digest_preimage (pc_header_bytes pc) (pc_ciphertext pc))"
  using assms
  by (cases "h_object (pc_header pc)")
    (auto simp: identity_from_container_def res_bind_Inr_iff map_err_iff canonical_envelope_digest_Inr)

lemma same_digest_same_bytes:
  assumes "identity_from_container sha256 pc = Inr i" "identity_from_container sha256 pc' = Inr i'"
    "id_envelope_digest i = id_envelope_digest i'"
  shows "pc_header_bytes pc = pc_header_bytes pc' \<and> pc_ciphertext pc = pc_ciphertext pc' \<or>
    collision sha256 (digest_preimage (pc_header_bytes pc) (pc_ciphertext pc))
      (digest_preimage (pc_header_bytes pc') (pc_ciphertext pc'))"
  using identity_Inr [OF assms(1)] identity_Inr [OF assms(2)] assms(3) digest_preimage_inj
  unfolding collision_def by metis

text \<open>
  C20: The service answers a push as a replay only if the very bytes of the push, header and ciphertext, were
  accepted before, or SHA-256 collides on the two envelopes.
\<close>
theorem replay_needs_accepted_bytes:
  "served sha256 v log ix \<Longrightarrow> push_from_container sha256 pc = Inr p \<Longrightarrow> id_vault_id (push_id p) = v \<Longrightarrow>
   decide_push (index_by_command_id ix) (index_by_tag ix) p = Inr (Replay r) \<Longrightarrow>
     \<exists>pc'. (pc', r) \<in> set log \<and>
       (pc_header_bytes pc' = pc_header_bytes pc \<and> pc_ciphertext pc' = pc_ciphertext pc \<or>
        collision sha256 (digest_preimage (pc_header_bytes pc') (pc_ciphertext pc'))
          (digest_preimage (pc_header_bytes pc) (pc_ciphertext pc)))"
proof -
  assume served: "served sha256 v log ix" and p: "push_from_container sha256 pc = Inr p" "id_vault_id (push_id p) = v"
    and replay: "decide_push (index_by_command_id ix) (index_by_tag ix) p = Inr (Replay r)"
  have ok: "index_ok v ix" and log: "log_matches sha256 log ix" using served_ok [OF served] by simp_all
  from replay have r: "index_by_command_id ix (id_command_id (push_id p)) = Some r" "in_memory.same_envelope p r"
    by (simp_all add: in_memory.decide_replay [OF ok p(2)])
  then obtain pc' where pc': "(pc', r) \<in> set log" using log unfolding log_matches_def by force
  then obtain p' where p': "push_from_container sha256 pc' = Inr p'" "in_memory.same_envelope p' r"
    using log unfolding log_matches_def by blast
  have "identity_from_container sha256 pc' = Inr (push_id p')" "identity_from_container sha256 pc = Inr (push_id p)"
    using p(1) p'(1) by (auto simp: push_from_container_def res_bind_Inr_iff)
  from same_digest_same_bytes [OF this] pc' show ?thesis
    using r(2) p'(2) by (auto simp: in_memory.same_envelope_def)
qed

text \<open>
  A client binds its outbox entry to what it pulled exactly if command, tag, digest and commitment agree,
  hence only to its own sealed bytes (or a collision), with the position and result it was given; one
  shared id with anything else is a fork; and its own container, pulled, binds.
\<close>
theorem pull_binds_own_bytes:
  "outbox_from_container sha256 pc = Inr mine \<Longrightarrow> pulled_from_container sha256 pc' checked seq result_ref = Inr pulled \<Longrightarrow>
     (match_pulled mine pulled = NotMine \<longleftrightarrow>
        h_object_id (pc_header pc) \<noteq> h_object_id (pc_header pc') \<and>
        idempotency_key_tag (h_object (pc_header pc)) \<noteq> idempotency_key_tag (h_object (pc_header pc'))) \<and>
     (match_pulled mine pulled = BindToAccepted q f \<longrightarrow> q = seq \<and> f = result_ref \<and>
        (pc_header_bytes pc = pc_header_bytes pc' \<and> pc_ciphertext pc = pc_ciphertext pc' \<or>
         collision sha256 (digest_preimage (pc_header_bytes pc) (pc_ciphertext pc))
           (digest_preimage (pc_header_bytes pc') (pc_ciphertext pc')))) \<and>
     (pc = pc' \<longrightarrow> match_pulled mine pulled = BindToAccepted seq result_ref)"
proof -
  assume mine: "outbox_from_container sha256 pc = Inr mine"
    and pulled: "pulled_from_container sha256 pc' checked seq result_ref = Inr pulled"
  have i: "identity_from_container sha256 pc = Inr (outbox_id mine)"
    using mine by (auto simp: outbox_from_container_def res_bind_Inr_iff)
  have i': "identity_from_container sha256 pc' = Inr (pe_identity pulled)" and fields: "pe_seq pulled = seq" "pe_result_ref pulled = result_ref"
    using pulled by (auto simp: pulled_from_container_def res_bind_Inr_iff split: if_splits)
  have ids: "id_command_id (outbox_id mine) = h_object_id (pc_header pc)"
    "id_tag (outbox_id mine) = idempotency_key_tag (h_object (pc_header pc))"
    using i by (auto elim: identity_Inr)
  have ids': "id_command_id (pe_identity pulled) = h_object_id (pc_header pc')"
    "id_tag (pe_identity pulled) = idempotency_key_tag (h_object (pc_header pc'))"
    using i' by (auto elim: identity_Inr)
  show ?thesis
    using same_digest_same_bytes [OF i i'] i i'
    by (auto simp: match_pulled_def Let_def fields ids ids' split: if_splits)
qed

section \<open>A concrete service\<close>

definition sample_container :: "bytes \<Rightarrow> parsed_container" where
  "sample_container ciphertext =
     \<lparr>pc_header = \<lparr>h_vault_id = 7, h_key_epoch = 1, h_object = Envelope (IdempotencyKeyTag 1) (MetadataCommitment 2) None,
        h_object_id = 3, h_device_id = 5, h_fingerprint = Fingerprint 1, h_nonce_domain = NonceDomain 0,
        h_invocation_counter = 0, h_base_seq = 0, h_payload_schema_version = 1, h_engine_version = [0x31],
        h_schema_version = 1\<rparr>,
      pc_header_bytes = [1], pc_ciphertext = ciphertext\<rparr>"

definition sample_identity :: identity where
  "sample_identity = \<lparr>id_vault_id = 7, id_command_id = 3, id_tag = IdempotencyKeyTag 1, id_envelope_digest = 9,
     id_commitment = MetadataCommitment 2, id_device_id = 5, id_fingerprint = Fingerprint 1\<rparr>"

definition sample_accepted :: accepted_record where
  "sample_accepted = push_accepted (PushIdentity sample_identity) 1 4 None"

definition sample_index :: in_memory_index where
  "sample_index = \<lparr>ix_by_command = [3 \<mapsto> sample_accepted], ix_by_tag = [1 \<mapsto> sample_accepted]\<rparr>"

lemma sample_identity_from: "identity_from_container last_hash (sample_container [9]) = Inr sample_identity"
proof -
  have "canonical_envelope_digest last_hash [1] [9] = Inr 9"
    by (simp add: canonical_envelope_digest_Inr digest_preimage_def last_hash_def)
  then show ?thesis
    by (simp add: identity_from_container_def sample_container_def sample_identity_def map_err_def)
qed

lemma sample_push: "push_from_container last_hash (sample_container [9]) = Inr (PushIdentity sample_identity)"
  by (simp add: push_from_container_def sample_identity_from)

lemma sample_served: "served last_hash 7 [(sample_container [9], sample_accepted)] sample_index"
proof -
  have "decide_push (index_by_command_id index_new) (index_by_tag index_new) (PushIdentity sample_identity) = Inr Unknown"
    by (simp add: decide_push_def index_new_def index_by_command_id_def index_by_tag_def List.map_filter_def Let_def)
  moreover have "index_insert index_new sample_accepted = Inr sample_index"
    by (simp add: index_insert_def index_new_def sample_index_def sample_accepted_def sample_identity_def)
  ultimately show ?thesis
    using append [OF start sample_push, where key_epoch = 1 and seq = 4 and result_ref = None and v = 7]
    by (simp add: sample_accepted_def sample_identity_def)
qed

theorem push_decision_exact_witness:
  "decide_push (index_by_command_id sample_index) (index_by_tag sample_index) (PushIdentity sample_identity) =
     Inr (Replay sample_accepted)"
  using push_decision_exact [OF sample_served, of "PushIdentity sample_identity" 0 0 None sample_accepted]
  by (simp add: sample_identity_def sample_accepted_def)

theorem replay_needs_accepted_bytes_witness:
  "\<exists>pc. (pc, sample_accepted) \<in> set [(sample_container [9], sample_accepted)] \<and> pc_ciphertext pc = [9]"
proof -
  have "decide_push (index_by_command_id sample_index) (index_by_tag sample_index) (PushIdentity sample_identity) =
      Inr (Replay sample_accepted)"
    by (simp add: decide_push_def index_by_command_id_def index_by_tag_def sample_index_def sample_accepted_def
        sample_identity_def List.map_filter_def Let_def)
  from replay_needs_accepted_bytes [OF sample_served sample_push _ this] show ?thesis
    by (auto simp: sample_identity_def sample_container_def collision_def)
qed

theorem pull_binds_own_bytes_witness:
  "match_pulled (OutboxEntry sample_identity) \<lparr>pe_identity = sample_identity, pe_seq = 4, pe_result_ref = None\<rparr> =
     BindToAccepted 4 None"
proof -
  have "outbox_from_container last_hash (sample_container [9]) = Inr (OutboxEntry sample_identity)"
    by (simp add: outbox_from_container_def sample_identity_from)
  moreover have "pulled_from_container last_hash (sample_container [9])
      \<lparr>ce_header = pc_header (sample_container [9]), ce_plaintext = p\<rparr> 4 None =
      Inr \<lparr>pe_identity = sample_identity, pe_seq = 4, pe_result_ref = None\<rparr>" for p
    by (simp add: pulled_from_container_def sample_identity_from)
  ultimately show ?thesis using pull_binds_own_bytes by blast
qed

end
