(* ===== verification/Rollback_Witness.thy ===== *)
theory Rollback_Witness
  imports Membership_Guarantees
begin

text \<open>
  \<^verbatim>\<open>crates/platform-traits/src/witness.rs\<close>: the independent state that a restore of the vault does not
  restore, and from \<^verbatim>\<open>crates/platform-mock/src/lib.rs\<close> the one implementation of it in the tree.

  The contract of the trait is the locale \<open>rollback_witness\<close>, interpreted on the mock.  The mutex of the mock
  makes each call one step on its state; the scripted failures of the mock are part of the state.
\<close>

record counter_context =
  cc_vault_id :: "128 word"
  cc_key_epoch :: "64 word"
  cc_fingerprint :: "256 word"
  cc_object_type :: byte

record verified_mark =
  vm_membership_version :: "64 word"
  vm_membership_head_id :: "256 word"
  vm_key_epoch :: "64 word"
  vm_epoch_head_id :: "256 word option"
  vm_positioned_records :: "64 word"

datatype progress = Equal | Ahead | Behind | Diverged

definition birth_mark :: verified_mark where
  "birth_mark = \<lparr>vm_membership_version = 0, vm_membership_head_id = 0, vm_key_epoch = 0, vm_epoch_head_id = None,
     vm_positioned_records = 0\<rparr>"

definition is_birth :: "verified_mark \<Rightarrow> bool" where
  "is_birth m \<longleftrightarrow> m = birth_mark"

definition cmp_progress :: "verified_mark \<Rightarrow> verified_mark \<Rightarrow> progress" where
  "cmp_progress a b =
     (if is_birth a \<and> is_birth b then Equal
      else if is_birth a then Behind
      else if is_birth b then Ahead
      else if vm_membership_version a = vm_membership_version b \<and>
                vm_membership_head_id a \<noteq> vm_membership_head_id b \<or>
              vm_positioned_records a = vm_positioned_records b \<and> vm_epoch_head_id a \<noteq> vm_epoch_head_id b
      then Diverged
      else
        let ahead = vm_membership_version b < vm_membership_version a \<or> vm_key_epoch b < vm_key_epoch a \<or>
                    vm_positioned_records b < vm_positioned_records a;
            behind = vm_membership_version a < vm_membership_version b \<or> vm_key_epoch a < vm_key_epoch b \<or>
                     vm_positioned_records a < vm_positioned_records b
        in if ahead then (if behind then Diverged else Ahead) else if behind then Behind else Equal)"

datatype witness_error = Witness_Unavailable | WouldRegress

section \<open>The witness in memory\<close>

record mock_witness =
  mw_counters :: "counter_context \<rightharpoonup> 64 word"
  mw_marks :: "128 word \<rightharpoonup> verified_mark"
  mw_mark_log :: "(128 word \<times> verified_mark) list"
  mw_unavailable :: bool
  mw_fail_counter_advances :: nat
  mw_skip_before_fail :: nat
  mw_counter_advances :: nat

definition mock_new :: mock_witness where
  "mock_new = \<lparr>mw_counters = Map.empty, mw_marks = Map.empty, mw_mark_log = [], mw_unavailable = False,
     mw_fail_counter_advances = 0, mw_skip_before_fail = 0, mw_counter_advances = 0\<rparr>"

definition set_unavailable :: "bool \<Rightarrow> mock_witness \<Rightarrow> mock_witness" where
  "set_unavailable u w = w\<lparr>mw_unavailable := u\<rparr>"

definition fail_counter_advances_after :: "nat \<Rightarrow> nat \<Rightarrow> mock_witness \<Rightarrow> mock_witness" where
  "fail_counter_advances_after succeed n w = w\<lparr>mw_skip_before_fail := succeed, mw_fail_counter_advances := n\<rparr>"

definition mock_counter :: "mock_witness \<Rightarrow> counter_context \<Rightarrow> (witness_error, 64 word option) res" where
  "mock_counter w c = (if mw_unavailable w then Inl Witness_Unavailable else Inr (mw_counters w c))"

definition mock_advance_counter ::
    "mock_witness \<Rightarrow> counter_context \<Rightarrow> 64 word \<Rightarrow> (witness_error, unit) res \<times> mock_witness" where
  "mock_advance_counter w c next_counter =
     (if mw_unavailable w then (Inl Witness_Unavailable, w)
      else
        let insert_counter = (\<lambda>w.
              if pred_option (\<lambda>held. held \<le> next_counter) (mw_counters w c) then
                (Inr (), w\<lparr>mw_counters := (mw_counters w)(c \<mapsto> next_counter),
                           mw_counter_advances := mw_counter_advances w + 1\<rparr>)
              else (Inl WouldRegress, w))
        in if 0 < mw_skip_before_fail w then insert_counter (w\<lparr>mw_skip_before_fail := mw_skip_before_fail w - 1\<rparr>)
           else if 0 < mw_fail_counter_advances w then
             (Inl Witness_Unavailable, w\<lparr>mw_fail_counter_advances := mw_fail_counter_advances w - 1\<rparr>)
           else insert_counter w)"

definition mock_verified_mark :: "mock_witness \<Rightarrow> 128 word \<Rightarrow> (witness_error, verified_mark option) res" where
  "mock_verified_mark w v = (if mw_unavailable w then Inl Witness_Unavailable else Inr (mw_marks w v))"

definition mock_advance_verified_mark ::
    "mock_witness \<Rightarrow> 128 word \<Rightarrow> verified_mark \<Rightarrow> (witness_error, unit) res \<times> mock_witness" where
  "mock_advance_verified_mark w v mark =
     (if mw_unavailable w then (Inl Witness_Unavailable, w)
      else if pred_option (\<lambda>held. cmp_progress mark held = Equal \<or> cmp_progress mark held = Ahead) (mw_marks w v) then
        (Inr (), w\<lparr>mw_marks := (mw_marks w)(v \<mapsto> mark), mw_mark_log := mw_mark_log w @ [(v, mark)]\<rparr>)
      else (Inl WouldRegress, w))"

section \<open>Progress is an order\<close>

definition at_or_ahead :: "verified_mark \<Rightarrow> verified_mark \<Rightarrow> bool" where
  "at_or_ahead a b \<longleftrightarrow> cmp_progress a b = Equal \<or> cmp_progress a b = Ahead"

lemma progress_cases:
  "(if d then Diverged else if h then (if b then Diverged else Ahead) else if b then Behind else Equal) = Equal \<or>
   (if d then Diverged else if h then (if b then Diverged else Ahead) else if b then Behind else Equal) = Ahead \<longleftrightarrow>
     \<not> d \<and> \<not> b"
  by auto

lemma at_or_ahead_iff:
  "at_or_ahead a b \<longleftrightarrow> is_birth b \<or> \<not> is_birth a \<and>
     vm_membership_version b \<le> vm_membership_version a \<and> vm_key_epoch b \<le> vm_key_epoch a \<and>
     vm_positioned_records b \<le> vm_positioned_records a \<and>
     (vm_membership_version a = vm_membership_version b \<longrightarrow> vm_membership_head_id a = vm_membership_head_id b) \<and>
     (vm_positioned_records a = vm_positioned_records b \<longrightarrow> vm_epoch_head_id a = vm_epoch_head_id b)"
proof (cases "is_birth a \<or> is_birth b")
  case True
  then show ?thesis by (auto simp: at_or_ahead_def cmp_progress_def)
next
  case False
  let ?diverged = "vm_membership_version a = vm_membership_version b \<and> vm_membership_head_id a \<noteq> vm_membership_head_id b \<or>
      vm_positioned_records a = vm_positioned_records b \<and> vm_epoch_head_id a \<noteq> vm_epoch_head_id b"
  let ?behind = "vm_membership_version a < vm_membership_version b \<or> vm_key_epoch a < vm_key_epoch b \<or>
      vm_positioned_records a < vm_positioned_records b"
  have "at_or_ahead a b \<longleftrightarrow> \<not> ?diverged \<and> \<not> ?behind"
  proof -
    have "\<not> is_birth a" "\<not> is_birth b" using False by simp_all
    then show ?thesis
      using progress_cases unfolding at_or_ahead_def cmp_progress_def Let_def by (simp only: simp_thms if_False)
  qed
  then show ?thesis using False by (simp add: not_less) blast
qed

lemma at_or_ahead_refl: "at_or_ahead a a"
  by (simp add: at_or_ahead_iff)

lemma at_or_ahead_trans:
  assumes "at_or_ahead a b" "at_or_ahead b c"
  shows "at_or_ahead a c"
proof (cases "is_birth c")
  case False
  then have "\<not> is_birth b" "\<not> is_birth a" using assms by (auto simp: at_or_ahead_iff)
  then show ?thesis
    using assms False unfolding at_or_ahead_iff by (metis order.trans order.antisym)
qed (simp add: at_or_ahead_iff)

section \<open>The contract\<close>

locale rollback_witness =
  fixes witnessed :: "'w \<Rightarrow> counter_context \<Rightarrow> 64 word option"
    and read_counter :: "'w \<Rightarrow> counter_context \<Rightarrow> (witness_error, 64 word option) res"
    and advance :: "'w \<Rightarrow> counter_context \<Rightarrow> 64 word \<Rightarrow> (witness_error, unit) res \<times> 'w"
  assumes read_counter: "read_counter w c = Inr v \<Longrightarrow> v = witnessed w c"
    and advance_ok: "advance w c n = (Inr (), w') \<Longrightarrow>
      pred_option (\<lambda>held. held \<le> n) (witnessed w c) \<and> witnessed w' = (witnessed w)(c \<mapsto> n)"
    and advance_err: "advance w c n = (Inl e, w') \<Longrightarrow> witnessed w' = witnessed w"

interpretation mock_counters: rollback_witness mw_counters mock_counter mock_advance_counter
  by unfold_locales (auto simp: mock_counter_def mock_advance_counter_def Let_def split: if_splits)

locale mark_witness =
  fixes mark_of :: "'w \<Rightarrow> 128 word \<Rightarrow> verified_mark option"
    and read_mark :: "'w \<Rightarrow> 128 word \<Rightarrow> (witness_error, verified_mark option) res"
    and advance_mark :: "'w \<Rightarrow> 128 word \<Rightarrow> verified_mark \<Rightarrow> (witness_error, unit) res \<times> 'w"
  assumes read_mark: "read_mark w v = Inr found \<Longrightarrow> found = mark_of w v"
    and advance_mark_ok: "advance_mark w v m = (Inr (), w') \<Longrightarrow>
      pred_option (at_or_ahead m) (mark_of w v) \<and> mark_of w' = (mark_of w)(v \<mapsto> m)"
    and advance_mark_err: "advance_mark w v m = (Inl e, w') \<Longrightarrow> mark_of w' = mark_of w"

interpretation mock_marks: mark_witness mw_marks mock_verified_mark mock_advance_verified_mark
  by unfold_locales (auto simp: mock_verified_mark_def mock_advance_verified_mark_def at_or_ahead_def [abs_def] split: if_splits)

end
