(* ===== verification/Sync_Counter.thy ===== *)
theory Sync_Counter
  imports Rollback_Witness Wire_Header
begin

text \<open>
  \<^verbatim>\<open>crates/vault-crypto/src/sync_counter.rs\<close>: the register of encryption counters and its anti-rollback
  state machine, with the register table of the worker (\<^verbatim>\<open>crates/db-worker/src/sync_register.rs\<close>, the
  CHECKs of \<^verbatim>\<open>migrations.rs\<close>, the transaction of \<^verbatim>\<open>DbWorker::write_sync_state\<close>).

  The traits of the store and the witness are contracts (the locales \<open>register_store\<close> and
  \<open>rollback_witness\<close>); the operations of the register are programs over the calls of both, so that
  one definition is run alone (\<open>run_prog\<close>) and interleaved with others, crashes and restores
  (\<open>device_step\<close>).  The table is a map on its primary key; a statement refused by a CHECK or a failed commit
  leaves it as it was.
\<close>

section \<open>The register store\<close>

datatype register_error = Register_Unavailable | Conflict | BadAdvance

record saved_sealed =
  sv_object_id :: "128 word"
  sv_base_seq :: "64 word"
  sv_plaintext_sha256 :: "256 word"
  sv_container_sha256 :: "256 word"
  sv_container_len :: "64 word"
  sv_counter :: "64 word"

type_synonym register_key = "128 word \<times> int \<times> 256 word \<times> int"

record saved_row =
  sr_object_id :: "128 word"
  sr_base_seq :: int
  sr_plaintext_sha256 :: "256 word"
  sr_container_sha256 :: "256 word"
  sr_container_len :: int
  sr_counter :: int

record register_tables =
  rt_next :: "register_key \<rightharpoonup> int"
  rt_saved :: "register_key \<rightharpoonup> saved_row"
  rt_healthy :: bool
  rt_commits :: bool

definition i64_of :: "64 word \<Rightarrow> int option" where
  "i64_of w = (if uint w \<le> i64_max then Some (uint w) else None)"

definition u64_of :: "int \<Rightarrow> 64 word option" where
  "u64_of v = (if 0 \<le> v then Some (word_of_int v) else None)"

definition register_key :: "counter_context \<Rightarrow> (register_error, register_key) res" where
  "register_key c =
     res_bind (ok_or (i64_of (cc_key_epoch c)) Register_Unavailable) (\<lambda>epoch.
       Inr (cc_vault_id c, epoch, cc_fingerprint c, uint (cc_object_type c)))"

definition checks_key :: "register_key \<Rightarrow> bool" where
  "checks_key k \<longleftrightarrow> (case k of (_, epoch, _, kind) \<Rightarrow> 1 \<le> epoch \<and> kind \<in> {1, 2})"

definition next_counter :: "register_tables \<Rightarrow> counter_context \<Rightarrow> (register_error, 64 word option) res" where
  "next_counter t c =
     res_bind (register_key c) (\<lambda>k.
       case rt_next t k of
         None \<Rightarrow> Inr None
       | Some v \<Rightarrow> res_bind (ok_or (u64_of v) Register_Unavailable) (\<lambda>v. Inr (Some v)))"

definition commit_advance ::
    "register_tables \<Rightarrow> counter_context \<Rightarrow> 64 word option \<Rightarrow> 64 word \<Rightarrow> (register_error, register_tables) res" where
  "commit_advance t c from_value to =
     (if to = 0 \<or> (case from_value of None \<Rightarrow> False | Some f \<Rightarrow> to \<le> f) then Inl BadAdvance
      else
        res_bind (register_key c) (\<lambda>k.
        res_bind (ok_or (i64_of to) BadAdvance) (\<lambda>to.
          case from_value of
            None \<Rightarrow>
              if \<not> (checks_key k \<and> 1 \<le> to) then Inl Register_Unavailable
              else if rt_next t k = None then Inr (t\<lparr>rt_next := (rt_next t)(k \<mapsto> to)\<rparr>) else Inl Conflict
          | Some f \<Rightarrow>
              res_bind (ok_or (i64_of f) Conflict) (\<lambda>f.
                if rt_next t k = Some f then
                  (if 1 \<le> to then Inr (t\<lparr>rt_next := (rt_next t)(k \<mapsto> to)\<rparr>) else Inl Register_Unavailable)
                else Inl Conflict))))"

definition saved :: "register_tables \<Rightarrow> counter_context \<Rightarrow> (register_error, saved_sealed option) res" where
  "saved t c =
     res_bind (register_key c) (\<lambda>k.
       case rt_saved t k of
         None \<Rightarrow> Inr None
       | Some r \<Rightarrow>
           res_bind (ok_or (u64_of (sr_base_seq r)) Register_Unavailable) (\<lambda>base_seq.
           res_bind (ok_or (u64_of (sr_container_len r)) Register_Unavailable) (\<lambda>len.
           res_bind (ok_or (u64_of (sr_counter r)) Register_Unavailable) (\<lambda>counter.
             Inr (Some \<lparr>sv_object_id = sr_object_id r, sv_base_seq = base_seq,
                        sv_plaintext_sha256 = sr_plaintext_sha256 r, sv_container_sha256 = sr_container_sha256 r,
                        sv_container_len = len, sv_counter = counter\<rparr>)))))"

definition set_saved ::
    "register_tables \<Rightarrow> counter_context \<Rightarrow> saved_sealed option \<Rightarrow> (register_error, register_tables) res" where
  "set_saved t c record =
     res_bind (register_key c) (\<lambda>k.
       case record of
         None \<Rightarrow> Inr (t\<lparr>rt_saved := (rt_saved t)(k := None)\<rparr>)
       | Some s \<Rightarrow>
           res_bind (ok_or (i64_of (sv_base_seq s)) Register_Unavailable) (\<lambda>base_seq.
           res_bind (ok_or (i64_of (sv_container_len s)) Register_Unavailable) (\<lambda>len.
           res_bind (ok_or (i64_of (sv_counter s)) Register_Unavailable) (\<lambda>counter.
             if \<not> checks_key k then Inl Register_Unavailable
             else Inr (t\<lparr>rt_saved := (rt_saved t)(k \<mapsto>
                    \<lparr>sr_object_id = sv_object_id s, sr_base_seq = base_seq,
                     sr_plaintext_sha256 = sv_plaintext_sha256 s, sr_container_sha256 = sv_container_sha256 s,
                     sr_container_len = len, sr_counter = counter\<rparr>)\<rparr>)))))"

text \<open>
  A call of the store is a transaction of the worker: refused by an unhealthy worker, rolled back when the
  statement or the commit fails (\<open>rt_commits\<close> is whether commits succeed).
\<close>

definition write_sync_state ::
    "(register_tables \<Rightarrow> (register_error, 'a \<times> register_tables) res) \<Rightarrow> register_tables \<Rightarrow>
     (register_error, 'a) res \<times> register_tables" where
  "write_sync_state f t =
     (if \<not> rt_healthy t then (Inl Register_Unavailable, t)
      else case f t of
             Inl e \<Rightarrow> (Inl e, t)
           | Inr (out, t') \<Rightarrow> if rt_commits t then (Inr out, t') else (Inl Register_Unavailable, t))"

definition store_next_counter ::
    "register_tables \<Rightarrow> counter_context \<Rightarrow> (register_error, 64 word option) res" where
  "store_next_counter t c = fst (write_sync_state (\<lambda>t. res_bind (next_counter t c) (\<lambda>v. Inr (v, t))) t)"

definition store_commit_advance ::
    "register_tables \<Rightarrow> counter_context \<Rightarrow> 64 word option \<Rightarrow> 64 word \<Rightarrow> (register_error, unit) res \<times> register_tables"
    where
  "store_commit_advance t c from_value to =
     write_sync_state (\<lambda>t. res_bind (commit_advance t c from_value to) (\<lambda>t. Inr ((), t))) t"

definition store_saved :: "register_tables \<Rightarrow> counter_context \<Rightarrow> (register_error, saved_sealed option) res" where
  "store_saved t c = fst (write_sync_state (\<lambda>t. res_bind (saved t c) (\<lambda>v. Inr (v, t))) t)"

definition store_set_saved ::
    "register_tables \<Rightarrow> counter_context \<Rightarrow> saved_sealed option \<Rightarrow> (register_error, unit) res \<times> register_tables" where
  "store_set_saved t c record = write_sync_state (\<lambda>t. res_bind (set_saved t c record) (\<lambda>t. Inr ((), t))) t"

section \<open>The contract of a store\<close>

locale register_store =
  fixes entry :: "'t \<Rightarrow> counter_context \<Rightarrow> 64 word option"
    and get_next :: "'t \<Rightarrow> counter_context \<Rightarrow> (register_error, 64 word option) res"
    and cas :: "'t \<Rightarrow> counter_context \<Rightarrow> 64 word option \<Rightarrow> 64 word \<Rightarrow> (register_error, unit) res \<times> 't"
  assumes get_next: "get_next t c = Inr v \<Longrightarrow> v = entry t c"
    and cas_ok: "cas t c f n = (Inr (), t') \<Longrightarrow>
      entry t c = f \<and> 0 < n \<and> pred_option (\<lambda>v. v < n) f \<and> entry t' = (entry t)(c \<mapsto> n)"
    and cas_err: "cas t c f n = (Inl e, t') \<Longrightarrow> entry t' = entry t"

definition table_entry :: "register_tables \<Rightarrow> counter_context \<Rightarrow> 64 word option" where
  "table_entry t c =
     (case register_key c of Inl _ \<Rightarrow> None | Inr k \<Rightarrow> map_option word_of_int (rt_next t k))"

lemma register_key_inj: "register_key c = Inr k \<Longrightarrow> register_key d = Inr k \<Longrightarrow> c = d"
  by (cases c; cases d) (auto simp: register_key_def res_bind_Inr_iff ok_or_Inr_iff i64_of_def
      intro: word_uint_eq_iff [THEN iffD2] split: if_splits)

lemma table_entry_update:
  assumes "register_key c = Inr k"
  shows "table_entry (t\<lparr>rt_next := (rt_next t)(k \<mapsto> v)\<rparr>) = (table_entry t)(c \<mapsto> word_of_int v)"
proof
  fix d
  show "table_entry (t\<lparr>rt_next := (rt_next t)(k \<mapsto> v)\<rparr>) d = ((table_entry t)(c \<mapsto> word_of_int v)) d"
    using assms register_key_inj [OF assms, of d]
    by (cases "register_key d") (auto simp: table_entry_def)
qed

lemma i64_of_Some: "i64_of w = Some v \<longleftrightarrow> uint w \<le> i64_max \<and> v = uint w"
  by (auto simp: i64_of_def)

lemma next_counter_entry: "next_counter t c = Inr v \<Longrightarrow> v = table_entry t c"
proof -
  assume "next_counter t c = Inr v"
  then obtain k where k: "register_key c = Inr k" and
    v: "(case rt_next t k of None \<Rightarrow> Inr None
         | Some v \<Rightarrow> res_bind (ok_or (u64_of v) Register_Unavailable) (\<lambda>v. Inr (Some v))) = Inr v"
    unfolding next_counter_def res_bind_Inr_iff by blast
  then show ?thesis
    by (cases "rt_next t k") (auto simp: table_entry_def res_bind_Inr_iff ok_or_Inr_iff u64_of_def split: if_splits)
qed

lemma commit_advance_Inr:
  assumes "commit_advance t c f n = Inr t'"
  shows "table_entry t c = f \<and> 0 < n \<and> pred_option (\<lambda>v. v < n) f \<and> table_entry t' = (table_entry t)(c \<mapsto> n)"
proof -
  obtain k where k: "register_key c = Inr k" and n: "n \<noteq> 0"
    and t': "t' = t\<lparr>rt_next := (rt_next t)(k \<mapsto> uint n)\<rparr>"
    and f: "rt_next t k = map_option uint f" "pred_option (\<lambda>v. v < n) f"
    using assms
    by (auto simp: commit_advance_def res_bind_Inr_iff ok_or_Inr_iff i64_of_Some not_le split: option.splits if_splits)
  have "table_entry t c = f" using k f(1) by (cases f) (simp_all add: table_entry_def)
  moreover have "table_entry t' = (table_entry t)(c \<mapsto> n)"
    unfolding t' by (simp add: table_entry_update [OF k])
  ultimately show ?thesis using n f(2) by (simp add: word_neq_0_conv)
qed

interpretation sqlite_register: register_store table_entry store_next_counter store_commit_advance
proof
  fix t c and v :: "64 word option"
  assume "store_next_counter t c = Inr v"
  then show "v = table_entry t c"
    by (auto simp: store_next_counter_def write_sync_state_def res_bind_Inr_iff dest!: next_counter_entry
        split: if_splits sum.splits)
next
  fix t t' c f and n :: "64 word"
  assume "store_commit_advance t c f n = (Inr (), t')"
  then show "table_entry t c = f \<and> 0 < n \<and> pred_option (\<lambda>v. v < n) f \<and> table_entry t' = (table_entry t)(c \<mapsto> n)"
    by (intro commit_advance_Inr)
      (auto simp: store_commit_advance_def write_sync_state_def res_bind_Inr_iff split: if_splits sum.splits)
next
  fix t t' c f n and e :: register_error
  assume "store_commit_advance t c f n = (Inl e, t')"
  then show "table_entry t' = table_entry t"
    by (auto simp: store_commit_advance_def write_sync_state_def split: if_splits sum.splits)
qed

text \<open>What \<open>set_saved\<close> saves is read back, and it never touches the counters.\<close>

lemma set_saved_saved:
  assumes "set_saved t c r = Inr t'"
  shows "saved t' c = Inr r" and "rt_next t' = rt_next t"
  using assms
  by (cases r; auto simp: set_saved_def saved_def res_bind_Inr_iff ok_or_Inr_iff i64_of_Some u64_of_def
      split: if_splits)+

section \<open>The register\<close>

datatype lost_reason = RegisterBehindWitness | WitnessMissing | SavedAheadOfRegister | RegisterMissing

datatype nonce_error =
  NonceStateLost lost_reason | RotationRequired | Nonce_Register register_error | Nonce_Witness witness_error

record counter_reservation =
  cr_context :: counter_context
  cr_counter :: "64 word"

text \<open>A program over the calls of the store and of the witness, each followed by what is done with its result.\<close>

datatype 'a prog =
    Done 'a
  | Next_Counter counter_context "(register_error, 64 word option) res \<Rightarrow> 'a prog"
  | Commit_Advance counter_context "64 word option" "64 word" "(register_error, unit) res \<Rightarrow> 'a prog"
  | Witness_Counter counter_context "(witness_error, 64 word option) res \<Rightarrow> 'a prog"
  | Advance_Counter counter_context "64 word" "(witness_error, unit) res \<Rightarrow> 'a prog"

definition on_error :: "('e \<Rightarrow> nonce_error) \<Rightarrow> ('a \<Rightarrow> (nonce_error, 'b) res prog) \<Rightarrow> ('e, 'a) res \<Rightarrow> (nonce_error, 'b) res prog"
  where
  "on_error f k r = (case r of Inl e \<Rightarrow> Done (Inl (f e)) | Inr x \<Rightarrow> k x)"

primrec and_then ::
    "(nonce_error, 'a) res prog \<Rightarrow> ('a \<Rightarrow> (nonce_error, 'b) res prog) \<Rightarrow> (nonce_error, 'b) res prog" where
  "and_then (Done r) f = (case r of Inl e \<Rightarrow> Done (Inl e) | Inr x \<Rightarrow> f x)"
| "and_then (Next_Counter c k) f = Next_Counter c (\<lambda>x. and_then (k x) f)"
| "and_then (Commit_Advance c from_value to k) f = Commit_Advance c from_value to (\<lambda>x. and_then (k x) f)"
| "and_then (Witness_Counter c k) f = Witness_Counter c (\<lambda>x. and_then (k x) f)"
| "and_then (Advance_Counter c n k) f = Advance_Counter c n (\<lambda>x. and_then (k x) f)"

definition compare_witness :: "64 word option \<Rightarrow> 64 word option \<Rightarrow> (nonce_error, 64 word option) res" where
  "compare_witness register witnessed =
     (case (register, witnessed) of
        (None, None) \<Rightarrow> Inr None
      | (None, Some w) \<Rightarrow> if w = 0 then Inr None else Inl (NonceStateLost RegisterMissing)
      | (Some r, Some w) \<Rightarrow> if w \<le> r then Inr (Some r) else Inl (NonceStateLost RegisterBehindWitness)
      | (Some _, None) \<Rightarrow> Inl (NonceStateLost WitnessMissing))"

definition check_register :: "counter_context \<Rightarrow> (nonce_error, 64 word option) res prog" where
  "check_register c =
     Next_Counter c (on_error Nonce_Register (\<lambda>register.
     Witness_Counter c (on_error Nonce_Witness (\<lambda>witnessed.
     Done (compare_witness register witnessed)))))"

definition reconcile :: "counter_context \<Rightarrow> (nonce_error, 64 word option) res prog" where
  "reconcile c =
     and_then (check_register c) (\<lambda>register.
       case register of
         None \<Rightarrow> Done (Inr None)
       | Some n \<Rightarrow> Advance_Counter c n (on_error Nonce_Witness (\<lambda>_. Done (Inr register))))"

definition hand_out ::
    "counter_context \<Rightarrow> 64 word option \<Rightarrow> 64 word \<Rightarrow> (nonce_error, counter_reservation) res prog" where
  "hand_out c held counter =
     Commit_Advance c held (counter + 1) (on_error Nonce_Register (\<lambda>_.
     Advance_Counter c (counter + 1) (on_error Nonce_Witness (\<lambda>_.
     Done (Inr \<lparr>cr_context = c, cr_counter = counter\<rparr>)))))"

definition reserve_from :: "counter_context \<Rightarrow> 64 word option \<Rightarrow> (nonce_error, counter_reservation) res prog" where
  "reserve_from c held =
     (let counter = (case held of None \<Rightarrow> 0 | Some n \<Rightarrow> n) in
      if max_invocation_counter < counter then Done (Inl RotationRequired)
      else if held = None then Advance_Counter c 0 (on_error Nonce_Witness (\<lambda>_. hand_out c held counter))
      else hand_out c held counter)"

definition reserve :: "counter_context \<Rightarrow> (nonce_error, counter_reservation) res prog" where
  "reserve c = and_then (check_register c) (reserve_from c)"

section \<open>Running a program\<close>

record ('t, 'w) register_calls =
  call_next :: "'t \<Rightarrow> counter_context \<Rightarrow> (register_error, 64 word option) res"
  call_commit :: "'t \<Rightarrow> counter_context \<Rightarrow> 64 word option \<Rightarrow> 64 word \<Rightarrow> (register_error, unit) res \<times> 't"
  call_witness :: "'w \<Rightarrow> counter_context \<Rightarrow> (witness_error, 64 word option) res"
  call_advance :: "'w \<Rightarrow> counter_context \<Rightarrow> 64 word \<Rightarrow> (witness_error, unit) res \<times> 'w"

definition device_calls :: "(register_tables, mock_witness) register_calls" where
  "device_calls = \<lparr>call_next = store_next_counter, call_commit = store_commit_advance,
     call_witness = mock_counter, call_advance = mock_advance_counter\<rparr>"

text \<open>One call, on the store and the witness; nothing for a finished program.\<close>

primrec prog_step :: "('t, 'w) register_calls \<Rightarrow> 'a prog \<Rightarrow> 't \<Rightarrow> 'w \<Rightarrow> 'a prog \<times> 't \<times> 'w" where
  "prog_step calls (Done r) t w = (Done r, t, w)"
| "prog_step calls (Next_Counter c k) t w = (k (call_next calls t c), t, w)"
| "prog_step calls (Commit_Advance c f n k) t w = (let (r, t) = call_commit calls t c f n in (k r, t, w))"
| "prog_step calls (Witness_Counter c k) t w = (k (call_witness calls w c), t, w)"
| "prog_step calls (Advance_Counter c n k) t w = (let (r, w) = call_advance calls w c n in (k r, t, w))"

primrec run_prog :: "('t, 'w) register_calls \<Rightarrow> 'a prog \<Rightarrow> 't \<Rightarrow> 'w \<Rightarrow> 'a \<times> 't \<times> 'w" where
  "run_prog calls (Done r) t w = (r, t, w)"
| "run_prog calls (Next_Counter c k) t w = run_prog calls (k (call_next calls t c)) t w"
| "run_prog calls (Commit_Advance c f n k) t w = (let (r, t) = call_commit calls t c f n in run_prog calls (k r) t w)"
| "run_prog calls (Witness_Counter c k) t w = run_prog calls (k (call_witness calls w c)) t w"
| "run_prog calls (Advance_Counter c n k) t w = (let (r, w) = call_advance calls w c n in run_prog calls (k r) t w)"

section \<open>A device\<close>

text \<open>
  Threads of the device reserve counters and reconcile at the same time.  The device may crash, losing its
  threads; it may save the vault and be restored to any saved one, which restarts it; calls may start and
  stop failing.  The witness is not restored.
\<close>

datatype thread =
    Reserving "(nonce_error, counter_reservation) res prog"
  | Reconciling "(nonce_error, 64 word option) res prog"

record ('t, 'w) device =
  dv_store :: 't
  dv_witness :: 'w
  dv_threads :: "nat \<rightharpoonup> thread"
  dv_issued :: "counter_reservation list"
  dv_backups :: "'t list"

inductive device_step ::
    "('t, 'w) register_calls \<Rightarrow> ('t \<Rightarrow> counter_context \<Rightarrow> 64 word option) \<Rightarrow>
     ('w \<Rightarrow> counter_context \<Rightarrow> 64 word option) \<Rightarrow> ('t, 'w) device \<Rightarrow> ('t, 'w) device \<Rightarrow> bool"
  for calls entry witnessed where
  start_reserve: "dv_threads d i = None \<Longrightarrow>
     device_step calls entry witnessed d (d\<lparr>dv_threads := (dv_threads d)(i \<mapsto> Reserving (reserve c))\<rparr>)"
| start_reconcile: "dv_threads d i = None \<Longrightarrow>
     device_step calls entry witnessed d (d\<lparr>dv_threads := (dv_threads d)(i \<mapsto> Reconciling (reconcile c))\<rparr>)"
| run_reserve: "dv_threads d i = Some (Reserving p) \<Longrightarrow> prog_step calls p (dv_store d) (dv_witness d) = (p', t, w) \<Longrightarrow>
     device_step calls entry witnessed d
       (d\<lparr>dv_threads := (dv_threads d)(i \<mapsto> Reserving p'), dv_store := t, dv_witness := w\<rparr>)"
| run_reconcile: "dv_threads d i = Some (Reconciling p) \<Longrightarrow> prog_step calls p (dv_store d) (dv_witness d) = (p', t, w) \<Longrightarrow>
     device_step calls entry witnessed d
       (d\<lparr>dv_threads := (dv_threads d)(i \<mapsto> Reconciling p'), dv_store := t, dv_witness := w\<rparr>)"
| issue: "dv_threads d i = Some (Reserving (Done (Inr r))) \<Longrightarrow>
     device_step calls entry witnessed d
       (d\<lparr>dv_threads := (dv_threads d)(i := None), dv_issued := r # dv_issued d\<rparr>)"
| refuse: "dv_threads d i = Some (Reserving (Done (Inl e))) \<Longrightarrow>
     device_step calls entry witnessed d (d\<lparr>dv_threads := (dv_threads d)(i := None)\<rparr>)"
| reconciled: "dv_threads d i = Some (Reconciling (Done r)) \<Longrightarrow>
     device_step calls entry witnessed d (d\<lparr>dv_threads := (dv_threads d)(i := None)\<rparr>)"
| crash: "device_step calls entry witnessed d (d\<lparr>dv_threads := Map.empty\<rparr>)"
| backup: "device_step calls entry witnessed d (d\<lparr>dv_backups := dv_store d # dv_backups d\<rparr>)"
| restore: "t \<in> set (dv_backups d) \<Longrightarrow>
     device_step calls entry witnessed d (d\<lparr>dv_store := t, dv_threads := Map.empty\<rparr>)"
| weather: "entry t = entry (dv_store d) \<Longrightarrow> witnessed w = witnessed (dv_witness d) \<Longrightarrow>
     device_step calls entry witnessed d (d\<lparr>dv_store := t, dv_witness := w\<rparr>)"

inductive device_run for calls entry witnessed where
  begin_run: "entry t = Map.empty \<Longrightarrow> witnessed w = Map.empty \<Longrightarrow>
     device_run calls entry witnessed
       \<lparr>dv_store = t, dv_witness = w, dv_threads = Map.empty, dv_issued = [], dv_backups = []\<rparr>"
| step: "device_run calls entry witnessed d \<Longrightarrow> device_step calls entry witnessed d d' \<Longrightarrow>
     device_run calls entry witnessed d'"

end
