(* ===== verification/Nonce_Safety.thy ===== *)
theory Nonce_Safety
  imports Sync_Counter
begin

text \<open>
  No encryption counter is handed out twice: over every interleaving of reservations and reconciliations of a
  device, with failing calls, crashes and restores of older vaults.

  The proof follows each reservation through its phases, from the contracts of the store and the witness alone,
  and is instantiated with the table of the worker and the witness in memory.
\<close>

section \<open>Phases of a reservation\<close>

datatype phase =
    Fresh counter_context
  | Has_Register counter_context "64 word option"
  | Ready counter_context "64 word option"
  | Committed counter_context "64 word"
  | Handed counter_context "64 word"
  | Over

definition val :: "64 word option \<Rightarrow> nat" where
  "val v = (case v of None \<Rightarrow> 0 | Some n \<Rightarrow> unat n)"

lemma val_simps [simp]: "val None = 0" "val (Some n) = unat n"
  by (simp_all add: val_def)

definition held_counter :: "64 word option \<Rightarrow> 64 word" where
  "held_counter held = (case held of None \<Rightarrow> 0 | Some n \<Rightarrow> n)"

lemma unat_held_counter [simp]: "unat (held_counter held) = val held"
  by (cases held) (simp_all add: held_counter_def)

lemma unat_cap: "n \<le> max_invocation_counter \<Longrightarrow> unat (n + 1) = unat n + 1"
  by (simp add: max_invocation_counter_def word_le_nat_alt unat_word_ariths)

fun program_at :: "phase \<Rightarrow> (nonce_error, counter_reservation) res prog \<Rightarrow> bool" where
  "program_at (Fresh c) p \<longleftrightarrow> p = reserve c"
| "program_at (Has_Register c r) p \<longleftrightarrow>
     p = Witness_Counter c (\<lambda>x. and_then (on_error Nonce_Witness (\<lambda>w. Done (compare_witness r w)) x) (reserve_from c))"
| "program_at (Ready c held) p \<longleftrightarrow> held_counter held \<le> max_invocation_counter \<and>
     (p = hand_out c held (held_counter held) \<or>
      p = Advance_Counter c 0 (on_error Nonce_Witness (\<lambda>_. hand_out c held (held_counter held))))"
| "program_at (Committed c n) p \<longleftrightarrow> n \<le> max_invocation_counter \<and>
     p = Advance_Counter c (n + 1) (on_error Nonce_Witness (\<lambda>_. Done (Inr \<lparr>cr_context = c, cr_counter = n\<rparr>)))"
| "program_at (Handed c n) p \<longleftrightarrow> n \<le> max_invocation_counter \<and> p = Done (Inr \<lparr>cr_context = c, cr_counter = n\<rparr>)"
| "program_at Over p \<longleftrightarrow> (\<exists>e. p = Done (Inl e))"

fun claim :: "phase \<Rightarrow> (counter_context \<times> 64 word) option" where
  "claim (Committed c n) = Some (c, n)"
| "claim (Handed c n) = Some (c, n)"
| "claim _ = None"

type_synonym counters = "counter_context \<Rightarrow> 64 word option"

fun phase_ok :: "counters \<Rightarrow> counters \<Rightarrow> counter_reservation set \<Rightarrow> phase \<Rightarrow> bool" where
  "phase_ok e h issued (Fresh c) \<longleftrightarrow> True"
| "phase_ok e h issued (Has_Register c r) \<longleftrightarrow> e c = r \<or> val r < val (e c)"
| "phase_ok e h issued (Ready c r) \<longleftrightarrow>
     e c = r \<and> (\<forall>n. \<lparr>cr_context = c, cr_counter = n\<rparr> \<in> issued \<longrightarrow> unat n < val r) \<or> val r < val (e c)"
| "phase_ok e h issued (Committed c n) \<longleftrightarrow> unat n < val (e c) \<and> \<lparr>cr_context = c, cr_counter = n\<rparr> \<notin> issued"
| "phase_ok e h issued (Handed c n) \<longleftrightarrow>
     unat n < val (e c) \<and> unat n < val (h c) \<and> \<lparr>cr_context = c, cr_counter = n\<rparr> \<notin> issued"
| "phase_ok e h issued Over \<longleftrightarrow> True"

definition advances :: "counters \<Rightarrow> counters \<Rightarrow> bool" where
  "advances e e' \<longleftrightarrow> (\<forall>c. e' c = e c \<or> val (e c) < val (e' c))"

definition grows :: "counters \<Rightarrow> counters \<Rightarrow> bool" where
  "grows h h' \<longleftrightarrow> (\<forall>c. val (h c) \<le> val (h' c))"

lemma advances_refl [simp]: "advances e e"
  by (simp add: advances_def)

lemma grows_refl [simp]: "grows h h"
  by (simp add: grows_def)

lemma phase_ok_mono:
  assumes "phase_ok e h issued ph" "advances e e'" "grows h h'"
  shows "phase_ok e' h' issued ph"
proof -
  have e: "e' c = e c \<or> val (e c) < val (e' c)" and h: "val (h c) \<le> val (h' c)" for c
    using assms(2,3) by (simp_all add: advances_def grows_def)
  have le: "val (e c) \<le> val (e' c)" for c using e [of c] by auto
  show ?thesis
  proof (cases ph)
    case (Has_Register c r)
    then show ?thesis using assms(1) e [of c] by auto
  next
    case (Ready c r)
    then show ?thesis using assms(1) e [of c] by auto
  next
    case (Committed c n)
    then show ?thesis using assms(1) le [of c] by auto
  next
    case (Handed c n)
    then show ?thesis using assms(1) le [of c] h [of c] by auto
  qed simp_all
qed

section \<open>One call\<close>

definition issued_below :: "counters \<Rightarrow> counter_reservation set \<Rightarrow> bool" where
  "issued_below h issued \<longleftrightarrow>
     (\<forall>r \<in> issued. unat (cr_counter r) < val (h (cr_context r)) \<and> cr_counter r \<le> max_invocation_counter)"

locale counter_register = register_store entry get_next cas + rollback_witness witnessed read_counter advance
  for entry :: "'t \<Rightarrow> counter_context \<Rightarrow> 64 word option" and get_next and cas
    and witnessed :: "'w \<Rightarrow> counter_context \<Rightarrow> 64 word option" and read_counter and advance
begin

definition calls :: "('t, 'w) register_calls" where
  "calls = \<lparr>call_next = get_next, call_commit = cas, call_witness = read_counter, call_advance = advance\<rparr>"

lemma call_commit_cases:
  assumes "cas t c f n = (r, t')"
  obtains (ok) "r = Inr ()" "entry t c = f" "val f < unat n" "entry t' = (entry t)(c \<mapsto> n)"
  | (failed) e where "r = Inl e" "entry t' = entry t"
proof (cases r)
  case (Inl e)
  then show thesis using failed cas_err assms by blast
next
  case (Inr u)
  then have "r = Inr ()" by simp
  then show thesis
    using ok cas_ok [of t c f n t'] assms by (cases f) (auto simp: word_less_nat_alt)
qed

lemma call_advance_cases:
  assumes "advance w c n = (r, w')"
  obtains (ok) "r = Inr ()" "val (witnessed w c) \<le> unat n" "witnessed w' = (witnessed w)(c \<mapsto> n)"
  | (failed) e where "r = Inl e" "witnessed w' = witnessed w"
proof (cases r)
  case (Inl e)
  then show thesis using failed advance_err assms by blast
next
  case (Inr u)
  then have "r = Inr ()" by simp
  then show thesis
    using ok advance_ok [of w c n w'] assms by (cases "witnessed w c") (auto simp: word_le_nat_alt)
qed

lemma prog_step_grows:
  assumes "prog_step calls p t w = (p', t', w')"
  shows "advances (entry t) (entry t') \<and> grows (witnessed w) (witnessed w')"
proof (cases p)
  case (Commit_Advance c f n k)
  then obtain r where "cas t c f n = (r, t')" "w' = w"
    using assms by (auto simp: calls_def Let_def split: prod.splits)
  then show ?thesis by (elim call_commit_cases) (auto simp: advances_def)
next
  case (Advance_Counter c n k)
  then obtain r where "advance w c n = (r, w')" "t' = t"
    using assms by (auto simp: calls_def Let_def split: prod.splits)
  then show ?thesis by (elim call_advance_cases) (auto simp: grows_def)
qed (use assms in \<open>auto simp: calls_def\<close>)

text \<open>A reservation moves to its next phase; a new claim is of the counter that the store held.\<close>

lemma prog_step_phase:
  assumes "program_at ph p" "phase_ok (entry t) (witnessed w) issued ph" "issued_below (witnessed w) issued"
    and step: "prog_step calls p t w = (p', t', w')"
  shows "\<exists>ph'. program_at ph' p' \<and> phase_ok (entry t') (witnessed w') issued ph' \<and>
    (claim ph' \<noteq> None \<longrightarrow> claim ph' = claim ph \<or> (\<exists>c n. claim ph' = Some (c, n) \<and> unat n = val (entry t c)))"
proof (cases ph)
  case (Fresh c)
  then have "p = reserve c" using assms(1) by simp
  then have p': "p' = and_then (on_error Nonce_Register (\<lambda>register.
      Witness_Counter c (on_error Nonce_Witness (\<lambda>witnessed. Done (compare_witness register witnessed)))) (get_next t c))
        (reserve_from c)" and same: "t' = t" "w' = w"
    using step by (auto simp: reserve_def check_register_def calls_def)
  show ?thesis
  proof (cases "get_next t c")
    case (Inl e)
    then show ?thesis using p' by (intro exI [of _ Over]) (simp add: on_error_def)
  next
    case (Inr r)
    then have "r = entry t c" by (rule get_next)
    then show ?thesis using p' Inr same by (intro exI [of _ "Has_Register c r"]) (simp add: on_error_def)
  qed
next
  case (Has_Register c r)
  then have p': "p' = and_then (on_error Nonce_Witness (\<lambda>w. Done (compare_witness r w)) (read_counter w c)) (reserve_from c)"
    and same: "t' = t" "w' = w"
    using assms(1) step by (auto simp: calls_def)
  show ?thesis
  proof (cases "\<exists>v. read_counter w c = Inr v \<and> compare_witness r v = Inr r \<and> held_counter r \<le> max_invocation_counter")
    case True
    then obtain v where v: "read_counter w c = Inr v" "compare_witness r v = Inr r" "held_counter r \<le> max_invocation_counter"
      by blast
    then have "v = witnessed w c" by (intro read_counter)
    moreover have "val v \<le> val r"
      using v(2) by (auto simp: compare_witness_def word_le_nat_alt split: option.splits if_splits)
    ultimately have "unat n < val r" if "\<lparr>cr_context = c, cr_counter = n\<rparr> \<in> issued" for n
      using assms(3) that by (force simp: issued_below_def)
    then have "phase_ok (entry t) (witnessed w) issued (Ready c r)" using assms(2) Has_Register by auto
    moreover have "program_at (Ready c r) p'"
      using p' v by (auto simp: on_error_def reserve_from_def held_counter_def Let_def not_less)
    ultimately show ?thesis using same by (intro exI [of _ "Ready c r"]) simp
  next
    case False
    have same_value: "compare_witness r v = Inr x \<Longrightarrow> x = r" for v x
      by (auto simp: compare_witness_def split: option.splits if_splits)
    have "\<exists>e. p' = Done (Inl e)"
    proof (cases "read_counter w c")
      case (Inr v)
      show ?thesis
      proof (cases "compare_witness r v")
        case read: (Inr x)
        then have "x = r" by (rule same_value)
        with read Inr False have "max_invocation_counter < held_counter r" by (simp add: not_le)
        then show ?thesis
          using p' Inr read \<open>x = r\<close> by (simp add: on_error_def reserve_from_def held_counter_def Let_def)
      qed (use p' Inr in \<open>simp add: on_error_def\<close>)
    qed (use p' in \<open>simp add: on_error_def\<close>)
    then show ?thesis by (intro exI [of _ Over]) simp
  qed
next
  case (Ready c held)
  let ?n = "held_counter held"
  have cap: "?n \<le> max_invocation_counter" using assms(1) Ready by simp
  show ?thesis
  proof (cases "p = hand_out c held ?n")
    case True
    then obtain r where r: "cas t c held (?n + 1) = (r, t')" and w': "w' = w" and
      p': "p' = on_error Nonce_Register (\<lambda>_. Advance_Counter c (?n + 1) (on_error Nonce_Witness (\<lambda>_.
            Done (Inr \<lparr>cr_context = c, cr_counter = ?n\<rparr>)))) r"
      using step by (auto simp: hand_out_def calls_def Let_def split: prod.splits)
    from r show ?thesis
    proof (cases rule: call_commit_cases)
      case ok
      have "\<lparr>cr_context = c, cr_counter = ?n\<rparr> \<notin> issued" using assms(2) Ready ok(2) by auto
      then show ?thesis
        using p' w' ok cap unat_cap [OF cap] by (intro exI [of _ "Committed c ?n"]) (simp add: on_error_def)
    next
      case (failed e)
      then show ?thesis using p' by (intro exI [of _ Over]) (simp add: on_error_def)
    qed
  next
    case False
    then obtain r where r: "advance w c 0 = (r, w')" and t': "t' = t" and
      p': "p' = on_error Nonce_Witness (\<lambda>_. hand_out c held ?n) r"
      using assms(1) Ready step by (auto simp: calls_def Let_def split: prod.splits)
    from r show ?thesis
    proof (cases rule: call_advance_cases)
      case ok
      then show ?thesis using p' t' cap assms(2) Ready by (intro exI [of _ "Ready c held"]) (auto simp: on_error_def)
    next
      case (failed e)
      then show ?thesis using p' by (intro exI [of _ Over]) (simp add: on_error_def)
    qed
  qed
next
  case (Committed c n)
  then obtain r where r: "advance w c (n + 1) = (r, w')" and t': "t' = t" and cap: "n \<le> max_invocation_counter" and
    p': "p' = on_error Nonce_Witness (\<lambda>_. Done (Inr \<lparr>cr_context = c, cr_counter = n\<rparr>)) r"
    using assms(1) step by (auto simp: calls_def Let_def split: prod.splits)
  from r show ?thesis
  proof (cases rule: call_advance_cases)
    case ok
    then show ?thesis
      using p' t' cap assms(2) Committed unat_cap [OF cap] by (intro exI [of _ "Handed c n"]) (simp add: on_error_def)
  next
    case (failed e)
    then show ?thesis using p' by (intro exI [of _ Over]) (simp add: on_error_def)
  qed
next
  case (Handed c n)
  then show ?thesis using assms step by (intro exI [of _ ph]) auto
next
  case Over
  then show ?thesis using assms step by (intro exI [of _ ph]) auto
qed

section \<open>The invariant of a device\<close>

definition sound :: "('t, 'w) device \<Rightarrow> (nat \<Rightarrow> phase) \<Rightarrow> bool" where
  "sound d ph \<longleftrightarrow>
     (\<forall>i p. dv_threads d i = Some (Reserving p) \<longrightarrow> program_at (ph i) p \<and>
        phase_ok (entry (dv_store d)) (witnessed (dv_witness d)) (set (dv_issued d)) (ph i)) \<and>
     (\<forall>i j p q x. i \<noteq> j \<longrightarrow> dv_threads d i = Some (Reserving p) \<longrightarrow> dv_threads d j = Some (Reserving q) \<longrightarrow>
        claim (ph i) = Some x \<longrightarrow> claim (ph j) \<noteq> Some x) \<and>
     issued_below (witnessed (dv_witness d)) (set (dv_issued d)) \<and> distinct (dv_issued d)"

lemma claim_below: "phase_ok e h issued ph \<Longrightarrow> claim ph = Some (c, n) \<Longrightarrow> unat n < val (e c)"
  by (cases ph) auto

lemma issued_below_grows: "issued_below h issued \<Longrightarrow> grows h h' \<Longrightarrow> issued_below h' issued"
  unfolding issued_below_def grows_def by (blast intro: order.strict_trans2)

lemma sound_grows:
  assumes "sound d ph" "advances (entry (dv_store d)) (entry t)" "grows (witnessed (dv_witness d)) (witnessed w)"
    and "dv_issued d' = dv_issued d" "dv_store d' = t" "dv_witness d' = w"
    and "\<And>i p. dv_threads d' i = Some (Reserving p) \<Longrightarrow> dv_threads d i = Some (Reserving p)"
  shows "sound d' ph"
  using assms phase_ok_mono [OF _ assms(2,3)] issued_below_grows [OF _ assms(3)]
  unfolding sound_def by metis

lemma sound_run:
  assumes sound: "sound d ph" and thread: "dv_threads d i = Some (Reserving p)"
    and step: "prog_step calls p (dv_store d) (dv_witness d) = (p', t, w)"
  shows "\<exists>ph. sound (d\<lparr>dv_threads := (dv_threads d)(i \<mapsto> Reserving p'), dv_store := t, dv_witness := w\<rparr>) ph"
proof -
  let ?issued = "set (dv_issued d)"
  have now: "program_at (ph i) p" "phase_ok (entry (dv_store d)) (witnessed (dv_witness d)) ?issued (ph i)"
    and below: "issued_below (witnessed (dv_witness d)) ?issued"
    using sound thread by (auto simp: sound_def)
  from prog_step_phase [OF now below step] obtain ph' where ph':
    "program_at ph' p'" "phase_ok (entry t) (witnessed w) ?issued ph'"
    "claim ph' \<noteq> None \<longrightarrow> claim ph' = claim (ph i) \<or> (\<exists>c n. claim ph' = Some (c, n) \<and> unat n = val (entry (dv_store d) c))"
    by blast
  have grow: "advances (entry (dv_store d)) (entry t)" "grows (witnessed (dv_witness d)) (witnessed w)"
    using prog_step_grows [OF step] by simp_all
  have other: "claim ph' = Some x \<Longrightarrow> claim (ph j) \<noteq> Some x"
    if "j \<noteq> i" "dv_threads d j = Some (Reserving q)" for j q x
  proof
    assume x: "claim ph' = Some x" "claim (ph j) = Some x"
    have "phase_ok (entry (dv_store d)) (witnessed (dv_witness d)) ?issued (ph j)"
      using sound that by (auto simp: sound_def)
    then have "unat (snd x) < val (entry (dv_store d) (fst x))" using x(2) claim_below by (cases x) simp
    then have "claim ph' = claim (ph i)" using ph'(3) x(1) by auto
    then show False using sound that thread x unfolding sound_def by metis
  qed
  have "sound (d\<lparr>dv_threads := (dv_threads d)(i \<mapsto> Reserving p'), dv_store := t, dv_witness := w\<rparr>) (ph(i := ph'))"
    using sound ph'(1,2) other phase_ok_mono [OF _ grow] issued_below_grows [OF below grow(2)]
    unfolding sound_def by (auto; metis)
  then show ?thesis by blast
qed

lemma sound_issue:
  assumes sound: "sound d ph" and thread: "dv_threads d i = Some (Reserving (Done (Inr r)))"
  shows "sound (d\<lparr>dv_threads := (dv_threads d)(i := None), dv_issued := r # dv_issued d\<rparr>) ph"
proof -
  let ?e = "entry (dv_store d)" and ?h = "witnessed (dv_witness d)"
  have at: "program_at (ph i) (Done (Inr r))" and ok: "phase_ok ?e ?h (set (dv_issued d)) (ph i)"
    using sound thread by (auto simp: sound_def)
  obtain c n where ph: "ph i = Handed c n" and r: "r = \<lparr>cr_context = c, cr_counter = n\<rparr>"
    and cap: "n \<le> max_invocation_counter"
    using at by (cases "ph i") (auto simp: reserve_def check_register_def hand_out_def)
  have n: "unat n < val (?e c)" "unat n < val (?h c)" "r \<notin> set (dv_issued d)" using ok ph r by auto
  have "phase_ok ?e ?h (insert r (set (dv_issued d))) (ph j)"
    if "j \<noteq> i" "dv_threads d j = Some (Reserving q)" for j q
  proof -
    have old: "phase_ok ?e ?h (set (dv_issued d)) (ph j)" using sound that by (auto simp: sound_def)
    have "claim (ph j) \<noteq> Some (c, n)" using sound that thread ph unfolding sound_def by (metis claim.simps(2))
    then show ?thesis using old n r by (cases "ph j") auto
  qed
  then show ?thesis
    using sound n r cap unfolding sound_def by (auto simp: issued_below_def; metis)
qed

theorem device_run_sound: "device_run calls entry witnessed d \<Longrightarrow> \<exists>ph. sound d ph"
proof (induction rule: device_run.induct)
  case (begin_run t w)
  then show ?case by (simp add: sound_def issued_below_def)
next
  case (step d d')
  from step.IH obtain ph where ph: "sound d ph" ..
  from step.hyps(2) show ?case
  proof cases
    case (start_reserve i c)
    have "sound d' (ph(i := Fresh c))"
      using ph unfolding start_reserve sound_def by (auto; metis claim.simps(3) option.distinct(1))
    then show ?thesis by blast
  next
    case (start_reconcile i c)
    then have "sound d' ph" by (intro sound_grows [OF ph]) (auto split: if_splits)
    then show ?thesis by blast
  next
    case (run_reserve i p p' t w)
    then show ?thesis using sound_run [OF ph] by simp
  next
    case (run_reconcile i p p' t w)
    then have "sound d' ph"
      using prog_step_grows [OF run_reconcile(3)] by (intro sound_grows [OF ph]) (auto split: if_splits)
    then show ?thesis by blast
  next
    case (issue i r)
    then show ?thesis using sound_issue [OF ph] by blast
  next
    case (refuse i e)
    then have "sound d' ph" by (intro sound_grows [OF ph]) (auto split: if_splits)
    then show ?thesis by blast
  next
    case (reconciled i r)
    then have "sound d' ph" by (intro sound_grows [OF ph]) (auto split: if_splits)
    then show ?thesis by blast
  next
    case crash
    then have "sound d' ph" by (intro sound_grows [OF ph]) auto
    then show ?thesis by blast
  next
    case backup
    then have "sound d' ph" by (intro sound_grows [OF ph]) auto
    then show ?thesis by blast
  next
    case (restore t)
    then have "sound d' ph" using ph by (auto simp: sound_def)
    then show ?thesis by blast
  next
    case (weather t w)
    then have "sound d' ph" by (intro sound_grows [OF ph]) auto
    then show ?thesis by blast
  qed
qed

lemma never_reissued:
  assumes "device_run calls entry witnessed d"
  shows "distinct (dv_issued d)" "\<forall>r \<in> set (dv_issued d). cr_counter r \<le> max_invocation_counter"
  using device_run_sound [OF assms] by (auto simp: sound_def issued_below_def)

end

section \<open>The table of the worker and the witness\<close>

interpretation device: counter_register table_entry store_next_counter store_commit_advance
  mw_counters mock_counter mock_advance_counter
  by unfold_locales

lemma device_calls_eq: "device.calls = device_calls"
  by (simp add: device.calls_def device_calls_def)

text \<open>
  C4: No counter of a context is ever handed out twice, and none above the limit of the key's invocations:
  over all interleavings of reservations and reconciliations, with calls that fail, crashes at any
  point, and restores of the vault to any earlier state (a restore restarts the program).
\<close>
theorem nonce_never_reused:
  "device_run device_calls table_entry mw_counters d \<Longrightarrow>
     distinct (dv_issued d) \<and> list_all (\<lambda>r. cr_counter r \<le> 4294967295) (dv_issued d)"
  using device.never_reissued unfolding device_calls_eq by (simp add: list_all_iff max_invocation_counter_def)

section \<open>One reservation alone\<close>

definition device_ready :: "register_tables \<Rightarrow> mock_witness \<Rightarrow> counter_context \<Rightarrow> bool" where
  "device_ready t w c \<longleftrightarrow>
     rt_healthy t \<and> rt_commits t \<and> \<not> mw_unavailable w \<and> mw_fail_counter_advances w = 0 \<and>
     1 \<le> uint (cc_key_epoch c) \<and> uint (cc_key_epoch c) \<le> i64_max \<and> cc_object_type c \<in> {1, 2} \<and>
     (\<forall>k v. rt_next t k = Some v \<longrightarrow> 1 \<le> v \<and> v \<le> i64_max)"

lemma ready_key:
  assumes "device_ready t w c"
  obtains k where "register_key c = Inr k" "checks_key k"
  using assms
  by (auto simp: device_ready_def register_key_def i64_of_def checks_key_def)

lemma ready_stored: "device_ready t w c \<Longrightarrow> rt_next t k = Some v \<Longrightarrow> 1 \<le> v \<and> v \<le> i64_max"
  unfolding device_ready_def by blast

lemma ready_open: "device_ready t w c \<Longrightarrow> rt_healthy t \<and> rt_commits t"
  by (simp add: device_ready_def)

lemma ready_next:
  assumes "device_ready t w c"
  shows "store_next_counter t c = Inr (table_entry t c)"
proof -
  obtain k where k: "register_key c = Inr k" by (rule ready_key [OF assms])
  show ?thesis
  proof (cases "rt_next t k")
    case (Some v)
    then show ?thesis
      using k ready_stored [OF assms Some] ready_open [OF assms]
      by (simp add: store_next_counter_def write_sync_state_def next_counter_def table_entry_def u64_of_def)
  qed (use k ready_open [OF assms] in
      \<open>simp add: store_next_counter_def write_sync_state_def next_counter_def table_entry_def\<close>)
qed

lemma ready_commit:
  assumes "device_ready t w c" "table_entry t c = held" "held_counter held \<le> max_invocation_counter"
  obtains t' where "store_commit_advance t c held (held_counter held + 1) = (Inr (), t')"
    "table_entry t' = (table_entry t)(c \<mapsto> held_counter held + 1)"
proof -
  obtain k where k: "register_key c = Inr k" "checks_key k" by (rule ready_key [OF assms(1)])
  let ?to = "held_counter held + 1"
  have to: "unat ?to = val held + 1" using unat_cap [OF assms(3)] by simp
  have small: "val held < 2 ^ 33" using assms(3) unat_held_counter [of held]
    by (simp add: max_invocation_counter_def word_le_nat_alt)
  have "?to \<noteq> 0" using to by auto
  moreover have "pred_option (\<lambda>f. \<not> ?to \<le> f) held" using to by (cases held) (auto simp: word_le_nat_alt)
  moreover have "i64_of ?to = Some (uint ?to)" "1 \<le> uint ?to"
    using to small by (simp_all add: i64_of_def i64_max_def uint_nat)
  moreover have "rt_next t k = map_option uint held" "pred_option (\<lambda>f. i64_of f = Some (uint f)) held"
  proof -
    have stored: "rt_next t k = Some v \<Longrightarrow> 1 \<le> v \<and> v \<le> i64_max" for v by (rule ready_stored [OF assms(1)])
    then show "rt_next t k = map_option uint held"
      using assms(2) k by (cases "rt_next t k") (auto simp: table_entry_def i64_max_def uint_word_of_int)
    with stored show "pred_option (\<lambda>f. i64_of f = Some (uint f)) held" by (cases held) (auto simp: i64_of_def)
  qed
  ultimately have "commit_advance t c held ?to = Inr (t\<lparr>rt_next := (rt_next t)(k \<mapsto> uint ?to)\<rparr>)"
    using k by (cases held) (simp_all add: commit_advance_def)
  then have "store_commit_advance t c held ?to = (Inr (), t\<lparr>rt_next := (rt_next t)(k \<mapsto> uint ?to)\<rparr>)"
    using assms(1) by (simp add: store_commit_advance_def write_sync_state_def device_ready_def)
  moreover from this have "table_entry (t\<lparr>rt_next := (rt_next t)(k \<mapsto> uint ?to)\<rparr>) = (table_entry t)(c \<mapsto> ?to)"
    using sqlite_register.cas_ok by blast
  ultimately show thesis by (rule that)
qed

lemma ready_advance:
  assumes "\<not> mw_unavailable w" "mw_fail_counter_advances w = 0" "pred_option (\<lambda>held. held \<le> n) (mw_counters w c)"
  shows "\<exists>w'. mock_advance_counter w c n = (Inr (), w') \<and> mw_counters w' = (mw_counters w)(c \<mapsto> n) \<and>
    \<not> mw_unavailable w' \<and> mw_fail_counter_advances w' = 0"
proof (cases "0 < mw_skip_before_fail w")
  case True
  then show ?thesis using assms by (simp add: mock_advance_counter_def Let_def)
next
  case False
  then show ?thesis using assms by (simp add: mock_advance_counter_def Let_def)
qed

lemma reserve_alone:
  "device_ready t w c \<Longrightarrow>
     (case compare_witness (table_entry t c) (mw_counters w c) of
        Inl e \<Rightarrow> run_prog device_calls (reserve c) t w = (Inl e, t, w)
      | Inr held \<Rightarrow>
          if 4294967295 < held_counter held then run_prog device_calls (reserve c) t w = (Inl RotationRequired, t, w)
          else \<exists>t' w'. run_prog device_calls (reserve c) t w =
                   (Inr \<lparr>cr_context = c, cr_counter = held_counter held\<rparr>, t', w') \<and>
                 table_entry t' = (table_entry t)(c \<mapsto> held_counter held + 1) \<and>
                 mw_counters w' = (mw_counters w)(c \<mapsto> held_counter held + 1))"
proof -
  assume ready: "device_ready t w c"
  note calls = device_calls_def reserve_def check_register_def on_error_def
  have up: "\<not> mw_unavailable w" "mw_fail_counter_advances w = 0" using ready by (simp_all add: device_ready_def)
  have start: "run_prog device_calls (reserve c) t w =
      (case compare_witness (table_entry t c) (mw_counters w c) of
         Inl e \<Rightarrow> (Inl e, t, w) | Inr held \<Rightarrow> run_prog device_calls (reserve_from c held) t w)"
    using up by (simp add: calls ready_next [OF ready] mock_counter_def split: sum.split)
  show ?thesis
  proof (cases "compare_witness (table_entry t c) (mw_counters w c)")
    case (Inl e)
    then show ?thesis using start by simp
  next
    case (Inr held)
    then have held: "table_entry t c = held" and
      below: "pred_option (\<lambda>v. v \<le> held_counter held) (mw_counters w c)"
      by (auto simp: compare_witness_def held_counter_def split: option.splits if_splits)
    show ?thesis
    proof (cases "max_invocation_counter < held_counter held")
      case True
      then show ?thesis
        using start Inr by (simp add: reserve_from_def held_counter_def Let_def max_invocation_counter_def)
    next
      case False
      then have cap: "held_counter held \<le> max_invocation_counter" by simp
      obtain t' where t': "store_commit_advance t c held (held_counter held + 1) = (Inr (), t')"
        "table_entry t' = (table_entry t)(c \<mapsto> held_counter held + 1)"
        by (rule ready_commit [OF ready held cap])
      have le: "v \<le> held_counter held \<Longrightarrow> v \<le> held_counter held + 1" for v
        using unat_cap [OF cap] by (simp add: word_le_nat_alt)
      have hand: "\<exists>w'. run_prog device_calls (hand_out c held (held_counter held)) t u =
            (Inr \<lparr>cr_context = c, cr_counter = held_counter held\<rparr>, t', w') \<and>
          mw_counters w' = (mw_counters u)(c \<mapsto> held_counter held + 1)"
        if up': "\<not> mw_unavailable u" "mw_fail_counter_advances u = 0"
          and below': "pred_option (\<lambda>v. v \<le> held_counter held) (mw_counters u c)" for u
      proof -
        have "pred_option (\<lambda>v. v \<le> held_counter held + 1) (mw_counters u c)"
          using below' le by (cases "mw_counters u c") auto
        then obtain w' where "mock_advance_counter u c (held_counter held + 1) = (Inr (), w')"
          "mw_counters w' = (mw_counters u)(c \<mapsto> held_counter held + 1)"
          using ready_advance [OF up'] by blast
        then show ?thesis using t' by (simp add: hand_out_def calls)
      qed
      show ?thesis
      proof (cases held)
        case None
        then have "pred_option (\<lambda>v. v \<le> 0) (mw_counters w c)" using below by (simp add: held_counter_def)
        then obtain u where u: "mock_advance_counter w c 0 = (Inr (), u)" "mw_counters u = (mw_counters w)(c \<mapsto> 0)"
          "\<not> mw_unavailable u" "mw_fail_counter_advances u = 0"
          using ready_advance [OF up] by blast
        then show ?thesis
          using hand [of u] start Inr None t' cap
          by (auto simp: reserve_from_def held_counter_def Let_def calls max_invocation_counter_def)
      next
        case (Some n)
        then show ?thesis
          using hand [OF up below] start Inr t' False
          by (auto simp: reserve_from_def held_counter_def Let_def max_invocation_counter_def)
      qed
    qed
  qed
qed


section \<open>A concrete device\<close>

definition sample_counter_context :: counter_context where
  "sample_counter_context = \<lparr>cc_vault_id = 7, cc_key_epoch = 1, cc_fingerprint = 1, cc_object_type = 1\<rparr>"

definition fresh_tables :: register_tables where
  "fresh_tables = \<lparr>rt_next = Map.empty, rt_saved = Map.empty, rt_healthy = True, rt_commits = True\<rparr>"

lemma fresh_ready: "device_ready fresh_tables mock_new sample_counter_context"
  by (simp add: device_ready_def fresh_tables_def mock_new_def sample_counter_context_def i64_max_def)


lemma thread_step:
  assumes "device_run calls entry witnessed d" "dv_threads d i = Some (Reserving p)"
    "prog_step calls p (dv_store d) (dv_witness d) = (p', t', w')"
  shows "\<exists>d'. device_run calls entry witnessed d' \<and> dv_threads d' i = Some (Reserving p') \<and>
    dv_store d' = t' \<and> dv_witness d' = w' \<and> dv_issued d' = dv_issued d"
  using step [OF assms(1) run_reserve [OF assms(2,3)]] by (intro exI conjI) (assumption, simp_all)

lemma run_thread:
  assumes "run_prog calls p (dv_store d) (dv_witness d) = (r, t', w')" "device_run calls entry witnessed d"
    "dv_threads d i = Some (Reserving p)"
  shows "\<exists>d'. device_run calls entry witnessed d' \<and> dv_threads d' i = Some (Reserving (Done r)) \<and>
    dv_issued d' = dv_issued d"
  using assms
proof (induction p arbitrary: d)
  case (Done x)
  then show ?case by auto
next
  case (Next_Counter c k)
  obtain d' where "device_run calls entry witnessed d'"
    "dv_threads d' i = Some (Reserving (k (call_next calls (dv_store d) c)))"
    "dv_store d' = dv_store d" "dv_witness d' = dv_witness d" "dv_issued d' = dv_issued d"
    using thread_step [OF Next_Counter.prems(2,3)] by auto
  then show ?case using Next_Counter.IH [OF rangeI [of k "call_next calls (dv_store d) c"], of d'] Next_Counter.prems(1) by simp
next
  case (Commit_Advance c f n k)
  obtain x t where x: "call_commit calls (dv_store d) c f n = (x, t)" by fastforce
  obtain d' where "device_run calls entry witnessed d'" "dv_threads d' i = Some (Reserving (k x))"
    "dv_store d' = t" "dv_witness d' = dv_witness d" "dv_issued d' = dv_issued d"
    using thread_step [OF Commit_Advance.prems(2,3)] x by auto
  then show ?case using Commit_Advance.IH [OF rangeI [of k "x"], of d'] Commit_Advance.prems(1) x by simp
next
  case (Witness_Counter c k)
  obtain d' where "device_run calls entry witnessed d'"
    "dv_threads d' i = Some (Reserving (k (call_witness calls (dv_witness d) c)))"
    "dv_store d' = dv_store d" "dv_witness d' = dv_witness d" "dv_issued d' = dv_issued d"
    using thread_step [OF Witness_Counter.prems(2,3)] by auto
  then show ?case using Witness_Counter.IH [OF rangeI [of k "call_witness calls (dv_witness d) c"], of d'] Witness_Counter.prems(1) by simp
next
  case (Advance_Counter c n k)
  obtain x w where x: "call_advance calls (dv_witness d) c n = (x, w)" by fastforce
  obtain d' where "device_run calls entry witnessed d'" "dv_threads d' i = Some (Reserving (k x))"
    "dv_store d' = dv_store d" "dv_witness d' = w" "dv_issued d' = dv_issued d"
    using thread_step [OF Advance_Counter.prems(2,3)] x by auto
  then show ?case using Advance_Counter.IH [OF rangeI [of k "x"], of d'] Advance_Counter.prems(1) x by simp
qed

lemma one_issued:
  "\<exists>d. device_run device_calls table_entry mw_counters d \<and>
     dv_issued d = [\<lparr>cr_context = sample_counter_context, cr_counter = 0\<rparr>]"
proof -
  let ?d = "\<lparr>dv_store = fresh_tables, dv_witness = mock_new, dv_threads = Map.empty, dv_issued = [], dv_backups = []\<rparr>"
  let ?d1 = "?d\<lparr>dv_threads := (dv_threads ?d)(0 \<mapsto> Reserving (reserve sample_counter_context))\<rparr>"
  have "table_entry fresh_tables = Map.empty" "mw_counters mock_new = Map.empty"
    by (auto simp: table_entry_def fresh_tables_def mock_new_def split: sum.split)
  then have "device_run device_calls table_entry mw_counters ?d" by (rule begin_run)
  then have run: "device_run device_calls table_entry mw_counters ?d1"
    by (rule step) (rule start_reserve, simp)
  have "fst (run_prog device_calls (reserve sample_counter_context) fresh_tables mock_new) =
      Inr \<lparr>cr_context = sample_counter_context, cr_counter = 0\<rparr>"
  proof -
    have "compare_witness (table_entry fresh_tables sample_counter_context) (mw_counters mock_new sample_counter_context) =
        Inr None"
      by (simp add: compare_witness_def table_entry_def fresh_tables_def mock_new_def split: sum.split)
    then show ?thesis using reserve_alone [OF fresh_ready] by (auto simp: held_counter_def)
  qed
  then obtain t' w' where "run_prog device_calls (reserve sample_counter_context) (dv_store ?d1) (dv_witness ?d1) =
      (Inr \<lparr>cr_context = sample_counter_context, cr_counter = 0\<rparr>, t', w')"
    by (metis device.select_convs(1,2) device.update_convs(3) prod.collapse)
  from run_thread [OF this run, of 0] obtain d' where d': "device_run device_calls table_entry mw_counters d'"
    "dv_threads d' 0 = Some (Reserving (Done (Inr \<lparr>cr_context = sample_counter_context, cr_counter = 0\<rparr>)))"
    "dv_issued d' = []" by auto
  from step [OF d'(1) issue [OF d'(2)]] d'(3) show ?thesis by (intro exI conjI) (assumption, simp)
qed

theorem nonce_never_reused_witness:
  "\<exists>d. device_run device_calls table_entry mw_counters d \<and> dv_issued d \<noteq> [] \<and> distinct (dv_issued d)"
  using one_issued nonce_never_reused by force

end
