(* ===== verification/State_Guard.thy ===== *)
theory State_Guard
  imports Rollback_Witness Membership_Example
begin

text \<open>
  \<^verbatim>\<open>crates/vault-crypto/src/sync_counter.rs\<close>, the anti-rollback guard of the verified state: the mark of a
  verified chain and the guard's operations over the calls of a witness, which are arguments.
\<close>

datatype guard_error = StateRolledBack | Guard_Witness witness_error

definition verified_mark_of :: "verified_state \<Rightarrow> 64 word \<Rightarrow> verified_mark option" where
  "verified_mark_of s positioned_records =
     (case head_id s of
        None \<Rightarrow> None
      | Some head \<Rightarrow>
          Some \<lparr>vm_membership_version = head_version s, vm_membership_head_id = head,
                vm_key_epoch = state_key_epoch s, vm_epoch_head_id = epoch_head_id s,
                vm_positioned_records = positioned_records\<rparr>)"

section \<open>The guard\<close>

record 'w mark_calls =
  call_mark :: "'w \<Rightarrow> 128 word \<Rightarrow> (witness_error, verified_mark option) res"
  call_advance_mark :: "'w \<Rightarrow> 128 word \<Rightarrow> verified_mark \<Rightarrow> (witness_error, unit) res \<times> 'w"

definition guard_begin :: "'w mark_calls \<Rightarrow> 'w \<Rightarrow> 128 word \<Rightarrow> (guard_error, unit) res \<times> 'w" where
  "guard_begin calls w v =
     (case call_mark calls w v of
        Inl e \<Rightarrow> (Inl (Guard_Witness e), w)
      | Inr (Some _) \<Rightarrow> (Inr (), w)
      | Inr None \<Rightarrow>
          (case call_advance_mark calls w v birth_mark of
             (Inl e, w) \<Rightarrow> (Inl (Guard_Witness e), w)
           | (Inr _, w) \<Rightarrow> (Inr (), w)))"

definition guard_check :: "'w mark_calls \<Rightarrow> 'w \<Rightarrow> 128 word \<Rightarrow> verified_mark option \<Rightarrow> (guard_error, unit) res" where
  "guard_check calls w v loaded =
     (case call_mark calls w v of
        Inl e \<Rightarrow> Inl (Guard_Witness e)
      | Inr witnessed \<Rightarrow>
          (case (loaded, witnessed) of
             (None, None) \<Rightarrow> Inr ()
           | (None, Some m) \<Rightarrow> if is_birth m then Inr () else Inl StateRolledBack
           | (Some l, Some m) \<Rightarrow>
               (case cmp_progress l m of
                  Equal \<Rightarrow> Inr () | Ahead \<Rightarrow> Inr () | Behind \<Rightarrow> Inl StateRolledBack | Diverged \<Rightarrow> Inl StateRolledBack)
           | (Some _, None) \<Rightarrow> Inl StateRolledBack))"

definition guard_record :: "'w mark_calls \<Rightarrow> 'w \<Rightarrow> 128 word \<Rightarrow> verified_mark \<Rightarrow> (guard_error, unit) res \<times> 'w" where
  "guard_record calls w v m =
     (case guard_begin calls w v of
        (Inl e, w) \<Rightarrow> (Inl e, w)
      | (Inr _, w) \<Rightarrow>
          (case call_advance_mark calls w v m of
             (Inr _, w) \<Rightarrow> (Inr (), w)
           | (Inl WouldRegress, w) \<Rightarrow> (Inl StateRolledBack, w)
           | (Inl e, w) \<Rightarrow> (Inl (Guard_Witness e), w)))"

definition guard_reconcile ::
    "'w mark_calls \<Rightarrow> 'w \<Rightarrow> 128 word \<Rightarrow> verified_mark option \<Rightarrow> (guard_error, unit) res \<times> 'w" where
  "guard_reconcile calls w v loaded =
     (case guard_check calls w v loaded of
        Inl e \<Rightarrow> (Inl e, w)
      | Inr _ \<Rightarrow>
          (case loaded of
             None \<Rightarrow> (Inr (), w)
           | Some l \<Rightarrow>
               (case call_mark calls w v of
                  Inl e \<Rightarrow> (Inl (Guard_Witness e), w)
                | Inr witnessed \<Rightarrow> if witnessed \<noteq> Some l then guard_record calls w v l else (Inr (), w))))"

section \<open>The witness only moves forward\<close>

definition forward :: "(128 word \<Rightarrow> verified_mark option) \<Rightarrow> (128 word \<Rightarrow> verified_mark option) \<Rightarrow> bool" where
  "forward f g \<longleftrightarrow> (\<forall>v m. f v = Some m \<longrightarrow> (\<exists>n. g v = Some n \<and> at_or_ahead n m))"

lemma forward_refl: "forward f f"
  by (simp add: forward_def at_or_ahead_refl)

lemma forward_trans: "forward f g \<Longrightarrow> forward g h \<Longrightarrow> forward f h"
  unfolding forward_def using at_or_ahead_trans by meson

context mark_witness
begin

definition calls :: "'w mark_calls" where
  "calls = \<lparr>call_mark = read_mark, call_advance_mark = advance_mark\<rparr>"

lemma advance_forward: "advance_mark w v m = (r, w') \<Longrightarrow> forward (mark_of w) (mark_of w')"
proof (cases r)
  case (Inr u)
  assume "advance_mark w v m = (r, w')"
  then have "pred_option (at_or_ahead m) (mark_of w v)" "mark_of w' = (mark_of w)(v \<mapsto> m)"
    using advance_mark_ok [of w v m w'] Inr by simp_all
  then show ?thesis by (auto simp: forward_def at_or_ahead_refl)
next
  case (Inl e)
  assume "advance_mark w v m = (r, w')"
  then show ?thesis using advance_mark_err [of w v m e w'] Inl forward_refl by simp
qed

lemma begin_forward: "guard_begin calls w v = (r, w') \<Longrightarrow> forward (mark_of w) (mark_of w')"
  by (auto simp: guard_begin_def calls_def forward_refl dest: advance_forward
      split: sum.splits option.splits prod.splits)

lemma record_forward:
  assumes "guard_record calls w v m = (r, w')"
  shows "forward (mark_of w) (mark_of w')" and "r = Inr () \<Longrightarrow> mark_of w' v = Some m"
proof -
  obtain r1 w1 where one: "guard_begin calls w v = (r1, w1)" by fastforce
  have f1: "forward (mark_of w) (mark_of w1)" by (rule begin_forward [OF one])
  have "forward (mark_of w) (mark_of w') \<and> (r = Inr () \<longrightarrow> mark_of w' v = Some m)"
  proof (cases r1)
    case (Inl e)
    then show ?thesis using assms one f1 by (auto simp: guard_record_def)
  next
    case (Inr u)
    obtain r2 w2 where two: "advance_mark w1 v m = (r2, w2)" by fastforce
    have f2: "forward (mark_of w) (mark_of w2)" using forward_trans [OF f1 advance_forward [OF two]] .
    have "w' = w2 \<and> (r = Inr () \<longrightarrow> r2 = Inr ())"
      using assms one two Inr by (auto simp: guard_record_def calls_def split: sum.splits witness_error.splits)
    then show ?thesis using f2 advance_mark_ok [of w1 v m w2] two by auto
  qed
  then show "forward (mark_of w) (mark_of w')" and "r = Inr () \<Longrightarrow> mark_of w' v = Some m" by simp_all
qed

lemma reconcile_forward:
  assumes "guard_reconcile calls w v loaded = (r, w')"
  shows "forward (mark_of w) (mark_of w')"
  using assms
  by (auto simp: guard_reconcile_def forward_refl dest: record_forward split: sum.splits option.splits if_splits)

lemma check_Inr:
  assumes "guard_check calls w v loaded = Inr ()"
  shows "case loaded of None \<Rightarrow> pred_option is_birth (mark_of w v)
    | Some l \<Rightarrow> \<exists>m. mark_of w v = Some m \<and> at_or_ahead l m"
proof -
  obtain m where "read_mark w v = Inr m" using assms by (auto simp: guard_check_def calls_def split: sum.splits)
  moreover from this have "m = mark_of w v" by (rule read_mark)
  ultimately show ?thesis
    using assms
    by (auto simp: guard_check_def calls_def at_or_ahead_def split: option.splits if_splits progress.splits)
qed

end

section \<open>Over all uses of the guard\<close>

definition mock_mark_calls :: "mock_witness mark_calls" where
  "mock_mark_calls = \<lparr>call_mark = mock_verified_mark, call_advance_mark = mock_advance_verified_mark\<rparr>"

lemma mock_calls_eq: "mock_marks.calls = mock_mark_calls"
  by (simp add: mock_marks.calls_def mock_mark_calls_def)

text \<open>
  Any sequence of operations of the guard on any vaults, with calls that fail; the second argument collects
  what was recorded.
\<close>

inductive guard_run :: "(128 word \<times> verified_mark) set \<Rightarrow> mock_witness \<Rightarrow> bool" where
  new: "guard_run {} mock_new"
| begin_vault: "guard_run R w \<Longrightarrow> guard_begin mock_mark_calls w v = (r, w') \<Longrightarrow> guard_run R w'"
| reconcile: "guard_run R w \<Longrightarrow> guard_reconcile mock_mark_calls w v loaded = (r, w') \<Longrightarrow> guard_run R w'"
| recorded: "guard_run R w \<Longrightarrow> guard_record mock_mark_calls w v m = (Inr (), w') \<Longrightarrow> guard_run (insert (v, m) R) w'"
| not_recorded: "guard_run R w \<Longrightarrow> guard_record mock_mark_calls w v m = (Inl e, w') \<Longrightarrow> guard_run R w'"
| available: "guard_run R w \<Longrightarrow> guard_run R (set_unavailable u w)"

lemma guard_run_holds: "guard_run R w \<Longrightarrow> (v, m) \<in> R \<Longrightarrow> \<exists>n. mw_marks w v = Some n \<and> at_or_ahead n m"
proof (induction arbitrary: v m rule: guard_run.induct)
  case (begin_vault R w u r w')
  then show ?case
    using mock_marks.begin_forward [unfolded mock_calls_eq, OF begin_vault.hyps(2)] at_or_ahead_trans
    unfolding forward_def by meson
next
  case (reconcile R w u loaded r w')
  then show ?case
    using mock_marks.reconcile_forward [unfolded mock_calls_eq, OF reconcile.hyps(2)] at_or_ahead_trans
    unfolding forward_def by meson
next
  case (recorded R w u n w')
  note f = mock_marks.record_forward [unfolded mock_calls_eq, OF recorded.hyps(2)]
  show ?case
  proof (cases "(v, m) = (u, n)")
    case True
    then show ?thesis using f(2) at_or_ahead_refl by auto
  next
    case False
    then have "(v, m) \<in> R" using recorded.prems by auto
    then show ?thesis using recorded.IH f(1) at_or_ahead_trans unfolding forward_def by meson
  qed
next
  case (not_recorded R w u n e w')
  then show ?case
    using mock_marks.record_forward(1) [unfolded mock_calls_eq, OF not_recorded.hyps(2)] at_or_ahead_trans
    unfolding forward_def by meson
qed (auto simp: set_unavailable_def)

text \<open>
  C9: Whatever was once recorded for a vault, the guard accepts a loaded state only if its mark is at it or
  ahead of it, and accepts the absence of a state only if nothing real was recorded: a vault restored
  to an older or a divergent verified state is refused.
\<close>
theorem rollback_refused:
  "guard_run R w \<Longrightarrow> (v, m) \<in> R \<Longrightarrow> guard_check mock_mark_calls w v loaded = Inr () \<Longrightarrow>
     (case loaded of
        None \<Rightarrow> is_birth m
      | Some l \<Rightarrow> cmp_progress l m = Equal \<or> cmp_progress l m = Ahead)"
proof -
  assume "guard_run R w" "(v, m) \<in> R" and check: "guard_check mock_mark_calls w v loaded = Inr ()"
  then obtain n where n: "mw_marks w v = Some n" "at_or_ahead n m" using guard_run_holds by blast
  from mock_marks.check_Inr [unfolded mock_calls_eq, OF check] show ?thesis
  proof (cases loaded)
    case None
    then have "is_birth n" using mock_marks.check_Inr [unfolded mock_calls_eq, OF check] n by simp
    then show ?thesis using None n by (auto simp: at_or_ahead_iff)
  next
    case (Some l)
    then have "at_or_ahead l n" using mock_marks.check_Inr [unfolded mock_calls_eq, OF check] n by auto
    then have "at_or_ahead l m" using n at_or_ahead_trans by blast
    then show ?thesis using Some by (simp add: at_or_ahead_def)
  qed
qed

section \<open>A verified chain only moves forward\<close>

lemma chain_lengths:
  assumes "verified sha256 c vault s"
  shows "length (vs_steps s) \<le> max_chain_len" "length (vs_epochs s) \<le> max_chain_len" "epochs_ok s"
  using verified_ok [OF assms] by (auto simp: chain_ok_def epochs_ok_def)

lemma small_word_le:
  "a \<le> max_chain_len \<Longrightarrow> b \<le> max_chain_len \<Longrightarrow> (word_of_nat a :: 64 word) \<le> word_of_nat b \<longleftrightarrow> a \<le> b"
  by (simp add: word_le_nat_alt version_unat)

lemma small_word_eq:
  "a \<le> max_chain_len \<Longrightarrow> b \<le> max_chain_len \<Longrightarrow> (word_of_nat a :: 64 word) = word_of_nat b \<longleftrightarrow> a = b"
  by (metis small_word_le order.antisym order.refl)

lemma prefix_same_length: "prefix xs ys \<Longrightarrow> length ys = length xs \<Longrightarrow> ys = xs"
  by (auto simp: prefix_def)

lemma key_epoch_forward:
  assumes "verified sha256 c vault s'" "prefix (vs_epochs s) (vs_epochs s')"
  shows "state_key_epoch s \<le> state_key_epoch s'"
proof (cases "vs_epochs s")
  case (Cons e es)
  then have "last (vs_epochs s) \<in> set (vs_epochs s')" "vs_epochs s' \<noteq> []"
    using assms(2) set_mono_prefix last_in_set by (fastforce, auto)
  then have "unat (er_key_epoch (last (vs_epochs s))) \<le> unat (er_key_epoch (last (vs_epochs s')))"
    using epoch_last_key chain_lengths(3) [OF assms(1)] by blast
  then show ?thesis
    using Cons \<open>vs_epochs s' \<noteq> []\<close> by (simp add: state_key_epoch_def last_opt_def word_le_nat_alt)
qed (simp add: state_key_epoch_def last_opt_def)

lemma marks_forward:
  assumes "verified sha256 c vault s" "verified sha256 c vault s'" "extends s s'"
    and m: "verified_mark_of s (word_of_nat (length (vs_epochs s))) = Some m"
    and m': "verified_mark_of s' (word_of_nat (length (vs_epochs s'))) = Some m'"
  shows "at_or_ahead m' m"
proof -
  note len = chain_lengths [OF assms(1)] and len' = chain_lengths [OF assms(2)]
  have steps: "prefix (vs_steps s) (vs_steps s')" and epochs: "prefix (vs_epochs s) (vs_epochs s')"
    using assms(3) by (simp_all add: extends_def)
  have versions: "vm_membership_version m = head_version s" "vm_membership_version m' = head_version s'"
    and heads: "Some (vm_membership_head_id m) = head_id s" "Some (vm_membership_head_id m') = head_id s'"
    and keys: "vm_key_epoch m = state_key_epoch s" "vm_key_epoch m' = state_key_epoch s'"
    and epoch_heads: "vm_epoch_head_id m = epoch_head_id s" "vm_epoch_head_id m' = epoch_head_id s'"
    and counts: "vm_positioned_records m = word_of_nat (length (vs_epochs s))"
      "vm_positioned_records m' = word_of_nat (length (vs_epochs s'))"
    using m m' by (auto simp: verified_mark_of_def split: option.splits)
  have "vs_steps s' \<noteq> []" using heads(2) by (auto simp: head_id_def last_opt_def)
  then have "head_version s' \<noteq> 0" using small_word_eq [of "length (vs_steps s')" 0] len' by (simp add: head_version_def)
  then have "\<not> is_birth m'" using versions by (auto simp: is_birth_def birth_mark_def)
  moreover have "vm_membership_version m \<le> vm_membership_version m'"
    using prefix_length_le [OF steps] len len' by (simp add: versions head_version_def small_word_le)
  moreover have "vm_positioned_records m \<le> vm_positioned_records m'"
    using prefix_length_le [OF epochs] len len' by (simp add: counts small_word_le)
  moreover have "vm_key_epoch m \<le> vm_key_epoch m'"
    using key_epoch_forward [OF assms(2) epochs] by (simp add: keys)
  moreover have "vm_membership_head_id m' = vm_membership_head_id m" if "vm_membership_version m' = vm_membership_version m"
  proof -
    have "vs_steps s' = vs_steps s"
      using that len len' prefix_same_length [OF steps] by (simp add: versions head_version_def small_word_eq)
    then have "head_id s' = head_id s" by (simp add: head_id_def)
    then show ?thesis using heads by (metis option.inject)
  qed
  moreover have "vm_epoch_head_id m' = vm_epoch_head_id m" if "vm_positioned_records m' = vm_positioned_records m"
  proof -
    have "vs_epochs s' = vs_epochs s" using that len len' prefix_same_length [OF epochs] by (simp add: counts small_word_eq)
    then show ?thesis by (simp add: epoch_heads epoch_head_id_def)
  qed
  ultimately show ?thesis by (simp add: at_or_ahead_iff)
qed

text \<open>
  When a verified chain takes further records, its mark, with the number of its epoch records, is equal to
  or ahead of the mark before: the guard never refuses a vault that only verified more.
\<close>
theorem verifying_moves_forward:
  "verified sha256 c vault s \<Longrightarrow> Membership_Chain.extend sha256 c s ms es = Inr s' \<Longrightarrow>
   verified_mark_of s (word_of_nat (length (vs_epochs s))) = Some m \<Longrightarrow>
     \<exists>m'. verified_mark_of s' (word_of_nat (length (vs_epochs s'))) = Some m' \<and>
       (cmp_progress m' m = Equal \<or> cmp_progress m' m = Ahead)"
proof -
  assume s: "verified sha256 c vault s" and more: "Membership_Chain.extend sha256 c s ms es = Inr s'"
    and m: "verified_mark_of s (word_of_nat (length (vs_epochs s))) = Some m"
  have s': "verified sha256 c vault s'" by (rule verified_extend [OF s more])
  have ext: "extends s s'" by (rule extend_extends [OF s more])
  have "vs_steps s \<noteq> []" using m by (auto simp: verified_mark_of_def head_id_def last_opt_def split: option.splits)
  then have "vs_steps s' \<noteq> []" using ext by (auto simp: extends_def)
  then obtain m' where m': "verified_mark_of s' (word_of_nat (length (vs_epochs s'))) = Some m'"
    by (simp add: verified_mark_of_def head_id_def last_opt_def)
  from marks_forward [OF s s' ext m m'] m' show ?thesis by (simp add: at_or_ahead_def)
qed

section \<open>Concrete uses\<close>

definition founded_mark :: verified_mark where
  "founded_mark = \<lparr>vm_membership_version = 1, vm_membership_head_id = 0, vm_key_epoch = 1, vm_epoch_head_id = Some 0,
     vm_positioned_records = 1\<rparr>"

theorem verifying_moves_forward_witness:
  "\<exists>m'. verified_mark_of founded 1 = Some m' \<and> (cmp_progress m' founded_mark = Equal \<or> cmp_progress m' founded_mark = Ahead)"
proof -
  have none_new: "Membership_Chain.extend last_hash trusting founded [] [] = Inr founded"
    by (simp add: Membership_Chain.extend_def coupled_def usize_add_def founded_def last_opt_def)
  have one: "word_of_nat (length (vs_epochs founded)) = (1 :: 64 word)" by (simp add: founded_def of_nat_Suc)
  have mark: "verified_mark_of founded (word_of_nat (length (vs_epochs founded))) = Some founded_mark"
    by (simp add: verified_mark_of_def founded_def founded_mark_def head_id_def last_opt_def head_version_def
        state_key_epoch_def epoch_head_id_def of_nat_Suc)
  show ?thesis using verifying_moves_forward [OF founded_verified none_new mark] unfolding one .
qed

theorem rollback_refused_witness:
  "\<exists>w. guard_run {(7, founded_mark)} w \<and> guard_check mock_mark_calls w 7 None \<noteq> Inr ()"
proof -
  obtain w where w: "guard_record mock_mark_calls mock_new 7 founded_mark = (Inr (), w)"
    by (simp add: guard_record_def guard_begin_def mock_mark_calls_def mock_verified_mark_def mock_new_def
        mock_advance_verified_mark_def cmp_progress_def is_birth_def founded_mark_def birth_mark_def)
  from recorded [OF new w] have "guard_run {(7, founded_mark)} w" .
  moreover have "\<not> is_birth founded_mark" by (simp add: is_birth_def birth_mark_def founded_mark_def)
  ultimately show ?thesis using rollback_refused [of "{(7, founded_mark)}" w 7 founded_mark None] by auto
qed

end
