(* ===== verification/Crash_IO.thy ===== *)
theory Crash_IO
  imports Prelude
begin

text \<open>
  Programs over files that may fail at every call and may die between any two.

  A world holds the files and the faults that the coming calls meet, in order (none left: every call works).
  \<open>Unreadable\<close> strikes only calls that read, \<open>Fails\<close> only calls that write; \<open>Partly\<close> is a write that fails after
  leaving other content behind; at \<open>Dies\<close> the process is gone before the call.  An operation returns, raises
  an error (Rust's \<^verbatim>\<open>Err\<close>), or has died.  Existence queries are exact and are not struck.

  The second part is a logic of triples for such programs, with one postcondition per outcome.  A \<open>complete\<close>
  triple promises besides that, where no fault is left, the program returns.
\<close>

section \<open>Worlds and programs\<close>

datatype 'c fault = Works | Fails | Unreadable | Partly 'c | Dies

record ('p, 'c) world =
  wd_files :: "'p \<rightharpoonup> 'c"
  wd_faults :: "'c fault list"

datatype ('e, 'a) outcome = Returns 'a | Raises 'e | Died

type_synonym ('p, 'c, 'e, 'a) io = "('p, 'c) world \<Rightarrow> ('e, 'a) outcome \<times> ('p, 'c) world"

definition give :: "'a \<Rightarrow> ('p, 'c, 'e, 'a) io" where
  "give x w = (Returns x, w)"

definition throw :: "'e \<Rightarrow> ('p, 'c, 'e, 'a) io" where
  "throw e w = (Raises e, w)"

definition bind_io :: "('p, 'c, 'e, 'a) io \<Rightarrow> ('a \<Rightarrow> ('p, 'c, 'e, 'b) io) \<Rightarrow> ('p, 'c, 'e, 'b) io" where
  "bind_io a k w =
     (case a w of (Returns x, w) \<Rightarrow> k x w | (Raises e, w) \<Rightarrow> (Raises e, w) | (Died, w) \<Rightarrow> (Died, w))"

definition seq_io :: "('p, 'c, 'e, unit) io \<Rightarrow> ('p, 'c, 'e, 'b) io \<Rightarrow> ('p, 'c, 'e, 'b) io" where
  "seq_io a b = bind_io a (\<lambda>_. b)"

text \<open>The outcome of a call as a value: Rust's \<^verbatim>\<open>match\<close> on a \<^verbatim>\<open>Result\<close> in place of \<^verbatim>\<open>?\<close>.\<close>

definition attempt :: "('p, 'c, 'e, 'a) io \<Rightarrow> ('p, 'c, 'e, ('e, 'a) res) io" where
  "attempt a w =
     (case a w of
        (Returns x, w) \<Rightarrow> (Returns (Inr x), w) | (Raises e, w) \<Rightarrow> (Returns (Inl e), w) | (Died, w) \<Rightarrow> (Died, w))"

definition when_io :: "bool \<Rightarrow> ('p, 'c, 'e, unit) io \<Rightarrow> ('p, 'c, 'e, unit) io" where
  "when_io b a = (if b then a else give ())"

primrec for_io :: "'x list \<Rightarrow> ('x \<Rightarrow> ('p, 'c, 'e, unit) io) \<Rightarrow> ('p, 'c, 'e, unit) io" where
  "for_io [] body = give ()"
| "for_io (x # xs) body = seq_io (body x) (for_io xs body)"

primrec map_io :: "('x \<Rightarrow> ('p, 'c, 'e, 'y) io) \<Rightarrow> 'x list \<Rightarrow> ('p, 'c, 'e, 'y list) io" where
  "map_io body [] = give []"
| "map_io body (x # xs) = bind_io (body x) (\<lambda>y. bind_io (map_io body xs) (\<lambda>ys. give (y # ys)))"

section \<open>Calls\<close>

definition draw :: "('p, 'c) world \<Rightarrow> 'c fault \<times> ('p, 'c) world" where
  "draw w = (case wd_faults w of [] \<Rightarrow> (Works, w) | t # ts \<Rightarrow> (t, w\<lparr>wd_faults := ts\<rparr>))"

text \<open>A call that changes files, all at once or not at all; \<open>None\<close> is the call refusing on its own.\<close>

definition effect :: "'e \<Rightarrow> (('p \<rightharpoonup> 'c) \<Rightarrow> ('p \<rightharpoonup> 'c) option) \<Rightarrow> ('p, 'c, 'e, unit) io" where
  "effect e g w =
     (case draw w of
        (Dies, w) \<Rightarrow> (Died, w)
      | (Fails, w) \<Rightarrow> (Raises e, w)
      | (Partly _, w) \<Rightarrow> (Raises e, w)
      | (_, w) \<Rightarrow> (case g (wd_files w) of None \<Rightarrow> (Raises e, w) | Some f \<Rightarrow> (Returns (), w\<lparr>wd_files := f\<rparr>)))"

text \<open>A call that writes content: where it fails midway, \<open>torn c f\<close> are the files it leaves.\<close>

definition put_io :: "'e \<Rightarrow> (('p \<rightharpoonup> 'c) \<Rightarrow> 'p \<rightharpoonup> 'c) \<Rightarrow> ('c \<Rightarrow> ('p \<rightharpoonup> 'c) \<Rightarrow> 'p \<rightharpoonup> 'c) \<Rightarrow> ('p, 'c, 'e, unit) io" where
  "put_io e g torn w =
     (case draw w of
        (Dies, w) \<Rightarrow> (Died, w)
      | (Fails, w) \<Rightarrow> (Raises e, w)
      | (Partly c, w) \<Rightarrow> (Raises e, w\<lparr>wd_files := torn c (wd_files w)\<rparr>)
      | (_, w) \<Rightarrow> (Returns (), w\<lparr>wd_files := g (wd_files w)\<rparr>))"

text \<open>A call that reads; \<open>None\<close> is a file that is not there.\<close>

definition query :: "'e \<Rightarrow> (('p \<rightharpoonup> 'c) \<Rightarrow> 'a option) \<Rightarrow> ('p, 'c, 'e, 'a) io" where
  "query e g w =
     (case draw w of
        (Dies, w) \<Rightarrow> (Died, w)
      | (Unreadable, w) \<Rightarrow> (Raises e, w)
      | (_, w) \<Rightarrow> (case g (wd_files w) of None \<Rightarrow> (Raises e, w) | Some x \<Rightarrow> (Returns x, w)))"

definition exists_io :: "'p \<Rightarrow> ('p, 'c, 'e, bool) io" where
  "exists_io p w = (Returns (wd_files w p \<noteq> None), w)"

definition remove_file :: "'e \<Rightarrow> 'p \<Rightarrow> ('p, 'c, 'e, unit) io" where
  "remove_file e p = effect e (\<lambda>f. Some (f(p := None)))"

definition rename_file :: "'e \<Rightarrow> 'p \<Rightarrow> 'p \<Rightarrow> ('p, 'c, 'e, unit) io" where
  "rename_file e a b = effect e (\<lambda>f. case f a of None \<Rightarrow> None | Some c \<Rightarrow> Some (f(a := None, b \<mapsto> c)))"

definition create_file :: "'e \<Rightarrow> 'p \<Rightarrow> 'c \<Rightarrow> ('p, 'c, 'e, unit) io" where
  "create_file e p c = effect e (\<lambda>f. Some (f(p \<mapsto> c)))"

definition create_new :: "'e \<Rightarrow> 'p \<Rightarrow> 'c \<Rightarrow> ('p, 'c, 'e, unit) io" where
  "create_new e p c = effect e (\<lambda>f. if f p = None then Some (f(p \<mapsto> c)) else None)"

definition write_all :: "'e \<Rightarrow> 'p \<Rightarrow> 'c \<Rightarrow> ('p, 'c, 'e, unit) io" where
  "write_all e p c = put_io e (\<lambda>f. f(p \<mapsto> c)) (\<lambda>c f. f(p \<mapsto> c))"

definition fsync :: "'e \<Rightarrow> ('p, 'c, 'e, unit) io" where
  "fsync e = effect e Some"

definition read_file :: "'e \<Rightarrow> 'p \<Rightarrow> ('p, 'c, 'e, 'c) io" where
  "read_file e p = query e (\<lambda>f. f p)"

datatype link_result = Linked | Already_There | Not_Linked

text \<open>A hard link to a file that is never written again is a second file of the same content.\<close>

definition hard_link :: "'p \<Rightarrow> 'p \<Rightarrow> ('p, 'c, 'e, link_result) io" where
  "hard_link a b w =
     (case draw w of
        (Dies, w) \<Rightarrow> (Died, w)
      | (Fails, w) \<Rightarrow> (Returns Not_Linked, w)
      | (Partly _, w) \<Rightarrow> (Returns Not_Linked, w)
      | (_, w) \<Rightarrow>
          if wd_files w b \<noteq> None then (Returns Already_There, w)
          else case wd_files w a of
                 None \<Rightarrow> (Returns Not_Linked, w)
               | Some c \<Rightarrow> (Returns Linked, w\<lparr>wd_files := (wd_files w)(b \<mapsto> c)\<rparr>))"

section \<open>Triples\<close>

text \<open>
  \<open>readable\<close> restricts the faults to worlds in which no call that reads is struck; \<open>complete\<close> asks that the
  program returns where no fault is left.
\<close>

definition meets ::
    "bool \<Rightarrow> ('a \<Rightarrow> ('p \<rightharpoonup> 'c) \<Rightarrow> bool) \<Rightarrow> (('p \<rightharpoonup> 'c) \<Rightarrow> bool) \<Rightarrow> (('p \<rightharpoonup> 'c) \<Rightarrow> bool) \<Rightarrow> 'c fault list \<Rightarrow>
     ('e, 'a) outcome \<times> ('p, 'c) world \<Rightarrow> bool" where
  "meets complete Q E C ts out \<longleftrightarrow>
     set (wd_faults (snd out)) \<subseteq> set ts \<and>
     (case fst out of
        Returns x \<Rightarrow> Q x (wd_files (snd out))
      | Raises _ \<Rightarrow> E (wd_files (snd out)) \<and> (complete \<longrightarrow> ts \<noteq> [])
      | Died \<Rightarrow> C (wd_files (snd out)) \<and> ts \<noteq> [])"

definition triple ::
    "bool \<Rightarrow> bool \<Rightarrow> (('p \<rightharpoonup> 'c) \<Rightarrow> bool) \<Rightarrow> ('p, 'c, 'e, 'a) io \<Rightarrow> ('a \<Rightarrow> ('p \<rightharpoonup> 'c) \<Rightarrow> bool) \<Rightarrow>
     (('p \<rightharpoonup> 'c) \<Rightarrow> bool) \<Rightarrow> (('p \<rightharpoonup> 'c) \<Rightarrow> bool) \<Rightarrow> bool" where
  "triple readable complete P a Q E C \<longleftrightarrow>
     (\<forall>w :: ('p, 'c) world. P (wd_files w) \<longrightarrow> (readable \<longrightarrow> Unreadable \<notin> set (wd_faults w)) \<longrightarrow>
        meets complete Q E C (wd_faults w) (a w))"

lemma meets_simps [simp]:
  "meets complete Q E C ts (Returns x, w) \<longleftrightarrow> set (wd_faults w) \<subseteq> set ts \<and> Q x (wd_files w)"
  "meets complete Q E C ts (Raises e, w) \<longleftrightarrow>
     set (wd_faults w) \<subseteq> set ts \<and> E (wd_files w) \<and> (complete \<longrightarrow> ts \<noteq> [])"
  "meets complete Q E C ts (Died, w) \<longleftrightarrow> set (wd_faults w) \<subseteq> set ts \<and> C (wd_files w) \<and> ts \<noteq> []"
  by (simp_all add: meets_def)

lemma meets_cases:
  assumes "meets complete Q E C ts out"
  obtains x w where "out = (Returns x, w)" "Q x (wd_files w)" "set (wd_faults w) \<subseteq> set ts"
  | e w where "out = (Raises e, w)" "E (wd_files w)" "set (wd_faults w) \<subseteq> set ts" "complete \<longrightarrow> ts \<noteq> []"
  | w where "out = (Died, w)" "C (wd_files w)" "set (wd_faults w) \<subseteq> set ts" "ts \<noteq> []"
proof (cases out)
  case (Pair r w)
  show ?thesis
  proof (cases r)
    case (Returns x)
    then show ?thesis using that(1) [of x w] assms Pair by simp
  next
    case (Raises e)
    then show ?thesis using that(2) [of e w] assms Pair by simp
  next
    case Died
    then show ?thesis using that(3) [of w] assms Pair by simp
  qed
qed

lemma tripleI:
  fixes a :: "('p, 'c, 'e, 'a) io"
  assumes "\<And>w :: ('p, 'c) world. P (wd_files w) \<Longrightarrow> (readable \<longrightarrow> Unreadable \<notin> set (wd_faults w)) \<Longrightarrow>
    meets complete Q E C (wd_faults w) (a w)"
  shows "triple readable complete P a Q E C"
  using assms unfolding triple_def by blast

lemma tripleD:
  "triple readable complete P a Q E C \<Longrightarrow> P (wd_files w) \<Longrightarrow> (readable \<longrightarrow> Unreadable \<notin> set (wd_faults w)) \<Longrightarrow>
   meets complete Q E C (wd_faults w) (a w)"
  unfolding triple_def by blast

lemma meets_weaken:
  "meets complete Q E C ts out \<Longrightarrow> set ts \<subseteq> set ts' \<Longrightarrow> (\<And>x f. Q x f \<Longrightarrow> Q' x f) \<Longrightarrow> (\<And>f. E f \<Longrightarrow> E' f) \<Longrightarrow>
   (\<And>f. C f \<Longrightarrow> C' f) \<Longrightarrow> meets complete Q' E' C' ts' out"
  by (erule meets_cases) auto

lemma triple_weaken:
  "triple readable complete P a Q E C \<Longrightarrow> (\<And>f. P' f \<Longrightarrow> P f) \<Longrightarrow> (\<And>x f. Q x f \<Longrightarrow> Q' x f) \<Longrightarrow>
   (\<And>f. E f \<Longrightarrow> E' f) \<Longrightarrow> (\<And>f. C f \<Longrightarrow> C' f) \<Longrightarrow> triple readable complete P' a Q' E' C'"
  by (rule tripleI, rule meets_weaken, erule tripleD) auto

lemma triple_partial: "triple readable True P a Q E C \<Longrightarrow> triple readable False P a Q E C"
proof (rule tripleI)
  fix w :: "('a, 'b) world"
  assume "triple readable True P a Q E C" "P (wd_files w)" "readable \<longrightarrow> Unreadable \<notin> set (wd_faults w)"
  then have "meets True Q E C (wd_faults w) (a w)" by (rule tripleD)
  then show "meets False Q E C (wd_faults w) (a w)" by (rule meets_cases) auto
qed

lemma triple_careless: "triple False complete P a Q E C \<Longrightarrow> triple readable complete P a Q E C"
  unfolding triple_def by blast

lemma triple_give: "(\<And>f. P f \<Longrightarrow> Q x f) \<Longrightarrow> triple readable complete P (give x) Q E C"
  by (rule tripleI) (simp add: give_def)

lemma triple_throw: "(\<And>f. P f \<Longrightarrow> E f) \<Longrightarrow> triple readable False P (throw e) Q E C"
  by (rule tripleI) (simp add: throw_def)

lemma triple_bind:
  fixes a :: "('p, 'c, 'e, 'a) io"
  assumes a: "triple readable complete P a Q' E C" and k: "\<And>x. triple readable complete (Q' x) (k x) Q E C"
  shows "triple readable complete P (bind_io a k) Q E C"
proof (rule tripleI)
  fix w :: "('p, 'c) world"
  assume w: "P (wd_files w)" "readable \<longrightarrow> Unreadable \<notin> set (wd_faults w)"
  from tripleD [OF a w] show "meets complete Q E C (wd_faults w) (bind_io a k w)"
  proof (rule meets_cases)
    fix x w'
    assume x: "a w = (Returns x, w')" "Q' x (wd_files w')" "set (wd_faults w') \<subseteq> set (wd_faults w)"
    then have "meets complete Q E C (wd_faults w') (k x w')" using w(2) by (intro tripleD [OF k]) auto
    then have "meets complete Q E C (wd_faults w) (k x w')" using x(3) by (rule meets_weaken)
    then show ?thesis by (simp add: bind_io_def x(1))
  qed (auto simp: bind_io_def)
qed

lemma triple_seq:
  "triple readable complete P a (\<lambda>_. Q') E C \<Longrightarrow> triple readable complete Q' b Q E C \<Longrightarrow>
   triple readable complete P (seq_io a b) Q E C"
  unfolding seq_io_def by (rule triple_bind)

lemma triple_attempt:
  fixes a :: "('p, 'c, 'e, 'a) io"
  assumes "triple readable complete P a (\<lambda>x. Q (Inr x)) E C" "\<And>e f. E f \<Longrightarrow> Q (Inl e) f"
  shows "triple readable complete' P (attempt a) Q E' C"
proof (rule tripleI)
  fix w :: "('p, 'c) world"
  assume w: "P (wd_files w)" "readable \<longrightarrow> Unreadable \<notin> set (wd_faults w)"
  from tripleD [OF assms(1) w] show "meets complete' Q E' C (wd_faults w) (attempt a w)"
    by (rule meets_cases) (use assms(2) in \<open>auto simp: attempt_def\<close>)
qed

lemma triple_when:
  "(b \<Longrightarrow> triple readable complete P a (\<lambda>_. Q) E C) \<Longrightarrow> (\<And>f. \<not> b \<Longrightarrow> P f \<Longrightarrow> Q f) \<Longrightarrow>
   triple readable complete P (when_io b a) (\<lambda>_. Q) E C"
  by (simp add: when_io_def triple_give)

lemma triple_for:
  assumes "\<And>before x rest. xs = before @ x # rest \<Longrightarrow>
    triple readable complete (I before) (body x) (\<lambda>_. I (before @ [x])) E C"
  shows "triple readable complete (I []) (for_io xs body) (\<lambda>_. I xs) E C"
proof -
  have "xs = ys @ zs \<Longrightarrow> triple readable complete (I ys) (for_io zs body) (\<lambda>_. I xs) E C" for ys zs
  proof (induction zs arbitrary: ys)
    case (Cons z zs)
    have "triple readable complete (I (ys @ [z])) (for_io zs body) (\<lambda>_. I xs) E C" using Cons by simp
    then show ?case using assms [OF Cons.prems] by (simp add: triple_seq)
  qed (simp add: triple_give)
  from this [of "[]" xs] show ?thesis by simp
qed

lemma triple_for_const:
  assumes "\<And>x. x \<in> set xs \<Longrightarrow> triple readable complete P (body x) (\<lambda>_. P) E C"
  shows "triple readable complete P (for_io xs body) (\<lambda>_. P) E C"
  by (rule triple_for [where I = "\<lambda>_. P"]) (simp add: assms)

lemma triple_assume:
  "(q \<Longrightarrow> triple readable complete P a Q E C) \<Longrightarrow> triple readable complete (\<lambda>f. P f \<and> q) a Q E C"
  by (auto simp: triple_def)

lemma triple_map:
  assumes "\<And>x. x \<in> set xs \<Longrightarrow> triple readable complete P (body x) (\<lambda>y f. P f \<and> r x y) E C"
  shows "triple readable complete P (map_io body xs) (\<lambda>ys f. P f \<and> list_all2 r xs ys) E C"
  using assms
proof (induction xs)
  case (Cons x xs)
  show ?case
    unfolding map_io.simps
  proof (rule triple_bind [where Q' = "\<lambda>y f. P f \<and> r x y"])
    show "triple readable complete P (body x) (\<lambda>y f. P f \<and> r x y) E C" using Cons.prems by simp
    fix y
    have rest: "triple readable complete P (map_io body xs) (\<lambda>ys f. P f \<and> list_all2 r xs ys) E C"
      by (rule Cons.IH) (simp add: Cons.prems)
    show "triple readable complete (\<lambda>f. P f \<and> r x y) (bind_io (map_io body xs) (\<lambda>ys. give (y # ys)))
        (\<lambda>ys f. P f \<and> list_all2 r (x # xs) ys) E C"
      by (rule triple_assume, rule triple_bind [OF rest], rule triple_give) simp
  qed
qed (simp add: triple_give)

lemma draw_faults:
  "draw w = (t, w') \<Longrightarrow> wd_files w' = wd_files w \<and> set (wd_faults w') \<subseteq> set (wd_faults w) \<and>
    (t = Works \<or> t \<in> set (wd_faults w) \<and> wd_faults w \<noteq> [])"
  by (auto simp: draw_def split: list.splits)

lemma triple_effect:
  assumes "\<And>f. P f \<Longrightarrow> E f" "\<And>f. P f \<Longrightarrow> C f" "\<And>f f'. P f \<Longrightarrow> g f = Some f' \<Longrightarrow> Q () f'"
    and "\<And>f. complete \<Longrightarrow> P f \<Longrightarrow> g f \<noteq> None"
  shows "triple readable complete P (effect e g) Q E C"
proof (rule tripleI)
  fix w :: "('a, 'b) world"
  assume P: "P (wd_files w)"
  obtain t w' where d: "draw w = (t, w')" by fastforce
  have g: "complete \<Longrightarrow> g (wd_files w) \<noteq> None" using assms(4) P by blast
  show "meets complete Q E C (wd_faults w) (effect e g w)"
    using draw_faults [OF d] d assms(1,2,3) [OF P] g
    by (cases t; cases "g (wd_files w)") (auto simp: effect_def)
qed

lemma triple_put:
  assumes "\<And>f. P f \<Longrightarrow> E f" "\<And>f. P f \<Longrightarrow> C f" "\<And>f. P f \<Longrightarrow> Q () (g f)" "\<And>f c. P f \<Longrightarrow> E (torn c f)"
  shows "triple readable complete P (put_io e g torn) Q E C"
proof (rule tripleI)
  fix w :: "('a, 'b) world"
  assume P: "P (wd_files w)"
  obtain t w' where d: "draw w = (t, w')" by fastforce
  show "meets complete Q E C (wd_faults w) (put_io e g torn w)"
    using draw_faults [OF d] d assms [OF P] by (cases t) (auto simp: put_io_def)
qed

lemma triple_query:
  assumes "\<And>f. P f \<Longrightarrow> E f" "\<And>f. P f \<Longrightarrow> C f" "\<And>f x. P f \<Longrightarrow> g f = Some x \<Longrightarrow> Q x f"
    and "\<And>f. complete \<Longrightarrow> P f \<Longrightarrow> g f \<noteq> None"
  shows "triple readable complete P (query e g) Q E C"
proof (rule tripleI)
  fix w :: "('a, 'b) world"
  assume P: "P (wd_files w)"
  obtain t w' where d: "draw w = (t, w')" by fastforce
  have g: "complete \<Longrightarrow> g (wd_files w) \<noteq> None" using assms(4) P by blast
  show "meets complete Q E C (wd_faults w) (query e g w)"
    using draw_faults [OF d] d assms(1,2,3) [OF P] g
    by (cases t; cases "g (wd_files w)") (auto simp: query_def)
qed

text \<open>Where no call that reads is struck, a read of what is there returns.\<close>

lemma triple_query_readable:
  assumes "\<And>f. P f \<Longrightarrow> C f" "\<And>f. P f \<Longrightarrow> \<exists>x. g f = Some x \<and> Q x f"
  shows "triple True complete P (query e g) Q E C"
proof (rule tripleI)
  fix w :: "('a, 'b) world"
  assume P: "P (wd_files w)" and r: "True \<longrightarrow> Unreadable \<notin> set (wd_faults w)"
  obtain t w' where d: "draw w = (t, w')" by fastforce
  obtain x where "g (wd_files w) = Some x" "Q x (wd_files w)" using assms(2) P by blast
  then show "meets complete Q E C (wd_faults w) (query e g w)"
    using draw_faults [OF d] d assms(1) [OF P] r by (cases t) (auto simp: query_def)
qed

lemma triple_exists:
  assumes "triple readable complete (\<lambda>f. P f \<and> f p \<noteq> None) (k True) Q E C"
    "triple readable complete (\<lambda>f. P f \<and> f p = None) (k False) Q E C"
  shows "triple readable complete P (bind_io (exists_io p) k) Q E C"
proof (rule triple_bind [where Q' = "\<lambda>b f. P f \<and> b = (f p \<noteq> None)"])
  show "triple readable complete P (exists_io p) (\<lambda>b f. P f \<and> b = (f p \<noteq> None)) E C"
    by (rule tripleI) (simp add: exists_io_def)
  fix b
  show "triple readable complete (\<lambda>f. P f \<and> b = (f p \<noteq> None)) (k b) Q E C"
    using assms by (cases b) simp_all
qed

lemma triple_remove:
  assumes "\<And>f. P f \<Longrightarrow> E f" "\<And>f. P f \<Longrightarrow> C f" "\<And>f. P f \<Longrightarrow> Q () (f(p := None))"
  shows "triple readable complete P (remove_file e p) Q E C"
  unfolding remove_file_def by (rule triple_effect) (use assms in auto)

lemma triple_rename:
  assumes "\<And>f. P f \<Longrightarrow> E f" "\<And>f. P f \<Longrightarrow> C f"
    and "\<And>f c. P f \<Longrightarrow> f a = Some c \<Longrightarrow> Q () (f(a := None, b \<mapsto> c))"
    and "\<And>f. complete \<Longrightarrow> P f \<Longrightarrow> f a \<noteq> None"
  shows "triple readable complete P (rename_file e a b) Q E C"
  unfolding rename_file_def by (rule triple_effect) (use assms in \<open>auto split: option.splits\<close>)

lemma triple_fsync:
  assumes "\<And>f. P f \<Longrightarrow> E f" "\<And>f. P f \<Longrightarrow> C f" "\<And>f. P f \<Longrightarrow> Q () f"
  shows "triple readable complete P (fsync e) Q E C"
  unfolding fsync_def by (rule triple_effect) (use assms in auto)

end
