(* ===== verification/Rekey.thy ===== *)
theory Rekey
  imports Crash_IO
begin

text \<open>
  \<^verbatim>\<open>crates/finance-kernel/src/rekey.rs\<close>: the rotation of the vault key, with its database side
  (\<^verbatim>\<open>crates/db-worker/src/rekey.rs\<close>, \<^verbatim>\<open>base_image.rs\<close>) and its caller (\<^verbatim>\<open>vault.rs\<close>), as programs over files
  that may fail or die at every call.

  A path is named by its role: the suffixes of the source are the constructors.  What SQLCipher, serde and the
  cryptographic libraries do to contents are the fields of \<open>rekey_env\<close>; a write of SQLite may leave a rollback
  journal beside the file when it fails.  The moving of committed pages from the log into the database file is
  not a step of the model, nor are the hooks that tests use to stop a rotation.
\<close>

section \<open>Files and parameters\<close>

datatype db_file = Db | New_Db | Old_Db | Image string | Image_New string

datatype suffix = Wal | Shm | Rollback_Journal

datatype path = File db_file | Side db_file suffix | Envelope | New_Envelope | Journal_File | Journal_Tmp | Blob string

definition side_suffixes :: "suffix list" where
  "side_suffixes = [Wal, Shm, Rollback_Journal]"

definition base_image_file :: string where "base_image_file = ''base.db''"
definition pre_rebase_file :: string where "pre_rebase_file = ''pre-rebase.db''"
definition base_image_temp :: string where "base_image_temp = ''base.db.tmp''"
definition link_probe :: string where "link_probe = ''rekey-probe.tmp''"

definition image_files :: "string list" where
  "image_files = [base_image_file, pre_rebase_file]"

datatype journal_state = Preparing | Prepared | Committed

record image_record =
  im_file :: string
  im_new_sha256 :: "string option"

record rename =
  rn_old :: string
  rn_new :: string

record journal =
  j_version :: nat
  j_state :: journal_state
  j_new_db_sha256 :: "string option"
  j_new_envelope_sha256 :: "string option"
  j_renames :: "rename list"
  j_images :: "image_record list"

definition new_names :: "journal \<Rightarrow> string list" where
  "new_names j = map rn_new (j_renames j)"

definition is_old_name :: "journal \<Rightarrow> string \<Rightarrow> bool" where
  "is_old_name j n \<longleftrightarrow> list_ex (\<lambda>r. rn_old r = n) (j_renames j)"

definition is_new_name :: "journal \<Rightarrow> string \<Rightarrow> bool" where
  "is_new_name j n \<longleftrightarrow> list_ex (\<lambda>r. rn_new r = n) (j_renames j)"

datatype rekey_error =
    Rekey_Io | Rekey_Vault string | Insufficient_Disk_Space nat nat | Vault_Unlock_Failed | Persistence string

text \<open>
  What the rotation calls outside its own files: SHA-256 and serde; unwrapping the key of the current envelope
  with the password, and the new envelope (with the reading of the vault's \<^verbatim>\<open>user_version\<close>, which may fail too);
  the state of the worker; \<^verbatim>\<open>sqlcipher_export\<close>, the rows and the update of the attachments, the address of a blob
  under the new key, the checks of the copy and of the images; the recorded digest of a ready base and its update;
  file sizes and free space; a blob to probe hard links with; whether the directories of blobs and of images exist.
\<close>

record 'c rekey_env =
  re_sha256 :: "'c \<Rightarrow> string"
  re_to_json :: "journal \<Rightarrow> 'c"
  re_from_json :: "'c \<Rightarrow> journal option"
  re_empty :: 'c
  re_open_envelope :: "'c \<Rightarrow> (rekey_error, unit) res"
  re_new_envelope :: "(rekey_error, 'c) res"
  re_worker_healthy :: bool
  re_export :: "'c \<Rightarrow> 'c"
  re_storage_ids :: "'c \<Rightarrow> string list"
  re_new_storage_id :: "'c \<Rightarrow> string option"
  re_rewrap :: "rename list \<Rightarrow> 'c \<Rightarrow> 'c option"
  re_copy_ok :: "'c \<Rightarrow> bool"
  re_image_readable :: "'c \<Rightarrow> bool"
  re_image_ok :: "'c \<Rightarrow> bool"
  re_ready_base :: "'c \<Rightarrow> string option"
  re_set_base :: "string option \<Rightarrow> 'c \<Rightarrow> 'c"
  re_sizes :: "(rekey_error, nat \<times> nat \<times> nat) res"
  re_available :: "(rekey_error, nat) res"
  re_link_sample :: "string option"
  re_blobs_dir :: bool
  re_sync_dir :: bool

type_synonym ('c, 'a) rio = "(path, 'c, rekey_error, 'a) io"

definition do_all :: "('c, unit) rio list \<Rightarrow> ('c, unit) rio" where
  "do_all as = for_io as (\<lambda>a. a)"

definition remove_if_present :: "path \<Rightarrow> ('c, unit) rio" where
  "remove_if_present p = remove_file Rekey_Io p"

definition rename_path :: "path \<Rightarrow> path \<Rightarrow> ('c, unit) rio" where
  "rename_path a b = rename_file Rekey_Io a b"

definition sync_to_disk :: "('c, unit) rio" where
  "sync_to_disk = fsync Rekey_Io"

definition sha256_file :: "'c rekey_env \<Rightarrow> path \<Rightarrow> ('c, string) rio" where
  "sha256_file env p = bind_io (read_file Rekey_Io p) (\<lambda>c. give (re_sha256 env c))"

section \<open>The journal\<close>

definition write_journal :: "'c rekey_env \<Rightarrow> journal \<Rightarrow> ('c, unit) rio" where
  "write_journal env j =
     do_all [create_file Rekey_Io Journal_Tmp (re_empty env), write_all Rekey_Io Journal_Tmp (re_to_json env j),
             sync_to_disk, rename_path Journal_Tmp Journal_File, sync_to_disk]"

definition decode_journal :: "'c rekey_env \<Rightarrow> 'c option \<Rightarrow> (unit, journal option) res" where
  "decode_journal env found =
     (case found of
        None \<Rightarrow> Inr None
      | Some c \<Rightarrow>
          (case re_from_json env c of
             Some j \<Rightarrow> if j_version j = 1 then Inr (Some j) else Inl ()
           | None \<Rightarrow> Inl ()))"

definition read_journal :: "'c rekey_env \<Rightarrow> ('c, (unit, journal option) res) rio" where
  "read_journal env =
     bind_io (attempt (query Rekey_Io (\<lambda>f. Some (f Journal_File)))) (\<lambda>r.
       give (case r of Inl _ \<Rightarrow> Inl () | Inr found \<Rightarrow> decode_journal env found))"

definition roll_back :: "journal option \<Rightarrow> ('c, unit) rio" where
  "roll_back j =
     do_all (map remove_if_present
       ([Blob link_probe, File New_Db] @ map (Side New_Db) side_suffixes @ [New_Envelope] @
        concat (map (\<lambda>i. File (Image_New i) # map (Side (Image_New i)) side_suffixes) image_files) @
        (case j of None \<Rightarrow> [] | Some j \<Rightarrow> map Blob (filter (\<lambda>n. \<not> is_old_name j n) (new_names j))) @
        [Journal_Tmp, Journal_File])
     @ [sync_to_disk])"

section \<open>Applying a committed rotation\<close>

definition file_agrees :: "'c rekey_env \<Rightarrow> path \<Rightarrow> path \<Rightarrow> string \<Rightarrow> ('c, bool) rio" where
  "file_agrees env waiting live hash =
     bind_io (exists_io waiting) (\<lambda>there.
       if there then bind_io (sha256_file env waiting) (\<lambda>h. give (h = hash))
       else bind_io (exists_io live) (\<lambda>there.
              if there then bind_io (sha256_file env live) (\<lambda>h. give (h = hash)) else give False))"

definition image_agrees :: "'c rekey_env \<Rightarrow> image_record \<Rightarrow> ('c, bool) rio" where
  "image_agrees env i =
     (case im_new_sha256 i of
        None \<Rightarrow> give True
      | Some h \<Rightarrow> file_agrees env (File (Image_New (im_file i))) (File (Image (im_file i))) h)"

definition committed_files_agree :: "'c rekey_env \<Rightarrow> journal \<Rightarrow> ('c, bool) rio" where
  "committed_files_agree env j =
     (case (j_new_db_sha256 j, j_new_envelope_sha256 j) of
        (Some db_hash, Some envelope_hash) \<Rightarrow>
          bind_io (file_agrees env (File New_Db) (File Db) db_hash) (\<lambda>db_ok.
          bind_io (file_agrees env New_Envelope Envelope envelope_hash) (\<lambda>envelope_ok.
          bind_io (map_io (\<lambda>n. exists_io (Blob n)) (new_names j)) (\<lambda>blobs_ok.
          bind_io (map_io (image_agrees env) (j_images j)) (\<lambda>images_ok.
          give (db_ok \<and> envelope_ok \<and> list_all id blobs_ok \<and> list_all id images_ok)))))
      | _ \<Rightarrow> give False)"

definition swap_db :: "('c, unit) rio" where
  "swap_db =
     bind_io (exists_io (File New_Db)) (\<lambda>there.
       when_io there
         (seq_io (bind_io (exists_io (File Db)) (\<lambda>old. when_io old (rename_path (File Db) (File Old_Db))))
            (seq_io (rename_path (File New_Db) (File Db)) sync_to_disk)))"

definition swap_envelope :: "('c, unit) rio" where
  "swap_envelope =
     bind_io (exists_io New_Envelope) (\<lambda>there.
       when_io there (seq_io (rename_path New_Envelope Envelope) sync_to_disk))"

definition swap_image :: "image_record \<Rightarrow> ('c, unit) rio" where
  "swap_image i =
     (let live = Image (im_file i); waiting = Image_New (im_file i);
          remove_sides = for_io side_suffixes (\<lambda>s. remove_if_present (Side live s)) in
      case im_new_sha256 i of
        Some _ \<Rightarrow>
          bind_io (exists_io (File waiting)) (\<lambda>there.
            when_io there (seq_io remove_sides (seq_io (rename_path (File waiting) (File live)) sync_to_disk)))
      | None \<Rightarrow> seq_io (remove_if_present (File live)) remove_sides)"

definition apply_committed :: "'c rekey_env \<Rightarrow> journal \<Rightarrow> ('c, unit) rio" where
  "apply_committed env j =
     do_all
       [remove_if_present (Side Db Wal), remove_if_present (Side Db Shm),
        swap_db,
        swap_envelope,
        for_io (j_images j) swap_image, when_io (re_sync_dir env) sync_to_disk,
        for_io (j_renames j) (\<lambda>r. when_io (\<not> is_new_name j (rn_old r)) (remove_if_present (Blob (rn_old r)))),
        when_io (re_blobs_dir env) sync_to_disk,
        remove_if_present (File Old_Db),
        remove_if_present Journal_Tmp, remove_if_present Journal_File, sync_to_disk]"

section \<open>Recovery\<close>

datatype rekey_recovery = Clean | Rolled_Back | Rolled_Forward | Contradiction | Deferred

definition stray_paths :: "path list" where
  "stray_paths =
     [File New_Db, New_Envelope, Journal_Tmp, Blob link_probe] @ map (Side New_Db) side_suffixes @
     map (\<lambda>i. File (Image_New i)) image_files"

definition recovered :: "rekey_recovery \<Rightarrow> ('c, unit) rio \<Rightarrow> ('c, rekey_recovery) rio" where
  "recovered verdict a = bind_io (attempt a) (\<lambda>r. give (case r of Inr _ \<Rightarrow> verdict | Inl _ \<Rightarrow> Contradiction))"

definition complete_rotation :: "'c rekey_env \<Rightarrow> journal \<Rightarrow> ('c, rekey_recovery) rio" where
  "complete_rotation env j =
     bind_io (attempt (committed_files_agree env j)) (\<lambda>agree.
       if agree = Inr True then recovered Rolled_Forward (apply_committed env j) else give Contradiction)"

definition recover_interrupted_rekey :: "'c rekey_env \<Rightarrow> ('c, rekey_recovery) rio" where
  "recover_interrupted_rekey env =
     bind_io (read_journal env) (\<lambda>found.
       case found of
         Inl _ \<Rightarrow> give Contradiction
       | Inr None \<Rightarrow>
           bind_io (map_io exists_io stray_paths) (\<lambda>there.
             if list_ex id there then recovered Rolled_Back (roll_back None) else give Clean)
       | Inr (Some j) \<Rightarrow>
           (case j_state j of
              Preparing \<Rightarrow> recovered Rolled_Back (roll_back (Some j))
            | Prepared \<Rightarrow> recovered Rolled_Back (roll_back (Some j))
            | Committed \<Rightarrow> complete_rotation env j))"

datatype lease = Acquired | Vault_In_Use | Not_Taken

definition recover_under_lease :: "'c rekey_env \<Rightarrow> lease \<Rightarrow> ('c, rekey_recovery) rio" where
  "recover_under_lease env l =
     (case l of
        Vault_In_Use \<Rightarrow> give Deferred
      | Acquired \<Rightarrow> recover_interrupted_rekey env
      | Not_Taken \<Rightarrow> recover_interrupted_rekey env)"

datatype vault_class = No_Vault | Locked | Corrupt_Needs_Recovery

definition classify_files :: "('c, vault_class) rio" where
  "classify_files =
     bind_io (exists_io (File Db)) (\<lambda>db.
     bind_io (exists_io Envelope) (\<lambda>sidecar.
       give (if \<not> db \<and> \<not> sidecar then No_Vault else if db \<and> sidecar then Locked else Corrupt_Needs_Recovery)))"

definition classify_vault :: "('c, vault_class) rio" where
  "classify_vault =
     bind_io (exists_io Journal_File) (\<lambda>journal.
       if journal then give Corrupt_Needs_Recovery else classify_files)"

section \<open>Preparing\<close>

definition copy_file :: "path \<Rightarrow> path \<Rightarrow> ('c, unit) rio" where
  "copy_file a b = bind_io (read_file Rekey_Io a) (\<lambda>c. write_all Rekey_Io b c)"

definition link_or_copy :: "path \<Rightarrow> path \<Rightarrow> ('c, unit) rio" where
  "link_or_copy a b =
     bind_io (hard_link a b) (\<lambda>r.
       case r of
         Linked \<Rightarrow> give ()
       | Already_There \<Rightarrow> throw (Rekey_Vault ''rekey blob link target already exists'')
       | Not_Linked \<Rightarrow> seq_io (copy_file a b) sync_to_disk)"

definition hard_links_supported :: "'c rekey_env \<Rightarrow> ('c, bool) rio" where
  "hard_links_supported env =
     (case re_link_sample env of
        None \<Rightarrow> give True
      | Some sample \<Rightarrow>
          bind_io (attempt (remove_if_present (Blob link_probe))) (\<lambda>_.
          bind_io (hard_link (Blob sample) (Blob link_probe)) (\<lambda>r.
          bind_io (attempt (remove_if_present (Blob link_probe))) (\<lambda>_.
          give (r = Linked)))))"

definition min_margin :: nat where "min_margin = 64 * 1024 * 1024"

definition sat_add_u64 :: "nat \<Rightarrow> nat \<Rightarrow> nat" where
  "sat_add_u64 a b = min (a + b) 18446744073709551615"

definition required_space :: "nat \<Rightarrow> nat \<Rightarrow> bool \<Rightarrow> nat" where
  "required_space db_size blobs_size links =
     (let margin = max min_margin (db_size div 10); blobs = (if links then 0 else blobs_size)
      in sat_add_u64 (sat_add_u64 db_size margin) blobs)"

definition check_space :: "nat \<Rightarrow> nat \<Rightarrow> ('c, unit) rio" where
  "check_space needed available =
     (if available < needed then throw (Insufficient_Disk_Space needed available) else give ())"

definition check_disk :: "'c rekey_env \<Rightarrow> ('c, unit) rio" where
  "check_disk env =
     (case re_sizes env of
        Inl e \<Rightarrow> throw e
      | Inr (database, images, blobs) \<Rightarrow>
          bind_io (hard_links_supported env) (\<lambda>links.
            case re_available env of
              Inl e \<Rightarrow> throw e
            | Inr available \<Rightarrow> check_space (required_space (sat_add_u64 database images) blobs links) available))"

definition assert_no_side_files :: "db_file \<Rightarrow> ('c, unit) rio" where
  "assert_no_side_files d =
     bind_io (map_io (\<lambda>s. exists_io (Side d s)) side_suffixes) (\<lambda>there.
       if list_ex id there then throw (Persistence ''side file'') else give ())"

definition sqlite_write :: "db_file \<Rightarrow> 'c \<Rightarrow> ('c, unit) rio" where
  "sqlite_write d c =
     put_io Rekey_Io (\<lambda>f. f(File d \<mapsto> c)) (\<lambda>c f. f(File d \<mapsto> c, Side d Rollback_Journal \<mapsto> c))"

definition rename_blob :: "'c rekey_env \<Rightarrow> string \<Rightarrow> ('c, rename) rio" where
  "rename_blob env old =
     bind_io (read_file Rekey_Io (Blob old)) (\<lambda>blob.
       case re_new_storage_id env blob of
         None \<Rightarrow> throw (Persistence ''attachment'')
       | Some n \<Rightarrow> give \<lparr>rn_old = old, rn_new = n\<rparr>)"

definition rewrap_attachments :: "'c rekey_env \<Rightarrow> ('c, rename list) rio" where
  "rewrap_attachments env =
     bind_io (read_file Rekey_Io (File New_Db)) (\<lambda>copy.
     bind_io (map_io (rename_blob env) (re_storage_ids env copy)) (\<lambda>renames.
       case re_rewrap env renames copy of
         None \<Rightarrow> throw (Persistence ''rewrap'')
       | Some copy \<Rightarrow> seq_io (sqlite_write New_Db copy) (give renames)))"

definition prepare_rekeyed_copy :: "'c rekey_env \<Rightarrow> ('c, rename list) rio" where
  "prepare_rekeyed_copy env =
     seq_io (create_new Rekey_Io (File New_Db) (re_empty env))
       (if \<not> re_worker_healthy env then throw (Persistence ''worker'')
        else bind_io (read_file Rekey_Io (File Db)) (\<lambda>db.
             seq_io (sqlite_write New_Db (re_export env db))
               (bind_io (rewrap_attachments env) (\<lambda>renames.
                  seq_io (assert_no_side_files New_Db) (give renames)))))"

definition export_image :: "'c rekey_env \<Rightarrow> string \<Rightarrow> 'c \<Rightarrow> ('c, unit) rio" where
  "export_image env i live =
     seq_io (create_new Rekey_Io (File (Image_New i)) (re_empty env))
       (seq_io (sqlite_write (Image_New i) (re_export env live))
          (bind_io (read_file Rekey_Io (File (Image_New i))) (\<lambda>copy.
             if \<not> re_image_ok env copy then throw (Persistence ''image'')
             else seq_io (assert_no_side_files (Image_New i)) sync_to_disk)))"

definition rekey_image :: "'c rekey_env \<Rightarrow> string \<Rightarrow> ('c, image_record option) rio" where
  "rekey_image env i =
     bind_io (exists_io (File (Image i))) (\<lambda>live.
       if \<not> live then give None
       else bind_io (exists_io (File (Image_New i))) (\<lambda>there.
         if there then throw (Persistence ''an image rekey copy already exists'')
         else bind_io (attempt (read_file Rekey_Io (File (Image i)))) (\<lambda>r.
           case r of
             Inl _ \<Rightarrow> give (Some \<lparr>im_file = i, im_new_sha256 = None\<rparr>)
           | Inr c \<Rightarrow>
               if re_image_readable env c then
                 seq_io (export_image env i c)
                   (bind_io (sha256_file env (File (Image_New i))) (\<lambda>h.
                      give (Some \<lparr>im_file = i, im_new_sha256 = Some h\<rparr>)))
               else give (Some \<lparr>im_file = i, im_new_sha256 = None\<rparr>))))"

definition base_ready :: "'c rekey_env \<Rightarrow> string option \<Rightarrow> ('c, bool) rio" where
  "base_ready env recorded =
     (case recorded of
        None \<Rightarrow> give False
      | Some digest \<Rightarrow>
          bind_io (attempt (sha256_file env (File (Image base_image_file)))) (\<lambda>r. give (r = Inr digest)))"

definition record_base :: "'c rekey_env \<Rightarrow> string option \<Rightarrow> image_record list \<Rightarrow> ('c, unit) rio" where
  "record_base env recorded images =
     (case find (\<lambda>i. im_file i = base_image_file) images of
        None \<Rightarrow> give ()
      | Some base \<Rightarrow>
          bind_io (base_ready env recorded) (\<lambda>ready.
            when_io ready
              (bind_io (read_file Rekey_Io (File New_Db)) (\<lambda>copy.
                 seq_io (sqlite_write New_Db (re_set_base env (im_new_sha256 base) copy))
                   (assert_no_side_files New_Db)))))"

definition prepare_rekeyed_images :: "'c rekey_env \<Rightarrow> ('c, image_record list) rio" where
  "prepare_rekeyed_images env =
     seq_io (for_io (File (Image base_image_temp) # map (Side (Image base_image_temp)) side_suffixes) remove_if_present)
       (bind_io (read_file Rekey_Io (File Db)) (\<lambda>db.
        bind_io (map_io (rekey_image env) image_files) (\<lambda>found.
        let images = List.map_filter id found in
        seq_io (record_base env (re_ready_base env db) images) (give images))))"

definition verify_rekeyed_copy :: "'c rekey_env \<Rightarrow> ('c, unit) rio" where
  "verify_rekeyed_copy env =
     bind_io (read_file Rekey_Io (File New_Db)) (\<lambda>copy.
       if \<not> re_copy_ok env copy then throw (Persistence ''rekeyed copy'')
       else bind_io (map_io (\<lambda>n. exists_io (Blob n)) (re_storage_ids env copy)) (\<lambda>there.
         if \<not> list_all id there then throw (Persistence ''rekeyed copy names a missing blob'')
         else assert_no_side_files New_Db))"

definition commit_journal :: "'c rekey_env \<Rightarrow> journal \<Rightarrow> ('c, unit) rio" where
  "commit_journal env j =
     bind_io (attempt (write_journal env j)) (\<lambda>r.
       case r of
         Inr _ \<Rightarrow> give ()
       | Inl e \<Rightarrow>
           bind_io (read_journal env) (\<lambda>found.
             case found of
               Inr (Some k) \<Rightarrow> if j_state k = Committed then give () else throw e
             | _ \<Rightarrow> throw e))"

definition write_envelope :: "'c rekey_env \<Rightarrow> 'c \<Rightarrow> ('c, unit) rio" where
  "write_envelope env envelope =
     do_all [create_new Rekey_Io New_Envelope (re_empty env), write_all Rekey_Io New_Envelope envelope, sync_to_disk]"

definition prepare_inner :: "'c rekey_env \<Rightarrow> ('c, unit) rio" where
  "prepare_inner env =
     (case re_new_envelope env of
        Inl e \<Rightarrow> throw e
      | Inr envelope \<Rightarrow>
          bind_io (prepare_rekeyed_copy env) (\<lambda>renames.
          bind_io (prepare_rekeyed_images env) (\<lambda>images.
          let j = \<lparr>j_version = 1, j_state = Preparing, j_new_db_sha256 = None, j_new_envelope_sha256 = None,
                   j_renames = renames, j_images = images\<rparr> in
          seq_io (write_journal env j)
          (seq_io (for_io renames (\<lambda>r. link_or_copy (Blob (rn_old r)) (Blob (rn_new r))))
          (seq_io (when_io (re_blobs_dir env) sync_to_disk)
          (seq_io (write_envelope env envelope)
          (seq_io (verify_rekeyed_copy env)
          (seq_io sync_to_disk
          (seq_io sync_to_disk
          (bind_io (sha256_file env (File New_Db)) (\<lambda>db_hash.
          (bind_io (sha256_file env New_Envelope) (\<lambda>envelope_hash.
          let j = j\<lparr>j_state := Prepared, j_new_db_sha256 := Some db_hash,
                   j_new_envelope_sha256 := Some envelope_hash\<rparr> in
          seq_io (write_journal env j) (commit_journal env (j\<lparr>j_state := Committed\<rparr>)))))))))))))))"

definition prepare_and_commit :: "'c rekey_env \<Rightarrow> ('c, unit) rio" where
  "prepare_and_commit env =
     bind_io (read_file Rekey_Io Envelope) (\<lambda>current.
     case re_open_envelope env current of
       Inl e \<Rightarrow> throw e
     | Inr _ \<Rightarrow>
         bind_io (map_io exists_io [Journal_File, File New_Db, New_Envelope]) (\<lambda>left_over.
         if list_ex id left_over then throw (Rekey_Vault ''a previous key rotation was not cleaned up'')
         else
           seq_io (check_disk env)
             (bind_io (attempt (prepare_inner env)) (\<lambda>r.
                case r of
                  Inr _ \<Rightarrow> give ()
                | Inl e \<Rightarrow>
                    bind_io (read_journal env) (\<lambda>found.
                    bind_io (attempt (roll_back (case found of Inr j \<Rightarrow> j | Inl _ \<Rightarrow> None))) (\<lambda>_.
                    throw e))))))"

definition finish_rotation :: "'c rekey_env \<Rightarrow> ('c, unit) rio" where
  "finish_rotation env =
     bind_io (read_journal env) (\<lambda>found.
       case found of
         Inr (Some j) \<Rightarrow>
           if j_state j = Committed then
             bind_io (committed_files_agree env j) (\<lambda>agree.
               if agree then apply_committed env j
               else throw (Rekey_Vault ''key rotation files do not match the journal''))
           else throw (Rekey_Vault ''key rotation journal is not committed'')
       | _ \<Rightarrow> throw (Rekey_Vault ''key rotation journal is not committed''))"

definition rotate_key :: "'c rekey_env \<Rightarrow> ('c, unit) rio" where
  "rotate_key env =
     seq_io (prepare_and_commit env)
       (bind_io (attempt (finish_rotation env)) (\<lambda>r.
          case r of
            Inr _ \<Rightarrow> give ()
          | Inl e \<Rightarrow> bind_io (recover_interrupted_rekey env) (\<lambda>_. throw e)))"

end
