(* ===== verification/Rekey_Apply.thy ===== *)
theory Rekey_Apply
  imports Rekey
begin

text \<open>
  Rolling back and rolling forward.

  The files of a rotation that has not committed differ from the vault before it only in scratch files and in new
  names of blobs that the journal lists (\<open>undone\<close>); those of a committed one are, file by file, already moved or
  ready to be moved (\<open>committed\<close>).  Every step of a roll-back keeps the first, every step of applying keeps the
  second, and the last one reaches the vault that the rotation planned (\<open>new_vault\<close>).
\<close>

section \<open>Vaults before and after\<close>

text \<open>The files that a rotation makes and that rolling back removes.\<close>

fun scratch :: "path \<Rightarrow> bool" where
  "scratch (File New_Db) = True"
| "scratch (File (Image_New i)) = (i \<in> set image_files)"
| "scratch (Side New_Db s) = True"
| "scratch (Side (Image_New i) s) = (i \<in> set image_files)"
| "scratch New_Envelope = True"
| "scratch Journal_File = True"
| "scratch Journal_Tmp = True"
| "scratch (Blob n) = (n = link_probe)"
| "scratch _ = False"

record 'c target =
  tg_db :: 'c
  tg_envelope :: 'c
  tg_images :: "string \<Rightarrow> 'c option"
  tg_journal :: journal

definition image_names :: "journal \<Rightarrow> string set" where
  "image_names j = im_file ` set (j_images j)"

text \<open>The vault that a committed rotation of \<open>before\<close> becomes.\<close>

fun new_vault :: "(path \<rightharpoonup> 'c) \<Rightarrow> 'c target \<Rightarrow> path \<rightharpoonup> 'c" where
  "new_vault before t (File Db) = Some (tg_db t)"
| "new_vault before t (Side Db s) = (if s = Rollback_Journal then before (Side Db s) else None)"
| "new_vault before t Envelope = Some (tg_envelope t)"
| "new_vault before t (File (Image i)) =
     (if i \<in> image_names (tg_journal t) then tg_images t i else before (File (Image i)))"
| "new_vault before t (Side (Image i) s) =
     (if i \<in> image_names (tg_journal t) then None else before (Side (Image i) s))"
| "new_vault before t (Blob n) =
     (case find (\<lambda>r. rn_new r = n) (j_renames (tg_journal t)) of
        Some r \<Rightarrow> before (Blob (rn_old r))
      | None \<Rightarrow> if is_old_name (tg_journal t) n then None else before (Blob n))"
| "new_vault before t p = before p"

definition live_as :: "(path \<rightharpoonup> 'c) \<Rightarrow> (path \<rightharpoonup> 'c) \<Rightarrow> bool" where
  "live_as v f \<longleftrightarrow> f Journal_File = None \<and> (\<forall>p. \<not> scratch p \<longrightarrow> f p = v p)"

definition renames_ok :: "(path \<rightharpoonup> 'c) \<Rightarrow> journal \<Rightarrow> bool" where
  "renames_ok before j \<longleftrightarrow>
     distinct (map rn_new (j_renames j)) \<and>
     (\<forall>r\<in>set (j_renames j). before (Blob (rn_new r)) = None \<and> rn_new r \<noteq> link_probe \<and>
        before (Blob (rn_old r)) \<noteq> None \<and> rn_old r \<noteq> link_probe)"

definition undone_by :: "'c rekey_env \<Rightarrow> (path \<rightharpoonup> 'c) \<Rightarrow> journal \<Rightarrow> (path \<rightharpoonup> 'c) \<Rightarrow> bool" where
  "undone_by env before j f \<longleftrightarrow>
     f Journal_File = Some (re_to_json env j) \<and>
     (\<forall>p. \<not> scratch p \<longrightarrow> p \<notin> Blob ` rn_new ` set (j_renames j) \<longrightarrow> f p = before p)"

definition undone :: "'c rekey_env \<Rightarrow> (path \<rightharpoonup> 'c) \<Rightarrow> (path \<rightharpoonup> 'c) \<Rightarrow> bool" where
  "undone env before f \<longleftrightarrow> live_as before f \<or>
     (\<exists>j. j_version j = 1 \<and> j_state j \<noteq> Committed \<and> renames_ok before j \<and> undone_by env before j f)"

fun touched :: "journal \<Rightarrow> path \<Rightarrow> bool" where
  "touched j (File (Image i)) = (i \<in> image_names j)"
| "touched j (File (Image_New i)) = (i \<in> image_names j)"
| "touched j (File _) = True"
| "touched j (Side Db s) = (s \<noteq> Rollback_Journal)"
| "touched j (Side (Image i) s) = (i \<in> image_names j)"
| "touched j (Side _ s) = False"
| "touched j (Blob n) = (n = link_probe \<or> n \<in> rn_new ` set (j_renames j) \<union> rn_old ` set (j_renames j))"
| "touched j _ = True"

definition moved_or_ready :: "(path \<rightharpoonup> 'c) \<Rightarrow> path \<Rightarrow> path \<Rightarrow> 'c option \<Rightarrow> bool" where
  "moved_or_ready f waiting live c \<longleftrightarrow> c \<noteq> None \<and> (f waiting = c \<or> f waiting = None \<and> f live = c)"

definition image_state :: "'c target \<Rightarrow> (path \<rightharpoonup> 'c) \<Rightarrow> image_record \<Rightarrow> bool" where
  "image_state t f i \<longleftrightarrow> im_new_sha256 i \<noteq> None \<longrightarrow>
     moved_or_ready f (File (Image_New (im_file i))) (File (Image (im_file i))) (tg_images t (im_file i)) \<and>
     (f (File (Image_New (im_file i))) = None \<longrightarrow> (\<forall>s. f (Side (Image (im_file i)) s) = None))"

definition committed :: "'c rekey_env \<Rightarrow> (path \<rightharpoonup> 'c) \<Rightarrow> 'c target \<Rightarrow> (path \<rightharpoonup> 'c) \<Rightarrow> bool" where
  "committed env before t f \<longleftrightarrow>
     f Journal_File = Some (re_to_json env (tg_journal t)) \<and>
     moved_or_ready f (File New_Db) (File Db) (Some (tg_db t)) \<and>
     moved_or_ready f New_Envelope Envelope (Some (tg_envelope t)) \<and>
     (\<forall>i\<in>set (j_images (tg_journal t)). image_state t f i) \<and>
     (\<forall>r\<in>set (j_renames (tg_journal t)). f (Blob (rn_new r)) = before (Blob (rn_old r))) \<and>
     (\<forall>p. \<not> touched (tg_journal t) p \<longrightarrow> f p = before p)"

definition image_ok :: "'c rekey_env \<Rightarrow> 'c target \<Rightarrow> image_record \<Rightarrow> bool" where
  "image_ok env t i \<longleftrightarrow> im_file i \<in> set image_files \<and> im_new_sha256 i = map_option (re_sha256 env) (tg_images t (im_file i))"

definition target_ok :: "'c rekey_env \<Rightarrow> (path \<rightharpoonup> 'c) \<Rightarrow> 'c target \<Rightarrow> bool" where
  "target_ok env before t \<longleftrightarrow>
     j_version (tg_journal t) = 1 \<and> j_state (tg_journal t) = Committed \<and>
     j_new_db_sha256 (tg_journal t) = Some (re_sha256 env (tg_db t)) \<and>
     j_new_envelope_sha256 (tg_journal t) = Some (re_sha256 env (tg_envelope t)) \<and>
     renames_ok before (tg_journal t) \<and> distinct (map im_file (j_images (tg_journal t))) \<and>
     (\<forall>i\<in>set (j_images (tg_journal t)). image_ok env t i)"

text \<open>The vault before: nothing of an earlier rotation or capture is left.\<close>

definition clean :: "(path \<rightharpoonup> 'c) \<Rightarrow> bool" where
  "clean before \<longleftrightarrow>
     (\<forall>p. scratch p \<longrightarrow> before p = None) \<and> before (File Old_Db) = None \<and>
     before (File (Image base_image_temp)) = None \<and> (\<forall>s. before (Side (Image base_image_temp) s) = None)"

definition json_ok :: "'c rekey_env \<Rightarrow> bool" where
  "json_ok env \<longleftrightarrow> (\<forall>j. re_from_json env (re_to_json env j) = Some j)"

section \<open>Sequences of steps\<close>

lemma do_all_simps [simp]: "do_all [] = give ()" "do_all (a # as) = seq_io a (do_all as)"
  by (simp_all add: do_all_def)

lemma triple_quiet:
  assumes "triple False True P a Q E C" "P (wd_files w)" "wd_faults w = []"
  obtains x w' where "a w = (Returns x, w')" "Q x (wd_files w')" "wd_faults w' = []"
  using tripleD [OF assms(1,2)] assms(3) by (auto elim: meets_cases)

lemma when_io_True: "when_io True a = a" and when_io_False: "when_io False a = give ()"
  by (simp_all add: when_io_def)

lemma triple_last: "triple readable complete P a Q E C \<Longrightarrow> (\<And>f. Q () f \<Longrightarrow> Q' () f) \<Longrightarrow>
    triple readable complete P (seq_io a (give ())) Q' E C"
  by (rule triple_seq [where Q' = "Q ()"]) (auto intro: triple_weaken triple_give)

lemma side_suffixes_all [simp]: "set side_suffixes = UNIV"
proof -
  have "s \<in> set side_suffixes" for s by (cases s) (simp_all add: side_suffixes_def)
  then show ?thesis by auto
qed

lemma not_both: "base_image_file \<noteq> pre_rebase_file"
  by (simp add: base_image_file_def pre_rebase_file_def)

section \<open>Rolling back\<close>

definition rolled_paths :: "journal option \<Rightarrow> path list" where
  "rolled_paths j =
     [Blob link_probe, File New_Db] @ map (Side New_Db) side_suffixes @ [New_Envelope] @
     concat (map (\<lambda>i. File (Image_New i) # map (Side (Image_New i)) side_suffixes) image_files) @
     (case j of None \<Rightarrow> [] | Some j \<Rightarrow> map Blob (filter (\<lambda>n. \<not> is_old_name j n) (new_names j))) @ [Journal_Tmp]"

lemma for_io_map: "for_io (map g xs) body = for_io xs (\<lambda>x. body (g x))"
  by (induction xs) simp_all

lemma for_io_append: "for_io (xs @ ys) body = seq_io (for_io xs body) (for_io ys body)"
proof (induction xs)
  case (Cons x xs)
  then show ?case by (auto simp: fun_eq_iff seq_io_def bind_io_def split: prod.splits outcome.splits)
qed (simp add: fun_eq_iff seq_io_def bind_io_def give_def)

lemma roll_back_eq:
  "roll_back j = seq_io (for_io (rolled_paths j) remove_if_present)
     (seq_io (remove_if_present Journal_File) (seq_io sync_to_disk (give ())))"
proof -
  have "roll_back j = for_io (map remove_if_present (rolled_paths j @ [Journal_File]) @ [sync_to_disk]) (\<lambda>a. a)"
    unfolding roll_back_def do_all_def rolled_paths_def by simp
  then show ?thesis
    by (simp add: for_io_append for_io_map fun_eq_iff seq_io_def bind_io_def split: prod.splits outcome.splits)
qed

lemma scratch_rolled: "scratch p \<Longrightarrow> p \<noteq> Journal_File \<Longrightarrow> p \<in> set (rolled_paths j)"
  by (cases p rule: scratch.cases) (auto simp: rolled_paths_def)

lemma rolled_scratch: "p \<in> set (rolled_paths None) \<Longrightarrow> scratch p \<and> p \<noteq> Journal_File"
  by (auto simp: rolled_paths_def)

lemma rolled_journal:
  "p \<in> set (rolled_paths (Some j)) \<Longrightarrow> p \<noteq> Journal_File \<and> (scratch p \<or> p \<in> Blob ` rn_new ` set (j_renames j))"
  by (auto simp: rolled_paths_def new_names_def)

lemma remove_triple:
  "(\<And>f. P f \<Longrightarrow> E f) \<Longrightarrow> (\<And>f. P f \<Longrightarrow> C f) \<Longrightarrow> (\<And>f. P f \<Longrightarrow> Q (f(p := None))) \<Longrightarrow>
   triple readable complete P (remove_if_present p) (\<lambda>_. Q) E C"
  unfolding remove_if_present_def by (rule triple_remove) auto

lemma sync_triple: "(\<And>f. P f \<Longrightarrow> E f) \<Longrightarrow> (\<And>f. P f \<Longrightarrow> C f) \<Longrightarrow> triple readable complete P sync_to_disk (\<lambda>_. P) E C"
  unfolding sync_to_disk_def by (rule triple_fsync) auto

lemma remove_all_triple:
  assumes "\<And>f p. P f \<Longrightarrow> p \<in> set ps \<Longrightarrow> P (f(p := None))" "\<And>f. P f \<Longrightarrow> E f" "\<And>f. P f \<Longrightarrow> C f"
  shows "triple readable complete P (for_io ps remove_if_present) (\<lambda>_ f. P f \<and> (\<forall>p\<in>set ps. f p = None)) E C"
  by (rule triple_weaken [OF triple_for [where I = "\<lambda>before f. P f \<and> (\<forall>p\<in>set before. f p = None)" and xs = ps]])
    (rule remove_triple, use assms in auto)

lemma roll_back_triple:
  assumes keep: "\<And>f p. P f \<Longrightarrow> p \<in> set (rolled_paths j) \<Longrightarrow> P (f(p := None))" and safe: "\<And>f. P f \<Longrightarrow> bad f"
    and last: "\<And>f. P f \<Longrightarrow> \<forall>p\<in>set (rolled_paths j). f p = None \<Longrightarrow> live_as before (f(Journal_File := None))"
    and over: "\<And>f. live_as before f \<Longrightarrow> bad f"
  shows "triple readable complete P (roll_back j)
    (\<lambda>_ f. live_as before f \<and> (\<forall>p. scratch p \<longrightarrow> f p = None)) bad bad"
  unfolding roll_back_eq
proof (rule triple_seq)
  show "triple readable complete P (for_io (rolled_paths j) remove_if_present)
      (\<lambda>_ f. P f \<and> (\<forall>p\<in>set (rolled_paths j). f p = None)) bad bad"
    by (rule remove_all_triple) (auto simp: keep safe)
  show "triple readable complete (\<lambda>f. P f \<and> (\<forall>p\<in>set (rolled_paths j). f p = None))
      (seq_io (remove_if_present Journal_File) (seq_io sync_to_disk (give ())))
      (\<lambda>_ f. live_as before f \<and> (\<forall>p. scratch p \<longrightarrow> f p = None)) bad bad"
  proof (rule triple_seq)
    show "triple readable complete (\<lambda>f. P f \<and> (\<forall>p\<in>set (rolled_paths j). f p = None)) (remove_if_present Journal_File)
        (\<lambda>_ f. live_as before f \<and> (\<forall>p. scratch p \<longrightarrow> f p = None)) bad bad"
      by (rule remove_triple) (use scratch_rolled in \<open>auto simp: safe last\<close>)
    show "triple readable complete (\<lambda>f. live_as before f \<and> (\<forall>p. scratch p \<longrightarrow> f p = None)) (seq_io sync_to_disk (give ()))
        (\<lambda>_ f. live_as before f \<and> (\<forall>p. scratch p \<longrightarrow> f p = None)) bad bad"
      by (rule triple_seq, rule sync_triple) (auto intro: triple_give over)
  qed
qed

lemma roll_back_stray:
  "triple readable complete (live_as before) (roll_back None)
    (\<lambda>_ f. live_as before f \<and> (\<forall>p. scratch p \<longrightarrow> f p = None)) (live_as before) (live_as before)"
  by (rule roll_back_triple) (use rolled_scratch in \<open>auto simp: live_as_def\<close>)

lemma roll_back_journal:
  assumes j: "j_version j = 1" "j_state j \<noteq> Committed" "renames_ok before j"
  shows "triple readable complete (undone_by env before j) (roll_back (Some j))
    (\<lambda>_ f. live_as before f \<and> (\<forall>p. scratch p \<longrightarrow> f p = None)) (undone env before) (undone env before)"
proof (rule roll_back_triple)
  fix f
  assume f: "undone_by env before j f"
  then show "undone env before f" using j by (auto simp: undone_def)
  have fresh: "\<not> is_old_name j (rn_new r)" if "r \<in> set (j_renames j)" for r
    using j(3) that unfolding renames_ok_def is_old_name_def list_ex_iff by metis
  show "undone_by env before j (f(p := None))" if "p \<in> set (rolled_paths (Some j))" for p
    using f rolled_journal [OF that] by (auto simp: undone_by_def)
  assume gone: "\<forall>p\<in>set (rolled_paths (Some j)). f p = None"
  have "f (Blob (rn_new r)) = before (Blob (rn_new r))" if "r \<in> set (j_renames j)" for r
  proof -
    have "Blob (rn_new r) \<in> set (rolled_paths (Some j))" using that fresh by (simp add: rolled_paths_def new_names_def)
    then show ?thesis using gone j(3) that by (auto simp: renames_ok_def)
  qed
  then show "live_as before (f(Journal_File := None))" using f by (auto simp: live_as_def undone_by_def)
qed (simp add: undone_def)

section \<open>Rolling forward\<close>

lemma committed_remove:
  assumes "committed env before t f" "touched (tg_journal t) p" "p \<noteq> Journal_File" "p \<noteq> File New_Db"
    "p \<noteq> New_Envelope" "p \<noteq> Envelope" "p \<noteq> File Db" "p \<notin> Blob ` rn_new ` set (j_renames (tg_journal t))"
    and "\<And>i. i \<in> set (j_images (tg_journal t)) \<Longrightarrow> im_new_sha256 i \<noteq> None \<Longrightarrow>
      p \<noteq> File (Image_New (im_file i)) \<and> p \<noteq> File (Image (im_file i))"
  shows "committed env before t (f(p := None))"
  using assms unfolding committed_def moved_or_ready_def image_state_def by auto

definition gone :: "path set \<Rightarrow> (path \<rightharpoonup> 'c) \<Rightarrow> bool" where
  "gone ps f \<longleftrightarrow> (\<forall>p\<in>ps. f p = None)"

abbreviation applying :: "'c rekey_env \<Rightarrow> (path \<rightharpoonup> 'c) \<Rightarrow> 'c target \<Rightarrow> path set \<Rightarrow> (path \<rightharpoonup> 'c) \<Rightarrow> bool" where
  "applying env before t ps f \<equiv> committed env before t f \<and> gone ps f"

lemma applying_remove:
  assumes "touched (tg_journal t) p" "p \<noteq> Journal_File" "p \<noteq> File New_Db" "p \<noteq> New_Envelope" "p \<noteq> Envelope"
    "p \<noteq> File Db" "p \<notin> Blob ` rn_new ` set (j_renames (tg_journal t))"
    and "\<And>i. i \<in> set (j_images (tg_journal t)) \<Longrightarrow> im_new_sha256 i \<noteq> None \<Longrightarrow>
      p \<noteq> File (Image_New (im_file i)) \<and> p \<noteq> File (Image (im_file i))"
  shows "triple readable complete (applying env before t ps) (remove_if_present p)
    (\<lambda>_. applying env before t (insert p ps)) (committed env before t) (committed env before t)"
proof (rule remove_triple)
  fix f
  assume f: "applying env before t ps f"
  have "committed env before t (f(p := None))" by (rule committed_remove) (use f assms in auto)
  then show "applying env before t (insert p ps) (f(p := None))" using f by (simp add: gone_def)
qed auto

lemma applying_rename:
  assumes "\<And>f c. committed env before t f \<Longrightarrow> f a = Some c \<Longrightarrow> committed env before t (f(a := None, b \<mapsto> c))"
    and "b \<notin> ps" "a \<noteq> b" and "\<And>f. committed env before t f \<Longrightarrow> P f \<Longrightarrow> f a \<noteq> None"
  shows "triple readable complete (\<lambda>f. applying env before t ps f \<and> P f) (rename_path a b)
    (\<lambda>_. applying env before t (insert a ps)) (committed env before t) (committed env before t)"
  unfolding rename_path_def by (rule triple_rename) (use assms in \<open>auto simp: gone_def\<close>)

lemma applying_sync:
  "triple readable complete (applying env before t ps) sync_to_disk (\<lambda>_. applying env before t ps)
     (committed env before t) (committed env before t)"
  by (rule sync_triple) auto

lemma applying_weaken:
  "triple readable complete (applying env before t ps) a (\<lambda>_. applying env before t qs) E C \<Longrightarrow> qs' \<subseteq> qs \<Longrightarrow>
   triple readable complete (applying env before t ps) a (\<lambda>_. applying env before t qs') E C"
  by (erule triple_weaken) (auto simp: gone_def)

lemma swap_db_triple:
  assumes "ps \<subseteq> {Side Db Wal, Side Db Shm}"
  shows "triple readable complete (applying env before t ps) swap_db (\<lambda>_. applying env before t (insert (File New_Db) ps))
    (committed env before t) (committed env before t)"
  unfolding swap_db_def
proof (rule triple_exists)
  show "triple readable complete (\<lambda>f. applying env before t ps f \<and> f (File New_Db) = None) (when_io False
      (seq_io (bind_io (exists_io (File Db)) (\<lambda>old. when_io old (rename_path (File Db) (File Old_Db))))
        (seq_io (rename_path (File New_Db) (File Db)) sync_to_disk)))
      (\<lambda>_. applying env before t (insert (File New_Db) ps)) (committed env before t) (committed env before t)"
    by (rule triple_when) (auto simp: gone_def)
  have aside: "triple readable complete (\<lambda>f. applying env before t ps f \<and> f (File New_Db) \<noteq> None)
      (bind_io (exists_io (File Db)) (\<lambda>old. when_io old (rename_path (File Db) (File Old_Db))))
      (\<lambda>_ f. applying env before t ps f \<and> f (File New_Db) \<noteq> None) (committed env before t) (committed env before t)"
  proof (rule triple_exists)
    show "triple readable complete (\<lambda>f. (applying env before t ps f \<and> f (File New_Db) \<noteq> None) \<and> f (File Db) \<noteq> None)
        (when_io True (rename_path (File Db) (File Old_Db)))
        (\<lambda>_ f. applying env before t ps f \<and> f (File New_Db) \<noteq> None) (committed env before t) (committed env before t)"
      unfolding when_io_True rename_path_def
      by (rule triple_rename)
        (use assms in \<open>auto simp: committed_def moved_or_ready_def image_state_def gone_def\<close>)
  qed (rule triple_when, auto)
  have inplace: "triple readable complete (\<lambda>f. applying env before t ps f \<and> f (File New_Db) \<noteq> None)
      (rename_path (File New_Db) (File Db))
      (\<lambda>_. applying env before t (insert (File New_Db) ps)) (committed env before t) (committed env before t)"
    by (rule applying_rename) (use assms in \<open>auto simp: committed_def moved_or_ready_def image_state_def\<close>)
  show "triple readable complete (\<lambda>f. applying env before t ps f \<and> f (File New_Db) \<noteq> None) (when_io True
      (seq_io (bind_io (exists_io (File Db)) (\<lambda>old. when_io old (rename_path (File Db) (File Old_Db))))
        (seq_io (rename_path (File New_Db) (File Db)) sync_to_disk)))
      (\<lambda>_. applying env before t (insert (File New_Db) ps)) (committed env before t) (committed env before t)"
    unfolding when_io_True by (rule triple_seq [OF aside triple_seq [OF inplace applying_sync]])
qed

lemma swap_envelope_triple:
  assumes "Envelope \<notin> ps"
  shows "triple readable complete (applying env before t ps) swap_envelope
    (\<lambda>_. applying env before t (insert New_Envelope ps)) (committed env before t) (committed env before t)"
  unfolding swap_envelope_def
proof (rule triple_exists)
  have "triple readable complete (\<lambda>f. applying env before t ps f \<and> f New_Envelope \<noteq> None)
      (rename_path New_Envelope Envelope)
      (\<lambda>_. applying env before t (insert New_Envelope ps)) (committed env before t) (committed env before t)"
    by (rule applying_rename) (use assms in \<open>auto simp: committed_def moved_or_ready_def image_state_def\<close>)
  then show "triple readable complete (\<lambda>f. applying env before t ps f \<and> f New_Envelope \<noteq> None)
      (when_io True (seq_io (rename_path New_Envelope Envelope) sync_to_disk))
      (\<lambda>_. applying env before t (insert New_Envelope ps)) (committed env before t) (committed env before t)"
    unfolding when_io_True by (rule triple_seq [OF _ applying_sync])
qed (rule triple_when, auto simp: gone_def)

section \<open>The images\<close>

definition image_gone :: "image_record \<Rightarrow> path set" where
  "image_gone i =
     (if im_new_sha256 i = None then insert (File (Image (im_file i))) (range (Side (Image (im_file i))))
      else {File (Image_New (im_file i))})"

lemma image_gone_disjoint:
  assumes "distinct (map im_file is)" "i \<in> set is" "k \<in> set is" "im_new_sha256 i \<noteq> None" "im_file k \<noteq> im_file i"
  shows "File (Image (im_file i)) \<notin> image_gone k"
  using assms by (auto simp: image_gone_def)

lemma remove_sides_triple:
  assumes "touched (tg_journal t) (Side (Image i) Wal)"
  shows "triple readable complete (applying env before t ps)
    (for_io side_suffixes (\<lambda>s. remove_if_present (Side (Image i) s)))
    (\<lambda>_. applying env before t (range (Side (Image i)) \<union> ps)) (committed env before t) (committed env before t)"
proof (rule triple_weaken [OF triple_for [where I = "\<lambda>seen. applying env before t (Side (Image i) ` set seen \<union> ps)"]])
  fix seen s rest
  show "triple readable complete (applying env before t (Side (Image i) ` set seen \<union> ps))
      (remove_if_present (Side (Image i) s)) (\<lambda>_. applying env before t (Side (Image i) ` set (seen @ [s]) \<union> ps))
      (committed env before t) (committed env before t)"
    by (rule applying_weaken [OF applying_remove]) (use assms in auto)
qed (auto simp: gone_def)

lemma swap_image_triple:
  assumes "distinct (map im_file (j_images (tg_journal t)))" "i \<in> set (j_images (tg_journal t))"
    and "File (Image (im_file i)) \<notin> ps \<or> im_new_sha256 i = None"
  shows "triple readable complete (applying env before t ps) (swap_image i)
    (\<lambda>_. applying env before t (image_gone i \<union> ps)) (committed env before t) (committed env before t)"
proof -
  have touched: "touched (tg_journal t) (Side (Image (im_file i)) Wal)" using assms(2) by (simp add: image_names_def)
  have same: "k = i" if "k \<in> set (j_images (tg_journal t))" "im_file k = im_file i" for k
    using assms(1,2) that by (auto simp: distinct_map inj_on_def)
  show ?thesis
  proof (cases "im_new_sha256 i")
    case None
    have "triple readable complete (applying env before t ps) (remove_if_present (File (Image (im_file i))))
        (\<lambda>_. applying env before t (insert (File (Image (im_file i))) ps)) (committed env before t) (committed env before t)"
      by (rule applying_remove) (use assms(2) same None in \<open>auto simp: image_names_def\<close>)
    then show ?thesis
      unfolding swap_image_def Let_def None option.case
      by (rule applying_weaken [OF triple_seq [OF _ remove_sides_triple [OF touched]]]) (auto simp: image_gone_def None)
  next
    case (Some h)
    let ?new = "File (Image_New (im_file i))" and ?live = "File (Image (im_file i))"
    let ?E = "committed env before t"
    let ?sides = "range (Side (Image (im_file i)))"
    have sides: "triple readable complete (\<lambda>f. applying env before t ps f \<and> f ?new \<noteq> None)
        (for_io side_suffixes (\<lambda>s. remove_if_present (Side (Image (im_file i)) s)))
        (\<lambda>_ f. applying env before t (?sides \<union> ps) f \<and> f ?new \<noteq> None) ?E ?E"
    proof (rule triple_weaken [OF triple_for [where
          I = "\<lambda>seen f. applying env before t (Side (Image (im_file i)) ` set seen \<union> ps) f \<and> f ?new \<noteq> None"]])
      fix seen s rest
      show "triple readable complete
          (\<lambda>f. applying env before t (Side (Image (im_file i)) ` set seen \<union> ps) f \<and> f ?new \<noteq> None)
          (remove_if_present (Side (Image (im_file i)) s))
          (\<lambda>_ f. applying env before t (Side (Image (im_file i)) ` set (seen @ [s]) \<union> ps) f \<and> f ?new \<noteq> None) ?E ?E"
      proof (rule remove_triple)
        fix f
        assume f: "applying env before t (Side (Image (im_file i)) ` set seen \<union> ps) f \<and> f ?new \<noteq> None"
        have "committed env before t (f(Side (Image (im_file i)) s := None))"
          by (rule committed_remove) (use f touched in auto)
        then show "applying env before t (Side (Image (im_file i)) ` set (seen @ [s]) \<union> ps) (f(Side (Image (im_file i)) s := None)) \<and>
            (f(Side (Image (im_file i)) s := None)) ?new \<noteq> None"
          using f by (auto simp: gone_def)
      qed auto
    qed (auto simp: gone_def)
    have move: "triple readable complete (\<lambda>f. applying env before t (?sides \<union> ps) f \<and> f ?new \<noteq> None)
        (rename_path ?new ?live) (\<lambda>_. applying env before t (insert ?new (?sides \<union> ps))) ?E ?E"
      unfolding rename_path_def
    proof (rule triple_rename)
      fix f c
      assume f: "applying env before t (?sides \<union> ps) f \<and> f ?new \<noteq> None" "f ?new = Some c"
      have c: "tg_images t (im_file i) = Some c"
        using f assms(2) Some unfolding committed_def image_state_def moved_or_ready_def by fastforce
      have "image_state t (f(?new := None, ?live \<mapsto> c)) k" if k: "k \<in> set (j_images (tg_journal t))" for k
      proof (cases "im_file k = im_file i")
        case True
        then show ?thesis using f(1) c by (auto simp: image_state_def moved_or_ready_def gone_def)
      next
        case False
        then show ?thesis using f(1) k by (auto simp: image_state_def moved_or_ready_def committed_def)
      qed
      then have "committed env before t (f(?new := None, ?live \<mapsto> c))"
        using f(1) assms(2) by (auto simp: committed_def moved_or_ready_def image_names_def)
      then show "applying env before t (insert ?new (?sides \<union> ps)) (f(?new := None, ?live \<mapsto> c))"
        using f assms(3) Some by (auto simp: gone_def)
    qed auto
    have "triple readable complete (applying env before t ps) (swap_image i)
        (\<lambda>_. applying env before t (insert ?new ps)) ?E ?E"
      unfolding swap_image_def Let_def Some option.case
    proof (rule triple_exists)
      show "triple readable complete (\<lambda>f. applying env before t ps f \<and> f ?new \<noteq> None)
          (when_io True (seq_io (for_io side_suffixes (\<lambda>s. remove_if_present (Side (Image (im_file i)) s)))
            (seq_io (rename_path ?new ?live) sync_to_disk)))
          (\<lambda>_. applying env before t (insert ?new ps)) ?E ?E"
        unfolding when_io_True
        by (rule triple_weaken [OF triple_seq [OF sides triple_seq [OF move applying_sync]]]) (auto simp: gone_def)
    qed (rule triple_when, auto simp: gone_def)
    then show ?thesis by (simp add: image_gone_def Some insert_is_Un [symmetric])
  qed
qed

lemma swap_images_triple:
  assumes "distinct (map im_file (j_images (tg_journal t)))" "\<And>i. File (Image i) \<notin> ps"
  shows "triple readable complete (applying env before t ps) (for_io (j_images (tg_journal t)) swap_image)
    (\<lambda>_. applying env before t (\<Union> (image_gone ` set (j_images (tg_journal t))) \<union> ps))
    (committed env before t) (committed env before t)"
proof (rule triple_weaken [OF triple_for [where I = "\<lambda>seen. applying env before t (\<Union> (image_gone ` set seen) \<union> ps)"]])
  fix seen i rest
  assume split: "j_images (tg_journal t) = seen @ i # rest"
  then have i: "i \<in> set (j_images (tg_journal t))" by simp
  have other: "im_file k \<noteq> im_file i" if "k \<in> set seen" for k using assms(1) that unfolding split by (auto dest: image_eqI [of _ im_file] simp: rev_image_eqI)
  have "File (Image (im_file i)) \<notin> image_gone k" if "k \<in> set seen" for k
    using other [OF that] by (auto simp: image_gone_def)
  then have "File (Image (im_file i)) \<notin> \<Union> (image_gone ` set seen) \<union> ps" using assms(2) by blast
  note step = swap_image_triple [OF assms(1) i disjI1 [OF this]]
  show "triple readable complete (applying env before t (\<Union> (image_gone ` set seen) \<union> ps)) (swap_image i)
      (\<lambda>_. applying env before t (\<Union> (image_gone ` set (seen @ [i])) \<union> ps)) (committed env before t) (committed env before t)"
    by (rule applying_weaken [OF step]) auto
qed auto

section \<open>Applying\<close>

definition old_blobs :: "rename list \<Rightarrow> path set" where
  "old_blobs rs = Blob ` rn_old ` set rs"

lemma old_not_new: "renames_ok before j \<Longrightarrow> r \<in> set (j_renames j) \<Longrightarrow> \<not> is_new_name j (rn_old r)"
  unfolding renames_ok_def is_new_name_def list_ex_iff by metis

lemma remove_blobs_triple:
  assumes ok: "renames_ok before (tg_journal t)"
  shows "triple readable complete (applying env before t ps)
    (for_io (j_renames (tg_journal t)) (\<lambda>r. when_io (\<not> is_new_name (tg_journal t) (rn_old r)) (remove_if_present (Blob (rn_old r)))))
    (\<lambda>_. applying env before t (old_blobs (j_renames (tg_journal t)) \<union> ps)) (committed env before t) (committed env before t)"
proof (rule triple_weaken [OF triple_for [where I = "\<lambda>seen. applying env before t (old_blobs seen \<union> ps)"]])
  fix seen r rest
  assume "j_renames (tg_journal t) = seen @ r # rest"
  then have r: "r \<in> set (j_renames (tg_journal t))" by simp
  have "Blob (rn_old r) \<notin> Blob ` rn_new ` set (j_renames (tg_journal t))"
  proof
    assume "Blob (rn_old r) \<in> Blob ` rn_new ` set (j_renames (tg_journal t))"
    then obtain q where "q \<in> set (j_renames (tg_journal t))" "rn_old r = rn_new q" by auto
    then show False using ok r unfolding renames_ok_def by metis
  qed
  then show "triple readable complete (applying env before t (old_blobs seen \<union> ps))
      (when_io (\<not> is_new_name (tg_journal t) (rn_old r)) (remove_if_present (Blob (rn_old r))))
      (\<lambda>_. applying env before t (old_blobs (seen @ [r]) \<union> ps)) (committed env before t) (committed env before t)"
    unfolding eqTrueI [OF old_not_new [OF ok r]] when_io_True
    by (intro applying_weaken [OF applying_remove]) (use r in \<open>auto simp: old_blobs_def\<close>)
qed (auto simp: old_blobs_def)

definition all_gone :: "journal \<Rightarrow> path set" where
  "all_gone j = {Side Db Wal, Side Db Shm, File New_Db, New_Envelope, File Old_Db, Journal_Tmp} \<union>
     \<Union> (image_gone ` set (j_images j)) \<union> old_blobs (j_renames j)"

lemma find_new_name:
  "distinct (map rn_new rs) \<Longrightarrow> r \<in> set rs \<Longrightarrow> find (\<lambda>k. rn_new k = rn_new r) rs = Some r"
  by (induction rs) auto

lemma committed_blob:
  assumes "committed env before t f" "renames_ok before (tg_journal t)" "gone (all_gone (tg_journal t)) f" "n \<noteq> link_probe"
  shows "f (Blob n) = new_vault before t (Blob n)"
proof (cases "\<exists>r\<in>set (j_renames (tg_journal t)). rn_new r = n")
  case True
  then obtain r where r: "r \<in> set (j_renames (tg_journal t))" "rn_new r = n" by blast
  then have "find (\<lambda>k. rn_new k = n) (j_renames (tg_journal t)) = Some r"
    using find_new_name assms(2) by (auto simp: renames_ok_def)
  then show ?thesis using assms(1) r by (auto simp: committed_def)
next
  case False
  then have none: "find (\<lambda>k. rn_new k = n) (j_renames (tg_journal t)) = None" by (auto simp: find_None_iff)
  show ?thesis
  proof (cases "is_old_name (tg_journal t) n")
    case True
    then have "Blob n \<in> all_gone (tg_journal t)" by (auto simp: is_old_name_def list_ex_iff all_gone_def old_blobs_def)
    then show ?thesis using assms(3) none True by (simp add: gone_def)
  next
    case False
    then have "\<not> touched (tg_journal t) (Blob n)"
      using none assms(4) by (auto simp: find_None_iff is_old_name_def list_ex_iff)
    then show ?thesis using assms(1) none False by (simp add: committed_def)
  qed
qed

lemma committed_image:
  assumes "committed env before t f" "gone (all_gone (tg_journal t)) f" "i \<in> set (j_images (tg_journal t))"
    and "image_ok env t i"
  shows "f (File (Image (im_file i))) = tg_images t (im_file i) \<and> f (Side (Image (im_file i)) s) = None"
proof (cases "im_new_sha256 i")
  case None
  then have "image_gone i = insert (File (Image (im_file i))) (range (Side (Image (im_file i))))" by (simp add: image_gone_def)
  then have "f (File (Image (im_file i))) = None \<and> f (Side (Image (im_file i)) s) = None"
    using assms(2,3) unfolding gone_def all_gone_def by blast
  then show ?thesis using assms(4) None by (simp add: image_ok_def)
next
  case (Some h)
  then have "File (Image_New (im_file i)) \<in> all_gone (tg_journal t)"
    using assms(3) by (auto simp: all_gone_def image_gone_def)
  then have "f (File (Image_New (im_file i))) = None" using assms(2) by (simp add: gone_def)
  moreover have "image_state t f i" using assms(1,3) by (simp add: committed_def)
  ultimately show ?thesis using Some by (auto simp: image_state_def moved_or_ready_def)
qed

lemma committed_applied:
  assumes f: "committed env before t f" and ok: "target_ok env before t" and c: "clean before"
    and g: "gone (all_gone (tg_journal t)) f"
  shows "live_as (new_vault before t) (f(Journal_File := None))"
proof -
  have gone: "f p = None" if "p \<in> all_gone (tg_journal t)" for p using g that by (simp add: gone_def)
  have rest: "f p = before p" if "\<not> touched (tg_journal t) p" for p using f that by (simp add: committed_def)
  have image: "f (File (Image i)) = new_vault before t (File (Image i)) \<and>
      f (Side (Image i) s) = new_vault before t (Side (Image i) s)" for i s
  proof (cases "i \<in> image_names (tg_journal t)")
    case True
    then obtain k where k: "k \<in> set (j_images (tg_journal t))" "im_file k = i" by (auto simp: image_names_def)
    then have "image_ok env t k" using ok by (simp add: target_ok_def)
    from committed_image [OF f g k(1) this] show ?thesis using True k(2) by simp
  qed (simp add: rest)
  have "f p = new_vault before t p" if p: "\<not> scratch p" for p
  proof (cases p)
    case (File d)
    show ?thesis
    proof (cases d)
      case Db
      have "f (File New_Db) = None" by (rule gone) (simp add: all_gone_def)
      then show ?thesis using File Db f by (auto simp: committed_def moved_or_ready_def)
    next
      case Old_Db
      have "f (File Old_Db) = None" by (rule gone) (simp add: all_gone_def)
      then show ?thesis using File Old_Db c by (simp add: clean_def)
    next
      case (Image_New i)
      have "i \<notin> image_names (tg_journal t)"
        using p File Image_New ok by (auto simp: target_ok_def image_ok_def image_names_def)
      then show ?thesis using File Image_New by (simp add: rest)
    qed (use p File image in auto)
  next
    case (Side d s)
    show ?thesis
    proof (cases d)
      case Db
      have "s \<noteq> Rollback_Journal \<Longrightarrow> f (Side Db s) = None" by (rule gone) (cases s; simp add: all_gone_def)
      then show ?thesis using Side Db rest [of "Side Db s"] by auto
    qed (use Side image p in \<open>auto simp: rest\<close>)
  next
    case Envelope
    have "f New_Envelope = None" by (rule gone) (simp add: all_gone_def)
    then show ?thesis using Envelope f by (auto simp: committed_def moved_or_ready_def)
  next
    case (Blob n)
    then show ?thesis using committed_blob [OF f _ g, of n] p ok by (simp add: target_ok_def)
  qed (use p in auto)
  then show ?thesis by (auto simp: live_as_def)
qed

definition finished :: "'c rekey_env \<Rightarrow> (path \<rightharpoonup> 'c) \<Rightarrow> 'c target \<Rightarrow> (path \<rightharpoonup> 'c) \<Rightarrow> bool" where
  "finished env before t f \<longleftrightarrow> committed env before t f \<or> live_as (new_vault before t) f"

lemma applying_start: "triple readable complete (applying env before t {}) a Q E C \<Longrightarrow> triple readable complete (committed env before t) a Q E C"
  by (erule triple_weaken) (auto simp: gone_def)

lemma apply_committed_triple:
  assumes ok: "target_ok env before t" and c: "clean before"
  shows "triple readable complete (committed env before t) (apply_committed env (tg_journal t))
    (\<lambda>_. live_as (new_vault before t)) (finished env before t) (finished env before t)"
proof -
  let ?E = "committed env before t" and ?j = "tg_journal t"
  let ?R = "\<lambda>ps. applying env before t ps"
  let ?sides = "{Side Db Shm, Side Db Wal}"
  let ?swapped = "insert New_Envelope (insert (File New_Db) ?sides)"
  let ?images = "\<Union> (image_gone ` set (j_images ?j)) \<union> ?swapped"
  let ?blobs = "old_blobs (j_renames ?j) \<union> ?images"
  have renames: "renames_ok before ?j" and images: "distinct (map im_file (j_images ?j))"
    using ok by (simp_all add: target_ok_def)
  have wal: "triple readable complete (?R {}) (remove_if_present (Side Db Wal)) (\<lambda>_. ?R {Side Db Wal}) ?E ?E"
    by (rule applying_remove) auto
  have shm: "triple readable complete (?R {Side Db Wal}) (remove_if_present (Side Db Shm)) (\<lambda>_. ?R ?sides) ?E ?E"
    by (rule applying_remove) auto
  have db: "triple readable complete (?R ?sides) swap_db (\<lambda>_. ?R (insert (File New_Db) ?sides)) ?E ?E"
    by (rule swap_db_triple) auto
  have envelope: "triple readable complete (?R (insert (File New_Db) ?sides)) swap_envelope (\<lambda>_. ?R ?swapped) ?E ?E"
    by (rule swap_envelope_triple) auto
  have swap: "triple readable complete (?R ?swapped) (for_io (j_images ?j) swap_image) (\<lambda>_. ?R ?images) ?E ?E"
    by (rule swap_images_triple [OF images]) auto
  have sync: "triple readable complete (?R ps) (when_io b sync_to_disk) (\<lambda>_. ?R ps) ?E ?E" for b ps
    by (rule triple_when) (auto intro: applying_sync)
  have blobs: "triple readable complete (?R ?images)
      (for_io (j_renames ?j) (\<lambda>r. when_io (\<not> is_new_name ?j (rn_old r)) (remove_if_present (Blob (rn_old r)))))
      (\<lambda>_. ?R ?blobs) ?E ?E"
    by (rule remove_blobs_triple [OF renames])
  have old: "triple readable complete (?R ?blobs) (remove_if_present (File Old_Db)) (\<lambda>_. ?R (insert (File Old_Db) ?blobs)) ?E ?E"
    by (rule applying_remove) auto
  have tmp: "triple readable complete (?R (insert (File Old_Db) ?blobs)) (remove_if_present Journal_Tmp)
      (\<lambda>_. ?R (all_gone ?j)) ?E ?E"
    by (rule applying_weaken [OF applying_remove]) (auto simp: all_gone_def)
  have journal: "triple readable complete (?R (all_gone ?j)) (remove_if_present Journal_File)
      (\<lambda>_. live_as (new_vault before t)) (finished env before t) (finished env before t)"
    by (rule remove_triple) (auto simp: finished_def committed_applied [OF _ ok c])
  have last: "triple readable complete (live_as (new_vault before t)) (seq_io sync_to_disk (give ()))
      (\<lambda>_. live_as (new_vault before t)) (finished env before t) (finished env before t)"
    by (rule triple_last, rule sync_triple) (auto simp: finished_def)
  have weaken: "triple readable complete P a Q ?E ?E \<Longrightarrow> triple readable complete P a Q (finished env before t) (finished env before t)"
    for P Q and a :: "('a, unit) rio"
    by (erule triple_weaken) (auto simp: finished_def)
  show ?thesis
    unfolding apply_committed_def do_all_simps
    by (rule applying_start,
        rule triple_seq [OF weaken [OF wal]], rule triple_seq [OF weaken [OF shm]], rule triple_seq [OF weaken [OF db]],
        rule triple_seq [OF weaken [OF envelope]], rule triple_seq [OF weaken [OF swap]], rule triple_seq [OF weaken [OF sync]],
        rule triple_seq [OF weaken [OF blobs]], rule triple_seq [OF weaken [OF sync]], rule triple_seq [OF weaken [OF old]],
        rule triple_seq [OF weaken [OF tmp]], rule triple_seq [OF journal last])
qed

section \<open>The check before applying\<close>

lemma sha256_triple:
  assumes "\<And>f. P f \<Longrightarrow> f p = Some c"
  shows "triple readable True P (sha256_file env p) (\<lambda>h f. P f \<and> h = re_sha256 env c) P P"
  unfolding sha256_file_def read_file_def
  by (rule triple_bind [where Q' = "\<lambda>x f. P f \<and> x = c"], rule triple_query) (auto simp: assms intro: triple_give)

lemma file_agrees_triple:
  assumes "\<And>f. P f \<Longrightarrow> moved_or_ready f waiting live (Some c)"
  shows "triple readable True P (file_agrees env waiting live (re_sha256 env c)) (\<lambda>b f. P f \<and> b) P P"
  unfolding file_agrees_def
proof (rule triple_exists)
  have "triple readable True (\<lambda>f. P f \<and> f waiting \<noteq> None) (sha256_file env waiting)
      (\<lambda>h f. (P f \<and> f waiting \<noteq> None) \<and> h = re_sha256 env c)
      (\<lambda>f. P f \<and> f waiting \<noteq> None) (\<lambda>f. P f \<and> f waiting \<noteq> None)"
    by (rule sha256_triple) (use assms in \<open>fastforce simp: moved_or_ready_def\<close>)
  then show "triple readable True (\<lambda>f. P f \<and> f waiting \<noteq> None)
      (if True then bind_io (sha256_file env waiting) (\<lambda>h. give (h = re_sha256 env c))
       else bind_io (exists_io live) (\<lambda>there.
         if there then bind_io (sha256_file env live) (\<lambda>h. give (h = re_sha256 env c)) else give False))
      (\<lambda>b f. P f \<and> b) P P"
    unfolding if_True by (intro triple_bind triple_give) (erule triple_weaken, auto)
next
  have "triple readable True (\<lambda>f. (P f \<and> f waiting = None) \<and> f live \<noteq> None) (sha256_file env live)
      (\<lambda>h f. ((P f \<and> f waiting = None) \<and> f live \<noteq> None) \<and> h = re_sha256 env c)
      (\<lambda>f. (P f \<and> f waiting = None) \<and> f live \<noteq> None) (\<lambda>f. (P f \<and> f waiting = None) \<and> f live \<noteq> None)"
    by (rule sha256_triple) (use assms in \<open>fastforce simp: moved_or_ready_def\<close>)
  then have "triple readable True (\<lambda>f. (P f \<and> f waiting = None) \<and> f live \<noteq> None)
      (bind_io (sha256_file env live) (\<lambda>h. give (h = re_sha256 env c))) (\<lambda>b f. P f \<and> b) P P"
    by (intro triple_bind triple_give) (erule triple_weaken, auto)
  moreover have "triple readable True (\<lambda>f. (P f \<and> f waiting = None) \<and> f live = None) (give False) (\<lambda>b f. P f \<and> b) P P"
    by (rule triple_give) (use assms in \<open>fastforce simp: moved_or_ready_def\<close>)
  ultimately show "triple readable True (\<lambda>f. P f \<and> f waiting = None)
      (if False then bind_io (sha256_file env waiting) (\<lambda>h. give (h = re_sha256 env c))
       else bind_io (exists_io live) (\<lambda>there.
         if there then bind_io (sha256_file env live) (\<lambda>h. give (h = re_sha256 env c)) else give False))
      (\<lambda>b f. P f \<and> b) P P"
    unfolding if_False by (intro triple_exists) simp_all
qed

lemma image_agrees_triple:
  assumes "i \<in> set (j_images (tg_journal t))" "image_ok env t i"
  shows "triple readable True (committed env before t) (image_agrees env i) (\<lambda>b f. committed env before t f \<and> b)
    (committed env before t) (committed env before t)"
proof (cases "tg_images t (im_file i)")
  case None
  then show ?thesis using assms(2) by (auto simp: image_agrees_def image_ok_def intro: triple_give)
next
  case (Some c)
  then have "im_new_sha256 i = Some (re_sha256 env c)" using assms(2) by (simp add: image_ok_def)
  moreover from this have "committed env before t f \<Longrightarrow>
      moved_or_ready f (File (Image_New (im_file i))) (File (Image (im_file i))) (Some c)" for f
    using assms(1) Some unfolding committed_def image_state_def by fastforce
  ultimately show ?thesis by (simp add: image_agrees_def file_agrees_triple)
qed

lemma files_agree_triple:
  assumes ok: "target_ok env before t" and c: "clean before"
  shows "triple readable True (committed env before t) (committed_files_agree env (tg_journal t))
    (\<lambda>b f. committed env before t f \<and> b) (committed env before t) (committed env before t)"
proof -
  let ?E = "committed env before t" and ?j = "tg_journal t"
  have hashes: "j_new_db_sha256 ?j = Some (re_sha256 env (tg_db t))"
    "j_new_envelope_sha256 ?j = Some (re_sha256 env (tg_envelope t))" using ok by (simp_all add: target_ok_def)
  have db: "triple readable True ?E (file_agrees env (File New_Db) (File Db) (re_sha256 env (tg_db t))) (\<lambda>b f. ?E f \<and> b) ?E ?E"
    by (rule file_agrees_triple) (simp add: committed_def)
  have envelope: "triple readable True ?E (file_agrees env New_Envelope Envelope (re_sha256 env (tg_envelope t)))
      (\<lambda>b f. ?E f \<and> b) ?E ?E"
    by (rule file_agrees_triple) (simp add: committed_def)
  have blobs: "triple readable True ?E (map_io (\<lambda>n. exists_io (Blob n)) (new_names ?j))
      (\<lambda>bs f. ?E f \<and> list_all2 (\<lambda>_ b. b) (new_names ?j) bs) ?E ?E"
  proof (rule triple_map)
    fix n
    assume "n \<in> set (new_names ?j)"
    then obtain r where "r \<in> set (j_renames ?j)" "rn_new r = n" by (auto simp: new_names_def)
    then have "?E f \<Longrightarrow> f (Blob n) \<noteq> None" for f
      using ok by (auto simp: committed_def target_ok_def renames_ok_def)
    then show "triple readable True ?E (exists_io (Blob n)) (\<lambda>b f. ?E f \<and> b) ?E ?E"
      by (intro tripleI) (simp add: exists_io_def)
  qed
  have images: "triple readable True ?E (map_io (image_agrees env) (j_images ?j))
      (\<lambda>bs f. ?E f \<and> list_all2 (\<lambda>_ b. b) (j_images ?j) bs) ?E ?E"
    by (rule triple_map) (use ok in \<open>auto simp: target_ok_def intro!: image_agrees_triple\<close>)
  have all: "list_all2 (\<lambda>_ b. b) xs bs \<Longrightarrow> list_all id bs" for xs :: "'z list" and bs
    by (induction rule: list_all2_induct) auto
  show ?thesis
    unfolding committed_files_agree_def hashes prod.case option.case
    by (rule triple_bind [OF db], rule triple_assume, rule triple_bind [OF envelope], rule triple_assume,
        rule triple_bind [OF blobs], rule triple_assume, rule triple_bind [OF images], rule triple_give)
      (auto dest: all)
qed

end
