(* ===== verification/Rekey_Recovery.thy ===== *)
theory Rekey_Recovery
  imports Rekey_Apply
begin

text \<open>
  Start-up recovery: whatever it meets, it keeps an undone rotation undone and a committed one committed, however
  often it is interrupted; and undisturbed it ends, with the vault before or the new vault in place.
\<close>

section \<open>Reading the journal\<close>

lemma read_journal_triple:
  assumes "\<And>f. P f \<Longrightarrow> Q (Inl ()) f" "\<And>f. P f \<Longrightarrow> Q (decode_journal env (f Journal_File)) f" "\<And>f. P f \<Longrightarrow> C f"
  shows "triple readable complete P (read_journal env) Q E C"
  unfolding read_journal_def
proof (rule triple_bind)
  show "triple readable complete P (attempt (query Rekey_Io (\<lambda>f. Some (f Journal_File))))
      (\<lambda>r f. P f \<and> (case r of Inl _ \<Rightarrow> True | Inr found \<Rightarrow> found = f Journal_File)) E C"
    by (rule triple_attempt [where complete = False and E = P], rule triple_query) (use assms(3) in auto)
  show "triple readable complete (\<lambda>f. P f \<and> (case r of Inl _ \<Rightarrow> True | Inr found \<Rightarrow> found = f Journal_File))
      (give (case r of Inl _ \<Rightarrow> Inl () | Inr found \<Rightarrow> decode_journal env found)) Q E C" for r
    by (rule triple_give) (use assms in \<open>auto split: sum.splits\<close>)
qed

lemma read_journal_readable:
  assumes "\<And>f. P f \<Longrightarrow> Q (decode_journal env (f Journal_File)) f" "\<And>f. P f \<Longrightarrow> C f"
  shows "triple True complete P (read_journal env) Q E C"
  unfolding read_journal_def
proof (rule triple_bind)
  show "triple True complete P (attempt (query Rekey_Io (\<lambda>f. Some (f Journal_File))))
      (\<lambda>r f. P f \<and> r = Inr (f Journal_File)) E C"
    by (rule triple_attempt [where complete = False and E = "\<lambda>_. False"], rule triple_query_readable) (use assms(2) in auto)
  show "triple True complete (\<lambda>f. P f \<and> r = Inr (f Journal_File))
      (give (case r of Inl _ \<Rightarrow> Inl () | Inr found \<Rightarrow> decode_journal env found)) Q E C" for r
    by (rule triple_give) (use assms in auto)
qed

lemma decode_written: "json_ok env \<Longrightarrow> j_version j = 1 \<Longrightarrow> decode_journal env (Some (re_to_json env j)) = Inr (Some j)"
  by (simp add: decode_journal_def json_ok_def)

lemma decode_none: "decode_journal env None = Inr None"
  by (simp add: decode_journal_def)

section \<open>Recovery keeps what was decided\<close>

lemma recovered_triple:
  assumes "triple readable complete P a (\<lambda>_. Q) Q C"
  shows "triple readable complete' P (recovered verdict a) (\<lambda>_. Q) E C"
  unfolding recovered_def
  by (rule triple_bind [OF triple_attempt [OF assms]]) (auto intro: triple_give)

lemma roll_back_stray_only: "triple readable complete (live_as v) (roll_back None) (\<lambda>_. live_as v) (live_as v) (live_as v)"
  by (rule triple_weaken [OF roll_back_stray]) auto

lemma roll_back_journal_only:
  assumes "j_version j = 1" "j_state j \<noteq> Committed" "renames_ok before j"
  shows "triple readable complete (undone_by env before j) (roll_back (Some j)) (\<lambda>_. live_as before)
    (undone env before) (undone env before)"
  by (rule triple_weaken [OF roll_back_journal [OF assms]]) auto

lemma recover_stray:
  "triple readable complete (live_as v)
     (bind_io (map_io exists_io stray_paths) (\<lambda>there.
        if list_ex id there then recovered Rolled_Back (roll_back None) else give Clean)) (\<lambda>_. live_as v) E (live_as v)"
proof (rule triple_bind)
  show "triple readable complete (live_as v) (map_io exists_io stray_paths)
      (\<lambda>bs f. live_as v f \<and> list_all2 (\<lambda>_ _. True) stray_paths bs) E (live_as v)"
    by (rule triple_map) (simp add: triple_def exists_io_def)
  have "triple readable complete (live_as v) (recovered Rolled_Back (roll_back None)) (\<lambda>_. live_as v) E (live_as v)"
    by (rule recovered_triple [OF roll_back_stray_only])
  then show "triple readable complete (\<lambda>f. live_as v f \<and> list_all2 (\<lambda>_ _. True) stray_paths bs)
      (if list_ex id bs then recovered Rolled_Back (roll_back None) else give Clean) (\<lambda>_. live_as v) E (live_as v)" for bs
    by (intro triple_assume) (simp add: triple_give)
qed

lemma recover_live:
  "triple readable complete (live_as v) (recover_interrupted_rekey env) (\<lambda>_. live_as v) E (live_as v)"
  unfolding recover_interrupted_rekey_def
proof (rule triple_bind)
  show "triple readable complete (live_as v) (read_journal env)
      (\<lambda>r f. live_as v f \<and> (r = Inl () \<or> r = Inr None)) E (live_as v)"
    by (rule read_journal_triple) (auto simp: live_as_def decode_none)
  fix r :: "(unit, journal option) res"
  have "triple readable complete (live_as v) (case r of Inl _ \<Rightarrow> give Contradiction
      | Inr None \<Rightarrow> bind_io (map_io exists_io stray_paths) (\<lambda>there.
          if list_ex id there then recovered Rolled_Back (roll_back None) else give Clean)
      | Inr (Some j) \<Rightarrow> (case j_state j of Preparing \<Rightarrow> recovered Rolled_Back (roll_back (Some j))
          | Prepared \<Rightarrow> recovered Rolled_Back (roll_back (Some j)) | Committed \<Rightarrow> complete_rotation env j))
      (\<lambda>_. live_as v) E (live_as v)" if "r = Inl () \<or> r = Inr None"
    using that by (auto intro: recover_stray triple_give)
  then show "triple readable complete (\<lambda>f. live_as v f \<and> (r = Inl () \<or> r = Inr None)) (case r of Inl _ \<Rightarrow> give Contradiction
      | Inr None \<Rightarrow> bind_io (map_io exists_io stray_paths) (\<lambda>there.
          if list_ex id there then recovered Rolled_Back (roll_back None) else give Clean)
      | Inr (Some j) \<Rightarrow> (case j_state j of Preparing \<Rightarrow> recovered Rolled_Back (roll_back (Some j))
          | Prepared \<Rightarrow> recovered Rolled_Back (roll_back (Some j)) | Committed \<Rightarrow> complete_rotation env j))
      (\<lambda>_. live_as v) E (live_as v)"
    by (rule triple_assume)
qed

text \<open>Recovery at a journal: the state it names decides.\<close>

lemma recover_at_journal:
  assumes j: "json_ok env" "j_version j = 1" and P: "\<And>f. P f \<Longrightarrow> f Journal_File = Some (re_to_json env j)"
    and safe: "\<And>f. P f \<Longrightarrow> S f"
    and step: "triple readable complete P
      (case j_state j of Preparing \<Rightarrow> recovered Rolled_Back (roll_back (Some j))
       | Prepared \<Rightarrow> recovered Rolled_Back (roll_back (Some j)) | Committed \<Rightarrow> complete_rotation env j) (\<lambda>_. S) E S"
  shows "triple readable complete P (recover_interrupted_rekey env) (\<lambda>_. S) E S"
  unfolding recover_interrupted_rekey_def
proof (rule triple_bind)
  show "triple readable complete P (read_journal env) (\<lambda>r f. P f \<and> (r = Inl () \<or> r = Inr (Some j))) E S"
    by (rule read_journal_triple) (auto simp: P safe decode_written [OF j])
  fix r :: "(unit, journal option) res"
  have "triple readable complete P (case r of Inl _ \<Rightarrow> give Contradiction
      | Inr None \<Rightarrow> bind_io (map_io exists_io stray_paths) (\<lambda>there.
          if list_ex id there then recovered Rolled_Back (roll_back None) else give Clean)
      | Inr (Some j) \<Rightarrow> (case j_state j of Preparing \<Rightarrow> recovered Rolled_Back (roll_back (Some j))
          | Prepared \<Rightarrow> recovered Rolled_Back (roll_back (Some j)) | Committed \<Rightarrow> complete_rotation env j))
      (\<lambda>_. S) E S" if "r = Inl () \<or> r = Inr (Some j)"
    using that
  proof
    assume "r = Inl ()"
    then show ?thesis by (simp add: triple_give safe)
  qed (simp add: step)
  then show "triple readable complete (\<lambda>f. P f \<and> (r = Inl () \<or> r = Inr (Some j))) (case r of Inl _ \<Rightarrow> give Contradiction
      | Inr None \<Rightarrow> bind_io (map_io exists_io stray_paths) (\<lambda>there.
          if list_ex id there then recovered Rolled_Back (roll_back None) else give Clean)
      | Inr (Some j) \<Rightarrow> (case j_state j of Preparing \<Rightarrow> recovered Rolled_Back (roll_back (Some j))
          | Prepared \<Rightarrow> recovered Rolled_Back (roll_back (Some j)) | Committed \<Rightarrow> complete_rotation env j))
      (\<lambda>_. S) E S"
    by (rule triple_assume)
qed

lemma recover_undone_by:
  assumes "json_ok env" "j_version j = 1" "j_state j \<noteq> Committed" "renames_ok before j"
  shows "triple readable complete (undone_by env before j) (recover_interrupted_rekey env) (\<lambda>_. undone env before) E
    (undone env before)"
proof (rule recover_at_journal [OF assms(1,2)])
  have "triple readable complete (undone_by env before j) (recovered Rolled_Back (roll_back (Some j)))
      (\<lambda>_. undone env before) E (undone env before)"
    by (rule recovered_triple, rule triple_weaken [OF roll_back_journal [OF assms(2-4)]]) (auto simp: undone_def)
  then show "triple readable complete (undone_by env before j)
      (case j_state j of Preparing \<Rightarrow> recovered Rolled_Back (roll_back (Some j))
       | Prepared \<Rightarrow> recovered Rolled_Back (roll_back (Some j)) | Committed \<Rightarrow> complete_rotation env j)
      (\<lambda>_. undone env before) E (undone env before)"
    using assms(3) by (cases "j_state j") simp_all
qed (use assms in \<open>auto simp: undone_by_def undone_def\<close>)

lemma triple_disj:
  "(\<And>i. triple readable complete (P i) a Q E C) \<Longrightarrow> triple readable complete (\<lambda>f. \<exists>i. P i f) a Q E C"
  unfolding triple_def by blast

lemma recover_undone:
  assumes "json_ok env"
  shows "triple readable complete (undone env before) (recover_interrupted_rekey env) (\<lambda>_. undone env before) E (undone env before)"
proof (rule tripleI)
  fix w :: "(path, 'a) world"
  assume u: "undone env before (wd_files w)" and r: "readable \<longrightarrow> Unreadable \<notin> set (wd_faults w)"
  from u consider "live_as before (wd_files w)"
    | j where "j_version j = 1" "j_state j \<noteq> Committed" "renames_ok before j" "undone_by env before j (wd_files w)"
    unfolding undone_def by blast
  then show "meets complete (\<lambda>_. undone env before) E (undone env before) (wd_faults w) (recover_interrupted_rekey env w)"
  proof cases
    case 1
    have "triple readable complete (live_as before) (recover_interrupted_rekey env) (\<lambda>_. undone env before) E (undone env before)"
      by (rule triple_weaken [OF recover_live]) (auto simp: undone_def)
    from tripleD [OF this 1 r] show ?thesis .
  next
    case 2
    from tripleD [OF recover_undone_by [OF assms 2(1-3)] 2(4) r] show ?thesis .
  qed
qed

lemma complete_rotation_triple:
  assumes "target_ok env before t" "clean before"
  shows "triple readable complete (committed env before t) (complete_rotation env (tg_journal t)) (\<lambda>_. finished env before t) E
    (finished env before t)"
  unfolding complete_rotation_def
proof (rule triple_bind)
  show "triple readable complete (committed env before t) (attempt (committed_files_agree env (tg_journal t)))
      (\<lambda>_. committed env before t) E (finished env before t)"
    by (rule triple_attempt, rule triple_weaken [OF triple_careless [OF files_agree_triple [OF assms]]])
      (auto simp: finished_def)
  fix r
  have "triple readable complete (committed env before t) (recovered Rolled_Forward (apply_committed env (tg_journal t)))
      (\<lambda>_. finished env before t) E (finished env before t)"
    by (rule recovered_triple, rule triple_weaken [OF apply_committed_triple [OF assms]]) (auto simp: finished_def)
  then show "triple readable complete (committed env before t)
      (if r = Inr True then recovered Rolled_Forward (apply_committed env (tg_journal t)) else give Contradiction)
      (\<lambda>_. finished env before t) E (finished env before t)"
    by (simp add: triple_give finished_def)
qed

lemma recover_finished:
  assumes "json_ok env" "target_ok env before t" "clean before"
  shows "triple readable complete (finished env before t) (recover_interrupted_rekey env) (\<lambda>_. finished env before t) E
    (finished env before t)"
proof (rule tripleI)
  fix w :: "(path, 'a) world"
  assume f: "finished env before t (wd_files w)" and r: "readable \<longrightarrow> Unreadable \<notin> set (wd_faults w)"
  have j: "j_version (tg_journal t) = 1" "j_state (tg_journal t) = Committed" using assms(2) by (simp_all add: target_ok_def)
  have "triple readable complete (committed env before t) (recover_interrupted_rekey env) (\<lambda>_. finished env before t) E
      (finished env before t)"
    by (rule recover_at_journal [OF assms(1) j(1)])
      (use complete_rotation_triple [OF assms(2,3)] j(2) in \<open>auto simp: committed_def finished_def\<close>)
  moreover have "triple readable complete (live_as (new_vault before t)) (recover_interrupted_rekey env)
      (\<lambda>_. finished env before t) E (finished env before t)"
    by (rule triple_weaken [OF recover_live]) (auto simp: finished_def)
  ultimately show "meets complete (\<lambda>_. finished env before t) E (finished env before t) (wd_faults w)
      (recover_interrupted_rekey env w)"
    using f r unfolding finished_def by (elim disjE) (erule (1) tripleD, assumption)+
qed

section \<open>Undisturbed recovery ends\<close>

lemma read_quiet: "wd_faults w = [] \<Longrightarrow> read_journal env w = (Returns (decode_journal env (wd_files w Journal_File)), w)"
  by (simp add: read_journal_def bind_io_def attempt_def query_def draw_def give_def)

lemma recovered_quiet:
  assumes "triple False True P a (\<lambda>_. Q) E C" "P (wd_files w)" "wd_faults w = []"
  obtains w' where "recovered verdict a w = (Returns verdict, w')" "Q (wd_files w')"
  by (rule triple_quiet [OF assms]) (use that in \<open>auto simp: recovered_def bind_io_def attempt_def give_def\<close>)

definition recovers_to :: "'c rekey_env \<Rightarrow> (path, 'c) world \<Rightarrow> rekey_recovery set \<Rightarrow> (path \<rightharpoonup> 'c) \<Rightarrow> bool" where
  "recovers_to env w verdicts v \<longleftrightarrow>
     (\<exists>r w'. recover_interrupted_rekey env w = (Returns r, w') \<and> r \<in> verdicts \<and> live_as v (wd_files w'))"

lemma exists_all: "map_io exists_io ps w = (Returns (map (\<lambda>p. wd_files w p \<noteq> None) ps), w)"
  by (induction ps) (simp_all add: give_def bind_io_def exists_io_def)

lemma quiet_live:
  assumes "live_as v (wd_files w)" "wd_faults w = []"
  shows "recovers_to env w {Clean, Rolled_Back} v"
proof -
  obtain w' where "recovered Rolled_Back (roll_back None) w = (Returns Rolled_Back, w')" "live_as v (wd_files w')"
    by (rule recovered_quiet [OF roll_back_stray_only assms])
  moreover have "wd_files w Journal_File = None" using assms(1) by (simp add: live_as_def)
  ultimately show ?thesis
    using assms(1)
    by (cases "list_ex id (map (\<lambda>p. wd_files w p \<noteq> None) stray_paths)")
      (simp_all add: recovers_to_def recover_interrupted_rekey_def bind_io_def read_quiet [OF assms(2)] decode_none
        exists_all give_def)
qed

lemma quiet_undone:
  assumes "json_ok env" "undone env before (wd_files w)" "wd_faults w = []"
  shows "recovers_to env w {Clean, Rolled_Back} before"
proof -
  from assms(2) consider "live_as before (wd_files w)"
    | j where "j_version j = 1" "j_state j \<noteq> Committed" "renames_ok before j" "undone_by env before j (wd_files w)"
    unfolding undone_def by blast
  then show ?thesis
  proof cases
    case 1
    then show ?thesis by (rule quiet_live [OF _ assms(3)])
  next
    case (2 j)
    obtain w' where w': "recovered Rolled_Back (roll_back (Some j)) w = (Returns Rolled_Back, w')" "live_as before (wd_files w')"
      by (rule recovered_quiet [OF roll_back_journal_only [OF 2(1-3)] 2(4) assms(3)])
    have "wd_files w Journal_File = Some (re_to_json env j)" using 2(4) by (simp add: undone_by_def)
    then show ?thesis
      using 2(2) w' by (cases "j_state j") (simp_all add: recovers_to_def recover_interrupted_rekey_def bind_io_def
          read_quiet [OF assms(3)] decode_written [OF assms(1) 2(1)])
  qed
qed

lemma quiet_finished:
  assumes "json_ok env" "target_ok env before t" "clean before" "finished env before t (wd_files w)" "wd_faults w = []"
  shows "recovers_to env w {Clean, Rolled_Back, Rolled_Forward} (new_vault before t)"
  using assms(4) unfolding finished_def
proof
  assume "live_as (new_vault before t) (wd_files w)"
  from quiet_live [OF this assms(5), of env] show ?thesis by (auto simp: recovers_to_def)
next
  assume c: "committed env before t (wd_files w)"
  obtain x w1 where w1: "committed_files_agree env (tg_journal t) w = (Returns x, w1)" "committed env before t (wd_files w1) \<and> x"
    "wd_faults w1 = []"
    by (rule triple_quiet [OF files_agree_triple [OF assms(2,3)] c assms(5)])
  have agree: "attempt (committed_files_agree env (tg_journal t)) w = (Returns (Inr True), w1)"
    using w1 by (simp add: attempt_def)
  obtain w2 where w2: "recovered Rolled_Forward (apply_committed env (tg_journal t)) w1 = (Returns Rolled_Forward, w2)"
    "live_as (new_vault before t) (wd_files w2)"
    by (rule recovered_quiet [OF apply_committed_triple [OF assms(2,3)] _ w1(3)]) (use w1(2) in auto)
  have "wd_files w Journal_File = Some (re_to_json env (tg_journal t))" using c by (simp add: committed_def)
  moreover have "j_version (tg_journal t) = 1" "j_state (tg_journal t) = Committed" using assms(2) by (simp_all add: target_ok_def)
  ultimately show ?thesis
    using w2 by (simp add: recovers_to_def recover_interrupted_rekey_def complete_rotation_def bind_io_def
        read_quiet [OF assms(5)] decode_written [OF assms(1)] agree)
qed

end
