(* ===== verification/Rekey_Prepare.thy ===== *)
theory Rekey_Prepare
  imports Rekey_Recovery
begin

text \<open>
  Preparing and committing a rotation.  Up to the commit point every failure and every death leaves the rotation
  undone; at the commit point the files are those of the planned target (\<open>plan\<close>, a function of the vault before).
\<close>

section \<open>The plan\<close>

definition planned_rename :: "'c rekey_env \<Rightarrow> (path \<rightharpoonup> 'c) \<Rightarrow> string \<Rightarrow> rename" where
  "planned_rename env before o' =
     \<lparr>rn_old = o', rn_new = the (re_new_storage_id env (the (before (Blob o'))))\<rparr>"

definition planned_renames :: "'c rekey_env \<Rightarrow> (path \<rightharpoonup> 'c) \<Rightarrow> 'c \<Rightarrow> rename list" where
  "planned_renames env before db = map (planned_rename env before) (re_storage_ids env (re_export env db))"

definition wanted_image :: "'c rekey_env \<Rightarrow> (path \<rightharpoonup> 'c) \<Rightarrow> string \<Rightarrow> bool" where
  "wanted_image env before i \<longleftrightarrow> (case before (File (Image i)) of None \<Rightarrow> False | Some c \<Rightarrow> re_image_readable env c)"

definition planned_image_content :: "'c rekey_env \<Rightarrow> (path \<rightharpoonup> 'c) \<Rightarrow> string \<Rightarrow> 'c option" where
  "planned_image_content env before i =
     (if wanted_image env before i then map_option (re_export env) (before (File (Image i))) else None)"

definition planned_image :: "'c rekey_env \<Rightarrow> (path \<rightharpoonup> 'c) \<Rightarrow> string \<Rightarrow> image_record option" where
  "planned_image env before i =
     (if before (File (Image i)) = None then None
      else Some \<lparr>im_file = i, im_new_sha256 = map_option (re_sha256 env) (planned_image_content env before i)\<rparr>)"

definition planned_images :: "'c rekey_env \<Rightarrow> (path \<rightharpoonup> 'c) \<Rightarrow> image_record list" where
  "planned_images env before = List.map_filter id (map (planned_image env before) image_files)"

definition planned_base :: "'c rekey_env \<Rightarrow> (path \<rightharpoonup> 'c) \<Rightarrow> 'c \<Rightarrow> 'c \<Rightarrow> 'c" where
  "planned_base env before db copy =
     (case find (\<lambda>i. im_file i = base_image_file) (planned_images env before) of
        None \<Rightarrow> copy
      | Some base \<Rightarrow>
          if re_ready_base env db \<noteq> None \<and>
             map_option (re_sha256 env) (before (File (Image base_image_file))) = re_ready_base env db
          then re_set_base env (im_new_sha256 base) copy else copy)"

definition plan :: "'c rekey_env \<Rightarrow> (path \<rightharpoonup> 'c) \<Rightarrow> 'c target option" where
  "plan env before =
     (case (re_new_envelope env, before (File Db)) of
        (Inr envelope, Some db) \<Rightarrow>
          (case re_rewrap env (planned_renames env before db) (re_export env db) of
             None \<Rightarrow> None
           | Some copy \<Rightarrow>
               let new_db = planned_base env before db copy in
               Some \<lparr>tg_db = new_db, tg_envelope = envelope, tg_images = planned_image_content env before,
                     tg_journal = \<lparr>j_version = 1, j_state = Committed, j_new_db_sha256 = Some (re_sha256 env new_db),
                       j_new_envelope_sha256 = Some (re_sha256 env envelope),
                       j_renames = planned_renames env before db, j_images = planned_images env before\<rparr>\<rparr>)
      | _ \<Rightarrow> None)"

text \<open>
  What a rotation relies on: nothing is left of an earlier one; the journal reads back as it was written; storage
  ids are not the name of the link probe, are unique among the attachments (the schema), and those under a fresh
  key name no file yet.
\<close>

definition rotatable :: "'c rekey_env \<Rightarrow> (path \<rightharpoonup> 'c) \<Rightarrow> bool" where
  "rotatable env before \<longleftrightarrow>
     clean before \<and> json_ok env \<and>
     (\<forall>c. link_probe \<notin> set (re_storage_ids env c)) \<and>
     (\<forall>rs c. re_rewrap env rs c \<noteq> None \<longrightarrow> distinct (map rn_new rs)) \<and>
     (\<forall>n c m. before (Blob n) = Some c \<longrightarrow> re_new_storage_id env c = Some m \<longrightarrow>
        before (Blob m) = None \<and> m \<noteq> link_probe)"

section \<open>Files beside the vault\<close>

definition beside :: "(path \<rightharpoonup> 'c) \<Rightarrow> path set \<Rightarrow> (path \<rightharpoonup> 'c) \<Rightarrow> bool" where
  "beside before ps f \<longleftrightarrow> (\<forall>p. p \<notin> ps \<longrightarrow> f p = before p)"

lemma beside_live:
  "beside before ps f \<Longrightarrow> clean before \<Longrightarrow> (\<And>p. p \<in> ps \<Longrightarrow> scratch p) \<Longrightarrow> Journal_File \<notin> ps \<Longrightarrow> live_as before f"
  unfolding beside_def live_as_def clean_def by (metis scratch.simps(6))

lemma live_scratch: "live_as before f \<Longrightarrow> scratch p \<Longrightarrow> p \<noteq> Journal_File \<Longrightarrow> live_as before (f(p := c))"
  by (auto simp: live_as_def)

lemma base_temp_live: "base_image_temp \<noteq> base_image_file" "base_image_temp \<noteq> pre_rebase_file"
  by (simp_all add: base_image_temp_def base_image_file_def pre_rebase_file_def)

section \<open>The disk check\<close>

abbreviation probing :: "(path \<rightharpoonup> 'c) \<Rightarrow> (path \<rightharpoonup> 'c) \<Rightarrow> bool" where
  "probing before \<equiv> beside before {Blob link_probe}"

lemma probe_live: "clean before \<Longrightarrow> probing before f \<Longrightarrow> live_as before f"
  by (rule beside_live) auto

lemma hard_link_triple:
  assumes "\<And>f. P f \<Longrightarrow> Q Not_Linked f" "\<And>f. P f \<Longrightarrow> f b \<noteq> None \<Longrightarrow> Q Already_There f"
    and "\<And>f c. P f \<Longrightarrow> f b = None \<Longrightarrow> f a = Some c \<Longrightarrow> Q Linked (f(b \<mapsto> c))" "\<And>f. P f \<Longrightarrow> C f"
  shows "triple readable complete P (hard_link a b) Q E C"
proof (rule tripleI)
  fix w :: "('a, 'b) world"
  assume P: "P (wd_files w)"
  obtain t w' where d: "draw w = (t, w')" by fastforce
  show "meets complete Q E C (wd_faults w) (hard_link a b w)"
    using draw_faults [OF d] d assms [OF P] P
    by (cases t; cases "wd_files w b"; cases "wd_files w a") (auto simp: hard_link_def)
qed

lemma remove_probe_triple:
  "triple readable complete (probing before) (attempt (remove_if_present (Blob link_probe))) (\<lambda>_. probing before) E
    (probing before)"
  by (rule triple_attempt [where complete = False and E = "probing before"], rule remove_triple) (auto simp: beside_def)

lemma hard_links_supported_triple:
  "triple readable complete (probing before) (hard_links_supported env) (\<lambda>_. probing before) E (probing before)"
proof (cases "re_link_sample env")
  case (Some sample)
  have link: "triple readable complete (probing before) (hard_link (Blob sample) (Blob link_probe))
      (\<lambda>_. probing before) E (probing before)"
    by (rule hard_link_triple) (auto simp: beside_def)
  show ?thesis
    unfolding hard_links_supported_def Some option.case
    by (rule triple_bind [OF remove_probe_triple], rule triple_bind [OF link],
        rule triple_bind [OF remove_probe_triple], rule triple_give) simp
qed (simp add: hard_links_supported_def triple_give)

lemma check_disk_triple:
  "triple readable False (probing before) (check_disk env) (\<lambda>_. probing before) (probing before) (probing before)"
proof (cases "re_sizes env")
  case (Inr sizes)
  obtain database images blobs where s: "sizes = (database, images, blobs)" by (cases sizes)
  show ?thesis
    unfolding check_disk_def Inr sum.case s prod.case
    by (rule triple_bind [OF hard_links_supported_triple]) (auto simp: check_space_def intro: triple_give triple_throw split: sum.split)
qed (simp add: check_disk_def triple_throw)

section \<open>The copy of the database\<close>

lemma exists_map_triple:
  "triple readable complete P (map_io exists_io ps) (\<lambda>bs f. P f \<and> bs = map (\<lambda>p. f p \<noteq> None) ps) E C"
  by (rule tripleI) (simp add: exists_all)

lemma no_sides_triple:
  "(\<And>f. P f \<Longrightarrow> E f) \<Longrightarrow> triple readable False P (assert_no_side_files d) (\<lambda>_. P) E C"
  unfolding assert_no_side_files_def
proof (rule triple_bind)
  assume PE: "\<And>f. P f \<Longrightarrow> E f"
  show "triple readable False P (map_io (\<lambda>s. exists_io (Side d s)) side_suffixes) (\<lambda>_. P) E C"
    by (rule triple_weaken [OF triple_map [where r = "\<lambda>_ _. True" and P = P]]) (auto simp: triple_def exists_io_def)
  show "triple readable False P (if list_ex id bs then throw (Persistence ''side file'') else give ()) (\<lambda>_. P) E C" for bs
    using PE by (auto intro: triple_give triple_throw)
qed

lemma sqlite_write_triple:
  assumes "\<And>f. P f \<Longrightarrow> E f" "\<And>f. P f \<Longrightarrow> C f" "\<And>f. P f \<Longrightarrow> Q (f(File d \<mapsto> c))"
    and "\<And>f c. P f \<Longrightarrow> E (f(File d \<mapsto> c, Side d Rollback_Journal \<mapsto> c))"
  shows "triple readable complete P (sqlite_write d c) (\<lambda>_. Q) E C"
  unfolding sqlite_write_def by (rule triple_put) (use assms in auto)

lemma read_triple:
  assumes "\<And>f. P f \<Longrightarrow> E f" "\<And>f. P f \<Longrightarrow> C f" "\<And>f c. P f \<Longrightarrow> f p = Some c \<Longrightarrow> Q c f"
  shows "triple readable False P (read_file e p) Q E C"
  unfolding read_file_def by (rule triple_query) (use assms in auto)

definition copied :: "(path \<rightharpoonup> 'c) \<Rightarrow> 'c \<Rightarrow> (path \<rightharpoonup> 'c) \<Rightarrow> bool" where
  "copied before c f \<longleftrightarrow> f (File New_Db) = Some c \<and> beside before {Blob link_probe, File New_Db} f"

lemma copied_live: "clean before \<Longrightarrow> copied before c f \<Longrightarrow> live_as before f"
  unfolding copied_def by (rule beside_live [of _ "{Blob link_probe, File New_Db}"]) auto

definition renamed :: "'c rekey_env \<Rightarrow> (path \<rightharpoonup> 'c) \<Rightarrow> string \<Rightarrow> rename \<Rightarrow> bool" where
  "renamed env before n r \<longleftrightarrow>
     r = planned_rename env before n \<and> before (Blob n) \<noteq> None \<and> before (Blob (rn_new r)) = None \<and> rn_new r \<noteq> link_probe"

lemma rename_blob_triple:
  assumes "rotatable env before" "n \<noteq> link_probe"
  shows "triple readable False (copied before c) (rename_blob env n) (\<lambda>r f. copied before c f \<and> renamed env before n r)
    (live_as before) (live_as before)"
  unfolding rename_blob_def
proof (rule triple_bind)
  have c: "clean before" using assms(1) by (simp add: rotatable_def)
  show "triple readable False (copied before c) (read_file Rekey_Io (Blob n)) (\<lambda>b f. copied before c f \<and> before (Blob n) = Some b)
      (live_as before) (live_as before)"
    by (rule read_triple) (use assms(2) in \<open>auto simp: copied_live [OF c] copied_def beside_def\<close>)
  fix b
  show "triple readable False (\<lambda>f. copied before c f \<and> before (Blob n) = Some b)
      (case re_new_storage_id env b of None \<Rightarrow> throw (Persistence ''attachment'') | Some m \<Rightarrow> give \<lparr>rn_old = n, rn_new = m\<rparr>)
      (\<lambda>r f. copied before c f \<and> renamed env before n r) (live_as before) (live_as before)"
  proof (rule triple_assume)
    assume b: "before (Blob n) = Some b"
    show "triple readable False (copied before c)
        (case re_new_storage_id env b of None \<Rightarrow> throw (Persistence ''attachment'') | Some m \<Rightarrow> give \<lparr>rn_old = n, rn_new = m\<rparr>)
        (\<lambda>r f. copied before c f \<and> renamed env before n r) (live_as before) (live_as before)"
    proof (cases "re_new_storage_id env b")
      case (Some m)
      then have "before (Blob m) = None \<and> m \<noteq> link_probe" using assms(1) b unfolding rotatable_def by blast
      then have "renamed env before n \<lparr>rn_old = n, rn_new = m\<rparr>" using b Some by (simp add: renamed_def planned_rename_def)
      then show ?thesis using Some by (simp add: triple_give)
    qed (simp add: triple_throw copied_live [OF c])
  qed
qed

lemma renamed_ok:
  assumes "list_all2 (renamed env before) ns rs" "distinct (map rn_new rs)" "clean before"
  shows "rs = map (planned_rename env before) ns \<and>
    (\<forall>r\<in>set rs. before (Blob (rn_new r)) = None \<and> rn_new r \<noteq> link_probe \<and> before (Blob (rn_old r)) \<noteq> None \<and> rn_old r \<noteq> link_probe)"
proof
  show "rs = map (planned_rename env before) ns"
    using assms(1) by (induction rule: list_all2_induct) (auto simp: renamed_def)
  have probe: "before (Blob link_probe) = None" using assms(3) by (simp add: clean_def)
  have step: "renamed env before n r \<Longrightarrow>
      before (Blob (rn_new r)) = None \<and> rn_new r \<noteq> link_probe \<and> before (Blob (rn_old r)) \<noteq> None \<and> rn_old r \<noteq> link_probe" for n r
    using probe by (auto simp: renamed_def planned_rename_def)
  show "\<forall>r\<in>set rs. before (Blob (rn_new r)) = None \<and> rn_new r \<noteq> link_probe \<and> before (Blob (rn_old r)) \<noteq> None \<and> rn_old r \<noteq> link_probe"
  proof
    fix r
    assume "r \<in> set rs"
    then obtain n where "renamed env before n r"
      using assms(1) unfolding list_all2_conv_all_nth in_set_conv_nth by metis
    then show "before (Blob (rn_new r)) = None \<and> rn_new r \<noteq> link_probe \<and> before (Blob (rn_old r)) \<noteq> None \<and> rn_old r \<noteq> link_probe"
      by (rule step)
  qed
qed

definition copied_renames :: "'c rekey_env \<Rightarrow> (path \<rightharpoonup> 'c) \<Rightarrow> 'c \<Rightarrow> 'c \<Rightarrow> rename list \<Rightarrow> bool" where
  "copied_renames env before db copy rs \<longleftrightarrow>
     before (File Db) = Some db \<and> rs = planned_renames env before db \<and>
     re_rewrap env rs (re_export env db) = Some copy \<and>
     (\<forall>r\<in>set rs. before (Blob (rn_new r)) = None \<and> rn_new r \<noteq> link_probe \<and> before (Blob (rn_old r)) \<noteq> None \<and> rn_old r \<noteq> link_probe)"

lemma rewrap_triple:
  assumes ok: "rotatable env before" and db: "before (File Db) = Some db"
  shows "triple readable False (copied before (re_export env db)) (rewrap_attachments env)
    (\<lambda>rs f. \<exists>copy. copied before copy f \<and> copied_renames env before db copy rs) (live_as before) (live_as before)"
  unfolding rewrap_attachments_def
proof (rule triple_bind)
  let ?x = "re_export env db"
  have c: "clean before" using ok by (simp add: rotatable_def)
  show "triple readable False (copied before ?x) (read_file Rekey_Io (File New_Db)) (\<lambda>y f. copied before ?x f \<and> y = ?x)
      (live_as before) (live_as before)"
    by (rule read_triple) (auto simp: copied_live [OF c] copied_def)
  fix y
  have names: "triple readable False (copied before ?x) (map_io (rename_blob env) (re_storage_ids env ?x))
      (\<lambda>rs f. copied before ?x f \<and> list_all2 (renamed env before) (re_storage_ids env ?x) rs) (live_as before) (live_as before)"
    by (rule triple_map, rule rename_blob_triple [OF ok]) (use ok in \<open>auto simp: rotatable_def\<close>)
  have rewrap: "triple readable False (copied before ?x)
      (case re_rewrap env rs ?x of None \<Rightarrow> throw (Persistence ''rewrap'')
       | Some copy \<Rightarrow> seq_io (sqlite_write New_Db copy) (give rs))
      (\<lambda>rs f. \<exists>copy. copied before copy f \<and> copied_renames env before db copy rs) (live_as before) (live_as before)"
    if rs: "list_all2 (renamed env before) (re_storage_ids env ?x) rs" for rs
  proof (cases "re_rewrap env rs ?x")
    case (Some copy)
    then have "distinct (map rn_new rs)" using ok unfolding rotatable_def by blast
    then have "copied_renames env before db copy rs"
      using renamed_ok [OF rs _ c] db Some by (simp add: copied_renames_def planned_renames_def)
    note planned = this
    have "triple readable False (copied before ?x) (sqlite_write New_Db copy) (\<lambda>_. copied before copy)
        (live_as before) (live_as before)"
      by (rule sqlite_write_triple) (auto simp: copied_live [OF c] live_scratch, auto simp: copied_def beside_def)
    then show ?thesis unfolding Some option.case by (rule triple_seq [OF _ triple_give]) (use planned in blast)
  qed (simp add: triple_throw copied_live [OF c])
  show "triple readable False (\<lambda>f. copied before ?x f \<and> y = ?x)
      (bind_io (map_io (rename_blob env) (re_storage_ids env y)) (\<lambda>renames.
         case re_rewrap env renames y of None \<Rightarrow> throw (Persistence ''rewrap'')
         | Some copy \<Rightarrow> seq_io (sqlite_write New_Db copy) (give renames)))
      (\<lambda>rs f. \<exists>copy. copied before copy f \<and> copied_renames env before db copy rs) (live_as before) (live_as before)"
    by (rule triple_assume) (simp, rule triple_bind [OF names], rule triple_assume [OF rewrap])
qed

lemma copy_triple:
  assumes ok: "rotatable env before"
  shows "triple readable False (probing before) (prepare_rekeyed_copy env)
    (\<lambda>rs f. \<exists>db copy. copied before copy f \<and> copied_renames env before db copy rs) (live_as before) (live_as before)"
  unfolding prepare_rekeyed_copy_def
proof (rule triple_seq)
  have c: "clean before" using ok by (simp add: rotatable_def)
  show "triple readable False (probing before) (create_new Rekey_Io (File New_Db) (re_empty env)) (\<lambda>_. copied before (re_empty env))
      (live_as before) (live_as before)"
    unfolding create_new_def
    by (rule triple_effect) (auto simp: probe_live [OF c] copied_def beside_def split: if_splits)
  have main: "triple readable False (copied before (re_empty env))
      (bind_io (read_file Rekey_Io (File Db)) (\<lambda>db. seq_io (sqlite_write New_Db (re_export env db))
         (bind_io (rewrap_attachments env) (\<lambda>renames. seq_io (assert_no_side_files New_Db) (give renames)))))
      (\<lambda>rs f. \<exists>db copy. copied before copy f \<and> copied_renames env before db copy rs) (live_as before) (live_as before)"
  proof (rule triple_bind)
    show "triple readable False (copied before (re_empty env)) (read_file Rekey_Io (File Db))
        (\<lambda>db f. copied before (re_empty env) f \<and> before (File Db) = Some db) (live_as before) (live_as before)"
      by (rule read_triple) (auto simp: copied_live [OF c] copied_def beside_def)
    fix db
    show "triple readable False (\<lambda>f. copied before (re_empty env) f \<and> before (File Db) = Some db)
        (seq_io (sqlite_write New_Db (re_export env db))
          (bind_io (rewrap_attachments env) (\<lambda>renames. seq_io (assert_no_side_files New_Db) (give renames))))
        (\<lambda>rs f. \<exists>db copy. copied before copy f \<and> copied_renames env before db copy rs) (live_as before) (live_as before)"
    proof (rule triple_assume, rule triple_seq)
      assume db: "before (File Db) = Some db"
      show "triple readable False (copied before (re_empty env)) (sqlite_write New_Db (re_export env db))
          (\<lambda>_. copied before (re_export env db)) (live_as before) (live_as before)"
        by (rule sqlite_write_triple) (auto simp: copied_live [OF c] live_scratch, auto simp: copied_def beside_def)
      have "triple readable False (\<lambda>f. \<exists>copy. copied before copy f \<and> copied_renames env before db copy rs)
          (seq_io (assert_no_side_files New_Db) (give rs))
          (\<lambda>rs f. \<exists>db copy. copied before copy f \<and> copied_renames env before db copy rs) (live_as before) (live_as before)" for rs
        by (rule triple_seq, rule no_sides_triple) (auto simp: copied_live [OF c] intro!: triple_give)
      then show "triple readable False (copied before (re_export env db))
          (bind_io (rewrap_attachments env) (\<lambda>renames. seq_io (assert_no_side_files New_Db) (give renames)))
          (\<lambda>rs f. \<exists>db copy. copied before copy f \<and> copied_renames env before db copy rs) (live_as before) (live_as before)"
        by (rule triple_bind [OF rewrap_triple [OF ok db]])
    qed
  qed
  show "triple readable False (copied before (re_empty env))
      (if \<not> re_worker_healthy env then throw (Persistence ''worker'')
       else bind_io (read_file Rekey_Io (File Db)) (\<lambda>db. seq_io (sqlite_write New_Db (re_export env db))
         (bind_io (rewrap_attachments env) (\<lambda>renames. seq_io (assert_no_side_files New_Db) (give renames)))))
      (\<lambda>rs f. \<exists>db copy. copied before copy f \<and> copied_renames env before db copy rs) (live_as before) (live_as before)"
    by (cases "re_worker_healthy env") (simp_all add: main triple_throw copied_live [OF c])
qed

end
