(* ===== verification/Rekey_Commit.thy ===== *)
theory Rekey_Commit
  imports Rekey_Prepare
begin

text \<open>
  The images, the journal, the links and the commit point of a rotation, and with them the whole of
  \<^verbatim>\<open>prepare_and_commit\<close>.
\<close>

section \<open>The images\<close>

abbreviation wanted :: "'c rekey_env \<Rightarrow> (path \<rightharpoonup> 'c) \<Rightarrow> string set \<Rightarrow> path set" where
  "wanted env before is \<equiv> (\<lambda>i. File (Image_New i)) ` {i \<in> is. wanted_image env before i}"

definition imaged :: "'c rekey_env \<Rightarrow> (path \<rightharpoonup> 'c) \<Rightarrow> 'c \<Rightarrow> string set \<Rightarrow> (path \<rightharpoonup> 'c) \<Rightarrow> bool" where
  "imaged env before c is f \<longleftrightarrow>
     f (File New_Db) = Some c \<and>
     (\<forall>i\<in>is. wanted_image env before i \<longrightarrow> f (File (Image_New i)) = planned_image_content env before i) \<and>
     beside before ({Blob link_probe, File New_Db} \<union> wanted env before is) f"

lemma imaged_live:
  assumes "clean before" "is \<subseteq> set image_files" "imaged env before c is f"
  shows "live_as before f"
  by (rule beside_live [of _ "{Blob link_probe, File New_Db} \<union> wanted env before is"])
    (use assms in \<open>auto simp: imaged_def\<close>)

definition exporting :: "'c rekey_env \<Rightarrow> (path \<rightharpoonup> 'c) \<Rightarrow> 'c \<Rightarrow> string set \<Rightarrow> string \<Rightarrow> 'c \<Rightarrow> (path \<rightharpoonup> 'c) \<Rightarrow> bool" where
  "exporting env before c is i x f \<longleftrightarrow>
     f (File (Image_New i)) = Some x \<and> imaged env before c is (f(File (Image_New i) := None))"

lemma exporting_live:
  assumes "clean before" "is \<subseteq> set image_files" "i \<in> set image_files" "exporting env before c is i x f"
  shows "live_as before f"
proof -
  have "live_as before (f(File (Image_New i) := None))"
    by (rule imaged_live [OF assms(1,2), of env c]) (use assms(4) in \<open>simp add: exporting_def\<close>)
  then have "live_as before ((f(File (Image_New i) := None))(File (Image_New i) := f (File (Image_New i))))"
    by (rule live_scratch) (use assms(3) in auto)
  then show ?thesis by simp
qed

lemma fresh_image:
  assumes "clean before" "i \<in> set image_files" "i \<notin> is" "imaged env before c is f"
  shows "f (File (Image_New i)) = None" "f (File (Image k)) = before (File (Image k))"
  using assms by (auto simp: imaged_def beside_def clean_def)

lemma fresh_update:
  assumes "clean before" "i \<in> set image_files" "i \<notin> is" "imaged env before c is f"
  shows "f(File (Image_New i) := None) = f"
  using fresh_image(1) [OF assms] by auto

lemma exporting_imaged:
  assumes "before (File (Image i)) = Some x" "wanted_image env before i" "i \<notin> is"
    and "exporting env before c is i (re_export env x) f"
  shows "imaged env before c (insert i is) f"
proof -
  let ?g = "f(File (Image_New i) := None)"
  have f: "f (File (Image_New i)) = Some (re_export env x)" and g: "imaged env before c is ?g"
    using assms(4) by (simp_all add: exporting_def)
  have "f (File (Image_New k)) = planned_image_content env before k" if "k \<in> insert i is" "wanted_image env before k" for k
  proof (cases "k = i")
    case True
    then show ?thesis using f assms(1,2) by (simp add: planned_image_content_def)
  next
    case False
    then show ?thesis using g that by (auto simp: imaged_def)
  qed
  moreover have "f p = before p" if "p \<notin> {Blob link_probe, File New_Db} \<union> wanted env before (insert i is)" for p
  proof -
    have "p \<noteq> File (Image_New i)" using that assms(2) by auto
    then have "f p = ?g p" by simp
    also have "\<dots> = before p" using g that by (auto simp: imaged_def beside_def)
    finally show ?thesis .
  qed
  moreover have "f (File New_Db) = Some c" using g by (simp add: imaged_def)
  ultimately show ?thesis by (simp add: imaged_def beside_def)
qed

lemma export_image_triple:
  assumes c: "clean before" and s: "is \<subseteq> set image_files" "i \<in> set image_files" "i \<notin> is"
    and x: "before (File (Image i)) = Some x" "wanted_image env before i"
  shows "triple readable False (imaged env before c is) (export_image env i x)
    (\<lambda>_ f. imaged env before c (insert i is) f \<and> f (File (Image_New i)) = Some (re_export env x))
    (live_as before) (live_as before)"
  unfolding export_image_def
proof (rule triple_seq)
  let ?exp = "exporting env before c is i"
  note live = exporting_live [OF c s(1,2)]
  show "triple readable False (imaged env before c is) (create_new Rekey_Io (File (Image_New i)) (re_empty env))
      (\<lambda>_. ?exp (re_empty env)) (live_as before) (live_as before)"
    unfolding create_new_def
    by (rule triple_effect) (auto simp: imaged_live [OF c s(1)] exporting_def fresh_update [OF c s(2,3)] split: if_splits)
  have sql: "triple readable False (?exp (re_empty env)) (sqlite_write (Image_New i) (re_export env x))
      (\<lambda>_. ?exp (re_export env x)) (live_as before) (live_as before)"
    by (rule sqlite_write_triple) (auto simp: live live_scratch s(2), auto simp: exporting_def)
  have check: "triple readable False (?exp (re_export env x)) (read_file Rekey_Io (File (Image_New i)))
      (\<lambda>_. ?exp (re_export env x)) (live_as before) (live_as before)"
    by (rule read_triple) (auto simp: live)
  have sync: "triple readable False (?exp (re_export env x)) (seq_io (assert_no_side_files (Image_New i)) sync_to_disk)
      (\<lambda>_. ?exp (re_export env x)) (live_as before) (live_as before)"
    by (rule triple_seq [OF no_sides_triple sync_triple]) (auto simp: live)
  have "triple readable False (?exp (re_export env x))
      (if \<not> re_image_ok env y then throw (Persistence ''image'') else seq_io (assert_no_side_files (Image_New i)) sync_to_disk)
      (\<lambda>_ f. imaged env before c (insert i is) f \<and> f (File (Image_New i)) = Some (re_export env x))
      (live_as before) (live_as before)" for y
  proof (cases "re_image_ok env y")
    case True
    then show ?thesis
      by (simp, intro triple_weaken [OF sync]) (auto simp: exporting_imaged [OF x s(3)], auto simp: exporting_def)
  qed (simp add: triple_throw live)
  then show "triple readable False (?exp (re_empty env))
      (seq_io (sqlite_write (Image_New i) (re_export env x)) (bind_io (read_file Rekey_Io (File (Image_New i))) (\<lambda>copy.
         if \<not> re_image_ok env copy then throw (Persistence ''image'')
         else seq_io (assert_no_side_files (Image_New i)) sync_to_disk)))
      (\<lambda>_ f. imaged env before c (insert i is) f \<and> f (File (Image_New i)) = Some (re_export env x))
      (live_as before) (live_as before)"
    by (intro triple_seq [OF sql] triple_bind [OF check])
qed

lemma sha256_known:
  assumes "\<And>f. P f \<Longrightarrow> f p = Some c" "\<And>f. P f \<Longrightarrow> E f" "\<And>f. P f \<Longrightarrow> C f"
  shows "triple readable False P (sha256_file env p) (\<lambda>h f. P f \<and> h = re_sha256 env c) E C"
  by (rule triple_weaken [OF triple_partial [OF sha256_triple [of P p c]]]) (use assms in auto)

lemma keep_image:
  "imaged env before c is f \<Longrightarrow> \<not> wanted_image env before i \<Longrightarrow> imaged env before c (insert i is) f"
  by (auto simp: imaged_def beside_def)

lemma read_known:
  assumes "\<And>f. P f \<Longrightarrow> f p = Some c" "\<And>f. P f \<Longrightarrow> C f"
  shows "triple True complete P (attempt (read_file e p)) (\<lambda>r f. P f \<and> r = Inr c) E C"
  unfolding read_file_def
  by (rule triple_attempt [where complete = False and E = "\<lambda>_. False"], rule triple_query_readable) (use assms in auto)

lemma rekey_image_triple:
  assumes c: "clean before" and s: "is \<subseteq> set image_files" "i \<in> set image_files" "i \<notin> is"
  shows "triple True False (imaged env before c is) (rekey_image env i)
    (\<lambda>r f. imaged env before c (insert i is) f \<and> r = planned_image env before i) (live_as before) (live_as before)"
  unfolding rekey_image_def
proof (rule triple_exists)
  let ?P = "imaged env before c is"
  note live = imaged_live [OF c s(1)] and fresh = fresh_image [OF c s(2,3)]
  let ?none = "Some \<lparr>im_file = i, im_new_sha256 = None\<rparr>"
  let ?export = "\<lambda>c. seq_io (export_image env i c) (bind_io (sha256_file env (File (Image_New i))) (\<lambda>h.
      give (Some \<lparr>im_file = i, im_new_sha256 = Some h\<rparr>)))"
  let ?read = "\<lambda>there. if there then throw (Persistence ''an image rekey copy already exists'')
      else bind_io (attempt (read_file Rekey_Io (File (Image i)))) (\<lambda>r. case r of Inl _ \<Rightarrow> give ?none
        | Inr c \<Rightarrow> if re_image_readable env c then ?export c else give ?none)"
  let ?Q = "\<lambda>r f. imaged env before c (insert i is) f \<and> r = planned_image env before i"
  show "triple True False (\<lambda>f. ?P f \<and> f (File (Image i)) = None)
      (if \<not> False then give None else bind_io (exists_io (File (Image_New i))) ?read) ?Q (live_as before) (live_as before)"
    using fresh(2) by (auto intro!: triple_give keep_image simp: wanted_image_def planned_image_def)
  have present: "triple True False ?P (bind_io (exists_io (File (Image_New i))) ?read) ?Q (live_as before) (live_as before)"
    if x: "before (File (Image i)) = Some x" for x
  proof (rule triple_exists)
    show "triple True False (\<lambda>f. ?P f \<and> f (File (Image_New i)) \<noteq> None) (?read True) ?Q (live_as before) (live_as before)"
      by (simp, rule triple_throw) (auto dest: live)
    have reads: "triple True False (\<lambda>f. ?P f \<and> f (File (Image_New i)) = None) (attempt (read_file Rekey_Io (File (Image i))))
        (\<lambda>r f. (?P f \<and> f (File (Image_New i)) = None) \<and> r = Inr x) (live_as before) (live_as before)"
      by (rule read_known) (auto simp: live fresh x)
    have exports: "triple True False (\<lambda>f. ?P f \<and> f (File (Image_New i)) = None)
        (if re_image_readable env x then ?export x else give ?none) ?Q (live_as before) (live_as before)"
    proof (cases "re_image_readable env x")
      case True
      then have w: "wanted_image env before i" using x by (simp add: wanted_image_def)
      have "planned_image env before i = Some \<lparr>im_file = i, im_new_sha256 = Some (re_sha256 env (re_export env x))\<rparr>"
        using x w by (simp add: planned_image_def planned_image_content_def)
      moreover have "triple True False (\<lambda>f. imaged env before c (insert i is) f \<and> f (File (Image_New i)) = Some (re_export env x))
          (sha256_file env (File (Image_New i)))
          (\<lambda>h f. (imaged env before c (insert i is) f \<and> f (File (Image_New i)) = Some (re_export env x)) \<and>
            h = re_sha256 env (re_export env x)) (live_as before) (live_as before)"
        by (rule sha256_known) (use s in \<open>auto simp: imaged_live [OF c, of "insert i is"]\<close>)
      ultimately have "triple True False (imaged env before c is) (?export x) ?Q (live_as before) (live_as before)"
        by (intro triple_seq [OF export_image_triple [OF c s x w]]) (erule triple_bind, auto intro!: triple_give)
      then show ?thesis using True by (simp, elim triple_weaken) auto
    next
      case False
      then have "\<not> wanted_image env before i" using x by (simp add: wanted_image_def)
      moreover from this have "planned_image env before i = ?none" using x by (simp add: planned_image_def planned_image_content_def)
      ultimately show ?thesis using False by (auto intro!: triple_give keep_image)
    qed
    have "triple True False (\<lambda>f. (?P f \<and> f (File (Image_New i)) = None) \<and> r = Inr x)
        (case r of Inl _ \<Rightarrow> give ?none | Inr c \<Rightarrow> if re_image_readable env c then ?export c else give ?none)
        ?Q (live_as before) (live_as before)" for r :: "(rekey_error, 'a) res"
    proof (rule triple_assume)
      assume r: "r = Inr x"
      show "triple True False (\<lambda>f. ?P f \<and> f (File (Image_New i)) = None)
          (case r of Inl _ \<Rightarrow> give ?none | Inr c \<Rightarrow> if re_image_readable env c then ?export c else give ?none)
          ?Q (live_as before) (live_as before)"
        unfolding r sum.case by (rule exports)
    qed
    then show "triple True False (\<lambda>f. ?P f \<and> f (File (Image_New i)) = None) (?read False) ?Q (live_as before) (live_as before)"
      unfolding if_False by (rule triple_bind [OF reads])
  qed
  show "triple True False (\<lambda>f. ?P f \<and> f (File (Image i)) \<noteq> None)
      (if \<not> True then give None else bind_io (exists_io (File (Image_New i))) ?read) ?Q (live_as before) (live_as before)"
  proof (cases "before (File (Image i))")
    case None
    then show ?thesis using fresh(2) by (auto simp: triple_def)
  next
    case (Some x)
    then show ?thesis by (simp, intro triple_weaken [OF present [OF Some]]) auto
  qed
qed

abbreviation all_images :: "string set" where "all_images \<equiv> set image_files"

lemma all_imaged_live: "clean before \<Longrightarrow> imaged env before c all_images f \<Longrightarrow> live_as before f"
  by (rule imaged_live) auto

lemma planned_images_iff:
  "r \<in> set (planned_images env before) \<longleftrightarrow> (\<exists>i\<in>all_images. planned_image env before i = Some r)"
  by (auto simp: planned_images_def map_filter_def image_iff)

lemma planned_image_file: "planned_image env before i = Some r \<Longrightarrow> im_file r = i \<and> before (File (Image i)) \<noteq> None"
  by (auto simp: planned_image_def split: if_splits)

lemma planned_images_distinct: "distinct (map im_file (planned_images env before))"
  using not_both
  by (cases "planned_image env before base_image_file"; cases "planned_image env before pre_rebase_file")
    (auto simp: planned_images_def map_filter_def image_files_def dest!: planned_image_file)

lemma imaged_image: "imaged env before c is f \<Longrightarrow> f (File (Image k)) = before (File (Image k))"
  by (auto simp: imaged_def beside_def)

lemma record_base_triple:
  assumes c: "clean before"
  shows "triple True False (imaged env before copy all_images)
    (record_base env (re_ready_base env db) (planned_images env before))
    (\<lambda>_. imaged env before (planned_base env before db copy) all_images) (live_as before) (live_as before)"
proof (cases "find (\<lambda>i. im_file i = base_image_file) (planned_images env before)")
  case None
  then show ?thesis by (simp add: record_base_def planned_base_def triple_give)
next
  case (Some b)
  let ?P = "imaged env before copy all_images" and ?copy' = "re_set_base env (im_new_sha256 b) copy"
  note live = all_imaged_live [OF c]
  have "b \<in> set (planned_images env before)" "im_file b = base_image_file"
    using Some by (auto simp: find_Some_iff)
  then have "before (File (Image base_image_file)) \<noteq> None"
    by (auto simp: planned_images_iff dest: planned_image_file)
  then obtain x where x: "before (File (Image base_image_file)) = Some x" by blast
  let ?ready = "re_ready_base env db = Some (re_sha256 env x)"
  have planned: "planned_base env before db copy = (if ?ready then ?copy' else copy)"
    using Some x by (auto simp: planned_base_def)
  have ready: "triple True False ?P (base_ready env (re_ready_base env db)) (\<lambda>r f. ?P f \<and> r = ?ready) (live_as before) (live_as before)"
  proof (cases "re_ready_base env db")
    case (Some digest)
    have at: "?P f \<Longrightarrow> f (File (Image base_image_file)) = Some x" for f using x imaged_image by metis
    have "triple True False ?P (attempt (sha256_file env (File (Image base_image_file))))
        (\<lambda>r f. ?P f \<and> r = Inr (re_sha256 env x)) (live_as before) (live_as before)"
    proof (rule triple_attempt [where complete = False and E = "\<lambda>_. False"])
      show "triple True False ?P (sha256_file env (File (Image base_image_file)))
          (\<lambda>h f. ?P f \<and> Inr h = Inr (re_sha256 env x)) (\<lambda>_. False) (live_as before)"
        unfolding sha256_file_def read_file_def
        by (rule triple_bind [OF triple_query_readable [where Q = "\<lambda>y f. ?P f \<and> y = x"]])
          (auto simp: at live intro: triple_give)
    qed simp
    then show ?thesis unfolding base_ready_def Some option.case by (rule triple_bind) (auto intro: triple_give)
  qed (simp add: base_ready_def triple_give)
  have update: "triple True False ?P (bind_io (read_file Rekey_Io (File New_Db)) (\<lambda>copy.
       seq_io (sqlite_write New_Db (re_set_base env (im_new_sha256 b) copy)) (assert_no_side_files New_Db)))
      (\<lambda>_. imaged env before ?copy' all_images) (live_as before) (live_as before)"
  proof (rule triple_bind)
    show "triple True False ?P (read_file Rekey_Io (File New_Db)) (\<lambda>y f. ?P f \<and> y = copy) (live_as before) (live_as before)"
      by (rule read_triple) (auto simp: live, auto simp: imaged_def)
    fix y
    have "triple True False ?P (sqlite_write New_Db ?copy') (\<lambda>_. imaged env before ?copy' all_images) (live_as before) (live_as before)"
      by (rule sqlite_write_triple) (auto simp: live live_scratch, auto simp: imaged_def beside_def)
    then have "triple True False ?P (seq_io (sqlite_write New_Db ?copy') (assert_no_side_files New_Db))
        (\<lambda>_. imaged env before ?copy' all_images) (live_as before) (live_as before)"
      by (rule triple_seq [OF _ no_sides_triple]) (auto simp: live)
    then show "triple True False (\<lambda>f. ?P f \<and> y = copy)
        (seq_io (sqlite_write New_Db (re_set_base env (im_new_sha256 b) y)) (assert_no_side_files New_Db))
        (\<lambda>_. imaged env before ?copy' all_images) (live_as before) (live_as before)"
      by (intro triple_assume) simp
  qed
  have "triple True False (\<lambda>f. ?P f \<and> r = ?ready)
      (when_io r (bind_io (read_file Rekey_Io (File New_Db)) (\<lambda>copy.
         seq_io (sqlite_write New_Db (re_set_base env (im_new_sha256 b) copy)) (assert_no_side_files New_Db))))
      (\<lambda>_. imaged env before (planned_base env before db copy) all_images) (live_as before) (live_as before)" for r
    by (rule triple_assume) (use update in \<open>auto simp: planned when_io_def intro: triple_give\<close>)
  then show ?thesis unfolding record_base_def Some option.case by (rule triple_bind [OF ready])
qed

lemma copied_imaged: "copied before c f \<longleftrightarrow> imaged env before c {} f"
  by (auto simp: copied_def imaged_def)

lemma images_triple:
  assumes c: "clean before" and db: "before (File Db) = Some db"
  shows "triple True False (copied before copy) (prepare_rekeyed_images env)
    (\<lambda>images f. imaged env before (planned_base env before db copy) all_images f \<and> images = planned_images env before)
    (live_as before) (live_as before)"
  unfolding prepare_rekeyed_images_def
proof (rule triple_seq)
  let ?Q = "\<lambda>images f. imaged env before (planned_base env before db copy) all_images f \<and> images = planned_images env before"
  note live = copied_live [OF c]
  have no_temp: "before (File (Image base_image_temp)) = None" "before (Side (Image base_image_temp) s) = None" for s
    using c by (simp_all add: clean_def)
  show "triple True False (copied before copy)
      (for_io (File (Image base_image_temp) # map (Side (Image base_image_temp)) side_suffixes) remove_if_present)
      (\<lambda>_. copied before copy) (live_as before) (live_as before)"
    by (rule triple_for_const, rule remove_triple) (auto simp: live, auto simp: copied_def beside_def no_temp)
  have two: "map_io body image_files =
      bind_io (body base_image_file) (\<lambda>x. bind_io (body pre_rebase_file) (\<lambda>y. give [x, y]))" for body :: "string \<Rightarrow> ('a, image_record option) rio"
    by (auto simp: image_files_def fun_eq_iff bind_io_def give_def split: prod.splits outcome.splits)
  have first: "triple True False (copied before copy) (rekey_image env base_image_file)
      (\<lambda>r f. imaged env before copy {base_image_file} f \<and> r = planned_image env before base_image_file)
      (live_as before) (live_as before)"
  proof -
    have "triple True False (imaged env before copy {}) (rekey_image env base_image_file)
        (\<lambda>r f. imaged env before copy {base_image_file} f \<and> r = planned_image env before base_image_file)
        (live_as before) (live_as before)"
      by (rule rekey_image_triple [OF c]) (auto simp: image_files_def)
    then show ?thesis by (rule triple_weaken) (auto simp: copied_imaged [of _ _ _ env])
  qed
  have second: "triple True False (imaged env before copy {base_image_file}) (rekey_image env pre_rebase_file)
      (\<lambda>r f. imaged env before copy all_images f \<and> r = planned_image env before pre_rebase_file)
      (live_as before) (live_as before)"
    using rekey_image_triple [OF c, of "{base_image_file}" pre_rebase_file env copy] not_both
    by (simp add: image_files_def insert_commute)
  have both: "triple True False (copied before copy) (map_io (rekey_image env) image_files)
      (\<lambda>found f. imaged env before copy all_images f \<and> List.map_filter id found = planned_images env before)
      (live_as before) (live_as before)"
    unfolding two
    by (rule triple_bind [OF first], rule triple_assume, rule triple_bind [OF second], rule triple_assume, rule triple_give)
      (simp add: planned_images_def image_files_def)
  have "triple True False (\<lambda>f. imaged env before copy all_images f \<and> List.map_filter id found = planned_images env before)
      (let images = List.map_filter id found in seq_io (record_base env (re_ready_base env db) images) (give images))
      ?Q (live_as before) (live_as before)" for found
    unfolding Let_def
    by (rule triple_assume) (simp, rule triple_seq [OF record_base_triple [OF c]], rule triple_give, simp)
  then have rest: "triple True False (copied before copy) (bind_io (map_io (rekey_image env) image_files) (\<lambda>found.
      let images = List.map_filter id found in seq_io (record_base env (re_ready_base env db) images) (give images)))
      ?Q (live_as before) (live_as before)"
    by (rule triple_bind [OF both])
  show "triple True False (copied before copy) (bind_io (read_file Rekey_Io (File Db)) (\<lambda>db.
      bind_io (map_io (rekey_image env) image_files) (\<lambda>found.
      let images = List.map_filter id found in seq_io (record_base env (re_ready_base env db) images) (give images))))
      ?Q (live_as before) (live_as before)"
  proof (rule triple_bind)
    show "triple True False (copied before copy) (read_file Rekey_Io (File Db)) (\<lambda>d f. copied before copy f \<and> d = db)
        (live_as before) (live_as before)"
      by (rule read_triple) (auto simp: live, auto simp: copied_def beside_def db)
    show "triple True False (\<lambda>f. copied before copy f \<and> d = db) (bind_io (map_io (rekey_image env) image_files) (\<lambda>found.
        let images = List.map_filter id found in seq_io (record_base env (re_ready_base env d) images) (give images)))
        ?Q (live_as before) (live_as before)" for d
      by (rule triple_assume) (simp only: rest)
  qed
qed

section \<open>Journal, links and envelope\<close>

lemma write_journal_triple:
  assumes tmp: "\<And>f v. P f \<Longrightarrow> P (f(Journal_Tmp := v))"
    and moved: "\<And>f. P f \<Longrightarrow> Q (f(Journal_Tmp := None, Journal_File \<mapsto> re_to_json env j))"
    and bad: "\<And>f. P f \<Longrightarrow> bad f" "\<And>f. Q f \<Longrightarrow> bad f"
  shows "triple readable False P (write_journal env j) (\<lambda>_. Q) bad bad"
proof -
  let ?written = "\<lambda>f. P f \<and> f Journal_Tmp = Some (re_to_json env j)"
  have create: "triple readable False P (create_file Rekey_Io Journal_Tmp (re_empty env)) (\<lambda>_. P) bad bad"
    unfolding create_file_def by (rule triple_effect) (auto simp: tmp bad)
  have content: "triple readable False P (write_all Rekey_Io Journal_Tmp (re_to_json env j)) (\<lambda>_. ?written) bad bad"
    unfolding write_all_def by (rule triple_put) (auto simp: tmp bad)
  have sync: "triple readable False ?written sync_to_disk (\<lambda>_. ?written) bad bad"
    by (rule sync_triple) (auto simp: bad)
  have move: "triple readable False ?written (rename_path Journal_Tmp Journal_File) (\<lambda>_. Q) bad bad"
    unfolding rename_path_def by (rule triple_rename) (auto simp: bad moved)
  have last: "triple readable False Q (seq_io sync_to_disk (give ())) (\<lambda>_. Q) bad bad"
    by (rule triple_last, rule sync_triple) (auto simp: bad)
  show ?thesis
    unfolding write_journal_def do_all_simps
    by (rule triple_seq [OF create], rule triple_seq [OF content], rule triple_seq [OF sync], rule triple_seq [OF move last])
qed

definition staged_paths :: "'c rekey_env \<Rightarrow> (path \<rightharpoonup> 'c) \<Rightarrow> rename set \<Rightarrow> path set" where
  "staged_paths env before rs =
     {Blob link_probe, File New_Db, Journal_File, Journal_Tmp, New_Envelope} \<union> wanted env before all_images \<union> Blob ` rn_new ` rs"

definition staged :: "'c rekey_env \<Rightarrow> (path \<rightharpoonup> 'c) \<Rightarrow> 'c \<Rightarrow> journal \<Rightarrow> rename set \<Rightarrow> (path \<rightharpoonup> 'c) \<Rightarrow> bool" where
  "staged env before c j rs f \<longleftrightarrow>
     f Journal_File = Some (re_to_json env j) \<and> f (File New_Db) = Some c \<and>
     (\<forall>i\<in>all_images. wanted_image env before i \<longrightarrow> f (File (Image_New i)) = planned_image_content env before i) \<and>
     (\<forall>r\<in>rs. f (Blob (rn_new r)) = before (Blob (rn_old r))) \<and>
     beside before (staged_paths env before rs) f"

definition open_journal :: "(path \<rightharpoonup> 'c) \<Rightarrow> journal \<Rightarrow> bool" where
  "open_journal before j \<longleftrightarrow> j_version j = 1 \<and> j_state j \<noteq> Committed \<and> renames_ok before j"

lemma staged_undone_by:
  assumes "staged env before c j rs f" "rs \<subseteq> set (j_renames j)"
  shows "undone_by env before j f"
proof -
  have "p \<notin> staged_paths env before rs" if "\<not> scratch p" "p \<notin> Blob ` rn_new ` set (j_renames j)" for p
  proof -
    have "Blob ` rn_new ` rs \<subseteq> Blob ` rn_new ` set (j_renames j)" using assms(2) by blast
    then have "p \<notin> Blob ` rn_new ` rs" using that(2) by blast
    moreover have "p \<notin> wanted env before all_images" using that(1) by auto
    ultimately show ?thesis using that(1) by (auto simp: staged_paths_def)
  qed
  then show ?thesis using assms(1) unfolding undone_by_def staged_def beside_def by blast
qed

lemma staged_undone:
  "staged env before c j rs f \<Longrightarrow> rs \<subseteq> set (j_renames j) \<Longrightarrow> open_journal before j \<Longrightarrow> undone env before f"
  unfolding undone_def open_journal_def by (frule (1) staged_undone_by) blast

lemma staged_tmp: "staged env before c j rs f \<Longrightarrow> staged env before c j rs (f(Journal_Tmp := v))"
  by (auto simp: staged_def beside_def staged_paths_def)

lemma staged_envelope: "staged env before c j rs f \<Longrightarrow> staged env before c j rs (f(New_Envelope := v))"
  by (auto simp: staged_def beside_def staged_paths_def)

lemma staged_rewrite:
  "staged env before c j rs f \<Longrightarrow> staged env before c k rs (f(Journal_Tmp := None, Journal_File \<mapsto> re_to_json env k))"
  by (auto simp: staged_def beside_def staged_paths_def)

lemma imaged_staged:
  assumes "imaged env before c all_images f"
  shows "staged env before c j {} (f(Journal_Tmp := v, Journal_File \<mapsto> re_to_json env j))"
  using assms by (auto simp: staged_def imaged_def beside_def staged_paths_def)

lemma staged_blob:
  assumes s: "staged env before c j rs f" and r: "rs \<subseteq> set (j_renames j)" "r \<in> set (j_renames j)" "r \<notin> rs"
    and ok: "renames_ok before j"
  shows "f (Blob (rn_new r)) = None" "f (Blob (rn_old r)) = before (Blob (rn_old r))"
proof -
  have inj: "inj_on rn_new (set (j_renames j))" using ok by (simp add: renames_ok_def distinct_map)
  have news: "rn_new r \<notin> rn_new ` rs" using r inj unfolding inj_on_def by blast
  have olds: "rn_old r \<notin> rn_new ` rs"
  proof
    assume "rn_old r \<in> rn_new ` rs"
    then obtain q where "q \<in> set (j_renames j)" "rn_old r = rn_new q" using r(1) by auto
    then show False using ok r(2) unfolding renames_ok_def by metis
  qed
  have probe: "rn_new r \<noteq> link_probe" "rn_old r \<noteq> link_probe" "before (Blob (rn_new r)) = None"
    using ok r(2) by (auto simp: renames_ok_def)
  show "f (Blob (rn_new r)) = None" "f (Blob (rn_old r)) = before (Blob (rn_old r))"
    using s news olds probe by (auto simp: staged_def beside_def staged_paths_def)
qed

lemma staged_link:
  assumes s: "staged env before c j rs f" and r: "rs \<subseteq> set (j_renames j)" "r \<in> set (j_renames j)" "r \<notin> rs"
    and ok: "renames_ok before j" and b: "before (Blob (rn_old r)) = Some b"
  shows "staged env before c j (insert r rs) (f(Blob (rn_new r) \<mapsto> b))"
proof -
  have "inj_on rn_new (set (j_renames j))" using ok by (simp add: renames_ok_def distinct_map)
  then have "rn_new q \<noteq> rn_new r" if "q \<in> rs" for q using r that unfolding inj_on_def by blast
  then show ?thesis using s b by (auto simp: staged_def beside_def staged_paths_def)
qed

lemma undone_blob:
  assumes "undone_by env before j f" "r \<in> set (j_renames j)"
  shows "undone_by env before j (f(Blob (rn_new r) := v))"
  using assms by (auto simp: undone_by_def)

lemma link_triple:
  assumes j: "open_journal before j" and r: "rs \<subseteq> set (j_renames j)" "r \<in> set (j_renames j)" "r \<notin> rs"
  shows "triple readable False (staged env before c j rs) (link_or_copy (Blob (rn_old r)) (Blob (rn_new r)))
    (\<lambda>_. staged env before c j (insert r rs)) (undone env before) (undone env before)"
  unfolding link_or_copy_def
proof (rule triple_bind)
  have ok: "renames_ok before j" using j by (simp add: open_journal_def)
  note blob = staged_blob [OF _ r ok] and undone = staged_undone [OF _ r(1) j]
  let ?Q = "\<lambda>l f. (l = Linked \<longrightarrow> staged env before c j (insert r rs) f) \<and> (l = Not_Linked \<longrightarrow> staged env before c j rs f) \<and> l \<noteq> Already_There"
  show "triple readable False (staged env before c j rs) (hard_link (Blob (rn_old r)) (Blob (rn_new r))) ?Q
      (undone env before) (undone env before)"
    by (rule hard_link_triple) (auto simp: undone blob intro: staged_link [OF _ r ok])
  have "triple readable False (staged env before c j rs) (copy_file (Blob (rn_old r)) (Blob (rn_new r)))
      (\<lambda>_. staged env before c j (insert r rs)) (undone env before) (undone env before)"
    unfolding copy_file_def
  proof (rule triple_bind)
    show "triple readable False (staged env before c j rs) (read_file Rekey_Io (Blob (rn_old r)))
        (\<lambda>b f. staged env before c j rs f \<and> before (Blob (rn_old r)) = Some b) (undone env before) (undone env before)"
      by (rule read_triple) (auto simp: undone blob)
    fix b
    have torn: "undone env before (f(Blob (rn_new r) \<mapsto> x))" if "staged env before c j rs f" for f x
      using undone_blob [OF staged_undone_by [OF that r(1)] r(2)] j unfolding undone_def open_journal_def by blast
    show "triple readable False (\<lambda>f. staged env before c j rs f \<and> before (Blob (rn_old r)) = Some b)
        (write_all Rekey_Io (Blob (rn_new r)) b) (\<lambda>_. staged env before c j (insert r rs)) (undone env before) (undone env before)"
      unfolding write_all_def
      by (rule triple_assume, rule triple_put) (auto simp: undone torn intro: staged_link [OF _ r ok])
  qed
  then have copy: "triple readable False (staged env before c j rs) (seq_io (copy_file (Blob (rn_old r)) (Blob (rn_new r))) sync_to_disk)
      (\<lambda>_. staged env before c j (insert r rs)) (undone env before) (undone env before)"
    by (rule triple_seq [OF _ sync_triple]) (use r j in \<open>auto intro!: staged_undone\<close>)
  show "triple readable False (?Q l)
      (case l of Linked \<Rightarrow> give () | Already_There \<Rightarrow> throw (Rekey_Vault ''rekey blob link target already exists'')
       | Not_Linked \<Rightarrow> seq_io (copy_file (Blob (rn_old r)) (Blob (rn_new r))) sync_to_disk)
      (\<lambda>_. staged env before c j (insert r rs)) (undone env before) (undone env before)" for l
  proof (cases l)
    case Linked
    then show ?thesis by (auto intro: triple_give)
  next
    case Already_There
    then show ?thesis by (simp add: triple_def)
  next
    case Not_Linked
    then show ?thesis using copy by simp
  qed
qed

lemma links_triple:
  assumes j: "open_journal before j"
  shows "triple readable False (staged env before c j {})
    (for_io (j_renames j) (\<lambda>r. link_or_copy (Blob (rn_old r)) (Blob (rn_new r))))
    (\<lambda>_. staged env before c j (set (j_renames j))) (undone env before) (undone env before)"
proof -
  have "distinct (j_renames j)" using j by (simp add: open_journal_def renames_ok_def distinct_map)
  have "triple readable False (staged env before c j (set [])) 
      (for_io (j_renames j) (\<lambda>r. link_or_copy (Blob (rn_old r)) (Blob (rn_new r))))
      (\<lambda>_. staged env before c j (set (j_renames j))) (undone env before) (undone env before)"
  proof (rule triple_for [where I = "\<lambda>seen. staged env before c j (set seen)"])
    fix seen r rest
    assume split: "j_renames j = seen @ r # rest"
    have r: "set seen \<subseteq> set (j_renames j)" "r \<in> set (j_renames j)" "r \<notin> set seen"
      using \<open>distinct (j_renames j)\<close> by (auto simp: split)
    show "triple readable False (staged env before c j (set seen)) (link_or_copy (Blob (rn_old r)) (Blob (rn_new r)))
        (\<lambda>_. staged env before c j (set (seen @ [r]))) (undone env before) (undone env before)"
      using link_triple [OF j r] by simp
  qed
  then show ?thesis by simp
qed

end
