(* ===== verification/Rekey_Safety.thy ===== *)
theory Rekey_Safety
  imports Rekey_Commit
begin

text \<open>
  The whole rotation: the commit point decides, and every way of failing, dying and recovering ends in the vault
  before or in the planned one.
\<close>

section \<open>The commit point\<close>

definition journal_of :: "'c rekey_env \<Rightarrow> 'c target \<Rightarrow> journal_state \<Rightarrow> journal" where
  "journal_of env t s =
     (tg_journal t)\<lparr>j_state := s, j_new_db_sha256 := (if s = Preparing then None else Some (re_sha256 env (tg_db t))),
                   j_new_envelope_sha256 := (if s = Preparing then None else Some (re_sha256 env (tg_envelope t)))\<rparr>"

lemma plan_target:
  assumes ok: "rotatable env before" and e: "re_new_envelope env = Inr envelope"
    and copy: "copied_renames env before db copy rs"
  obtains t where "plan env before = Some t" "target_ok env before t" "tg_db t = planned_base env before db copy"
    "tg_envelope t = envelope" "j_renames (tg_journal t) = rs" "j_images (tg_journal t) = planned_images env before"
    "tg_images t = planned_image_content env before"
    "journal_of env t Preparing = \<lparr>j_version = 1, j_state = Preparing, j_new_db_sha256 = None,
       j_new_envelope_sha256 = None, j_renames = rs, j_images = planned_images env before\<rparr>"
    "journal_of env t Committed = tg_journal t"
proof -
  let ?d = "planned_base env before db copy"
  let ?t = "\<lparr>tg_db = ?d, tg_envelope = envelope, tg_images = planned_image_content env before,
     tg_journal = \<lparr>j_version = 1, j_state = Committed, j_new_db_sha256 = Some (re_sha256 env ?d),
       j_new_envelope_sha256 = Some (re_sha256 env envelope), j_renames = rs, j_images = planned_images env before\<rparr>\<rparr>"
  have rs: "before (File Db) = Some db" "rs = planned_renames env before db" "re_rewrap env rs (re_export env db) = Some copy"
    using copy unfolding copied_renames_def by auto
  have plan: "plan env before = Some ?t" using rs e by (simp add: plan_def Let_def)
  have "distinct (map rn_new rs)" using ok rs(3) unfolding rotatable_def by blast
  then have renames: "renames_ok before (tg_journal ?t)" using copy by (simp add: renames_ok_def copied_renames_def)
  have "image_ok env ?t i" if "i \<in> set (planned_images env before)" for i
    using that by (auto simp: image_ok_def planned_images_iff planned_image_def split: if_splits)
  then have "target_ok env before ?t" using renames planned_images_distinct by (simp add: target_ok_def)
  from that [OF plan this] show ?thesis by (simp add: journal_of_def)
qed

definition prepared :: "'c rekey_env \<Rightarrow> (path \<rightharpoonup> 'c) \<Rightarrow> 'c target \<Rightarrow> journal_state \<Rightarrow> (path \<rightharpoonup> 'c) \<Rightarrow> bool" where
  "prepared env before t s f \<longleftrightarrow>
     staged env before (tg_db t) (journal_of env t s) (set (j_renames (tg_journal t))) f \<and>
     f New_Envelope = Some (tg_envelope t)"

lemma prepared_committed:
  assumes c: "clean before" and f: "prepared env before t s f" and img: "tg_images t = planned_image_content env before"
    "j_images (tg_journal t) = planned_images env before" and j: "journal_of env t Committed = tg_journal t"
  shows "committed env before t (f(Journal_Tmp := None, Journal_File \<mapsto> re_to_json env (tg_journal t)))"
proof -
  have s: "staged env before (tg_db t) (journal_of env t s) (set (j_renames (tg_journal t))) f"
    and e: "f New_Envelope = Some (tg_envelope t)"
    using f by (simp_all add: prepared_def)
  let ?f = "f(Journal_Tmp := None, Journal_File \<mapsto> re_to_json env (tg_journal t))"
  have "image_state t ?f r" if mem: "r \<in> set (planned_images env before)" for r
  proof -
    obtain i where i: "i \<in> all_images" "planned_image env before i = Some r" using mem unfolding planned_images_iff by blast
    then have r: "im_file r = i" "im_new_sha256 r = map_option (re_sha256 env) (planned_image_content env before i)"
      by (auto simp: planned_image_def split: if_splits)
    show ?thesis
    proof (cases "planned_image_content env before i")
      case (Some x)
      then have "wanted_image env before i" by (simp add: planned_image_content_def split: if_splits)
      then have "f (File (Image_New i)) = Some x" using s i(1) Some by (simp add: staged_def)
      then show ?thesis using r Some img(1) by (simp add: image_state_def moved_or_ready_def)
    qed (simp add: image_state_def r)
  qed
  moreover have "?f p = before p" if p: "\<not> touched (tg_journal t) p" for p
  proof -
    have "p \<notin> wanted env before all_images"
    proof
      assume "p \<in> wanted env before all_images"
      then obtain i where i: "p = File (Image_New i)" "i \<in> all_images" "wanted_image env before i" by blast
      then have "before (File (Image i)) \<noteq> None" by (auto simp: wanted_image_def split: option.splits)
      then obtain r where "planned_image env before i = Some r" "im_file r = i" by (simp add: planned_image_def)
      moreover from this have "r \<in> set (planned_images env before)" using i(2) unfolding planned_images_iff by blast
      ultimately have "i \<in> image_names (tg_journal t)" using img(2) by (auto simp: image_names_def)
      then show False using p i(1) by simp
    qed
    moreover have "p \<notin> Blob ` rn_new ` set (j_renames (tg_journal t))" using p by auto
    moreover have "p \<notin> {Blob link_probe, File New_Db, Journal_File, Journal_Tmp, New_Envelope}" using p by auto
    ultimately have "p \<notin> staged_paths env before (set (j_renames (tg_journal t)))" "p \<noteq> Journal_File" "p \<noteq> Journal_Tmp"
      by (auto simp: staged_paths_def)
    then show ?thesis using s by (simp add: staged_def beside_def)
  qed
  ultimately show ?thesis using s e img(2) by (simp add: committed_def staged_def moved_or_ready_def)
qed

definition possibly_committed :: "'c rekey_env \<Rightarrow> (path \<rightharpoonup> 'c) \<Rightarrow> (path \<rightharpoonup> 'c) \<Rightarrow> bool" where
  "possibly_committed env before f \<longleftrightarrow> undone env before f \<or> (\<exists>t. plan env before = Some t \<and> committed env before t f)"

definition good_plan :: "'c rekey_env \<Rightarrow> (path \<rightharpoonup> 'c) \<Rightarrow> 'c target \<Rightarrow> bool" where
  "good_plan env before t \<longleftrightarrow>
     rotatable env before \<and> plan env before = Some t \<and> target_ok env before t \<and>
     tg_images t = planned_image_content env before \<and> j_images (tg_journal t) = planned_images env before \<and>
     journal_of env t Committed = tg_journal t"

lemma journal_ok: "target_ok env before t \<Longrightarrow> s \<noteq> Committed \<Longrightarrow> open_journal before (journal_of env t s)"
  by (simp add: open_journal_def journal_of_def target_ok_def renames_ok_def)

lemma prepared_undone:
  "target_ok env before t \<Longrightarrow> s \<noteq> Committed \<Longrightarrow> prepared env before t s f \<Longrightarrow> undone env before f"
  unfolding prepared_def by (rule staged_undone [OF conjunct1 _ journal_ok]) (auto simp: journal_of_def)

lemma prepared_tmp: "prepared env before t s f \<Longrightarrow> prepared env before t s (f(Journal_Tmp := v))"
  by (simp add: prepared_def staged_tmp)

lemma commit_triple:
  assumes good: "good_plan env before t"
  shows "triple True False (prepared env before t Prepared) (commit_journal env (tg_journal t))
    (\<lambda>_. committed env before t) (undone env before) (possibly_committed env before)"
  unfolding commit_journal_def
proof (rule triple_bind)
  let ?bad = "\<lambda>f. prepared env before t Prepared f \<or> committed env before t f"
  let ?K = "committed env before t"
  have ok: "rotatable env before" and plan: "plan env before = Some t" and target: "target_ok env before t"
    and img: "tg_images t = planned_image_content env before" "j_images (tg_journal t) = planned_images env before"
    and j: "journal_of env t Committed = tg_journal t"
    using good by (simp_all add: good_plan_def)
  have json: "json_ok env" using ok by (simp add: rotatable_def)
  have clean: "clean before" using ok by (simp add: rotatable_def)
  have versions: "j_version (tg_journal t) = 1" "j_state (tg_journal t) = Committed"
    "j_version (journal_of env t Prepared) = 1" "j_state (journal_of env t Prepared) = Prepared"
    using target by (simp_all add: target_ok_def journal_of_def)
  have maybe: "?bad f \<Longrightarrow> possibly_committed env before f" for f
    using prepared_undone [OF target, of Prepared] plan by (auto simp: possibly_committed_def)
  show "triple True False (prepared env before t Prepared) (attempt (write_journal env (tg_journal t)))
      (\<lambda>r f. if r = Inr () then ?K f else ?bad f) (undone env before) (possibly_committed env before)"
  proof (rule triple_attempt [where complete = False and E = ?bad])
    have "triple True False (prepared env before t Prepared) (write_journal env (tg_journal t)) (\<lambda>_. ?K) ?bad ?bad"
      by (rule write_journal_triple) (auto simp: prepared_tmp prepared_committed [OF clean _ img j])
    then show "triple True False (prepared env before t Prepared) (write_journal env (tg_journal t))
        (\<lambda>x f. if Inr x = Inr () then ?K f else ?bad f) ?bad (possibly_committed env before)"
      by (rule triple_weaken) (use maybe in auto)
  qed simp
  fix r :: "(rekey_error, unit) res"
  show "triple True False (\<lambda>f. if r = Inr () then ?K f else ?bad f)
      (case r of Inl e \<Rightarrow> bind_io (read_journal env) (\<lambda>found. case found of
          Inr (Some k) \<Rightarrow> if j_state k = Committed then give () else throw e | _ \<Rightarrow> throw e)
       | Inr _ \<Rightarrow> give ()) (\<lambda>_. ?K) (undone env before) (possibly_committed env before)"
  proof (cases r)
    case (Inl e)
    let ?Q = "\<lambda>found f. ?K f \<and> found = Inr (Some (tg_journal t)) \<or>
      prepared env before t Prepared f \<and> found = Inr (Some (journal_of env t Prepared))"
    have at: "prepared env before t Prepared f \<Longrightarrow> f Journal_File = Some (re_to_json env (journal_of env t Prepared))"
      "?K f \<Longrightarrow> f Journal_File = Some (re_to_json env (tg_journal t))" for f
      by (simp_all add: prepared_def staged_def committed_def)
    have reads: "triple True False ?bad (read_journal env) ?Q (undone env before) (possibly_committed env before)"
      by (rule read_journal_readable) (auto simp: at decode_written [OF json] versions maybe)
    have decides: "triple True False (?Q found) (case found of
          Inr (Some k) \<Rightarrow> if j_state k = Committed then give () else throw e | _ \<Rightarrow> throw e)
        (\<lambda>_. ?K) (undone env before) (possibly_committed env before)" for found
    proof -
      have "tg_journal t \<noteq> journal_of env t Prepared" using versions by auto
      consider "found = Inr (Some (tg_journal t))" | "found = Inr (Some (journal_of env t Prepared))"
        | "\<And>f. \<not> ?Q found f" by blast
      then show ?thesis
      proof cases
        case 1
        then show ?thesis using \<open>tg_journal t \<noteq> journal_of env t Prepared\<close> versions by (simp add: triple_give)
      next
        case 2
        then show ?thesis
          using \<open>tg_journal t \<noteq> journal_of env t Prepared\<close> versions
          by (auto intro!: triple_throw prepared_undone [OF target, of Prepared])
      next
        case 3
        then show ?thesis unfolding triple_def by blast
      qed
    qed
    show ?thesis
      unfolding Inl sum.case by (simp only: sum.distinct if_False) (rule triple_bind [OF reads decides])
  qed (simp add: triple_give)
qed

section \<open>Preparing\<close>

lemma write_envelope_triple:
  assumes ok: "target_ok env before t"
  defines "P \<equiv> staged env before (tg_db t) (journal_of env t Preparing) (set (j_renames (tg_journal t)))"
  shows "triple readable False P (write_envelope env (tg_envelope t)) (\<lambda>_. prepared env before t Preparing)
    (undone env before) (undone env before)"
proof -
  have undone: "undone env before f" if "P f" for f
    using that unfolding P_def by (rule staged_undone [OF _ _ journal_ok [OF ok]]) (simp_all add: journal_of_def)
  have change: "P (f(New_Envelope := v))" if "P f" for f v using that unfolding P_def by (rule staged_envelope)
  have create: "triple readable False P (create_new Rekey_Io New_Envelope (re_empty env)) (\<lambda>_. P) (undone env before) (undone env before)"
    unfolding create_new_def by (rule triple_effect) (auto simp: undone change split: if_splits)
  have content: "triple readable False P (write_all Rekey_Io New_Envelope (tg_envelope t))
      (\<lambda>_. prepared env before t Preparing) (undone env before) (undone env before)"
    unfolding write_all_def by (rule triple_put) (auto simp: undone change prepared_def P_def [symmetric])
  have sync: "triple readable False (prepared env before t Preparing) (seq_io sync_to_disk (give ()))
      (\<lambda>_. prepared env before t Preparing) (undone env before) (undone env before)"
    by (rule triple_last, rule sync_triple) (auto intro: prepared_undone [OF ok, of Preparing])
  show ?thesis
    unfolding write_envelope_def do_all_simps by (rule triple_seq [OF create], rule triple_seq [OF content sync])
qed

lemma verify_triple:
  assumes "\<And>f. P f \<Longrightarrow> E f" "\<And>f. P f \<Longrightarrow> C f"
  shows "triple readable False P (verify_rekeyed_copy env) (\<lambda>_. P) E C"
  unfolding verify_rekeyed_copy_def
proof (rule triple_bind)
  show "triple readable False P (read_file Rekey_Io (File New_Db)) (\<lambda>_. P) E C" by (rule read_triple) (auto simp: assms)
  fix copy
  have names: "triple readable False P (map_io (\<lambda>n. exists_io (Blob n)) (re_storage_ids env copy)) (\<lambda>_. P) E C"
    by (rule triple_weaken [OF triple_map [where r = "\<lambda>_ _. True" and P = P]]) (auto simp: triple_def exists_io_def)
  have "triple readable False P (if \<not> list_all id bs then throw (Persistence ''rekeyed copy names a missing blob'')
      else assert_no_side_files New_Db) (\<lambda>_. P) E C" for bs
    by (cases "list_all id bs") (simp_all add: no_sides_triple triple_throw assms)
  then have "triple readable False P (bind_io (map_io (\<lambda>n. exists_io (Blob n)) (re_storage_ids env copy)) (\<lambda>there.
      if \<not> list_all id there then throw (Persistence ''rekeyed copy names a missing blob'')
      else assert_no_side_files New_Db)) (\<lambda>_. P) E C"
    by (rule triple_bind [OF names])
  then show "triple readable False P (if \<not> re_copy_ok env copy then throw (Persistence ''rekeyed copy'')
      else bind_io (map_io (\<lambda>n. exists_io (Blob n)) (re_storage_ids env copy)) (\<lambda>there.
        if \<not> list_all id there then throw (Persistence ''rekeyed copy names a missing blob'')
        else assert_no_side_files New_Db)) (\<lambda>_. P) E C"
    by (simp add: triple_throw assms)
qed

lemma first_journal_triple:
  assumes c: "clean before" and ok: "open_journal before j"
  shows "triple readable False (imaged env before d all_images) (write_journal env j)
    (\<lambda>_. staged env before d j {}) (undone env before) (undone env before)"
proof -
  let ?P = "\<lambda>f. imaged env before d all_images (f(Journal_Tmp := None))"
  have start: "?P f" if "imaged env before d all_images f" for f
  proof -
    have "f Journal_Tmp = before Journal_Tmp" using that by (auto simp: imaged_def beside_def)
    then have "f(Journal_Tmp := None) = f" using c by (auto simp: clean_def fun_upd_idem_iff)
    then show ?thesis using that by simp
  qed
  have bad: "undone env before f" if "?P f" for f
  proof -
    have "live_as before ((f(Journal_Tmp := None))(Journal_Tmp := f Journal_Tmp))"
      by (rule live_scratch [OF all_imaged_live [OF c that]]) auto
    then show ?thesis by (simp add: undone_def)
  qed
  have staged: "staged env before d j {} (f(Journal_Tmp := None, Journal_File \<mapsto> re_to_json env j))" if "?P f" for f
    using imaged_staged [OF that, of j None] by simp
  have "triple readable False ?P (write_journal env j) (\<lambda>_. staged env before d j {}) (undone env before) (undone env before)"
    by (rule write_journal_triple) (auto simp: bad staged intro: staged_undone [OF _ _ ok])
  then show ?thesis by (rule triple_weaken) (auto simp: start)
qed

lemma prepare_rest_triple:
  assumes good: "good_plan env before t"
  shows "triple True False (imaged env before (tg_db t) all_images)
    (seq_io (write_journal env (journal_of env t Preparing))
      (seq_io (for_io (j_renames (tg_journal t)) (\<lambda>r. link_or_copy (Blob (rn_old r)) (Blob (rn_new r))))
      (seq_io (when_io (re_blobs_dir env) sync_to_disk)
      (seq_io (write_envelope env (tg_envelope t))
      (seq_io (verify_rekeyed_copy env)
      (seq_io sync_to_disk
      (seq_io sync_to_disk
      (bind_io (sha256_file env (File New_Db)) (\<lambda>db_hash.
      (bind_io (sha256_file env New_Envelope) (\<lambda>envelope_hash.
      let j = (journal_of env t Preparing)\<lparr>j_state := Prepared, j_new_db_sha256 := Some db_hash,
               j_new_envelope_sha256 := Some envelope_hash\<rparr> in
      seq_io (write_journal env j) (commit_journal env (j\<lparr>j_state := Committed\<rparr>)))))))))))))
    (\<lambda>_. committed env before t) (undone env before) (possibly_committed env before)"
proof -
  have ok: "rotatable env before" and target: "target_ok env before t" and j: "journal_of env t Committed = tg_journal t"
    using good by (simp_all add: good_plan_def)
  have c: "clean before" using ok by (simp add: rotatable_def)
  let ?j = "journal_of env t Preparing" and ?U = "undone env before" and ?C = "possibly_committed env before"
  let ?S = "staged env before (tg_db t) ?j"
  let ?P = "prepared env before t"
  have opened: "open_journal before ?j" by (rule journal_ok [OF target]) simp
  have renames: "j_renames ?j = j_renames (tg_journal t)" by (simp add: journal_of_def)
  have weaken: "triple True False P a Q ?U ?U \<Longrightarrow> triple True False P a Q ?U ?C" for P Q and a :: "('a, 'z) rio"
    by (erule triple_weaken) (auto simp: possibly_committed_def)
  have undone: "?S (set (j_renames (tg_journal t))) f \<Longrightarrow> ?U f" "?P Preparing f \<Longrightarrow> ?U f" "?P Prepared f \<Longrightarrow> ?U f" for f
    using staged_undone [OF _ _ opened] renames prepared_undone [OF target, of Preparing] prepared_undone [OF target, of Prepared]
    by auto
  have first: "triple True False (imaged env before (tg_db t) all_images) (write_journal env ?j) (\<lambda>_. ?S {}) ?U ?U"
    by (rule first_journal_triple [OF c opened])
  have links: "triple True False (?S {}) (for_io (j_renames (tg_journal t)) (\<lambda>r. link_or_copy (Blob (rn_old r)) (Blob (rn_new r))))
      (\<lambda>_. ?S (set (j_renames (tg_journal t)))) ?U ?U"
    using links_triple [OF opened] by (simp add: renames)
  have blobs: "triple True False (?S (set (j_renames (tg_journal t)))) (when_io (re_blobs_dir env) sync_to_disk)
      (\<lambda>_. ?S (set (j_renames (tg_journal t)))) ?U ?U"
    by (rule triple_when, rule sync_triple) (auto simp: undone)
  have sync: "triple True False (?P Preparing) sync_to_disk (\<lambda>_. ?P Preparing) ?U ?U"
    by (rule sync_triple) (auto simp: undone)
  have verify: "triple True False (?P Preparing) (verify_rekeyed_copy env) (\<lambda>_. ?P Preparing) ?U ?U"
    by (rule verify_triple) (auto simp: undone)
  have db: "triple True False (?P Preparing) (sha256_file env (File New_Db))
      (\<lambda>h f. ?P Preparing f \<and> h = re_sha256 env (tg_db t)) ?U ?U"
    by (rule sha256_known) (auto simp: undone, simp add: prepared_def staged_def)
  have envelope: "triple True False (?P Preparing) (sha256_file env New_Envelope)
      (\<lambda>h f. ?P Preparing f \<and> h = re_sha256 env (tg_envelope t)) ?U ?U"
    by (rule sha256_known) (auto simp: undone, simp add: prepared_def)
  have second: "triple True False (?P Preparing) (write_journal env (journal_of env t Prepared)) (\<lambda>_. ?P Prepared) ?U ?U"
    by (rule write_journal_triple) (auto simp: undone prepared_tmp, auto simp: prepared_def intro: staged_rewrite)
  have journals: "?j\<lparr>j_state := Prepared, j_new_db_sha256 := Some (re_sha256 env (tg_db t)),
      j_new_envelope_sha256 := Some (re_sha256 env (tg_envelope t))\<rparr> = journal_of env t Prepared"
    "(journal_of env t Prepared)\<lparr>j_state := Committed\<rparr> = tg_journal t"
  proof -
    have "(journal_of env t Prepared)\<lparr>j_state := Committed\<rparr> = journal_of env t Committed"
      by (cases "tg_journal t") (simp add: journal_of_def)
    then show "(journal_of env t Prepared)\<lparr>j_state := Committed\<rparr> = tg_journal t" using j by simp
  qed (cases "tg_journal t", simp add: journal_of_def)
  have last: "triple True False (\<lambda>f. ?P Preparing f \<and> e = re_sha256 env (tg_envelope t))
      (let j = ?j\<lparr>j_state := Prepared, j_new_db_sha256 := Some (re_sha256 env (tg_db t)), j_new_envelope_sha256 := Some e\<rparr> in
       seq_io (write_journal env j) (commit_journal env (j\<lparr>j_state := Committed\<rparr>)))
      (\<lambda>_. committed env before t) ?U ?C" for e
  proof (rule triple_assume)
    assume e: "e = re_sha256 env (tg_envelope t)"
    show "triple True False (?P Preparing)
        (let j = ?j\<lparr>j_state := Prepared, j_new_db_sha256 := Some (re_sha256 env (tg_db t)), j_new_envelope_sha256 := Some e\<rparr> in
         seq_io (write_journal env j) (commit_journal env (j\<lparr>j_state := Committed\<rparr>)))
        (\<lambda>_. committed env before t) ?U ?C"
      unfolding e Let_def journals by (rule triple_seq [OF weaken [OF second] commit_triple [OF good]])
  qed
  have hashes: "triple True False (\<lambda>f. ?P Preparing f \<and> d = re_sha256 env (tg_db t))
      (bind_io (sha256_file env New_Envelope) (\<lambda>envelope_hash.
        let j = ?j\<lparr>j_state := Prepared, j_new_db_sha256 := Some d, j_new_envelope_sha256 := Some envelope_hash\<rparr> in
        seq_io (write_journal env j) (commit_journal env (j\<lparr>j_state := Committed\<rparr>))))
      (\<lambda>_. committed env before t) ?U ?C" for d
    by (rule triple_assume) (simp only: triple_bind [OF weaken [OF envelope] last])
  show ?thesis
    by (rule triple_seq [OF weaken [OF first]], rule triple_seq [OF weaken [OF links]], rule triple_seq [OF weaken [OF blobs]],
        rule triple_seq [OF weaken [OF write_envelope_triple [OF target]]], rule triple_seq [OF weaken [OF verify]],
        rule triple_seq [OF weaken [OF sync]], rule triple_seq [OF weaken [OF sync]],
        rule triple_bind [OF weaken [OF db] hashes])
qed

definition decided :: "'c rekey_env \<Rightarrow> (path \<rightharpoonup> 'c) \<Rightarrow> (path \<rightharpoonup> 'c) \<Rightarrow> bool" where
  "decided env before f \<longleftrightarrow> (\<exists>t. good_plan env before t \<and> committed env before t f)"

lemma decided_possibly: "decided env before f \<Longrightarrow> possibly_committed env before f"
  by (auto simp: decided_def possibly_committed_def good_plan_def)

lemma prepare_inner_triple:
  assumes ok: "rotatable env before"
  shows "triple True False (probing before) (prepare_inner env) (\<lambda>_. decided env before) (undone env before)
    (\<lambda>f. undone env before f \<or> decided env before f)"
proof (cases "re_new_envelope env")
  case (Inl e)
  have "probing before f \<Longrightarrow> undone env before f" for f using ok probe_live by (auto simp: undone_def rotatable_def)
  then show ?thesis by (simp add: prepare_inner_def Inl triple_throw)
next
  case (Inr envelope)
  let ?C = "\<lambda>f. undone env before f \<or> decided env before f"
  have c: "clean before" using ok by (simp add: rotatable_def)
  have weaken: "triple True False P a Q (live_as before) (live_as before) \<Longrightarrow> triple True False P a Q (undone env before) ?C"
    for P Q and a :: "('a, 'z) rio"
    by (erule triple_weaken) (auto simp: undone_def)
  show ?thesis
    unfolding prepare_inner_def Inr sum.case
  proof (rule triple_bind [OF weaken [OF copy_triple [OF ok]]])
    fix rs
    let ?k = "\<lambda>images. let j = \<lparr>j_version = 1, j_state = Preparing, j_new_db_sha256 = None, j_new_envelope_sha256 = None,
        j_renames = rs, j_images = images\<rparr> in
      seq_io (write_journal env j)
      (seq_io (for_io rs (\<lambda>r. link_or_copy (Blob (rn_old r)) (Blob (rn_new r))))
      (seq_io (when_io (re_blobs_dir env) sync_to_disk)
      (seq_io (write_envelope env envelope)
      (seq_io (verify_rekeyed_copy env)
      (seq_io sync_to_disk
      (seq_io sync_to_disk
      (bind_io (sha256_file env (File New_Db)) (\<lambda>db_hash.
      (bind_io (sha256_file env New_Envelope) (\<lambda>envelope_hash.
      let j = j\<lparr>j_state := Prepared, j_new_db_sha256 := Some db_hash, j_new_envelope_sha256 := Some envelope_hash\<rparr> in
      seq_io (write_journal env j) (commit_journal env (j\<lparr>j_state := Committed\<rparr>))))))))))))"
    have "triple True False (copied before copy) (bind_io (prepare_rekeyed_images env) ?k) (\<lambda>_. decided env before)
        (undone env before) ?C"
      if copy: "copied_renames env before db copy rs" for db copy
    proof -
      obtain t where t: "plan env before = Some t" "target_ok env before t" "tg_db t = planned_base env before db copy"
        "tg_envelope t = envelope" "j_renames (tg_journal t) = rs" "j_images (tg_journal t) = planned_images env before"
        "tg_images t = planned_image_content env before"
        "journal_of env t Preparing = \<lparr>j_version = 1, j_state = Preparing, j_new_db_sha256 = None,
           j_new_envelope_sha256 = None, j_renames = rs, j_images = planned_images env before\<rparr>"
        "journal_of env t Committed = tg_journal t"
        by (rule plan_target [OF ok Inr copy])
      have good: "good_plan env before t" using ok t by (simp add: good_plan_def)
      have db: "before (File Db) = Some db" using copy by (simp add: copied_renames_def)
      have rest: "triple True False (imaged env before (planned_base env before db copy) all_images) (?k (planned_images env before))
          (\<lambda>_. decided env before) (undone env before) ?C"
        unfolding Let_def
        by (rule triple_weaken [OF prepare_rest_triple [OF good, unfolded Let_def t(3-5) t(8)]])
          (use good t(1) in \<open>auto simp: decided_def possibly_committed_def\<close>)
      have "triple True False (\<lambda>f. imaged env before (planned_base env before db copy) all_images f \<and>
          images = planned_images env before) (?k images) (\<lambda>_. decided env before) (undone env before) ?C" for images
        by (rule triple_assume) (simp only: rest)
      then show ?thesis by (rule triple_bind [OF weaken [OF images_triple [OF c db]]])
    qed
    then show "triple True False (\<lambda>f. \<exists>db copy. copied before copy f \<and> copied_renames env before db copy rs)
        (bind_io (prepare_rekeyed_images env) ?k) (\<lambda>_. decided env before) (undone env before) ?C"
      by (intro triple_disj triple_assume)
  qed
qed

lemma roll_back_found:
  assumes ok: "rotatable env before" and goes: "\<And>r. triple True complete (undone env before) (k r) Q E C"
    and dies: "\<And>f. undone env before f \<Longrightarrow> C f"
  shows "triple True complete (undone env before) (bind_io (read_journal env) (\<lambda>found.
      bind_io (attempt (roll_back (case found of Inr j \<Rightarrow> j | Inl _ \<Rightarrow> None))) k)) Q E C"
proof (rule triple_bind)
  have json: "json_ok env" using ok by (simp add: rotatable_def)
  let ?R = "\<lambda>found f. live_as before f \<and> found = Inr None \<or>
    (\<exists>j. open_journal before j \<and> undone_by env before j f \<and> found = Inr (Some j))"
  show "triple True complete (undone env before) (read_journal env) ?R E C"
  proof (rule read_journal_readable)
    fix f
    assume "undone env before f"
    then consider "live_as before f" | j where "open_journal before j" "undone_by env before j f"
      unfolding undone_def open_journal_def by blast
    then show "?R (decode_journal env (f Journal_File)) f"
    proof cases
      case 1
      then show ?thesis by (simp add: live_as_def decode_none)
    next
      case (2 j)
      then have "decode_journal env (f Journal_File) = Inr (Some j)"
        by (simp add: undone_by_def open_journal_def decode_written [OF json])
      then show ?thesis using 2 by blast
    qed
  qed (rule dies)
  fix found
  have "triple True complete (?R found) (attempt (roll_back (case found of Inr j \<Rightarrow> j | Inl _ \<Rightarrow> None)))
      (\<lambda>_. undone env before) E C"
  proof (cases found)
    case (Inr j)
    show ?thesis
    proof (cases j)
      case None
      have "triple True complete (live_as before) (attempt (roll_back None)) (\<lambda>_. undone env before) E C"
        by (rule triple_attempt [where complete = False and E = "live_as before"],
            rule triple_weaken [OF roll_back_stray_only]) (auto simp: undone_def dies)
      then show ?thesis by (simp add: Inr None)
    next
      case (Some k)
      have "triple True complete (undone_by env before k) (attempt (roll_back (Some k))) (\<lambda>_. undone env before) E C"
        if "open_journal before k"
        by (rule triple_attempt [where complete = False and E = "undone env before"],
            rule triple_weaken [OF roll_back_journal_only [of k before]])
          (use that dies in \<open>auto simp: undone_def open_journal_def\<close>)
      then show ?thesis by (auto simp: Inr Some triple_def)
    qed
  qed (simp add: triple_def)
  then show "triple True complete (?R found) (bind_io (attempt (roll_back (case found of Inr j \<Rightarrow> j | Inl _ \<Rightarrow> None))) k) Q E C"
    by (rule triple_bind) (rule goes)
qed

lemma prepare_and_commit_triple:
  assumes ok: "rotatable env before"
  shows "triple True False (\<lambda>f. f = before) (prepare_and_commit env) (\<lambda>_. decided env before) (undone env before)
    (\<lambda>f. undone env before f \<or> decided env before f)"
  unfolding prepare_and_commit_def
proof (rule triple_bind)
  let ?C = "\<lambda>f. undone env before f \<or> decided env before f"
  have start: "undone env before before" using ok by (auto simp: rotatable_def clean_def undone_def live_as_def)
  show "triple True False (\<lambda>f. f = before) (read_file Rekey_Io Envelope) (\<lambda>_ f. f = before) (undone env before) ?C"
    by (rule read_triple) (auto simp: start)
  fix current
  let ?after = "\<lambda>r. case r of Inr _ \<Rightarrow> give () | Inl e \<Rightarrow>
      bind_io (read_journal env) (\<lambda>found.
      bind_io (attempt (roll_back (case found of Inr j \<Rightarrow> j | Inl _ \<Rightarrow> None))) (\<lambda>_. throw e))"
  have inner: "triple True False (probing before) (bind_io (attempt (prepare_inner env)) ?after)
      (\<lambda>_. decided env before) (undone env before) ?C"
  proof (rule triple_bind)
    show "triple True False (probing before) (attempt (prepare_inner env))
        (\<lambda>r f. if r = Inr () then decided env before f else undone env before f) (undone env before) ?C"
      by (rule triple_attempt [where complete = False and E = "undone env before"])
        (use prepare_inner_triple [OF ok] in simp, simp)
    fix r :: "(rekey_error, unit) res"
    have "triple True False (undone env before) (?after (Inl e)) (\<lambda>_. decided env before) (undone env before) ?C" for e
      unfolding sum.case by (rule roll_back_found [OF ok]) (auto intro: triple_throw)
    then show "triple True False (\<lambda>f. if r = Inr () then decided env before f else undone env before f) (?after r)
        (\<lambda>_. decided env before) (undone env before) ?C"
      by (cases r) (auto intro: triple_give)
  qed
  have check: "triple True False (probing before) (check_disk env) (\<lambda>_. probing before) (undone env before) ?C"
    by (rule triple_weaken [OF check_disk_triple [where before = before]]) (use ok in \<open>auto simp: undone_def rotatable_def probe_live\<close>)
  have main: "triple True False (\<lambda>f. f = before) (seq_io (check_disk env) (bind_io (attempt (prepare_inner env)) ?after))
      (\<lambda>_. decided env before) (undone env before) ?C"
    by (rule triple_weaken [OF triple_seq [OF check inner]]) (auto simp: beside_def)
  let ?guarded = "\<lambda>left_over. if list_ex id left_over then throw (Rekey_Vault ''a previous key rotation was not cleaned up'')
      else seq_io (check_disk env) (bind_io (attempt (prepare_inner env)) ?after)"
  have "triple True False (\<lambda>f. f = before) (?guarded bs) (\<lambda>_. decided env before) (undone env before) ?C" for bs
    using main start by (auto intro: triple_throw)
  then have guarded: "triple True False (\<lambda>f. f = before) (bind_io (map_io exists_io [Journal_File, File New_Db, New_Envelope]) ?guarded)
      (\<lambda>_. decided env before) (undone env before) ?C"
    by (rule triple_bind [where Q' = "\<lambda>_ f. f = before", rotated]) (rule tripleI, simp add: exists_all del: map_io.simps)
  have refused: "triple True False (\<lambda>f. f = before) (throw e) (\<lambda>_. decided env before) (undone env before) ?C" for e
    by (rule triple_throw) (simp only: start)
  show "triple True False (\<lambda>f. f = before) (case re_open_envelope env current of Inl e \<Rightarrow> throw e
      | Inr _ \<Rightarrow> bind_io (map_io exists_io [Journal_File, File New_Db, New_Envelope]) ?guarded)
      (\<lambda>_. decided env before) (undone env before) ?C"
    using guarded refused by (cases "re_open_envelope env current") (simp_all only: sum.case)
qed

section \<open>The rotation as a whole\<close>

lemma finish_triple:
  assumes good: "good_plan env before t"
  shows "triple readable False (committed env before t) (finish_rotation env) (\<lambda>_. live_as (new_vault before t))
    (finished env before t) (finished env before t)"
  unfolding finish_rotation_def
proof (rule triple_bind)
  let ?F = "finished env before t" and ?j = "tg_journal t"
  have json: "json_ok env" and c: "clean before" and target: "target_ok env before t"
    using good by (simp_all add: good_plan_def rotatable_def)
  have j: "j_version ?j = 1" "j_state ?j = Committed" using target by (simp_all add: target_ok_def)
  have F: "committed env before t f \<Longrightarrow> ?F f" for f by (simp add: finished_def)
  show "triple readable False (committed env before t) (read_journal env)
      (\<lambda>found f. committed env before t f \<and> (found = Inl () \<or> found = Inr (Some ?j))) ?F ?F"
    by (rule read_journal_triple) (auto simp: F, auto simp: committed_def decode_written [OF json j(1)])
  fix found :: "(unit, journal option) res"
  let ?apply = "bind_io (committed_files_agree env ?j) (\<lambda>agree. if agree then apply_committed env ?j
      else throw (Rekey_Vault ''key rotation files do not match the journal''))"
  have agrees: "triple readable False (committed env before t) (committed_files_agree env ?j)
      (\<lambda>b f. committed env before t f \<and> b) ?F ?F"
    by (rule triple_weaken [OF triple_partial [OF files_agree_triple [OF target c]]]) (auto simp: F)
  have applies: "triple readable False (\<lambda>f. committed env before t f \<and> agree) (if agree then apply_committed env ?j
      else throw (Rekey_Vault ''key rotation files do not match the journal'')) (\<lambda>_. live_as (new_vault before t)) ?F ?F" for agree
    by (rule triple_assume) (simp add: triple_partial [OF apply_committed_triple [OF target c]])
  have whole: "triple readable False (committed env before t) ?apply (\<lambda>_. live_as (new_vault before t)) ?F ?F"
    by (rule triple_bind [OF agrees applies])
  have "triple readable False (committed env before t) (case found of Inl _ \<Rightarrow> throw (Rekey_Vault ''key rotation journal is not committed'')
      | Inr None \<Rightarrow> throw (Rekey_Vault ''key rotation journal is not committed'')
      | Inr (Some j) \<Rightarrow> if j_state j = Committed then bind_io (committed_files_agree env j) (\<lambda>agree.
            if agree then apply_committed env j
            else throw (Rekey_Vault ''key rotation files do not match the journal''))
          else throw (Rekey_Vault ''key rotation journal is not committed''))
      (\<lambda>_. live_as (new_vault before t)) ?F ?F" if "found = Inl () \<or> found = Inr (Some ?j)"
  proof (rule disjE [OF that])
    assume "found = Inl ()"
    then show ?thesis by (simp, intro triple_throw F)
  qed (use j whole in simp)
  then show "triple readable False (\<lambda>f. committed env before t f \<and> (found = Inl () \<or> found = Inr (Some ?j)))
      (case found of Inl _ \<Rightarrow> throw (Rekey_Vault ''key rotation journal is not committed'')
      | Inr None \<Rightarrow> throw (Rekey_Vault ''key rotation journal is not committed'')
      | Inr (Some j) \<Rightarrow> if j_state j = Committed then bind_io (committed_files_agree env j) (\<lambda>agree.
            if agree then apply_committed env j
            else throw (Rekey_Vault ''key rotation files do not match the journal''))
          else throw (Rekey_Vault ''key rotation journal is not committed''))
      (\<lambda>_. live_as (new_vault before t)) ?F ?F"
    by (rule triple_assume)
qed

definition rolled_on :: "'c rekey_env \<Rightarrow> (path \<rightharpoonup> 'c) \<Rightarrow> (path \<rightharpoonup> 'c) \<Rightarrow> bool" where
  "rolled_on env before f \<longleftrightarrow> (\<exists>t. good_plan env before t \<and> finished env before t f)"

definition reached :: "'c rekey_env \<Rightarrow> (path \<rightharpoonup> 'c) \<Rightarrow> (path \<rightharpoonup> 'c) \<Rightarrow> bool" where
  "reached env before f \<longleftrightarrow> undone env before f \<or> rolled_on env before f"

lemma rotate_triple:
  assumes ok: "rotatable env before"
  shows "triple True False (\<lambda>f. f = before) (rotate_key env) (\<lambda>_ f. \<exists>t. good_plan env before t \<and> live_as (new_vault before t) f)
    (reached env before) (reached env before)"
  unfolding rotate_key_def
proof (rule triple_seq)
  let ?Q = "\<lambda>f. \<exists>t. good_plan env before t \<and> live_as (new_vault before t) f" and ?R = "reached env before"
  show "triple True False (\<lambda>f. f = before) (prepare_and_commit env) (\<lambda>_ f. \<exists>t. good_plan env before t \<and> committed env before t f) ?R ?R"
    by (rule triple_weaken [OF prepare_and_commit_triple [OF ok]])
      (auto simp: reached_def rolled_on_def decided_def finished_def)
  have "triple True False (committed env before t) (bind_io (attempt (finish_rotation env)) (\<lambda>r.
      case r of Inr _ \<Rightarrow> give () | Inl e \<Rightarrow> bind_io (recover_interrupted_rekey env) (\<lambda>_. throw e))) (\<lambda>_. ?Q) ?R ?R"
    if good: "good_plan env before t" for t
  proof (rule triple_bind)
    let ?F = "finished env before t"
    have FR: "?F f \<Longrightarrow> ?R f" for f using good by (auto simp: reached_def rolled_on_def)
    show "triple True False (committed env before t) (attempt (finish_rotation env))
        (\<lambda>r f. if r = Inr () then ?Q f else ?F f) ?R ?R"
      by (rule triple_attempt [where complete = False and E = ?F], rule triple_weaken [OF finish_triple [OF good]])
        (use good FR in auto)
    fix r :: "(rekey_error, unit) res"
    have json: "json_ok env" "target_ok env before t" "clean before" using good by (simp_all add: good_plan_def rotatable_def)
    have "triple True False ?F (bind_io (recover_interrupted_rekey env) (\<lambda>_. throw e)) (\<lambda>_. ?Q) ?R ?R" for e
    proof (rule triple_bind)
      show "triple True False ?F (recover_interrupted_rekey env) (\<lambda>_. ?F) ?R ?R"
        by (rule triple_weaken [OF recover_finished [OF json, where E = ?F]]) (auto simp: FR)
    qed (auto intro: triple_throw FR)
    then show "triple True False (\<lambda>f. if r = Inr () then ?Q f else ?F f)
        (case r of Inr _ \<Rightarrow> give () | Inl e \<Rightarrow> bind_io (recover_interrupted_rekey env) (\<lambda>_. throw e)) (\<lambda>_. ?Q) ?R ?R"
      by (cases r) (auto intro: triple_give)
  qed
  then show "triple True False (\<lambda>f. \<exists>t. good_plan env before t \<and> committed env before t f)
      (bind_io (attempt (finish_rotation env)) (\<lambda>r.
        case r of Inr _ \<Rightarrow> give () | Inl e \<Rightarrow> bind_io (recover_interrupted_rekey env) (\<lambda>_. throw e))) (\<lambda>_. ?Q) ?R ?R"
    by (intro triple_disj) (auto simp: triple_def)
qed

section \<open>Restarts\<close>

text \<open>Each restart of the program runs recovery and meets faults of its own, which may kill it again.\<close>

definition restart :: "'c rekey_env \<Rightarrow> (path, 'c) world \<Rightarrow> 'c fault list \<Rightarrow> (path, 'c) world" where
  "restart env w ts = snd (recover_interrupted_rekey env (w\<lparr>wd_faults := ts\<rparr>))"

definition restarts :: "'c rekey_env \<Rightarrow> (path, 'c) world \<Rightarrow> 'c fault list list \<Rightarrow> (path, 'c) world" where
  "restarts env w tss = foldl (restart env) w tss"

definition undisturbed :: "('p, 'c) world \<Rightarrow> ('p, 'c) world" where
  "undisturbed w = w\<lparr>wd_faults := []\<rparr>"

lemma restarts_keep:
  assumes "triple False False S (recover_interrupted_rekey env) (\<lambda>_. S) S S" "S (wd_files w)"
  shows "S (wd_files (restarts env w tss))"
  using assms(2)
proof (induction tss arbitrary: w)
  case (Cons ts tss)
  have "meets False (\<lambda>_. S) S S ts (recover_interrupted_rekey env (w\<lparr>wd_faults := ts\<rparr>))"
    using tripleD [OF assms(1), of "w\<lparr>wd_faults := ts\<rparr>"] Cons.prems by simp
  then have "S (wd_files (restart env w ts))" unfolding restart_def by (auto elim: meets_cases)
  then show ?case using Cons.IH by (simp add: restarts_def)
qed (simp add: restarts_def)

lemma restarts_undone:
  "rotatable env before \<Longrightarrow> undone env before (wd_files w) \<Longrightarrow>
   recovers_to env (undisturbed (restarts env w tss)) {Clean, Rolled_Back} before"
  using quiet_undone [of env before "undisturbed (restarts env w tss)"]
    restarts_keep [OF recover_undone [of env False False before "undone env before"], of w tss]
  by (simp add: rotatable_def undisturbed_def)

lemma restarts_finished:
  assumes good: "good_plan env before t" and f: "finished env before t (wd_files w)"
  shows "recovers_to env (undisturbed (restarts env w tss)) {Clean, Rolled_Back, Rolled_Forward} (new_vault before t)"
proof -
  have ok: "json_ok env" "target_ok env before t" "clean before" using good by (simp_all add: good_plan_def rotatable_def)
  have "finished env before t (wd_files (restarts env w tss))" by (rule restarts_keep [OF recover_finished [OF ok] f])
  then show ?thesis by (intro quiet_finished [OF ok]) (simp_all add: undisturbed_def)
qed

definition vault_world :: "(path \<rightharpoonup> 'c) \<Rightarrow> 'c fault list \<Rightarrow> (path, 'c) world" where
  "vault_world v ts = \<lparr>wd_files = v, wd_faults = ts\<rparr>"

text \<open>
  C3: The rotation of the vault key is atomic, from a vault in which nothing of an earlier rotation or capture is
  left, whose blobs have distinct and unused names under the new key, and whose journal reads back as written
  (\<open>rotatable\<close>).  Whatever fails and wherever the program dies, during the rotation (in which no call that reads
  is struck, so that the journal stays readable) and during any number of restarts, the next undisturbed start ends
  without a contradiction, with every file of the vault as before the rotation or every file as planned: the
  re-encrypted database without the log of the old one, the new envelope, the images and the renamed blobs.
  A rotation that reports success has reached the planned vault.
\<close>
theorem rotation_atomic:
  "rotatable env before \<Longrightarrow> Unreadable \<notin> set faults \<Longrightarrow>
     (fst (rotate_key env (vault_world before faults)) = Returns () \<longrightarrow>
        (\<exists>t. plan env before = Some t \<and>
           live_as (new_vault before t) (wd_files (snd (rotate_key env (vault_world before faults)))))) \<and>
     (let w = undisturbed (restarts env (snd (rotate_key env (vault_world before faults))) again) in
        recovers_to env w {Clean, Rolled_Back} before \<or>
        (\<exists>t. plan env before = Some t \<and> recovers_to env w {Clean, Rolled_Back, Rolled_Forward} (new_vault before t)))"
proof -
  assume ok: "rotatable env before" and faults: "Unreadable \<notin> set faults"
  let ?w = "vault_world before faults" and ?out = "rotate_key env (vault_world before faults)"
  have m: "meets False (\<lambda>_ f. \<exists>t. good_plan env before t \<and> live_as (new_vault before t) f) (reached env before)
      (reached env before) (wd_faults ?w) ?out"
    by (rule tripleD [OF rotate_triple [OF ok]]) (simp_all add: vault_world_def faults)
  then have "reached env before (wd_files (snd ?out))"
    by (rule meets_cases) (auto simp: reached_def rolled_on_def finished_def)
  then have "recovers_to env (undisturbed (restarts env (snd ?out) again)) {Clean, Rolled_Back} before \<or>
      (\<exists>t. plan env before = Some t \<and>
        recovers_to env (undisturbed (restarts env (snd ?out) again)) {Clean, Rolled_Back, Rolled_Forward} (new_vault before t))"
    using restarts_undone [OF ok] restarts_finished
    unfolding reached_def rolled_on_def good_plan_def by blast
  moreover have "\<exists>t. plan env before = Some t \<and> live_as (new_vault before t) (wd_files (snd ?out))" if "fst ?out = Returns ()"
    using m that by (auto elim!: meets_cases simp: good_plan_def)
  ultimately show ?thesis by (simp add: Let_def)
qed

text \<open>
  C14: The commit point decides.  Under the same conditions, once preparing has returned, an undisturbed start
  after any sequence of interrupted ones ends in the new vault; when it has reported an error, in the vault before.
  A death while preparing may end in either, as above.
\<close>
theorem commit_point_decides:
  "rotatable env before \<Longrightarrow> Unreadable \<notin> set faults \<Longrightarrow>
     (let (r, w) = prepare_and_commit env (vault_world before faults); w' = undisturbed (restarts env w again) in
      case r of
        Returns _ \<Rightarrow> (\<exists>t. plan env before = Some t \<and>
           recovers_to env w' {Clean, Rolled_Back, Rolled_Forward} (new_vault before t))
      | Raises _ \<Rightarrow> recovers_to env w' {Clean, Rolled_Back} before
      | Died \<Rightarrow> True)"
proof -
  assume ok: "rotatable env before" and faults: "Unreadable \<notin> set faults"
  have "meets False (\<lambda>_. decided env before) (undone env before) (\<lambda>f. undone env before f \<or> decided env before f)
      (wd_faults (vault_world before faults)) (prepare_and_commit env (vault_world before faults))"
    by (rule tripleD [OF prepare_and_commit_triple [OF ok]]) (simp_all add: vault_world_def faults)
  then show ?thesis
  proof (rule meets_cases)
    fix x w
    assume out: "prepare_and_commit env (vault_world before faults) = (Returns x, w)" and "decided env before (wd_files w)"
    then obtain t where t: "good_plan env before t" "finished env before t (wd_files w)"
      by (auto simp: decided_def finished_def)
    then show ?thesis using restarts_finished [OF t, of again] by (auto simp: out good_plan_def)
  next
    fix e w
    assume out: "prepare_and_commit env (vault_world before faults) = (Raises e, w)" and "undone env before (wd_files w)"
    then show ?thesis using restarts_undone [OF ok] by (simp add: out)
  qed simp
qed

section \<open>A concrete rotation\<close>

text \<open>Contents are journals or texts; re-encryption marks the text.\<close>

definition sample_env :: "(journal + string) rekey_env" where
  "sample_env = \<lparr>
     re_sha256 = (\<lambda>c. case c of Inl _ \<Rightarrow> ''journal'' | Inr s \<Rightarrow> s), re_to_json = Inl,
     re_from_json = (\<lambda>c. case c of Inl j \<Rightarrow> Some j | Inr _ \<Rightarrow> None), re_empty = Inr [],
     re_open_envelope = (\<lambda>_. Inr ()), re_new_envelope = Inr (Inr ''new envelope''), re_worker_healthy = True,
     re_export = (\<lambda>c. case c of Inl j \<Rightarrow> Inl j | Inr s \<Rightarrow> Inr (''new '' @ s)), re_storage_ids = (\<lambda>_. [''a'']),
     re_new_storage_id = (\<lambda>_. Some ''b''), re_rewrap = (\<lambda>rs c. if distinct (map rn_new rs) then Some c else None),
     re_copy_ok = (\<lambda>_. True), re_image_readable = (\<lambda>_. True), re_image_ok = (\<lambda>_. True),
     re_ready_base = (\<lambda>_. None), re_set_base = (\<lambda>_ c. c), re_sizes = Inr (10, 5, 3), re_available = Inr 1000000000,
     re_link_sample = Some ''a'', re_blobs_dir = True, re_sync_dir = True\<rparr>"

definition sample_vault :: "path \<rightharpoonup> journal + string" where
  "sample_vault = Map.empty(File Db \<mapsto> Inr ''db'', Envelope \<mapsto> Inr ''envelope'', Blob ''a'' \<mapsto> Inr ''blob'',
     File (Image base_image_file) \<mapsto> Inr ''base'')"

lemma sample_rotatable: "rotatable sample_env sample_vault"
proof -
  have scratch: "sample_vault p = None" if "scratch p" for p
    using that by (cases p rule: scratch.cases) (auto simp: sample_vault_def link_probe_def)
  then have "clean sample_vault"
    using base_temp_live by (auto simp: clean_def sample_vault_def base_image_temp_def base_image_file_def)
  moreover have "json_ok sample_env" by (simp add: json_ok_def sample_env_def)
  moreover have "n = ''a''" if "sample_vault (Blob n) = Some c" for n c
    using that by (auto simp: sample_vault_def split: if_splits)
  moreover have "sample_vault (Blob ''b'') = None" by (simp add: sample_vault_def)
  ultimately show ?thesis by (auto simp: rotatable_def sample_env_def link_probe_def)
qed

lemma rotation_atomic_witness:
  "let w = undisturbed (restarts sample_env (snd (rotate_key sample_env
              (vault_world sample_vault [Works, Fails, Partly (Inr ''torn''), Dies]))) [[Works, Dies], [Unreadable]]) in
     recovers_to sample_env w {Clean, Rolled_Back} sample_vault \<or>
     (\<exists>t. plan sample_env sample_vault = Some t \<and>
        recovers_to sample_env w {Clean, Rolled_Back, Rolled_Forward} (new_vault sample_vault t))"
  by (rule conjunct2 [OF rotation_atomic [OF sample_rotatable]]) simp

lemma commit_point_decides_witness:
  "let (r, w) = prepare_and_commit sample_env (vault_world sample_vault []);
       w' = undisturbed (restarts sample_env w [[Works, Works, Dies], [Unreadable]]) in
     case r of
       Returns _ \<Rightarrow> (\<exists>t. plan sample_env sample_vault = Some t \<and>
          recovers_to sample_env w' {Clean, Rolled_Back, Rolled_Forward} (new_vault sample_vault t))
     | Raises _ \<Rightarrow> recovers_to sample_env w' {Clean, Rolled_Back} sample_vault
     | Died \<Rightarrow> True"
  by (rule commit_point_decides [OF sample_rotatable]) simp

text \<open>
  The journal has to stay readable while the rotation runs.  Where the rename that commits succeeds, the flush
  after it fails, and reading the journal back fails as well, the rotation undoes what the journal on disk says
  is committed; a death in between leaves that journal without its files, and recovery reports a contradiction.
\<close>

end
