(* ===== verification/Spec2Isabelle.thy ===== *)
theory Spec2Isabelle
  imports Money Ledger Accounts Pay_Schedule Gregorian Forecast Forecast_Layer2 Revolving Payoff
    Recurring_Detection Job_Worker Cbe Wire_Header Keys Membership_Properties
    Sync_Envelope Sync_Status Sync_Void Sync_Accepted Nonce_Safety State_Guard
    Rekey_Safety
begin

text \<open>
  A model of the core of DohFlow, a local-first personal finance program written in Rust, with the
  theorems that make it correct.

  \<^bold>\<open>The program and the theories.\<close>  Amounts (\<^verbatim>\<open>crates/core-money\<close>, theory \<open>Money\<close>) are 64-bit counts
  of minor units tagged with a currency; ledger transactions (\<^verbatim>\<open>crates/core-ledger/src/lib.rs\<close>,
  \<open>Ledger\<close>) are lists of postings of such amounts that balance; user-visible accounts
  (\<^verbatim>\<open>account.rs\<close>, \<open>Accounts\<close>) classify the ledger.  A pay schedule (\<^verbatim>\<open>crates/pay-schedule\<close>,
  \<open>Pay_Schedule\<close>) expands into dates; the forecast engine (\<^verbatim>\<open>crates/forecast-engine\<close>) folds dated
  events over a starting balance (\<^verbatim>\<open>lib.rs\<close>, \<open>Forecast\<close>), widens the balance by learned spending
  (\<^verbatim>\<open>layer2.rs\<close>, \<open>Forecast_Layer2\<close>), projects interest and payments of credit cards
  (\<^verbatim>\<open>revolving.rs\<close>, \<open>Revolving\<close>) and the paydown of debts (\<^verbatim>\<open>payoff.rs\<close>, \<open>Payoff\<close>).  Recurring bills
  are found in the history of outflows (\<^verbatim>\<open>crates/categorization/src/recurring_detection.rs\<close>,
  \<open>Recurring_Detection\<close>).  Background work is a table of durable jobs in the vault
  (\<^verbatim>\<open>crates/db-worker/src/jobs.rs\<close> and the table of \<^verbatim>\<open>migrations.rs\<close>; \<open>Job_Store\<close>,
  \<open>Job_Lifecycle\<close>, \<open>Job_Guarantees\<close>) swept by a runner (\<^verbatim>\<open>crates/job-runtime\<close>; \<open>Job_Runtime\<close> its
  data, \<open>Job_Runner\<close> its loop, \<open>Job_Sweep\<close> and \<open>Job_Worker\<close> what a sweep does).  The devices of a
  vault synchronize through records in a canonical binary encoding (\<^verbatim>\<open>crates/sync-core\<close>: \<^verbatim>\<open>cbe.rs\<close>,
  \<open>Cbe\<close>; the clear header and the container of \<^verbatim>\<open>header.rs\<close>, \<open>Wire_Header\<close>); who may read and write is
  a chain of signed records (\<^verbatim>\<open>membership.rs\<close>: the data in \<open>Membership\<close>, the verified state in
  \<open>Membership_State\<close>, the verifier in \<open>Membership_Chain\<close>, with the screens of public keys of
  \<^verbatim>\<open>keys.rs\<close>, \<open>Keys\<close>; what it guarantees in the other \<open>Membership\<close> theories).
  A command travels as a sealed envelope (\<^verbatim>\<open>envelope.rs\<close>, \<open>Sync_Envelope\<close>: plaintext, commitments, digest and
  receiver checks); the outcome of the checks drives the status of the replica (\<^verbatim>\<open>status.rs\<close>, \<open>Sync_Status\<close>);
  a void (\<^verbatim>\<open>void.rs\<close>, \<open>Sync_Void\<close>) lets it pass a position it found invalid; the service decides on a push,
  and the client on a pull, by the index of accepted envelopes (\<^verbatim>\<open>accepted.rs\<close>, \<open>Sync_Accepted\<close>).
  A sealed object takes its nonce from a register of counters (\<^verbatim>\<open>crates/vault-crypto/src/sync_counter.rs\<close> over
  the tables of \<^verbatim>\<open>crates/db-worker/src/sync_register.rs\<close>, \<open>Sync_Counter\<close>), which a witness outside the
  vault keeps from being rolled back (\<^verbatim>\<open>crates/platform-traits/src/witness.rs\<close> and its implementation in
  \<^verbatim>\<open>crates/platform-mock\<close>, \<open>Rollback_Witness\<close>); the same witness guards the verified chain
  (\<open>State_Guard\<close>).  The key of a vault is rotated by a protocol over its files
  (\<^verbatim>\<open>crates/finance-kernel/src/rekey.rs\<close> with its database side in \<^verbatim>\<open>crates/db-worker/src/rekey.rs\<close> and
  \<^verbatim>\<open>base_image.rs\<close> and its callers in \<^verbatim>\<open>vault.rs\<close>; \<open>Rekey\<close>, on the file operations of \<open>Crash_IO\<close>).
  \<open>Prelude\<close> holds what they share; each theory opens with the correspondence of its definitions to the code.

  \<^bold>\<open>How code is modelled.\<close>  A struct is a record, an enum a datatype, a \<^verbatim>\<open>Result\<close> a sum with the
  error on the left; a panic is a value of its own (an outer \<open>None\<close> or an error constructor), never
  left out.  Machine integers are \<open>int\<close> with the wrap-around (\<open>wrap64\<close>), saturation or check of the
  source written out, because most of them are signed quantities whose exact value the theorems
  speak of; identifiers are words.  Plain \<^verbatim>\<open>+\<close> and \<^verbatim>\<open>-\<close> wrap, as in the release build the program
  ships; in the verifier of the membership chain they, and indexing, are checked and panic
  (\<open>index_at\<close>, \<open>usize_add\<close> and the like of \<open>Membership_Chain\<close>), and it is shown that they never do.  A table is the list of its rows in row order, a statement a function on it; the runner
  works on a world that other threads and the database may change between its calls.

  \<^bold>\<open>Parameters.\<close>  Code outside the repository is an argument of the definitions that call it: the
  calendar and the time stamps of chrono (\<open>chrono_date\<close>, \<open>chrono_time\<close>; what is relied on is
  \<open>chrono_date_ok\<close> and \<open>chrono_time_ok\<close>, and the Gregorian calendar of \<open>Gregorian\<close> and the decimal
  stamps of \<open>Job_Lifecycle\<close> are instances), what SQLCipher, serde and the cryptographic library do to the
  content of files in a rotation (\<open>rekey_env\<close>; relied on is that a journal reads back as it was written and that
  the new blob names are distinct and not in use), the conversion of an instant to a local date, the
  floating-point statistics of one spend sample in the second forecast layer, SHA-256 and the
  elliptic-curve library (\<open>hash\<close>, \<open>dalek\<close>: whether bytes are a point, of small order, with torsion,
  and the strict verification; nothing is assumed of them).

  \<^bold>\<open>Loops.\<close>  A loop that the source bounds is structural recursion; the loops of \<open>Pay_Schedule\<close> and
  \<open>Recurring_Detection\<close> that stop only because dates grow are partial functions whose termination
  is part of the theorems; the payoff loop has the 600 months of the source as its bound, and the
  payment cascade a measure.

  \<^bold>\<open>What the lemmas show.\<close>
  \<^item> \<open>Money\<close>, \<open>Ledger\<close>, \<open>Accounts\<close>: exact results or the right error of every operation, rounding in
    each mode, round trips of the stored forms, and that accepted transactions always balance, one
    by one and summed over a ledger.
  \<^item> \<open>Pay_Schedule\<close>: a schedule yields exactly its occurrences in a window, each once, in order.
  \<^item> \<open>Forecast\<close>, \<open>Forecast_Layer2\<close>: closed forms of the fold, conservation of the events, no
    dependence on the order of the input, and bands that keep their order and never narrow.
  \<^item> \<open>Revolving\<close>, \<open>Payoff\<close>: money is accounted for through each cycle and month, payments stay within
    their limits, loops end, and debts without interest are paid off if the horizon suffices.
  \<^item> \<open>Recurring_Detection\<close>: the candidates are exactly the qualifying groups, with their median amount and gap.
  \<^item> \<open>Job_Guarantees\<close>: over every sequence of statements, rows meet the schema and decode, each job
    follows the abstract life cycle (the refinement), no job is claimed twice in an unlock window,
    crash recovery is the table of cases it is documented to be.
  \<^item> \<open>Job_Sweep\<close>, \<open>Job_Worker\<close>: what a sweep counts and leaves behind under any interference, from the
    contract \<open>job_store\<close> that the model of the worker's store is shown to meet.
  \<^item> \<open>Cbe\<close>, \<open>Wire_Header\<close>: the contract \<open>wire_field\<close> of one kind of field, met by every field the
    code has, and from it that each object has exactly one encoding and is read from nothing else.
  \<^item> \<open>Keys\<close>: the comparisons of bytes and limbs are arithmetic modulo the field prime and below the
    group order.
  \<^item> \<open>Membership_Guarantees\<close> to \<open>Membership_Properties\<close>: the verifier refines the steps of an abstract
    chain; over every chain it accepts, the invariant, immutability, who is sealed a key, that only a
    member can halt it, redelivery, the stored form, and that it does not panic.
  \<^item> \<open>Sync_Envelope\<close>: one encoding of a plaintext, and which headers pass the receiver checks with it.
  \<^item> \<open>Sync_Status\<close>: over all steps, observations only narrow what may be applied, a stop ends only through
    its own exits, a fork never; the order of verification does not matter.
  \<^item> \<open>Sync_Void\<close>: over all offers and restarts, the ledger is ordered and honors a void once, only at the
    replica's own verdict and on a member's signature; then the replica resumes.
  \<^item> \<open>Sync_Accepted\<close>: from the contract \<open>accepted_index\<close> that the index of the code meets, the decisions on
    push and pull are exact, and replay and binding mean equal bytes unless SHA-256 collides.
  \<^item> \<open>Nonce_Safety\<close>: from the contracts \<open>register_store\<close> and \<open>rollback_witness\<close>, over all interleavings,
    crashes and restores, no counter is handed out twice; a reservation alone is exact.
  \<^item> \<open>State_Guard\<close>: a state behind anything once recorded is refused, and verifying more never is.
  \<^item> \<open>Crash_IO\<close> to \<open>Rekey_Safety\<close>: programs over files whose every call may fail, tear what it writes or be the
    last before a death, with triples that state what holds after a return, an error and a death; from them, a
    rotation of the key, however often it and its recovery are cut short, ends in the old vault or in the new one,
    and the renaming of the journal decides which.  Queries whether a file is there are taken to be exact, the
    flushing to disk has no effect of its own (a death does not lose what a call has done), the checkpoint of the
    log before the export is not a step.
  \<^item> Some theorems record where the code departs from its comments; the manifest lists them.

  \<^bold>\<open>Not modelled.\<close>  The command log and the domain commands of the worker and the read models
  on top of it (SQL over the whole schema), the desktop shell and its interface, network
  connectors, parsers of statement files, log redaction, the dispatch of commands and the life cycle of a vault
  in the kernel (but for the rotation), calls of the operating system and of cryptographic libraries.  The rest of \<^verbatim>\<open>crates/sync-core\<close> (canonical
  JSON, snapshots, artifacts) and the pure rules of \<^verbatim>\<open>crates/categorization\<close> are the next parts to model.
\<close>

end
